(* ===== verification/Prelude.thy ===== *)
theory Prelude
  imports Main "HOL-Library.Word" "HOL-Library.Monad_Syntax"
begin

text \<open>
  Shared vocabulary of the development: the machine types of the i386 kernel
  (src/MemeOS/include/sys/types.h), the theorem collections the component theories fill and
  use, and the generic facts on words, options and lists they share.

  C code is modelled in the option monad: \<open>None\<close> is an execution with no defined result
  (a dereference of a null pointer, or a loop that never leaves), \<open>Some\<close> carries the value
  and the new state. Pointers, sizes and the contents of memory are machine words, so that
  every wrap-around of the code is one of the model.
\<close>

unbundle bit_operations_syntax

type_synonym u8 = "8 word"
type_synonym u16 = "16 word"
type_synonym u32 = "32 word"
type_synonym u64 = "64 word"
type_synonym addr = "32 word"
type_synonym mem = "addr \<Rightarrow> u8"

named_theorems mem_simps \<open>reads after writes of the flat memory\<close>
named_theorems fld_simps \<open>structure fields: reads after writes of another field\<close>
named_theorems frame_rules \<open>what an operation leaves unchanged\<close>

section \<open>Words as natural numbers\<close>

abbreviation two32 :: nat where
  "two32 \<equiv> 4294967296"

lemma unat_lt_two32 [simp]: "unat (a :: u32) < two32"
  using unsigned_less [of a] by simp

lemma unat_plus_one [simp]:
  assumes "unat (a :: u32) + 1 < two32"
  shows "unat (a + 1) = unat a + 1"
  using assms by (simp add: unat_word_ariths)

lemma unat_plus_of_nat [simp]:
  assumes "unat (a :: u32) + k < two32"
  shows "unat (a + of_nat k) = unat a + k"
proof -
  have "unat (of_nat k :: u32) = k"
    using assms by (simp add: unsigned_of_nat take_bit_nat_eq_self)
  with assms show ?thesis by (simp add: unat_word_ariths)
qed

lemma unat_plus_num [simp]:
  assumes "unat (a :: u32) + numeral k < two32"
  shows "unat (a + numeral k) = unat a + numeral k"
  using unat_plus_of_nat [of a "numeral k"] assms by simp

lemma unat_plus_fit:
  assumes "unat (a :: u32) + unat b < two32"
  shows "unat (a + b) = unat a + unat b"
  using assms by (simp add: unat_word_ariths)

lemma unat_minus_fit:
  assumes "b \<le> (a :: u32)"
  shows "unat (a - b) = unat a - unat b"
  using assms by (simp add: unat_sub)

lemma unat_of_nat_fit [simp]:
  "n < two32 \<Longrightarrow> unat (of_nat n :: u32) = n"
  by (simp add: unsigned_of_nat take_bit_nat_eq_self)

lemma of_nat_inj_fit:
  assumes "x < two32" and "y < two32"
  shows "(of_nat x :: u32) = of_nat y \<longleftrightarrow> x = y"
  using assms unat_of_nat_fit by metis

lemma of_nat_zero_fit [simp]:
  "n < two32 \<Longrightarrow> (of_nat n :: u32) = 0 \<longleftrightarrow> n = 0"
  using of_nat_inj_fit [of n 0] by simp

lemma of_nat_less_fit:
  "x < two32 \<Longrightarrow> y < two32 \<Longrightarrow> (of_nat x :: u32) < of_nat y \<longleftrightarrow> x < y"
  by (simp add: word_less_nat_alt)

lemma word_neq_unat: "(a :: 'a::len word) \<noteq> b \<longleftrightarrow> unat a \<noteq> unat b"
  by (simp add: word_unat_eq_iff)

section \<open>Options\<close>

lemma bind_Some_iff:
  "Option.bind x f = Some y \<longleftrightarrow> (\<exists>z. x = Some z \<and> f z = Some y)"
  by (cases x) auto

lemma case_list_Some_iff:
  "(case xs of [] \<Rightarrow> None | c # r \<Rightarrow> g c r) = Some y \<longleftrightarrow> (\<exists>c r. xs = c # r \<and> g c r = Some y)"
  by (cases xs) auto

end
