(* ===== verification/Layout.thy ===== *)
theory Layout
  imports Prelude
begin

text \<open>
  Structure layouts. The kernel's structures are bytes of the flat memory, read and written at
  numeric offsets in the component theories. This theory declares the structures as the headers
  under src/MemeOS/include/sys/ do and computes where the i386 compiler puts their members, so that
  the offsets can be checked against the declarations.

  Integers are aligned to their size and at most to four bytes, pointers to four; a member starts at
  the next multiple of its alignment, and a structure's size is rounded up to the largest alignment
  of its members. In a packed structure nothing is aligned.
\<close>

section \<open>Types\<close>

datatype ctype =
    CInt nat
  | CPtr
  | CArray nat ctype
  | CStruct bool "(string \<times> ctype) list"
  | CUnion "(string \<times> ctype) list"

abbreviation (input) c_char :: ctype where "c_char \<equiv> CInt 1"
abbreviation (input) c_int :: ctype where "c_int \<equiv> CInt 4"
abbreviation (input) c_long :: ctype where "c_long \<equiv> CInt 4"
abbreviation (input) c_enum :: ctype where "c_enum \<equiv> CInt 4"
abbreviation (input) size_t :: ctype where "size_t \<equiv> CInt 4"
abbreviation (input) uint8_t :: ctype where "uint8_t \<equiv> CInt 1"
abbreviation (input) uint16_t :: ctype where "uint16_t \<equiv> CInt 2"
abbreviation (input) uint32_t :: ctype where "uint32_t \<equiv> CInt 4"
abbreviation (input) uint64_t :: ctype where "uint64_t \<equiv> CInt 8"
abbreviation (input) struct :: "(string \<times> ctype) list \<Rightarrow> ctype" where "struct \<equiv> CStruct False"
abbreviation (input) packed_struct :: "(string \<times> ctype) list \<Rightarrow> ctype" where "packed_struct \<equiv> CStruct True"

section \<open>Sizes and offsets\<close>

definition round_up :: "nat \<Rightarrow> nat \<Rightarrow> nat" where
  "round_up a n = (n + a - 1) div a * a"

fun largest :: "nat \<Rightarrow> nat list \<Rightarrow> nat" where
  "largest b [] = b"
| "largest b (x # xs) = largest (if b < x then x else b) xs"

fun alignof :: "ctype \<Rightarrow> nat" where
  "alignof (CInt w) = (if w < 2 then 1 else if w < 4 then 2 else 4)"
| "alignof CPtr = 4"
| "alignof (CArray n t) = alignof t"
| "alignof (CStruct packed fs) = (if packed then 1 else largest 1 (map (\<lambda>f. alignof (snd f)) fs))"
| "alignof (CUnion fs) = largest 1 (map (\<lambda>f. alignof (snd f)) fs)"

definition next_pos :: "bool \<Rightarrow> nat \<Rightarrow> nat \<Rightarrow> nat" where
  "next_pos packed al p = (if packed then p else round_up al p)"

text \<open>Members of given size and alignment one after the other, from position \<open>p\<close> on: their offsets and the end.\<close>

fun place :: "bool \<Rightarrow> nat \<Rightarrow> (nat \<times> nat) list \<Rightarrow> nat list \<times> nat" where
  "place packed p [] = ([], p)"
| "place packed p ((sz, al) # ms) =
     (case place packed (next_pos packed al p + sz) ms of (offs, e) \<Rightarrow> (next_pos packed al p # offs, e))"

fun sizeof :: "ctype \<Rightarrow> nat" where
  "sizeof (CInt w) = w"
| "sizeof CPtr = 4"
| "sizeof (CArray n t) = n * sizeof t"
| "sizeof (CStruct packed fs) = round_up (alignof (CStruct packed fs))
     (snd (place packed 0 (map (\<lambda>f. (sizeof (snd f), alignof (snd f))) fs)))"
| "sizeof (CUnion fs) = round_up (alignof (CUnion fs)) (largest 0 (map (\<lambda>f. sizeof (snd f)) fs))"

fun members :: "ctype \<Rightarrow> (string \<times> nat \<times> ctype) list" where
  "members (CStruct packed fs) =
     map (\<lambda>((name, t), off). (name, off, t))
       (zip fs (fst (place packed 0 (map (\<lambda>f. (sizeof (snd f), alignof (snd f))) fs))))"
| "members (CUnion fs) = map (\<lambda>(name, t). (name, 0, t)) fs"
| "members _ = []"

text \<open>Offset and type of the member a path of names leads to.\<close>

fun member_at :: "ctype \<Rightarrow> string list \<Rightarrow> (nat \<times> ctype) option" where
  "member_at t [] = Some (0, t)"
| "member_at t (name # path) =
     (case map_of (members t) name of None \<Rightarrow> None
      | Some (off, t') \<Rightarrow> map_option (\<lambda>(o', u). (off + o', u)) (member_at t' path))"

definition offsetof :: "ctype \<Rightarrow> string list \<Rightarrow> nat option" where
  "offsetof t path = map_option fst (member_at t path)"

section \<open>The kernel's structures\<close>

definition block_header :: ctype where
  "block_header = packed_struct [(''prev'', CPtr), (''next'', CPtr), (''size'', size_t), (''is_free'', c_int)]"

definition task_struct_t :: ctype where
  "task_struct_t = packed_struct
     [(''esp'', uint32_t), (''stack'', CPtr), (''callable'', CPtr), (''arg'', CPtr), (''retval'', CPtr),
      (''tid'', c_int), (''utime'', c_long), (''sleep_time'', c_long), (''priority'', c_long),
      (''status'', c_enum), (''fd_table'', CArray 16 CPtr), (''prev'', CPtr), (''next'', CPtr)]"

definition FILE :: ctype where
  "FILE = packed_struct
     [(''fd'', c_int), (''dir_pos'', c_int), (''seek_head'', size_t), (''path'', CPtr), (''inode_ptr'', CPtr)]"

definition inode_t :: ctype where
  "inode_t = packed_struct
     [(''type'', c_enum), (''size'', size_t), (''attrib'', uint32_t), (''dirblock_ptr'', CPtr),
      (''direct_block_ptrs'', CArray 8 CPtr), (''indirect_block_ptr'', CPtr),
      (''double_indirect_block_ptr'', CPtr), (''padding'', CArray 2 uint32_t)]"

definition ufs_dirent_t :: ctype where
  "ufs_dirent_t = packed_struct [(''filename'', CArray 14 c_char), (''inode_num'', uint16_t)]"

definition ufs_dirblock_t :: ctype where
  "ufs_dirblock_t = packed_struct [(''entries'', CArray 16 ufs_dirent_t)]"

definition ufs_datablock_t :: ctype where
  "ufs_datablock_t = packed_struct [(''data'', CArray 0x100 c_char)]"

definition ufs_superblock_t :: ctype where
  "ufs_superblock_t = packed_struct
     [(''magic'', uint32_t), (''num_blocks'', uint32_t), (''block_size'', size_t), (''num_inodes'', uint32_t),
      (''num_free_blocks'', uint32_t), (''num_free_inodes'', uint32_t), (''num_dirs'', uint32_t),
      (''num_files'', uint32_t), (''inode_array'', CPtr), (''blk_bitmap'', CPtr), (''root_blk'', CPtr),
      (''padding'', CArray 53 uint32_t)]"

definition IDTDesc :: ctype where
  "IDTDesc = packed_struct
     [(''offset_lo'', uint16_t), (''selector'', uint16_t), (''zero'', uint8_t), (''flags'', uint8_t),
      (''offset_hi'', uint16_t)]"

definition IDTR :: ctype where
  "IDTR = packed_struct [(''limit'', uint16_t), (''base'', CPtr)]"

text \<open>The structures of the boot loader's interface.\<close>

definition multiboot_header :: ctype where
  "multiboot_header = struct
     [(''magic'', uint32_t), (''flags'', uint32_t), (''checksum'', uint32_t), (''header_addr'', uint32_t),
      (''load_addr'', uint32_t), (''load_end_addr'', uint32_t), (''bss_end_addr'', uint32_t),
      (''entry_addr'', uint32_t), (''mode_type'', uint32_t), (''width'', uint32_t), (''height'', uint32_t),
      (''depth'', uint32_t)]"

definition multiboot_aout_symbol_table :: ctype where
  "multiboot_aout_symbol_table = struct
     [(''tabsize'', uint32_t), (''strsize'', uint32_t), (''addr'', uint32_t), (''reserved'', uint32_t)]"

definition multiboot_elf_section_header_table :: ctype where
  "multiboot_elf_section_header_table = struct
     [(''num'', uint32_t), (''size'', uint32_t), (''addr'', uint32_t), (''shndx'', uint32_t)]"

text \<open>Members without a name are anonymous unions and structures.\<close>

definition multiboot_info :: ctype where
  "multiboot_info = struct
     [(''flags'', uint32_t), (''mem_lower'', uint32_t), (''mem_upper'', uint32_t), (''boot_device'', uint32_t),
      (''cmdline'', uint32_t), (''mods_count'', uint32_t), (''mods_addr'', uint32_t),
      (''u'', CUnion [(''aout_sym'', multiboot_aout_symbol_table), (''elf_sec'', multiboot_elf_section_header_table)]),
      (''mmap_length'', uint32_t), (''mmap_addr'', uint32_t), (''drives_length'', uint32_t),
      (''drives_addr'', uint32_t), (''config_table'', uint32_t), (''boot_loader_name'', uint32_t),
      (''apm_table'', uint32_t), (''vbe_control_info'', uint32_t), (''vbe_mode_info'', uint32_t),
      (''vbe_mode'', uint16_t), (''vbe_interface_seg'', uint16_t), (''vbe_interface_off'', uint16_t),
      (''vbe_interface_len'', uint16_t), (''framebuffer_addr'', uint64_t), (''framebuffer_pitch'', uint32_t),
      (''framebuffer_width'', uint32_t), (''framebuffer_height'', uint32_t), (''framebuffer_bpp'', uint8_t),
      (''framebuffer_type'', uint8_t),
      ([], CUnion
        [([], struct [(''framebuffer_palette_addr'', uint32_t), (''framebuffer_palette_num_colors'', uint16_t)]),
         ([], struct
           [(''framebuffer_red_field_position'', uint8_t), (''framebuffer_red_mask_size'', uint8_t),
            (''framebuffer_green_field_position'', uint8_t), (''framebuffer_green_mask_size'', uint8_t),
            (''framebuffer_blue_field_position'', uint8_t), (''framebuffer_blue_mask_size'', uint8_t)])])]"

definition multiboot_color :: ctype where
  "multiboot_color = struct [(''red'', uint8_t), (''green'', uint8_t), (''blue'', uint8_t)]"

definition multiboot_mmap_entry :: ctype where
  "multiboot_mmap_entry = packed_struct
     [(''size'', uint32_t), (''addr'', uint64_t), (''len'', uint64_t), (''type'', uint32_t)]"

definition multiboot_mod_list :: ctype where
  "multiboot_mod_list = struct
     [(''mod_start'', uint32_t), (''mod_end'', uint32_t), (''cmdline'', uint32_t), (''pad'', uint32_t)]"

definition multiboot_apm_info :: ctype where
  "multiboot_apm_info = struct
     [(''version'', uint16_t), (''cseg'', uint16_t), (''offset'', uint32_t), (''cseg_16'', uint16_t),
      (''dseg'', uint16_t), (''flags'', uint16_t), (''cseg_len'', uint16_t), (''cseg_16_len'', uint16_t),
      (''dseg_len'', uint16_t)]"

lemmas struct_defs = block_header_def task_struct_t_def FILE_def inode_t_def ufs_dirent_t_def
  ufs_dirblock_t_def ufs_datablock_t_def ufs_superblock_t_def IDTDesc_def IDTR_def multiboot_header_def
  multiboot_aout_symbol_table_def multiboot_elf_section_header_table_def multiboot_info_def
  multiboot_color_def multiboot_mmap_entry_def multiboot_mod_list_def multiboot_apm_info_def

definition kernel_structs :: "ctype list" where
  "kernel_structs = [block_header, task_struct_t, FILE, inode_t, ufs_dirent_t, ufs_dirblock_t, ufs_datablock_t,
     ufs_superblock_t, IDTDesc, IDTR, multiboot_header, multiboot_aout_symbol_table,
     multiboot_elf_section_header_table, multiboot_info, multiboot_color, multiboot_mmap_entry,
     multiboot_mod_list, multiboot_apm_info]"

definition offsets_are :: "ctype \<Rightarrow> (string list \<times> u32) list \<Rightarrow> bool" where
  "offsets_are t table \<longleftrightarrow> list_all (\<lambda>(path, off). offsetof t path = Some (unat off)) table"

section \<open>Members lie apart\<close>

lemma round_up_ge: "0 < a \<Longrightarrow> n \<le> round_up a n"
proof -
  assume "0 < a"
  have "n + a - 1 = (n + a - 1) div a * a + (n + a - 1) mod a" by simp
  moreover have "(n + a - 1) mod a < a" using \<open>0 < a\<close> by simp
  ultimately show ?thesis using \<open>0 < a\<close> unfolding round_up_def by linarith
qed

lemma round_up_dvd: "a dvd round_up a n"
  by (simp add: round_up_def)

lemma largest_ge: "b \<le> largest b xs"
  by (induction b xs rule: largest.induct) auto

lemma largest_ge_mem: "x \<in> set xs \<Longrightarrow> x \<le> largest b xs"
proof (induction b xs rule: largest.induct)
  case (2 b y xs)
  then show ?case using largest_ge [of "if b < y then y else b" xs] by (auto split: if_splits)
qed simp

lemma alignof_pos: "0 < alignof t"
proof (induction t rule: alignof.induct)
  case (4 packed fs)
  show ?case using largest_ge [of 1 "map (\<lambda>f. alignof (snd f)) fs"] by simp
next
  case (5 fs)
  show ?case using largest_ge [of 1 "map (\<lambda>f. alignof (snd f)) fs"] by simp
qed auto

lemma place_length [simp]: "length (fst (place packed p ms)) = length ms"
  by (induction packed p ms rule: place.induct) (auto split: prod.splits)

lemma place_aligned:
  assumes "place False p ms = (offs, e)" and "i < length ms"
  shows "snd (ms ! i) dvd offs ! i"
  using assms
proof (induction False p ms arbitrary: offs e i rule: place.induct)
  case (2 p sz al ms)
  then show ?case
    by (cases i) (auto simp: next_pos_def round_up_dvd split: prod.splits)
qed simp

text \<open>The members of a type, in order, lie one after the other inside it.\<close>

fun in_order :: "nat \<Rightarrow> (string \<times> nat \<times> ctype) list \<Rightarrow> nat \<Rightarrow> bool" where
  "in_order p [] e \<longleftrightarrow> p \<le> e"
| "in_order p ((name, off, t) # ms) e \<longleftrightarrow> p \<le> off \<and> in_order (off + sizeof t) ms e"

lemma in_order_weaken: "in_order p ms e \<Longrightarrow> e \<le> e' \<Longrightarrow> in_order p ms e'"
  by (induction p ms e rule: in_order.induct) auto

lemma place_in_order:
  "place packed p (map (\<lambda>f. (sizeof (snd f), alignof (snd f))) fs) = (offs, e) \<Longrightarrow>
   in_order p (map (\<lambda>((name, t), off). (name, off, t)) (zip fs offs)) e"
proof (induction fs arbitrary: p offs)
  case (Cons f fs)
  define q where "q = next_pos packed (alignof (snd f)) p"
  obtain os where pl: "place packed (q + sizeof (snd f)) (map (\<lambda>f. (sizeof (snd f), alignof (snd f))) fs) = (os, e)"
    and o: "offs = q # os"
    using Cons.prems by (auto simp: q_def split: prod.splits)
  have "p \<le> q" using round_up_ge [OF alignof_pos] by (simp add: q_def next_pos_def)
  then show ?case using Cons.IH [OF pl] by (cases f) (simp add: o)
qed simp

lemma struct_in_order: "in_order 0 (members (CStruct packed fs)) (sizeof (CStruct packed fs))"
proof -
  obtain offs e where pl: "place packed 0 (map (\<lambda>f. (sizeof (snd f), alignof (snd f))) fs) = (offs, e)" by fastforce
  show ?thesis
    using in_order_weaken [OF place_in_order [OF pl] round_up_ge [OF alignof_pos [of "CStruct packed fs"]]]
    by (simp add: pl)
qed

text \<open>A path of member names stays within the object it starts from.\<close>

lemma in_order_end: "in_order p ms e \<Longrightarrow> p \<le> e"
  by (induction p ms e rule: in_order.induct) auto

lemma in_order_member: "in_order p ms e \<Longrightarrow> (name, off, t) \<in> set ms \<Longrightarrow> off + sizeof t \<le> e"
  by (induction p ms e rule: in_order.induct) (auto dest: in_order_end)

lemma member_within:
  assumes "map_of (members t) name = Some (off, u)"
  shows "off + sizeof u \<le> sizeof t"
proof (cases t rule: members.cases)
  case (1 packed fs)
  then show ?thesis
    using in_order_member [OF struct_in_order map_of_SomeD [OF assms [unfolded 1]]] by (simp only: 1)
next
  case (2 fs)
  from assms have "off = 0" "(name, u) \<in> set fs" using 2 by (auto dest!: map_of_SomeD)
  then have "sizeof u \<le> largest 0 (map (\<lambda>f. sizeof (snd f)) fs)" by (intro largest_ge_mem) force
  then show ?thesis
    using \<open>off = 0\<close> 2 round_up_ge [OF alignof_pos [of t], of "largest 0 (map (\<lambda>f. sizeof (snd f)) fs)"] by simp
qed (use assms in auto)

lemma member_at_within: "member_at t path = Some (off, u) \<Longrightarrow> off + sizeof u \<le> sizeof t"
proof (induction t path arbitrary: off u rule: member_at.induct)
  case (2 t name path)
  then obtain o1 t1 o2 where "map_of (members t) name = Some (o1, t1)" "member_at t1 path = Some (o2, u)" "off = o1 + o2"
    by (auto split: option.splits)
  then show ?case using member_within [of t name o1 t1] "2.IH" [of "(o1, t1)" o1 t1 o2 u] by simp
qed simp

end
