(* ===== verification/Memory.thy ===== *)
theory Memory
  imports Prelude
begin

text \<open>
  The physical memory of the machine: the kernel runs without paging, so an address is a
  32-bit word and every structure of the kernel (allocator headers, task control blocks, open
  files, inodes, directory blocks, the video buffer) is bytes of this one memory. Multi-byte
  values are little endian, as the i386 stores them.

  A structure field is read and written through \<open>rd32\<close> and \<open>wr32\<close> (\<open>p->f\<close> with the byte
  offset of \<open>f\<close>), which have no result on a null \<open>p\<close>. The lemmas say that a read sees the last
  write to its bytes and no other; the component theories derive the laws of their fields from
  them.
\<close>

section \<open>Loads and stores\<close>

definition ld16 :: "mem \<Rightarrow> addr \<Rightarrow> u16" where
  "ld16 m a = ucast (m a) OR push_bit 8 (ucast (m (a + 1)))"

definition st16 :: "mem \<Rightarrow> addr \<Rightarrow> u16 \<Rightarrow> mem" where
  "st16 m a v = m(a := ucast v, a + 1 := ucast (drop_bit 8 v))"

definition ld32 :: "mem \<Rightarrow> addr \<Rightarrow> u32" where
  "ld32 m a = ucast (m a) OR push_bit 8 (ucast (m (a + 1)))
     OR push_bit 16 (ucast (m (a + 2))) OR push_bit 24 (ucast (m (a + 3)))"

definition st32 :: "mem \<Rightarrow> addr \<Rightarrow> u32 \<Rightarrow> mem" where
  "st32 m a v = m(a := ucast v, a + 1 := ucast (drop_bit 8 v),
     a + 2 := ucast (drop_bit 16 v), a + 3 := ucast (drop_bit 24 v))"

definition rd8 :: "mem \<Rightarrow> addr \<Rightarrow> u32 \<Rightarrow> u8 option" where
  "rd8 m p off = (if p = 0 then None else Some (m (p + off)))"

definition wr8 :: "mem \<Rightarrow> addr \<Rightarrow> u32 \<Rightarrow> u8 \<Rightarrow> mem option" where
  "wr8 m p off v = (if p = 0 then None else Some (m(p + off := v)))"

definition rd16 :: "mem \<Rightarrow> addr \<Rightarrow> u32 \<Rightarrow> u16 option" where
  "rd16 m p off = (if p = 0 then None else Some (ld16 m (p + off)))"

definition wr16 :: "mem \<Rightarrow> addr \<Rightarrow> u32 \<Rightarrow> u16 \<Rightarrow> mem option" where
  "wr16 m p off v = (if p = 0 then None else Some (st16 m (p + off) v))"

definition rd32 :: "mem \<Rightarrow> addr \<Rightarrow> u32 \<Rightarrow> u32 option" where
  "rd32 m p off = (if p = 0 then None else Some (ld32 m (p + off)))"

definition wr32 :: "mem \<Rightarrow> addr \<Rightarrow> u32 \<Rightarrow> u32 \<Rightarrow> mem option" where
  "wr32 m p off v = (if p = 0 then None else Some (st32 m (p + off) v))"

text \<open>The bytes of a region: the addresses from \<open>p\<close> on, \<open>n\<close> of them, with no wrap-around.\<close>

definition region :: "addr \<Rightarrow> nat \<Rightarrow> addr set" where
  "region p n = {a. unat p \<le> unat a \<and> unat a < unat p + n}"

text \<open>Two memories agree outside a set of addresses.\<close>

definition eq_out :: "addr set \<Rightarrow> mem \<Rightarrow> mem \<Rightarrow> bool" where
  "eq_out A m m' \<longleftrightarrow> (\<forall>a. a \<notin> A \<longrightarrow> m' a = m a)"

section \<open>Reads after writes\<close>

lemma rd_nonnull [simp]:
  "p \<noteq> 0 \<Longrightarrow> rd8 m p off = Some (m (p + off))"
  "p \<noteq> 0 \<Longrightarrow> wr8 m p off b = Some (m(p + off := b))"
  "p \<noteq> 0 \<Longrightarrow> rd16 m p off = Some (ld16 m (p + off))"
  "p \<noteq> 0 \<Longrightarrow> wr16 m p off h = Some (st16 m (p + off) h)"
  "p \<noteq> 0 \<Longrightarrow> rd32 m p off = Some (ld32 m (p + off))"
  "p \<noteq> 0 \<Longrightarrow> wr32 m p off v = Some (st32 m (p + off) v)"
  by (simp_all add: rd8_def wr8_def rd16_def wr16_def rd32_def wr32_def)

lemma rd_null [simp]:
  "rd8 m 0 off = None" "wr8 m 0 off b = None"
  "rd16 m 0 off = None" "wr16 m 0 off h = None"
  "rd32 m 0 off = None" "wr32 m 0 off v = None"
  by (simp_all add: rd8_def wr8_def rd16_def wr16_def rd32_def wr32_def)

lemma bytes_of_word:
  fixes v :: u32
  shows "ucast (ucast v :: u8) OR push_bit 8 (ucast (ucast (drop_bit 8 v) :: u8))
     OR push_bit 16 (ucast (ucast (drop_bit 16 v) :: u8))
     OR push_bit 24 (ucast (ucast (drop_bit 24 v) :: u8)) = v" (is "?w = v")
proof (rule bit_word_eqI)
  fix n assume "n < LENGTH(32)"
  then consider "n < 8" | "8 \<le> n \<and> n < 16" | "16 \<le> n \<and> n < 24" | "24 \<le> n \<and> n < 32"
    by fastforce
  then show "bit ?w n = bit v n"
    by cases (auto simp: bit_simps)
qed

lemma ld32_st32_same [simp, mem_simps]: "ld32 (st32 m a v) a = v"
  by (simp add: ld32_def st32_def bytes_of_word)

lemma ld32_zero [simp]: "ld32 (\<lambda>_. 0) a = 0"
  by (simp add: ld32_def)

lemma ld16_st16_same [simp, mem_simps]: "ld16 (st16 m a v) a = v"
proof -
  have "ucast (ucast v :: u8) OR push_bit 8 (ucast (ucast (drop_bit 8 v) :: u8)) = v"
    by (rule bit_word_eqI) (auto simp: bit_simps)
  then show ?thesis by (simp add: ld16_def st16_def)
qed

lemma st32_apply:
  "b \<noteq> a \<Longrightarrow> b \<noteq> a + 1 \<Longrightarrow> b \<noteq> a + 2 \<Longrightarrow> b \<noteq> a + 3 \<Longrightarrow> st32 m a v b = m b"
  by (simp add: st32_def)

lemma st16_apply: "b \<noteq> a \<Longrightarrow> b \<noteq> a + 1 \<Longrightarrow> st16 m a v b = m b"
  by (simp add: st16_def)

text \<open>
  Two intervals of addresses that do not wrap are apart; this is the side condition of every
  frame law below, in natural numbers so that linear arithmetic decides it.
\<close>

definition apart :: "addr \<Rightarrow> nat \<Rightarrow> addr \<Rightarrow> nat \<Rightarrow> bool" where
  "apart a n b k \<longleftrightarrow> unat a + n \<le> two32 \<and> unat b + k \<le> two32 \<and>
     (unat a + n \<le> unat b \<or> unat b + k \<le> unat a)"

lemma apart_sym: "apart a n b k \<longleftrightarrow> apart b k a n"
  by (auto simp: apart_def)

lemma apart_neq:
  assumes "apart a n b k" and "i < n" and "j < k"
  shows "a + of_nat i \<noteq> b + of_nat j"
proof -
  have "unat (a + of_nat i) = unat a + i" and "unat (b + of_nat j) = unat b + j"
    using assms by (auto simp: apart_def)
  with assms show ?thesis by (auto simp: apart_def word_neq_unat)
qed

lemma apart4_neqs:
  assumes "apart a 4 b k" and "j < k"
  shows "b + of_nat j \<noteq> a" "b + of_nat j \<noteq> a + 1" "b + of_nat j \<noteq> a + 2" "b + of_nat j \<noteq> a + 3"
  using apart_neq [OF assms(1), of 0 j] apart_neq [OF assms(1), of 1 j]
    apart_neq [OF assms(1), of 2 j] apart_neq [OF assms(1), of 3 j] assms(2)
  by auto

lemma st32_apart [mem_simps]:
  assumes "apart a 4 b 1"
  shows "st32 m a v b = m b"
  using apart4_neqs [OF assms, of 0] by (simp add: st32_apply)

lemma ld32_cong:
  assumes "m b = m' b" "m (b + 1) = m' (b + 1)" "m (b + 2) = m' (b + 2)" "m (b + 3) = m' (b + 3)"
  shows "ld32 m b = ld32 m' b"
  using assms by (simp add: ld32_def)

lemma ld32_st32_apart [mem_simps]:
  assumes "apart a 4 b 4"
  shows "ld32 (st32 m a v) b = ld32 m b"
proof (rule ld32_cong)
  show "st32 m a v b = m b" using apart4_neqs [OF assms, of 0] by (simp add: st32_apply)
  show "st32 m a v (b + 1) = m (b + 1)" using apart4_neqs [OF assms, of 1] by (simp add: st32_apply)
  show "st32 m a v (b + 2) = m (b + 2)" using apart4_neqs [OF assms, of 2] by (simp add: st32_apply)
  show "st32 m a v (b + 3) = m (b + 3)" using apart4_neqs [OF assms, of 3] by (simp add: st32_apply)
qed

lemma ld32_upd_apart [mem_simps]:
  assumes "apart a 1 b 4"
  shows "ld32 (m(a := v)) b = ld32 m b"
proof (rule ld32_cong)
  show "(m(a := v)) b = m b" using apart_neq [OF assms, of 0 0] by auto
  show "(m(a := v)) (b + 1) = m (b + 1)" using apart_neq [OF assms, of 0 1] by auto
  show "(m(a := v)) (b + 2) = m (b + 2)" using apart_neq [OF assms, of 0 2] by auto
  show "(m(a := v)) (b + 3) = m (b + 3)" using apart_neq [OF assms, of 0 3] by auto
qed

section \<open>Agreement outside a set of addresses\<close>

lemma eq_out_refl [simp, intro]: "eq_out A m m"
  by (simp add: eq_out_def)

lemma eq_out_trans:
  "eq_out A m m' \<Longrightarrow> eq_out A m' m'' \<Longrightarrow> eq_out A m m''"
  by (simp add: eq_out_def)

lemma eq_out_mono: "eq_out A m m' \<Longrightarrow> A \<subseteq> B \<Longrightarrow> eq_out B m m'"
  by (auto simp: eq_out_def)

lemma eq_outD: "eq_out A m m' \<Longrightarrow> a \<notin> A \<Longrightarrow> m' a = m a"
  by (simp add: eq_out_def)

lemma eq_out_split: "eq_out (A \<union> B) m m'' \<Longrightarrow> \<exists>m'. eq_out A m m' \<and> eq_out B m' m''"
  by (rule exI [of _ "\<lambda>a. if a \<in> A then m'' a else m a"]) (auto simp: eq_out_def)

lemma in_region_of_nat:
  assumes "unat p + n \<le> two32" and "i < n"
  shows "p + of_nat i \<in> region p n"
  using assms by (simp add: region_def)

lemma eq_out_st32 [frame_rules]:
  assumes "unat a + 4 \<le> two32" and "region a 4 \<subseteq> A"
  shows "eq_out A m (st32 m a v)"
proof -
  have "a + of_nat i \<in> A" if "i < 4" for i
    using in_region_of_nat [of a 4 i] that assms by auto
  from this [of 0] this [of 1] this [of 2] this [of 3]
  show ?thesis by (auto simp: eq_out_def st32_def)
qed

lemma eq_out_ld32:
  assumes "eq_out A m m'" and "unat b + 4 \<le> two32" and "region b 4 \<inter> A = {}"
  shows "ld32 m' b = ld32 m b"
proof (rule ld32_cong)
  have "b + of_nat i \<notin> A" if "i < 4" for i
    using in_region_of_nat [of b 4 i] that assms(2,3) by auto
  from this [of 0] this [of 1] this [of 2] this [of 3] assms(1)
  show "m' b = m b" "m' (b + 1) = m (b + 1)" "m' (b + 2) = m (b + 2)" "m' (b + 3) = m (b + 3)"
    by (auto simp: eq_out_def)
qed

lemma region_subset:
  "unat p \<le> unat q \<Longrightarrow> unat q + k \<le> unat p + n \<Longrightarrow> region q k \<subseteq> region p n"
  by (auto simp: region_def)

lemma region_disjoint:
  "unat p + n \<le> unat q \<or> unat q + k \<le> unat p \<Longrightarrow> region p n \<inter> region q k = {}"
  by (auto simp: region_def)

lemma unat_offset:
  assumes "unat p \<le> unat (a :: addr)" and "unat s + (unat a - unat p) < two32"
  shows "unat (s + (a - p)) = unat s + (unat a - unat p)"
  using assms by (simp add: unat_plus_fit unat_minus_fit word_le_nat_alt)

lemma region_Suc: "unat p + Suc n \<le> two32 \<Longrightarrow> region p (Suc n) = insert p (region (p + 1) n)"
proof -
  assume a: "unat p + Suc n \<le> two32"
  show ?thesis
  proof (cases "n = 0")
    case True
    then show ?thesis by (auto simp: region_def word_unat_eq_iff)
  next
    case False
    with a show ?thesis by (auto simp: region_def word_unat_eq_iff)
  qed
qed

lemma region_0 [simp]: "region p 0 = {}"
  by (auto simp: region_def)

lemma next_nonnull: "unat (p :: addr) + Suc n \<le> two32 \<Longrightarrow> n \<noteq> 0 \<Longrightarrow> p + 1 \<noteq> 0 \<and> unat (p + 1) = unat p + 1"
  by (simp add: word_unat_eq_iff)

lemma region_Suc_last:
  assumes "unat p + Suc n \<le> two32"
  shows "region p (Suc n) = insert (p + of_nat n) (region p n)"
  using assms by (auto simp: region_def word_unat_eq_iff)

section \<open>Positions\<close>

text \<open>
  The invariants of the components name addresses by natural numbers below two32, so that
  linear arithmetic decides the side conditions.
\<close>

definition zone :: "nat \<Rightarrow> nat \<Rightarrow> addr set" where
  "zone x n = {a. x \<le> unat a \<and> unat a < x + n}"

definition untouched :: "(nat \<times> nat) list \<Rightarrow> mem \<Rightarrow> mem \<Rightarrow> bool" where
  "untouched rs m m' \<longleftrightarrow> (\<forall>(p, k) \<in> set rs. \<forall>i < k. m' (of_nat (p + i)) = m (of_nat (p + i)))"

lemma apart_of_nat [simp]:
  "x < two32 \<Longrightarrow> y < two32 \<Longrightarrow> apart (of_nat x) n (of_nat y) k \<longleftrightarrow>
     x + n \<le> two32 \<and> y + k \<le> two32 \<and> (x + n \<le> y \<or> y + k \<le> x)"
  by (simp add: apart_def)

lemma ld32_st32_pos:
  "x + 4 \<le> two32 \<Longrightarrow> y + 4 \<le> two32 \<Longrightarrow> x + 4 \<le> y \<or> y + 4 \<le> x \<Longrightarrow>
     ld32 (st32 m (of_nat x) v) (of_nat y) = ld32 m (of_nat y)"
  by (rule ld32_st32_apart) simp

lemma pos_plus:
  "(of_nat x :: addr) + 4 = of_nat (x + 4)" "(of_nat x :: addr) + 8 = of_nat (x + 8)"
  "(of_nat x :: addr) + 12 = of_nat (x + 12)" "(of_nat x :: addr) + 16 = of_nat (x + 16)"
  by simp_all

lemma eq_out_st32_pos:
  "x + 4 \<le> two32 \<Longrightarrow> (\<And>a. x \<le> unat a \<Longrightarrow> unat a < x + 4 \<Longrightarrow> a \<in> A) \<Longrightarrow>
     eq_out A m (st32 m (of_nat x) v)"
  by (rule eq_out_st32) (auto simp: region_def)

lemma eq_out_zone:
  assumes "eq_out A m m'" and "x + 4 \<le> two32" and "zone x 4 \<subseteq> A"
  shows "eq_out A m (st32 m' (of_nat x) v)"
proof (rule eq_out_trans [OF assms(1)])
  show "eq_out A m' (st32 m' (of_nat x) v)"
    by (rule eq_out_st32_pos) (use assms in \<open>auto simp: zone_def\<close>)
qed

lemma untouchedI:
  assumes "eq_out A m m'"
    and "\<And>p k a. (p, k) \<in> set rs \<Longrightarrow> a \<in> A \<Longrightarrow> unat a < p \<or> p + k \<le> unat a"
    and "\<And>p k. (p, k) \<in> set rs \<Longrightarrow> p + k \<le> two32"
  shows "untouched rs m m'"
  unfolding untouched_def
proof (intro ballI, clarify)
  fix p k i assume pk: "(p, k) \<in> set rs" and i: "i < k"
  then have "unat (of_nat (p + i) :: addr) = p + i" using assms(3) [OF pk] by simp
  then have "of_nat (p + i) \<notin> A" using assms(2) [OF pk] i by fastforce
  with assms(1) show "m' (of_nat (p + i)) = m (of_nat (p + i))" by (rule eq_outD)
qed

lemma untouched_trans:
  "untouched rs m m' \<Longrightarrow> untouched rs m' m'' \<Longrightarrow> untouched rs m m''"
  by (fastforce simp: untouched_def)

lemma untouched_refl [simp]: "untouched rs m m"
  by (auto simp: untouched_def)

lemma untouched_byte:
  assumes "untouched rs m m'" and "(p, k) \<in> set rs" and "p \<le> unat a" and "unat a < p + k"
  shows "m' a = m a"
proof -
  have "\<forall>i < k. m' (of_nat (p + i)) = m (of_nat (p + i))" using assms(1,2) unfolding untouched_def by blast
  moreover have "unat a - p < k" "p + (unat a - p) = unat a" using assms(3,4) by auto
  ultimately have "m' (of_nat (unat a)) = m (of_nat (unat a))" by metis
  then show ?thesis by simp
qed

lemma zones_apart:
  assumes "zone x n \<inter> zone y k = {}" and "0 < n" and "0 < k" and "x + n \<le> two32" and "y + k \<le> two32"
  shows "x + n \<le> y \<or> y + k \<le> x"
proof (rule ccontr)
  assume c: "\<not> (x + n \<le> y \<or> y + k \<le> x)"
  have "unat (of_nat (max x y) :: addr) = max x y" using assms(2-5) by simp
  then have "(of_nat (max x y) :: addr) \<in> zone x n \<inter> zone y k" using c assms(2,3) by (auto simp: zone_def)
  with assms(1) show False by blast
qed

lemma region_zone: "region p n = zone (unat p) n"
  by (simp add: region_def zone_def)

end
