(* ===== verification/Stdlib.thy ===== *)
theory Stdlib
  imports Memory "HOL-Library.Sublist"
begin

text \<open>
  The kernel's C library, src/MemeOS/src/stdlib.c: memory and string routines over the flat
  memory, number formatting, and formatted output into a buffer. A C string is a pointer to
  bytes that end in a zero byte (\<open>cstr\<close>). String loops run until they meet a terminator, so
  they are partial functions: without one they have no result. The lemmas relate each routine
  to the list function it computes: \<open>memset\<close> and \<open>memcpy\<close> to the update of a region (also when
  source and destination overlap), \<open>strcmp\<close> to equality, \<open>str_is_prefix\<close> to the prefix order,
  \<open>strtok\<close> to the search for a delimiter, \<open>itoa\<close> to the digits of the number.
\<close>

section \<open>Memory routines\<close>

fun memset_loop :: "mem \<Rightarrow> addr \<Rightarrow> u8 \<Rightarrow> nat \<Rightarrow> mem option" where
  "memset_loop m c v 0 = Some m"
| "memset_loop m c v (Suc n) = do { m' \<leftarrow> wr8 m c 0 v; memset_loop m' (c + 1) v n }"

definition memset :: "mem \<Rightarrow> addr \<Rightarrow> u8 \<Rightarrow> u32 \<Rightarrow> mem option" where
  "memset m ptr v len = memset_loop m ptr v (unat len)"

fun memcpy_up :: "mem \<Rightarrow> addr \<Rightarrow> addr \<Rightarrow> nat \<Rightarrow> mem option" where
  "memcpy_up m d s 0 = Some m"
| "memcpy_up m d s (Suc n) =
     do { b \<leftarrow> rd8 m s 0; m' \<leftarrow> wr8 m d 0 b; memcpy_up m' (d + 1) (s + 1) n }"

fun memcpy_down :: "mem \<Rightarrow> addr \<Rightarrow> addr \<Rightarrow> nat \<Rightarrow> mem option" where
  "memcpy_down m d s 0 = Some m"
| "memcpy_down m d s (Suc n) =
     do { b \<leftarrow> rd8 m s 0; m' \<leftarrow> wr8 m d 0 b; memcpy_down m' (d - 1) (s - 1) n }"

definition memcpy :: "mem \<Rightarrow> addr \<Rightarrow> addr \<Rightarrow> u32 \<Rightarrow> mem option" where
  "memcpy m dest source len =
     (if source = dest then Some m
      else if dest < source then memcpy_up m dest source (unat len)
      else memcpy_down m (dest + len - 1) (source + len - 1) (unat len))"

section \<open>String routines\<close>

partial_function (option) strcmp :: "mem \<Rightarrow> addr \<Rightarrow> addr \<Rightarrow> bool option" where
  "strcmp m str1 str2 = do {
     a \<leftarrow> rd8 m str1 0;
     b \<leftarrow> rd8 m str2 0;
     if a \<noteq> 0 \<and> b \<noteq> 0
     then (if a \<noteq> b then Some False else strcmp m (str1 + 1) (str2 + 1))
     else Some (a = 0 \<and> b = 0) }"

partial_function (option) str_is_prefix :: "mem \<Rightarrow> addr \<Rightarrow> addr \<Rightarrow> bool option" where
  "str_is_prefix m str pre = do {
     p \<leftarrow> rd8 m pre 0;
     if p = 0 then Some True
     else do {
       c \<leftarrow> rd8 m str 0;
       if c = 0 then Some False
       else if p \<noteq> c then Some False
       else str_is_prefix m (str + 1) (pre + 1) } }"

partial_function (option) strlen_loop :: "mem \<Rightarrow> addr \<Rightarrow> u32 \<Rightarrow> u32 option" where
  "strlen_loop m str sz = do {
     c \<leftarrow> rd8 m str 0;
     if c \<noteq> 0 then strlen_loop m (str + 1) (sz + 1) else Some sz }"

definition strlen :: "mem \<Rightarrow> addr \<Rightarrow> u32 option" where
  "strlen m str = strlen_loop m str 0"

partial_function (option) strcpy :: "mem \<Rightarrow> addr \<Rightarrow> addr \<Rightarrow> mem option" where
  "strcpy m source dest = do {
     c \<leftarrow> rd8 m source 0;
     if c \<noteq> 0 then do { m' \<leftarrow> wr8 m dest 0 c; strcpy m' (source + 1) (dest + 1) }
     else wr8 m dest 0 0 }"

text \<open>The inner loop of \<open>strtok\<close>: does the character occur among the first \<open>n\<close> delimiters?\<close>

fun is_delim :: "mem \<Rightarrow> u8 \<Rightarrow> addr \<Rightarrow> nat \<Rightarrow> bool option" where
  "is_delim m c d 0 = Some False"
| "is_delim m c d (Suc n) =
     do { x \<leftarrow> rd8 m d 0; if c = x then Some True else is_delim m c (d + 1) n }"

partial_function (option) strtok_loop :: "mem \<Rightarrow> addr \<Rightarrow> addr \<Rightarrow> nat \<Rightarrow> addr option" where
  "strtok_loop m str delim n = do {
     c \<leftarrow> rd8 m str 0;
     if c = 0 then Some 0
     else do {
       hit \<leftarrow> is_delim m c delim n;
       if hit then Some str else strtok_loop m (str + 1) delim n } }"

definition strtok :: "mem \<Rightarrow> addr \<Rightarrow> addr \<Rightarrow> addr option" where
  "strtok m str delim = do {
     delim_len \<leftarrow> strlen m delim;
     strtok_loop m str delim (unat delim_len) }"

section \<open>Numbers to text\<close>

definition chars :: "string \<Rightarrow> u8 list" where
  "chars s = map of_char s"

abbreviation ch :: "char \<Rightarrow> u8" where
  "ch c \<equiv> of_char c"

definition itoa_divisor :: "u8 \<Rightarrow> u32" where
  "itoa_divisor base = (if base = ch CHR ''x'' then 16 else 10)"

definition itoa_digit :: "u32 \<Rightarrow> u8" where
  "itoa_digit rem = (if rem < 10 then ucast rem + ch CHR ''0''
                     else ucast rem + ch CHR ''a'' - 10)"

text \<open>The digits, least significant first, as the do-while loop stores them.\<close>

function itoa_digits :: "u8 \<Rightarrow> u32 \<Rightarrow> u8 list" where
  "itoa_digits base ud =
     itoa_digit (ud mod itoa_divisor base) #
     (if ud div itoa_divisor base = 0 then []
      else itoa_digits base (ud div itoa_divisor base))"
  by pat_completeness auto
termination
proof (relation "measure (\<lambda>(base, ud). unat ud)", simp)
  fix base :: u8 and ud :: u32
  assume "ud div itoa_divisor base \<noteq> 0"
  then have "0 < unat ud" by (cases "ud = 0") (auto simp: unat_gt_0)
  moreover have "1 < unat (itoa_divisor base)" by (simp add: itoa_divisor_def)
  ultimately show "((base, ud div itoa_divisor base), base, ud) \<in> measure (\<lambda>(base, ud). unat ud)"
    by (simp add: unat_div)
qed

text \<open>The in-place reversal: the two ends are exchanged while \<open>p1 < p2\<close>.\<close>

function swap_loop :: "nat \<Rightarrow> nat \<Rightarrow> u8 list \<Rightarrow> u8 list" where
  "swap_loop p1 p2 xs =
     (if p1 < p2 then swap_loop (p1 + 1) (p2 - 1) (xs[p1 := xs ! p2, p2 := xs ! p1]) else xs)"
  by pat_completeness auto
termination
  by (relation "measure (\<lambda>(p1, p2, xs). p2 - p1)") auto

declare itoa_digits.simps [simp del] swap_loop.simps [simp del]

definition itoa :: "u8 \<Rightarrow> u32 \<Rightarrow> u8 list" where
  "itoa base d =
     (if base = ch CHR ''d'' \<and> sint d < 0
      then let ds = itoa_digits base (- d) in ch CHR ''-'' # swap_loop 0 (length ds - 1) ds
      else let ds = itoa_digits base d in swap_loop 0 (length ds - 1) ds)"

section \<open>Formatted output into memory\<close>

text \<open>
  An argument of a variadic call is a machine word (a number or a pointer) or the address of a
  string literal, given by the characters of the literal.
\<close>

datatype vararg = Word u32 | Lit "u8 list"

fun put_bytes :: "mem \<Rightarrow> addr \<Rightarrow> u8 list \<Rightarrow> (mem \<times> addr) option" where
  "put_bytes m dest [] = Some (m, dest)"
| "put_bytes m dest (b # bs) = do { m' \<leftarrow> wr8 m dest 0 b; put_bytes m' (dest + 1) bs }"

partial_function (option) put_cstr :: "mem \<Rightarrow> addr \<Rightarrow> addr \<Rightarrow> (mem \<times> addr) option" where
  "put_cstr m dest p = do {
     c \<leftarrow> rd8 m p 0;
     if c = 0 then Some (m, dest)
     else do { m' \<leftarrow> wr8 m dest 0 c; put_cstr m' (dest + 1) (p + 1) } }"

definition padding :: "bool \<Rightarrow> nat \<Rightarrow> nat \<Rightarrow> u8 list" where
  "padding pad0 pad len = replicate (pad - len) (if pad0 then ch CHR ''0'' else ch CHR '' '')"

text \<open>
  What stands between the percent sign and the conversion letter: a leading zero selects zero
  padding, one digit is the width. The result is (pad0, pad, letter, rest of the format); a
  format that ends inside a conversion runs past its terminator, which has no result.
\<close>

definition fmt_zero :: "u8 list \<Rightarrow> (bool \<times> u8 list) option" where
  "fmt_zero f = (case f of [] \<Rightarrow> None | c # r \<Rightarrow>
     Some (if c = ch CHR ''0'' then (True, r) else (False, c # r)))"

definition fmt_width :: "u8 list \<Rightarrow> (nat \<times> u8 list) option" where
  "fmt_width f = (case f of [] \<Rightarrow> None | c # r \<Rightarrow>
     Some (if ch CHR ''0'' \<le> c \<and> c \<le> ch CHR ''9'' then (unat (c - ch CHR ''0''), r) else (0, c # r)))"

definition fmt_spec :: "u8 list \<Rightarrow> (bool \<times> nat \<times> u8 \<times> u8 list) option" where
  "fmt_spec f = do {
     (pad0, f1) \<leftarrow> fmt_zero f;
     (pad, f2) \<leftarrow> fmt_width f1;
     (case f2 of [] \<Rightarrow> None | c # r \<Rightarrow> Some (pad0, pad, c, r)) }"

lemma fmt_zero_shorter: "fmt_zero f = Some (b, r) \<Longrightarrow> length r \<le> length f"
  by (cases f) (auto simp: fmt_zero_def split: if_splits)

lemma fmt_width_shorter: "fmt_width f = Some (n, r) \<Longrightarrow> length r \<le> length f"
  by (cases f) (auto simp: fmt_width_def split: if_splits)

lemma fmt_spec_shorter:
  assumes "fmt_spec f = Some (p0, w, c, r)"
  shows "length r < length f"
proof -
  obtain b f1 n f2 where "fmt_zero f = Some (b, f1)" "fmt_width f1 = Some (n, f2)" "f2 = c # r"
    using assms by (auto simp: fmt_spec_def bind_Some_iff case_list_Some_iff)
  then show ?thesis using fmt_zero_shorter fmt_width_shorter by fastforce
qed

definition is_num_conv :: "u8 \<Rightarrow> bool" where
  "is_num_conv c \<longleftrightarrow> c = ch CHR ''d'' \<or> c = ch CHR ''u'' \<or> c = ch CHR ''x''"

text \<open>One conversion of \<open>sprintf\<close>: the output, and the arguments that are left.\<close>

definition sprintf_conv ::
  "mem \<Rightarrow> addr \<Rightarrow> bool \<Rightarrow> nat \<Rightarrow> u8 \<Rightarrow> vararg list \<Rightarrow> (mem \<times> addr \<times> vararg list) option" where
  "sprintf_conv m dest pad0 pad c args = (case args of [] \<Rightarrow> None | a # rest \<Rightarrow>
     (if is_num_conv c then (case a of
        Word d \<Rightarrow> do {
          (m1, d1) \<leftarrow> put_bytes m dest (padding pad0 pad (length (itoa c d)) @ itoa c d);
          Some (m1, d1, rest) }
      | Lit l \<Rightarrow> None)
      else if c = ch CHR ''s'' then (case a of
        Word p \<Rightarrow>
          (if p = 0 then do {
             (m1, d1) \<leftarrow> put_bytes m dest (padding pad0 pad 6 @ chars ''(null)'');
             Some (m1, d1, rest) }
           else do {
             n \<leftarrow> strlen m p;
             (m1, d1) \<leftarrow> put_bytes m dest (padding pad0 pad (unat n));
             (m2, d2) \<leftarrow> put_cstr m1 d1 p;
             Some (m2, d2, rest) })
      | Lit l \<Rightarrow> do {
          (m1, d1) \<leftarrow> put_bytes m dest (padding pad0 pad (length l) @ l);
          Some (m1, d1, rest) })
      else (case a of
        Word d \<Rightarrow> do { m1 \<leftarrow> wr8 m dest 0 (ucast d); Some (m1, dest + 1, rest) }
      | Lit l \<Rightarrow> None)))"

function sprintf :: "mem \<Rightarrow> addr \<Rightarrow> u8 list \<Rightarrow> vararg list \<Rightarrow> mem option" where
  "sprintf m dest [] args = Some m"
| "sprintf m dest (c # f) args =
     (if c \<noteq> ch CHR ''%'' then do { m' \<leftarrow> wr8 m dest 0 c; sprintf m' (dest + 1) f args }
      else (case fmt_spec f of None \<Rightarrow> None | Some (pad0, pad, k, r) \<Rightarrow>
        (case sprintf_conv m dest pad0 pad k args of None \<Rightarrow> None
         | Some (m', dest', args') \<Rightarrow> sprintf m' dest' r args')))"
  by pat_completeness auto
termination
  by (relation "measure (\<lambda>(m, dest, f, args). length f)")
    (auto dest: fmt_spec_shorter)

section \<open>What the routines compute\<close>

definition moved :: "mem \<Rightarrow> addr \<Rightarrow> addr \<Rightarrow> nat \<Rightarrow> mem" where
  "moved m d s n = (\<lambda>a. if a \<in> region d n then m (s + (a - d)) else m a)"

fun cstr :: "mem \<Rightarrow> addr \<Rightarrow> u8 list \<Rightarrow> bool" where
  "cstr m p [] \<longleftrightarrow> p \<noteq> 0 \<and> m p = 0"
| "cstr m p (c # cs) \<longleftrightarrow> p \<noteq> 0 \<and> c \<noteq> 0 \<and> m p = c \<and> cstr m (p + 1) cs"

definition digit_val :: "u8 \<Rightarrow> nat" where
  "digit_val c = (if c \<le> ch CHR ''9'' then unat c - 48 else unat c - 87)"

definition num_val :: "nat \<Rightarrow> u8 list \<Rightarrow> nat" where
  "num_val b cs = foldl (\<lambda>a c. a * b + digit_val c) 0 cs"

lemma memset_loop_eq:
  assumes "p \<noteq> 0" and "unat p + n \<le> two32"
  shows "memset_loop m p v n = Some (\<lambda>a. if a \<in> region p n then v else m a)"
  using assms
proof (induction n arbitrary: m p)
  case 0
  then show ?case by simp
next
  case (Suc n)
  show ?case
  proof (cases "n = 0")
    case True
    with Suc.prems show ?thesis
      by (auto simp: region_Suc fun_eq_iff)
  next
    case False
    note nn = next_nonnull [OF Suc.prems(2) False]
    have "memset_loop (m(p := v)) (p + 1) v n =
        Some (\<lambda>a. if a \<in> region (p + 1) n then v else (m(p := v)) a)"
      by (rule Suc.IH) (use nn Suc.prems in auto)
    with Suc.prems show ?thesis
      by (auto simp: region_Suc fun_eq_iff)
  qed
qed

lemma memset_eq:
  assumes "p \<noteq> 0" and "unat p + unat n \<le> two32"
  shows "memset m p v n = Some (\<lambda>a. if a \<in> region p (unat n) then v else m a)"
  using memset_loop_eq [OF assms] by (simp add: memset_def)

lemma memcpy_up_eq:
  assumes "d \<noteq> 0" and "d < s" and "unat s + n \<le> two32"
  shows "memcpy_up m d s n = Some (moved m d s n)"
  using assms
proof (induction n arbitrary: m d s)
  case 0
  then show ?case by (simp add: moved_def)
next
  case (Suc n)
  have ds: "unat d < unat s" using Suc.prems(2) by (simp add: word_less_nat_alt)
  have s0: "s \<noteq> 0" using ds by auto
  have dlt: "unat d + Suc n \<le> two32" using Suc.prems(3) ds by simp
  have step: "memcpy_up (m(d := m s)) (d + 1) (s + 1) n = Some (moved (m(d := m s)) (d + 1) (s + 1) n)"
  proof (cases "n = 0")
    case True
    then show ?thesis by (auto simp: moved_def fun_eq_iff)
  next
    case False
    have ns: "s + 1 \<noteq> 0 \<and> unat (s + 1) = unat s + 1" by (rule next_nonnull [OF Suc.prems(3) False])
    have nd: "d + 1 \<noteq> 0 \<and> unat (d + 1) = unat d + 1" by (rule next_nonnull [OF dlt False])
    show ?thesis
      by (rule Suc.IH) (use nd ns ds Suc.prems(3) in \<open>auto simp: word_less_nat_alt\<close>)
  qed
  have "moved (m(d := m s)) (d + 1) (s + 1) n = moved m d s (Suc n)"
  proof
    fix a
    show "moved (m(d := m s)) (d + 1) (s + 1) n a = moved m d s (Suc n) a"
    proof (cases "a \<in> region (d + 1) n")
      case True
      then have n0: "n \<noteq> 0" by (auto simp: region_def)
      have "unat (d + 1) = unat d + 1" using next_nonnull [OF dlt n0] by blast
      with True have ra: "unat d < unat a" "unat a < unat d + Suc n" by (auto simp: region_def)
      then have "unat (s + (a - d)) = unat s + (unat a - unat d)"
        using Suc.prems(3) by (intro unat_offset) auto
      then have "unat (s + (a - d)) \<noteq> unat d" using ds by simp
      then have "s + (a - d) \<noteq> d" by metis
      then show ?thesis using True by (simp add: moved_def region_Suc [OF dlt])
    next
      case False
      then show ?thesis by (auto simp: moved_def region_Suc [OF dlt])
    qed
  qed
  with step Suc.prems(1) s0 show ?case by simp
qed

lemma memcpy_down_eq:
  assumes "s \<noteq> 0" and "s < d" and "unat d + n \<le> two32"
  shows "memcpy_down m (d + of_nat n - 1) (s + of_nat n - 1) n = Some (moved m d s n)"
  using assms(3)
proof (induction n arbitrary: m)
  case 0
  then show ?case by (simp add: moved_def)
next
  case (Suc n)
  have sd: "unat s < unat d" using assms(2) by (simp add: word_less_nat_alt)
  have ud: "unat (d + of_nat n) = unat d + n" and us: "unat (s + of_nat n) = unat s + n"
    using Suc.prems sd by auto
  have nz: "d + of_nat n \<noteq> 0" "s + of_nat n \<noteq> 0"
    using ud us sd assms(1) by (auto simp: word_unat_eq_iff)
  let ?m = "m(d + of_nat n := m (s + of_nat n))"
  have "memcpy_down ?m (d + of_nat n - 1) (s + of_nat n - 1) n = Some (moved ?m d s n)"
    by (rule Suc.IH) (use Suc.prems in simp)
  moreover have "moved ?m d s n = moved m d s (Suc n)"
  proof
    fix a
    show "moved ?m d s n a = moved m d s (Suc n) a"
    proof (cases "a \<in> region d n")
      case True
      then have ra: "unat d \<le> unat a" "unat a < unat d + n" by (auto simp: region_def)
      then have "unat (s + (a - d)) = unat s + (unat a - unat d)"
        using Suc.prems sd by (intro unat_offset) auto
      then have "unat (s + (a - d)) \<noteq> unat (d + of_nat n)" using ud sd ra by simp
      then have "s + (a - d) \<noteq> d + of_nat n" by metis
      then show ?thesis using True by (simp add: moved_def region_Suc_last [OF Suc.prems])
    next
      case False
      then show ?thesis by (auto simp: moved_def region_Suc_last [OF Suc.prems])
    qed
  qed
  ultimately show ?case using nz by simp
qed

text \<open>Overlapping or not, the destination gets the bytes the source had before the call.\<close>

lemma memcpy_eq:
  assumes "d \<noteq> 0" and "s \<noteq> 0" and "unat d + unat n \<le> two32" and "unat s + unat n \<le> two32"
  shows "memcpy m d s n = Some (moved m d s (unat n))"
proof -
  consider "s = d" | "d < s" | "s < d" by (metis neqE)
  then show ?thesis
  proof cases
    case 1
    then show ?thesis by (auto simp: memcpy_def moved_def)
  next
    case 2
    then show ?thesis using memcpy_up_eq [OF assms(1) 2 assms(4)] by (auto simp: memcpy_def)
  next
    case 3
    then show ?thesis using memcpy_down_eq [OF assms(2) 3 assms(3)]
      by (auto simp: memcpy_def)
  qed
qed

lemma strcmp_eq:
  "cstr m p xs \<Longrightarrow> cstr m q ys \<Longrightarrow> strcmp m p q = Some (xs = ys)"
proof (induction xs arbitrary: p q ys)
  case Nil
  then show ?case by (subst strcmp.simps, cases ys) auto
next
  case (Cons c cs)
  then show ?case by (subst strcmp.simps, cases ys) auto
qed

lemma str_is_prefix_eq:
  "cstr m p xs \<Longrightarrow> cstr m q ys \<Longrightarrow> str_is_prefix m p q = Some (prefix ys xs)"
proof (induction ys arbitrary: p q xs)
  case Nil
  then show ?case by (subst str_is_prefix.simps) auto
next
  case (Cons c cs)
  then show ?case by (subst str_is_prefix.simps, cases xs) auto
qed

lemma strlen_loop_eq:
  "cstr m p xs \<Longrightarrow> strlen_loop m p n = Some (n + of_nat (length xs))"
proof (induction xs arbitrary: p n)
  case Nil
  then show ?case by (subst strlen_loop.simps) auto
next
  case (Cons c cs)
  then show ?case by (subst strlen_loop.simps) (auto simp: add.assoc)
qed

lemma strlen_eq: "cstr m p xs \<Longrightarrow> strlen m p = Some (of_nat (length xs))"
  by (simp add: strlen_def strlen_loop_eq)

lemma is_delim_eq: "cstr m d ds \<Longrightarrow> is_delim m c d (length ds) = Some (c \<in> set ds)"
  by (induction ds arbitrary: d) auto

lemma strtok_loop_eq:
  assumes "cstr m p xs" and "cstr m d ds"
  shows "strtok_loop m p d (length ds) =
     Some (if set xs \<inter> set ds = {} then 0
           else p + of_nat (length (takeWhile (\<lambda>c. c \<notin> set ds) xs)))"
  using assms
proof (induction xs arbitrary: p)
  case Nil
  then show ?case by (subst strtok_loop.simps) auto
next
  case (Cons c cs)
  then show ?case
    by (subst strtok_loop.simps) (auto simp: is_delim_eq add.assoc)
qed

lemma strtok_eq:
  assumes "cstr m p xs" and "cstr m d ds" and "length ds < two32"
  shows "strtok m p d =
     Some (if set xs \<inter> set ds = {} then 0
           else p + of_nat (length (takeWhile (\<lambda>c. c \<notin> set ds) xs)))"
  using strtok_loop_eq [OF assms(1,2)] strlen_eq [OF assms(2)] assms(3)
  by (simp add: strtok_def)

lemma cstr_drop: "cstr m p xs \<Longrightarrow> i \<le> length xs \<Longrightarrow> cstr m (p + of_nat i) (drop i xs)"
proof (induction xs arbitrary: p i)
  case (Cons c cs)
  then show ?case by (cases i) (auto simp: add.assoc [symmetric])
qed simp

lemma cstr_nonnull: "cstr m p xs \<Longrightarrow> p \<noteq> 0"
  by (cases xs) auto

lemma cstr_nth: "cstr m p xs \<Longrightarrow> i < length xs \<Longrightarrow> m (p + of_nat i) = xs ! i \<and> xs ! i \<noteq> 0"
proof (induction xs arbitrary: p i)
  case (Cons c cs)
  then show ?case by (cases i) (auto simp: add.assoc [symmetric])
qed simp

lemma cstr_end: "cstr m p xs \<Longrightarrow> m (p + of_nat (length xs)) = 0"
  by (induction xs arbitrary: p) (auto simp: add.assoc [symmetric])

lemma cstr_cong:
  "cstr m p xs \<Longrightarrow> (\<And>i. i \<le> length xs \<Longrightarrow> m' (p + of_nat i) = m (p + of_nat i)) \<Longrightarrow> cstr m' p xs"
proof (induction xs arbitrary: p)
  case Nil
  from Nil.prems(2) [of 0] Nil.prems(1) show ?case by simp
next
  case (Cons c cs)
  have "m' p = m p" using Cons.prems(2) [of 0] by simp
  moreover have "cstr m' (p + 1) cs"
    by (rule Cons.IH) (use Cons.prems(1) Cons.prems(2) [of "Suc _"] in \<open>auto simp: add.assoc\<close>)
  ultimately show ?case using Cons.prems(1) by simp
qed

lemma length_swap_loop [simp]: "length (swap_loop i j xs) = length xs"
  by (induction i j xs rule: swap_loop.induct) (subst swap_loop.simps, simp)

lemma nth_swap_loop:
  "j < length xs \<Longrightarrow> k < length xs \<Longrightarrow>
     swap_loop i j xs ! k = (if i \<le> k \<and> k \<le> j then xs ! (i + j - k) else xs ! k)"
proof (induction i j xs rule: swap_loop.induct)
  case (1 i j xs)
  show ?case
  proof (cases "i < j")
    case True
    let ?ys = "xs[i := xs ! j, j := xs ! i]"
    have IH: "swap_loop (i + 1) (j - 1) ?ys ! k =
        (if i + 1 \<le> k \<and> k \<le> j - 1 then ?ys ! (i + 1 + (j - 1) - k) else ?ys ! k)"
      using 1 True by simp
    have e: "i + 1 + (j - 1) - k = i + j - k" using True by simp
    show ?thesis
      using True 1(2,3) by (subst swap_loop.simps) (auto simp: IH [simplified] nth_list_update)
  next
    case False
    then have "i \<le> k \<Longrightarrow> k \<le> j \<Longrightarrow> i + j - k = k" by simp
    with False show ?thesis by (subst swap_loop.simps) auto
  qed
qed

lemma swap_loop_rev: "xs \<noteq> [] \<Longrightarrow> swap_loop 0 (length xs - 1) xs = rev xs"
  by (rule nth_equalityI) (auto simp: nth_swap_loop rev_nth)

text \<open>A text of digits read back as a number is the number that was printed.\<close>

lemma digit_val_digit:
  assumes "r < 16"
  shows "digit_val (itoa_digit r) = unat r"
proof -
  have all: "list_all (\<lambda>n. digit_val (itoa_digit (of_nat n)) = n) [0..<16]"
    by code_simp
  have "unat r < 16" using assms by (simp add: word_less_nat_alt)
  then have "unat r \<in> set [0..<16]" by simp
  with all have "digit_val (itoa_digit (of_nat (unat r))) = unat r"
    unfolding list_all_iff by blast
  then show ?thesis by simp
qed

lemma num_val_snoc: "num_val b (cs @ [c]) = num_val b cs * b + digit_val c"
  by (simp add: num_val_def)

lemma itoa_digits_val:
  "num_val (unat (itoa_divisor base)) (rev (itoa_digits base ud)) = unat ud"
proof (induction base ud rule: itoa_digits.induct)
  case (1 base ud)
  let ?b = "itoa_divisor base"
  have b: "?b = 10 \<or> ?b = 16" by (simp add: itoa_divisor_def)
  then have lt: "ud mod ?b < 16"
    by (auto simp: word_less_nat_alt unat_mod)
  have dv: "digit_val (itoa_digit (ud mod ?b)) = unat ud mod unat ?b"
    using digit_val_digit [OF lt] by (simp add: unat_mod)
  show ?case
  proof (cases "ud div ?b = 0")
    case True
    then have "unat ud div unat ?b = 0" by (metis unat_0 unat_div)
    then have "unat ud mod unat ?b = unat ud"
      by (metis add_0 div_mult_mod_eq mult_0)
    with True dv show ?thesis
      by (subst itoa_digits.simps) (simp add: num_val_def)
  next
    case False
    then show ?thesis
      by (subst itoa_digits.simps) (simp add: num_val_snoc 1 dv unat_div)
  qed
qed

lemma itoa_digits_length:
  "unat ud < 10 ^ k \<Longrightarrow> 0 < k \<Longrightarrow> length (itoa_digits base ud) \<le> k"
proof (induction base ud arbitrary: k rule: itoa_digits.induct)
  case (1 base ud)
  let ?b = "itoa_divisor base"
  have b: "10 \<le> unat ?b" by (simp add: itoa_divisor_def)
  show ?case
  proof (cases "ud div ?b = 0")
    case True
    with 1 show ?thesis by (subst itoa_digits.simps) simp
  next
    case False
    have "unat ud div unat ?b \<le> unat ud div 10" using b by (intro div_le_mono2) auto
    moreover have "0 < unat ud div unat ?b" using False by (metis gr0I unat_div unat_eq_zero)
    ultimately have ge: "10 \<le> unat ud" by (metis div_less leD le_zero_eq not_le)
    obtain j where k: "k = Suc j" "0 < j"
      using 1(3,2) ge by (cases k) (auto, metis One_nat_def leD mult.right_neutral neq0_conv power_0)
    have "unat (ud div ?b) < 10 ^ j"
      using \<open>unat ud div unat ?b \<le> unat ud div 10\<close> 1(2) k by (simp add: unat_div)
    then have "length (itoa_digits base (ud div ?b)) \<le> j" using 1(1) False k(2) by blast
    with False k show ?thesis by (subst itoa_digits.simps) simp
  qed
qed

lemma strcpy_eq:
  assumes "cstr m p xs" and "d \<noteq> 0" and "apart p (length xs + 1) d (length xs + 1)"
  shows "\<exists>m'. strcpy m p d = Some m' \<and> cstr m' d xs \<and> eq_out (region d (length xs + 1)) m m'"
  using assms
proof (induction xs arbitrary: m p d)
  case Nil
  then show ?case
    by (subst strcpy.simps) (auto simp: eq_out_def region_Suc apart_def)
next
  case (Cons c cs)
  let ?m = "m(d := c)"
  have ap: "unat p + length cs + 2 \<le> two32" "unat d + length cs + 2 \<le> two32"
    "unat p + length cs + 2 \<le> unat d \<or> unat d + length cs + 2 \<le> unat p"
    using Cons.prems(3) by (auto simp: apart_def)
  have u: "unat (p + 1) = unat p + 1" "unat (d + 1) = unat d + 1" using ap by auto
  have d1: "d + 1 \<noteq> 0" using u(2) by auto
  have ap1: "apart (p + 1) (length cs + 1) (d + 1) (length cs + 1)"
    using ap u by (auto simp: apart_def)
  have ne: "p + 1 + of_nat i \<noteq> d" if "i \<le> length cs" for i
    using apart_neq [OF Cons.prems(3), of "Suc i" 0] that by (simp add: add.assoc)
  have "cstr ?m (p + 1) cs"
    by (rule cstr_cong [of m]) (use Cons.prems(1) ne in auto)
  then obtain m' where m': "strcpy ?m (p + 1) (d + 1) = Some m'" "cstr m' (d + 1) cs"
    and eq: "eq_out (region (d + 1) (length cs + 1)) ?m m'"
    using Cons.IH [of ?m "p + 1" "d + 1"] d1 ap1 by blast
  have "d \<notin> region (d + 1) (length cs + 1)" using u by (simp add: region_def)
  then have "m' d = c" using eq_outD [OF eq] by simp
  moreover have "eq_out (region d (length (c # cs) + 1)) m m'"
    using eq region_Suc [of d "length cs + 1"] ap by (auto simp: eq_out_def)
  ultimately show ?case
    using m' Cons.prems by (subst strcpy.simps) auto
qed

lemma cstr_frame:
  assumes "cstr m p xs" and "eq_out A m m'" and "region p (length xs + 1) \<inter> A = {}" and "unat p + length xs < two32"
  shows "cstr m' p xs"
proof (rule cstr_cong [OF assms(1)])
  fix i assume "i \<le> length xs"
  then have "p + of_nat i \<in> region p (length xs + 1)" using assms(4) by (intro in_region_of_nat) auto
  with assms(2,3) show "m' (p + of_nat i) = m (p + of_nat i)" by (auto dest: eq_outD)
qed


section \<open>Properties\<close>

text \<open>
  C29: \<open>memcpy\<close> returns for any two non-null regions, also overlapping ones: the destination gets
  the bytes the source had before the call, and no other byte changes.
\<close>

theorem memcpy_moves:
  assumes "d \<noteq> 0" and "s \<noteq> 0" and "unat d + unat n \<le> two32" and "unat s + unat n \<le> two32"
  shows "\<exists>m'. memcpy m d s n = Some m' \<and> eq_out (region d (unat n)) m m' \<and>
     (\<forall>i < unat n. m' (d + of_nat i) = m (s + of_nat i))"
  using memcpy_eq [OF assms] in_region_of_nat [OF assms(3)]
  by (auto simp: moved_def eq_out_def)

theorem memcpy_moves_witness:
  "\<exists>m'. memcpy (\<lambda>a. ucast a) 102 100 4 = Some m' \<and> m' 105 = 103 \<and> m' 100 = 100"
proof -
  obtain m' where m: "memcpy (\<lambda>a. ucast a) 102 100 4 = Some m'" "eq_out (region 102 4) (\<lambda>a. ucast a) m'"
    "\<forall>i < 4. m' (102 + of_nat i) = ucast (100 + of_nat i :: addr)"
    using memcpy_moves [of 102 100 4 "\<lambda>a. ucast a"] by auto
  have "m' 100 = 100" using eq_outD [OF m(2), of 100] by (simp add: region_def)
  with m(1) m(3) [rule_format, of 3] show ?thesis by auto
qed

text \<open>
  C30: \<open>itoa\<close> writes at most ten digits, and a sign for a negative number under d; read back in
  the base of the conversion they give the number.
\<close>

theorem itoa_reads_back:
  "\<exists>ds. ds \<noteq> [] \<and> length ds \<le> 10 \<and>
     itoa base d = (if base = ch CHR ''d'' \<and> sint d < 0 then ch CHR ''-'' # ds else ds) \<and>
     int (num_val (unat (itoa_divisor base)) ds) =
       (if base = ch CHR ''d'' \<and> sint d < 0 then - sint d else uint d)"
proof -
  define neg where "neg \<longleftrightarrow> base = ch CHR ''d'' \<and> sint d < 0"
  define ud where "ud = (if neg then - d else d)"
  define ds where "ds = itoa_digits base ud"
  have ne: "ds \<noteq> []" unfolding ds_def by (subst itoa_digits.simps) simp
  have "unat ud < 10 ^ 10" by (rule less_trans [OF unat_lt_two32]) simp
  then have "length ds \<le> 10" unfolding ds_def by (rule itoa_digits_length) simp
  moreover have "itoa base d = (if neg then ch CHR ''-'' # rev ds else rev ds)"
    using swap_loop_rev [OF ne] by (auto simp: itoa_def neg_def ds_def ud_def Let_def)
  moreover have "int (num_val (unat (itoa_divisor base)) (rev ds)) = uint ud"
    using itoa_digits_val [of base ud] by (simp add: ds_def)
  moreover have "uint (- d) = - sint d" if "sint d < 0"
  proof -
    have "- d = word_of_int (- sint d)" by simp
    then have "uint (- d) = uint (word_of_int (- sint d) :: u32)" by (rule arg_cong)
    then have "uint (- d) = - sint d mod 2 ^ 32"
      by (simp only: uint_word_of_int) simp
    moreover have "- (2 ^ 31) \<le> sint d" using sint_greater_eq [of d] by simp
    ultimately show ?thesis using that by simp
  qed
  ultimately show ?thesis using ne
    by (intro exI [of _ "rev ds"]) (auto simp: neg_def ud_def)
qed

end
