(* ===== verification/Kvideo.thy ===== *)
theory Kvideo
  imports Stdlib
begin

text \<open>
  The text console, src/MemeOS/src/kvideo.c: the screen is 25 lines of 80 cells of two bytes
  (character, attribute) at the physical address 0xB8000. The record \<open>tty\<close> holds the machine's
  memory and the log of port writes, which every later component extends with its own globals,
  and the driver's static variables. \<open>cls\<close>, \<open>putchar\<close> and \<open>printf\<close> are modelled in full, the
  colour escapes included; the cursor and the number of an escape are C integers, here unbounded (\<open>tty_ok\<close> bounds the cursor). The lemmas show that the cursor stays on the screen and that
  printing changes no byte outside the video buffer.
\<close>

record machine =
  mem :: mem
  ports :: "(u16 \<times> u8) list"

record tty = machine +
  ATTRIBUTE :: u8
  xpos :: int
  ypos :: int
  video :: addr

definition COLUMNS :: int where "COLUMNS = 80"
definition LINES :: int where "LINES = 25"
definition VIDEO :: addr where "VIDEO = 0xB8000"

definition outb :: "u16 \<Rightarrow> u8 \<Rightarrow> 'a machine_scheme \<Rightarrow> 'a machine_scheme" where
  "outb port v s = s\<lparr>ports := ports s @ [(port, v)]\<rparr>"

fun cls_loop :: "mem \<Rightarrow> addr \<Rightarrow> nat \<Rightarrow> nat \<Rightarrow> mem option" where
  "cls_loop m v i 0 = Some m"
| "cls_loop m v i (Suc n) = do { m' \<leftarrow> wr8 m v (of_nat i) 0; cls_loop m' v (i + 1) n }"

definition cls :: "'a tty_scheme \<Rightarrow> 'a tty_scheme option" where
  "cls s = do {
     m \<leftarrow> cls_loop (mem s) VIDEO 0 (nat (COLUMNS * LINES * 2));
     Some (s\<lparr>mem := m, video := VIDEO, xpos := 0, ypos := 0\<rparr>) }"

definition cell :: "int \<Rightarrow> int \<Rightarrow> u32" where
  "cell x y = of_int ((x + y * COLUMNS) * 2)"

text \<open>The label \<open>newline\<close>: blank the rest of the line, then move to the start of the next one.\<close>

fun blank_line :: "nat \<Rightarrow> 'a tty_scheme \<Rightarrow> 'a tty_scheme option" where
  "blank_line 0 s = Some s"
| "blank_line (Suc n) s =
     (if xpos s < COLUMNS then do {
        m \<leftarrow> wr8 (mem s) (video s) (cell (xpos s) (ypos s)) (ch CHR '' '');
        blank_line n (s\<lparr>mem := m, xpos := xpos s + 1\<rparr>) }
      else Some s)"

definition newline :: "'a tty_scheme \<Rightarrow> 'a tty_scheme option" where
  "newline s = do {
     s1 \<leftarrow> blank_line (nat (COLUMNS - xpos s)) s;
     Some (s1\<lparr>xpos := 0, ypos := (if ypos s1 + 1 \<ge> LINES then 0 else ypos s1 + 1)\<rparr>) }"

definition putchar :: "u32 \<Rightarrow> 'a tty_scheme \<Rightarrow> 'a tty_scheme option" where
  "putchar c s =
     (if c = of_char CHR 0x0A \<or> c = of_char CHR 0x0D then newline s
      else do {
        m1 \<leftarrow> wr8 (mem s) (video s) (cell (xpos s) (ypos s)) (ucast c);
        m2 \<leftarrow> wr8 m1 (video s) (cell (xpos s) (ypos s) + 1) (ATTRIBUTE s);
        (let s1 = s\<lparr>mem := m2, xpos := xpos s + 1\<rparr>
         in if xpos s1 \<ge> COLUMNS then newline s1 else Some s1) })"

definition COLOR_LUT :: "u8 list" where
  "COLOR_LUT = [0x0, 0x4, 0x2, 0x6, 0x1, 0x5, 0x3, 0x7, 0x8, 0xC, 0xA, 0xE, 0x9, 0xD, 0xB, 0xF]"

definition terminal_change_attrib :: "int \<Rightarrow> 'a tty_scheme \<Rightarrow> 'a tty_scheme" where
  "terminal_change_attrib code s =
     (if 30 \<le> code \<and> code \<le> 37
      then s\<lparr>ATTRIBUTE := (ATTRIBUTE s AND 0xF0) + COLOR_LUT ! nat (code - 30)\<rparr>
      else if 40 \<le> code \<and> code \<le> 47
      then s\<lparr>ATTRIBUTE := (ATTRIBUTE s AND 0x0F) + push_bit 4 (COLOR_LUT ! nat (code - 40))\<rparr>
      else if 90 \<le> code \<and> code \<le> 97
      then s\<lparr>ATTRIBUTE := (ATTRIBUTE s AND 0xF0) + COLOR_LUT ! nat (code - 82)\<rparr>
      else if 100 \<le> code \<and> code \<le> 107
      then s\<lparr>ATTRIBUTE := (ATTRIBUTE s AND 0x0F) + push_bit 4 (COLOR_LUT ! nat (code - 92))\<rparr>
      else s)"

fun putchars :: "u8 list \<Rightarrow> 'a tty_scheme \<Rightarrow> 'a tty_scheme option" where
  "putchars [] s = Some s"
| "putchars (b # bs) s = do { s1 \<leftarrow> putchar (scast b) s; putchars bs s1 }"

partial_function (option) putcstr :: "addr \<Rightarrow> 'a tty_scheme \<Rightarrow> 'a tty_scheme option" where
  "putcstr p s = do {
     c \<leftarrow> rd8 (mem s) p 0;
     if c = 0 then Some s else do { s1 \<leftarrow> putchar (scast c) s; putcstr (p + 1) s1 } }"

text \<open>
  The colour escape, after ESC and the bracket: decimal codes separated by semicolons and
  closed by m. \<open>esc_code\<close> reads one code up to its separator.
\<close>

fun esc_code :: "u8 list \<Rightarrow> int \<Rightarrow> (int \<times> u8 \<times> u8 list) option" where
  "esc_code [] code = None"
| "esc_code (c # f) code =
     (if c \<noteq> ch CHR '';'' \<and> c \<noteq> ch CHR ''m'' then esc_code f (code * 8 + code * 2 + (sint c - 48))
      else Some (code, c, f))"

lemma esc_code_shorter: "esc_code f code = Some (k, c, r) \<Longrightarrow> length r < length f"
  by (induction f code rule: esc_code.induct) (auto split: if_splits)

function escapes :: "u8 list \<Rightarrow> 'a tty_scheme \<Rightarrow> ('a tty_scheme \<times> u8 list) option" where
  "escapes f s =
     (case esc_code f 0 of None \<Rightarrow> None
      | Some (code, c, r) \<Rightarrow>
          (let s1 = terminal_change_attrib code s
           in if c = ch CHR ''m'' then Some (s1, r) else escapes r s1))"
  by pat_completeness auto
termination
  by (relation "measure (\<lambda>(f, s). length f)") (auto dest: esc_code_shorter)

declare escapes.simps [simp del]

lemma escapes_shorter: "escapes f s = Some (s1, r) \<Longrightarrow> length r < length f"
proof (induction f s rule: escapes.induct)
  case (1 f s)
  then obtain code c r1 where e: "esc_code f 0 = Some (code, c, r1)"
    by (cases "esc_code f 0") (auto simp: escapes.simps [of f s])
  then have "length r1 < length f" by (rule esc_code_shorter)
  with 1 e show ?case
    by (fastforce simp: escapes.simps [of f s] Let_def split: if_splits intro: less_trans)
qed

definition printf_conv ::
  "bool \<Rightarrow> nat \<Rightarrow> u8 \<Rightarrow> vararg list \<Rightarrow> 'a tty_scheme \<Rightarrow> ('a tty_scheme \<times> vararg list) option" where
  "printf_conv pad0 pad c args s = (case args of [] \<Rightarrow> None | a # rest \<Rightarrow>
     (if is_num_conv c then (case a of
        Word d \<Rightarrow> do {
          s1 \<leftarrow> putchars (padding pad0 pad (length (itoa c d)) @ itoa c d) s;
          Some (s1, rest) }
      | Lit l \<Rightarrow> None)
      else if c = ch CHR ''s'' then (case a of
        Word p \<Rightarrow>
          (if p = 0 then do {
             s1 \<leftarrow> putchars (padding pad0 pad 6 @ chars ''(null)'') s;
             Some (s1, rest) }
           else do {
             n \<leftarrow> strlen (mem s) p;
             s1 \<leftarrow> putchars (padding pad0 pad (unat n)) s;
             s2 \<leftarrow> putcstr p s1;
             Some (s2, rest) })
      | Lit l \<Rightarrow> do {
          s1 \<leftarrow> putchars (padding pad0 pad (length l) @ l) s;
          Some (s1, rest) })
      else (case a of
        Word d \<Rightarrow> do { s1 \<leftarrow> putchar d s; Some (s1, rest) }
      | Lit l \<Rightarrow> None)))"

function printf_loop :: "u8 list \<Rightarrow> vararg list \<Rightarrow> 'a tty_scheme \<Rightarrow> 'a tty_scheme option" where
  "printf_loop [] args s = Some s"
| "printf_loop (c # f) args s =
     (if c = 27 then (case f of [] \<Rightarrow> None
        | c1 # f1 \<Rightarrow>
            (if c1 = ch CHR ''['' then
               (case escapes f1 s of None \<Rightarrow> None | Some (s1, r) \<Rightarrow> printf_loop r args s1)
             else printf_loop f1 args s))
      else if c \<noteq> ch CHR ''%'' then
        (case putchar (scast c) s of None \<Rightarrow> None | Some s1 \<Rightarrow> printf_loop f args s1)
      else (case fmt_spec f of None \<Rightarrow> None | Some (pad0, pad, k, r) \<Rightarrow>
        (case printf_conv pad0 pad k args s of None \<Rightarrow> None
         | Some (s1, args') \<Rightarrow> printf_loop r args' s1)))"
  by pat_completeness auto
termination
  by (relation "measure (\<lambda>(f, args, s). length f)")
    (auto dest: fmt_spec_shorter escapes_shorter)

definition printf :: "string \<Rightarrow> vararg list \<Rightarrow> 'a tty_scheme \<Rightarrow> 'a tty_scheme option" where
  "printf format args s = printf_loop (chars format) args s"

section \<open>The console stays on the screen\<close>

definition screen :: "addr set" where
  "screen = zone 0xB8000 4000"

definition tty_ok :: "'a tty_scheme \<Rightarrow> bool" where
  "tty_ok s \<longleftrightarrow> 0 \<le> xpos s \<and> xpos s < 80 \<and> 0 \<le> ypos s \<and> ypos s < 25 \<and> video s = VIDEO"

definition cursor :: "'a tty_scheme \<Rightarrow> int" where
  "cursor s = xpos s + ypos s * 80"

definition console_step :: "'a tty_scheme \<Rightarrow> 'a tty_scheme \<Rightarrow> bool" where
  "console_step s s' \<longleftrightarrow> tty_ok s' \<and> eq_out screen (mem s) (mem s') \<and>
     s' = s\<lparr>mem := mem s', ATTRIBUTE := ATTRIBUTE s', xpos := xpos s', ypos := ypos s'\<rparr>"

lemma console_step_refl [simp]: "tty_ok s \<Longrightarrow> console_step s s"
  by (simp add: console_step_def)

lemma console_step_trans:
  assumes "console_step s s1" and "console_step s1 s2"
  shows "console_step s s2"
proof -
  have "s2 = s1\<lparr>mem := mem s2, ATTRIBUTE := ATTRIBUTE s2, xpos := xpos s2, ypos := ypos s2\<rparr>"
    and "s1 = s\<lparr>mem := mem s1, ATTRIBUTE := ATTRIBUTE s1, xpos := xpos s1, ypos := ypos s1\<rparr>"
    using assms by (simp_all add: console_step_def)
  then have "s2 = s\<lparr>mem := mem s2, ATTRIBUTE := ATTRIBUTE s2, xpos := xpos s2, ypos := ypos s2\<rparr>"
    by (cases s2, cases s1, cases s) simp
  with assms show ?thesis by (auto simp: console_step_def intro: eq_out_trans)
qed

lemma console_step_ok: "console_step s s' \<Longrightarrow> tty_ok s'"
  by (simp add: console_step_def)

lemma unat_cell:
  assumes "0 \<le> x" "x < 80" "0 \<le> y" "y < 25"
  shows "unat (VIDEO + cell x y) = 0xB8000 + nat ((x + y * 80) * 2)"
    and "unat (VIDEO + cell x y + 1) = 0xB8000 + nat ((x + y * 80) * 2) + 1"
proof -
  let ?k = "nat ((x + y * 80) * 2)"
  have c: "cell x y = of_nat ?k" using assms by (simp add: cell_def COLUMNS_def of_nat_nat)
  have lt: "?k < 4000" using assms by simp
  then show "unat (VIDEO + cell x y) = 0xB8000 + ?k"
    using unat_plus_of_nat [of VIDEO ?k] by (simp add: c VIDEO_def)
  then show "unat (VIDEO + cell x y + 1) = 0xB8000 + ?k + 1"
    using lt unat_plus_one [of "VIDEO + cell x y"] by simp
qed

lemma cell_on_screen:
  assumes "0 \<le> x" "x < 80" "0 \<le> y" "y < 25"
  shows "VIDEO + cell x y \<in> screen" and "VIDEO + cell x y + 1 \<in> screen"
  using unat_cell [OF assms] assms by (auto simp: screen_def zone_def)

lemma VIDEO_nonnull [simp]: "VIDEO \<noteq> 0"
  by (simp add: VIDEO_def)

lemma eq_out_upd: "eq_out A m m' \<Longrightarrow> a \<in> A \<Longrightarrow> eq_out A m (m'(a := v))"
  by (simp add: eq_out_def)

text \<open>Blanking a line writes from the cursor to the end of the line and nothing before it.\<close>

lemma blank_line_step:
  assumes "0 \<le> xpos s" "xpos s + int n = 80" "0 \<le> ypos s" "ypos s < 25" "video s = VIDEO"
  shows "\<exists>m. blank_line n s = Some (s\<lparr>mem := m, xpos := 80\<rparr>) \<and>
     eq_out {VIDEO + cell x (ypos s) |x. xpos s \<le> x \<and> x < 80} (mem s) m"
  using assms
proof (induction n arbitrary: s)
  case 0
  then have "s\<lparr>mem := mem s, xpos := 80\<rparr> = s" by (cases s) simp
  then show ?case by (intro exI [of _ "mem s"]) simp
next
  case (Suc n)
  let ?a = "VIDEO + cell (xpos s) (ypos s)"
  let ?s = "s\<lparr>mem := (mem s)(?a := ch CHR '' ''), xpos := xpos s + 1\<rparr>"
  have "\<exists>m. blank_line n ?s = Some (?s\<lparr>mem := m, xpos := 80\<rparr>) \<and>
     eq_out {VIDEO + cell x (ypos ?s) |x. xpos ?s \<le> x \<and> x < 80} (mem ?s) m"
    by (rule Suc.IH) (use Suc.prems in auto)
  then obtain m where m: "blank_line n ?s = Some (?s\<lparr>mem := m, xpos := 80\<rparr>)"
    and eq: "eq_out {VIDEO + cell x (ypos s) |x. xpos s + 1 \<le> x \<and> x < 80} (mem ?s) m"
    by auto
  let ?A = "{VIDEO + cell x (ypos s) |x. xpos s \<le> x \<and> x < 80}"
  have "eq_out ?A (mem s) (mem ?s)" using Suc.prems by (auto intro!: eq_out_upd)
  moreover have "eq_out ?A (mem ?s) m" by (rule eq_out_mono [OF eq]) force
  ultimately have "eq_out ?A (mem s) m" by (rule eq_out_trans)
  with m Suc.prems show ?case by (auto simp: COLUMNS_def)
qed

lemma newline_step:
  assumes "0 \<le> xpos s" "xpos s \<le> 80" "0 \<le> ypos s" "ypos s < 25" "video s = VIDEO"
  shows "\<exists>m. newline s = Some (s\<lparr>mem := m, xpos := 0, ypos := (ypos s + 1) mod 25\<rparr>) \<and>
     eq_out {VIDEO + cell x (ypos s) |x. xpos s \<le> x \<and> x < 80} (mem s) m"
proof -
  obtain m where m: "blank_line (nat (80 - xpos s)) s = Some (s\<lparr>mem := m, xpos := 80\<rparr>)"
    and eq: "eq_out {VIDEO + cell x (ypos s) |x. xpos s \<le> x \<and> x < 80} (mem s) m"
    using blank_line_step [of s "nat (80 - xpos s)"] assms by auto
  have "(if LINES \<le> ypos s + 1 then 0 else ypos s + 1) = (ypos s + 1) mod 25"
  proof (cases "ypos s = 24")
    case False
    then have "ypos s + 1 < 25" using assms by simp
    then show ?thesis using assms by (simp add: LINES_def)
  qed (simp add: LINES_def)
  with m eq show ?thesis by (auto simp: newline_def COLUMNS_def)
qed

lemma newline_console:
  assumes "0 \<le> xpos s" "xpos s \<le> 80" "0 \<le> ypos s" "ypos s < 25" "video s = VIDEO"
  shows "\<exists>s'. newline s = Some s' \<and> console_step s s' \<and> cursor s' = ((ypos s + 1) mod 25) * 80"
proof -
  obtain m where m: "newline s = Some (s\<lparr>mem := m, xpos := 0, ypos := (ypos s + 1) mod 25\<rparr>)"
    and eq: "eq_out {VIDEO + cell x (ypos s) |x. xpos s \<le> x \<and> x < 80} (mem s) m"
    using newline_step [OF assms] by blast
  have "eq_out screen (mem s) m"
    by (rule eq_out_mono [OF eq]) (use assms in \<open>auto intro: cell_on_screen\<close>)
  with m assms show ?thesis by (auto simp: console_step_def tty_ok_def cursor_def)
qed

lemma putchar_glyph:
  assumes ok: "tty_ok s" and c: "c \<noteq> of_char CHR 0x0A" "c \<noteq> of_char CHR 0x0D"
  shows "\<exists>s'. putchar c s = Some s' \<and> console_step s s' \<and> cursor s' = (cursor s + 1) mod 2000 \<and>
     mem s' (VIDEO + cell (xpos s) (ypos s)) = ucast c \<and>
     mem s' (VIDEO + cell (xpos s) (ypos s) + 1) = ATTRIBUTE s \<and> ATTRIBUTE s' = ATTRIBUTE s"
proof -
  let ?a = "VIDEO + cell (xpos s) (ypos s)"
  have r: "0 \<le> xpos s" "xpos s < 80" "0 \<le> ypos s" "ypos s < 25" "video s = VIDEO"
    using ok by (auto simp: tty_ok_def)
  define m where "m = (mem s)(?a := ucast c, ?a + 1 := ATTRIBUTE s)"
  have eq: "eq_out screen (mem s) m"
    unfolding m_def by (intro eq_out_upd eq_out_refl cell_on_screen) (use r in auto)
  have mm: "m ?a = ucast c" "m (?a + 1) = ATTRIBUTE s"
    by (simp_all add: m_def)
  have pc: "putchar c s = (let s1 = s\<lparr>mem := m, xpos := xpos s + 1\<rparr>
      in if 80 \<le> xpos s1 then newline s1 else Some s1)"
    using c r by (simp add: putchar_def m_def COLUMNS_def add.assoc)
  show ?thesis
  proof (cases "xpos s = 79")
    case True
    let ?s1 = "s\<lparr>mem := m, xpos := 80\<rparr>"
    obtain m2 where nl: "newline ?s1 = Some (?s1\<lparr>mem := m2, xpos := 0, ypos := (ypos ?s1 + 1) mod 25\<rparr>)"
      and e2: "eq_out {VIDEO + cell x (ypos ?s1) |x. xpos ?s1 \<le> x \<and> x < 80} (mem ?s1) m2"
      using newline_step [of ?s1] r by auto
    from e2 have m2: "m2 = m" by (auto simp: eq_out_def)
    have "(79 + ypos s * 80 + 1) mod 2000 = (ypos s + 1) mod 25 * (80::int)"
    proof (cases "ypos s = 24")
      case False
      then have "ypos s + 1 < 25" "ypos s * 80 + 80 < 2000" using r by auto
      then show ?thesis using r by simp
    qed simp
    with pc nl m2 True eq mm r show ?thesis
      by (auto simp: console_step_def tty_ok_def cursor_def)
  next
    case False
    then have "xpos s + 1 < 80" using r by simp
    with pc eq mm r show ?thesis
      by (auto simp: console_step_def tty_ok_def cursor_def)
  qed
qed

lemma putchar_console: "tty_ok s \<Longrightarrow> \<exists>s'. putchar c s = Some s' \<and> console_step s s'"
proof (cases "c = of_char CHR 0x0A \<or> c = of_char CHR 0x0D")
  case True
  assume "tty_ok s"
  with newline_console [of s] show ?thesis using True by (auto simp: putchar_def tty_ok_def)
qed (use putchar_glyph in blast)

lemma putchars_console: "tty_ok s \<Longrightarrow> \<exists>s'. putchars bs s = Some s' \<and> console_step s s'"
proof (induction bs arbitrary: s)
  case (Cons b bs)
  obtain s1 where s1: "putchar (scast b) s = Some s1" "console_step s s1"
    using putchar_console [OF Cons.prems] by blast
  obtain s2 where "putchars bs s1 = Some s2" "console_step s1 s2"
    using Cons.IH [OF console_step_ok [OF s1(2)]] by blast
  with s1 show ?case by (auto intro: console_step_trans)
qed simp

lemma putcstr_console:
  assumes "putcstr p s = Some s'"
  shows "tty_ok s \<Longrightarrow> console_step s s'"
proof (rule putcstr.raw_induct [where P = "\<lambda>p s s'. tty_ok s \<longrightarrow> console_step s s'",
      OF _ assms, rule_format])
  fix f :: "addr \<Rightarrow> 'a tty_scheme \<Rightarrow> 'a tty_scheme option" and p s s'
  assume IH: "\<And>p s s'. f p s = Some s' \<Longrightarrow> tty_ok s \<Longrightarrow> console_step s s'"
    and step: "rd8 (mem s) p 0 \<bind> (\<lambda>c. if c = 0 then Some s else putchar (scast c) s \<bind> f (p + 1)) = Some s'"
    and ok: "tty_ok s"
  obtain c where "rd8 (mem s) p 0 = Some c"
    and c: "(if c = 0 then Some s else putchar (scast c) s \<bind> f (p + 1)) = Some s'"
    using step by (auto simp: bind_Some_iff)
  show "console_step s s'"
  proof (cases "c = 0")
    case False
    obtain s1 where "putchar (scast c) s = Some s1" and s1: "console_step s s1"
      using putchar_console [OF ok] by blast
    with c False have "f (p + 1) s1 = Some s'" by simp
    with IH s1 show ?thesis by (blast intro: console_step_trans console_step_ok)
  qed (use c ok in simp)
qed

lemma putchar_safe: "putchar c s = Some s' \<Longrightarrow> tty_ok s \<Longrightarrow> console_step s s'"
  using putchar_console [of s c] by auto

lemma putchars_safe: "putchars bs s = Some s' \<Longrightarrow> tty_ok s \<Longrightarrow> console_step s s'"
  using putchars_console [of s bs] by auto

lemma padded_cstr_safe:
  "putchars bs s = Some s1 \<Longrightarrow> putcstr p s1 = Some s' \<Longrightarrow> tty_ok s \<Longrightarrow> console_step s s'"
  using putchars_safe putcstr_console console_step_trans console_step_ok by metis

lemma terminal_change_attrib_console: "tty_ok s \<Longrightarrow> console_step s (terminal_change_attrib k s)"
  by (auto simp: terminal_change_attrib_def console_step_def tty_ok_def)

lemma escapes_console: "escapes f s = Some (s', r) \<Longrightarrow> tty_ok s \<Longrightarrow> console_step s s'"
proof (induction f s rule: escapes.induct)
  case (1 f s)
  obtain code c r1 where e: "esc_code f 0 = Some (code, c, r1)"
    using 1(2) by (cases "esc_code f 0") (auto simp: escapes.simps [of f s])
  let ?s1 = "terminal_change_attrib code s"
  have s1: "console_step s ?s1" by (rule terminal_change_attrib_console [OF 1(3)])
  show ?case
  proof (cases "c = ch CHR ''m''")
    case True
    with 1(2) e s1 show ?thesis by (simp add: escapes.simps [of f s] Let_def)
  next
    case False
    then have "escapes r1 ?s1 = Some (s', r)"
      using 1(2) e by (simp add: escapes.simps [of f s] Let_def)
    then have "console_step ?s1 s'"
      using 1(1) [OF e refl refl refl False] console_step_ok [OF s1] by blast
    with s1 show ?thesis by (rule console_step_trans)
  qed
qed

lemma printf_conv_console:
  assumes "printf_conv pad0 pad c args s = Some (s', rest)" and "tty_ok s"
  shows "console_step s s'"
proof -
  obtain a r where "args = a # r" using assms(1) by (cases args) (auto simp: printf_conv_def)
  with assms show ?thesis
    by (cases a) (auto simp: printf_conv_def bind_Some_iff split: if_splits
        dest: putchar_safe putchars_safe padded_cstr_safe)
qed

lemma printf_loop_console: "printf_loop f args s = Some s' \<Longrightarrow> tty_ok s \<Longrightarrow> console_step s s'"
proof (induction f args s rule: printf_loop.induct)
  case (2 c f args s)
  note IH = 2(1-4) and run = 2(5) and ok = 2(6)
  consider c1 f1 where "c = 27" "f = c1 # f1" "c1 = ch CHR ''[''"
    | c1 f1 where "c = 27" "f = c1 # f1" "c1 \<noteq> ch CHR ''[''"
    | "c \<noteq> 27" "c \<noteq> ch CHR ''%''" | "c \<noteq> 27" "c = ch CHR ''%''"
    using run by (cases "c = 27"; cases f) auto
  then show ?case
  proof cases
    case 1
    then obtain s1 r where "escapes f1 s = Some (s1, r)" "printf_loop r args s1 = Some s'"
      using run by (auto split: option.splits)
    with IH(1) [OF 1] escapes_console ok show ?thesis
      by (metis console_step_ok console_step_trans)
  next
    case 2
    then show ?thesis using IH(2) run ok by simp
  next
    case 3
    then obtain s1 where "putchar (scast c) s = Some s1" "printf_loop f args s1 = Some s'"
      using run by (auto split: option.splits)
    with IH(3) 3 putchar_safe ok show ?thesis
      by (metis console_step_ok console_step_trans)
  next
    case 4
    then obtain pad0 pad k r s1 args' where r: "fmt_spec f = Some (pad0, pad, k, r)"
      "printf_conv pad0 pad k args s = Some (s1, args')" "printf_loop r args' s1 = Some s'"
      using run by (auto split: option.splits)
    have s1: "console_step s s1" by (rule printf_conv_console [OF r(2) ok])
    have "console_step s1 s'"
      by (rule IH(4) [OF 4(1) _ r(1) refl refl refl r(2) refl r(3) console_step_ok [OF s1]])
        (use 4 in simp)
    with s1 show ?thesis by (rule console_step_trans)
  qed
qed simp

section \<open>Strings in memory\<close>

text \<open>The string at an address, if it ends before the top of memory.\<close>

partial_function (option) read_cstr :: "mem \<Rightarrow> addr \<Rightarrow> u8 list option" where
  "read_cstr m p = do {
     c \<leftarrow> rd8 m p 0;
     if c = 0 then Some [] else do { cs \<leftarrow> read_cstr m (p + 1); Some (c # cs) } }"

lemma read_cstrI: "cstr m p xs \<Longrightarrow> read_cstr m p = Some xs"
  by (induction xs arbitrary: p) (subst read_cstr.simps, simp)+

lemma read_cstrD: "read_cstr m p = Some xs \<Longrightarrow> cstr m p xs"
proof (induction xs arbitrary: p)
  case Nil
  then show ?case unfolding read_cstr.simps [of m p] by (auto simp: rd8_def bind_Some_iff split: if_splits)
next
  case (Cons x xs)
  have "p \<noteq> 0 \<and> m p = x \<and> x \<noteq> 0 \<and> read_cstr m (p + 1) = Some xs"
    using Cons.prems unfolding read_cstr.simps [of m p] by (auto simp: rd8_def bind_Some_iff split: if_splits)
  then show ?case using Cons.IH by simp
qed

lemma cstr_fits: "cstr m p xs \<Longrightarrow> unat p + length xs < two32"
proof (induction xs arbitrary: p)
  case (Cons x xs)
  then have "p + 1 \<noteq> 0" using cstr_nonnull [of m "p + 1" xs] by auto
  then have "unat (p + 1) = unat p + 1" using unatSuc [of p] by (simp add: add.commute [of p 1])
  then show ?case using Cons.IH [of "p + 1"] Cons.prems by simp
qed (use unsigned_less in \<open>force\<close>)

text \<open>A string that lies apart from the \<open>n\<close> bytes from \<open>lo\<close> on.\<close>

definition str_clear :: "mem \<Rightarrow> nat \<Rightarrow> nat \<Rightarrow> addr \<Rightarrow> bool" where
  "str_clear m lo n p = (case read_cstr m p of None \<Rightarrow> False
     | Some xs \<Rightarrow> unat p + length xs < lo \<or> lo + n \<le> unat p)"

lemma str_clearE:
  assumes "str_clear m lo n p"
  obtains xs where "cstr m p xs" "read_cstr m p = Some xs" "region p (length xs + 1) \<inter> zone lo n = {}"
proof -
  obtain xs where xs: "read_cstr m p = Some xs" "unat p + length xs < lo \<or> lo + n \<le> unat p"
    using assms by (auto simp: str_clear_def split: option.splits)
  then have "region p (length xs + 1) \<inter> zone lo n = {}" by (auto simp: region_def zone_def)
  with xs(1) read_cstrD that show ?thesis by blast
qed

lemma cstr_apart:
  assumes "cstr m p xs" and "region p (length xs + 1) \<inter> A = {}" and "eq_out A m m'"
  shows "cstr m' p xs"
  using cstr_frame [OF assms(1,3,2) cstr_fits [OF assms(1)]] .

lemma putcstr_putchars:
  fixes s :: "'a tty_scheme"
  assumes "cstr (mem s) p xs" and "tty_ok s" and "region p (length xs + 1) \<inter> screen = {}"
  shows "putcstr p s = putchars xs s"
  using assms
proof (induction xs arbitrary: p s)
  case Nil
  then show ?case by (subst putcstr.simps) simp
next
  case (Cons x xs)
  obtain s1 where s1: "putchar (scast x) s = Some s1" "console_step s s1" using putchar_console [OF Cons.prems(2)] by blast
  have "cstr (mem s1) p (x # xs)"
    using cstr_apart [OF Cons.prems(1,3)] s1(2) by (auto simp: console_step_def)
  moreover have "unat (p + 1) = unat p + 1" using cstr_fits [OF Cons.prems(1)] unat_plus_one [of p] by simp
  then have "region (p + 1) (length xs + 1) \<subseteq> region p (length (x # xs) + 1)" by (auto simp: region_def)
  ultimately have "putcstr (p + 1) s1 = putchars xs s1"
    using Cons.IH [of s1 "p + 1"] Cons.prems(3) console_step_ok [OF s1(2)] by auto
  then show ?case using Cons.prems(1) s1(1) by (subst putcstr.simps) simp
qed

section \<open>Formats that print\<close>

text \<open>
  \<open>fmt_with P f args\<close>: every escape and every conversion of the format is complete and has an argument
  of its kind; the pointers printed as strings are null or satisfy \<open>P\<close>. In \<open>fmt_ok\<close> strings are literals or the null pointer;
  \<open>printable\<close> also admits pointers to strings in memory outside the video buffer.
\<close>

definition esc_skip :: "u8 list \<Rightarrow> u8 list option" where
  "esc_skip f = (case dropWhile (\<lambda>c. c \<noteq> ch CHR ''m'') f of [] \<Rightarrow> None | c # r \<Rightarrow> Some r)"

definition conv_ok :: "(addr \<Rightarrow> bool) \<Rightarrow> u8 \<Rightarrow> vararg \<Rightarrow> bool" where
  "conv_ok P c a = (case a of Word w \<Rightarrow> is_num_conv c \<or> c \<noteq> ch CHR ''s'' \<or> w = 0 \<or> P w
     | Lit l \<Rightarrow> \<not> is_num_conv c \<and> c = ch CHR ''s'')"

lemma esc_skip_shorter: "esc_skip f = Some r \<Longrightarrow> length r < length f"
  using length_dropWhile_le [of "\<lambda>c. c \<noteq> ch CHR ''m''" f]
  by (auto simp: esc_skip_def split: list.splits)

function fmt_with :: "(addr \<Rightarrow> bool) \<Rightarrow> u8 list \<Rightarrow> vararg list \<Rightarrow> bool" where
  "fmt_with P [] args \<longleftrightarrow> True"
| "fmt_with P (c # f) args \<longleftrightarrow>
     (if c = 27 then (case f of [] \<Rightarrow> False
        | c1 # f1 \<Rightarrow> if c1 = ch CHR ''['' then
            (case esc_skip f1 of None \<Rightarrow> False | Some r \<Rightarrow> fmt_with P r args) else fmt_with P f1 args)
      else if c \<noteq> ch CHR ''%'' then fmt_with P f args
      else (case fmt_spec f of None \<Rightarrow> False | Some (pad0, pad, k, r) \<Rightarrow>
        (case args of [] \<Rightarrow> False | a # rest \<Rightarrow> conv_ok P k a \<and> fmt_with P r rest)))"
  by pat_completeness auto
termination
  by (relation "measure (\<lambda>(P, f, args). length f)") (auto dest: fmt_spec_shorter esc_skip_shorter)

abbreviation fmt_ok :: "u8 list \<Rightarrow> vararg list \<Rightarrow> bool" where
  "fmt_ok \<equiv> fmt_with (\<lambda>p. False)"

abbreviation printable :: "mem \<Rightarrow> u8 list \<Rightarrow> vararg list \<Rightarrow> bool" where
  "printable m \<equiv> fmt_with (str_clear m 0xB8000 4000)"

lemma fmt_with_mono: "fmt_with P f args \<Longrightarrow> (\<And>p. P p \<Longrightarrow> Q p) \<Longrightarrow> fmt_with Q f args"
proof (induction P f args rule: fmt_with.induct)
  case (2 P c f args)
  then show ?case
    by (cases args) (auto simp: conv_ok_def split: if_splits list.splits option.splits prod.splits vararg.splits)
qed simp

lemma esc_code_skip:
  "esc_skip f = Some r \<Longrightarrow> \<exists>k c r'. esc_code f code = Some (k, c, r') \<and>
     (c = ch CHR ''m'' \<and> r' = r \<or> c \<noteq> ch CHR ''m'' \<and> esc_skip r' = Some r)"
  by (induction f code rule: esc_code.induct) (auto simp: esc_skip_def split: if_splits)

lemma escapes_skip: "esc_skip f = Some r \<Longrightarrow> \<exists>s'. escapes f s = Some (s', r)"
proof (induction f s rule: escapes.induct)
  case (1 f s)
  obtain k c r' where e: "esc_code f 0 = Some (k, c, r')"
    and c: "c = ch CHR ''m'' \<and> r' = r \<or> c \<noteq> ch CHR ''m'' \<and> esc_skip r' = Some r"
    using esc_code_skip [OF 1(2), of 0] by blast
  show ?case
  proof (cases "c = ch CHR ''m''")
    case False
    with 1(1) [OF e refl refl refl False] c e show ?thesis
      by (simp add: escapes.simps [of f s] Let_def)
  qed (use c e in \<open>simp add: escapes.simps [of f s] Let_def\<close>)
qed

lemma printf_conv_returns:
  fixes s :: "'a tty_scheme"
  assumes "tty_ok s" and e: "eq_out screen m (mem s)" and "conv_ok (str_clear m 0xB8000 4000) k a"
  shows "\<exists>s'. printf_conv pad0 pad k (a # rest) s = Some (s', rest)"
proof -
  have all: "\<exists>s'. putchars bs s = Some s' \<and> console_step s s'" for bs by (rule putchars_console [OF assms(1)])
  have "\<exists>s'. printf_conv pad0 pad k (Word p # rest) s = Some (s', rest)"
    if p: "\<not> is_num_conv k" "k = ch CHR ''s''" "p \<noteq> 0" "str_clear m 0xB8000 4000 p" for p
  proof -
    obtain xs where xs: "cstr m p xs" "region p (length xs + 1) \<inter> screen = {}"
      using str_clearE [OF p(4)] unfolding screen_def by metis
    obtain s1 where s1: "putchars (padding pad0 pad (unat (of_nat (length xs) :: u32))) s = Some s1" "console_step s s1" using all by blast
    have c: "cstr (mem s) p xs" "cstr (mem s1) p xs"
      using cstr_apart [OF xs e] cstr_apart [OF cstr_apart [OF xs e] xs(2)] s1(2) by (auto simp: console_step_def)
    obtain s2 where "putcstr p s1 = Some s2"
      using putcstr_putchars [OF c(2) console_step_ok [OF s1(2)] xs(2)] putchars_console [OF console_step_ok [OF s1(2)], of xs] by auto
    then show ?thesis using p s1(1) strlen_eq [OF c(1)] by (simp add: printf_conv_def)
  qed
  moreover have "\<exists>s'. do { s1 \<leftarrow> putchars bs s; Some (s1, rest) } = Some (s', rest)" for bs using all [of bs] by auto
  moreover have "\<exists>s'. do { s1 \<leftarrow> putchar d s; Some (s1, rest) } = Some (s', rest)" for d
    using putchar_console [OF assms(1), of d] by auto
  ultimately show ?thesis using assms(3)
    by (cases a; cases "is_num_conv k"; cases "k = ch CHR ''s''") (auto simp: printf_conv_def conv_ok_def)
qed

lemma printf_loop_returns:
  fixes s :: "'a tty_scheme"
  shows "fmt_with P f args \<Longrightarrow> P = str_clear m 0xB8000 4000 \<Longrightarrow> tty_ok s \<Longrightarrow> eq_out screen m (mem s) \<Longrightarrow>
     \<exists>s'. printf_loop f args s = Some s'"
proof (induction P f args arbitrary: s rule: fmt_with.induct)
  case (2 P c f args)
  note IH = 2(1-4) and ok = 2(5) and P = 2(6) and tty = 2(7) and e = 2(8)
  have step: "tty_ok s1 \<and> eq_out screen m (mem s1)" if "console_step s s1" for s1 :: "'a tty_scheme"
    using that eq_out_trans [OF e] by (auto simp: console_step_def)
  consider c1 f1 r where "c = 27" "f = c1 # f1" "c1 = ch CHR ''[''" "esc_skip f1 = Some r"
    | c1 f1 where "c = 27" "f = c1 # f1" "c1 \<noteq> ch CHR ''[''"
    | "c \<noteq> 27" "c \<noteq> ch CHR ''%''"
    | p0 p k r a rest where "c \<noteq> 27" "\<not> c \<noteq> ch CHR ''%''" "fmt_spec f = Some (p0, p, k, r)"
        "args = a # rest" "conv_ok P k a" "fmt_with P r rest"
    using ok by (cases args) (auto split: if_splits list.splits option.splits prod.splits)
  then show ?case
  proof cases
    case 1
    obtain s1 where s1: "escapes f1 s = Some (s1, r)" using escapes_skip [OF 1(4)] by blast
    then show ?thesis using IH(1) [OF 1, of s1] ok P 1 s1 step [OF escapes_console [OF s1 tty]] by simp
  next
    case 2
    then show ?thesis using IH(2) [OF 2] ok P tty e by simp
  next
    case 3
    obtain s1 where "putchar (scast c) s = Some s1" "console_step s s1" using putchar_console [OF tty] by blast
    then show ?thesis using IH(3) [OF 3, of s1] ok P 3 step by simp
  next
    case 4
    obtain s1 where s1: "printf_conv p0 p k (a # rest) s = Some (s1, rest)"
      using printf_conv_returns [OF tty e 4(5) [unfolded P]] by blast
    then show ?thesis
      using IH(4) [OF 4(1,2,3) refl refl refl 4(4,6) P, of s1] 4 step [OF printf_conv_console [OF s1 tty]] by simp
  qed
qed simp

lemma printf_shows:
  assumes "printable (mem s) (chars format) args" and "tty_ok s"
  shows "\<exists>s'. printf format args s = Some s' \<and> console_step s s'"
  using printf_loop_returns [OF assms(1) refl assms(2)] printf_loop_console assms(2) by (fastforce simp: printf_def)

lemma printf_returns:
  assumes "fmt_ok (chars format) args" and "tty_ok s"
  shows "\<exists>s'. printf format args s = Some s' \<and> console_step s s'"
  by (rule printf_shows [OF fmt_with_mono [OF assms(1)] assms(2)]) simp

section \<open>Properties\<close>

definition demo_tty :: tty where
  "demo_tty = \<lparr>mem = (\<lambda>a. 0), ports = [], ATTRIBUTE = 7, xpos = 79, ypos = 24, video = VIDEO\<rparr>"

lemma demo_tty_ok: "tty_ok demo_tty"
  by (simp add: demo_tty_def tty_ok_def)

text \<open>
  Printing a character that is not a line break returns, stores the character and the current
  attribute in the cell under the cursor, and moves the cursor to the next of the 2000 cells
  (from the last cell back to the first); the cursor stays on the screen and no byte outside the
  video buffer changes.
\<close>

lemma putchar_writes_cell:
  assumes "tty_ok s" and "c \<noteq> of_char CHR 0x0A" and "c \<noteq> of_char CHR 0x0D"
  shows "\<exists>s'. putchar c s = Some s' \<and> console_step s s' \<and> cursor s' = (cursor s + 1) mod 2000 \<and>
     mem s' (VIDEO + cell (xpos s) (ypos s)) = ucast c \<and>
     mem s' (VIDEO + cell (xpos s) (ypos s) + 1) = ATTRIBUTE s \<and> ATTRIBUTE s' = ATTRIBUTE s"
  using putchar_glyph [OF assms] .

text \<open>
  C31: \<open>printf\<close> returns whenever the escapes and conversions of its format are complete and its
  arguments match them, a pointer printed as a string being null or that of a string in memory outside the video
  buffer. Whatever the format and the arguments, when it returns the cursor is on
  the screen, no byte outside the video buffer has changed, and of the kernel's variables only
  the cursor and the attribute have.
\<close>

theorem printf_stays_on_screen:
  assumes "tty_ok s"
  shows "(printable (mem s) (chars format) args \<longrightarrow> (\<exists>s'. printf format args s = Some s')) \<and>
     (\<forall>s'. printf format args s = Some s' \<longrightarrow>
        tty_ok s' \<and> eq_out screen (mem s) (mem s') \<and>
        s' = s\<lparr>mem := mem s', ATTRIBUTE := ATTRIBUTE s', xpos := xpos s', ypos := ypos s'\<rparr>)"
  using printf_loop_console [of "chars format" args s] printf_shows [of s format args] assms
  by (auto simp: printf_def console_step_def)

text \<open>The string ten at 0x5000.\<close>

definition demo_ten :: tty where
  "demo_ten = demo_tty\<lparr>mem := (mem demo_tty)(0x5000 := 116, 0x5001 := 101, 0x5002 := 110)\<rparr>"

lemma demo_ten_printable: "printable (mem demo_ten) (chars ''%d of %s'') [Word 3, Word 0x5000]"
proof -
  have "cstr (mem demo_ten) 0x5000 [116, 101, 110]" by (simp add: demo_ten_def demo_tty_def)
  from read_cstrI [OF this] have "str_clear (mem demo_ten) 0xB8000 4000 0x5000" by (simp add: str_clear_def)
  then show ?thesis by (simp add: chars_def fmt_spec_def fmt_zero_def fmt_width_def conv_ok_def is_num_conv_def)
qed

theorem printf_stays_on_screen_witness:
  "\<exists>s'. printf ''%d of %s'' [Word 3, Word 0x5000] demo_ten = Some s' \<and> tty_ok s' \<and> mem s' 0xB0000 = 0"
proof -
  have ok: "tty_ok demo_ten" by (simp add: demo_ten_def demo_tty_def tty_ok_def)
  obtain s' where p: "printf ''%d of %s'' [Word 3, Word 0x5000] demo_ten = Some s'"
    and t: "tty_ok s'" "eq_out screen (mem demo_ten) (mem s')"
    using printf_stays_on_screen [OF ok, of "''%d of %s''" "[Word 3, Word 0x5000]"] demo_ten_printable by blast
  have "(0xB0000 :: addr) \<notin> screen" by (simp add: screen_def zone_def)
  with t(2) have "mem s' 0xB0000 = 0" by (simp add: eq_outD demo_ten_def demo_tty_def)
  with p t show ?thesis by blast
qed

lemma cls_loop_step:
  assumes "i + n \<le> 4000"
  shows "\<exists>m'. cls_loop m VIDEO i n = Some m' \<and>
     (\<forall>a. m' a = (if 0xB8000 + i \<le> unat a \<and> unat a < 0xB8000 + i + n then 0 else m a))"
  using assms
proof (induction n arbitrary: m i)
  case (Suc n)
  have u: "unat (VIDEO + of_nat i) = 0xB8000 + i"
    using Suc.prems unat_plus_of_nat [of VIDEO i] by (simp add: VIDEO_def)
  then have "a = VIDEO + of_nat i \<longleftrightarrow> unat a = 0xB8000 + i" for a
    by (metis word_unat_eq_iff)
  with Suc.IH [of "i + 1" "m(VIDEO + of_nat i := 0)"] Suc.prems show ?case
    by (fastforce simp: not_less_eq_eq)
qed auto

lemma cls_screen:
  "\<exists>s'. cls s = Some s' \<and> tty_ok s' \<and> cursor s' = 0 \<and>
     (\<forall>a. mem s' a = (if a \<in> screen then 0 else mem s a)) \<and>
     s' = s\<lparr>mem := mem s', video := VIDEO, xpos := 0, ypos := 0\<rparr>"
proof -
  obtain m' where "cls_loop (mem s) VIDEO 0 4000 = Some m'"
    "\<forall>a. m' a = (if 0xB8000 \<le> unat a \<and> unat a < 0xB8000 + 4000 then 0 else mem s a)"
    using cls_loop_step [of 0 4000 "mem s"] by auto
  then show ?thesis
    by (auto simp: cls_def COLUMNS_def LINES_def tty_ok_def cursor_def screen_def zone_def)
qed

end
