(* ===== verification/Format.thy ===== *)
theory Format
  imports Kvideo
begin

text \<open>
  The two formatters, \<open>sprintf\<close> of src/MemeOS/src/stdlib.c and \<open>printf\<close> of src/MemeOS/src/kvideo.c,
  are copies of one routine with different outputs. \<open>render\<close> is that routine as a function from a
  format and its arguments to the bytes of the text; \<open>R\<close> gives the string a pointer stands for.
\<close>

section \<open>The text of a format\<close>

definition render_conv :: "(addr \<Rightarrow> u8 list option) \<Rightarrow> bool \<Rightarrow> nat \<Rightarrow> u8 \<Rightarrow> vararg \<Rightarrow> u8 list option" where
  "render_conv R pad0 pad c a =
     (if is_num_conv c then (case a of
        Word d \<Rightarrow> Some (padding pad0 pad (length (itoa c d)) @ itoa c d) | Lit l \<Rightarrow> None)
      else if c = ch CHR ''s'' then (case a of
        Word p \<Rightarrow> if p = 0 then Some (padding pad0 pad 6 @ chars ''(null)'')
          else (case R p of None \<Rightarrow> None | Some l \<Rightarrow> Some (padding pad0 pad (length l) @ l))
      | Lit l \<Rightarrow> Some (padding pad0 pad (length l) @ l))
      else (case a of
        Word d \<Rightarrow> if scast (ucast d :: u8) = d then Some [ucast d] else None
      | Lit l \<Rightarrow> None))"

function render :: "(addr \<Rightarrow> u8 list option) \<Rightarrow> u8 list \<Rightarrow> vararg list \<Rightarrow> u8 list option" where
  "render R [] args = Some []"
| "render R (c # f) args =
     (if c \<noteq> ch CHR ''%'' then map_option (Cons c) (render R f args)
      else (case fmt_spec f of None \<Rightarrow> None | Some (pad0, pad, k, r) \<Rightarrow>
        (case args of [] \<Rightarrow> None | a # rest \<Rightarrow>
          (case render_conv R pad0 pad k a of None \<Rightarrow> None
           | Some bs \<Rightarrow> map_option ((@) bs) (render R r rest)))))"
  by pat_completeness auto
termination
  by (relation "measure (\<lambda>(R, f, args). length f)") (auto dest: fmt_spec_shorter)

text \<open>Strings of memory \<open>m\<close> that have no byte in \<open>A\<close>.\<close>

definition reads :: "(addr \<Rightarrow> u8 list option) \<Rightarrow> mem \<Rightarrow> addr set \<Rightarrow> bool" where
  "reads R m A \<longleftrightarrow> (\<forall>p xs. R p = Some xs \<longrightarrow> cstr m p xs \<and> region p (length xs + 1) \<inter> A = {})"

lemma readsD: "reads R m A \<Longrightarrow> R p = Some xs \<Longrightarrow> cstr m p xs \<and> region p (length xs + 1) \<inter> A = {}"
  by (simp add: reads_def)

lemma reads_frame: "reads R m A \<Longrightarrow> eq_out A m m' \<Longrightarrow> reads R m' A"
  unfolding reads_def using cstr_apart by blast

lemma reads_none [simp]: "reads (\<lambda>p. None) m A"
  by (simp add: reads_def)

lemma putchars_append: "putchars (xs @ ys) s = Option.bind (putchars xs s) (putchars ys)"
  by (induction xs arbitrary: s) (auto simp: Option.bind_assoc split: bind_splits)

lemma put_bytes_append:
  "put_bytes m d (xs @ ys) = Option.bind (put_bytes m d xs) (\<lambda>(m1, d1). put_bytes m1 d1 ys)"
  by (induction xs arbitrary: m d) (auto split: bind_splits)

lemma fmt_spec_subset:
  assumes "fmt_spec f = Some (pad0, pad, k, r)"
  shows "set r \<subseteq> set f"
proof -
  obtain b f1 n where f: "fmt_zero f = Some (b, f1)" "fmt_width f1 = Some (n, k # r)"
    using assms by (auto simp: fmt_spec_def bind_Some_iff case_list_Some_iff)
  have "set f1 \<subseteq> set f" using f(1) by (cases f) (auto simp: fmt_zero_def split: if_splits)
  moreover have "set (k # r) \<subseteq> set f1" using f(2) by (cases f1) (auto simp: fmt_width_def split: if_splits)
  ultimately show ?thesis by auto
qed

lemma put_bytes_region:
  assumes "d \<noteq> 0" and "unat d + length bs < two32"
  shows "\<exists>m'. put_bytes m d bs = Some (m', d + of_nat (length bs)) \<and>
     (\<forall>i < length bs. m' (d + of_nat i) = bs ! i) \<and> eq_out (region d (length bs)) m m'"
  using assms
proof (induction bs arbitrary: m d)
  case (Cons b bs)
  have d1: "d + 1 \<noteq> 0" "unat (d + 1) = unat d + 1" using next_nonnull [of d "Suc (length bs)"] Cons.prems by auto
  obtain m' where m': "put_bytes (m(d := b)) (d + 1) bs = Some (m', d + 1 + of_nat (length bs))"
    "\<forall>i < length bs. m' (d + 1 + of_nat i) = bs ! i" "eq_out (region (d + 1) (length bs)) (m(d := b)) m'"
    using Cons.IH [of "d + 1" "m(d := b)"] d1 Cons.prems by (auto simp del: fun_upd_apply)
  have "d \<notin> region (d + 1) (length bs)" using d1 by (simp add: region_def)
  then have "m' d = b" using eq_outD [OF m'(3)] by simp
  then have "m' (d + of_nat i) = (b # bs) ! i" if "i < Suc (length bs)" for i
    using m'(2) that by (cases i) (auto simp: add.assoc)
  moreover have "eq_out (region d (Suc (length bs))) m m'"
    using m'(3) region_Suc [of d "length bs"] Cons.prems by (auto simp: eq_out_def)
  ultimately show ?case using m'(1) Cons.prems by (simp add: add.assoc)
qed simp

lemma printf_conv_render:
  fixes s :: "'a tty_scheme"
  assumes "render_conv R pad0 pad c a = Some bs" and "reads R (mem s) screen" and "tty_ok s"
  shows "printf_conv pad0 pad c (a # rest) s = map_option (\<lambda>s1. (s1, rest)) (putchars bs s)"
proof -
  have "printf_conv pad0 pad (ch CHR ''s'') (Word p # rest) s =
      map_option (\<lambda>s1. (s1, rest)) (putchars (padding pad0 pad (length xs) @ xs) s)"
    if p: "p \<noteq> 0" "R p = Some xs" for p xs
  proof -
    have c: "cstr (mem s) p xs" "region p (length xs + 1) \<inter> screen = {}" using readsD [OF assms(2) p(2)] by auto
    obtain s1 where s1: "putchars (padding pad0 pad (length xs)) s = Some s1" "console_step s s1"
      using putchars_console [OF assms(3)] by blast
    have "cstr (mem s1) p xs" using cstr_apart [OF c] s1(2) by (simp add: console_step_def)
    then have "putcstr p s1 = putchars xs s1" by (rule putcstr_putchars [OF _ console_step_ok [OF s1(2)] c(2)])
    moreover have "length xs < two32" using cstr_fits [OF c(1)] by simp
    ultimately show ?thesis using p s1(1) strlen_eq [OF c(1)]
      by (simp add: printf_conv_def is_num_conv_def putchars_append map_conv_bind_option comp_def)
  qed
  then show ?thesis using assms(1) unfolding map_conv_bind_option comp_def
    by (cases a) (auto simp: render_conv_def printf_conv_def split: if_splits option.splits)
qed

lemma put_cstr_bytes:
  assumes "cstr m p xs" and "d \<noteq> 0" and "unat d + length xs < two32" and "region p (length xs + 1) \<inter> region d (length xs) = {}"
  shows "put_cstr m d p = put_bytes m d xs"
  using assms
proof (induction xs arbitrary: m d p)
  case Nil
  then show ?case by (subst put_cstr.simps) simp
next
  case (Cons x xs)
  have d1: "d + 1 \<noteq> 0" "unat (d + 1) = unat d + 1" using next_nonnull [of d "Suc (length xs)"] Cons.prems by auto
  have p1: "unat (p + 1) = unat p + 1" using cstr_fits [OF Cons.prems(1)] unat_plus_one [of p] by simp
  have "d \<in> region d (length (x # xs))" by (simp add: region_def)
  then have "cstr (m(d := x)) p (x # xs)"
    by (intro cstr_apart [OF Cons.prems(1,4)]) (simp add: eq_out_def)
  moreover have "region (p + 1) (length xs + 1) \<subseteq> region p (length (x # xs) + 1)"
    "region (d + 1) (length xs) \<subseteq> region d (length (x # xs))" using p1 d1 by (auto simp: region_def)
  then have "region (p + 1) (length xs + 1) \<inter> region (d + 1) (length xs) = {}" using Cons.prems(4) by blast
  ultimately have "put_cstr (m(d := x)) (d + 1) (p + 1) = put_bytes (m(d := x)) (d + 1) xs"
    using Cons.IH [of "m(d := x)" "p + 1" "d + 1"] d1 Cons.prems(3) by (simp del: fun_upd_apply)
  then show ?case using Cons.prems(1,2) by (subst put_cstr.simps) simp
qed

lemma sprintf_conv_render:
  assumes "render_conv R pad0 pad c a = Some bs" and "reads R m A"
    and "d \<noteq> 0" and "unat d + length bs < two32" and "region d (length bs) \<subseteq> A"
  shows "sprintf_conv m d pad0 pad c (a # rest) = map_option (\<lambda>(m1, d1). (m1, d1, rest)) (put_bytes m d bs)"
proof -
  have "sprintf_conv m d pad0 pad (ch CHR ''s'') (Word p # rest) = map_option (\<lambda>(m1, d1). (m1, d1, rest)) (put_bytes m d bs)"
    if p: "p \<noteq> 0" "R p = Some xs" "bs = padding pad0 pad (length xs) @ xs" for p xs
  proof -
    let ?k = "length (padding pad0 pad (length xs))"
    have c: "cstr m p xs" "region p (length xs + 1) \<inter> A = {}" using readsD [OF assms(2) p(2)] by auto
    have fit: "unat d + ?k + length xs < two32" using assms(4) p(3) by simp
    obtain m1 where m1: "put_bytes m d (padding pad0 pad (length xs)) = Some (m1, d + of_nat ?k)" "eq_out (region d ?k) m m1"
      using put_bytes_region [of d "padding pad0 pad (length xs)" m] assms(3) fit by auto
    have u: "unat (d + of_nat ?k) = unat d + ?k" using unat_plus_of_nat [of d ?k] fit by simp
    have "region d ?k \<subseteq> A" "region (d + of_nat ?k) (length xs) \<subseteq> A"
      using assms(5) p(3) u by (auto simp: region_def)
    then have "cstr m1 p xs" "region p (length xs + 1) \<inter> region (d + of_nat ?k) (length xs) = {}"
      using cstr_apart [OF c eq_out_mono [OF m1(2)]] c(2) by auto
    moreover have "d + of_nat ?k \<noteq> 0" using u assms(3) by (metis add_is_0 unat_0 unat_eq_zero)
    ultimately have "put_cstr m1 (d + of_nat ?k) p = put_bytes m1 (d + of_nat ?k) xs"
      using put_cstr_bytes u fit by simp
    moreover have "length xs < two32" using cstr_fits [OF c(1)] by simp
    ultimately show ?thesis using p m1(1) strlen_eq [OF c(1)]
      by (simp add: sprintf_conv_def is_num_conv_def put_bytes_append map_conv_bind_option comp_def case_prod_unfold)
  qed
  then show ?thesis using assms(1) unfolding map_conv_bind_option comp_def case_prod_unfold
    by (cases a) (auto simp: render_conv_def sprintf_conv_def case_prod_unfold split: if_splits option.splits)
qed

lemma printf_loop_render:
  fixes s :: "'a tty_scheme"
  shows "render R f args = Some bs \<Longrightarrow> 27 \<notin> set f \<Longrightarrow> reads R (mem s) screen \<Longrightarrow> tty_ok s \<Longrightarrow>
     printf_loop f args s = putchars bs s"
proof (induction R f args arbitrary: s bs rule: render.induct)
  case (2 R c f args)
  have step: "reads R (mem t) screen \<and> tty_ok t" if "console_step s t" for t :: "'a tty_scheme"
    using that reads_frame [OF "2.prems"(3)] by (auto simp: console_step_def)
  show ?case
  proof (cases "c = ch CHR ''%''")
    case False
    obtain s1 where "putchar (scast c) s = Some s1" "console_step s s1" using putchar_console [OF "2.prems"(4)] by blast
    then show ?thesis using False 2 step by (auto split: option.splits)
  next
    case True
    then obtain pad0 pad k r a rest xs ys where fs: "fmt_spec f = Some (pad0, pad, k, r)"
      and args: "args = a # rest" and xs: "render_conv R pad0 pad k a = Some xs"
      and ys: "render R r rest = Some ys" and bs: "bs = xs @ ys"
      using "2.prems"(1) by (auto split: option.splits list.splits prod.splits)
    obtain s1 where s1: "putchars xs s = Some s1" "console_step s s1" using putchars_console [OF "2.prems"(4)] by blast
    have "printf_loop r rest s1 = putchars ys s1"
      using "2.IH"(2) [of "(pad0, pad, k, r)" pad0 "(pad, k, r)" pad "(k, r)" k r a rest xs ys s1]
        True fs args xs ys fmt_spec_subset [OF fs] "2.prems"(2) step [OF s1(2)] by auto
    then show ?thesis
      using True fs args printf_conv_render [OF xs "2.prems"(3,4), of rest] bs s1(1) by (simp add: putchars_append)
  qed
qed simp

lemma sprintf_render:
  "render R f args = Some bs \<Longrightarrow> reads R m A \<Longrightarrow> d \<noteq> 0 \<Longrightarrow> unat d + length bs < two32 \<Longrightarrow> region d (length bs) \<subseteq> A \<Longrightarrow>
     sprintf m d f args = map_option fst (put_bytes m d bs)"
proof (induction R f args arbitrary: m d bs rule: render.induct)
  case (2 R c f args)
  have rest: "reads R m1 A \<and> d1 \<noteq> 0 \<and> unat d1 + length ys < two32 \<and> region d1 (length ys) \<subseteq> A"
    if p: "put_bytes m d xs = Some (m1, d1)" "bs = xs @ ys" for xs ys m1 d1
  proof -
    have r: "d1 = d + of_nat (length xs)" "eq_out (region d (length xs)) m m1"
      using put_bytes_region [of d xs m] p "2.prems"(3,4) by auto
    have u: "unat d1 = unat d + length xs" using unat_plus_of_nat [of d "length xs"] r(1) p(2) "2.prems"(4) by simp
    then have "region d (length xs) \<subseteq> A" "region d1 (length ys) \<subseteq> A" "d1 \<noteq> 0"
      using "2.prems"(3,5) p(2) by (auto simp: region_def unat_eq_zero)
    with u p(2) "2.prems"(4) show ?thesis using reads_frame [OF "2.prems"(2) eq_out_mono [OF r(2)]] by simp
  qed
  show ?case
  proof (cases "c = ch CHR ''%''")
    case False
    then obtain ys where ys: "render R f args = Some ys" "bs = [c] @ ys" using "2.prems"(1) by auto
    have "put_bytes m d [c] = Some (m(d := c), d + 1)" using "2.prems"(3) by simp
    from rest [OF this ys(2)] show ?thesis
      using "2.IH"(1) [OF False ys(1), of "m(d := c)" "d + 1"] False ys(2) "2.prems"(3) by (simp del: fun_upd_apply)
  next
    case True
    then obtain pad0 pad k r a rest' xs ys where fs: "fmt_spec f = Some (pad0, pad, k, r)"
      and args: "args = a # rest'" and xs: "render_conv R pad0 pad k a = Some xs"
      and ys: "render R r rest' = Some ys" and bs: "bs = xs @ ys"
      using "2.prems"(1) by (auto split: option.splits list.splits prod.splits)
    obtain m1 d1 where m1: "put_bytes m d xs = Some (m1, d1)" using put_bytes_region [of d xs m] "2.prems"(3,4) bs by auto
    have "sprintf m1 d1 r rest' = map_option fst (put_bytes m1 d1 ys)"
      using "2.IH"(2) [of "(pad0, pad, k, r)" pad0 "(pad, k, r)" pad "(k, r)" k r a rest' xs ys m1 d1]
        True fs args xs ys rest [OF m1 bs] by auto
    moreover have "region d (length xs) \<subseteq> A" using "2.prems"(5) bs by (auto simp: region_def)
    ultimately show ?thesis
      using True fs args sprintf_conv_render [OF xs "2.prems"(2,3), of rest'] "2.prems"(4) bs m1
      by (simp add: put_bytes_append)
  qed
qed simp

lemma render_restrict:
  "render R f args = Some bs \<Longrightarrow> 27 \<notin> set f \<Longrightarrow> fmt_with P f args \<Longrightarrow> render (\<lambda>p. if P p then R p else None) f args = Some bs"
proof (induction R f args arbitrary: bs rule: render.induct)
  case (2 R c f args)
  show ?case
  proof (cases "c = ch CHR ''%''")
    case False
    then show ?thesis using 2 by auto
  next
    case True
    then obtain pad0 pad k r a rest xs ys where fs: "fmt_spec f = Some (pad0, pad, k, r)"
      and args: "args = a # rest" and xs: "render_conv R pad0 pad k a = Some xs"
      and ys: "render R r rest = Some ys" and bs: "bs = xs @ ys"
      using "2.prems"(1) by (auto split: option.splits list.splits prod.splits)
    have "27 \<notin> set r" "conv_ok P k a" "fmt_with P r rest"
      using fmt_spec_subset [OF fs] "2.prems"(2,3) True fs args by auto
    then have "render (\<lambda>p. if P p then R p else None) r rest = Some ys"
      using "2.IH"(2) [of "(pad0, pad, k, r)" pad0 "(pad, k, r)" pad "(k, r)" k r a rest xs ys] True fs args xs ys by auto
    moreover have "render_conv (\<lambda>p. if P p then R p else None) pad0 pad k a = Some xs"
      using xs \<open>conv_ok P k a\<close> by (auto simp: render_conv_def conv_ok_def split: vararg.splits if_splits)
    ultimately show ?thesis using True fs args bs by simp
  qed
qed simp

section \<open>Properties\<close>

text \<open>
  C20: the two formatters agree. For a format without colour escapes whose conversions have
  arguments of their kind, where a pointer printed as a string is null or that of a string that overlaps
  neither the video buffer nor the bytes \<open>sprintf\<close> writes, \<open>printf\<close> shows exactly the bytes that \<open>sprintf\<close>
  stores, in order: those of the one text both compute. \<open>sprintf\<close> returns when the text fits below the top of memory,
  and changes no other byte, so it does not terminate the string it stores.
\<close>

theorem sprintf_printf_agree:
  assumes "render (read_cstr (mem s)) (chars format) args = Some bs" and "27 \<notin> set (chars format)"
    and "dest \<noteq> 0" and "unat dest + length bs < two32" and "tty_ok s"
    and "fmt_with (\<lambda>p. str_clear (mem s) 0xB8000 4000 p \<and> str_clear (mem s) (unat dest) (length bs) p) (chars format) args"
  shows "printf format args s = putchars bs s \<and>
     (\<exists>m'. sprintf (mem s) dest (chars format) args = Some m' \<and> (\<forall>i < length bs. m' (dest + of_nat i) = bs ! i) \<and>
        eq_out (region dest (length bs)) (mem s) m')"
proof -
  define P where "P = (\<lambda>p. str_clear (mem s) 0xB8000 4000 p \<and> str_clear (mem s) (unat dest) (length bs) p)"
  let ?R = "\<lambda>p. if P p then read_cstr (mem s) p else None"
  have r: "render ?R (chars format) args = Some bs" by (rule render_restrict [OF assms(1,2)]) (use assms(6) in \<open>simp add: P_def\<close>)
  have zr: "zone (unat dest) (length bs) = region dest (length bs)" by (auto simp: zone_def region_def)
  have reads: "reads ?R (mem s) screen" "reads ?R (mem s) (region dest (length bs))"
    unfolding reads_def P_def screen_def zr [symmetric] by (auto split: if_splits elim!: str_clearE)
  obtain m' where "put_bytes (mem s) dest bs = Some (m', dest + of_nat (length bs))"
    "\<forall>i < length bs. m' (dest + of_nat i) = bs ! i" "eq_out (region dest (length bs)) (mem s) m'"
    using put_bytes_region [OF assms(3,4)] by blast
  then show ?thesis
    using printf_loop_render [OF r assms(2) reads(1) assms(5)] sprintf_render [OF r reads(2) assms(3,4)] by (simp add: printf_def)
qed

theorem sprintf_printf_agree_witness:
  "\<exists>m'. sprintf (mem demo_ten) 0x1000 (chars ''%02d %s'') [Word 7, Word 0x5000] = Some m' \<and>
     m' 0x1000 = 48 \<and> m' 0x1001 = 55 \<and> m' 0x1003 = 116 \<and> m' 0x1005 = 110 \<and> m' 0x1006 = 0"
proof -
  have c: "read_cstr (mem demo_ten) 0x5000 = Some [116, 101, 110]" by (rule read_cstrI) (simp add: demo_ten_def demo_tty_def)
  have i: "itoa 100 7 = [55]" by code_simp
  let ?bs = "[48, 55, 32, 116, 101, 110] :: u8 list"
  have r: "render (read_cstr (mem demo_ten)) (chars ''%02d %s'') [Word 7, Word 0x5000] = Some ?bs"
    using c i by (simp add: chars_def fmt_spec_def fmt_zero_def fmt_width_def render_conv_def is_num_conv_def padding_def)
  have esc: "27 \<notin> set (chars ''%02d %s'')" by (simp add: chars_def)
  have ok: "tty_ok demo_ten" by (simp add: demo_ten_def demo_tty_def tty_ok_def)
  have cl: "fmt_with (\<lambda>p. str_clear (mem demo_ten) 0xB8000 4000 p \<and> str_clear (mem demo_ten) (unat (0x1000 :: addr)) (length ?bs) p)
      (chars ''%02d %s'') [Word 7, Word 0x5000]"
    using c by (simp add: chars_def fmt_spec_def fmt_zero_def fmt_width_def conv_ok_def is_num_conv_def str_clear_def)
  have fit: "(0x1000 :: addr) \<noteq> 0" "unat (0x1000 :: addr) + length ?bs < two32" by simp_all
  obtain m' where m': "sprintf (mem demo_ten) 0x1000 (chars ''%02d %s'') [Word 7, Word 0x5000] = Some m'"
    "\<forall>i < length ?bs. m' (0x1000 + of_nat i) = ?bs ! i" "eq_out (region 0x1000 (length ?bs)) (mem demo_ten) m'"
    using sprintf_printf_agree [OF r esc fit ok cl] by blast
  have "m' 0x1006 = 0" using eq_outD [OF m'(3), of "0x1006"] by (simp add: region_def demo_ten_def demo_tty_def)
  with m'(1) m'(2) [rule_format, of 0] m'(2) [rule_format, of 1] m'(2) [rule_format, of 3] m'(2) [rule_format, of 5] show ?thesis by simp
qed

end
