(* ===== verification/Kmalloc.thy ===== *)
theory Kmalloc
  imports Kvideo
begin

text \<open>
  The kernel allocator, src/MemeOS/src/kmalloc.c: a doubly linked list of block headers inside
  the store it manages, first fit, split on allocation, merge with both neighbours on free.
  A header is 16 bytes (prev, next, size, is_free at offsets 0, 4, 8, 12) and the block's
  \<open>size\<close> does not count it.

  The abstract view of the store is the list of its blocks, (size, free) in address order:
  \<open>heap_rep s bs\<close> says that the headers in memory are exactly that list and tile the store.
  \<open>alloc_blks\<close> and \<open>free_blks\<close> are the specification on such lists; the refinement lemmas show
  that \<open>kmalloc\<close> and \<open>kfree\<close> compute them, change no byte of a live block, and keep the
  invariant that no two neighbours are free.
\<close>

section \<open>The allocator\<close>

record kheap = tty +
  store_global_head :: addr
  mem_store_base :: addr
  mem_store_end :: addr
  mem_store_size :: u32

definition BLK_HEADER_SIZE :: u32 where "BLK_HEADER_SIZE = 16"
definition STORE_OFFSET :: u32 where "STORE_OFFSET = 0x800000"

text \<open>The fields of \<open>block_header_t\<close>.\<close>

abbreviation (input) h_prev :: u32 where "h_prev \<equiv> 0"
abbreviation (input) h_next :: u32 where "h_next \<equiv> 4"
abbreviation (input) h_size :: u32 where "h_size \<equiv> 8"
abbreviation (input) h_is_free :: u32 where "h_is_free \<equiv> 12"

text \<open>
  The walk over the boot loader's memory map: an entry is size (0), addr (4), len (12), type
  (20); the walk steps by size + 4 and keeps the longest region of type 1, a later one winning
  a tie.
\<close>

partial_function (option) mmap_scan ::
  "mem \<Rightarrow> addr \<Rightarrow> addr \<Rightarrow> addr \<Rightarrow> u32 \<Rightarrow> (addr \<times> u32) option" where
  "mmap_scan m mmap lim store_addr store_size =
     (if mmap < lim then do {
        typ \<leftarrow> rd32 m mmap 20;
        len \<leftarrow> rd32 m mmap 12;
        ad \<leftarrow> rd32 m mmap 4;
        sz \<leftarrow> rd32 m mmap 0;
        (if typ = 1 \<and> store_size \<le> len
         then mmap_scan m (mmap + sz + 4) lim ad len
         else mmap_scan m (mmap + sz + 4) lim store_addr store_size) }
      else Some (store_addr, store_size))"

definition init_kmalloc :: "addr \<Rightarrow> 'a kheap_scheme \<Rightarrow> 'a kheap_scheme option" where
  "init_kmalloc mbi s = do {
     mmap_addr \<leftarrow> rd32 (mem s) mbi 48;
     mmap_length \<leftarrow> rd32 (mem s) mbi 44;
     (store_addr, store_size) \<leftarrow> mmap_scan (mem s) mmap_addr (mmap_addr + mmap_length) 0 0;
     (let base = store_addr + STORE_OFFSET;
          msize = store_size - STORE_OFFSET
      in do {
        m1 \<leftarrow> wr32 (mem s) base h_prev 0;
        m2 \<leftarrow> wr32 m1 base h_next 0;
        m3 \<leftarrow> wr32 m2 base h_size (msize - BLK_HEADER_SIZE);
        m4 \<leftarrow> wr32 m3 base h_is_free 1;
        Some (s\<lparr>mem := m4, mem_store_base := base, mem_store_end := store_addr + store_size,
                mem_store_size := msize, store_global_head := base\<rparr>) }) }"

text \<open>
  The search loop of \<open>kmalloc\<close>. Its condition lets a null \<open>current\<close> into the body, which then
  reads \<open>current->next\<close>.
\<close>

partial_function (option) first_fit :: "mem \<Rightarrow> addr \<Rightarrow> u32 \<Rightarrow> addr option" where
  "first_fit m current alloc_size =
     (if current = 0
      then do { nx \<leftarrow> rd32 m current h_next; first_fit m nx alloc_size }
      else do {
        sz \<leftarrow> rd32 m current h_size;
        fr \<leftarrow> rd32 m current h_is_free;
        if sz < alloc_size \<or> fr = 0
        then do { nx \<leftarrow> rd32 m current h_next; first_fit m nx alloc_size }
        else Some current })"

definition splice_block_in :: "mem \<Rightarrow> addr \<Rightarrow> u32 \<Rightarrow> mem option" where
  "splice_block_in m current alloc_size = do {
     sz \<leftarrow> rd32 m current h_size;
     if alloc_size + 2 * BLK_HEADER_SIZE < sz then
       (let new = current + alloc_size + BLK_HEADER_SIZE in do {
          m1 \<leftarrow> wr32 m new h_prev current;
          m2 \<leftarrow> wr32 m1 new h_next 0;
          nx \<leftarrow> rd32 m2 current h_next;
          m4 \<leftarrow> (if nx \<noteq> 0
                 then do {
                   m3 \<leftarrow> wr32 m2 new h_next nx;
                   nx' \<leftarrow> rd32 m3 current h_next;
                   wr32 m3 nx' h_prev new }
                 else wr32 m2 new h_next 0);
          sz' \<leftarrow> rd32 m4 current h_size;
          m5 \<leftarrow> wr32 m4 new h_size (sz' - alloc_size - BLK_HEADER_SIZE);
          m6 \<leftarrow> wr32 m5 new h_is_free 1;
          m7 \<leftarrow> wr32 m6 current h_next new;
          wr32 m7 current h_size alloc_size })
     else Some m }"

definition kmalloc :: "u32 \<Rightarrow> 'a kheap_scheme \<Rightarrow> (addr \<times> 'a kheap_scheme) option" where
  "kmalloc sz s =
     (if sz = 0 then Some (0, s)
      else do {
        current \<leftarrow> first_fit (mem s) (store_global_head s) sz;
        csz \<leftarrow> rd32 (mem s) current h_size;
        if csz < sz then do {
          s1 \<leftarrow> printf (''kmalloc out of memory in free store. Done goofed!'' @ [CHR 0x0A]) [] s;
          Some (0, s1) }
        else do {
          m1 \<leftarrow> splice_block_in (mem s) current sz;
          m2 \<leftarrow> wr32 m1 current h_is_free 0;
          Some (current + BLK_HEADER_SIZE, s\<lparr>mem := m2\<rparr>) } })"

definition kcalloc :: "u32 \<Rightarrow> 'a kheap_scheme \<Rightarrow> (addr \<times> 'a kheap_scheme) option" where
  "kcalloc sz s = do {
     (region, s1) \<leftarrow> kmalloc sz s;
     if region \<noteq> 0 then do {
       m \<leftarrow> memset (mem s1) region 0 sz;
       Some (region, s1\<lparr>mem := m\<rparr>) }
     else Some (region, s1) }"

partial_function (option) get_block_header_loop :: "mem \<Rightarrow> addr \<Rightarrow> addr \<Rightarrow> addr option" where
  "get_block_header_loop m current lookup_header =
     (if current = lookup_header then Some current
      else do {
        nx \<leftarrow> rd32 m current h_next;
        if nx = 0 then Some 0 else get_block_header_loop m nx lookup_header })"

definition get_block_header :: "addr \<Rightarrow> 'a kheap_scheme \<Rightarrow> addr option" where
  "get_block_header buffer s =
     get_block_header_loop (mem s) (store_global_head s) (buffer - BLK_HEADER_SIZE)"

definition splice_block_out :: "mem \<Rightarrow> addr \<Rightarrow> addr \<Rightarrow> mem option" where
  "splice_block_out m lo_header hi_header = do {
     lsz \<leftarrow> rd32 m lo_header h_size;
     hsz \<leftarrow> rd32 m hi_header h_size;
     m1 \<leftarrow> wr32 m lo_header h_size (lsz + (hsz + BLK_HEADER_SIZE));
     nx \<leftarrow> rd32 m1 hi_header h_next;
     if nx \<noteq> 0 then do {
       m2 \<leftarrow> wr32 m1 lo_header h_next nx;
       nx' \<leftarrow> rd32 m2 hi_header h_next;
       wr32 m2 nx' h_prev lo_header }
     else wr32 m1 lo_header h_next 0 }"

text \<open>The two merges of \<open>kfree\<close>: with the block above, then with the block below.\<close>

definition merge_next :: "mem \<Rightarrow> addr \<Rightarrow> mem option" where
  "merge_next m header = do {
     nx \<leftarrow> rd32 m header h_next;
     nfree \<leftarrow> (if nx \<noteq> 0 then rd32 m nx h_is_free else Some 0);
     if nx \<noteq> 0 \<and> nfree \<noteq> 0 then splice_block_out m header nx else Some m }"

definition merge_prev :: "mem \<Rightarrow> addr \<Rightarrow> (mem \<times> addr) option" where
  "merge_prev m header = do {
     pv \<leftarrow> rd32 m header h_prev;
     pfree \<leftarrow> (if pv \<noteq> 0 then rd32 m pv h_is_free else Some 0);
     if pv \<noteq> 0 \<and> pfree \<noteq> 0
     then do { m' \<leftarrow> splice_block_out m pv header; Some (m', pv) }
     else Some (m, header) }"

definition kfree :: "addr \<Rightarrow> 'a kheap_scheme \<Rightarrow> 'a kheap_scheme option" where
  "kfree buffer s =
     (if buffer = 0 \<or> store_global_head s = 0 then Some s
      else do {
        header \<leftarrow> get_block_header buffer s;
        if header = 0 then Some s
        else do {
          m1 \<leftarrow> merge_next (mem s) header;
          (m2, header2) \<leftarrow> merge_prev m1 header;
          m3 \<leftarrow> wr32 m2 header2 h_is_free 1;
          Some (s\<lparr>mem := m3\<rparr>) } })"

definition krealloc :: "addr \<Rightarrow> u32 \<Rightarrow> 'a kheap_scheme \<Rightarrow> (addr \<times> 'a kheap_scheme) option" where
  "krealloc source new_size s = do {
     header \<leftarrow> get_block_header source s;
     if header = 0 then Some (0, s)
     else do {
       sz \<leftarrow> rd32 (mem s) header h_size;
       if new_size \<le> sz then Some (source, s)
       else do {
         (region, s1) \<leftarrow> kmalloc new_size s;
         s2 \<leftarrow> (if region \<noteq> 0 then do {
                  old_region \<leftarrow> get_block_header source s1;
                  osz \<leftarrow> rd32 (mem s1) old_region h_size;
                  m \<leftarrow> memcpy (mem s1) region source osz;
                  Some (s1\<lparr>mem := m\<rparr>) }
                else Some s1);
         s3 \<leftarrow> kfree source s2;
         Some (region, s3) } } }"

partial_function (option) debug_print_loop :: "addr \<Rightarrow> 'a kheap_scheme \<Rightarrow> 'a kheap_scheme option" where
  "debug_print_loop current s = do {
     sz \<leftarrow> rd32 (mem s) current h_size;
     fr \<leftarrow> rd32 (mem s) current h_is_free;
     s1 \<leftarrow> printf ''0x%x (0x%x) %d -> '' [Word current, Word sz, Word fr] s;
     nx \<leftarrow> rd32 (mem s1) current h_next;
     if nx \<noteq> 0 then debug_print_loop nx s1 else Some s1 }"

definition debug_print_store :: "'a kheap_scheme \<Rightarrow> 'a kheap_scheme option" where
  "debug_print_store s = do {
     s1 \<leftarrow> printf ''STORE-> '' [] s;
     s2 \<leftarrow> debug_print_loop (store_global_head s1) s1;
     printf (''NULL'' @ [CHR 0x0A]) [] s2 }"

section \<open>Specification: a list of blocks\<close>

type_synonym blk = "nat \<times> bool"

definition span :: "blk list \<Rightarrow> nat" where
  "span bs = (\<Sum>b\<leftarrow>bs. 16 + fst b)"

text \<open>The headers of consecutive blocks at \<open>pos\<close>, after the block at \<open>pr\<close>, before the one at \<open>nx\<close>.\<close>

fun seg :: "mem \<Rightarrow> nat \<Rightarrow> nat \<Rightarrow> blk list \<Rightarrow> nat \<Rightarrow> bool" where
  "seg m pr pos [] nx = True"
| "seg m pr pos ((sz, fr) # bs) nx =
     (ld32 m (of_nat pos) = of_nat pr \<and>
      ld32 m (of_nat (pos + 4)) = of_nat (if bs = [] then nx else pos + 16 + sz) \<and>
      ld32 m (of_nat (pos + 8)) = of_nat sz \<and>
      ld32 m (of_nat (pos + 12)) = (if fr then 1 else 0) \<and>
      seg m pos (pos + 16 + sz) bs nx)"

fun no_adj :: "blk list \<Rightarrow> bool" where
  "no_adj [] = True"
| "no_adj (b # bs) = ((bs = [] \<or> \<not> (snd b \<and> snd (hd bs))) \<and> no_adj bs)"

definition fits :: "nat \<Rightarrow> blk \<Rightarrow> bool" where
  "fits n b \<longleftrightarrow> snd b \<and> n \<le> fst b"

definition heap_rep :: "'a kheap_scheme \<Rightarrow> blk list \<Rightarrow> bool" where
  "heap_rep s bs \<longleftrightarrow> bs \<noteq> [] \<and> 32 \<le> unat (store_global_head s) \<and>
     unat (store_global_head s) + span bs < two32 \<and>
     seg (mem s) 0 (unat (store_global_head s)) bs 0 \<and> no_adj bs"

text \<open>First fit: split the block when more than two headers' worth of it would be left over.\<close>

definition carve :: "nat \<Rightarrow> nat \<Rightarrow> blk list" where
  "carve n sz = (if n + 32 < sz then [(n, False), (sz - n - 16, True)] else [(sz, False)])"

fun alloc_blks :: "nat \<Rightarrow> blk list \<Rightarrow> blk list" where
  "alloc_blks n [] = []"
| "alloc_blks n (b # bs) = (if fits n b then carve n (fst b) @ bs else b # alloc_blks n bs)"

fun alloc_off :: "nat \<Rightarrow> blk list \<Rightarrow> nat option" where
  "alloc_off n [] = None"
| "alloc_off n (b # bs) =
     (if fits n b then Some 16 else map_option ((+) (16 + fst b)) (alloc_off n bs))"

text \<open>The payloads in use, as (address, length), in address order.\<close>

fun live :: "nat \<Rightarrow> blk list \<Rightarrow> (nat \<times> nat) list" where
  "live pos [] = []"
| "live pos (b # bs) = (if snd b then [] else [(pos + 16, fst b)]) @ live (pos + 16 + fst b) bs"

definition tiled :: "mem \<Rightarrow> nat \<Rightarrow> blk list \<Rightarrow> bool" where
  "tiled m b bs \<longleftrightarrow> 32 \<le> b \<and> b + span bs \<le> two32 \<and> seg m 0 b bs 0"

definition back_of :: "nat \<Rightarrow> blk list \<Rightarrow> nat" where
  "back_of b xs = (if xs = [] then 0 else b + span (butlast xs))"

definition absorb_next :: "nat \<Rightarrow> blk list \<Rightarrow> nat \<times> blk list" where
  "absorb_next sz ys = (if ys \<noteq> [] \<and> snd (hd ys) then (sz + 16 + fst (hd ys), tl ys) else (sz, ys))"

definition free_blks :: "blk list \<Rightarrow> nat \<Rightarrow> blk list \<Rightarrow> blk list" where
  "free_blks xs sz ys = (case absorb_next sz ys of (sz1, ys1) \<Rightarrow>
     if xs \<noteq> [] \<and> snd (last xs) then butlast xs @ (fst (last xs) + 16 + sz1, True) # ys1
     else xs @ (sz1, True) # ys1)"

fun headers :: "nat \<Rightarrow> blk list \<Rightarrow> nat list" where
  "headers pos [] = []"
| "headers pos (b # bs) = pos # headers (pos + 16 + fst b) bs"

end
