(* ===== verification/Mutex.thy ===== *)
theory Mutex
  imports Prelude
begin

text \<open>
  The spin lock, src/MemeOS/src/mutex.c. A mutex is its flag: 1 when free, 0 when held. The
  compare-and-exchange is the instruction sequence of the inline assembly, with the register
  \<open>eax\<close> it leaves behind as the value of the C function. The first part is the code as one
  thread runs it; the second is any number of threads interleaving their atomic attempts and
  releases, for which mutual exclusion is an invariant of every reachable state.
\<close>

section \<open>The operations\<close>

text \<open>
  \<open>LOCK cmpxchg new, flag; setz al\<close> with \<open>eax = old\<close>: the flag and \<open>eax\<close> afterwards. The C function
  has no return statement, so its value is \<open>eax\<close>.
\<close>

definition sync_bool_cmpxchg :: "u32 \<Rightarrow> u32 \<Rightarrow> u32 \<Rightarrow> u32 \<times> u32" where
  "sync_bool_cmpxchg flag old new =
     (if flag = old then (new, (old AND NOT 0xFF) OR 1) else (flag, flag AND NOT 0xFF))"

definition kthread_mutex_init :: "u32 \<Rightarrow> u32" where
  "kthread_mutex_init flag = 1"

definition kthread_mutex_destroy :: "u32 \<Rightarrow> u32" where
  "kthread_mutex_destroy flag = flag"

partial_function (option) kthread_mutex_lock :: "u32 \<Rightarrow> u32 option" where
  "kthread_mutex_lock flag =
     (case sync_bool_cmpxchg flag 1 0 of (flag', eax) \<Rightarrow>
        if eax = 0 then kthread_mutex_lock flag' else Some flag')"

definition kthread_mutex_unlock :: "u32 \<Rightarrow> u32" where
  "kthread_mutex_unlock flag = 1"

section \<open>Threads that interleave\<close>

text \<open>
  Where a thread stands: outside, in the loop of \<open>kthread_mutex_lock\<close>, or between a successful
  exchange and \<open>kthread_mutex_unlock\<close>. One step is one atomic access of the flag (or the call of
  the lock routine).
\<close>

datatype pc = Outside | Spinning | Critical

record contest =
  flag :: u32
  pcs :: "nat \<Rightarrow> pc"

inductive mutex_step :: "contest \<Rightarrow> contest \<Rightarrow> bool" where
  enter: "pcs c t = Outside \<Longrightarrow> mutex_step c (c\<lparr>pcs := (pcs c)(t := Spinning)\<rparr>)"
| spin: "pcs c t = Spinning \<Longrightarrow> sync_bool_cmpxchg (flag c) 1 0 = (f, 0) \<Longrightarrow>
    mutex_step c (c\<lparr>flag := f\<rparr>)"
| acquire: "pcs c t = Spinning \<Longrightarrow> sync_bool_cmpxchg (flag c) 1 0 = (f, eax) \<Longrightarrow> eax \<noteq> 0 \<Longrightarrow>
    mutex_step c (c\<lparr>flag := f, pcs := (pcs c)(t := Critical)\<rparr>)"
| leave: "pcs c t = Critical \<Longrightarrow>
    mutex_step c (c\<lparr>flag := kthread_mutex_unlock (flag c), pcs := (pcs c)(t := Outside)\<rparr>)"

inductive mutex_reachable :: "contest \<Rightarrow> bool" where
  start: "mutex_reachable \<lparr>flag = kthread_mutex_init f, pcs = (\<lambda>t. Outside)\<rparr>"
| step: "mutex_reachable c \<Longrightarrow> mutex_step c c' \<Longrightarrow> mutex_reachable c'"

inductive_cases mutex_stepE: "mutex_step c c'"

definition mutex_inv :: "contest \<Rightarrow> bool" where
  "mutex_inv c \<longleftrightarrow> flag c = 1 \<and> (\<forall>t. pcs c t \<noteq> Critical) \<or>
     flag c = 0 \<and> (\<exists>t. \<forall>u. pcs c u = Critical \<longleftrightarrow> u = t)"

section \<open>Exclusion\<close>

lemma cmpxchg_free [simp]: "sync_bool_cmpxchg 1 1 0 = (0, 1)"
  by (simp add: sync_bool_cmpxchg_def)

lemma cmpxchg_held [simp]: "sync_bool_cmpxchg 0 1 0 = (0, 0)"
  by (simp add: sync_bool_cmpxchg_def)

lemma mutex_inv_step:
  assumes "mutex_inv c" and "mutex_step c c'"
  shows "mutex_inv c'"
  using assms(2)
proof cases
  case (enter t)
  then have "((pcs c)(t := Spinning)) u = Critical \<longleftrightarrow> pcs c u = Critical" for u by simp
  with assms(1) enter(1) show ?thesis by (simp add: mutex_inv_def)
next
  case (spin t f)
  with assms(1) show ?thesis by (auto simp: mutex_inv_def)
next
  case (acquire t f eax)
  with assms(1) show ?thesis by (auto simp: mutex_inv_def)
next
  case (leave t)
  with assms(1) show ?thesis by (auto simp: mutex_inv_def kthread_mutex_unlock_def)
qed

lemma mutex_inv_reachable: "mutex_reachable c \<Longrightarrow> mutex_inv c"
  by (induction rule: mutex_reachable.induct)
    (auto simp: mutex_inv_def [of "\<lparr>flag = _, pcs = _\<rparr>"] kthread_mutex_init_def
      intro: mutex_inv_step)

lemma mutex_lock_free [simp]: "kthread_mutex_lock 1 = Some 0"
  by (subst kthread_mutex_lock.simps) simp

lemma mutex_lock_unlock [simp]: "kthread_mutex_lock (kthread_mutex_unlock f) = Some 0"
  by (simp add: kthread_mutex_unlock_def)

section \<open>Properties\<close>

text \<open>
  C18: whatever the number of threads and the order of their steps, at most one of them is between
  a lock and its unlock; while one is, the flag reads held, and a further attempt fails without
  changing it.
\<close>

theorem mutex_exclusion:
  assumes "mutex_reachable c" and "pcs c t = Critical"
  shows "(\<forall>u. pcs c u = Critical \<longrightarrow> u = t) \<and> flag c = 0 \<and> sync_bool_cmpxchg (flag c) 1 0 = (flag c, 0)"
proof -
  have "mutex_inv c" by (rule mutex_inv_reachable [OF assms(1)])
  with assms(2) show ?thesis by (auto simp: mutex_inv_def)
qed

definition demo_contest :: contest where
  "demo_contest = \<lparr>flag = 0, pcs = (\<lambda>t. Outside)(3 := Critical)\<rparr>"

lemma demo_contest_reachable: "mutex_reachable demo_contest"
proof -
  let ?c = "\<lparr>flag = kthread_mutex_init 0, pcs = (\<lambda>t. Outside)\<rparr>"
  let ?d = "?c\<lparr>pcs := (pcs ?c)(3 := Spinning)\<rparr>"
  have "mutex_reachable ?d"
    by (rule mutex_reachable.step [OF mutex_reachable.start mutex_step.enter]) simp
  moreover have "mutex_step ?d (?d\<lparr>flag := 0, pcs := (pcs ?d)(3 := Critical)\<rparr>)"
    by (rule mutex_step.acquire [where eax = 1]) (simp_all add: kthread_mutex_init_def)
  ultimately have "mutex_reachable (?d\<lparr>flag := 0, pcs := (pcs ?d)(3 := Critical)\<rparr>)"
    by (rule mutex_reachable.step)
  then show ?thesis by (simp add: demo_contest_def)
qed

theorem mutex_exclusion_witness: "pcs demo_contest 5 \<noteq> Critical \<and> flag demo_contest = 0"
  using mutex_exclusion [OF demo_contest_reachable, of 3] by (auto simp: demo_contest_def)

end
