(* ===== verification/Sched.thy ===== *)
theory Sched
  imports Kmalloc Mutex
begin

text \<open>
  Threads and the scheduler, src/MemeOS/src/sched.c with kthread.c, sysutils.c and timer.c. Task
  control blocks are structures of 112 bytes in the kernel heap; the run, wait and done queues
  are circular doubly linked lists through their \<open>prev\<close> and \<open>next\<close> fields, each given by a head
  pointer. The record \<open>sched\<close> adds the scheduler's globals to the allocator's.

  The context switch is modelled on a record of the processor's registers: \<open>save_context\<close> and
  \<open>dispatch\<close> are the instruction sequences of SAVE_CONTEXT and DISPATCH, \<open>start_new_thread\<close> runs
  START_NEW_THREAD up to the first instruction of the thread, \<open>thread_return\<close> from the thread's
  return to the entry of \<open>sched_finalize_thread\<close>. What the C compiler does with the registers
  between them is not modelled, since both ends of a switch load every register.
\<close>

section \<open>State\<close>

record sched = kheap +
  global_sched_lock :: u32
  thread_count :: u32
  tid_counter :: u32
  jiffies :: u64
  idle_task :: addr
  current_task :: addr
  runq_head :: addr
  waitq_head :: addr
  doneq_head :: addr
  do_idle_ptr :: addr
  finalize_ptr :: addr

definition THREAD_STACK_SIZE :: u32 where "THREAD_STACK_SIZE = 0x2000"
definition MAX_THREADCOUNT :: u32 where "MAX_THREADCOUNT = 0x10"
definition NUM_MAX_FD :: u32 where "NUM_MAX_FD = 0x10"
definition PIT_INT_FRQ :: u32 where "PIT_INT_FRQ = 500"
definition SCHED_TIMESLICE_TICKS :: u32 where
  "SCHED_TIMESLICE_TICKS = (if 10 * PIT_INT_FRQ div 1000 < 1 then 1 else 10 * PIT_INT_FRQ div 1000)"

text \<open>\<open>TASK_STATUS\<close> and the fields of \<open>task_struct_t\<close>.\<close>

abbreviation (input) NEW :: u32 where "NEW \<equiv> 0"
abbreviation (input) READY :: u32 where "READY \<equiv> 1"
abbreviation (input) RUNNING :: u32 where "RUNNING \<equiv> 2"
abbreviation (input) BLOCKED :: u32 where "BLOCKED \<equiv> 3"
abbreviation (input) EXITED :: u32 where "EXITED \<equiv> 4"

definition sizeof_task :: u32 where "sizeof_task = 112"
abbreviation (input) t_esp :: u32 where "t_esp \<equiv> 0"
abbreviation (input) t_stack :: u32 where "t_stack \<equiv> 4"
abbreviation (input) t_callable :: u32 where "t_callable \<equiv> 8"
abbreviation (input) t_arg :: u32 where "t_arg \<equiv> 12"
abbreviation (input) t_retval :: u32 where "t_retval \<equiv> 16"
abbreviation (input) t_tid :: u32 where "t_tid \<equiv> 20"
abbreviation (input) t_utime :: u32 where "t_utime \<equiv> 24"
abbreviation (input) t_sleep_time :: u32 where "t_sleep_time \<equiv> 28"
abbreviation (input) t_priority :: u32 where "t_priority \<equiv> 32"
abbreviation (input) t_status :: u32 where "t_status \<equiv> 36"
abbreviation (input) t_fd_table :: u32 where "t_fd_table \<equiv> 40"
abbreviation (input) t_prev :: u32 where "t_prev \<equiv> 104"
abbreviation (input) t_next :: u32 where "t_next \<equiv> 108"

section \<open>Queues\<close>

text \<open>The head pointer is passed in and the new one returned (the code passes its address).\<close>

definition splice_inq :: "mem \<Rightarrow> addr \<Rightarrow> addr \<Rightarrow> (mem \<times> addr) option" where
  "splice_inq m head element =
     (if head \<noteq> 0 then do {
        m1 \<leftarrow> wr32 m element t_next head;
        hp \<leftarrow> rd32 m1 head t_prev;
        m2 \<leftarrow> wr32 m1 element t_prev hp;
        hp2 \<leftarrow> rd32 m2 head t_prev;
        m3 \<leftarrow> wr32 m2 hp2 t_next element;
        m4 \<leftarrow> wr32 m3 head t_prev element;
        Some (m4, head) }
      else do {
        m1 \<leftarrow> wr32 m element t_next element;
        m2 \<leftarrow> wr32 m1 element t_prev element;
        Some (m2, element) })"

definition unlink :: "mem \<Rightarrow> addr \<Rightarrow> mem option" where
  "unlink m element = do {
     p \<leftarrow> rd32 m element t_prev;
     n \<leftarrow> rd32 m element t_next;
     m1 \<leftarrow> wr32 m p t_next n;
     n1 \<leftarrow> rd32 m1 element t_next;
     p1 \<leftarrow> rd32 m1 element t_prev;
     m2 \<leftarrow> wr32 m1 n1 t_prev p1;
     m3 \<leftarrow> wr32 m2 element t_next 0;
     wr32 m3 element t_prev 0 }"

definition splice_outq :: "mem \<Rightarrow> addr \<Rightarrow> addr \<Rightarrow> (mem \<times> addr) option" where
  "splice_outq m head element =
     (if head = 0 then Some (m, head)
      else if element = head then do {
        n \<leftarrow> rd32 m head t_next;
        if head = n then Some (m, 0)
        else do {
          h \<leftarrow> rd32 m element t_next;
          m1 \<leftarrow> unlink m element;
          Some (m1, h) } }
      else do {
        m1 \<leftarrow> unlink m element;
        Some (m1, head) })"

section \<open>Processor context\<close>

record cpu =
  eax :: u32
  ebx :: u32
  ecx :: u32
  edx :: u32
  esi :: u32
  edi :: u32
  ebp :: u32
  esp :: u32
  eflags :: u32
  sel_ss :: u16
  sel_ds :: u16
  sel_es :: u16
  sel_fs :: u16
  sel_gs :: u16

definition push :: "u32 \<Rightarrow> cpu \<times> mem \<Rightarrow> cpu \<times> mem" where
  "push v = (\<lambda>(c, m). (c\<lparr>esp := esp c - 4\<rparr>, st32 m (esp c - 4) v))"

definition pop :: "cpu \<times> mem \<Rightarrow> u32 \<times> cpu" where
  "pop = (\<lambda>(c, m). (ld32 m (esp c), c\<lparr>esp := esp c + 4\<rparr>))"

definition save_context :: "cpu \<Rightarrow> mem \<Rightarrow> addr \<Rightarrow> (cpu \<times> mem) option" where
  "save_context c m current =
     (let (c1, m1) =
        push (ucast (sel_gs c)) (push (ucast (sel_fs c)) (push (ucast (sel_es c))
        (push (ucast (sel_ds c)) (push (ucast (sel_ss c)) (push (ebp c) (push (edi c)
        (push (esi c) (push (edx c) (push (ecx c) (push (ebx c) (push (eax c)
        (push (eflags c) (c, m)))))))))))))
      in do { m2 \<leftarrow> wr32 m1 current t_esp (esp c1); Some (c1, m2) })"

definition pop_into :: "(u32 \<Rightarrow> cpu \<Rightarrow> cpu) \<Rightarrow> mem \<Rightarrow> cpu \<Rightarrow> cpu" where
  "pop_into f m c = (let (v, c1) = pop (c, m) in f v c1)"

definition dispatch :: "cpu \<Rightarrow> mem \<Rightarrow> addr \<Rightarrow> cpu option" where
  "dispatch c m nxt = do {
     sp \<leftarrow> rd32 m nxt t_esp;
     Some (fold (\<lambda>f. pop_into f m)
       [\<lambda>v c. c\<lparr>sel_gs := ucast v\<rparr>, \<lambda>v c. c\<lparr>sel_fs := ucast v\<rparr>, \<lambda>v c. c\<lparr>sel_es := ucast v\<rparr>,
        \<lambda>v c. c\<lparr>sel_ds := ucast v\<rparr>, \<lambda>v c. c\<lparr>sel_ss := ucast v\<rparr>, \<lambda>v c. c\<lparr>ebp := v\<rparr>,
        \<lambda>v c. c\<lparr>edi := v\<rparr>, \<lambda>v c. c\<lparr>esi := v\<rparr>, \<lambda>v c. c\<lparr>edx := v\<rparr>, \<lambda>v c. c\<lparr>ecx := v\<rparr>,
        \<lambda>v c. c\<lparr>ebx := v\<rparr>, \<lambda>v c. c\<lparr>eax := v\<rparr>, \<lambda>v c. c\<lparr>eflags := v\<rparr>]
       (c\<lparr>esp := sp\<rparr>)) }"

text \<open>
  The interrupt flag is bit 9 of \<open>eflags\<close>. \<open>ret_addr\<close> is the address of the instruction after the
  call. The result is the machine at the first instruction of the thread and its address.
\<close>

definition start_new_thread :: "cpu \<Rightarrow> mem \<Rightarrow> addr \<Rightarrow> addr \<Rightarrow> addr \<Rightarrow> (addr \<times> cpu \<times> mem) option" where
  "start_new_thread c m current exit_routine ret_addr = do {
     sp \<leftarrow> rd32 m current t_esp;
     a \<leftarrow> rd32 m current t_arg;
     f \<leftarrow> rd32 m current t_callable;
     (let (c1, m1) = push a (push exit_routine (push 0 (c\<lparr>esp := sp, ebp := sp\<rparr>, m)));
          (c2, m2) = push ret_addr (c1\<lparr>eflags := eflags c1 OR 0x200\<rparr>, m1)
      in Some (f, c2, m2)) }"

text \<open>After the thread function returned with its result in \<open>eax\<close>: the jump to the finalizer.\<close>

definition thread_return :: "cpu \<Rightarrow> mem \<Rightarrow> addr \<times> cpu \<times> mem" where
  "thread_return c m =
     (let m1 = st32 m (esp c + 12) (eax c);
          (a, c1) = pop (c, m1);
          (target, c2) = pop (c1\<lparr>eax := a\<rparr>, m1)
      in (target, c2, m1))"

section \<open>Operations\<close>

definition init_sched :: "'a sched_scheme \<Rightarrow> 'a sched_scheme option" where
  "init_sched s = do {
     (t, s1) \<leftarrow> kmalloc sizeof_task s;
     m1 \<leftarrow> wr32 (mem s1) t t_status NEW;
     m2 \<leftarrow> wr32 m1 t t_callable (do_idle_ptr s1);
     m3 \<leftarrow> wr32 m2 t t_arg 0;
     (stk, s2) \<leftarrow> kmalloc 0x100 (s1\<lparr>mem := m3\<rparr>);
     m4 \<leftarrow> wr32 (mem s2) t t_stack stk;
     stk' \<leftarrow> rd32 m4 t t_stack;
     m5 \<leftarrow> wr32 m4 t t_esp (stk' + 0x100 - 1);
     Some (s2\<lparr>mem := m5, idle_task := t,
              global_sched_lock := kthread_mutex_init (global_sched_lock s2)\<rparr>) }"

definition sched_register_thread ::
  "addr \<Rightarrow> addr \<Rightarrow> 'a sched_scheme \<Rightarrow> (u32 \<times> 'a sched_scheme) option" where
  "sched_register_thread callable arg s =
     (if thread_count s = MAX_THREADCOUNT then Some (- 1, s)
      else do {
        (ts, s1) \<leftarrow> kmalloc sizeof_task s;
        m1 \<leftarrow> wr32 (mem s1) ts t_tid (tid_counter s1);
        m2 \<leftarrow> wr32 m1 ts t_status NEW;
        m3 \<leftarrow> wr32 m2 ts t_priority 0;
        m4 \<leftarrow> wr32 m3 ts t_utime 0;
        m5 \<leftarrow> wr32 m4 ts t_callable callable;
        m6 \<leftarrow> wr32 m5 ts t_arg arg;
        (stk, s2) \<leftarrow> kmalloc THREAD_STACK_SIZE (s1\<lparr>mem := m6, tid_counter := tid_counter s1 + 1\<rparr>);
        m7 \<leftarrow> wr32 (mem s2) ts t_stack stk;
        stk' \<leftarrow> rd32 m7 ts t_stack;
        m8 \<leftarrow> wr32 m7 ts t_esp (stk' + THREAD_STACK_SIZE - 1);
        m9 \<leftarrow> memset m8 (ts + t_fd_table) 0 (NUM_MAX_FD * 4);
        (let s3 = s2\<lparr>mem := m9, current_task := (if current_task s2 = 0 then ts else current_task s2)\<rparr>
         in do {
           (m10, h) \<leftarrow> splice_inq (mem s3) (runq_head s3) ts;
           tid \<leftarrow> rd32 m10 ts t_tid;
           Some (tid, s3\<lparr>mem := m10, runq_head := h, thread_count := thread_count s3 + 1\<rparr>) }) })"

text \<open>
  The loop of \<open>sched_select_next_rr\<close>: \<open>k\<close> counts the iterations left. It moves
  \<open>__current_task\<close> along, so the new value is returned with the choice.
\<close>

fun rr_loop :: "mem \<Rightarrow> addr \<Rightarrow> addr \<Rightarrow> nat \<Rightarrow> (addr \<times> addr) option" where
  "rr_loop m idle cur 0 = Some (idle, cur)"
| "rr_loop m idle cur (Suc k) = do {
     n \<leftarrow> rd32 m cur t_next;
     st \<leftarrow> rd32 m n t_status;
     if st \<noteq> EXITED \<and> st \<noteq> BLOCKED then Some (n, n) else rr_loop m idle n k }"

definition sched_select_next_rr :: "'a sched_scheme \<Rightarrow> (addr \<times> 'a sched_scheme) option" where
  "sched_select_next_rr s =
     (let cur = (if current_task s = idle_task s then runq_head s else current_task s)
      in if runq_head s = 0 then Some (idle_task s, s\<lparr>current_task := cur\<rparr>)
         else do {
           (t, cur') \<leftarrow> rr_loop (mem s) (idle_task s) cur (unat (thread_count s + 1));
           Some (t, s\<lparr>current_task := cur'\<rparr>) })"

text \<open>
  One round of the do-while loop of \<open>service_waitq\<close>, and the loop. The arguments are the memory,
  the two queue heads and the cursor.
\<close>

definition service_one :: "mem \<Rightarrow> addr \<Rightarrow> addr \<Rightarrow> addr \<Rightarrow> (mem \<times> addr \<times> addr \<times> addr) option" where
  "service_one m rh wh w = do {
     u \<leftarrow> rd32 m w t_utime;
     sl \<leftarrow> rd32 m w t_sleep_time;
     if sl \<le> u then do {
       tmp \<leftarrow> rd32 m w t_next;
       m1 \<leftarrow> wr32 m w t_status READY;
       m2 \<leftarrow> wr32 m1 w t_sleep_time 0;
       (m3, wh') \<leftarrow> splice_outq m2 wh w;
       (m4, rh') \<leftarrow> splice_inq m3 rh w;
       Some (m4, rh', wh', tmp) }
     else do {
       n \<leftarrow> rd32 m w t_next;
       Some (m, rh, wh, n) } }"

partial_function (option) service_loop ::
  "mem \<Rightarrow> addr \<Rightarrow> addr \<Rightarrow> addr \<Rightarrow> (mem \<times> addr \<times> addr) option" where
  "service_loop m rh wh w = do {
     (m1, rh1, wh1, w1) \<leftarrow> service_one m rh wh w;
     if wh1 \<noteq> 0 \<and> w1 \<noteq> wh1 then service_loop m1 rh1 wh1 w1 else Some (m1, rh1, wh1) }"

definition service_waitq :: "'a sched_scheme \<Rightarrow> 'a sched_scheme option" where
  "service_waitq s = do {
     (m, rh, wh) \<leftarrow> service_loop (mem s) (runq_head s) (waitq_head s) (waitq_head s);
     Some (s\<lparr>mem := m, runq_head := rh, waitq_head := wh\<rparr>) }"

text \<open>
  The processor after \<open>schedule\<close>: at the first instruction of a new thread, or inside an old one,
  about to return from the \<open>schedule\<close> it was suspended in.
\<close>

datatype switch = Start addr cpu | Resume cpu

definition schedule :: "addr \<Rightarrow> cpu \<Rightarrow> 'a sched_scheme \<Rightarrow> (switch \<times> 'a sched_scheme) option" where
  "schedule ret_addr c s = do {
     st \<leftarrow> rd32 (mem s) (current_task s) t_status;
     (c1, m1) \<leftarrow> (if st \<noteq> NEW then save_context c (mem s) (current_task s) else Some (c, mem s));
     st1 \<leftarrow> rd32 m1 (current_task s) t_status;
     m2 \<leftarrow> (if st1 = RUNNING then wr32 m1 (current_task s) t_status READY else Some m1);
     s3 \<leftarrow> (if waitq_head s \<noteq> 0 then service_waitq (s\<lparr>mem := m2\<rparr>) else Some (s\<lparr>mem := m2\<rparr>));
     st3 \<leftarrow> rd32 (mem s3) (current_task s3) t_status;
     s4 \<leftarrow> (if st3 \<noteq> NEW
            then do { (t, s') \<leftarrow> sched_select_next_rr s3; Some (s'\<lparr>current_task := t\<rparr>) }
            else Some s3);
     st4 \<leftarrow> rd32 (mem s4) (current_task s4) t_status;
     m5 \<leftarrow> wr32 (mem s4) (current_task s4) t_status RUNNING;
     if st4 = NEW then do {
       (f, c2, m6) \<leftarrow> start_new_thread c1 m5 (current_task s4) (finalize_ptr s4) ret_addr;
       Some (Start f c2, s4\<lparr>mem := m6\<rparr>) }
     else do {
       c2 \<leftarrow> dispatch c1 m5 (current_task s4);
       Some (Resume c2, s4\<lparr>mem := m5\<rparr>) } }"

text \<open>\<open>sched_finalize_thread\<close> up to its call of \<open>schedule\<close>, and the whole of it.\<close>

definition retire_thread :: "u32 \<Rightarrow> 'a sched_scheme \<Rightarrow> 'a sched_scheme option" where
  "retire_thread retval s = do {
     f \<leftarrow> kthread_mutex_lock (global_sched_lock s);
     (let s1 = s\<lparr>global_sched_lock := f\<rparr>; curr_cpy = current_task s1 in do {
       stk \<leftarrow> rd32 (mem s1) curr_cpy t_stack;
       s2 \<leftarrow> kfree stk s1;
       m1 \<leftarrow> wr32 (mem s2) curr_cpy t_status EXITED;
       m2 \<leftarrow> wr32 m1 curr_cpy t_retval retval;
       (m3, rh) \<leftarrow> splice_outq m2 (runq_head s2) curr_cpy;
       (m4, dh) \<leftarrow> splice_inq m3 (doneq_head s2) curr_cpy;
       Some (s2\<lparr>mem := m4, runq_head := rh, doneq_head := dh,
         thread_count := thread_count s2 - 1,
         global_sched_lock := kthread_mutex_unlock (global_sched_lock s2)\<rparr>) }) }"

definition sched_finalize_thread ::
  "addr \<Rightarrow> u32 \<Rightarrow> cpu \<Rightarrow> 'a sched_scheme \<Rightarrow> (switch \<times> 'a sched_scheme) option" where
  "sched_finalize_thread ret_addr retval c s = do {
     s1 \<leftarrow> retire_thread retval s;
     schedule ret_addr c s1 }"

partial_function (option) tick_loop :: "mem \<Rightarrow> addr \<Rightarrow> addr \<Rightarrow> mem option" where
  "tick_loop m head itr = do {
     u \<leftarrow> rd32 m itr t_utime;
     m1 \<leftarrow> wr32 m itr t_utime (u + 1);
     n \<leftarrow> rd32 m1 itr t_next;
     if n \<noteq> head then tick_loop m1 head n else Some m1 }"

definition do_timer :: "addr \<Rightarrow> cpu \<Rightarrow> 'a sched_scheme \<Rightarrow> (switch option \<times> 'a sched_scheme) option" where
  "do_timer ret_addr c s = do {
     m1 \<leftarrow> (if waitq_head s \<noteq> 0 then tick_loop (mem s) (waitq_head s) (waitq_head s) else Some (mem s));
     u \<leftarrow> rd32 m1 (current_task s) t_utime;
     m2 \<leftarrow> wr32 m1 (current_task s) t_utime (u + 1);
     (let s2 = s\<lparr>mem := m2, jiffies := jiffies s + 1\<rparr> in
      if u + 1 < SCHED_TIMESLICE_TICKS then Some (None, s2)
      else do {
        m3 \<leftarrow> wr32 m2 (current_task s2) t_utime 0;
        (sw, s3) \<leftarrow> schedule ret_addr c (s2\<lparr>mem := m3\<rparr>);
        Some (Some sw, s3) }) }"

text \<open>
  \<open>__sleep_on\<close> up to its wait loop, the test of the loop, and what the thread does once the loop
  has left. The scheduler runs other threads in between.
\<close>

definition sleep_on :: "u32 \<Rightarrow> 'a sched_scheme \<Rightarrow> 'a sched_scheme option" where
  "sleep_on systicks s = do {
     f \<leftarrow> kthread_mutex_lock (global_sched_lock s);
     (let s1 = s\<lparr>global_sched_lock := f\<rparr>; curr_cpy = current_task s1 in do {
       m1 \<leftarrow> wr32 (mem s1) curr_cpy t_status BLOCKED;
       m2 \<leftarrow> wr32 m1 curr_cpy t_utime 0;
       m3 \<leftarrow> wr32 m2 curr_cpy t_sleep_time systicks;
       (m4, rh) \<leftarrow> splice_outq m3 (runq_head s1) curr_cpy;
       (m5, wh) \<leftarrow> splice_inq m4 (waitq_head s1) curr_cpy;
       Some (s1\<lparr>mem := m5, runq_head := rh, waitq_head := wh,
         global_sched_lock := kthread_mutex_unlock (global_sched_lock s1)\<rparr>) }) }"

definition sleep_waiting :: "addr \<Rightarrow> 'a sched_scheme \<Rightarrow> bool option" where
  "sleep_waiting curr_cpy s = do { t \<leftarrow> rd32 (mem s) curr_cpy t_sleep_time; Some (t \<noteq> 0) }"

definition sleep_resume :: "'a sched_scheme \<Rightarrow> 'a sched_scheme option" where
  "sleep_resume s = do {
     m1 \<leftarrow> wr32 (mem s) (current_task s) t_utime 0;
     m2 \<leftarrow> wr32 m1 (current_task s) t_sleep_time 0;
     Some (s\<lparr>mem := m2\<rparr>) }"

partial_function (option) do_idle :: "addr \<Rightarrow> addr option" where
  "do_idle arg = do_idle arg"

definition kthread_create :: "addr \<Rightarrow> addr \<Rightarrow> 'a sched_scheme \<Rightarrow> (u32 \<times> 'a sched_scheme) option" where
  "kthread_create callable arg s = do {
     (tid, s1) \<leftarrow> sched_register_thread callable arg s;
     Some (tid, s1) }"

definition msleep :: "u32 \<Rightarrow> 'a sched_scheme \<Rightarrow> 'a sched_scheme option" where
  "msleep milliseconds s = sleep_on ((milliseconds * PIT_INT_FRQ) div 1000) s"

section \<open>The interval timer\<close>

definition PIT_BASE_FRQ :: u32 where "PIT_BASE_FRQ = 1193182"

definition init_pit :: "'a machine_scheme \<Rightarrow> 'a machine_scheme" where
  "init_pit s = outb 0x40 (ucast (drop_bit 8 (PIT_BASE_FRQ div PIT_INT_FRQ)))
     (outb 0x40 (ucast ((PIT_BASE_FRQ div PIT_INT_FRQ) AND 0xFF)) (outb 0x43 0x34 s))"

end
