(* ===== verification/Interrupt.thy ===== *)
theory Interrupt
  imports Sched
begin

text \<open>
  Interrupts, src/MemeOS/src/interrupt.c with include/sys/interrupt.h: the interrupt descriptor
  table as bytes of memory, the gates that \<open>init_idt\<close> writes into it, the masks of the two
  interrupt controllers, and the handlers of the processor exceptions. The record \<open>intr\<close> adds the
  module's variables to the scheduler's, together with the two processor registers it sets: the
  interrupt table register and the interrupt flag.

  What a port reads is not the kernel's: \<open>inb\<close> takes the device as an argument, a function of the
  writes it has seen so far and of the port. \<open>pic_8259\<close> says what the code relies on of the
  interrupt controllers, that their mask registers are cleared by the initialisation sequence and
  read back what was last written to them.
\<close>

section \<open>State\<close>

record intr = sched +
  IDT :: addr
  idtr_limit :: u16
  idtr_base :: addr
  loaded_idt :: "u16 \<times> addr"
  int_flag :: bool

definition PIC1_CTRL :: u16 where "PIC1_CTRL = 0x20"
definition PIC1_DATA :: u16 where "PIC1_DATA = 0x21"
definition PIC1_OFFSET :: u8 where "PIC1_OFFSET = 0x20"
definition PIC2_CTRL :: u16 where "PIC2_CTRL = 0xA0"
definition PIC2_DATA :: u16 where "PIC2_DATA = 0xA1"
definition PIC2_OFFSET :: u8 where "PIC2_OFFSET = 0x28"
definition ISR_COUNT :: u32 where "ISR_COUNT = 0x100"

type_synonym device = "(u16 \<times> u8) list \<Rightarrow> u16 \<Rightarrow> u8"

definition inb :: "device \<Rightarrow> u16 \<Rightarrow> 'a machine_scheme \<Rightarrow> u8" where
  "inb dev port s = dev (ports s) port"

definition sti :: "'a intr_scheme \<Rightarrow> 'a intr_scheme" where
  "sti s = s\<lparr>int_flag := True\<rparr>"

definition cli :: "'a intr_scheme \<Rightarrow> 'a intr_scheme" where
  "cli s = s\<lparr>int_flag := False\<rparr>"

section \<open>The interrupt controllers\<close>

text \<open>The data port of the controller that has the line, and the line's number there.\<close>

definition irq_port :: "u8 \<Rightarrow> u16 \<times> u8" where
  "irq_port line = (if line < 8 then (PIC1_DATA, line) else (PIC2_DATA, line - 8))"

definition irq_mask :: "device \<Rightarrow> u8 \<Rightarrow> 'a machine_scheme \<Rightarrow> 'a machine_scheme" where
  "irq_mask dev line s =
     (let (port, l) = irq_port line
      in outb port (inb dev port s OR push_bit (unat l) 1) s)"

definition irq_unmask :: "device \<Rightarrow> u8 \<Rightarrow> 'a machine_scheme \<Rightarrow> 'a machine_scheme" where
  "irq_unmask dev line s =
     (let (port, l) = irq_port line
      in outb port (inb dev port s AND NOT (push_bit (unat l) 1)) s)"

definition init_pic :: "device \<Rightarrow> 'a machine_scheme \<Rightarrow> 'a machine_scheme" where
  "init_pic dev s =
     fold (\<lambda>i. irq_mask dev (of_nat i)) [1..<16]
       (outb PIC2_DATA 0x2 (outb PIC1_DATA 0x4
         (outb PIC2_DATA PIC2_OFFSET (outb PIC1_DATA PIC1_OFFSET
           (outb PIC2_CTRL 0x10 (outb PIC1_CTRL 0x10 s))))))"

section \<open>The descriptor table\<close>

text \<open>
  The instructions of \<open>_set_gate\<close>: \<open>eax\<close> starts as 0x00080000 and \<open>edx\<close> as the handler's address;
  the low half of \<open>edx\<close> goes to \<open>eax\<close>, the flags take its place, and the two registers are the
  gate's two words.
\<close>

definition gate_flags :: "u32 \<Rightarrow> u32 \<Rightarrow> u16" where
  "gate_flags ty dpl = ucast (0x8000 + push_bit 13 dpl + push_bit 8 ty)"

definition with_low :: "u32 \<Rightarrow> u16 \<Rightarrow> u32" where
  "with_low r w = (r AND 0xFFFF0000) OR ucast w"

definition set_gate :: "addr \<Rightarrow> u32 \<Rightarrow> u32 \<Rightarrow> addr \<Rightarrow> mem \<Rightarrow> mem option" where
  "set_gate gate_addr ty dpl handler m = do {
     m1 \<leftarrow> wr32 m gate_addr 0 (with_low 0x00080000 (ucast handler));
     wr32 m1 gate_addr 4 (with_low handler (gate_flags ty dpl)) }"

text \<open>The assembler entry points, one constructor each.\<close>

datatype isr = isr_divide_error | isr_debug | isr_nmi | isr_int3 | isr_overflow | isr_bounds
  | isr_invalid_op | isr_device_unavailable | isr_double_fault | isr_coprocessor_segment_overrun
  | isr_invalid_tss | isr_segment_not_present | isr_stack_segment_fault
  | isr_general_protection_fault | isr_page_fault | isr_reserved | isr_x87_fpu_except
  | isr_timer | isr_kbd

text \<open>The calls of \<open>init_idt\<close> in order: vector, gate type, privilege level, entry point.\<close>

abbreviation (input) trap_gate :: "nat \<Rightarrow> isr \<Rightarrow> nat \<times> u32 \<times> u32 \<times> isr" where
  "trap_gate n f \<equiv> (n, 15, 0, f)"
abbreviation (input) system_gate :: "nat \<Rightarrow> isr \<Rightarrow> nat \<times> u32 \<times> u32 \<times> isr" where
  "system_gate n f \<equiv> (n, 15, 3, f)"
abbreviation (input) intr_gate :: "nat \<Rightarrow> isr \<Rightarrow> nat \<times> u32 \<times> u32 \<times> isr" where
  "intr_gate n f \<equiv> (n, 14, 0, f)"

definition idt_gates :: "(nat \<times> u32 \<times> u32 \<times> isr) list" where
  "idt_gates =
     [trap_gate 0 isr_divide_error, trap_gate 1 isr_debug, trap_gate 2 isr_nmi,
      system_gate 3 isr_int3, system_gate 4 isr_overflow, system_gate 5 isr_bounds,
      trap_gate 6 isr_invalid_op, trap_gate 7 isr_device_unavailable,
      trap_gate 8 isr_double_fault, trap_gate 9 isr_coprocessor_segment_overrun,
      trap_gate 10 isr_invalid_tss, trap_gate 11 isr_segment_not_present,
      trap_gate 12 isr_stack_segment_fault, trap_gate 13 isr_general_protection_fault,
      trap_gate 14 isr_page_fault, trap_gate 15 isr_reserved, trap_gate 16 isr_x87_fpu_except]
     @ map (\<lambda>i. trap_gate i isr_reserved) [17..<32]
     @ [intr_gate 32 isr_timer, intr_gate 33 isr_kbd]"

fun set_gates :: "(isr \<Rightarrow> addr) \<Rightarrow> addr \<Rightarrow> (nat \<times> u32 \<times> u32 \<times> isr) list \<Rightarrow> mem \<Rightarrow> mem option" where
  "set_gates entry idt [] m = Some m"
| "set_gates entry idt ((n, ty, dpl, f) # gs) m = do {
     m1 \<leftarrow> set_gate (idt + of_nat (8 * n)) ty dpl (entry f) m;
     set_gates entry idt gs m1 }"

definition load_idt :: "'a intr_scheme \<Rightarrow> 'a intr_scheme" where
  "load_idt s = s\<lparr>loaded_idt := (idtr_limit s, idtr_base s)\<rparr>"

text \<open>\<open>entry\<close> gives the addresses the linker chose for the entry points.\<close>

definition init_idt :: "(isr \<Rightarrow> addr) \<Rightarrow> 'a intr_scheme \<Rightarrow> 'a intr_scheme option" where
  "init_idt entry s =
     (let s1 = s\<lparr>idtr_limit := ucast (8 * ISR_COUNT - 1), idtr_base := IDT s\<rparr> in do {
       m1 \<leftarrow> memset (mem s1) (IDT s1) 0 (8 * ISR_COUNT);
       m2 \<leftarrow> set_gates entry (IDT s1) idt_gates m1;
       Some (load_idt (s1\<lparr>mem := m2\<rparr>)) })"

section \<open>Exceptions\<close>

text \<open>\<open>die\<close> does not return: the result is the state in which it stops, interrupts disabled.\<close>

definition esc :: string where "esc = [CHR 0x1B]"
definition nl :: string where "nl = [CHR 0x0A]"
definition FG_COLOR_DARK_RED :: string where "FG_COLOR_DARK_RED = esc @ ''[31m''"
definition BG_COLOR_WHITE :: string where "BG_COLOR_WHITE = esc @ ''[107m''"

definition die :: "string \<Rightarrow> addr \<Rightarrow> u32 \<Rightarrow> 'a intr_scheme \<Rightarrow> 'a intr_scheme option" where
  "die msg esp_ptr error_code s = do {
     s1 \<leftarrow> printf (FG_COLOR_DARK_RED @ BG_COLOR_WHITE) [] s;
     s2 \<leftarrow> printf (''%s: 0x%x'' @ nl) [Lit (chars msg), Word (error_code AND 0xFFFF)] s1;
     e0 \<leftarrow> rd32 (mem s2) esp_ptr 0;
     e1 \<leftarrow> rd32 (mem s2) esp_ptr 4;
     e2 \<leftarrow> rd32 (mem s2) esp_ptr 8;
     e3 \<leftarrow> rd32 (mem s2) esp_ptr 12;
     e4 \<leftarrow> rd32 (mem s2) esp_ptr 16;
     s3 \<leftarrow> printf (''EIP:    0x%x:0x%x'' @ nl @ ''EFLAGS:    0x%x'' @ nl @ ''ESP:    0x%x:0x%x'' @ nl)
       [Word e1, Word e0, Word e2, Word e4, Word e3] s2;
     Some (cli s3) }"

definition do_divide_error :: "addr \<Rightarrow> u32 \<Rightarrow> 'a intr_scheme \<Rightarrow> 'a intr_scheme option" where
  "do_divide_error = die ''Divide By Zero''"
definition do_debug :: "addr \<Rightarrow> u32 \<Rightarrow> 'a intr_scheme \<Rightarrow> 'a intr_scheme option" where
  "do_debug = die ''Debug''"
definition do_nmi :: "addr \<Rightarrow> u32 \<Rightarrow> 'a intr_scheme \<Rightarrow> 'a intr_scheme option" where
  "do_nmi = die ''NMI''"
definition do_int3 :: "addr \<Rightarrow> u32 \<Rightarrow> 'a intr_scheme \<Rightarrow> 'a intr_scheme option" where
  "do_int3 = die ''Int 3 Break Point''"
definition do_overflow :: "addr \<Rightarrow> u32 \<Rightarrow> 'a intr_scheme \<Rightarrow> 'a intr_scheme option" where
  "do_overflow = die (''Overflow'' @ nl)"
definition do_bounds :: "addr \<Rightarrow> u32 \<Rightarrow> 'a intr_scheme \<Rightarrow> 'a intr_scheme option" where
  "do_bounds = die ''Bounds Range Exceeded''"
definition do_invalid_op :: "addr \<Rightarrow> u32 \<Rightarrow> 'a intr_scheme \<Rightarrow> 'a intr_scheme option" where
  "do_invalid_op = die ''Invalid Operand''"
definition do_device_unavailable :: "addr \<Rightarrow> u32 \<Rightarrow> 'a intr_scheme \<Rightarrow> 'a intr_scheme option" where
  "do_device_unavailable = die (''Device Not Available'' @ nl)"
definition do_double_fault :: "addr \<Rightarrow> u32 \<Rightarrow> 'a intr_scheme \<Rightarrow> 'a intr_scheme option" where
  "do_double_fault = die ''DOUBLE FAULT''"
definition do_coprocessor_segment_overrun ::
  "addr \<Rightarrow> u32 \<Rightarrow> 'a intr_scheme \<Rightarrow> 'a intr_scheme option" where
  "do_coprocessor_segment_overrun = die ''Coprocessor Segment Overrun''"
definition do_invalid_tss :: "addr \<Rightarrow> u32 \<Rightarrow> 'a intr_scheme \<Rightarrow> 'a intr_scheme option" where
  "do_invalid_tss = die ''Invalid TSS''"
definition do_segment_not_present :: "addr \<Rightarrow> u32 \<Rightarrow> 'a intr_scheme \<Rightarrow> 'a intr_scheme option" where
  "do_segment_not_present = die ''segment not present''"
definition do_stack_segment_fault :: "addr \<Rightarrow> u32 \<Rightarrow> 'a intr_scheme \<Rightarrow> 'a intr_scheme option" where
  "do_stack_segment_fault = die ''stack segment''"
definition do_general_protection_fault ::
  "addr \<Rightarrow> u32 \<Rightarrow> 'a intr_scheme \<Rightarrow> 'a intr_scheme option" where
  "do_general_protection_fault = die ''General Protection Fault''"
definition do_page_fault :: "addr \<Rightarrow> u32 \<Rightarrow> 'a intr_scheme \<Rightarrow> 'a intr_scheme option" where
  "do_page_fault = die ''Page Fault''"
definition do_reserved :: "addr \<Rightarrow> u32 \<Rightarrow> 'a intr_scheme \<Rightarrow> 'a intr_scheme option" where
  "do_reserved = die ''Reserved''"
definition do_x87_fpu_except :: "addr \<Rightarrow> u32 \<Rightarrow> 'a intr_scheme \<Rightarrow> 'a intr_scheme option" where
  "do_x87_fpu_except = die ''x87 FPU Exception''"

section \<open>Masks\<close>

text \<open>The writes of the initialisation sequence.\<close>

definition icw_log :: "(u16 \<times> u8) list" where
  "icw_log = [(0x20, 0x10), (0xA0, 0x10), (0x21, 0x20), (0xA1, 0x28), (0x21, 0x4), (0xA1, 0x2)]"

definition mask_writes :: "(u16 \<times> u8) list \<Rightarrow> bool" where
  "mask_writes l \<longleftrightarrow> (\<forall>(p, v) \<in> set l. p = 0x21 \<or> p = 0xA1)"

definition pic_8259 :: "device \<Rightarrow> bool" where
  "pic_8259 dev \<longleftrightarrow>
     (\<forall>l. dev (l @ icw_log) 0x21 = 0 \<and> dev (l @ icw_log) 0xA1 = 0) \<and>
     (\<forall>l k v. mask_writes k \<longrightarrow>
        dev (l @ icw_log @ k @ [(0x21, v)]) 0x21 = v \<and>
        dev (l @ icw_log @ k @ [(0xA1, v)]) 0xA1 = v \<and>
        dev (l @ icw_log @ k @ [(0x21, v)]) 0xA1 = dev (l @ icw_log @ k) 0xA1 \<and>
        dev (l @ icw_log @ k @ [(0xA1, v)]) 0x21 = dev (l @ icw_log @ k) 0x21)"

text \<open>The controllers have been initialised and only mask writes have followed.\<close>

definition pic_ready :: "'a machine_scheme \<Rightarrow> bool" where
  "pic_ready s \<longleftrightarrow> (\<exists>l k. ports s = l @ icw_log @ k \<and> mask_writes k)"

definition imr :: "device \<Rightarrow> 'a machine_scheme \<Rightarrow> u16" where
  "imr dev s = push_bit 8 (ucast (inb dev 0xA1 s)) OR ucast (inb dev 0x21 s)"

lemma outb_mask:
  assumes "pic_8259 dev" and "pic_ready s" and "p = 0x21 \<or> p = 0xA1"
  shows "pic_ready (outb p v s)" and "inb dev p (outb p v s) = v"
    and "q = 0x21 \<or> q = 0xA1 \<Longrightarrow> q \<noteq> p \<Longrightarrow> inb dev q (outb p v s) = inb dev q s"
proof -
  obtain l k where lk: "ports s = l @ icw_log @ k" "mask_writes k"
    using assms(2) by (auto simp: pic_ready_def)
  then have "ports (outb p v s) = l @ icw_log @ (k @ [(p, v)]) \<and> mask_writes (k @ [(p, v)])"
    using assms(3) by (auto simp: outb_def mask_writes_def)
  then show "pic_ready (outb p v s)" unfolding pic_ready_def by blast
  note dev = assms(1) [unfolded pic_8259_def, THEN conjunct2, rule_format, OF lk(2), of l v]
  show "inb dev p (outb p v s) = v" using assms(3) lk(1) dev by (auto simp: inb_def outb_def)
  show "inb dev q (outb p v s) = inb dev q s" if "q = 0x21 \<or> q = 0xA1" "q \<noteq> p"
    using assms(3) that lk(1) dev by (auto simp: inb_def outb_def)
qed

lemma irq_port_cases:
  assumes "line < 16"
  shows "(line < 8 \<and> irq_port line = (0x21, line)) \<or>
    (8 \<le> line \<and> irq_port line = (0xA1, line - 8) \<and> unat (line - 8) = unat line - 8 \<and> 8 \<le> unat line)"
  using assms
  by (auto simp: irq_port_def PIC1_DATA_def PIC2_DATA_def unat_sub word_le_nat_alt not_less)

lemma irq_mask_imr:
  assumes dev: "pic_8259 dev" "pic_ready s" and line: "line < 16"
  shows "pic_ready (irq_mask dev line s)"
    and "imr dev (irq_mask dev line s) = imr dev s OR push_bit (unat line) 1"
proof -
  note o1 = outb_mask [OF dev, of "0x21"] and o2 = outb_mask [OF dev, of "0xA1"]
  have n: "unat line < 16" using line by (simp add: word_less_nat_alt)
  show "pic_ready (irq_mask dev line s)"
    using irq_port_cases [OF line] o1 o2 by (auto simp: irq_mask_def)
  show "imr dev (irq_mask dev line s) = imr dev s OR push_bit (unat line) 1"
    using irq_port_cases [OF line]
  proof
    assume a: "line < 8 \<and> irq_port line = (0x21, line)"
    then have "unat line < 8" by (simp add: word_less_nat_alt)
    with a show ?thesis using o1
      by (auto simp: irq_mask_def imr_def intro!: bit_word_eqI simp: bit_simps)
  next
    assume a: "8 \<le> line \<and> irq_port line = (0xA1, line - 8) \<and> unat (line - 8) = unat line - 8 \<and> 8 \<le> unat line"
    with n show ?thesis using o2
      by (auto simp: irq_mask_def imr_def intro!: bit_word_eqI simp: bit_simps)
  qed
qed

lemma bit_above:
  "8 \<le> n \<Longrightarrow> \<not> bit (b :: u8) n" "16 \<le> n \<Longrightarrow> \<not> bit (h :: u16) n" "32 \<le> n \<Longrightarrow> \<not> bit (w :: u32) n"
  using bit_imp_le_length [of b n] bit_imp_le_length [of h n] bit_imp_le_length [of w n] by auto

lemma irq_unmask_imr:
  assumes dev: "pic_8259 dev" "pic_ready s" and line: "line < 16"
  shows "pic_ready (irq_unmask dev line s)"
    and "imr dev (irq_unmask dev line s) = imr dev s AND NOT (push_bit (unat line) 1)"
proof -
  note o1 = outb_mask [OF dev, of "0x21"] and o2 = outb_mask [OF dev, of "0xA1"]
  have n: "unat line < 16" using line by (simp add: word_less_nat_alt)
  show "pic_ready (irq_unmask dev line s)"
    using irq_port_cases [OF line] o1 o2 by (auto simp: irq_unmask_def)
  show "imr dev (irq_unmask dev line s) = imr dev s AND NOT (push_bit (unat line) 1)"
    using irq_port_cases [OF line]
  proof
    assume a: "line < 8 \<and> irq_port line = (0x21, line)"
    then have "unat line < 8" by (simp add: word_less_nat_alt)
    with a show ?thesis using o1
      by (auto simp: irq_unmask_def imr_def intro!: bit_word_eqI simp: bit_simps bit_above)
  next
    assume a: "8 \<le> line \<and> irq_port line = (0xA1, line - 8) \<and> unat (line - 8) = unat line - 8 \<and> 8 \<le> unat line"
    with n show ?thesis using o2
      by (auto simp: irq_unmask_def imr_def intro!: bit_word_eqI simp: bit_simps bit_above)
  qed
qed

lemma mask_lines_imr:
  assumes "pic_8259 dev" "pic_ready s" and "\<forall>i \<in> set is. i < 16"
  shows "pic_ready (fold (\<lambda>i. irq_mask dev (of_nat i)) is s) \<and>
    imr dev (fold (\<lambda>i. irq_mask dev (of_nat i)) is s) = fold (\<lambda>i w. w OR push_bit i 1) is (imr dev s)"
  using assms(2,3)
proof (induction "is" arbitrary: s)
  case (Cons i "is")
  then have "unat (of_nat i :: u8) = i" by (simp add: unsigned_of_nat take_bit_nat_eq_self)
  moreover from this Cons.prems have "(of_nat i :: u8) < 16" by (simp add: word_less_nat_alt)
  ultimately show ?case using irq_mask_imr [OF assms(1) Cons.prems(1), of "of_nat i"] Cons by auto
qed simp

section \<open>Gates\<close>

text \<open>What the processor reads of a gate: offset, selector and attribute byte.\<close>

definition gate_at :: "mem \<Rightarrow> addr \<Rightarrow> u32 \<times> u16 \<times> u8" where
  "gate_at m a = ((ld32 m (a + 4) AND 0xFFFF0000) OR (ld32 m a AND 0xFFFF),
     ucast (drop_bit 16 (ld32 m a)), ucast (drop_bit 8 (ld32 m (a + 4))))"

definition gate_attr :: "u32 \<Rightarrow> u32 \<Rightarrow> u8" where
  "gate_attr ty dpl = 0x80 OR push_bit 5 (ucast dpl) OR ucast ty"

lemma half_masks: "(0xFFFF0000 :: u32) = NOT (mask 16)" "(0xFFFF :: u32) = mask 16"
  by (simp_all add: mask_eq_exp_minus_1)

lemma with_low_parts:
  "with_low r w AND 0xFFFF0000 = r AND 0xFFFF0000" "with_low r w AND 0xFFFF = ucast w"
  "drop_bit 16 (with_low r w) = drop_bit 16 r" "ucast (drop_bit 8 (with_low r w)) = (ucast (drop_bit 8 w) :: u8)"
  unfolding with_low_def half_masks
  by (auto intro!: bit_word_eqI simp: bit_simps bit_above, (rule ccontr, simp add: bit_above)+)

lemma word_halves: "((h :: u32) AND 0xFFFF0000) OR ucast (ucast h :: u16) = h"
  unfolding half_masks by (auto intro!: bit_word_eqI simp: bit_simps)

lemma gate_flags_attr:
  "dpl \<in> {0, 3} \<Longrightarrow> ty \<in> {14, 15} \<Longrightarrow> ucast (drop_bit 8 (gate_flags ty dpl)) = gate_attr ty dpl"
  by (auto simp: gate_flags_def gate_attr_def)

lemma set_gate_gate:
  assumes a: "a \<noteq> 0" "unat a + 8 \<le> two32" and "dpl \<in> {0, 3}" "ty \<in> {14, 15}"
  shows "\<exists>m'. set_gate a ty dpl h m = Some m' \<and> gate_at m' a = (h, 8, gate_attr ty dpl) \<and>
    eq_out (region a 8) m m'"
proof -
  let ?m1 = "st32 m a (with_low 0x00080000 (ucast h))"
  let ?m2 = "st32 ?m1 (a + 4) (with_low h (gate_flags ty dpl))"
  have ap: "apart (a + 4) 4 a 4" using a by (simp add: apart_def)
  have "eq_out (region a 8) m ?m1" by (rule eq_out_st32) (use a in \<open>simp_all add: region_subset\<close>)
  moreover have "eq_out (region a 8) ?m1 ?m2"
    by (rule eq_out_st32) (use a in \<open>simp_all add: region_subset\<close>)
  ultimately have "eq_out (region a 8) m ?m2" by (rule eq_out_trans)
  moreover have "gate_at ?m2 a = (h, 8, gate_attr ty dpl)"
    by (simp add: gate_at_def ld32_st32_apart [OF ap] with_low_parts word_halves
        gate_flags_attr [OF assms(3,4)])
  ultimately show ?thesis using a by (simp add: set_gate_def)
qed

text \<open>What a list of gates leaves at vector \<open>n\<close>, given what was there before.\<close>

definition gate_spec :: "(isr \<Rightarrow> addr) \<Rightarrow> (nat \<times> u32 \<times> u32 \<times> isr) list \<Rightarrow> nat \<Rightarrow>
    u32 \<times> u16 \<times> u8 \<Rightarrow> u32 \<times> u16 \<times> u8" where
  "gate_spec entry gs n old = (case map_of gs n of None \<Rightarrow> old
     | Some (ty, dpl, f) \<Rightarrow> (entry f, 8, gate_attr ty dpl))"

lemma gate_at_frame:
  assumes "eq_out (region a 8) m m'" "unat b + 8 \<le> two32" "unat a + 8 \<le> unat b \<or> unat b + 8 \<le> unat a"
  shows "gate_at m' b = gate_at m b"
proof -
  have "ld32 m' b = ld32 m b" using assms
    by (intro eq_out_ld32 [OF assms(1)]) (auto intro!: region_disjoint)
  moreover have "ld32 m' (b + 4) = ld32 m (b + 4)" using assms
    by (intro eq_out_ld32 [OF assms(1)]) (auto intro!: region_disjoint)
  ultimately show ?thesis by (simp add: gate_at_def)
qed

lemma set_gates_gates:
  assumes idt: "idt \<noteq> 0" "unat idt + 2048 \<le> two32"
    and "distinct (map fst gs)" "\<forall>(n, ty, dpl, f) \<in> set gs. n < 256 \<and> dpl \<in> {0, 3} \<and> ty \<in> {14, 15}"
  shows "\<exists>m'. set_gates entry idt gs m = Some m' \<and> eq_out (region idt 2048) m m' \<and>
    (\<forall>n < 256. gate_at m' (idt + of_nat (8 * n)) = gate_spec entry gs n (gate_at m (idt + of_nat (8 * n))))"
  using assms(3,4)
proof (induction gs arbitrary: m)
  case (Cons g gs)
  obtain k ty dpl f where g: "g = (k, ty, dpl, f)" by (cases g) auto
  let ?a = "\<lambda>n. idt + of_nat (8 * n) :: addr"
  have ua: "unat (?a n) = unat idt + 8 * n" if "n < 256" for n
    using that idt unat_plus_of_nat [of idt "8 * n"] by simp
  have k: "k < 256" "dpl \<in> {0, 3}" "ty \<in> {14, 15}" using Cons.prems g by auto
  have nz: "?a k \<noteq> 0" using ua [OF k(1)] idt by (metis unat_0 add_is_0 unat_eq_zero)
  obtain m1 where m1: "set_gate (?a k) ty dpl (entry f) m = Some m1"
    "gate_at m1 (?a k) = (entry f, 8, gate_attr ty dpl)" "eq_out (region (?a k) 8) m m1"
    using set_gate_gate [OF nz _ k(2,3), of "entry f" m] ua [OF k(1)] k(1) idt by fastforce
  obtain m2 where m2: "set_gates entry idt gs m1 = Some m2" "eq_out (region idt 2048) m1 m2"
    "\<forall>n < 256. gate_at m2 (?a n) = gate_spec entry gs n (gate_at m1 (?a n))"
    using Cons.IH [of m1] Cons.prems by auto
  have "eq_out (region idt 2048) m m1"
    by (rule eq_out_mono [OF m1(3)]) (rule region_subset, use ua [OF k(1)] k(1) in auto)
  then have "eq_out (region idt 2048) m m2" using m2(2) by (rule eq_out_trans)
  moreover have "gate_at m2 (?a n) = gate_spec entry (g # gs) n (gate_at m (?a n))" if n: "n < 256" for n
  proof (cases "n = k")
    case True
    have "map_of gs k = None" using Cons.prems(1) g by (auto simp: map_of_eq_None_iff)
    then show ?thesis using m2(3) k(1) m1(2) True g by (simp add: gate_spec_def)
  next
    case False
    then have "gate_at m1 (?a n) = gate_at m (?a n)"
      using ua [OF k(1)] ua [OF n] n idt by (intro gate_at_frame [OF m1(3)]) auto
    then show ?thesis using m2(3) n False g by (simp add: gate_spec_def cong: option.case_cong)
  qed
  ultimately show ?case using m1(1) m2(1) g by simp
qed (auto simp: gate_spec_def)

section \<open>Properties\<close>

lemma idt_gates_ok:
  "distinct (map fst idt_gates)"
  "\<forall>(n, ty, dpl, f) \<in> set idt_gates. n < 256 \<and> dpl \<in> {0, 3} \<and> ty \<in> {14, 15}"
  by (simp_all add: idt_gates_def upt_conv_Cons)

lemma gate_at_zero:
  assumes "\<forall>a \<in> region p 2048. m a = 0" "unat p + 2048 \<le> two32" "n < 256"
  shows "gate_at m (p + of_nat (8 * n)) = (0, 0, 0)"
proof -
  have "m (p + of_nat (8 * n + i)) = 0" if "i < 8" for i
    using assms that in_region_of_nat [of p 2048 "8 * n + i"] by auto
  from this [of 0] this [of 1] this [of 2] this [of 3] this [of 4] this [of 5] this [of 6] this [of 7]
  show ?thesis by (simp add: gate_at_def ld32_def algebra_simps)
qed

lemma init_idt_gates:
  assumes "IDT s \<noteq> 0" and "unat (IDT s) + 2048 \<le> two32"
  shows "\<exists>s'. init_idt entry s = Some s' \<and> loaded_idt s' = (0x7FF, IDT s) \<and>
     eq_out (region (IDT s) 2048) (mem s) (mem s') \<and>
     (\<forall>n < 256. gate_at (mem s') (IDT s + of_nat (8 * n)) =
        (case map_of idt_gates n of None \<Rightarrow> (0, 0, 0)
         | Some (ty, dpl, f) \<Rightarrow> (entry f, 8, gate_attr ty dpl))) \<and>
     s' = s\<lparr>mem := mem s', idtr_limit := 0x7FF, idtr_base := IDT s, loaded_idt := (0x7FF, IDT s)\<rparr>"
proof -
  let ?m1 = "\<lambda>a. if a \<in> region (IDT s) 2048 then 0 else mem s a"
  have m1: "memset (mem s) (IDT s) 0 (8 * ISR_COUNT) = Some ?m1"
    using memset_eq [OF assms(1), of "8 * ISR_COUNT" "mem s" 0] assms(2) by (simp add: ISR_COUNT_def)
  obtain m2 where m2: "set_gates entry (IDT s) idt_gates ?m1 = Some m2"
    "eq_out (region (IDT s) 2048) ?m1 m2"
    "\<forall>n < 256. gate_at m2 (IDT s + of_nat (8 * n)) =
       gate_spec entry idt_gates n (gate_at ?m1 (IDT s + of_nat (8 * n)))"
    using set_gates_gates [OF assms idt_gates_ok, of entry ?m1] by blast
  have z: "gate_at ?m1 (IDT s + of_nat (8 * n)) = (0, 0, 0)" if "n < 256" for n
    using gate_at_zero [OF _ assms(2) that, of ?m1] by simp
  have "eq_out (region (IDT s) 2048) (mem s) m2"
    using m2(2) by (simp add: eq_out_def)
  moreover have "gate_at m2 (IDT s + of_nat (8 * n)) = gate_spec entry idt_gates n (0, 0, 0)"
    if "n < 256" for n using m2(3) z that by simp
  ultimately show ?thesis using m1 m2(1)
    by (simp add: init_idt_def load_idt_def ISR_COUNT_def gate_spec_def)
qed

text \<open>
  \<open>init_idt\<close> returns, and in the table it loads (256 gates, limit 0x7FF) every vector holds the
  gate the list of calls gives it: offset the handler's entry point, selector 8, and an attribute
  byte with the present bit, the gate's privilege level and its type. The vectors no call names
  hold zero, a gate that is not present; no byte outside the table changes.
\<close>

lemma init_idt_installs:
  assumes "IDT s \<noteq> 0" and "unat (IDT s) + 2048 \<le> two32"
  shows "\<exists>s'. init_idt entry s = Some s' \<and> loaded_idt s' = (0x7FF, IDT s) \<and>
     eq_out (region (IDT s) 2048) (mem s) (mem s') \<and>
     (\<forall>n < 256. gate_at (mem s') (IDT s + of_nat (8 * n)) =
        (case map_of idt_gates n of None \<Rightarrow> (0, 0, 0)
         | Some (ty, dpl, f) \<Rightarrow> (entry f, 8, gate_attr ty dpl)))"
  using init_idt_gates [OF assms] by blast

definition demo_intr :: intr where
  "demo_intr = \<lparr>mem = (\<lambda>a. 0xFF), ports = [], ATTRIBUTE = 7, xpos = 0, ypos = 0, video = VIDEO,
     store_global_head = 0, mem_store_base = 0, mem_store_end = 0, mem_store_size = 0,
     global_sched_lock = 0, thread_count = 0, tid_counter = 0, jiffies = 0, idle_task = 0,
     current_task = 0, runq_head = 0, waitq_head = 0, doneq_head = 0, do_idle_ptr = 0,
     finalize_ptr = 0, IDT = 0x110000, idtr_limit = 0, idtr_base = 0, loaded_idt = (0, 0),
     int_flag = False\<rparr>"

lemma init_pic_imr:
  assumes "pic_8259 dev"
  shows "imr dev (init_pic dev s) = 0xFFFE" "pic_ready (init_pic dev s)"
proof -
  let ?s0 = "outb PIC2_DATA 0x2 (outb PIC1_DATA 0x4 (outb PIC2_DATA PIC2_OFFSET
    (outb PIC1_DATA PIC1_OFFSET (outb PIC2_CTRL 0x10 (outb PIC1_CTRL 0x10 s)))))"
  have p: "ports ?s0 = ports s @ icw_log"
    by (simp add: outb_def icw_log_def PIC1_CTRL_def PIC2_CTRL_def PIC1_DATA_def PIC2_DATA_def
        PIC1_OFFSET_def PIC2_OFFSET_def)
  then have "ports ?s0 = ports s @ icw_log @ [] \<and> mask_writes []" by (simp add: mask_writes_def)
  then have r: "pic_ready ?s0" unfolding pic_ready_def by blast
  have z: "imr dev ?s0 = 0" using assms p by (simp add: imr_def inb_def pic_8259_def)
  have "imr dev (init_pic dev s) = fold (\<lambda>i w. w OR push_bit i 1) [1..<16] 0" "pic_ready (init_pic dev s)"
    using mask_lines_imr [OF assms r, of "[1..<16]"] z by (auto simp: init_pic_def)
  then show "imr dev (init_pic dev s) = 0xFFFE" "pic_ready (init_pic dev s)" by (simp_all add: upt_conv_Cons)
qed

text \<open>
  After \<open>init_pic\<close> the mask registers of the two controllers, read back, have every line masked
  but the timer's; from then on \<open>irq_mask\<close> sets the bit of its line and \<open>irq_unmask\<close> clears it, and
  no other bit of the sixteen changes.
\<close>

lemma init_pic_masks:
  assumes "pic_8259 dev" and "line < 16" and "s1 = init_pic dev s"
  shows "imr dev s1 = 0xFFFE \<and>
     imr dev (irq_mask dev line s1) = 0xFFFE OR push_bit (unat line) 1 \<and>
     imr dev (irq_unmask dev line s1) = 0xFFFE AND NOT (push_bit (unat line) 1)"
  using irq_mask_imr(2) [OF assms(1) _ assms(2), of s1] irq_unmask_imr(2) [OF assms(1) _ assms(2), of s1]
    init_pic_imr [OF assms(1), of s] assms(3) by simp

text \<open>
  A pair of controllers that behaves as \<open>pic_8259\<close> asks: a command word with bit 4 set clears the
  mask and takes the next two data writes as its own, every later data write is a mask. The state
  has the mask and the number of command words still expected, for each controller.
\<close>

definition pic_step :: "u16 \<times> u8 \<Rightarrow> (u8 \<times> nat) \<times> (u8 \<times> nat) \<Rightarrow> (u8 \<times> nat) \<times> (u8 \<times> nat)" where
  "pic_step w st = (case (w, st) of ((p, v), (m1, n1), (m2, n2)) \<Rightarrow>
     if p = 0x20 \<and> bit v 4 then ((0, 2), (m2, n2))
     else if p = 0xA0 \<and> bit v 4 then ((m1, n1), (0, 2))
     else if p = 0x21 then ((if n1 = 0 then v else m1, n1 - 1), (m2, n2))
     else if p = 0xA1 then ((m1, n1), (if n2 = 0 then v else m2, n2 - 1))
     else st)"

definition demo_pic :: device where
  "demo_pic l p = (let ((m1, n1), (m2, n2)) = fold pic_step l ((0, 0), (0, 0))
     in if p = 0x21 then m1 else if p = 0xA1 then m2 else 0)"

lemma pic_step_icw: "fold pic_step icw_log st = ((0, 0), (0, 0))"
  by (cases st) (auto simp: icw_log_def pic_step_def)

lemma pic_step_masks:
  "mask_writes k \<Longrightarrow> \<exists>a' b'. fold pic_step k ((a, 0), (b, 0)) = ((a', 0), (b', 0))"
proof (induction k arbitrary: a b)
  case (Cons w k)
  then show ?case by (cases w) (auto simp: mask_writes_def pic_step_def)
qed simp

lemma demo_pic_ok: "pic_8259 demo_pic"
  unfolding pic_8259_def
proof (intro conjI allI impI)
  fix l show "demo_pic (l @ icw_log) 0x21 = 0" "demo_pic (l @ icw_log) 0xA1 = 0"
    by (simp_all add: demo_pic_def pic_step_icw)
next
  fix l k v assume "mask_writes k"
  then obtain a b where k: "fold pic_step k ((0, 0), (0, 0)) = ((a, 0), (b, 0))"
    using pic_step_masks by blast
  show "demo_pic (l @ icw_log @ k @ [(0x21, v)]) 0x21 = v"
    "demo_pic (l @ icw_log @ k @ [(0xA1, v)]) 0xA1 = v"
    "demo_pic (l @ icw_log @ k @ [(0x21, v)]) 0xA1 = demo_pic (l @ icw_log @ k) 0xA1"
    "demo_pic (l @ icw_log @ k @ [(0xA1, v)]) 0x21 = demo_pic (l @ icw_log @ k) 0x21"
    by (simp_all add: demo_pic_def pic_step_icw k) (simp_all add: pic_step_def)
qed

end
