(* ===== verification/Stateful_Cr.thy ===== *)
theory Stateful_Cr
  imports Interrupt Format
begin

text \<open>
  The demonstration threads, src/MemeOS/src/stateful_cr.c: three threads that take one lock, print
  rows with sleeps in between, and release it. Their functions differ in constants only, which the
  record \<open>routine\<close> holds. A thread can lose the processor anywhere, so its function is cut finely: one step
  (\<open>cr_step\<close>, from one point of \<open>cr_pc\<close> to the next) puts one character on the console, tries once to take
  the lock, releases it, or does a call or test that touches neither. The texts are those of \<open>printf\<close>
  (\<open>printing_printf\<close>).

  The second part interleaves the three threads in any order, with anything the rest of the kernel
  does in between that leaves their lock alone and writes to the console, if at all, through \<open>putchar\<close>. It shows that what the
  threads print under the lock is never mixed.
\<close>

section \<open>The threads\<close>

record kern = intr +
  cr_lock :: u32

record routine =
  label :: string
  millis :: u32
  per_row :: nat
  num_rows :: nat
  retv :: u32

definition stateful_cr_thread1 :: routine where
  "stateful_cr_thread1 = \<lparr>label = ''<1>'', millis = 250, per_row = 4, num_rows = 3, retv = 0xBEEF\<rparr>"

definition stateful_cr_thread2 :: routine where
  "stateful_cr_thread2 = \<lparr>label = ''<2>'', millis = 500, per_row = 5, num_rows = 5, retv = 0xDEAD\<rparr>"

definition stateful_cr_thread3 :: routine where
  "stateful_cr_thread3 = \<lparr>label = ''<3>'', millis = 1500, per_row = 4, num_rows = 2, retv = 0xD00D\<rparr>"

text \<open>
  The points of a thread function: its start, the loop of the lock, the call of \<open>msleep\<close>, the wait
  inside it, the loop over the numbers of a row (\<open>i\<close> of them printed), the test after the row, the unlocking, and the return;
  \<open>j\<close> rows have been printed and \<open>counter\<close> numbers. \<open>Printing bs p\<close> is inside \<open>printf\<close>, with the characters \<open>bs\<close>
  still to be put and \<open>p\<close> to continue at.
\<close>

datatype cr_pc = Entry | Locking | Sleep nat u32 | Waiting nat u32 | Row nat nat u32 | Check nat u32 | Unlock
  | Returned u32 | Printing "u8 list" cr_pc

definition call_printf :: "string \<Rightarrow> vararg list \<Rightarrow> cr_pc \<Rightarrow> cr_pc option" where
  "call_printf format args p = do { bs \<leftarrow> render (\<lambda>a. None) (chars format) args; Some (Printing bs p) }"

fun cr_step :: "routine \<Rightarrow> u32 \<Rightarrow> cr_pc \<Rightarrow> 'a kern_scheme \<Rightarrow> (cr_pc \<times> 'a kern_scheme) option" where
  "cr_step r arg Entry s = do {
     p \<leftarrow> call_printf (label r @ '' Arg = 0x%x'' @ nl) [Word arg] Locking;
     Some (p, s) }"
| "cr_step r arg Locking s =
     (case sync_bool_cmpxchg (cr_lock s) 1 0 of (f, won) \<Rightarrow>
        Some (if won = 0 then Locking else Sleep 0 0, s\<lparr>cr_lock := f\<rparr>))"
| "cr_step r arg (Sleep j counter) s = do {
     s1 \<leftarrow> msleep (millis r) s;
     Some (Waiting j counter, s1) }"
| "cr_step r arg (Waiting j counter) s = do {
     w \<leftarrow> sleep_waiting (current_task s) s;
     if w then Some (Waiting j counter, s)
     else do { s1 \<leftarrow> sleep_resume s; Some (Row j 0 counter, s1) } }"
| "cr_step r arg (Row j i counter) s =
     (if i < per_row r then do {
        p \<leftarrow> call_printf ('' '' @ label r @ '':%d '') [Word counter] (Row j (i + 1) (counter + 1));
        Some (p, s) }
      else do { p \<leftarrow> call_printf nl [] (Check j counter); Some (p, s) })"
| "cr_step r arg (Check j counter) s =
     (if j + 1 = num_rows r then do { p \<leftarrow> call_printf (''Done '' @ label r @ ''!'' @ nl) [] Unlock; Some (p, s) }
      else Some (Sleep (j + 1) counter, s))"
| "cr_step r arg Unlock s = Some (Returned (retv r), s\<lparr>cr_lock := kthread_mutex_unlock (cr_lock s)\<rparr>)"
| "cr_step r arg (Returned v) s = None"
| "cr_step r arg (Printing [] p) s = Some (p, s)"
| "cr_step r arg (Printing (c # bs) p) s = do { s1 \<leftarrow> putchar (scast c) s; Some (Printing bs p, s1) }"

text \<open>The addresses of the three functions are the linker's.\<close>

definition create_cr :: "nat \<Rightarrow> string \<Rightarrow> addr \<Rightarrow> u32 \<Rightarrow> 'a kern_scheme \<Rightarrow> 'a kern_scheme option" where
  "create_cr k pre callable arg s = do {
     (tid, s1) \<leftarrow> kthread_create callable arg s;
     if tid = - 1
     then printf (pre @ ''    Could not create thread '' @ [char_of (48 + k)] @ nl) [] s1
     else printf (pre @ ''    Thread '' @ [char_of (48 + k)] @ '' created with tid = %d'' @ nl) [Word tid] s1 }"

definition stateful_cr_register_routines :: "(nat \<Rightarrow> addr) \<Rightarrow> 'a kern_scheme \<Rightarrow> 'a kern_scheme option" where
  "stateful_cr_register_routines fn s = do {
     s1 \<leftarrow> create_cr 1 nl (fn 1) 0xDEAD (s\<lparr>cr_lock := kthread_mutex_init (cr_lock s)\<rparr>);
     s2 \<leftarrow> create_cr 2 '''' (fn 2) 0xBEEF s1;
     create_cr 3 '''' (fn 3) 0xF00F s2 }"

section \<open>The console\<close>

text \<open>Two states with the same console: its variables and the video buffer.\<close>

definition same_console :: "'a tty_scheme \<Rightarrow> 'b tty_scheme \<Rightarrow> bool" where
  "same_console s t \<longleftrightarrow> xpos t = xpos s \<and> ypos t = ypos s \<and> video t = video s \<and> ATTRIBUTE t = ATTRIBUTE s \<and>
     (\<forall>a \<in> screen. mem t a = mem s a)"

lemma same_console_refl [simp]: "same_console s s"
  by (simp add: same_console_def)

lemma same_console_trans: "same_console s t \<Longrightarrow> same_console t u \<Longrightarrow> same_console s u"
  by (simp add: same_console_def)

lemma same_console_ok: "same_console s t \<Longrightarrow> tty_ok s \<Longrightarrow> tty_ok t"
  by (simp add: same_console_def tty_ok_def)

lemma blank_line_same:
  fixes s :: "'a tty_scheme" and t :: "'b tty_scheme"
  shows "blank_line n s = Some s' \<Longrightarrow> same_console s t \<Longrightarrow> \<exists>t'. blank_line n t = Some t' \<and> same_console s' t'"
proof (induction n arbitrary: s t)
  case (Suc n)
  show ?case
  proof (cases "xpos s < COLUMNS")
    case True
    let ?u = "\<lambda>m. m(video s + cell (xpos s) (ypos s) := ch CHR '' '')"
    have run: "video s \<noteq> 0" "blank_line n (s\<lparr>mem := ?u (mem s), xpos := xpos s + 1\<rparr>) = Some s'"
      using Suc.prems(1) True by (auto simp: bind_Some_iff wr8_def split: if_splits)
    have "same_console (s\<lparr>mem := ?u (mem s), xpos := xpos s + 1\<rparr>) (t\<lparr>mem := ?u (mem t), xpos := xpos t + 1\<rparr>)"
      using Suc.prems(2) by (simp add: same_console_def)
    from Suc.IH [OF run(2) this] show ?thesis
      using Suc.prems(2) True run(1) by (auto simp: same_console_def wr8_def)
  qed (use Suc.prems in \<open>auto simp: same_console_def\<close>)
qed simp

lemma newline_same:
  fixes s :: "'a tty_scheme" and t :: "'b tty_scheme"
  assumes "newline s = Some s'" and "same_console s t"
  shows "\<exists>t'. newline t = Some t' \<and> same_console s' t'"
proof -
  obtain s1 where s1: "blank_line (nat (COLUMNS - xpos s)) s = Some s1"
    "s' = s1\<lparr>xpos := 0, ypos := (if ypos s1 + 1 \<ge> LINES then 0 else ypos s1 + 1)\<rparr>"
    using assms(1) by (auto simp: newline_def bind_Some_iff)
  have "xpos t = xpos s" using assms(2) by (simp add: same_console_def)
  then show ?thesis using blank_line_same [OF s1(1) assms(2)] s1(2) by (auto simp: newline_def same_console_def)
qed

lemma putchar_same:
  fixes s :: "'a tty_scheme" and t :: "'b tty_scheme"
  assumes "putchar c s = Some s'" and "same_console s t"
  shows "\<exists>t'. putchar c t = Some t' \<and> same_console s' t'"
proof (cases "c = of_char CHR 0x0A \<or> c = of_char CHR 0x0D")
  case True
  then show ?thesis using assms newline_same by (simp add: putchar_def)
next
  case False
  let ?a = "video s + cell (xpos s) (ypos s)"
  let ?s = "s\<lparr>mem := (mem s)(?a := ucast c, video s + (cell (xpos s) (ypos s) + 1) := ATTRIBUTE s), xpos := xpos s + 1\<rparr>"
  let ?t = "t\<lparr>mem := (mem t)(?a := ucast c, video s + (cell (xpos s) (ypos s) + 1) := ATTRIBUTE s), xpos := xpos t + 1\<rparr>"
  have eq: "xpos t = xpos s" "ypos t = ypos s" "video t = video s" "ATTRIBUTE t = ATTRIBUTE s"
    using assms(2) by (simp_all add: same_console_def)
  have v: "video s \<noteq> 0" using assms(1) False by (auto simp: putchar_def wr8_def split: if_splits)
  have st: "same_console ?s ?t" using assms(2) by (simp add: same_console_def)
  have "putchar c s = (if COLUMNS \<le> xpos ?s then newline ?s else Some ?s)"
    "putchar c t = (if COLUMNS \<le> xpos ?t then newline ?t else Some ?t)"
    using False v eq by (simp_all add: putchar_def wr8_def Let_def)
  then show ?thesis using assms(1) newline_same [OF _ st] st eq(1) by (auto split: if_splits)
qed

text \<open>Putting the characters of a text one by one is what \<open>printf\<close> does.\<close>

fun cr_run :: "routine \<Rightarrow> u32 \<Rightarrow> nat \<Rightarrow> cr_pc \<Rightarrow> 'a kern_scheme \<Rightarrow> (cr_pc \<times> 'a kern_scheme) option" where
  "cr_run r arg 0 p s = Some (p, s)"
| "cr_run r arg (Suc n) p s = do { (p1, s1) \<leftarrow> cr_step r arg p s; cr_run r arg n p1 s1 }"

lemma cr_run_puts: "cr_run r arg (length bs + 1) (Printing bs q) s = map_option (Pair q) (putchars bs s)"
  by (induction bs arbitrary: s) (auto split: bind_splits)

lemma printing_printf:
  assumes "call_printf format args q = Some (Printing bs q)" and "27 \<notin> set (chars format)" and "tty_ok s"
  shows "cr_run r arg (length bs + 1) (Printing bs q) s = map_option (Pair q) (printf format args s)"
proof -
  have "render (\<lambda>a. None) (chars format) args = Some bs" using assms(1) by (auto simp: call_printf_def bind_Some_iff)
  then show ?thesis using printf_loop_render [OF _ assms(2) reads_none assms(3)] by (simp only: cr_run_puts printf_def)
qed

section \<open>Interleaving\<close>

definition cr_routine :: "nat \<Rightarrow> routine" where
  "cr_routine t = (if t = 0 then stateful_cr_thread1 else if t = 1 then stateful_cr_thread2
     else stateful_cr_thread3)"

text \<open>Is the thread between its lock and its unlock?\<close>

fun cr_inside :: "cr_pc \<Rightarrow> bool" where
  "cr_inside (Sleep j c) = True" | "cr_inside (Waiting j c) = True" | "cr_inside (Row j i c) = True"
| "cr_inside (Check j c) = True" | "cr_inside Unlock = True" | "cr_inside (Printing bs p) = cr_inside p"
| "cr_inside p = False"

text \<open>
  The threads' points, the kernel's state, and the characters put on the console since the start, each with the thread and
  whether it was inside the lock. A thread does one step; or another thread puts a character; or
  something runs that keeps the lock and the console. That a step which does not print keeps the console means that the
  scheduler's structures, which \<open>msleep\<close> writes, are not in the video buffer.
\<close>

definition cr_put :: "nat \<Rightarrow> cr_pc \<Rightarrow> (nat \<times> bool \<times> u8) list" where
  "cr_put t p = (case p of Printing (c # bs) q \<Rightarrow> [(t, cr_inside q, c)] | _ \<Rightarrow> [])"

inductive cr_reachable :: "(nat \<Rightarrow> u32) \<Rightarrow> kern \<Rightarrow> (nat \<Rightarrow> cr_pc) \<Rightarrow> kern \<Rightarrow> (nat \<times> bool \<times> u8) list \<Rightarrow> bool" for args s0 where
  start: "tty_ok s0 \<Longrightarrow> cr_lock s0 = kthread_mutex_init f \<Longrightarrow> cr_reachable args s0 (\<lambda>t. Entry) s0 []"
| thread: "cr_reachable args s0 at s l \<Longrightarrow> t < 3 \<Longrightarrow> cr_step (cr_routine t) (args t) (at t) s = Some (p, s') \<Longrightarrow>
    cr_put t (at t) \<noteq> [] \<or> same_console s s' \<Longrightarrow> cr_reachable args s0 (at(t := p)) s' (l @ cr_put t (at t))"
| print: "cr_reachable args s0 at s l \<Longrightarrow> 3 \<le> t \<Longrightarrow> putchar (scast c) s = Some s' \<Longrightarrow>
    cr_reachable args s0 at s' (l @ [(t, False, c)])"
| other: "cr_reachable args s0 at s l \<Longrightarrow> cr_lock s' = cr_lock s \<Longrightarrow> same_console s s' \<Longrightarrow> cr_reachable args s0 at s' l"

section \<open>What the threads say\<close>

text \<open>The text of a thread from its lock to its unlock: its rows, numbered, and the last message.\<close>

definition num_text :: "routine \<Rightarrow> u32 \<Rightarrow> u8 list" where
  "num_text r c = chars ('' '' @ label r @ '':'') @ itoa (ch CHR ''d'') c @ chars '' ''"

fun row_text :: "routine \<Rightarrow> nat \<Rightarrow> u32 \<Rightarrow> u8 list" where
  "row_text r 0 c = chars nl"
| "row_text r (Suc n) c = num_text r c @ row_text r n (c + 1)"

definition done_text :: "routine \<Rightarrow> u8 list" where
  "done_text r = chars (''Done '' @ label r @ ''!'' @ nl)"

fun rows_text :: "routine \<Rightarrow> nat \<Rightarrow> u32 \<Rightarrow> u8 list" where
  "rows_text r 0 c = done_text r"
| "rows_text r (Suc n) c = row_text r (per_row r) c @ rows_text r n (c + of_nat (per_row r))"

definition body_text :: "routine \<Rightarrow> u8 list" where
  "body_text r = rows_text r (num_rows r) 0"

text \<open>What a thread inside the lock has still to say.\<close>

fun cr_rest :: "routine \<Rightarrow> cr_pc \<Rightarrow> u8 list" where
  "cr_rest r (Sleep j c) = rows_text r (num_rows r - j) c"
| "cr_rest r (Waiting j c) = rows_text r (num_rows r - j) c"
| "cr_rest r (Row j i c) = row_text r (per_row r - i) c @ rows_text r (num_rows r - (j + 1)) (c + of_nat (per_row r - i))"
| "cr_rest r (Check j c) = rows_text r (num_rows r - (j + 1)) c"
| "cr_rest r (Printing bs p) = bs @ cr_rest r p"
| "cr_rest r p = []"

text \<open>The counters are in their range.\<close>

fun cr_wf :: "routine \<Rightarrow> cr_pc \<Rightarrow> bool" where
  "cr_wf r (Sleep j c) \<longleftrightarrow> j < num_rows r" | "cr_wf r (Waiting j c) \<longleftrightarrow> j < num_rows r"
| "cr_wf r (Row j i c) \<longleftrightarrow> j < num_rows r \<and> i \<le> per_row r" | "cr_wf r (Check j c) \<longleftrightarrow> j < num_rows r"
| "cr_wf r (Printing bs p) \<longleftrightarrow> cr_wf r p \<and> (\<forall>v. p \<noteq> Returned v) \<and> p \<noteq> Entry" | "cr_wf r p \<longleftrightarrow> True"

lemma routine_cases: "cr_routine t \<in> {stateful_cr_thread1, stateful_cr_thread2, stateful_cr_thread3}"
  by (simp add: cr_routine_def)

lemmas routine_defs = stateful_cr_thread1_def stateful_cr_thread2_def stateful_cr_thread3_def

lemmas fmt_defs = chars_def fmt_spec_def fmt_zero_def fmt_width_def render_conv_def is_num_conv_def padding_def nl_def

lemma num_rows_pos [simp]: "0 < num_rows (cr_routine t)"
  using routine_cases [of t] by (auto simp: routine_defs)

lemma call_printf_texts:
  "call_printf (label (cr_routine t) @ '' Arg = 0x%x'' @ nl) [Word a] p =
     Some (Printing (chars (label (cr_routine t) @ '' Arg = 0x'') @ itoa (ch CHR ''x'') a @ chars nl) p)"
  "call_printf ('' '' @ label (cr_routine t) @ '':%d '') [Word c] p = Some (Printing (num_text (cr_routine t) c) p)"
  "call_printf nl [] p = Some (Printing (chars nl) p)"
  "call_printf (''Done '' @ label (cr_routine t) @ ''!'' @ nl) [] p = Some (Printing (done_text (cr_routine t)) p)"
  using routine_cases [of t]
  by (auto simp: call_printf_def num_text_def done_text_def routine_defs fmt_defs)

lemmas call_printf_simps [simp] = call_printf_texts [unfolded append_Cons append_Nil]

text \<open>What was put on the console inside the lock, by thread.\<close>

definition locked :: "(nat \<times> bool \<times> u8) list \<Rightarrow> (nat \<times> u8) list" where
  "locked l = map (\<lambda>(t, i, c). (t, c)) (filter (\<lambda>(t, i, c). i) l)"

definition said :: "nat \<Rightarrow> u8 list \<Rightarrow> (nat \<times> u8) list" where
  "said t bs = map (Pair t) bs"

definition blocks :: "nat list \<Rightarrow> (nat \<times> u8) list" where
  "blocks order = concat (map (\<lambda>t. said t (body_text (cr_routine t))) order)"

definition put_text :: "cr_pc \<Rightarrow> u8 list" where
  "put_text p = (case p of Printing (c # bs) q \<Rightarrow> [c] | _ \<Rightarrow> [])"

lemma locked_append [simp]: "locked (l @ l') = locked l @ locked l'"
  by (simp add: locked_def)

lemma said_append [simp]: "said t (bs @ cs) = said t bs @ said t cs"
  by (simp add: said_def)

lemma locked_put: "locked (cr_put t p) = (if cr_inside p then said t (put_text p) else [])"
  by (auto simp: locked_def cr_put_def said_def put_text_def split: cr_pc.splits list.splits)

section \<open>What a step keeps\<close>

lemma console_step_lock:
  assumes "console_step s s'"
  shows "cr_lock s' = cr_lock s"
proof -
  have "s' = s\<lparr>mem := mem s', ATTRIBUTE := ATTRIBUTE s', xpos := xpos s', ypos := ypos s'\<rparr>"
    using assms by (simp add: console_step_def)
  then show ?thesis by (cases s, cases s') simp
qed

lemma putchar_kern:
  assumes "putchar c s = Some s'" "tty_ok s"
  shows "tty_ok s'" "cr_lock s' = cr_lock s"
  using console_step_ok console_step_lock putchar_safe [OF assms] by auto

lemma sleep_kern:
  "msleep n s = Some s' \<Longrightarrow> cr_lock s' = cr_lock s"
  "sleep_resume s = Some s' \<Longrightarrow> cr_lock s' = cr_lock s"
  by (auto simp: msleep_def sleep_on_def sleep_resume_def Let_def bind_Some_iff)

text \<open>A thread outside the lock stays there, unless it wins the lock.\<close>

lemma cr_step_out:
  assumes "\<not> cr_inside p" and "p \<noteq> Locking" and "cr_wf r p" and "r = cr_routine t" and "tty_ok s"
    and "cr_step r a p s = Some (p', s')"
  shows "\<not> cr_inside p' \<and> cr_wf r p' \<and> (\<forall>v. p \<noteq> Returned v \<and> p' \<noteq> Returned v) \<and> cr_lock s' = cr_lock s"
proof (cases p)
  case (Printing bs q)
  then show ?thesis using assms by (cases bs) (auto simp: bind_Some_iff dest: putchar_kern)
qed (use assms in auto)

text \<open>A thread inside the lock says the next character of its text or none, and leaves with nothing left to say.\<close>

lemma cr_step_in:
  assumes "cr_inside p" and "p \<noteq> Unlock" and "cr_wf r p" and "r = cr_routine t" and "tty_ok s"
    and step: "cr_step r a p s = Some (p', s')"
  shows "cr_inside p' \<and> cr_wf r p' \<and> (\<forall>v. p' \<noteq> Returned v) \<and> cr_lock s' = cr_lock s \<and>
     cr_rest r p = put_text p @ cr_rest r p'"
proof (cases p)
  case (Printing bs q)
  then show ?thesis using assms by (cases bs) (auto simp: bind_Some_iff put_text_def dest: putchar_kern)
next
  case (Sleep j c)
  then show ?thesis using assms by (auto simp: bind_Some_iff put_text_def dest: sleep_kern)
next
  case (Waiting j c)
  then have "Suc (num_rows r - Suc j) = num_rows r - j" using assms(3) by simp
  then have "cr_rest r (Row j 0 c) = cr_rest r p" using Waiting by (simp flip: rows_text.simps)
  then show ?thesis using Waiting assms
    by (auto simp: bind_Some_iff put_text_def split: if_splits dest: sleep_kern)
next
  case (Row j i c)
  show ?thesis
  proof (cases "i < per_row r")
    case True
    then have "per_row r - i = Suc (per_row r - Suc i)" by simp
    then show ?thesis using Row assms True by (auto simp: put_text_def algebra_simps)
  qed (use Row assms in \<open>auto simp: put_text_def\<close>)
next
  case (Check j c)
  then show ?thesis using assms by (auto simp: put_text_def split: if_splits)
qed (use assms in auto)

section \<open>The invariant\<close>

text \<open>
  What the threads said inside the lock are the whole texts of the threads that have returned, in the order \<open>order\<close>, and
  then what the thread that holds the lock has said so far, if one does.
\<close>

definition cr_free :: "(nat \<Rightarrow> cr_pc) \<Rightarrow> kern \<Rightarrow> (nat \<times> u8) list \<Rightarrow> nat list \<Rightarrow> bool" where
  "cr_free at s l order \<longleftrightarrow> cr_lock s = 1 \<and> (\<forall>u. \<not> cr_inside (at u)) \<and> l = blocks order"

definition cr_held :: "nat \<Rightarrow> (nat \<Rightarrow> cr_pc) \<Rightarrow> kern \<Rightarrow> (nat \<times> u8) list \<Rightarrow> nat list \<Rightarrow> bool" where
  "cr_held t at s l order \<longleftrightarrow> cr_lock s = 0 \<and> (\<forall>u. cr_inside (at u) \<longleftrightarrow> u = t) \<and>
     (\<exists>out. out @ cr_rest (cr_routine t) (at t) = body_text (cr_routine t) \<and> l = blocks order @ said t out)"

definition returned :: "(nat \<Rightarrow> cr_pc) \<Rightarrow> nat set" where
  "returned at = {u. \<exists>v. at u = Returned v}"

definition cr_inv :: "(nat \<Rightarrow> cr_pc) \<Rightarrow> kern \<Rightarrow> (nat \<times> u8) list \<Rightarrow> bool" where
  "cr_inv at s l \<longleftrightarrow> (\<forall>u. cr_wf (cr_routine u) (at u)) \<and>
     (\<exists>order. distinct order \<and> set order = returned at \<and> (cr_free at s l order \<or> (\<exists>t. cr_held t at s l order)))"

lemma returned_upd: "(\<And>v. p \<noteq> Returned v) \<Longrightarrow> (\<And>v. at t \<noteq> Returned v) \<Longrightarrow> returned (at(t := p)) = returned at"
  by (auto simp: returned_def)

lemma cr_inv_other: "cr_inv at s l \<Longrightarrow> cr_lock s' = cr_lock s \<Longrightarrow> cr_inv at s' l"
  by (simp add: cr_inv_def cr_free_def cr_held_def)

text \<open>A step of a thread that does not hold the lock.\<close>

lemma cr_inv_outside:
  assumes inv: "cr_inv at s l" and ok: "tty_ok s" and out: "\<not> cr_inside (at t)"
    and step: "cr_step (cr_routine t) a (at t) s = Some (p, s')"
  shows "cr_inv (at(t := p)) s' l"
proof -
  obtain order where wf: "\<forall>u. cr_wf (cr_routine u) (at u)" and o: "distinct order" "set order = returned at"
    and st: "cr_free at s l order \<or> (\<exists>t. cr_held t at s l order)"
    using inv by (auto simp: cr_inv_def)
  show ?thesis
  proof (cases "at t = Locking \<and> cr_free at s l order")
    case True
    then have p: "p = Sleep 0 0" "s' = s\<lparr>cr_lock := 0\<rparr>" using step by (auto simp: cr_free_def)
    then have "cr_held t (at(t := p)) s' l order"
      using True by (auto simp: cr_free_def cr_held_def body_text_def said_def)
    moreover have "returned (at(t := p)) = set order" using returned_upd [of p at t] True p o(2) by auto
    ultimately show ?thesis using o(1) wf p unfolding cr_inv_def by auto
  next
    case False
    have "\<not> cr_inside p \<and> cr_wf (cr_routine t) p \<and> (\<forall>v. at t \<noteq> Returned v \<and> p \<noteq> Returned v) \<and> cr_lock s' = cr_lock s"
    proof (cases "at t = Locking")
      case True
      then have "cr_lock s = 0" using False st by (auto simp: cr_held_def)
      then show ?thesis using True step by auto
    qed (use cr_step_out [OF out _ _ refl ok step] wf in blast)
    moreover have "cr_held u (at(t := p)) s' l order" if "cr_held u at s l order" for u
      using that out calculation by (auto simp: cr_held_def)
    moreover have "cr_free (at(t := p)) s' l order" if "cr_free at s l order"
      using that calculation by (auto simp: cr_free_def)
    moreover have "returned (at(t := p)) = set order" using returned_upd [of p at t] calculation(1) o(2) by auto
    ultimately show ?thesis using st o(1) wf unfolding cr_inv_def by auto
  qed
qed

text \<open>A step of the thread that holds the lock.\<close>

lemma cr_inv_inside:
  assumes inv: "cr_inv at s l" and ok: "tty_ok s" and ins: "cr_inside (at t)"
    and step: "cr_step (cr_routine t) a (at t) s = Some (p, s')"
  shows "cr_inv (at(t := p)) s' (l @ said t (put_text (at t)))"
proof -
  obtain order where wf: "\<forall>u. cr_wf (cr_routine u) (at u)" and o: "distinct order" "set order = returned at"
    and h: "cr_held t at s l order"
  proof -
    have "\<not> cr_free at s l order" for order using ins by (auto simp: cr_free_def)
    moreover have "u = t" if "cr_held u at s l order" for u order using that ins by (simp add: cr_held_def)
    ultimately show thesis using inv that unfolding cr_inv_def by metis
  qed
  obtain out where tx: "out @ cr_rest (cr_routine t) (at t) = body_text (cr_routine t)" "l = blocks order @ said t out"
    using h by (auto simp: cr_held_def)
  show ?thesis
  proof (cases "at t = Unlock")
    case True
    then have p: "p = Returned (retv (cr_routine t))" "cr_lock s' = 1" using step by (auto simp: kthread_mutex_unlock_def)
    have "cr_free (at(t := p)) s' (l @ said t (put_text (at t))) (order @ [t])"
      using h p tx True by (auto simp: cr_free_def cr_held_def blocks_def put_text_def said_def)
    moreover have "set (order @ [t]) = returned (at(t := p))" using o p by (auto simp: returned_def)
    moreover have "t \<notin> set order" using o True by (simp add: returned_def)
    ultimately show ?thesis using o(1) wf p unfolding cr_inv_def by (intro conjI exI [of _ "order @ [t]"]) auto
  next
    case False
    have p: "cr_inside p" "cr_wf (cr_routine t) p" "\<forall>v. p \<noteq> Returned v" "cr_lock s' = cr_lock s"
      "cr_rest (cr_routine t) (at t) = put_text (at t) @ cr_rest (cr_routine t) p"
      using cr_step_in [OF ins False _ refl ok step] wf by auto
    have "cr_held t (at(t := p)) s' (l @ said t (put_text (at t))) order"
      using h p tx by (auto simp: cr_held_def intro: exI [of _ "out @ put_text (at t)"])
    moreover have "returned (at(t := p)) = set order" using returned_upd [of p at t] p(3) o(2) ins by fastforce
    ultimately show ?thesis using o(1) wf p(2) unfolding cr_inv_def by auto
  qed
qed

text \<open>The console is what putting the characters, in this order, makes of it.\<close>

definition cr_shown :: "kern \<Rightarrow> kern \<Rightarrow> (nat \<times> bool \<times> u8) list \<Rightarrow> bool" where
  "cr_shown s0 s l \<longleftrightarrow> (\<exists>s1. putchars (map (\<lambda>(t, i, c). c) l) s0 = Some s1 \<and> same_console s1 s)"

lemma cr_shown_put:
  assumes "cr_shown s0 s l" and "putchar (scast c) s = Some s'" and "tty_ok s"
  shows "cr_shown s0 s' (l @ [(t, i, c)])"
proof -
  obtain s1 where s1: "putchars (map (\<lambda>(t, i, c). c) l) s0 = Some s1" "same_console s1 s"
    using assms(1) by (auto simp: cr_shown_def)
  have "same_console s s1" using s1(2) by (simp add: same_console_def)
  from putchar_same [OF assms(2) this] obtain t' where "putchar (scast c) s1 = Some t'" "same_console s' t'" by blast
  then show ?thesis using s1(1) by (auto simp: cr_shown_def putchars_append same_console_def)
qed

lemma cr_shown_same: "cr_shown s0 s l \<Longrightarrow> same_console s s' \<Longrightarrow> cr_shown s0 s' l"
  using same_console_trans by (auto simp: cr_shown_def)

lemma cr_reachable_inv:
  "cr_reachable args s0 at s l \<Longrightarrow> tty_ok s \<and> cr_inv at s (locked l) \<and> cr_shown s0 s l"
proof (induction rule: cr_reachable.induct)
  case (start f)
  then have "cr_free (\<lambda>t. Entry) s0 (locked []) []"
    by (simp add: cr_free_def blocks_def kthread_mutex_init_def locked_def)
  with start show ?case by (auto simp: cr_inv_def cr_shown_def returned_def)
next
  case (thread at s l t p s')
  have inv: "cr_inv (at(t := p)) s' (locked (l @ cr_put t (at t)))"
    using thread cr_inv_inside [of at s "locked l" t] cr_inv_outside [of at s "locked l" t]
    by (auto simp: locked_put)
  show ?case
  proof (cases "cr_put t (at t) = []")
    case True
    then have "same_console s s'" using thread.hyps by simp
    then show ?thesis using thread.IH inv cr_shown_same same_console_ok unfolding True append_Nil2 by blast
  next
    case False
    then obtain c bs q where q: "at t = Printing (c # bs) q" "cr_put t (at t) = [(t, cr_inside q, c)]"
      by (auto simp: cr_put_def split: cr_pc.splits list.splits)
    then have "putchar (scast c) s = Some s'" using thread.hyps by (auto simp: bind_Some_iff)
    then show ?thesis using thread.IH inv cr_shown_put putchar_kern(1) unfolding q(2) by blast
  qed
next
  case (print at s l t c s')
  have "locked (l @ [(t, False, c)]) = locked l" by (simp add: locked_def)
  moreover have "cr_inv at s' (locked l)" using print cr_inv_other putchar_kern(2) by blast
  ultimately show ?case using print.hyps print.IH cr_shown_put putchar_kern(1) by metis
next
  case (other at s l s')
  then show ?case using cr_inv_other cr_shown_same same_console_ok by blast
qed

section \<open>Properties\<close>

text \<open>
  C19: let the three threads run in any order, losing the processor between any two characters, with other threads printing
  and anything else in between that keeps their lock and the console. Then at most one thread is between its lock and unlock; the characters put
  there are the whole texts (numbered rows, Done message) of the threads that have returned, one after the other, then the start
  of the text of the thread that holds the lock, the rest of which it has still to print; and the
  console is what all characters put, in their order, make of it. (The Arg lines are printed
  outside the lock and may fall into a row.)
\<close>

theorem cr_rows_contiguous:
  assumes "cr_reachable args s0 at s l"
  shows "(\<forall>t u. cr_inside (at t) \<and> cr_inside (at u) \<longrightarrow> t = u) \<and>
     (\<exists>order. distinct order \<and> set order = {u. \<exists>v. at u = Returned v} \<and>
       (if \<exists>t. cr_inside (at t)
        then \<exists>t out. cr_inside (at t) \<and> out @ cr_rest (cr_routine t) (at t) = body_text (cr_routine t) \<and>
          locked l = blocks order @ said t out
        else locked l = blocks order)) \<and>
     (\<exists>s1. putchars (map (\<lambda>(t, i, c). c) l) s0 = Some s1 \<and> same_console s1 s)"
proof -
  note inv = cr_reachable_inv [OF assms]
  then obtain order where o: "distinct order" "set order = returned at"
    and st: "cr_free at s (locked l) order \<or> (\<exists>t. cr_held t at s (locked l) order)"
    by (auto simp: cr_inv_def)
  have "if \<exists>t. cr_inside (at t)
        then \<exists>t out. cr_inside (at t) \<and> out @ cr_rest (cr_routine t) (at t) = body_text (cr_routine t) \<and>
          locked l = blocks order @ said t out
        else locked l = blocks order" using st by (auto simp: cr_free_def cr_held_def)
  moreover have "\<forall>t u. cr_inside (at t) \<and> cr_inside (at u) \<longrightarrow> t = u" using st by (auto simp: cr_free_def cr_held_def)
  ultimately show ?thesis using o inv unfolding returned_def cr_shown_def by blast
qed

definition demo_kern :: kern where
  "demo_kern = intr.extend demo_intr \<lparr>cr_lock = 1\<rparr>"

lemma demo_kern_ok: "tty_ok demo_kern" "cr_lock demo_kern = 1"
  by (simp_all add: demo_kern_def demo_intr_def intr.defs tty_ok_def)

text \<open>
  The first thread prints its first line, takes the lock, and sleeps; when it has woken it prints the first characters of
  its row.
\<close>

lemma cr_puts_reachable:
  assumes "cr_reachable args s0 at s l" and "t < 3" and "at t = Printing bs q"
  shows "\<exists>s'. cr_reachable args s0 (at(t := q)) s' (l @ map (\<lambda>c. (t, cr_inside q, c)) bs) \<and> console_step s s'"
  using assms
proof (induction bs arbitrary: at s l)
  case Nil
  then have "cr_step (cr_routine t) (args t) (at t) s = Some (q, s)" "cr_put t (at t) = []" by (simp_all add: cr_put_def)
  then have "cr_reachable args s0 (at(t := q)) s (l @ [])" using cr_reachable.thread [OF Nil(1,2)] by fastforce
  then show ?case using cr_reachable_inv [OF Nil(1)] console_step_refl unfolding list.map by blast
next
  case (Cons c bs)
  have ok: "tty_ok s" using cr_reachable_inv [OF Cons(2)] by simp
  then obtain s1 where s1: "putchar (scast c) s = Some s1" "console_step s s1" using putchar_console by blast
  have p: "cr_put t (at t) = [(t, cr_inside q, c)]" using Cons.prems(3) by (simp add: cr_put_def)
  have "cr_step (cr_routine t) (args t) (at t) s = Some (Printing bs q, s1)" using Cons.prems(3) s1 by simp
  from cr_reachable.thread [OF Cons.prems(1,2) this] p
  have "cr_reachable args s0 (at(t := Printing bs q)) s1 (l @ [(t, cr_inside q, c)])" by simp
  from Cons.IH [OF this Cons.prems(2) fun_upd_same] obtain s' where
    "cr_reachable args s0 (at(t := q)) s' (l @ map (\<lambda>c. (t, cr_inside q, c)) (c # bs))" "console_step s1 s'"
    unfolding fun_upd_upd append_assoc append_Cons append_Nil list.map by blast
  then show ?case using console_step_trans [OF s1(2)] by blast
qed

lemma cr_quiet:
  assumes "cr_reachable args s0 at s l" and "t < 3" and "cr_step (cr_routine t) (args t) (at t) s = Some (p, s')"
    and "same_console s s'" and "put_text (at t) = []"
  shows "cr_reachable args s0 (at(t := p)) s' l"
proof -
  have "cr_put t (at t) = []" using assms(5) by (auto simp: cr_put_def put_text_def split: cr_pc.splits list.splits)
  then show ?thesis using cr_reachable.thread [OF assms(1-3)] assms(4) by simp
qed

definition demo_task :: "kern \<Rightarrow> kern" where
  "demo_task s = s\<lparr>current_task := 0x2000, runq_head := 0, waitq_head := 0, global_sched_lock := 1\<rparr>"

lemma below_screen: "a \<in> screen \<Longrightarrow> unat b + 3 < 0xB8000 \<Longrightarrow> st32 m b v a = m a"
  by (rule st32_apart) (simp add: screen_def zone_def apart_def)

lemma demo_reaches:
  "\<exists>s l. cr_reachable (\<lambda>t. 7) demo_kern ((\<lambda>t. Entry)(0 := Row 0 1 1)) s l \<and> locked l = said 0 (chars '' <1>:0 '')"
proof -
  let ?R = "cr_reachable (\<lambda>t. 7) demo_kern" and ?at = "\<lambda>p. (\<lambda>t. Entry)(0 := p)"
  have "?R (\<lambda>t. Entry) demo_kern []"
    by (rule cr_reachable.start [where f = 0]) (simp_all add: demo_kern_ok kthread_mutex_init_def)
  from cr_quiet [OF this, of 0] obtain bs where "?R (?at (Printing bs Locking)) demo_kern []"
    by (auto simp: put_text_def)
  from cr_puts_reachable [OF this, of 0] obtain s1 l where r1: "?R (?at Locking) s1 l" "console_step demo_kern s1" "locked l = []"
    by (auto simp: locked_def comp_def)
  have "cr_lock s1 = 1" using console_step_lock [OF r1(2)] demo_kern_ok by simp
  then have r2: "?R (?at (Sleep 0 0)) (s1\<lparr>cr_lock := 0\<rparr>) l" using cr_quiet [OF r1(1), of 0] by (auto simp: put_text_def same_console_def)
  define s2 where "s2 = demo_task (s1\<lparr>cr_lock := 0\<rparr>)"
  have r3: "?R (?at (Sleep 0 0)) s2 l" by (rule cr_reachable.other [OF r2]) (simp_all add: s2_def demo_task_def same_console_def)
  obtain s3 where s3: "msleep 250 s2 = Some s3" "same_console s2 s3" "current_task s3 = 0x2000" "cr_lock s3 = cr_lock s2"
    by (simp add: s2_def demo_task_def msleep_def sleep_on_def splice_outq_def splice_inq_def mem_simps below_screen same_console_def)
  then have r4: "?R (?at (Waiting 0 0)) s3 l"
    using cr_quiet [OF r3, of 0] by (simp add: cr_routine_def stateful_cr_thread1_def put_text_def)
  define s4 where "s4 = s3\<lparr>mem := st32 (mem s3) (0x2000 + t_sleep_time) 0\<rparr>"
  have r5: "?R (?at (Waiting 0 0)) s4 l"
    by (rule cr_reachable.other [OF r4]) (simp_all add: s4_def same_console_def below_screen)
  obtain s5 where s5: "cr_step (cr_routine 0) 7 (Waiting 0 0) s4 = Some (Row 0 0 0, s5)" "same_console s4 s5"
    using s3(3) by (simp add: s4_def sleep_waiting_def sleep_resume_def same_console_def below_screen mem_simps)
  then have r6: "?R (?at (Row 0 0 0)) s5 l" using cr_quiet [OF r5, of 0] by (simp add: put_text_def)
  have "cr_step (cr_routine 0) 7 (Row 0 0 0) s5 = Some (Printing (chars '' <1>:0 '') (Row 0 1 1), s5)"
  proof -
    have "num_text (cr_routine 0) 0 = chars '' <1>:0 ''" by code_simp
    moreover have "0 < per_row (cr_routine 0)" by (simp add: cr_routine_def stateful_cr_thread1_def)
    ultimately show ?thesis by simp
  qed
  then have "?R (?at (Printing (chars '' <1>:0 '') (Row 0 1 1))) s5 l"
    using cr_quiet [OF r6, of 0] by (simp add: put_text_def del: cr_step.simps)
  from cr_puts_reachable [OF this, of 0] obtain s6 where
    "?R (?at (Row 0 1 1)) s6 (l @ map (\<lambda>c. (0, True, c)) (chars '' <1>:0 ''))" by auto
  moreover have "locked (l @ map (\<lambda>c. (0, True, c)) bs) = said 0 bs" for bs
    using r1(3) by (simp add: locked_def said_def comp_def)
  ultimately show ?thesis by blast
qed

text \<open>The first number of the first row is on the console, and the rest of the row is still to come.\<close>

theorem cr_rows_contiguous_witness:
  "\<exists>at s l. cr_reachable (\<lambda>t. 7) demo_kern at s l \<and> cr_inside (at 0) \<and> (\<forall>u. cr_inside (at u) \<longrightarrow> u = 0) \<and>
     chars '' <1>:0 '' @ cr_rest (cr_routine 0) (at 0) = body_text (cr_routine 0)"
proof -
  let ?at = "(\<lambda>t. Entry)(0 := Row 0 1 1)"
  obtain s l where r: "cr_reachable (\<lambda>t. 7) demo_kern ?at s l" and l: "locked l = said 0 (chars '' <1>:0 '')"
    using demo_reaches by blast
  have i: "cr_inside (?at 0)" and u: "\<forall>u. cr_inside (?at u) \<longrightarrow> u = 0" by auto
  have ex: "\<exists>t. cr_inside (?at t)" using i by blast
  obtain order t out where o: "set order = {u. \<exists>v. ?at u = Returned v}" and t: "cr_inside (?at t)"
    and out: "out @ cr_rest (cr_routine t) (?at t) = body_text (cr_routine t)" "locked l = blocks order @ said t out"
    using cr_rows_contiguous [OF r] unfolding if_P [OF ex] by blast
  have "{u. \<exists>v. ?at u = Returned v} = {}" by auto
  with o have "order = []" by (metis set_empty)
  moreover have t0: "t = 0" using t u by blast
  ultimately have "locked l = said 0 out" using out by (simp add: blocks_def)
  then have "out = chars '' <1>:0 ''" using l by (simp add: said_def inj_map_eq_map inj_def)
  with r i u out(1) t0 show ?thesis by metis
qed

end
