(* ===== verification/Kernel.thy ===== *)
theory Kernel
  imports Stateful_Cr
begin

text \<open>
  Booting, src/MemeOS/src/kernel.c: \<open>kmain\<close> checks the boot loader's magic number, prints what the
  multiboot information says, and starts the components in order: interrupt table, timer,
  interrupt controllers, allocator, scheduler, and the first thread, whose function is \<open>init\<close>.
  Offsets into the multiboot structures are those of include/sys/multiboot.h.

  \<open>kmain\<close> either returns to the loader or ends in the loop of \<open>noploop\<close> with interrupts enabled;
  \<open>boot\<close> says which. \<open>init\<close> is cut at its \<open>msleep\<close>, where it loses the processor.
\<close>

section \<open>Multiboot information\<close>

definition MULTIBOOT_BOOTLOADER_MAGIC :: u32 where "MULTIBOOT_BOOTLOADER_MAGIC = 0x2BADB002"

abbreviation (input) mb_flags :: u32 where "mb_flags \<equiv> 0"
abbreviation (input) mb_mem_lower :: u32 where "mb_mem_lower \<equiv> 4"
abbreviation (input) mb_mem_upper :: u32 where "mb_mem_upper \<equiv> 8"
abbreviation (input) mb_boot_device :: u32 where "mb_boot_device \<equiv> 12"
abbreviation (input) mb_cmdline :: u32 where "mb_cmdline \<equiv> 16"
abbreviation (input) mb_mods_count :: u32 where "mb_mods_count \<equiv> 20"
abbreviation (input) mb_mods_addr :: u32 where "mb_mods_addr \<equiv> 24"
abbreviation (input) mb_u :: u32 where "mb_u \<equiv> 28"
abbreviation (input) mb_mmap_length :: u32 where "mb_mmap_length \<equiv> 44"
abbreviation (input) mb_mmap_addr :: u32 where "mb_mmap_addr \<equiv> 48"

definition check_flag :: "addr \<Rightarrow> nat \<Rightarrow> 'a machine_scheme \<Rightarrow> bool option" where
  "check_flag mbi n s = do { f \<leftarrow> rd32 (mem s) mbi mb_flags; Some (f AND push_bit n 1 \<noteq> 0) }"

text \<open>A statement that runs under a condition which itself reads memory.\<close>

definition guarded :: "bool option \<Rightarrow> ('a \<Rightarrow> 'a option) \<Rightarrow> 'a \<Rightarrow> 'a option" where
  "guarded b f s = do { x \<leftarrow> b; if x then f s else Some s }"

text \<open>A \<open>printf\<close> whose arguments are words of the structure at \<open>p\<close>, at the given offsets.\<close>

definition print_words :: "string \<Rightarrow> addr \<Rightarrow> u32 list \<Rightarrow> 'a tty_scheme \<Rightarrow> 'a tty_scheme option" where
  "print_words format p offs s =
     (if p = 0 \<and> offs \<noteq> [] then None
      else printf format (map (\<lambda>off. Word (ld32 (mem s) (p + off))) offs) s)"

partial_function (option) print_mods :: "addr \<Rightarrow> addr \<Rightarrow> u32 \<Rightarrow> 'a tty_scheme \<Rightarrow> 'a tty_scheme option" where
  "print_mods mbi md i s = do {
     n \<leftarrow> rd32 (mem s) mbi mb_mods_count;
     if i < n then do {
       s1 \<leftarrow> print_words ('' mod_start = 0x%x, mod_end = 0x%x, cmdline = %s'' @ nl) md [0, 4, 8] s;
       print_mods mbi (md + 16) (i + 1) s1 }
     else Some s }"

text \<open>The two words of \<open>addr\<close> are at 8 and 4 of an entry, those of \<open>len\<close> at 16 and 12.\<close>

partial_function (option) print_mmap :: "addr \<Rightarrow> addr \<Rightarrow> 'a tty_scheme \<Rightarrow> 'a tty_scheme option" where
  "print_mmap mbi mmap s = do {
     a \<leftarrow> rd32 (mem s) mbi mb_mmap_addr;
     n \<leftarrow> rd32 (mem s) mbi mb_mmap_length;
     if mmap < a + n then do {
       s1 \<leftarrow> print_words ('' size = 0x%x, base = 0x%x%08x, length = 0x%x%08x, type = 0x%x'' @ nl)
         mmap [0, 8, 4, 16, 12, 20] s;
       sz \<leftarrow> rd32 (mem s1) mmap 0;
       print_mmap mbi (mmap + sz + 4) s1 }
     else Some s }"

definition multiboot_flagscheck :: "addr \<Rightarrow> 'a tty_scheme \<Rightarrow> 'a tty_scheme option" where
  "multiboot_flagscheck mbi s = do {
     s0 \<leftarrow> print_words (''flags = 0x%x'' @ nl) mbi [mb_flags] s;
     s1 \<leftarrow> guarded (check_flag mbi 0 s0)
       (print_words (''Total System Memory: Lower = %uKB, Upper = %uKB'' @ nl) mbi [mb_mem_lower, mb_mem_upper]) s0;
     s2 \<leftarrow> guarded (check_flag mbi 1 s1) (print_words (''boot_device = 0x%x'' @ nl) mbi [mb_boot_device]) s1;
     s3 \<leftarrow> guarded (check_flag mbi 2 s2) (print_words (''cmdline = %s'' @ nl) mbi [mb_cmdline]) s2;
     s4 \<leftarrow> guarded (check_flag mbi 3 s3) (\<lambda>s. do {
       s' \<leftarrow> print_words (''mods_count = %d, mods_addr = 0x%x'' @ nl) mbi [mb_mods_count, mb_mods_addr] s;
       md \<leftarrow> rd32 (mem s') mbi mb_mods_addr;
       print_mods mbi md 0 s' }) s3;
     f4 \<leftarrow> check_flag mbi 4 s4;
     f5 \<leftarrow> check_flag mbi 5 s4;
     if f4 \<and> f5 then printf (''Both bits 4 and 5 are set.'' @ nl) [] s4
     else do {
       s5 \<leftarrow> guarded (check_flag mbi 4 s4)
         (print_words (''multiboot_aout_symbol_table: tabsize = 0x%0x, strsize = 0x%x, addr = 0x%x'' @ nl)
           mbi [mb_u, mb_u + 4, mb_u + 8]) s4;
       s6 \<leftarrow> guarded (check_flag mbi 5 s5)
         (print_words (''multiboot_elf_sec: num = %u, size = 0x%x, addr = 0x%x, shndx = 0x%x'' @ nl)
           mbi [mb_u, mb_u + 4, mb_u + 8, mb_u + 12]) s5;
       guarded (check_flag mbi 6 s6) (\<lambda>s. do {
         s' \<leftarrow> print_words (''mmap_addr = 0x%x, mmap_length = 0x%x'' @ nl) mbi [mb_mmap_addr, mb_mmap_length] s;
         a \<leftarrow> rd32 (mem s') mbi mb_mmap_addr;
         print_mmap mbi a s' }) s6 } }"

section \<open>The banner\<close>

definition COLOR_RESET :: string where "COLOR_RESET = esc @ ''[40;97m''"
definition FG_COLOR_BLACK :: string where "FG_COLOR_BLACK = esc @ ''[30m''"

text \<open>The block characters of the banner: lower half (octal 334), full (333), upper half (337).\<close>

definition glyph :: "char \<Rightarrow> char" where
  "glyph c = (if c = CHR ''_'' then CHR 0xDC else if c = CHR ''#'' then CHR 0xDB
     else if c = CHR ''^'' then CHR 0xDF else c)"

definition banner :: "(string \<times> string) list" where
  "banner =
     [(''[107m'', ''                                                                               ''),
      (''[41m'', ''    ____###____   _#########^  ____###____   _#########^ _######_    _#######  ''),
      (''[101m'', ''  _##^^^###^^^##_ ###    ### _##^^^###^^^##_ ###    ### ###    ###  ###   ###  ''),
      (''[42m'', ''  ###   ###   ### ###    #^  ###   ###   ### ###    #^  ###    ###  ###    #^  ''),
      (''[102m'', ''  ###   ###   ###_###___     ###   ###   ###_###___     ###    ###  ###        ''),
      (''[103m'', ''  ###   ###   ###^###^^^     ###   ###   ###^###^^^     ###    ### ##########  ''),
      (''[46m'', ''  ###   ###   ### ###    #_  ###   ###   ### ###    #_  ###    ###         ##  ''),
      (''[104m'', ''  ###   ###   ### ###    ### ###   ###   ### ###    ### ###    ###   _#    ##  ''),
      (''[44m'', ''   ^#   ###   #^  ##########  ^#   ###   #^  ##########  ^######^  _########^  ''),
      (''[107m'', ''                                                                               '')]"

fun print_rows :: "(string \<times> string) list \<Rightarrow> 'a tty_scheme \<Rightarrow> 'a tty_scheme option" where
  "print_rows [] s = Some s"
| "print_rows ((colour, row) # rows) s = do {
     s1 \<leftarrow> printf (esc @ colour @ map glyph row @ nl) [] s;
     print_rows rows s1 }"

definition print_banner :: "'a tty_scheme \<Rightarrow> 'a tty_scheme option" where
  "print_banner s = do {
     s1 \<leftarrow> printf FG_COLOR_BLACK [] s;
     s2 \<leftarrow> print_rows banner s1;
     printf COLOR_RESET [] s2 }"

section \<open>Boot\<close>

partial_function (option) noploop :: "'a \<Rightarrow> 'a option" where
  "noploop s = noploop s"

datatype boot = Rejected | Started

text \<open>
  The external addresses: the interrupt entry points, the function \<open>init\<close>, the three thread
  functions. \<open>dev\<close> is what the ports read.
\<close>

definition kmain :: "device \<Rightarrow> (isr \<Rightarrow> addr) \<Rightarrow> addr \<Rightarrow> u32 \<Rightarrow> addr \<Rightarrow>
    'a kern_scheme \<Rightarrow> (boot \<times> 'a kern_scheme) option" where
  "kmain dev entry init_fn magic mbi s = do {
     s0 \<leftarrow> cls s;
     if magic \<noteq> MULTIBOOT_BOOTLOADER_MAGIC then do {
       s1 \<leftarrow> printf (''Invalid magic number: 0x%x'' @ nl) [Word magic] s0;
       Some (Rejected, s1) }
     else do {
       s1 \<leftarrow> multiboot_flagscheck mbi s0;
       s2 \<leftarrow> cls s1;
       s3 \<leftarrow> printf (COLOR_RESET @ ''Multiboot flags check done.'' @ nl) [] s2;
       s4 \<leftarrow> printf ''IDT setup ... '' [] s3;
       s5 \<leftarrow> init_idt entry s4;
       s6 \<leftarrow> printf (''done.'' @ nl) [] s5;
       s7 \<leftarrow> printf ''PIT init ... '' [] s6;
       s8 \<leftarrow> printf (''done.'' @ nl) [] (init_pit s7);
       s9 \<leftarrow> printf ''PIC init ... '' [] s8;
       s10 \<leftarrow> printf (''done.'' @ nl) [] (init_pic dev s9);
       s11 \<leftarrow> printf ''kernel malloc init ... '' [] s10;
       s12 \<leftarrow> init_kmalloc mbi s11;
       s13 \<leftarrow> printf (''done.'' @ nl) [] s12;
       s14 \<leftarrow> printf ''sched init ... '' [] s13;
       s15 \<leftarrow> init_sched s14;
       s16 \<leftarrow> printf (''done.'' @ nl) [] s15;
       (tid, s17) \<leftarrow> sched_register_thread init_fn 0 s16;
       Some (Started, sti s17) } }"

definition init_to_sleep :: "(nat \<Rightarrow> addr) \<Rightarrow> 'a kern_scheme \<Rightarrow> 'a kern_scheme option" where
  "init_to_sleep fn s = do {
     s1 \<leftarrow> cls s;
     s2 \<leftarrow> printf ''registering stateful coroutines ... '' [] s1;
     s3 \<leftarrow> stateful_cr_register_routines fn s2;
     s4 \<leftarrow> printf (''done.'' @ nl) [] s3;
     s5 \<leftarrow> printf (''starting preemptive scheduler ...'' @ nl) [] s4;
     msleep 9000 s5 }"

text \<open>The rest of \<open>init\<close>, with its return value.\<close>

definition init_after_sleep :: "'a kern_scheme \<Rightarrow> (addr \<times> 'a kern_scheme) option" where
  "init_after_sleep s = do {
     s1 \<leftarrow> cls s;
     s2 \<leftarrow> printf (concat (replicate 7 nl)) [] s1;
     s3 \<leftarrow> print_banner s2;
     Some (0, s3) }"

section \<open>Rejection\<close>

text \<open>
  Whatever the state, a boot with the wrong magic number returns to the loader with a message
  on a cleared screen: the console's variables and the video buffer are all that changes, no
  component is started and interrupts stay as they were.
\<close>

lemma kmain_rejects:
  assumes "magic \<noteq> 0x2BADB002"
  shows "\<exists>s'. kmain dev entry init_fn magic mbi s = Some (Rejected, s') \<and> tty_ok s' \<and>
     eq_out screen (mem s) (mem s') \<and>
     s' = s\<lparr>mem := mem s', ATTRIBUTE := ATTRIBUTE s', xpos := xpos s', ypos := ypos s', video := VIDEO\<rparr>"
proof -
  obtain s0 where s0: "cls s = Some s0" "tty_ok s0" "\<forall>a. mem s0 a = (if a \<in> screen then 0 else mem s a)"
    "s0 = s\<lparr>mem := mem s0, video := VIDEO, xpos := 0, ypos := 0\<rparr>"
    using cls_screen [of s] by blast
  have "fmt_ok (chars (''Invalid magic number: 0x%x'' @ nl)) [Word magic]"
    by (simp add: chars_def nl_def fmt_spec_def fmt_zero_def fmt_width_def conv_ok_def is_num_conv_def)
  then obtain s1 where s1: "printf (''Invalid magic number: 0x%x'' @ nl) [Word magic] s0 = Some s1"
    "console_step s0 s1" using printf_returns s0(2) by blast
  have "eq_out screen (mem s) (mem s0)" using s0(3) by (simp add: eq_out_def)
  then have "eq_out screen (mem s) (mem s1)"
    using s1(2) by (auto simp: console_step_def intro: eq_out_trans)
  moreover have "s1 = s\<lparr>mem := mem s1, ATTRIBUTE := ATTRIBUTE s1, xpos := xpos s1, ypos := ypos s1, video := VIDEO\<rparr>"
    using s0(4) s1(2) unfolding console_step_def by (cases s, cases s0, cases s1) simp
  ultimately show ?thesis using s0(1) s1 assms
    by (auto simp: kmain_def MULTIBOOT_BOOTLOADER_MAGIC_def console_step_def)
qed

end
