(* ===== verification/Kmalloc_Proofs.thy ===== *)
theory Kmalloc_Proofs
  imports Kmalloc
begin

text \<open>
  The allocator meets its specification: the header list in memory refines the block list of
  \<open>Kmalloc\<close>, operation by operation. The locale \<open>allocator\<close> is the contract the scheduler and
  the file system rely on (live regions, fresh allocations, release, writes into live regions);
  \<open>kmalloc\<close> and \<open>kfree\<close> interpret it.
\<close>

section \<open>Refinement\<close>

lemma span_simps [simp]:
  "span [] = 0" "span (b # bs) = 16 + fst b + span bs" "span (xs @ ys) = span xs + span ys"
  by (simp_all add: span_def)

lemma seg_append:
  "seg m pr pos (xs @ ys) nx \<longleftrightarrow>
     seg m pr pos xs (if ys = [] then nx else pos + span xs) \<and>
     seg m (if xs = [] then pr else pos + span (butlast xs)) (pos + span xs) ys nx"
proof (induction xs arbitrary: pr pos)
  case Nil
  then show ?case by simp
next
  case (Cons b bs)
  obtain sz fr where "b = (sz, fr)" by (cases b)
  with Cons [of pos "pos + 16 + sz"] show ?case
    by (auto simp: add.assoc)
qed

lemma seg_frame:
  assumes "eq_out A m m'" and "\<And>a. a \<in> A \<Longrightarrow> unat a < pos \<or> pos + span bs \<le> unat a"
    and "pos + span bs \<le> two32"
  shows "seg m' pr pos bs nx = seg m pr pos bs nx"
  using assms(2,3)
proof (induction bs arbitrary: pr pos)
  case Nil
  then show ?case by simp
next
  case (Cons b bs)
  obtain sz fr where b: "b = (sz, fr)" by (cases b)
  have fld: "ld32 m' (of_nat (pos + k)) = ld32 m (of_nat (pos + k))" if "k + 4 \<le> 16" for k
  proof (rule eq_out_ld32 [OF assms(1)])
    have k: "pos + k < two32" using Cons.prems(2) b that by simp
    show "unat (of_nat (pos + k) :: addr) + 4 \<le> two32"
      using k Cons.prems(2) b that by simp
    show "region (of_nat (pos + k)) 4 \<inter> A = {}"
      using k Cons.prems b that by (fastforce simp: region_def)
  qed
  have "seg m' pos (pos + 16 + sz) bs nx = seg m pos (pos + 16 + sz) bs nx"
  proof (rule Cons.IH)
    fix a assume "a \<in> A"
    then show "unat a < pos + 16 + sz \<or> pos + 16 + sz + span bs \<le> unat a"
      using Cons.prems(1) [of a] b by auto
  next
    show "pos + 16 + sz + span bs \<le> two32" using Cons.prems(2) b by simp
  qed
  with fld [of 0] fld [of 4] fld [of 8] fld [of 12] show ?case by (simp add: b)
qed

lemma seg_new_prev:
  assumes seg: "seg m pr pos ys nx" and ne: "ys \<noteq> []" and eq: "eq_out A m m'"
    and A: "\<And>a. a \<in> A \<Longrightarrow> unat a < pos + 4 \<or> pos + span ys \<le> unat a"
    and fit: "pos + span ys \<le> two32" and pv: "ld32 m' (of_nat pos) = of_nat pr'"
  shows "seg m' pr' pos ys nx"
proof -
  obtain sz fr bs where ys: "ys = (sz, fr) # bs" using ne by (cases ys) auto
  have fld: "ld32 m' (of_nat (pos + k)) = ld32 m (of_nat (pos + k))" if "4 \<le> k" "k + 4 \<le> 16" for k
  proof (rule eq_out_ld32 [OF eq])
    have k: "pos + k < two32" using fit ys that by simp
    show "unat (of_nat (pos + k) :: addr) + 4 \<le> two32" using k fit ys that by simp
    show "region (of_nat (pos + k)) 4 \<inter> A = {}"
      using k A fit ys that by (fastforce simp: region_def)
  qed
  have "seg m' pos (pos + 16 + sz) bs nx = seg m pos (pos + 16 + sz) bs nx"
  proof (rule seg_frame [OF eq])
    fix a assume "a \<in> A"
    then show "unat a < pos + 16 + sz \<or> pos + 16 + sz + span bs \<le> unat a"
      using A [of a] ys by auto
  qed (use fit ys in simp)
  with seg pv fld [of 4] fld [of 8] fld [of 12] show ?thesis by (simp add: ys)
qed

text \<open>
  Replacing a run of blocks by another of the same extent: this is what a split and a merge do.
  Only bytes of the run and the back link of the block after it change.
\<close>

lemma seg_replace:
  assumes seg: "seg m pr pos (xs @ mid @ ys) nx"
    and ne: "mid \<noteq> []" "mid' \<noteq> []" and sp: "span mid' = span mid"
    and eq: "eq_out A m m'"
    and A: "\<And>a. a \<in> A \<Longrightarrow> pos + span xs \<le> unat a \<and>
       unat a < pos + span xs + span mid + (if ys = [] then 0 else 4)"
    and fit: "pos + span (xs @ mid @ ys) \<le> two32"
    and mid: "seg m' (if xs = [] then pr else pos + span (butlast xs)) (pos + span xs) mid'
       (if ys = [] then nx else pos + span xs + span mid)"
    and link: "ys \<noteq> [] \<Longrightarrow> ld32 m' (of_nat (pos + span xs + span mid)) =
       of_nat (pos + span xs + span (butlast mid'))"
  shows "seg m' pr pos (xs @ mid' @ ys) nx"
proof -
  have xs: "seg m pr pos xs (pos + span xs)"
    and ys: "seg m (pos + span xs + span (butlast mid)) (pos + span xs + span mid) ys nx"
    using seg ne by (auto simp: seg_append add.assoc split: if_splits)
  have "seg m' pr pos xs (pos + span xs) = seg m pr pos xs (pos + span xs)"
    by (rule seg_frame [OF eq]) (use A fit in \<open>force+\<close>)
  with xs have xs': "seg m' pr pos xs (pos + span xs)" by simp
  have ys': "seg m' (pos + span xs + span (butlast mid')) (pos + span xs + span mid) ys nx"
  proof (cases "ys = []")
    case False
    show ?thesis
    proof (rule seg_new_prev [OF ys False eq _ _ link])
      fix a assume "a \<in> A"
      with A [of a] False
      show "unat a < pos + span xs + span mid + 4 \<or>
          pos + span xs + span mid + span ys \<le> unat a" by auto
    qed (use fit False in \<open>auto simp: add.assoc\<close>)
  qed simp
  from xs' ys' mid ne sp show ?thesis by (auto simp: seg_append add.assoc)
qed

lemma first_fit_seg:
  assumes "seg m pr pos (xs @ (sz, True) # ys) nx" and "\<forall>b \<in> set xs. \<not> fits n b"
    and "n \<le> sz" and "0 < pos" and "pos + span (xs @ (sz, True) # ys) \<le> two32"
  shows "first_fit m (of_nat pos) (of_nat n) = Some (of_nat (pos + span xs))"
  using assms
proof (induction xs arbitrary: pr pos)
  case Nil
  then have "pos < two32" "sz < two32" "n < two32" by auto
  with Nil show ?case
    by (subst first_fit.simps) (simp add: of_nat_less_fit)
next
  case (Cons b bs)
  obtain z f where b: "b = (z, f)" by (cases b)
  have lt: "pos < two32" "z < two32" "n < two32" using Cons.prems b by auto
  have nofit: "of_nat z < (of_nat n :: u32) \<or> \<not> f"
    using Cons.prems(2) b lt by (auto simp: fits_def of_nat_less_fit)
  have IH: "first_fit m (of_nat (pos + 16 + z)) (of_nat n) = Some (of_nat (pos + 16 + z + span bs))"
    by (rule Cons.IH) (use Cons.prems b in auto)
  have p0: "(of_nat pos :: addr) \<noteq> 0" using lt Cons.prems(4) by simp
  from Cons.prems(1) b have
    "ld32 m (of_nat pos + 4) = of_nat (pos + 16 + z)"
    "ld32 m (of_nat pos + 8) = of_nat z"
    "ld32 m (of_nat pos + 12) = (if f then 1 else 0)"
    by auto
  with p0 nofit IH show ?case
    by (subst first_fit.simps) (auto simp: b add.assoc)
qed

lemma first_fit_none:
  assumes "seg m pr pos bs 0" and "\<forall>b \<in> set bs. \<not> fits n b" and "bs \<noteq> []"
    and "0 < pos" and "pos + span bs \<le> two32" and "n < two32"
  shows "first_fit m (of_nat pos) (of_nat n) = None"
  using assms
proof (induction bs arbitrary: pr pos)
  case Nil
  then show ?case by simp
next
  case (Cons b bs)
  obtain z f where b: "b = (z, f)" by (cases b)
  have lt: "pos < two32" "z < two32" using Cons.prems b by auto
  have nofit: "of_nat z < (of_nat n :: u32) \<or> \<not> f"
    using Cons.prems(2,6) b lt by (auto simp: fits_def of_nat_less_fit)
  have p0: "(of_nat pos :: addr) \<noteq> 0" using lt Cons.prems(4) by simp
  have rest: "first_fit m (of_nat (if bs = [] then 0 else pos + 16 + z)) (of_nat n) = None"
  proof (cases "bs = []")
    case True
    then show ?thesis by (subst first_fit.simps) simp
  next
    case False
    have "first_fit m (of_nat (pos + 16 + z)) (of_nat n) = None"
      by (rule Cons.IH) (use Cons.prems b False in auto)
    with False show ?thesis by simp
  qed
  from Cons.prems(1) b have
    "ld32 m (of_nat pos + 4) = of_nat (if bs = [] then 0 else pos + 16 + z)"
    "ld32 m (of_nat pos + 8) = of_nat z"
    "ld32 m (of_nat pos + 12) = (if f then 1 else 0)"
    by auto
  with p0 nofit rest show ?case
    by (subst first_fit.simps) auto
qed

lemma splice_block_in_split:
  assumes c: "0 < c" "c + 16 + sz \<le> two32" and n: "n + 32 < sz"
    and nx: "nx = 0 \<or> nx = c + 16 + sz \<and> nx + 16 \<le> two32"
    and f: "ld32 m (of_nat (c + 4)) = of_nat nx" "ld32 m (of_nat (c + 8)) = of_nat sz"
  shows "\<exists>m'. splice_block_in m (of_nat c) (of_nat n) = Some m' \<and>
     eq_out (zone c (16 + sz) \<union> (if nx = 0 then {} else zone nx 4)) m m' \<and>
     ld32 m' (of_nat c) = ld32 m (of_nat c) \<and>
     ld32 m' (of_nat (c + 4)) = of_nat (c + 16 + n) \<and>
     ld32 m' (of_nat (c + 8)) = of_nat n \<and>
     ld32 m' (of_nat (c + 16 + n)) = of_nat c \<and>
     ld32 m' (of_nat (c + 16 + n + 4)) = of_nat nx \<and>
     ld32 m' (of_nat (c + 16 + n + 8)) = of_nat (sz - n - 16) \<and>
     ld32 m' (of_nat (c + 16 + n + 12)) = 1 \<and>
     (nx \<noteq> 0 \<longrightarrow> ld32 m' (of_nat nx) = of_nat (c + 16 + n))"
proof -
  let ?new = "c + 16 + n"
  have lt: "c < two32" "sz < two32" "n < two32" "nx < two32" "?new < two32" using assms by auto
  have new: "(of_nat c :: addr) + of_nat n + BLK_HEADER_SIZE = of_nat ?new"
    by (simp add: BLK_HEADER_SIZE_def)
  have c0: "(of_nat c :: addr) \<noteq> 0" and new0: "(of_nat ?new :: addr) \<noteq> 0"
    using lt c by (simp_all del: of_nat_add)
  have guard: "(of_nat n :: u32) + 2 * BLK_HEADER_SIZE < of_nat sz"
    using of_nat_less_fit [of "n + 32" sz] n lt by (simp add: BLK_HEADER_SIZE_def)
  have sub: "(of_nat sz :: u32) - of_nat n - BLK_HEADER_SIZE = of_nat (sz - n - 16)"
    using n by (simp add: BLK_HEADER_SIZE_def of_nat_diff)
  show ?thesis
    using assms lt c0 new0
    by (auto simp: splice_block_in_def new guard Let_def sub pos_plus ld32_st32_pos zone_def
        intro!: eq_out_zone simp del: of_nat_add)
qed

lemma no_adj_append:
  "no_adj (xs @ ys) \<longleftrightarrow> no_adj xs \<and> no_adj ys \<and>
     (xs = [] \<or> ys = [] \<or> \<not> (snd (last xs) \<and> snd (hd ys)))"
  by (induction xs) auto

lemma live_append [simp]: "live pos (xs @ ys) = live pos xs @ live (pos + span xs) ys"
  by (induction xs arbitrary: pos) (auto simp: add.assoc)

lemma live_range:
  "(p, k) \<in> set (live pos bs) \<Longrightarrow> pos + 16 \<le> p \<and> p + k \<le> pos + span bs"
proof (induction bs arbitrary: pos)
  case (Cons b bs)
  from Cons.prems show ?case using Cons.IH [of "pos + 16 + fst b"] by (auto split: if_splits)
qed simp

lemma live_sorted: "sorted_wrt (\<lambda>(p, k) (q, l). p + k + 16 \<le> q) (live pos bs)"
  by (induction bs arbitrary: pos) (auto simp: sorted_wrt_append dest: live_range)

lemma span_carve [simp]: "n \<le> sz \<Longrightarrow> span (carve n sz) = 16 + sz"
  by (simp add: carve_def)

lemma carve_nonempty [simp]: "carve n sz \<noteq> []"
  by (simp add: carve_def)

lemma no_adj_carve:
  "no_adj (xs @ (sz, True) # ys) \<Longrightarrow> no_adj (xs @ carve n sz @ ys)"
  by (auto simp: no_adj_append carve_def)

lemma alloc_decomp:
  assumes "\<exists>b \<in> set bs. fits n b"
  shows "\<exists>xs sz ys. bs = xs @ (sz, True) # ys \<and> (\<forall>b \<in> set xs. \<not> fits n b) \<and> n \<le> sz \<and>
     alloc_blks n bs = xs @ carve n sz @ ys \<and> alloc_off n bs = Some (span xs + 16)"
  using assms
proof (induction bs)
  case (Cons b bs)
  show ?case
  proof (cases "fits n b")
    case True
    then have "b = (fst b, True)" "n \<le> fst b" by (auto simp: fits_def prod_eq_iff)
    with True show ?thesis by (intro exI [of _ "[]"] exI [of _ "fst b"] exI [of _ bs]) auto
  next
    case False
    with Cons obtain xs sz ys where d: "bs = xs @ (sz, True) # ys" "\<forall>b \<in> set xs. \<not> fits n b"
      "n \<le> sz" "alloc_blks n bs = xs @ carve n sz @ ys" "alloc_off n bs = Some (span xs + 16)"
      by auto
    with False show ?thesis by (intro exI [of _ "b # xs"] exI [of _ sz] exI [of _ ys]) auto
  qed
qed simp

lemma alloc_none: "\<forall>b \<in> set bs. \<not> fits n b \<Longrightarrow> alloc_off n bs = None"
  by (induction bs) auto

text \<open>The block handed out by the allocator: its headers after the split and the marking.\<close>

lemma splice_mark_seg:
  assumes c: "32 \<le> c" "c + 16 + sz \<le> two32" and n: "n \<le> sz"
    and nx: "nx = 0 \<or> nx = c + 16 + sz \<and> nx + 16 \<le> two32"
    and seg: "seg m pr c [(sz, True)] nx"
  shows "\<exists>m'. (do { m1 \<leftarrow> splice_block_in m (of_nat c) (of_nat n); wr32 m1 (of_nat c) h_is_free 0 })
       = Some m' \<and> eq_out (zone c (16 + sz) \<union> (if nx = 0 then {} else zone nx 4)) m m' \<and>
     seg m' pr c (carve n sz) nx \<and>
     (nx \<noteq> 0 \<longrightarrow> ld32 m (of_nat nx) = of_nat c \<longrightarrow>
        ld32 m' (of_nat nx) = of_nat (c + span (butlast (carve n sz))))"
proof -
  have lt: "c < two32" "sz < two32" "n < two32" "nx < two32" using assms by auto
  have c0: "(of_nat c :: addr) \<noteq> 0" using lt c by simp
  show ?thesis
  proof (cases "n + 32 < sz")
    case True
    obtain m1 where m1: "splice_block_in m (of_nat c) (of_nat n) = Some m1"
      "eq_out (zone c (16 + sz) \<union> (if nx = 0 then {} else zone nx 4)) m m1"
      "ld32 m1 (of_nat c) = ld32 m (of_nat c)" "ld32 m1 (of_nat (c + 4)) = of_nat (c + 16 + n)"
      "ld32 m1 (of_nat (c + 8)) = of_nat n" "ld32 m1 (of_nat (c + 16 + n)) = of_nat c"
      "ld32 m1 (of_nat (c + 16 + n + 4)) = of_nat nx"
      "ld32 m1 (of_nat (c + 16 + n + 8)) = of_nat (sz - n - 16)"
      "ld32 m1 (of_nat (c + 16 + n + 12)) = 1"
      "nx \<noteq> 0 \<longrightarrow> ld32 m1 (of_nat nx) = of_nat (c + 16 + n)"
      using splice_block_in_split [OF _ c(2) True nx, of m] c seg by auto
    have eq: "eq_out (zone c (16 + sz) \<union> (if nx = 0 then {} else zone nx 4)) m
        (st32 m1 (of_nat (c + 12)) 0)"
      by (rule eq_out_zone [OF m1(2)]) (use c in \<open>auto simp: zone_def\<close>)
    show ?thesis
      using True m1 eq seg c0 c lt nx
      by (auto simp: carve_def pos_plus ld32_st32_pos add.assoc simp del: of_nat_add)
  next
    case False
    have "\<not> of_nat n + 2 * BLK_HEADER_SIZE < (of_nat sz :: u32) \<Longrightarrow>
        splice_block_in m (of_nat c) (of_nat n) = Some m"
      using seg c0 by (simp add: splice_block_in_def pos_plus del: of_nat_add)
    moreover have "\<not> of_nat n + 2 * BLK_HEADER_SIZE < (of_nat sz :: u32)"
      using of_nat_less_fit [of "n + 32" sz] False n lt c by (simp add: BLK_HEADER_SIZE_def)
    ultimately have "splice_block_in m (of_nat c) (of_nat n) = Some m" by blast
    moreover have "eq_out (zone c (16 + sz) \<union> (if nx = 0 then {} else zone nx 4)) m
        (st32 m (of_nat (c + 12)) 0)"
      by (rule eq_out_zone) (use c in \<open>auto simp: zone_def\<close>)
    ultimately show ?thesis
      using False c0 c lt nx seg
      by (auto simp: carve_def pos_plus ld32_st32_pos simp del: of_nat_add)
  qed
qed

lemma heap_rep_parts:
  assumes "heap_rep s (xs @ (sz, fr) # ys)"
  defines "b \<equiv> unat (store_global_head s)"
  defines "c \<equiv> b + span xs"
  defines "nx \<equiv> (if ys = [] then 0 else c + 16 + sz)"
  shows "seg (mem s) (if xs = [] then 0 else b + span (butlast xs)) c [(sz, fr)] nx"
    and "32 \<le> c" and "c + 16 + sz \<le> two32"
    and "nx = 0 \<or> nx = c + 16 + sz \<and> nx + 16 \<le> two32"
    and "ys \<noteq> [] \<Longrightarrow> ld32 (mem s) (of_nat nx) = of_nat c"
proof -
  have seg: "seg (mem s) 0 b (xs @ (sz, fr) # ys) 0" and fit: "b + span (xs @ (sz, fr) # ys) \<le> two32"
    and lo: "32 \<le> b"
    using assms(1) by (auto simp: heap_rep_def b_def)
  from seg show "seg (mem s) (if xs = [] then 0 else b + span (butlast xs)) c [(sz, fr)] nx"
    by (auto simp: seg_append c_def nx_def)
  show "32 \<le> c" "c + 16 + sz \<le> two32" using lo fit by (auto simp: c_def)
  show "nx = 0 \<or> nx = c + 16 + sz \<and> nx + 16 \<le> two32"
    using fit by (cases ys) (auto simp: nx_def c_def)
  assume "ys \<noteq> []"
  then obtain z f ys' where "ys = (z, f) # ys'" by (cases ys) auto
  with seg show "ld32 (mem s) (of_nat nx) = of_nat c"
    by (auto simp: seg_append nx_def c_def)
qed

text \<open>After the search: the block found is carved, marked and returned.\<close>

lemma kmalloc_runs:
  assumes ff: "first_fit (mem s) (store_global_head s) (of_nat n) = Some (of_nat c)"
    and m': "(do { m1 \<leftarrow> splice_block_in (mem s) (of_nat c) (of_nat n); wr32 m1 (of_nat c) h_is_free 0 }) = Some m'"
    and sz: "ld32 (mem s) (of_nat (c + 8)) = of_nat sz" and n: "0 < n" "n \<le> sz" and c: "0 < c" "c + 16 + sz \<le> two32"
  shows "kmalloc (of_nat n) s = Some (of_nat (c + 16), s\<lparr>mem := m'\<rparr>)"
proof -
  have c0: "(of_nat c :: addr) \<noteq> 0" "sz < two32" "n < two32" using c n by auto
  obtain m1 where m1: "splice_block_in (mem s) (of_nat c) (of_nat n) = Some m1" "st32 m1 (of_nat c + 12) 0 = m'"
    using m' c0 by (auto simp: bind_Some_iff)
  have "(of_nat n :: u32) \<noteq> 0" using n c0 by simp
  moreover have "\<not> of_nat sz < (of_nat n :: u32)" using n c0 by (simp add: of_nat_less_fit)
  ultimately show ?thesis using ff c0 m1 sz by (simp add: kmalloc_def BLK_HEADER_SIZE_def)
qed

text \<open>A free block is in no live region, nor is the link of the block after it.\<close>

lemma carve_untouched:
  assumes eq: "eq_out A m m'" and fit: "b + span (xs @ (sz, True) # ys) \<le> two32"
    and A: "\<And>a. a \<in> A \<Longrightarrow> b + span xs \<le> unat a \<and> unat a < b + span xs + 16 + sz + (if ys = [] then 0 else 4)"
  shows "untouched (live b (xs @ (sz, True) # ys)) m m'"
proof (rule untouchedI [OF eq])
  fix p k a assume pk: "(p, k) \<in> set (live b (xs @ (sz, True) # ys))" and a: "a \<in> A"
  then consider "(p, k) \<in> set (live b xs)" | "(p, k) \<in> set (live (b + span xs + 16 + sz) ys)"
    by (auto simp: add.assoc)
  then show "unat a < p \<or> p + k \<le> unat a"
    using A [OF a] by cases (auto dest!: live_range split: if_splits)
next
  fix p k assume "(p, k) \<in> set (live b (xs @ (sz, True) # ys))"
  then show "p + k \<le> two32" using live_range fit by fastforce
qed

lemma kmalloc_spec:
  assumes rep: "heap_rep s bs" and n: "0 < n" and fit: "\<exists>b \<in> set bs. fits n b"
  shows "\<exists>m' off. kmalloc (of_nat n) s = Some (store_global_head s + of_nat off, s\<lparr>mem := m'\<rparr>) \<and>
     alloc_off n bs = Some off \<and> heap_rep (s\<lparr>mem := m'\<rparr>) (alloc_blks n bs) \<and>
     untouched (live (unat (store_global_head s)) bs) (mem s) m' \<and>
     eq_out (zone (unat (store_global_head s)) (span bs)) (mem s) m'"
proof -
  let ?b = "unat (store_global_head s)"
  obtain xs sz ys where bs: "bs = xs @ (sz, True) # ys" and nofit: "\<forall>b \<in> set xs. \<not> fits n b"
    and le: "n \<le> sz" and new: "alloc_blks n bs = xs @ carve n sz @ ys"
    and off: "alloc_off n bs = Some (span xs + 16)"
    using alloc_decomp [OF fit] by blast
  define c where "c = ?b + span xs"
  define nx where "nx = (if ys = [] then 0 else c + 16 + sz)"
  define A where "A = zone c (16 + sz) \<union> (if nx = 0 then {} else zone nx 4)"
  have seg: "seg (mem s) 0 ?b bs 0" and tot: "?b + span bs \<le> two32" and lo: "32 \<le> ?b"
    and adj: "no_adj bs"
    using rep by (auto simp: heap_rep_def)
  note parts = heap_rep_parts [OF rep [unfolded bs], folded c_def, folded nx_def]
  have nx2: "nx = (if ys = [] then 0 else ?b + span xs + span [(sz, True)])"
    by (simp add: nx_def c_def)
  have nx0: "ys \<noteq> [] \<Longrightarrow> nx \<noteq> 0" by (simp add: nx_def)
  have ff: "first_fit (mem s) (store_global_head s) (of_nat n) = Some (of_nat c)"
    using first_fit_seg [of "mem s" 0 ?b xs sz ys 0 n] seg nofit le lo tot bs
    by (simp add: c_def)
  obtain m' where m': "(do { m1 \<leftarrow> splice_block_in (mem s) (of_nat c) (of_nat n);
        wr32 m1 (of_nat c) h_is_free 0 }) = Some m'"
    and eq: "eq_out A (mem s) m'"
    and mid: "seg m' (if xs = [] then 0 else ?b + span (butlast xs)) c (carve n sz) nx"
    and link: "ys \<noteq> [] \<Longrightarrow> ld32 m' (of_nat nx) = of_nat (c + span (butlast (carve n sz)))"
    using splice_mark_seg [OF parts(2,3) le parts(4,1)] parts(5) nx0 unfolding A_def by blast
  have Ab: "c \<le> unat a \<and> unat a < c + 16 + sz + (if ys = [] then 0 else 4)" if "a \<in> A" for a
    using that by (auto simp: A_def zone_def nx_def split: if_splits)
  have seg': "seg m' 0 ?b (xs @ carve n sz @ ys) 0"
  proof (rule seg_replace [where mid = "[(sz, True)]" and m = "mem s" and A = A])
    show "seg (mem s) 0 ?b (xs @ [(sz, True)] @ ys) 0" using seg bs by simp
    show "?b + span (xs @ [(sz, True)] @ ys) \<le> two32" using tot bs by simp
    show "ld32 m' (of_nat (?b + span xs + span [(sz, True)])) =
        of_nat (?b + span xs + span (butlast (carve n sz)))" if "ys \<noteq> []"
      using link that by (simp add: nx_def c_def add.assoc)
    show "span (carve n sz) = span [(sz, True)]" using le by simp
    show "?b + span xs \<le> unat a \<and>
        unat a < ?b + span xs + span [(sz, True)] + (if ys = [] then 0 else 4)" if "a \<in> A" for a
      using Ab [OF that] by (simp add: c_def add.assoc)
    show "seg m' (if xs = [] then 0 else ?b + span (butlast xs)) (?b + span xs) (carve n sz)
        (if ys = [] then 0 else ?b + span xs + span [(sz, True)])"
      using mid nx2 by (simp only: c_def)
  qed (use eq in simp_all)
  have km: "kmalloc (of_nat n) s = Some (store_global_head s + of_nat (span xs + 16), s\<lparr>mem := m'\<rparr>)"
  proof -
    have "0 < c" using parts(2) by simp
    then show ?thesis using kmalloc_runs [OF ff m' _ n le] parts(1,3) by (simp add: c_def add.assoc)
  qed
  have unt: "untouched (live ?b bs) (mem s) m'"
    using carve_untouched [OF eq, of ?b xs sz ys] Ab tot by (simp add: c_def bs)
  have "eq_out (zone ?b (span bs)) (mem s) m'"
  proof (rule eq_out_mono [OF eq])
    show "A \<subseteq> zone ?b (span bs)"
      using Ab by (cases ys) (fastforce simp: zone_def c_def bs split: if_splits)+
  qed
  moreover have "heap_rep (s\<lparr>mem := m'\<rparr>) (alloc_blks n bs)"
    using seg' lo rep adj new no_adj_carve [of xs sz ys n] bs le by (auto simp: heap_rep_def)
  ultimately show ?thesis using km off unt by blast
qed

lemma tiled_block:
  assumes "tiled m b (xs @ (sz, fr) # ys)"
  shows "ld32 m (of_nat (b + span xs)) = of_nat (back_of b xs)"
    and "ld32 m (of_nat (b + span xs + 4)) = of_nat (if ys = [] then 0 else b + span xs + 16 + sz)"
    and "ld32 m (of_nat (b + span xs + 8)) = of_nat sz"
    and "ld32 m (of_nat (b + span xs + 12)) = (if fr then 1 else 0)"
    and "0 < b + span xs" "b + span xs + 16 + sz \<le> two32"
  using assms by (auto simp: tiled_def seg_append back_of_def simp del: of_nat_add)

text \<open>The words that merging a block into the one before it writes.\<close>

lemma splice_block_out_words:
  assumes l: "ld32 m (of_nat (l + 8)) = of_nat ls" "0 < l" "h = l + 16 + ls"
    and h: "ld32 m (of_nat (h + 4)) = of_nat nx" "ld32 m (of_nat (h + 8)) = of_nat hs" "h + 16 + hs \<le> two32"
    and nx: "nx = 0 \<or> nx = h + 16 + hs \<and> nx + 16 \<le> two32"
  shows "\<exists>m'. splice_block_out m (of_nat l) (of_nat h) = Some m' \<and> eq_out (zone l 16 \<union> (if nx = 0 then {} else zone nx 4)) m m' \<and>
     ld32 m' (of_nat l) = ld32 m (of_nat l) \<and> ld32 m' (of_nat (l + 4)) = of_nat nx \<and>
     ld32 m' (of_nat (l + 8)) = of_nat (ls + 16 + hs) \<and>
     ld32 m' (of_nat (l + 12)) = ld32 m (of_nat (l + 12)) \<and> (nx \<noteq> 0 \<longrightarrow> ld32 m' (of_nat nx) = of_nat l)"
proof -
  have lt: "l < two32" "h < two32" "nx < two32" "ls < two32" "hs < two32" using l h nx by auto
  have "0 < h" using l(3) by simp
  then have nz: "(of_nat l :: addr) \<noteq> 0" "(of_nat h :: addr) \<noteq> 0" using lt(1,2) l(2) by simp_all
  have sum: "(of_nat ls :: u32) + (of_nat hs + BLK_HEADER_SIZE) = of_nat (ls + 16 + hs)" by (simp add: BLK_HEADER_SIZE_def)
  show ?thesis
  proof (cases "nx = 0")
    case True
    then show ?thesis using l h lt nz
      by (auto simp: splice_block_out_def sum pos_plus ld32_st32_pos zone_def intro!: eq_out_zone simp del: of_nat_add)
  next
    case False
    then have "(of_nat nx :: addr) \<noteq> 0" using lt by simp
    with False show ?thesis using l h lt nz nx
      by (auto simp: splice_block_out_def sum pos_plus ld32_st32_pos zone_def intro!: eq_out_zone simp del: of_nat_add)
  qed
qed

lemma splice_block_out_tiled:
  assumes t: "tiled m b (xs @ (ls, lf) # (hs, hf) # ys)"
  defines "l \<equiv> b + span xs" and "h \<equiv> b + span xs + 16 + ls"
  shows "\<exists>m'. splice_block_out m (of_nat l) (of_nat h) = Some m' \<and>
     tiled m' b (xs @ (ls + 16 + hs, lf) # ys) \<and>
     eq_out (zone l 16 \<union> (if ys = [] then {} else zone (h + 16 + hs) 4)) m m'"
proof -
  define nx where "nx = (if ys = [] then 0 else h + 16 + hs)"
  define A where "A = zone l 16 \<union> (if ys = [] then {} else zone (h + 16 + hs) 4)"
  have L: "ld32 m (of_nat l) = of_nat (back_of b xs)" "ld32 m (of_nat (l + 8)) = of_nat ls" "ld32 m (of_nat (l + 12)) = (if lf then 1 else 0)"
    using tiled_block [OF t] by (auto simp: l_def)
  have H: "ld32 m (of_nat (h + 4)) = of_nat nx" "ld32 m (of_nat (h + 8)) = of_nat hs"
    "h + 16 + hs \<le> two32" "0 < l"
    using tiled_block [of m b "xs @ [(ls, lf)]" hs hf ys] t
    by (auto simp: h_def nx_def l_def tiled_def add.assoc)
  have nx: "nx = 0 \<or> nx = h + 16 + hs \<and> nx + 16 \<le> two32"
    using t by (cases ys) (auto simp: nx_def h_def tiled_def)
  have "A = zone l 16 \<union> (if nx = 0 then {} else zone nx 4)" using H(4) by (auto simp: A_def nx_def h_def l_def)
  then obtain m' where m': "splice_block_out m (of_nat l) (of_nat h) = Some m'"
    and eq: "eq_out A m m'" and f: "ld32 m' (of_nat l) = ld32 m (of_nat l)"
      "ld32 m' (of_nat (l + 4)) = of_nat nx" "ld32 m' (of_nat (l + 8)) = of_nat (ls + 16 + hs)"
      "ld32 m' (of_nat (l + 12)) = ld32 m (of_nat (l + 12))"
      "nx \<noteq> 0 \<longrightarrow> ld32 m' (of_nat nx) = of_nat l"
    using splice_block_out_words [OF L(2) H(4) _ H(1-3) nx] by (auto simp: l_def h_def)
  have "seg m' 0 b (xs @ [(ls + 16 + hs, lf)] @ ys) 0"
  proof (rule seg_replace [where mid = "[(ls, lf), (hs, hf)]" and m = m and A = A])
    show "seg m 0 b (xs @ [(ls, lf), (hs, hf)] @ ys) 0"
      and "b + span (xs @ [(ls, lf), (hs, hf)] @ ys) \<le> two32"
      using t by (auto simp: tiled_def)
    show "b + span xs \<le> unat a \<and>
        unat a < b + span xs + span [(ls, lf), (hs, hf)] + (if ys = [] then 0 else 4)"
      if "a \<in> A" for a
      using that by (auto simp: A_def zone_def l_def h_def split: if_splits)
    show "seg m' (if xs = [] then 0 else b + span (butlast xs)) (b + span xs)
        [(ls + 16 + hs, lf)] (if ys = [] then 0 else b + span xs + span [(ls, lf), (hs, hf)])"
      using f L by (simp add: l_def h_def nx_def back_of_def add.assoc)
    show "ld32 m' (of_nat (b + span xs + span [(ls, lf), (hs, hf)])) =
        of_nat (b + span xs + span (butlast [(ls + 16 + hs, lf)]))" if "ys \<noteq> []"
      using f(5) that by (simp add: nx_def h_def l_def add.assoc)
  qed (use eq in simp_all)
  then have "tiled m' b (xs @ (ls + 16 + hs, lf) # ys)"
    using t by (simp add: tiled_def)
  with m' eq show ?thesis by (auto simp: A_def)
qed

lemma mark_tiled:
  assumes t: "tiled m b (xs @ (sz, fr) # ys)"
  shows "tiled (st32 m (of_nat (b + span xs + 12)) 1) b (xs @ (sz, True) # ys)"
    and "eq_out (zone (b + span xs) 16) m (st32 m (of_nat (b + span xs + 12)) 1)"
proof -
  let ?m = "st32 m (of_nat (b + span xs + 12)) 1"
  note blk = tiled_block [OF t]
  show eq: "eq_out (zone (b + span xs) 16) m ?m"
    by (rule eq_out_zone) (use blk in \<open>auto simp: zone_def\<close>)
  have "seg ?m 0 b (xs @ [(sz, True)] @ ys) 0"
  proof (rule seg_replace [where mid = "[(sz, fr)]" and m = m and A = "zone (b + span xs) 16"])
    show "ld32 ?m (of_nat (b + span xs + span [(sz, fr)])) =
        of_nat (b + span xs + span (butlast [(sz, True)]))" if ne: "ys \<noteq> []"
    proof -
      obtain z f ys' where ys: "ys = (z, f) # ys'" using ne by (cases ys) auto
      have "ld32 m (of_nat (b + span (xs @ [(sz, fr)]))) = of_nat (back_of b (xs @ [(sz, fr)]))"
        and "b + span (xs @ [(sz, fr)]) + 16 + z \<le> two32"
        using tiled_block [of m b "xs @ [(sz, fr)]" z f ys'] t ys by simp_all
      then show ?thesis by (simp add: ld32_st32_pos back_of_def add.assoc del: of_nat_add)
    qed
    show "seg ?m (if xs = [] then 0 else b + span (butlast xs)) (b + span xs) [(sz, True)]
        (if ys = [] then 0 else b + span xs + span [(sz, fr)])"
      using blk by (simp add: ld32_st32_pos back_of_def add.assoc del: of_nat_add)
  qed (use t eq in \<open>auto simp: tiled_def zone_def\<close>)
  then show "tiled ?m b (xs @ (sz, True) # ys)"
    using t by (simp add: tiled_def)
qed

lemma get_block_header_loop_found:
  assumes "seg m pr pos (xs @ b # ys) nx" and "0 < pos" and "pos + span (xs @ b # ys) \<le> two32"
  shows "get_block_header_loop m (of_nat pos) (of_nat (pos + span xs)) = Some (of_nat (pos + span xs))"
  using assms
proof (induction xs arbitrary: pr pos)
  case Nil
  then show ?case by (subst get_block_header_loop.simps) simp
next
  case (Cons x xs)
  obtain z f where x: "x = (z, f)" by (cases x)
  have lt: "pos < two32" "pos + 16 + z < two32" "pos + span (x # xs) < two32"
    using Cons.prems x by auto
  have ne: "(of_nat pos :: addr) \<noteq> of_nat (pos + span (x # xs))"
    using of_nat_inj_fit lt x by (simp del: of_nat_add)
  have nz: "(of_nat pos :: addr) \<noteq> 0" "(of_nat (pos + 16 + z) :: addr) \<noteq> 0"
    using lt Cons.prems(2) by (simp_all del: of_nat_add)
  have nx: "ld32 m (of_nat pos + 4) = of_nat (pos + 16 + z)"
    using Cons.prems(1) x by simp
  have "get_block_header_loop m (of_nat (pos + 16 + z)) (of_nat (pos + 16 + z + span xs)) =
      Some (of_nat (pos + 16 + z + span xs))"
    by (rule Cons.IH) (use Cons.prems x in auto)
  with ne nz nx show ?case
    by (subst get_block_header_loop.simps) (simp add: x add.assoc del: of_nat_add)
qed

text \<open>The bytes of the headers; what changes only these leaves every payload alone.\<close>

definition head_bytes :: "nat \<Rightarrow> blk list \<Rightarrow> addr set" where
  "head_bytes pos bs = {a. \<exists>h \<in> set (headers pos bs). h \<le> unat a \<and> unat a < h + 16}"

lemma head_bytes_simps:
  "head_bytes pos [] = {}" "head_bytes pos ((sz, fr) # bs) = zone pos 16 \<union> head_bytes (pos + 16 + sz) bs"
  by (auto simp: head_bytes_def zone_def)

lemma head_bytes_append: "head_bytes pos (xs @ ys) = head_bytes pos xs \<union> head_bytes (pos + span xs) ys"
  by (induction xs arbitrary: pos) (auto simp: head_bytes_simps add.assoc)

lemma zone4_heads: "zone e 4 \<subseteq> head_bytes e ys" if "ys \<noteq> []"
  using that by (cases ys) (auto simp: head_bytes_def zone_def)

lemma headers_range: "h \<in> set (headers pos bs) \<Longrightarrow> pos \<le> h \<and> h + 16 \<le> pos + span bs"
  by (induction bs arbitrary: pos) fastforce+

lemma live_off_heads:
  "(p, k) \<in> set (live pos bs) \<Longrightarrow> a \<in> head_bytes pos bs \<Longrightarrow> unat a < p \<or> p + k \<le> unat a"
proof (induction bs arbitrary: pos)
  case (Cons b bs)
  obtain sz fr where b: "b = (sz, fr)" by (cases b)
  have "pos + 16 + sz \<le> unat a" if "a \<in> head_bytes (pos + 16 + sz) bs"
    using that headers_range by (fastforce simp: head_bytes_def)
  moreover have "pos + 16 + sz + 16 \<le> p" if "(p, k) \<in> set (live (pos + 16 + sz) bs)"
    using live_range [OF that] by simp
  ultimately show ?case using Cons by (fastforce simp: b head_bytes_simps zone_def split: if_splits)
qed (simp add: head_bytes_def)

lemma untouched_heads:
  assumes "eq_out (head_bytes b (xs @ (sz, fr) # ys)) m m'" and "b + span (xs @ (sz, fr) # ys) \<le> two32"
  shows "untouched (live b xs @ live (b + span xs + 16 + sz) ys) m m'"
proof (rule untouchedI [OF assms(1)])
  fix p k a
  assume r: "(p, k) \<in> set (live b xs @ live (b + span xs + 16 + sz) ys)"
    and a: "a \<in> head_bytes b (xs @ (sz, fr) # ys)"
  have "(p, k) \<in> set (live b (xs @ (sz, False) # ys))" using r by auto
  moreover have "a \<in> head_bytes b (xs @ (sz, False) # ys)"
    using a by (simp add: head_bytes_append head_bytes_simps)
  ultimately show "unat a < p \<or> p + k \<le> unat a" by (rule live_off_heads)
next
  fix p k assume "(p, k) \<in> set (live b xs @ live (b + span xs + 16 + sz) ys)"
  then show "p + k \<le> two32" using assms(2) by (auto dest!: live_range)
qed

lemma live_absorb:
  "live (c + 16 + fst (absorb_next sz ys)) (snd (absorb_next sz ys)) = live (c + 16 + sz) ys"
  by (cases ys) (auto simp: absorb_next_def add.assoc)

lemma head_bytes_absorb:
  "head_bytes b (xs @ (fst (absorb_next sz ys), fr) # snd (absorb_next sz ys)) \<subseteq> head_bytes b (xs @ (sz, fr) # ys)"
  by (cases ys) (auto simp: absorb_next_def head_bytes_append head_bytes_simps add.assoc)

lemma merge_next_tiled:
  assumes t: "tiled m b (xs @ (sz, fr) # ys)"
  defines "c \<equiv> b + span xs"
  shows "\<exists>m1. merge_next m (of_nat c) = Some m1 \<and>
     tiled m1 b (xs @ (fst (absorb_next sz ys), fr) # snd (absorb_next sz ys)) \<and>
     eq_out (head_bytes b (xs @ (sz, fr) # ys)) m m1"
proof (cases ys)
  case Nil
  have "0 < c" "c < two32" "ld32 m (of_nat (c + 4)) = 0"
    using tiled_block [OF t] Nil by (auto simp: c_def)
  with Nil t show ?thesis by (simp add: merge_next_def absorb_next_def)
next
  case (Cons y ys')
  obtain z f where y: "y = (z, f)" by (cases y)
  let ?h = "c + 16 + sz"
  define nx where "nx = ld32 m (of_nat (c + 4))"
  have nx: "nx = of_nat ?h" and c: "0 < c" "c < two32"
    using tiled_block [OF t] Cons by (auto simp: nx_def c_def)
  then have mn: "merge_next m (of_nat c) = do {
      nfree \<leftarrow> (if nx \<noteq> 0 then rd32 m nx h_is_free else Some 0);
      if nx \<noteq> 0 \<and> nfree \<noteq> 0 then splice_block_out m (of_nat c) nx else Some m }"
    by (simp add: merge_next_def nx_def)
  have t2: "tiled m b ((xs @ [(sz, fr)]) @ (z, f) # ys')" using t Cons y by simp
  have hf: "ld32 m (of_nat ?h + 12) = (if f then 1 else 0)" and h: "?h < two32"
    using tiled_block [OF t2] by (auto simp: c_def add.assoc)
  then have nz: "nx \<noteq> 0" using nx by (simp del: of_nat_add add: c_def)
  show ?thesis
  proof (cases f)
    case False
    with nz hf nx t Cons y show ?thesis by (simp add: mn absorb_next_def del: of_nat_add)
  next
    case True
    obtain m1 where m1: "splice_block_out m (of_nat c) (of_nat ?h) = Some m1"
      "tiled m1 b (xs @ (sz + 16 + z, fr) # ys')"
      "eq_out (zone c 16 \<union> (if ys' = [] then {} else zone (?h + 16 + z) 4)) m m1"
      using splice_block_out_tiled [of m b xs sz fr z f ys'] t unfolding Cons y c_def by blast
    have "zone c 16 \<union> (if ys' = [] then {} else zone (?h + 16 + z) 4) \<subseteq> head_bytes b (xs @ (sz, fr) # ys)"
      using zone4_heads [of ys' "?h + 16 + z"] by (auto simp: Cons y c_def head_bytes_append head_bytes_simps)
    from eq_out_mono [OF m1(3) this] m1 nz hf nx True Cons y show ?thesis
      by (simp add: mn absorb_next_def del: of_nat_add)
  qed
qed

lemma merge_prev_tiled:
  assumes t: "tiled m b (xs @ (sz, fr) # ys)"
  defines "c \<equiv> b + span xs"
  shows "\<exists>m2 xs' sz'. merge_prev m (of_nat c) = Some (m2, of_nat (b + span xs')) \<and>
     (\<exists>f'. tiled m2 b (xs' @ (sz', f') # ys)) \<and> b + span xs' + 16 + sz' = c + 16 + sz \<and>
     head_bytes b (xs' @ (sz', True) # ys) \<subseteq> head_bytes b (xs @ (sz, fr) # ys) \<and>
     xs' @ (sz', True) # ys = (if xs \<noteq> [] \<and> snd (last xs)
       then butlast xs @ (fst (last xs) + 16 + sz, True) # ys else xs @ (sz, True) # ys) \<and>
     eq_out (head_bytes b (xs @ (sz, fr) # ys)) m m2"
proof (cases "xs = []")
  case True
  then have "ld32 m (of_nat c) = 0" "0 < c" "c < two32"
    using tiled_block [OF t] by (auto simp: c_def back_of_def)
  with True t show ?thesis
    by (intro exI [of _ m] exI [of _ xs] exI [of _ sz]) (auto simp: merge_prev_def c_def head_bytes_append head_bytes_simps)
next
  case False
  then obtain xs0 z f where xs: "xs = xs0 @ [(z, f)]" by (metis rev_exhaust surj_pair)
  let ?l = "b + span xs0"
  define pv where "pv = ld32 m (of_nat c)"
  have pv: "pv = of_nat ?l" and c: "0 < c" "c < two32"
    using tiled_block [OF t] xs by (auto simp: pv_def c_def back_of_def)
  then have mp: "merge_prev m (of_nat c) = do {
      pfree \<leftarrow> (if pv \<noteq> 0 then rd32 m pv h_is_free else Some 0);
      if pv \<noteq> 0 \<and> pfree \<noteq> 0
      then do { m' \<leftarrow> splice_block_out m pv (of_nat c); Some (m', pv) }
      else Some (m, of_nat c) }"
    by (simp add: merge_prev_def pv_def)
  have t2: "tiled m b (xs0 @ (z, f) # (sz, fr) # ys)" using t xs by simp
  have lf: "ld32 m (of_nat ?l + 12) = (if f then 1 else 0)" and l: "0 < ?l" "?l < two32"
    using tiled_block [OF t2] by auto
  then have nz: "pv \<noteq> 0" using pv by (simp del: of_nat_add)
  show ?thesis
  proof (cases f)
    case False
    with nz lf pv have "merge_prev m (of_nat c) = Some (m, of_nat c)"
      by (simp add: mp del: of_nat_add)
    with False t xs show ?thesis
      by (intro exI [of _ m] exI [of _ xs] exI [of _ sz]) (auto simp: c_def head_bytes_append head_bytes_simps simp del: of_nat_add)
  next
    case True
    obtain m2 where m2: "splice_block_out m (of_nat ?l) (of_nat (?l + 16 + z)) = Some m2"
      "tiled m2 b (xs0 @ (z + 16 + sz, f) # ys)"
      "eq_out (zone ?l 16 \<union> (if ys = [] then {} else zone (?l + 16 + z + 16 + sz) 4)) m m2"
      using splice_block_out_tiled [OF t2] by auto
    have "zone ?l 16 \<union> (if ys = [] then {} else zone (?l + 16 + z + 16 + sz) 4) \<subseteq> head_bytes b (xs @ (sz, fr) # ys)"
      using zone4_heads [of ys "?l + 16 + z + 16 + sz"] by (auto simp: xs head_bytes_append head_bytes_simps add.assoc)
    from eq_out_mono [OF m2(3) this] have "eq_out (head_bytes b (xs @ (sz, fr) # ys)) m m2" .
    moreover have lc: "?l + 16 + z = c" using xs by (simp add: c_def)
    moreover have "merge_prev m (of_nat c) = Some (m2, of_nat ?l)"
      using m2(1) nz lf pv True by (simp add: mp lc del: of_nat_add)
    ultimately show ?thesis
      using m2 True xs
      by (intro exI [of _ m2] exI [of _ xs0] exI [of _ "z + 16 + sz"])
        (auto simp: add.assoc head_bytes_append head_bytes_simps simp del: of_nat_add)
  qed
qed

lemma absorb_next_head: "no_adj ((sz, fr) # ys) \<Longrightarrow>
  snd (absorb_next sz ys) = [] \<or> \<not> snd (hd (snd (absorb_next sz ys))) \<and> no_adj (snd (absorb_next sz ys))"
  by (cases ys) (auto simp: absorb_next_def)

lemma free_blks_no_adj:
  assumes "no_adj (xs @ (sz, fr) # ys)"
  shows "no_adj (free_blks xs sz ys)"
proof -
  have "no_adj ((sz, fr) # ys)" using assms by (simp add: no_adj_append)
  then have h: "snd (absorb_next sz ys) = [] \<or>
      \<not> snd (hd (snd (absorb_next sz ys))) \<and> no_adj (snd (absorb_next sz ys))"
    by (rule absorb_next_head)
  show ?thesis
  proof (cases "xs \<noteq> [] \<and> snd (last xs)")
    case True
    then obtain xs0 z where "xs = xs0 @ [(z, True)]"
      by (metis (full_types) append_butlast_last_id prod.collapse)
    with assms h show ?thesis
      by (auto simp: free_blks_def no_adj_append split: prod.splits)
  next
    case False
    with assms h show ?thesis
      by (auto simp: free_blks_def no_adj_append split: prod.splits)
  qed
qed

lemma span_free_blks: "span (free_blks xs sz ys) = span (xs @ (sz, fr) # ys)"
proof -
  have "span (butlast xs) + 16 + fst (last xs) = span xs" if "xs \<noteq> []"
    using that span_simps(3) [of "butlast xs" "[last xs]"] by simp
  moreover have "16 + fst (absorb_next sz ys) + span (snd (absorb_next sz ys)) = 16 + sz + span ys"
    by (cases ys) (auto simp: absorb_next_def)
  ultimately show ?thesis by (auto simp: free_blks_def split: prod.splits)
qed

lemma kfree_spec:
  assumes rep: "heap_rep s (xs @ (sz, fr) # ys)"
  defines "b \<equiv> unat (store_global_head s)"
  shows "\<exists>m'. kfree (store_global_head s + of_nat (span xs + 16)) s = Some (s\<lparr>mem := m'\<rparr>) \<and>
     heap_rep (s\<lparr>mem := m'\<rparr>) (free_blks xs sz ys) \<and>
     untouched (live b xs @ live (b + span xs + 16 + sz) ys) (mem s) m' \<and>
     eq_out (head_bytes b (xs @ (sz, fr) # ys)) (mem s) m'"
proof -
  define c where "c = b + span xs"
  let ?H = "head_bytes b (xs @ (sz, fr) # ys)"
  have t: "tiled (mem s) b (xs @ (sz, fr) # ys)" and adj: "no_adj (xs @ (sz, fr) # ys)"
    using rep by (auto simp: heap_rep_def tiled_def b_def)
  note blk = tiled_block [OF t, folded c_def]
  have c0: "(of_nat c :: addr) \<noteq> 0" using blk by simp
  have cn: "(of_nat (c + 16) :: addr) \<noteq> 0"
    using rep of_nat_zero_fit [of "c + 16"] by (simp add: heap_rep_def b_def c_def del: of_nat_add)
  have bufeq: "store_global_head s + of_nat (span xs + 16) = of_nat (c + 16)"
    by (simp add: c_def b_def)
  have buf: "(of_nat (c + 16) :: addr) - BLK_HEADER_SIZE = of_nat c"
    by (simp add: BLK_HEADER_SIZE_def)
  have head: "store_global_head s \<noteq> 0"
    using rep by (auto simp: heap_rep_def)
  have gbh: "get_block_header (of_nat (c + 16)) s = Some (of_nat c)"
    using get_block_header_loop_found [of "mem s" 0 b xs "(sz, fr)" ys 0] t
    unfolding get_block_header_def buf by (simp add: tiled_def b_def c_def del: of_nat_add)
  let ?sz1 = "fst (absorb_next sz ys)" and ?ys1 = "snd (absorb_next sz ys)"
  obtain m1 where m1: "merge_next (mem s) (of_nat c) = Some m1"
    and t1: "tiled m1 b (xs @ (?sz1, fr) # ?ys1)" and u1: "eq_out ?H (mem s) m1"
    using merge_next_tiled [OF t] unfolding c_def by blast
  obtain m2 xs' sz' f' where m2: "merge_prev m1 (of_nat c) = Some (m2, of_nat (b + span xs'))"
    and t2: "tiled m2 b (xs' @ (sz', f') # ?ys1)" and e: "b + span xs' + 16 + sz' = c + 16 + ?sz1"
    and res: "xs' @ (sz', True) # ?ys1 = free_blks xs sz ys"
    and hb: "head_bytes b (xs' @ (sz', True) # ?ys1) \<subseteq> head_bytes b (xs @ (?sz1, fr) # ?ys1)"
    and u2: "eq_out (head_bytes b (xs @ (?sz1, fr) # ?ys1)) m1 m2"
    using merge_prev_tiled [OF t1, folded c_def] unfolding free_blks_def case_prod_unfold by blast
  define m3 where "m3 = st32 m2 (of_nat (b + span xs' + 12)) 1"
  have t3: "tiled m3 b (free_blks xs sz ys)"
    using mark_tiled(1) [OF t2] res by (simp add: m3_def)
  have "eq_out (head_bytes b (xs' @ (sz', True) # ?ys1)) m2 m3"
    using eq_out_mono [OF mark_tiled(2) [OF t2], of "head_bytes b (xs' @ (sz', True) # ?ys1)"]
    by (auto simp: m3_def head_bytes_append head_bytes_simps)
  then have "eq_out (head_bytes b (xs @ (?sz1, fr) # ?ys1)) m1 m3"
    using eq_out_trans [OF u2 eq_out_mono [OF _ hb]] by blast
  then have h3: "eq_out ?H (mem s) m3"
    using eq_out_trans [OF u1 eq_out_mono [OF _ head_bytes_absorb]] by blast
  have "untouched (live b xs @ live (c + 16 + sz) ys) (mem s) m3"
    using untouched_heads [OF h3] t by (simp add: tiled_def c_def)
  moreover have "kfree (of_nat (c + 16)) s = Some (s\<lparr>mem := m3\<rparr>)"
    using gbh head c0 cn m1 m2 tiled_block(5,6) [OF t2] blk(5,6)
    by (simp add: kfree_def m3_def pos_plus del: of_nat_add)
  moreover have "heap_rep (s\<lparr>mem := m3\<rparr>) (free_blks xs sz ys)"
    using t3 free_blks_no_adj [OF adj] res rep span_free_blks [of xs sz ys fr]
    by (auto simp: heap_rep_def tiled_def b_def)
  ultimately show ?thesis using h3 unfolding bufeq c_def by blast
qed

lemma free_blks_alloc:
  assumes "no_adj (xs @ (sz, True) # ys)" and "n \<le> sz"
  shows "\<exists>z zs. carve n sz = (z, False) # zs \<and> free_blks xs z (zs @ ys) = xs @ (sz, True) # ys"
proof -
  have "xs = [] \<or> \<not> snd (last xs)" "ys = [] \<or> \<not> snd (hd ys)"
    using assms(1) by (auto simp: no_adj_append)
  with assms(2) show ?thesis
    by (auto simp: carve_def free_blks_def absorb_next_def)
qed

text \<open>A pointer that is no block's payload is not found, and freeing it changes nothing.\<close>

lemma get_block_header_loop_unknown:
  assumes "seg m pr pos bs 0" and "bs \<noteq> []" and "0 < pos" and "pos + span bs \<le> two32"
    and "unat h \<notin> set (headers pos bs)"
  shows "get_block_header_loop m (of_nat pos) h = Some 0"
  using assms
proof (induction bs arbitrary: pr pos)
  case Nil
  then show ?case by simp
next
  case (Cons b bs)
  obtain z f where b: "b = (z, f)" by (cases b)
  have lt: "pos < two32" using Cons.prems b by simp
  have ne: "(of_nat pos :: addr) \<noteq> h" using Cons.prems(5) lt by auto
  have p0: "(of_nat pos :: addr) \<noteq> 0" using lt Cons.prems(3) by simp
  have nx: "ld32 m (of_nat pos + 4) = of_nat (if bs = [] then 0 else pos + 16 + z)"
    using Cons.prems(1) b by auto
  show ?case
  proof (cases "bs = []")
    case True
    with ne p0 nx show ?thesis by (subst get_block_header_loop.simps) simp
  next
    case False
    have IH: "get_block_header_loop m (of_nat (pos + 16 + z)) h = Some 0"
      by (rule Cons.IH) (use Cons.prems b False in auto)
    obtain c bs' where "bs = c # bs'" using False by (cases bs) auto
    then have "pos + 16 + z < two32" using Cons.prems(4) b by simp
    then have "(of_nat (pos + 16 + z) :: addr) \<noteq> 0" by (simp del: of_nat_add)
    with IH ne p0 nx False show ?thesis
      by (subst get_block_header_loop.simps) (simp del: of_nat_add)
  qed
qed

lemma kfree_unknown_spec:
  assumes "heap_rep s bs"
    and "unat (p - 16) \<notin> set (headers (unat (store_global_head s)) bs)"
  shows "kfree p s = Some s"
proof -
  have "get_block_header p s = Some 0"
    using get_block_header_loop_unknown [of "mem s" 0 "unat (store_global_head s)" bs "p - 16"] assms
    by (auto simp: get_block_header_def heap_rep_def BLK_HEADER_SIZE_def)
  then show ?thesis by (simp add: kfree_def)
qed

section \<open>Writes into live blocks\<close>

definition payload :: "(nat \<times> nat) list \<Rightarrow> addr set" where
  "payload rs = {a. \<exists>(p, k) \<in> set rs. p \<le> unat a \<and> unat a < p + k}"

lemma zone_payload: "(p, k) \<in> set rs \<Longrightarrow> n \<le> k \<Longrightarrow> zone p n \<subseteq> payload rs"
  unfolding zone_def payload_def by (auto intro!: bexI [of _ "(p, k)"])

lemma payload_live: "a \<in> payload (live pos bs) \<Longrightarrow> pos + 16 \<le> unat a \<and> unat a < pos + span bs"
  using live_range [of _ _ pos bs] by (fastforce simp: payload_def)

lemma seg_payload_frame:
  assumes "eq_out A m m'" and "\<And>a. a \<in> A \<Longrightarrow> unat a < pos \<or> a \<in> payload (live pos bs)"
    and "pos + span bs \<le> two32"
  shows "seg m' pr pos bs nx = seg m pr pos bs nx"
  using assms(2,3)
proof (induction bs arbitrary: pr pos)
  case Nil
  then show ?case by simp
next
  case (Cons b bs)
  obtain sz fr where b: "b = (sz, fr)" by (cases b)
  have fld: "ld32 m' (of_nat (pos + k)) = ld32 m (of_nat (pos + k))" if "k + 4 \<le> 16" for k
  proof (rule eq_out_ld32 [OF assms(1)])
    have k: "pos + k < two32" using Cons.prems(2) b that by simp
    show "unat (of_nat (pos + k) :: addr) + 4 \<le> two32" using k Cons.prems(2) b that by simp
    have "unat a < pos \<or> pos + 16 \<le> unat a" if "a \<in> A" for a
      using Cons.prems(1) [OF that] payload_live by blast
    then show "region (of_nat (pos + k)) 4 \<inter> A = {}"
      using k that by (fastforce simp: region_def)
  qed
  have "seg m' pos (pos + 16 + sz) bs nx = seg m pos (pos + 16 + sz) bs nx"
  proof (rule Cons.IH)
    fix a assume "a \<in> A"
    then show "unat a < pos + 16 + sz \<or> a \<in> payload (live (pos + 16 + sz) bs)"
      using Cons.prems(1) [of a] b by (auto simp: payload_def split: if_splits)
  qed (use Cons.prems(2) b in simp)
  with fld [of 0] fld [of 4] fld [of 8] fld [of 12] show ?case by (simp add: b)
qed

lemma heap_rep_payload:
  assumes "heap_rep s bs" and "eq_out (payload (live (unat (store_global_head s)) bs)) (mem s) m"
  shows "heap_rep (s\<lparr>mem := m\<rparr>) bs"
  using assms seg_payload_frame [OF assms(2), of "unat (store_global_head s)" bs 0 0]
  by (auto simp: heap_rep_def)

section \<open>Live regions after an allocation\<close>

lemma live_carve: "n \<le> sz \<Longrightarrow> \<exists>k. live c (carve n sz) = [(c + 16, k)] \<and> n \<le> k \<and> k \<le> sz"
  by (auto simp: carve_def)

lemma alloc_live:
  assumes "\<exists>b \<in> set bs. fits n b"
  shows "\<exists>rs1 rs2 k off. alloc_off n bs = Some off \<and> live b bs = rs1 @ rs2 \<and>
     live b (alloc_blks n bs) = rs1 @ (b + off, k) # rs2 \<and> n \<le> k"
proof -
  obtain xs sz ys where d: "bs = xs @ (sz, True) # ys" "n \<le> sz"
    "alloc_blks n bs = xs @ carve n sz @ ys" "alloc_off n bs = Some (span xs + 16)"
    using alloc_decomp [OF assms] by blast
  moreover obtain k where "live (b + span xs) (carve n sz) = [(b + span xs + 16, k)]" "n \<le> k"
    using live_carve d(2) by blast
  ultimately show ?thesis
    by (intro exI [of _ "live b xs"] exI [of _ "live (b + span xs + 16 + sz) ys"]
        exI [of _ k] exI [of _ "span xs + 16"]) (simp add: add.assoc)
qed

lemma span_alloc_blks [simp]: "span (alloc_blks n bs) = span bs"
  by (induction bs) (auto simp: fits_def)

lemma kmalloc_fails:
  assumes "heap_rep s bs" and "0 < n" and "n < two32" and "\<forall>b \<in> set bs. \<not> fits n b"
  shows "kmalloc (of_nat n) s = None"
proof -
  have "first_fit (mem s) (store_global_head s) (of_nat n) = None"
    using first_fit_none [of "mem s" 0 "unat (store_global_head s)" bs n] assms
    by (simp add: heap_rep_def)
  with assms(2,3) show ?thesis by (simp add: kmalloc_def)
qed

section \<open>The interface\<close>

text \<open>
  What the clients of the allocator rely on: a state owns a list of live regions (address,
  length), apart from each other; an allocation that returns gives a fresh region that is long
  enough and touches no live byte; a release takes the region away again; a client that writes
  only inside live regions keeps the store intact.
\<close>

locale allocator =
  fixes owns :: "'s \<Rightarrow> (nat \<times> nat) list \<Rightarrow> bool"
    and alloc :: "u32 \<Rightarrow> 's \<Rightarrow> (addr \<times> 's) option"
    and release :: "addr \<Rightarrow> 's \<Rightarrow> 's option"
    and bytes :: "'s \<Rightarrow> mem"
    and poke :: "mem \<Rightarrow> 's \<Rightarrow> 's"
  assumes owns_range: "owns s rs \<Longrightarrow> (p, k) \<in> set rs \<Longrightarrow> 0 < p \<and> p + k < two32"
    and owns_apart: "owns s rs \<Longrightarrow> sorted_wrt (\<lambda>(p, k) (q, l). p + k < q) rs"
    and alloc_owns: "owns s rs \<Longrightarrow> 0 < n \<Longrightarrow> alloc n s = Some (a, s') \<Longrightarrow>
      \<exists>rs1 rs2 k. rs = rs1 @ rs2 \<and> unat n \<le> k \<and> owns s' (rs1 @ (unat a, k) # rs2) \<and>
        untouched rs (bytes s) (bytes s')"
    and release_owns: "owns s (rs1 @ (p, k) # rs2) \<Longrightarrow>
      \<exists>s'. release (of_nat p) s = Some s' \<and> owns s' (rs1 @ rs2) \<and>
        untouched (rs1 @ rs2) (bytes s) (bytes s')"
    and poke_owns: "owns s rs \<Longrightarrow> eq_out (payload rs) (bytes s) m \<Longrightarrow> owns (poke m s) rs"
    and bytes_poke: "bytes (poke m s) = m"
begin

lemma alloc_fresh:
  assumes "owns s rs" and "0 < n" and "alloc n s = Some (a, s')" and "(p, k) \<in> set rs"
  shows "a \<noteq> 0 \<and> (p + k \<le> unat a \<or> unat a + unat n \<le> p)"
proof -
  obtain rs1 rs2 j where rs: "rs = rs1 @ rs2" and j: "unat n \<le> j"
    and o: "owns s' (rs1 @ (unat a, j) # rs2)"
    using alloc_owns [OF assms(1-3)] by blast
  have "0 < unat a" using owns_range [OF o] by auto
  moreover have "p + k < unat a \<or> unat a + j < p"
    using owns_apart [OF o] assms(4) rs by (auto simp: sorted_wrt_append)
  ultimately show ?thesis using j by fastforce
qed

lemma alloc_twice_apart:
  assumes "owns s rs" and "0 < n" and "alloc n s = Some (a, s1)"
    and "0 < k" and "alloc k s1 = Some (b, s2)"
  shows "apart a (unat n) b (unat k)"
proof -
  obtain rs1 rs2 j where j: "unat n \<le> j" and o: "owns s1 (rs1 @ (unat a, j) # rs2)"
    using alloc_owns [OF assms(1-3)] by blast
  have d: "unat a + j \<le> unat b \<or> unat b + unat k \<le> unat a"
    using alloc_fresh [OF o assms(4,5)] by auto
  have a: "unat a + j < two32" using owns_range [OF o] by auto
  obtain us1 us2 l where "unat k \<le> l" and o2: "owns s2 (us1 @ (unat b, l) # us2)"
    using alloc_owns [OF o assms(4,5)] by blast
  moreover have "unat b + l < two32" using owns_range [OF o2] by auto
  ultimately show ?thesis using d a j by (auto simp: apart_def)
qed

lemma alloc_release:
  assumes "owns s rs" and "0 < n" and "alloc n s = Some (a, s1)"
  shows "\<exists>s2. release a s1 = Some s2 \<and> owns s2 rs \<and> untouched rs (bytes s) (bytes s2)"
proof -
  obtain rs1 rs2 j where rs: "rs = rs1 @ rs2" and o: "owns s1 (rs1 @ (unat a, j) # rs2)"
    and u: "untouched rs (bytes s) (bytes s1)"
    using alloc_owns [OF assms] by blast
  from release_owns [OF o] u rs show ?thesis by (auto intro: untouched_trans)
qed

end

definition heap_owns :: "'a kheap_scheme \<Rightarrow> (nat \<times> nat) list \<Rightarrow> bool" where
  "heap_owns s rs \<longleftrightarrow> (\<exists>bs. heap_rep s bs \<and> rs = live (unat (store_global_head s)) bs)"

lemma kmalloc_heap_owns:
  assumes "heap_owns s rs" and n: "0 < n" and km: "kmalloc n s = Some (a, s')"
  shows "\<exists>rs1 rs2 k. rs = rs1 @ rs2 \<and> unat n \<le> k \<and> heap_owns s' (rs1 @ (unat a, k) # rs2) \<and>
     untouched rs (mem s) (mem s') \<and> s' = s\<lparr>mem := mem s'\<rparr>"
proof -
  obtain bs where rep: "heap_rep s bs" and rs: "rs = live (unat (store_global_head s)) bs"
    using assms(1) by (auto simp: heap_owns_def)
  have n0: "0 < unat n" using n by (simp add: unat_gt_0 word_neq_0_conv)
  have fit: "\<exists>b \<in> set bs. fits (unat n) b"
    using kmalloc_fails [OF rep n0] km by auto
  obtain m' off where k: "kmalloc n s = Some (store_global_head s + of_nat off, s\<lparr>mem := m'\<rparr>)"
    and off: "alloc_off (unat n) bs = Some off"
    and rep': "heap_rep (s\<lparr>mem := m'\<rparr>) (alloc_blks (unat n) bs)"
    and u: "untouched rs (mem s) m'"
    using kmalloc_spec [OF rep n0 fit] rs by auto
  let ?b = "unat (store_global_head s)"
  obtain rs1 rs2 j where l: "live ?b bs = rs1 @ rs2"
    "live ?b (alloc_blks (unat n) bs) = rs1 @ (?b + off, j) # rs2" "unat n \<le> j"
    using alloc_live [OF fit, of ?b] off by auto
  have "?b + off + j \<le> ?b + span bs"
    using live_range [of "?b + off" j ?b "alloc_blks (unat n) bs"] l by simp
  then have "unat a = ?b + off" using km k rep by (auto simp: heap_rep_def)
  with l rs u rep' km k show ?thesis
    by (intro exI [of _ rs1] exI [of _ rs2] exI [of _ j]) (auto simp: heap_owns_def)
qed

lemma live_split:
  assumes "live b bs = rs1 @ (p, k) # rs2"
  shows "\<exists>xs ys. bs = xs @ (k, False) # ys \<and> p = b + span xs + 16 \<and>
     rs1 = live b xs \<and> rs2 = live (b + span xs + 16 + k) ys"
  using assms
proof (induction bs arbitrary: b rs1)
  case (Cons x bs)
  show ?case
  proof (cases "\<not> snd x \<and> rs1 = []")
    case True
    with Cons.prems show ?thesis by (intro exI [of _ "[]"] exI [of _ bs]) (auto simp: prod_eq_iff)
  next
    case False
    then obtain r where r: "rs1 = (if snd x then [] else [(b + 16, fst x)]) @ r"
      "live (b + 16 + fst x) bs = r @ (p, k) # rs2"
      using Cons.prems by (cases rs1) (auto split: if_splits)
    from Cons.IH [OF r(2)] obtain xs ys where "bs = xs @ (k, False) # ys"
      "p = b + 16 + fst x + span xs + 16" "r = live (b + 16 + fst x) xs"
      "rs2 = live (b + 16 + fst x + span xs + 16 + k) ys" by blast
    with r(1) show ?thesis
      by (intro exI [of _ "x # xs"] exI [of _ ys]) (auto simp: add.assoc)
  qed
qed simp

lemma live_free_blks: "live b (free_blks xs sz ys) = live b xs @ live (b + span xs + 16 + sz) ys"
proof -
  have *: "live b xs = live b (butlast xs)" "span xs = span (butlast xs) + 16 + fst (last xs)"
    if "xs \<noteq> []" "snd (last xs)"
    using that live_append [of b "butlast xs" "[last xs]"] span_simps(3) [of "butlast xs" "[last xs]"]
    by simp_all
  show ?thesis
    using live_absorb [of "b + span xs" sz ys] *
    by (auto simp: free_blks_def add.assoc split: prod.splits)
qed

text \<open>The contents of the freed block stay as well, and so does everything outside the store.\<close>

lemma kfree_room:
  assumes rep: "heap_rep s bs" and l: "live (unat (store_global_head s)) bs = rs1 @ (p, k) # rs2"
  shows "\<exists>m' bs'. kfree (of_nat p) s = Some (s\<lparr>mem := m'\<rparr>) \<and> heap_rep (s\<lparr>mem := m'\<rparr>) bs' \<and>
     live (unat (store_global_head s)) bs' = rs1 @ rs2 \<and> span bs' = span bs \<and>
     untouched (rs1 @ (p, k) # rs2) (mem s) m' \<and> eq_out (zone (unat (store_global_head s)) (span bs)) (mem s) m'"
proof -
  let ?b = "unat (store_global_head s)"
  obtain xs ys where d: "bs = xs @ (k, False) # ys" "p = ?b + span xs + 16"
    "rs1 = live ?b xs" "rs2 = live (?b + span xs + 16 + k) ys"
    using live_split [OF l] by blast
  have p: "of_nat p = store_global_head s + of_nat (span xs + 16)" using d(2) by simp
  obtain m' where m': "kfree (of_nat p) s = Some (s\<lparr>mem := m'\<rparr>)"
    "heap_rep (s\<lparr>mem := m'\<rparr>) (free_blks xs k ys)" "eq_out (head_bytes ?b bs) (mem s) m'"
    using kfree_spec [of s xs k False ys] rep d(1) unfolding p by blast
  have fit: "?b + span bs \<le> two32" using rep by (simp add: heap_rep_def)
  have "untouched (live ?b bs) (mem s) m'"
    by (rule untouchedI [OF m'(3)]) (use live_off_heads fit live_range in \<open>fastforce+\<close>)
  moreover have "eq_out (zone ?b (span bs)) (mem s) m'"
    by (rule eq_out_mono [OF m'(3)]) (use headers_range in \<open>fastforce simp: head_bytes_def zone_def\<close>)
  ultimately show ?thesis
    using m'(1,2) live_free_blks [of ?b xs k ys] span_free_blks [of xs k ys False] d l by auto
qed

lemma kfree_heap_owns:
  assumes "heap_owns s (rs1 @ (p, k) # rs2)"
  shows "\<exists>s'. kfree (of_nat p) s = Some s' \<and> heap_owns s' (rs1 @ rs2) \<and>
     untouched (rs1 @ rs2) (mem s) (mem s') \<and> s' = s\<lparr>mem := mem s'\<rparr>"
proof -
  obtain bs where "heap_rep s bs" "live (unat (store_global_head s)) bs = rs1 @ (p, k) # rs2"
    using assms by (auto simp: heap_owns_def)
  then show ?thesis using kfree_room [of s bs rs1 p k rs2] by (fastforce simp: heap_owns_def untouched_def)
qed

interpretation kheap: allocator heap_owns kmalloc kfree mem "\<lambda>m s. s\<lparr>mem := m\<rparr>"
proof unfold_locales
  fix s :: "'a kheap_scheme" and rs p k
  assume "heap_owns s rs" "(p, k) \<in> set rs"
  then show "0 < p \<and> p + k < two32"
    by (fastforce simp: heap_owns_def heap_rep_def dest: live_range)
next
  fix s :: "'a kheap_scheme" and rs
  assume "heap_owns s rs"
  then show "sorted_wrt (\<lambda>(p, k) (q, l). p + k < q) rs"
    by (auto simp: heap_owns_def intro: sorted_wrt_mono_rel [OF _ live_sorted])
next
  fix s :: "'a kheap_scheme" and rs m
  assume "heap_owns s rs" "eq_out (payload rs) (mem s) m"
  then show "heap_owns (s\<lparr>mem := m\<rparr>) rs"
    by (auto simp: heap_owns_def dest: heap_rep_payload)
qed (use kmalloc_heap_owns kfree_heap_owns in \<open>fastforce+\<close>)

section \<open>Allocations with room\<close>

lemma heap_rep_owns: "heap_rep s bs \<Longrightarrow> heap_owns s (live (unat (store_global_head s)) bs)"
  by (auto simp: heap_owns_def)

lemma heap_rep_fits:
  assumes "heap_rep s bs" and "\<exists>b \<in> set bs. fits n b"
  shows "n < two32"
proof -
  obtain b xs ys where "bs = xs @ b # ys" "n \<le> fst b"
    using assms(2) by (auto simp: fits_def dest: split_list)
  with assms(1) show ?thesis by (auto simp: heap_rep_def)
qed

lemma seg_unique:
  assumes "seg m pr pos bs 0" "seg m pr pos bs' 0" "bs \<noteq> []" "bs' \<noteq> []" "0 < pos"
    "pos + span bs < two32" "pos + span bs' < two32"
  shows "bs = bs'"
  using assms
proof (induction bs arbitrary: pr pos bs')
  case (Cons b bs)
  obtain sz fr where b: "b = (sz, fr)" by (cases b)
  obtain sz' fr' r' where bs': "bs' = (sz', fr') # r'" using Cons.prems(4) by (cases bs') auto
  have "of_nat sz = (of_nat sz' :: u32)" using Cons.prems(1,2) b bs' by simp
  then have sz: "sz = sz'" using of_nat_inj_fit [of sz sz'] Cons.prems(6,7) b bs' by simp
  have fr: "fr = fr'" using Cons.prems(1,2) b bs' by (auto split: if_splits)
  have "(of_nat (if bs = [] then 0 else pos + 16 + sz) :: u32) = of_nat (if r' = [] then 0 else pos + 16 + sz)"
  proof -
    have "ld32 m (of_nat (pos + 4)) = of_nat (if bs = [] then 0 else pos + 16 + sz)"
      using Cons.prems(1) b by (simp del: of_nat_add)
    moreover have "ld32 m (of_nat (pos + 4)) = of_nat (if r' = [] then 0 else pos + 16 + sz)"
      using Cons.prems(2) bs' sz by (simp del: of_nat_add)
    ultimately show ?thesis by (rule trans [OF sym])
  qed
  moreover have "(of_nat (pos + 16 + sz) :: u32) \<noteq> 0"
    using Cons.prems(6) b by (subst of_nat_zero_fit) auto
  ultimately have e: "bs = [] \<longleftrightarrow> r' = []" by (auto split: if_splits)
  show ?case
  proof (cases "bs = []")
    case False
    have r: "seg m pos (pos + 16 + sz) bs 0" "seg m pos (pos + 16 + sz) r' 0"
      using Cons.prems(1,2) b bs' sz by simp_all
    have "pos + 16 + sz + span bs < two32" "pos + 16 + sz + span r' < two32"
      using Cons.prems(6,7) b bs' sz by simp_all
    then have "bs = r'" using Cons.IH [OF r False] e False by simp
    then show ?thesis using b bs' sz fr by simp
  qed (use e b bs' sz fr in simp)
qed simp

lemma heap_owns_live:
  assumes "heap_rep s bs" and "heap_owns s rs"
  shows "rs = live (unat (store_global_head s)) bs"
proof -
  obtain bs' where "heap_rep s bs'" "rs = live (unat (store_global_head s)) bs'"
    using assms(2) by (auto simp: heap_owns_def)
  moreover have "bs = bs'"
    by (rule seg_unique [of "mem s" 0 "unat (store_global_head s)"])
      (use assms(1) calculation(1) in \<open>auto simp: heap_rep_def\<close>)
  ultimately show ?thesis by simp
qed

lemma fits_after_alloc:
  assumes "\<exists>b \<in> set bs. fits (n + 16 + k) b" and "16 < k"
  shows "\<exists>b \<in> set (alloc_blks n bs). fits k b"
  using assms(1)
proof (induction bs)
  case (Cons b bs)
  show ?case
  proof (cases "fits n b")
    case True
    show ?thesis
    proof (cases "fits (n + 16 + k) b")
      case True
      then show ?thesis using \<open>fits n b\<close> assms(2) by (auto simp: fits_def carve_def)
    next
      case False
      then obtain b' where "b' \<in> set bs" "fits (n + 16 + k) b'" using Cons.prems by auto
      then show ?thesis using True by (auto simp: fits_def)
    qed
  next
    case False
    then have "\<not> fits (n + 16 + k) b" by (auto simp: fits_def)
    then show ?thesis using Cons False by auto
  qed
qed simp

lemma kmalloc_room:
  assumes rep: "heap_rep s bs" and n: "0 < n" and fit: "\<exists>b \<in> set bs. fits n b"
  shows "\<exists>a m' rs1 rs2 k. kmalloc (of_nat n) s = Some (a, s\<lparr>mem := m'\<rparr>) \<and>
     heap_rep (s\<lparr>mem := m'\<rparr>) (alloc_blks n bs) \<and> n \<le> k \<and>
     live (unat (store_global_head s)) bs = rs1 @ rs2 \<and>
     live (unat (store_global_head s)) (alloc_blks n bs) = rs1 @ (unat a, k) # rs2 \<and>
     untouched (rs1 @ rs2) (mem s) m' \<and> eq_out (zone (unat (store_global_head s)) (span bs)) (mem s) m'"
proof -
  obtain m' off where km: "kmalloc (of_nat n) s = Some (store_global_head s + of_nat off, s\<lparr>mem := m'\<rparr>)"
    and off: "alloc_off n bs = Some off" and rep': "heap_rep (s\<lparr>mem := m'\<rparr>) (alloc_blks n bs)"
    and u: "untouched (live (unat (store_global_head s)) bs) (mem s) m'"
    and z: "eq_out (zone (unat (store_global_head s)) (span bs)) (mem s) m'"
    using kmalloc_spec [OF rep n fit] by blast
  have n32: "n < two32" by (rule heap_rep_fits [OF rep fit])
  have "0 < (of_nat n :: u32)" using n n32 by (simp add: word_less_nat_alt)
  from kmalloc_heap_owns [OF heap_rep_owns [OF rep] this km] n32
  obtain rs1 rs2 k where r: "live (unat (store_global_head s)) bs = rs1 @ rs2" "n \<le> k"
    "heap_owns (s\<lparr>mem := m'\<rparr>) (rs1 @ (unat (store_global_head s + of_nat off), k) # rs2)"
    by auto
  with heap_owns_live [OF rep' r(3)] km rep' u z show ?thesis
    by (intro exI [of _ "store_global_head s + of_nat off"] exI [of _ m'] exI [of _ rs1]
        exI [of _ rs2] exI [of _ k]) simp
qed

lemma payload_zone: "payload (live b bs) \<subseteq> zone b (span bs)"
  by (auto simp: zone_def dest: payload_live)

text \<open>Writes outside the store leave it alone.\<close>

lemma heap_outside:
  assumes "heap_rep s bs" and "zone (unat (store_global_head s)) (span bs) \<inter> A = {}"
    and "eq_out A (mem s) (mem t)" and "store_global_head t = store_global_head s"
  shows "heap_rep t bs"
proof -
  have "seg (mem t) 0 (unat (store_global_head s)) bs 0 = seg (mem s) 0 (unat (store_global_head s)) bs 0"
  proof (rule seg_frame [OF assms(3)])
    show "unat a < unat (store_global_head s) \<or> unat (store_global_head s) + span bs \<le> unat a" if "a \<in> A" for a
    proof -
      have "a \<notin> zone (unat (store_global_head s)) (span bs)" using assms(2) that by blast
      then show ?thesis by (auto simp: zone_def)
    qed
    show "unat (store_global_head s) + span bs \<le> two32" using assms(1) by (simp add: heap_rep_def)
  qed
  then show ?thesis using assms(1,4) by (simp add: heap_rep_def)
qed

text \<open>
  \<open>slack b bs\<close> are the bytes of a store that belong to no live region, with one byte past its end; an
  allocation and writes to what it returned change only those.
\<close>

definition slack :: "nat \<Rightarrow> blk list \<Rightarrow> addr set" where
  "slack b bs = zone b (span bs + 1) - payload (live b bs)"

lemma heap_rep_safe:
  assumes "heap_rep s bs" and "eq_out A (mem s) (mem t)" and "A \<inter> slack (unat (store_global_head s)) bs = {}"
    and "store_global_head t = store_global_head s"
  shows "heap_rep t bs"
proof -
  let ?b = "unat (store_global_head s)"
  let ?P = "payload (live ?b bs)" and ?Z = "zone (unat (store_global_head s)) (span bs)"
  have "?Z \<subseteq> zone ?b (span bs + 1)" by (auto simp: zone_def)
  then have "A \<subseteq> ?P \<union> (- ?Z)" using assms(3) by (auto simp: slack_def)
  then obtain m where m: "eq_out ?P (mem s) m" "eq_out (- ?Z) m (mem t)"
    using eq_out_split [OF eq_out_mono [OF assms(2)]] by blast
  have "heap_rep (s\<lparr>mem := m\<rparr>) bs" by (rule heap_rep_payload [OF assms(1) m(1)])
  then show ?thesis by (rule heap_outside [where A = "- ?Z"]) (use m(2) assms(4) in auto)
qed

lemma untouched_slack:
  assumes "untouched (live b bs) m m'" and "eq_out (zone b (span bs)) m m'"
  shows "eq_out (slack b bs) m m'"
  unfolding eq_out_def
proof (intro allI impI)
  fix a assume a: "a \<notin> slack b bs"
  show "m' a = m a"
  proof (cases "a \<in> payload (live b bs)")
    case True
    then show ?thesis using untouched_byte [OF assms(1)] by (auto simp: payload_def)
  next
    case False
    then have "a \<notin> zone b (span bs)" using a by (auto simp: slack_def zone_def)
    then show ?thesis by (rule eq_outD [OF assms(2)])
  qed
qed

lemma live_apart:
  assumes "heap_rep s bs" and "live (unat (store_global_head s)) bs = rs1 @ (p, k) # rs2"
  shows "zone p (k + 1) \<inter> payload (rs1 @ rs2) = {}"
proof -
  have "sorted_wrt (\<lambda>(p, k) (q, l). p + k < q) (rs1 @ (p, k) # rs2)"
    using kheap.owns_apart [OF heap_rep_owns [OF assms(1)]] assms(2) by simp
  then show ?thesis by (fastforce simp: sorted_wrt_append payload_def zone_def)
qed

text \<open>An allocation: the new region, with the byte after it, lies in the slack, and only the slack changes.\<close>

lemma kmalloc_slack:
  assumes rep: "heap_rep s bs" and "0 < n" and fit: "\<exists>x \<in> set bs. fits n x"
  defines "b \<equiv> unat (store_global_head s)"
  shows "\<exists>a m' k. kmalloc (of_nat n) s = Some (a, s\<lparr>mem := m'\<rparr>) \<and> heap_rep (s\<lparr>mem := m'\<rparr>) (alloc_blks n bs) \<and>
     n \<le> k \<and> a \<noteq> 0 \<and> unat a + n < two32 \<and> eq_out (slack b bs) (mem s) m' \<and> region a (n + 1) \<subseteq> slack b bs \<and>
     region a n \<inter> slack b (alloc_blks n bs) = {} \<and> slack b (alloc_blks n bs) \<subseteq> slack b bs"
proof -
  obtain a m' rs1 rs2 k where k: "kmalloc (of_nat n) s = Some (a, s\<lparr>mem := m'\<rparr>)"
    "heap_rep (s\<lparr>mem := m'\<rparr>) (alloc_blks n bs)" "n \<le> k" "live b bs = rs1 @ rs2"
    "live b (alloc_blks n bs) = rs1 @ (unat a, k) # rs2" "untouched (rs1 @ rs2) (mem s) m'"
    "eq_out (zone b (span bs)) (mem s) m'"
    using kmalloc_room [OF rep assms(2) fit] unfolding b_def by blast
  have r: "b + 16 \<le> unat a" "unat a + k \<le> b + span bs"
    using live_range [of "unat a" k b "alloc_blks n bs"] k(5) by auto
  have fitb: "b + span bs < two32" "32 \<le> b" using rep by (auto simp: heap_rep_def b_def)
  have "zone (unat a) (k + 1) \<inter> payload (live b bs) = {}"
    using live_apart [OF k(2), of rs1 "unat a" k rs2] k(4,5) unfolding b_def by simp
  moreover have "region a (n + 1) \<subseteq> zone (unat a) (k + 1)" "region a (n + 1) \<subseteq> zone b (span bs + 1)"
    using r k(3) by (auto simp: region_def zone_def)
  ultimately have "region a (n + 1) \<subseteq> slack b bs" by (auto simp: slack_def)
  moreover have "region a n \<inter> slack b (alloc_blks n bs) = {}"
    using k(3,5) by (auto simp: slack_def payload_def region_def)
  moreover have "slack b (alloc_blks n bs) \<subseteq> slack b bs"
    using k(4,5) by (auto simp: slack_def payload_def)
  moreover have "a \<noteq> 0" using r fitb by auto
  ultimately show ?thesis
    using k r fitb untouched_slack [of b bs "mem s" m'] by (intro exI [of _ a] exI [of _ m'] exI [of _ k]) simp
qed


section \<open>Start-up\<close>

text \<open>
  The boot loader's table as a list of entries (size, addr, len, type): \<open>mmap_table\<close> lays it out
  in memory, \<open>mmap_best\<close> is the region the allocator takes.
\<close>

type_synonym mmap_entry = "nat \<times> u32 \<times> u32 \<times> u32"

fun mmap_table :: "mem \<Rightarrow> nat \<Rightarrow> mmap_entry list \<Rightarrow> bool" where
  "mmap_table m pos [] = True"
| "mmap_table m pos ((sz, ad, len, ty) # es) =
     (ld32 m (of_nat pos) = of_nat sz \<and> ld32 m (of_nat pos + 4) = ad \<and>
      ld32 m (of_nat pos + 12) = len \<and> ld32 m (of_nat pos + 20) = ty \<and>
      mmap_table m (pos + sz + 4) es)"

definition mmap_span :: "mmap_entry list \<Rightarrow> nat" where
  "mmap_span es = (\<Sum>e\<leftarrow>es. fst e + 4)"

definition mmap_better :: "u32 \<times> u32 \<Rightarrow> mmap_entry \<Rightarrow> u32 \<times> u32" where
  "mmap_better b e = (case e of (sz, ad, len, ty) \<Rightarrow> if ty = 1 \<and> snd b \<le> len then (ad, len) else b)"

definition mmap_best :: "mmap_entry list \<Rightarrow> u32 \<times> u32" where
  "mmap_best es = foldl mmap_better (0, 0) es"

lemma mmap_scan_table:
  assumes "mmap_table m pos es" and "0 < pos" and "pos + mmap_span es < two32"
  shows "mmap_scan m (of_nat pos) (of_nat (pos + mmap_span es)) ad len =
     Some (foldl mmap_better (ad, len) es)"
  using assms
proof (induction es arbitrary: pos ad len)
  case Nil
  then show ?case by (subst mmap_scan.simps) (simp add: mmap_span_def)
next
  case (Cons e es)
  obtain sz ad' len' ty where e: "e = (sz, ad', len', ty)" by (cases e)
  have sp: "mmap_span (e # es) = sz + 4 + mmap_span es" by (simp add: mmap_span_def e)
  have lt: "of_nat pos < (of_nat (pos + mmap_span (e # es)) :: addr)"
    using Cons.prems sp of_nat_less_fit [of pos "pos + mmap_span (e # es)"]
    by (simp del: of_nat_add)
  have nz: "(of_nat pos :: addr) \<noteq> 0" using Cons.prems sp by simp
  have IH: "mmap_scan m (of_nat pos + of_nat sz + 4) (of_nat (pos + mmap_span (e # es))) a l =
      Some (foldl mmap_better (a, l) es)" for a l
    using Cons.IH [of "pos + sz + 4" a l] Cons.prems sp e by (simp add: add.assoc)
  define lim where "lim = (of_nat (pos + mmap_span (e # es)) :: addr)"
  show ?case
    using Cons.prems(1) nz lt IH unfolding lim_def [symmetric]
    by (subst mmap_scan.simps) (simp add: e mmap_better_def)
qed

lemma mmap_best_max:
  "(sz, ad, len, 1) \<in> set es \<or> len \<le> l0 \<Longrightarrow> len \<le> snd (foldl mmap_better (a0, l0) es)"
proof (induction es arbitrary: a0 l0)
  case (Cons e es)
  obtain sz' ad' len' ty where e: "e = (sz', ad', len', ty)" by (cases e)
  define r where "r = mmap_better (a0, l0) e"
  have "(sz, ad, len, 1) \<in> set es \<or> len \<le> snd r"
    using Cons.prems by (auto simp: r_def e mmap_better_def intro: order_trans)
  then show ?case using Cons.IH [of "snd r" "fst r"] by (simp add: r_def)
qed simp

lemma mmap_best_entry:
  "snd (foldl mmap_better (a0, l0) es) = l0 \<and> fst (foldl mmap_better (a0, l0) es) = a0 \<or>
   (\<exists>sz. (sz, fst (foldl mmap_better (a0, l0) es), snd (foldl mmap_better (a0, l0) es), 1) \<in> set es)"
proof (induction es arbitrary: a0 l0)
  case (Cons e es)
  obtain sz' ad' len' ty where e: "e = (sz', ad', len', ty)" by (cases e)
  show ?case using Cons.IH [of a0 l0] Cons.IH [of ad' len'] by (auto simp: e mmap_better_def)
qed simp

lemma init_kmalloc_heap_rep:
  assumes mbi: "mbi \<noteq> 0" "ld32 (mem s) (mbi + 48) = of_nat pos"
      "ld32 (mem s) (mbi + 44) = of_nat (mmap_span es)"
    and tab: "mmap_table (mem s) pos es" "0 < pos" "pos + mmap_span es < two32"
    and best: "mmap_best es = (ad, len)" "0x800010 \<le> unat len" "unat ad + unat len < two32"
  shows "\<exists>s'. init_kmalloc mbi s = Some s' \<and> heap_rep s' [(unat len - 0x800010, True)] \<and>
     unat (store_global_head s') = unat ad + 0x800000 \<and>
     unat (mem_store_end s') = unat ad + unat len \<and>
     eq_out (zone (unat ad + 0x800000) 16) (mem s) (mem s') \<and>
     s' = s\<lparr>mem := mem s', store_global_head := store_global_head s', mem_store_base := mem_store_base s',
       mem_store_end := mem_store_end s', mem_store_size := mem_store_size s'\<rparr>"
proof -
  define b where "b = unat ad + 0x800000"
  have ub: "unat (ad + 0x800000) = b" using best by (simp add: b_def)
  have bb: "ad + 0x800000 = of_nat b" unfolding ub [symmetric] by simp
  have b: "32 \<le> b" "b + 16 \<le> two32" "b < two32" using best by (auto simp: b_def)
  have b0: "(of_nat b :: addr) \<noteq> 0" using b by simp
  have sz: "len - 0x800000 - 16 = of_nat (unat len - 0x800010)"
    using best(2) by (simp add: of_nat_diff)
  have scan: "mmap_scan (mem s) (of_nat pos) (of_nat pos + of_nat (mmap_span es)) 0 0 = Some (ad, len)"
    using mmap_scan_table [OF tab] best by (simp add: mmap_best_def)
  let ?m = "st32 (st32 (st32 (st32 (mem s) (of_nat b) 0) (of_nat (b + 4)) 0) (of_nat (b + 8))
     (of_nat (unat len - 0x800010))) (of_nat (b + 12)) 1"
  have "eq_out (zone b 16) (mem s) ?m"
    by (intro eq_out_zone eq_out_refl) (use b in \<open>auto simp: zone_def\<close>)
  moreover have "seg ?m 0 b [(unat len - 0x800010, True)] 0"
    using b by (simp add: ld32_st32_pos del: of_nat_add)
  moreover have "init_kmalloc mbi s = Some (s\<lparr>mem := ?m, mem_store_base := of_nat b,
      mem_store_end := ad + len, mem_store_size := len - 0x800000, store_global_head := of_nat b\<rparr>)"
    using mbi scan b0 sz
    by (simp add: init_kmalloc_def STORE_OFFSET_def BLK_HEADER_SIZE_def bb Let_def pos_plus
        del: of_nat_add)
  ultimately show ?thesis
    using b best by (auto simp: heap_rep_def b_def unat_plus_fit)
qed

section \<open>kcalloc and krealloc\<close>

lemma payload_new:
  "p \<le> unat a \<Longrightarrow> unat a < p + n \<Longrightarrow> n \<le> k \<Longrightarrow> a \<in> payload (rs1 @ (p, k) # rs2)"
  by (auto simp: payload_def)

lemma untouched_apart:
  assumes "eq_out A m m'" and "\<And>a. a \<in> A \<Longrightarrow> q \<le> unat a \<and> unat a < q + k"
    and "sorted_wrt (\<lambda>(p, k) (q, l). p + k < q) (rs1 @ (q, k) # rs2)"
    and "\<And>p j. (p, j) \<in> set (rs1 @ rs2) \<Longrightarrow> p + j \<le> two32"
  shows "untouched (rs1 @ rs2) m m'"
proof (rule untouchedI [OF assms(1)])
  fix p j a assume "(p, j) \<in> set (rs1 @ rs2)" "a \<in> A"
  then show "unat a < p \<or> p + j \<le> unat a"
    using assms(2) [of a] assms(3) by (fastforce simp: sorted_wrt_append)
qed (use assms(4) in auto)

lemma heap_owns_tight: "heap_owns s rs \<Longrightarrow> (p, k) \<in> set rs \<Longrightarrow> 0 < p \<and> p + k \<le> two32"
  using kheap.owns_range by fastforce

lemma kcalloc_owns:
  assumes "heap_owns s rs" and n: "0 < n" and km: "kmalloc n s = Some (a, s1)"
  shows "\<exists>s' rs1 rs2 k. kcalloc n s = Some (a, s') \<and> rs = rs1 @ rs2 \<and> unat n \<le> k \<and>
     heap_owns s' (rs1 @ (unat a, k) # rs2) \<and>
     untouched rs (mem s) (mem s') \<and> (\<forall>i < unat n. mem s' (a + of_nat i) = 0)"
proof -
  obtain rs1 rs2 k where rs: "rs = rs1 @ rs2" and k: "unat n \<le> k"
    and o: "heap_owns s1 (rs1 @ (unat a, k) # rs2)" and u: "untouched rs (mem s) (mem s1)"
    using kmalloc_heap_owns [OF assms(1) n km] by blast
  have a0: "0 < unat a" "unat a + k < two32" using kheap.owns_range [OF o] by auto
  then have an: "a \<noteq> 0" by auto
  define m where "m = (\<lambda>x. if x \<in> region a (unat n) then 0 else mem s1 x)"
  define s' where s': "s' = s1\<lparr>mem := m\<rparr>"
  have kc: "kcalloc n s = Some (a, s')"
    using s' km an memset_eq [OF an, of n "mem s1" 0] a0 k by (simp add: kcalloc_def m_def)
  have eq: "eq_out (region a (unat n)) (mem s1) m" by (simp add: eq_out_def m_def)
  have "heap_owns s' (rs1 @ (unat a, k) # rs2)"
    unfolding s' by (rule kheap.poke_owns [OF o eq_out_mono [OF eq]])
      (use k in \<open>auto simp: region_def intro: payload_new\<close>)
  moreover have "untouched rs (mem s1) m"
    unfolding rs by (rule untouched_apart [OF eq _ kheap.owns_apart [OF o]])
      (use k heap_owns_tight [OF o] in \<open>auto simp: region_def\<close>)
  moreover have "mem s' (a + of_nat i) = 0" if "i < unat n" for i
    using that in_region_of_nat [of a "unat n" i] a0 k by (simp add: s' m_def)
  ultimately show ?thesis
    using kc rs k u s' by (intro exI [of _ s'] exI [of _ rs1] exI [of _ rs2] exI [of _ k])
      (auto intro: untouched_trans)
qed

lemma heap_owns_header:
  assumes "heap_owns s (rs1 @ (p, k) # rs2)"
  shows "\<exists>h. get_block_header (of_nat p) s = Some h \<and> h \<noteq> 0 \<and> ld32 (mem s) (h + 8) = of_nat k"
proof -
  let ?b = "unat (store_global_head s)"
  obtain bs where rep: "heap_rep s bs" and l: "live ?b bs = rs1 @ (p, k) # rs2"
    using assms by (auto simp: heap_owns_def)
  obtain xs ys where d: "bs = xs @ (k, False) # ys" "p = ?b + span xs + 16"
    using live_split [OF l] by blast
  have t: "tiled (mem s) ?b (xs @ (k, False) # ys)"
    using rep d(1) by (simp add: heap_rep_def tiled_def)
  have "get_block_header (of_nat p) s = Some (of_nat (?b + span xs))"
    using get_block_header_loop_found [of "mem s" 0 ?b xs "(k, False)" ys 0] t d(2)
    by (simp add: get_block_header_def tiled_def BLK_HEADER_SIZE_def)
  with tiled_block [OF t] show ?thesis by (auto simp del: of_nat_add simp add: pos_plus)
qed

lemma insert_then_remove:
  assumes "rs1 @ x # rs2 = us1 @ us2"
  shows "\<exists>as bs vs1 vs2. us1 @ y # us2 = as @ x # bs \<and> as @ bs = vs1 @ y # vs2 \<and>
     rs1 @ rs2 = vs1 @ vs2"
proof -
  consider v where "us1 = rs1 @ x # v" "rs2 = v @ us2" | w where "us2 = w @ x # rs2" "rs1 = us1 @ w"
    using assms by (auto simp: append_eq_append_conv2 append_eq_Cons_conv Cons_eq_append_conv)
  then show ?thesis
  proof cases
    case 1
    then show ?thesis
      by (intro exI [of _ rs1] exI [of _ "v @ y # us2"] exI [of _ "rs1 @ v"] exI [of _ us2]) simp
  next
    case 2
    then show ?thesis
      by (intro exI [of _ "us1 @ y # w"] exI [of _ rs2] exI [of _ us1] exI [of _ "w @ rs2"]) simp
  qed
qed

lemma untouched_nth:
  "untouched rs m m' \<Longrightarrow> (p, k) \<in> set rs \<Longrightarrow> i < k \<Longrightarrow> m' (of_nat p + of_nat i) = m (of_nat p + of_nat i)"
  by (fastforce simp: untouched_def)

lemma untouched_sub: "untouched rs m m' \<Longrightarrow> set us \<subseteq> set rs \<Longrightarrow> untouched us m m'"
  by (auto simp: untouched_def)

lemma krealloc_keep:
  assumes "heap_owns s (rs1 @ (p, k) # rs2)" and "unat n \<le> k"
  shows "krealloc (of_nat p) n s = Some (of_nat p, s)"
proof -
  obtain h where "get_block_header (of_nat p) s = Some h" "h \<noteq> 0" "ld32 (mem s) (h + 8) = of_nat k"
    using heap_owns_header [OF assms(1)] by blast
  moreover have "k < two32" using kheap.owns_range [OF assms(1), of p k] by auto
  then have "n \<le> of_nat k" using assms(2) by (simp add: word_le_nat_alt)
  ultimately show ?thesis by (simp add: krealloc_def)
qed

lemma krealloc_grow:
  assumes o: "heap_owns s (rs1 @ (p, k) # rs2)" and grow: "k < unat n"
    and km: "kmalloc n s = Some (a, s1)"
  shows "\<exists>s' vs1 vs2 j. krealloc (of_nat p) n s = Some (a, s') \<and> rs1 @ rs2 = vs1 @ vs2 \<and> unat n \<le> j \<and> heap_owns s' (vs1 @ (unat a, j) # vs2) \<and>
     untouched (rs1 @ rs2) (mem s) (mem s') \<and>
     (\<forall>i < k. mem s' (a + of_nat i) = mem s (of_nat p + of_nat i))"
proof -
  let ?p = "of_nat p :: addr"
  have pk: "0 < p" "p + k < two32" using kheap.owns_range [OF o] by auto
  have n: "0 < n" using grow by (simp add: word_less_nat_alt)
  have big: "\<not> n \<le> of_nat k" using grow pk by (simp add: word_le_nat_alt)
  obtain h where h: "get_block_header ?p s = Some h" "h \<noteq> 0" "ld32 (mem s) (h + 8) = of_nat k"
    using heap_owns_header [OF o] by blast
  obtain us1 us2 j where us: "rs1 @ (p, k) # rs2 = us1 @ us2" and j: "unat n \<le> j"
    and o1: "heap_owns s1 (us1 @ (unat a, j) # us2)"
    and u1: "untouched (rs1 @ (p, k) # rs2) (mem s) (mem s1)"
    using kmalloc_heap_owns [OF o n km] by blast
  obtain as bs vs1 vs2 where ab: "us1 @ (unat a, j) # us2 = as @ (p, k) # bs"
    "as @ bs = vs1 @ (unat a, j) # vs2" "rs1 @ rs2 = vs1 @ vs2"
    using insert_then_remove [OF us] by blast
  have r: "0 < unat a" "unat a + j < two32" using kheap.owns_range [OF o1] by auto
  have rn: "a \<noteq> 0" and pn: "?p \<noteq> 0" using r(1) pk by auto
  obtain h1 where h1: "get_block_header ?p s1 = Some h1" "h1 \<noteq> 0"
    "ld32 (mem s1) (h1 + 8) = of_nat k"
    using heap_owns_header [of s1 as p k bs] o1 ab by auto
  define m where "m = moved (mem s1) a ?p k"
  have cp: "memcpy (mem s1) a ?p (of_nat k) = Some m"
    using memcpy_eq [OF rn pn, of "of_nat k" "mem s1"] pk r j grow by (simp add: m_def)
  have eq: "eq_out (region a k) (mem s1) m" by (simp add: eq_out_def m_def moved_def)
  have o2: "heap_owns (s1\<lparr>mem := m\<rparr>) (us1 @ (unat a, j) # us2)"
    by (rule kheap.poke_owns [OF o1 eq_out_mono [OF eq]])
      (use j grow in \<open>auto simp: region_def intro: payload_new\<close>)
  have u2: "untouched (us1 @ us2) (mem s1) m"
    by (rule untouched_apart [OF eq _ kheap.owns_apart [OF o1]])
      (use j grow heap_owns_tight [OF o1] in \<open>auto simp: region_def\<close>)
  obtain s3 where kf: "kfree ?p (s1\<lparr>mem := m\<rparr>) = Some s3" and o3: "heap_owns s3 (as @ bs)"
    and u3: "untouched (as @ bs) m (mem s3)"
    using kfree_heap_owns [of "s1\<lparr>mem := m\<rparr>" as p k bs] o2 ab(1) by auto
  have res: "krealloc ?p n s = Some (a, s3)"
    using h big km h1 rn cp kf by (simp add: krealloc_def)
  have sub: "set (rs1 @ rs2) \<subseteq> set (as @ bs)" unfolding ab by auto
  have "untouched (rs1 @ rs2) (mem s) (mem s3)"
  proof (rule untouched_trans [OF untouched_trans])
    show "untouched (rs1 @ rs2) (mem s) (mem s1)" by (rule untouched_sub [OF u1]) auto
    show "untouched (rs1 @ rs2) (mem s1) m" by (rule untouched_sub [OF u2 [folded us]]) auto
    show "untouched (rs1 @ rs2) m (mem s3)" by (rule untouched_sub [OF u3 sub])
  qed
  moreover have "mem s3 (a + of_nat i) = mem s (?p + of_nat i)" if i: "i < k" for i
  proof -
    have "mem s3 (of_nat (unat a) + of_nat i) = m (of_nat (unat a) + of_nat i)"
      by (rule untouched_nth [OF u3, of _ j]) (use ab(2) i j grow in auto)
    moreover have "m (a + of_nat i) = mem s1 (?p + of_nat i)"
      using in_region_of_nat [of a k i] i r j grow by (simp add: m_def moved_def)
    moreover have "mem s1 (?p + of_nat i) = mem s (?p + of_nat i)"
      by (rule untouched_nth [OF u1, of _ k]) (use i in auto)
    ultimately show ?thesis by simp
  qed
  ultimately show ?thesis
    using o3 ab j res by (intro exI [of _ s3] exI [of _ vs1] exI [of _ vs2] exI [of _ j]) auto
qed

lemma kmalloc_kfree_rep:
  assumes rep: "heap_rep s bs" and n: "0 < n" "n < two32" and km: "kmalloc (of_nat n) s = Some (a, s1)"
  shows "\<exists>s2. kfree a s1 = Some s2 \<and> heap_rep s2 bs \<and> s2 = s\<lparr>mem := mem s2\<rparr> \<and>
     untouched (live (unat (store_global_head s)) bs) (mem s) (mem s2)"
proof -
  let ?b = "unat (store_global_head s)"
  have fit: "\<exists>b \<in> set bs. fits n b" using kmalloc_fails [OF rep n] km by auto
  obtain xs sz ys where d: "bs = xs @ (sz, True) # ys" "n \<le> sz"
    "alloc_blks n bs = xs @ carve n sz @ ys" "alloc_off n bs = Some (span xs + 16)"
    using alloc_decomp [OF fit] by blast
  have "no_adj (xs @ (sz, True) # ys)" using rep d(1) by (simp add: heap_rep_def)
  then obtain z zs where z: "carve n sz = (z, False) # zs" "free_blks xs z (zs @ ys) = bs"
    using free_blks_alloc [OF _ d(2)] d(1) by blast
  obtain m' where m': "kmalloc (of_nat n) s = Some (store_global_head s + of_nat (span xs + 16), s\<lparr>mem := m'\<rparr>)"
    "heap_rep (s\<lparr>mem := m'\<rparr>) (xs @ (z, False) # zs @ ys)" "untouched (live ?b bs) (mem s) m'"
    using kmalloc_spec [OF rep n(1) fit] d z by auto
  have a: "a = store_global_head s + of_nat (span xs + 16)" "s1 = s\<lparr>mem := m'\<rparr>"
    using km m'(1) by auto
  have "live ?b xs @ live (?b + span xs + 16 + z) (zs @ ys) = live ?b bs"
    using live_free_blks [of ?b xs z "zs @ ys"] z(2) by simp
  with kfree_spec [OF m'(2)] m'(3) z(2) show ?thesis
    by (auto simp: a intro: untouched_trans)
qed

section \<open>Stores past the end of a block\<close>

text \<open>Operations that read no byte of \<open>A\<close> run alike on two memories that differ only there.\<close>

definition clear_of :: "addr set \<Rightarrow> addr \<Rightarrow> bool" where
  "clear_of A a \<longleftrightarrow> unat a + 4 \<le> two32 \<and> region a 4 \<inter> A = {}"

lemma clear_of_nat: "p + 4 \<le> two32 \<Longrightarrow> zone p 4 \<inter> A = {} \<Longrightarrow> clear_of A (of_nat p)"
  by (auto simp: clear_of_def region_def zone_def)

lemma twin_ld: "eq_out A m d \<Longrightarrow> clear_of A a \<Longrightarrow> ld32 d a = ld32 m a"
  unfolding clear_of_def by (blast intro: eq_out_ld32)

lemma twin_st: "eq_out A m d \<Longrightarrow> eq_out A (st32 m a v) (st32 d a v)"
  by (simp add: eq_out_def st32_def)

lemmas twin_lds = twin_ld [OF twin_st] twin_ld [OF twin_st [OF twin_st]]

lemma twin_splice_block_out:
  assumes "eq_out A m d" and "splice_block_out m lo hi = Some m'"
    and "clear_of A (lo + 8)" and "clear_of A (hi + 8)" and "clear_of A (hi + 4)"
  shows "\<exists>d'. splice_block_out d lo hi = Some d' \<and> eq_out A m' d'"
  using assms twin_lds [OF assms(1)]
  by (auto simp: splice_block_out_def rd32_def wr32_def twin_ld twin_st split: if_splits Option.bind_splits)

lemma twin_merge_next:
  assumes e: "eq_out A m d" and run: "merge_next m h = Some m'" and o: "clear_of A (h + 4)" "clear_of A (h + 8)"
    and nx: "\<forall>i \<in> {4, 8, 12}. ld32 m (h + 4) \<noteq> 0 \<longrightarrow> clear_of A (ld32 m (h + 4) + i)"
  shows "\<exists>d'. merge_next d h = Some d' \<and> eq_out A m' d'"
  using run nx twin_ld [OF e o(1)] twin_ld [OF e, of "ld32 m (h + 4) + 12"]
    twin_splice_block_out [OF e _ o(2), of "ld32 m (h + 4)" m'] e
  by (auto simp: merge_next_def rd32_def split: if_splits)

lemma twin_merge_prev:
  assumes e: "eq_out A m d" and run: "merge_prev m h = Some (m', h')" and o: "\<forall>i \<in> {0, 4, 8}. clear_of A (h + i)"
    and pv: "\<forall>i \<in> {8, 12}. ld32 m h \<noteq> 0 \<longrightarrow> clear_of A (ld32 m h + i)"
  shows "\<exists>d'. merge_prev d h = Some (d', h') \<and> eq_out A m' d'"
  using run pv o twin_ld [OF e, of h] twin_ld [OF e, of "ld32 m h + 12"]
    twin_splice_block_out [OF e, of "ld32 m h" h] e
  by (auto simp: merge_prev_def rd32_def split: if_splits Option.bind_splits)

lemma seg_heads_frame:
  assumes "eq_out A m m'" and "A \<inter> head_bytes pos bs = {}" and "pos + span bs \<le> two32"
  shows "seg m' pr pos bs nx = seg m pr pos bs nx"
  using assms(2,3)
proof (induction bs arbitrary: pr pos)
  case (Cons x bs)
  obtain sz fr where x: "x = (sz, fr)" by (cases x)
  have h: "A \<inter> zone pos 16 = {}" "A \<inter> head_bytes (pos + 16 + sz) bs = {}" using Cons.prems(1) by (auto simp: x head_bytes_simps)
  have "ld32 m' (of_nat (pos + k)) = ld32 m (of_nat (pos + k))" if "k + 4 \<le> 16" for k
    by (rule twin_ld [OF assms(1) clear_of_nat]) (use that h Cons.prems(2) in \<open>auto simp: x zone_def\<close>)
  from this [of 0] this [of 4] this [of 8] this [of 12] show ?case using Cons.IH [OF h(2)] Cons.prems(2) by (simp add: x)
qed simp

lemma head_bytes_range: "a \<in> head_bytes b bs \<Longrightarrow> b \<le> unat a \<and> unat a < b + span bs"
  using headers_range by (fastforce simp: head_bytes_def)

text \<open>
  Bytes of a block that is in use, and the first three after it, may have changed: freeing the block does the same as
  if they had not.
\<close>

lemma kfree_twin:
  assumes rep: "heap_rep s (xs @ (sz, False) # ys)" and e: "eq_out A (mem s) d"
  defines "b \<equiv> unat (store_global_head s)"
  assumes A: "A \<subseteq> zone (b + span xs + 16) (sz + 3)"
  shows "\<exists>m' d'. kfree (of_nat (b + span xs + 16)) s = Some (s\<lparr>mem := m'\<rparr>) \<and>
     kfree (of_nat (b + span xs + 16)) (s\<lparr>mem := d\<rparr>) = Some (s\<lparr>mem := d'\<rparr>) \<and> eq_out A m' d' \<and>
     heap_rep (s\<lparr>mem := m'\<rparr>) (free_blks xs sz ys)"
proof -
  define c where "c = b + span xs"
  have t: "tiled (mem s) b (xs @ (sz, False) # ys)" using rep by (auto simp: heap_rep_def tiled_def b_def)
  note blk = tiled_block [OF t, folded c_def]
  have fit: "c + 16 + sz + span ys < two32" using rep by (simp add: heap_rep_def b_def c_def)
  have o: "clear_of A (of_nat (p + i))" if "p + 16 \<le> two32" "i + 4 \<le> 16" "p + 16 \<le> c + 16 \<or> p = c + 16 + sz \<and> 4 \<le> i" for p i
    by (rule clear_of_nat) (use that A in \<open>auto simp: zone_def c_def\<close>)
  have c: "c + 16 \<le> two32" "0 < c" using fit blk(5) by simp_all
  have oc: "clear_of A (of_nat c)" "clear_of A (of_nat c + 4)" "clear_of A (of_nat c + 8)"
    using o [OF c(1), of 0] o [OF c(1), of 4] o [OF c(1), of 8] by simp_all
  have buf: "(of_nat (c + 16) :: addr) - BLK_HEADER_SIZE = of_nat c" by (simp add: BLK_HEADER_SIZE_def)
  have sg: "seg (mem s) 0 b (xs @ [(sz, False)]) (if ys = [] then 0 else c + 16 + sz)"
    using t by (auto simp: tiled_def seg_append c_def add.assoc)
  have "A \<inter> head_bytes b (xs @ [(sz, False)]) = {}"
    using A head_bytes_range [of _ b xs] by (force simp: head_bytes_append head_bytes_simps zone_def)
  then have sd: "seg d 0 b (xs @ [(sz, False)]) (if ys = [] then 0 else c + 16 + sz)"
    using seg_heads_frame [OF e] sg t by (simp add: tiled_def)
  have gs: "get_block_header (of_nat (c + 16)) s = Some (of_nat c)"
    using get_block_header_loop_found [OF sg] t unfolding get_block_header_def buf by (simp add: tiled_def b_def c_def del: of_nat_add)
  have gd: "get_block_header (of_nat (c + 16)) (s\<lparr>mem := d\<rparr>) = Some (of_nat c)"
    using get_block_header_loop_found [OF sd] t unfolding get_block_header_def buf by (simp add: tiled_def b_def c_def del: of_nat_add)
  have bufeq: "store_global_head s + of_nat (span xs + 16) = of_nat (c + 16)" by (simp add: c_def b_def)
  obtain m' where m': "kfree (of_nat (c + 16)) s = Some (s\<lparr>mem := m'\<rparr>)" "heap_rep (s\<lparr>mem := m'\<rparr>) (free_blks xs sz ys)"
    using kfree_spec [OF rep] unfolding bufeq by blast
  obtain m1 where m1: "merge_next (mem s) (of_nat c) = Some m1" "tiled m1 b (xs @ (fst (absorb_next sz ys), False) # snd (absorb_next sz ys))"
    using merge_next_tiled [OF t] unfolding c_def by blast
  obtain m2 h2 where m2: "merge_prev m1 (of_nat c) = Some (m2, h2)"
    using merge_prev_tiled [OF m1(2)] unfolding c_def by blast
  have nx: "ld32 (mem s) (of_nat c + 4) = of_nat (if ys = [] then 0 else c + 16 + sz)" using blk(2) by simp
  have h: "c + 16 + sz + 16 \<le> two32" if "ys \<noteq> []" using that fit by (cases ys) auto
  have onx: "clear_of A (ld32 (mem s) (of_nat c + 4) + i)" if "ld32 (mem s) (of_nat c + 4) \<noteq> 0" "i \<in> {4, 8, 12}" for i
    using that nx h o [of "c + 16 + sz" 4] o [of "c + 16 + sz" 8] o [of "c + 16 + sz" 12] by (auto simp: add.assoc split: if_splits)
  have pv: "ld32 m1 (of_nat c) = of_nat (back_of b xs)" using tiled_block(1) [OF m1(2)] by (simp add: c_def)
  have pc: "back_of b xs + 16 \<le> c + 16" by (cases xs rule: rev_cases) (simp_all add: back_of_def c_def)
  have opv: "clear_of A (ld32 m1 (of_nat c) + i)" if "i \<in> {8, 12}" for i
    using that pv pc c o [of "back_of b xs" 8] o [of "back_of b xs" 12] by auto
  obtain d1 where d1: "merge_next d (of_nat c) = Some d1" "eq_out A m1 d1"
    using twin_merge_next [OF e m1(1) oc(2,3)] onx by blast
  obtain d2 where d2: "merge_prev d1 (of_nat c) = Some (d2, h2)" "eq_out A m2 d2"
    using twin_merge_prev [OF d1(2) m2] oc opv by auto
  have nz: "(of_nat (c + 16) :: addr) \<noteq> 0" "(of_nat c :: addr) \<noteq> 0" "store_global_head s \<noteq> 0"
    using fit c rep of_nat_zero_fit [of "c + 16"] by (auto simp: heap_rep_def simp del: of_nat_add)
  then have h2: "h2 \<noteq> 0" "m' = st32 m2 (h2 + 12) 1" using m'(1) gs m1(1) m2 by (auto simp: kfree_def wr32_def dest: arg_cong [where f = mem] split: if_splits)
  have "kfree (of_nat (c + 16)) (s\<lparr>mem := d\<rparr>) = Some (s\<lparr>mem := st32 d2 (h2 + 12) 1\<rparr>)"
    using gd d1(1) d2(1) nz h2 by (simp add: kfree_def)
  then show ?thesis using m' twin_st [OF d2(2), of "h2 + 12" 1] h2(2) unfolding c_def by blast
qed

lemma head_bytes_free_blks:
  "head_bytes b (free_blks xs sz ys) \<subseteq> head_bytes b (xs @ (fst (absorb_next sz ys), f) # snd (absorb_next sz ys))"
proof (cases "xs \<noteq> [] \<and> snd (last xs)")
  case True
  then obtain xs0 z where "xs = xs0 @ [(z, True)]" by (metis (full_types) append_butlast_last_id prod.collapse)
  then show ?thesis by (auto simp: free_blks_def head_bytes_append head_bytes_simps add.assoc split: prod.splits)
next
  case False
  then show ?thesis by (auto simp: free_blks_def head_bytes_append head_bytes_simps split: prod.splits)
qed

lemma free_blks_off_heads:
  assumes "A \<subseteq> zone (b + span xs + 16) (sz + 3)" and "b + span (xs @ (sz, False) # ys) \<le> two32"
    and "A \<subseteq> zone (b + span xs + 16) sz \<or> b + span xs + 16 + sz + 16 \<notin> fst ` set (live (b + span xs + 16 + sz) ys)"
  shows "A \<inter> head_bytes b (free_blks xs sz ys) = {}"
proof -
  have x: "A \<inter> head_bytes b xs = {}" "A \<inter> zone (b + span xs) 16 = {}"
    using assms(1) head_bytes_range [of _ b xs] by (force simp: zone_def)+
  have y: "A \<inter> head_bytes (b + span xs + 16 + fst (absorb_next sz ys)) (snd (absorb_next sz ys)) = {}"
  proof (cases "A \<subseteq> zone (b + span xs + 16) sz")
    case True
    then show ?thesis using head_bytes_range [of _ "b + span xs + 16 + fst (absorb_next sz ys)"]
      by (force simp: zone_def absorb_next_def split: if_splits)
  next
    case False
    then have "ys = [] \<or> snd (hd ys)" using assms(3) by (cases ys) auto
    then show ?thesis using assms(1) head_bytes_range [of _ "b + span xs + 16 + fst (absorb_next sz ys)"]
      by (cases ys) (force simp: zone_def absorb_next_def head_bytes_simps)+
  qed
  have "A \<inter> head_bytes b (xs @ (fst (absorb_next sz ys), True) # snd (absorb_next sz ys)) = {}"
    using x y by (auto simp: head_bytes_append head_bytes_simps)
  then show ?thesis using head_bytes_free_blks [of b xs sz ys True] by blast
qed

lemma kfree_owns_twin:
  assumes own: "heap_owns s (rs1 @ (p, k) # rs2)" and e: "eq_out A (mem s) d" and A: "A \<subseteq> zone p (k + 3)"
  shows "\<exists>s' d'. kfree (of_nat p) s = Some s' \<and> kfree (of_nat p) (s\<lparr>mem := d\<rparr>) = Some (s'\<lparr>mem := d'\<rparr>) \<and>
     eq_out A (mem s') d' \<and>
     (A \<subseteq> zone p k \<or> p + k + 16 \<notin> fst ` set rs2 \<longrightarrow> heap_owns (s'\<lparr>mem := d'\<rparr>) (rs1 @ rs2))"
proof -
  let ?b = "unat (store_global_head s)"
  obtain bs where rep: "heap_rep s bs" and l: "live ?b bs = rs1 @ (p, k) # rs2" using own by (auto simp: heap_owns_def)
  obtain xs ys where d: "bs = xs @ (k, False) # ys" "p = ?b + span xs + 16" "rs1 = live ?b xs" "rs2 = live (?b + span xs + 16 + k) ys"
    using live_split [OF l] by blast
  obtain m' d' where k: "kfree (of_nat p) s = Some (s\<lparr>mem := m'\<rparr>)" "kfree (of_nat p) (s\<lparr>mem := d\<rparr>) = Some (s\<lparr>mem := d'\<rparr>)"
    "eq_out A m' d'" "heap_rep (s\<lparr>mem := m'\<rparr>) (free_blks xs k ys)"
    using kfree_twin [of s xs k ys A d] rep e A unfolding d(1,2) by blast
  have "heap_owns (s\<lparr>mem := d'\<rparr>) (rs1 @ rs2)" if "A \<subseteq> zone p k \<or> p + k + 16 \<notin> fst ` set rs2"
  proof -
    have fit: "?b + span (free_blks xs k ys) < two32" using k(4) by (simp add: heap_rep_def)
    have "A \<inter> head_bytes ?b (free_blks xs k ys) = {}"
      using free_blks_off_heads [of A ?b xs k ys] A that d rep by (simp add: heap_rep_def)
    then have "heap_rep (s\<lparr>mem := d'\<rparr>) (free_blks xs k ys)"
      using k(4) seg_heads_frame [OF k(3)] fit by (simp add: heap_rep_def)
    from heap_rep_owns [OF this] show ?thesis using live_free_blks [of ?b xs k ys] d by simp
  qed
  then show ?thesis using k by (intro exI [of _ "s\<lparr>mem := m'\<rparr>"] exI [of _ d']) simp
qed

section \<open>Properties\<close>

text \<open>A store of 96 bytes at 0x1000 with one free block, for the witnesses.\<close>

definition demo :: kheap where
  "demo = \<lparr>mem = st32 (st32 (\<lambda>a. 0) 0x1008 80) 0x100C 1, ports = [], ATTRIBUTE = 7, xpos = 0, ypos = 0,
     video = VIDEO, store_global_head = 0x1000, mem_store_base = 0x1000, mem_store_end = 0x1060,
     mem_store_size = 96\<rparr>"

lemma demo_rep: "heap_rep demo [(80, True)]"
  by (simp add: heap_rep_def demo_def ld32_st32_apart apart_def)

lemma demo_owns: "heap_owns demo []"
  unfolding heap_owns_def by (rule exI [of _ "[(80, True)]"]) (simp add: demo_rep)

text \<open>
  C1: on a well-formed store with a free block that is large enough, \<open>kmalloc\<close>
  computes first fit: it returns the payload of the first such block, the new store is the
  specified block list (again well-formed, with no two free neighbours), no byte of a live
  block changes, and no byte outside the store.
\<close>

theorem kmalloc_refines:
  assumes "heap_rep s bs" and "0 < n" and "\<exists>b \<in> set bs. fits n b"
  shows "\<exists>m' off. kmalloc (of_nat n) s = Some (store_global_head s + of_nat off, s\<lparr>mem := m'\<rparr>) \<and>
     alloc_off n bs = Some off \<and> heap_rep (s\<lparr>mem := m'\<rparr>) (alloc_blks n bs) \<and>
     untouched (live (unat (store_global_head s)) bs) (mem s) m' \<and>
     eq_out (zone (unat (store_global_head s)) (span bs)) (mem s) m'"
  using kmalloc_spec [OF assms] .

theorem kmalloc_refines_witness:
  "\<exists>m'. kmalloc 8 demo = Some (0x1010, demo\<lparr>mem := m'\<rparr>) \<and>
     heap_rep (demo\<lparr>mem := m'\<rparr>) [(8, False), (56, True)]"
  using kmalloc_refines [OF demo_rep, of 8]
  by (auto simp: fits_def carve_def) (auto simp: demo_def)

text \<open>
  The region \<open>kmalloc\<close> returns overlaps no live region, and every live region
  keeps its contents.
\<close>

lemma kmalloc_fresh:
  assumes "heap_owns s rs" and "0 < n" and "kmalloc n s = Some (a, s')" and "(p, k) \<in> set rs"
  shows "a \<noteq> 0 \<and> (p + k \<le> unat a \<or> unat a + unat n \<le> p) \<and>
     (\<forall>i < k. mem s' (of_nat p + of_nat i) = mem s (of_nat p + of_nat i))"
  using kheap.alloc_fresh [OF assms] kmalloc_heap_owns [OF assms(1-3)] assms(4)
  by (auto dest: untouched_nth)

text \<open>
  C28: with no free block that is large enough, \<open>kmalloc\<close> has no result: the
  search loop walks past the last block and reads the \<open>next\<close> field of a null
  pointer; the branch that would return NULL and print a message is never reached.
\<close>

theorem kmalloc_exhausted:
  assumes "heap_rep s bs" and "0 < n" and "n < two32" and "\<forall>b \<in> set bs. \<not> fits n b"
  shows "kmalloc (of_nat n) s = None"
  using kmalloc_fails [OF assms] .

theorem kmalloc_exhausted_witness: "kmalloc 81 demo = None"
  using kmalloc_exhausted [OF demo_rep, of 81] by (simp add: fits_def)

text \<open>
  C2: \<open>kfree\<close> of the payload of any block returns, marks the block free and
  merges it with both free neighbours; the store stays well-formed, only bytes of block headers
  change, and so no byte of the other live blocks.
\<close>

theorem kfree_refines:
  assumes "heap_rep s (xs @ (sz, fr) # ys)"
  shows "\<exists>m'. kfree (store_global_head s + of_nat (span xs + 16)) s = Some (s\<lparr>mem := m'\<rparr>) \<and>
     heap_rep (s\<lparr>mem := m'\<rparr>) (free_blks xs sz ys) \<and>
     untouched (live (unat (store_global_head s)) xs @
       live (unat (store_global_head s) + span xs + 16 + sz) ys) (mem s) m' \<and>
     eq_out (head_bytes (unat (store_global_head s)) (xs @ (sz, fr) # ys)) (mem s) m'"
  using kfree_spec [OF assms] .

theorem kfree_refines_witness:
  "\<exists>m1 m2. kmalloc 8 demo = Some (0x1010, demo\<lparr>mem := m1\<rparr>) \<and>
     kfree 0x1010 (demo\<lparr>mem := m1\<rparr>) = Some (demo\<lparr>mem := m2\<rparr>) \<and>
     heap_rep (demo\<lparr>mem := m2\<rparr>) [(80, True)]"
proof -
  obtain m' where k: "kmalloc 8 demo = Some (0x1010, demo\<lparr>mem := m'\<rparr>)"
    and r: "heap_rep (demo\<lparr>mem := m'\<rparr>) ([] @ (8, False) # [(56, True)])"
    using kmalloc_spec [OF demo_rep, of 8] by (auto simp: fits_def carve_def) (auto simp: demo_def)
  have h: "store_global_head demo = 0x1000" by (simp add: demo_def)
  show ?thesis
    using kfree_refines [OF r] k by (auto simp: h free_blks_def absorb_next_def)
qed

text \<open>
  Freeing what was just allocated gives back the block list from before the allocation
  (the split is undone), with every live byte unchanged.
\<close>

lemma kmalloc_kfree:
  assumes "heap_rep s bs" and "0 < n" and "n < two32" and "kmalloc (of_nat n) s = Some (a, s1)"
  shows "\<exists>s2. kfree a s1 = Some s2 \<and> heap_rep s2 bs \<and> s2 = s\<lparr>mem := mem s2\<rparr> \<and>
     untouched (live (unat (store_global_head s)) bs) (mem s) (mem s2)"
  using kmalloc_kfree_rep [OF assms] .

text \<open>
  Given the boot loader's memory map, start-up takes a usable region no other usable
  region exceeds, skips its first 8 MB, and leaves a well-formed store of one free block that
  fills the rest.
\<close>

lemma init_kmalloc_ready:
  assumes "mbi \<noteq> 0" and "ld32 (mem s) (mbi + 48) = of_nat pos"
    and "ld32 (mem s) (mbi + 44) = of_nat (mmap_span es)"
    and "mmap_table (mem s) pos es" and "0 < pos" and "pos + mmap_span es < two32"
    and "mmap_best es = (ad, len)" and "0x800010 \<le> unat len" and "unat ad + unat len < two32"
  shows "(\<forall>sz ad' len'. (sz, ad', len', 1) \<in> set es \<longrightarrow> len' \<le> len) \<and>
     (\<exists>sz. (sz, ad, len, 1) \<in> set es) \<and>
     (\<exists>s'. init_kmalloc mbi s = Some s' \<and> heap_rep s' [(unat len - 0x800010, True)] \<and>
        unat (store_global_head s') = unat ad + 0x800000 \<and>
        unat (mem_store_end s') = unat ad + unat len)"
proof (intro conjI allI impI)
  show "\<exists>s'. init_kmalloc mbi s = Some s' \<and> heap_rep s' [(unat len - 0x800010, True)] \<and>
        unat (store_global_head s') = unat ad + 0x800000 \<and>
        unat (mem_store_end s') = unat ad + unat len"
    using init_kmalloc_heap_rep [OF assms] by blast
  show "\<exists>sz. (sz, ad, len, 1) \<in> set es"
    using mmap_best_entry [of 0 0 es] assms(7,8) by (auto simp: mmap_best_def)
  show "len' \<le> len" if "(sz, ad', len', 1) \<in> set es" for sz ad' len'
    using mmap_best_max [of sz ad' len' es 0 0] that assms(7) by (simp add: mmap_best_def)
qed

text \<open>A boot with one reserved and one usable region of 16 MB at 1 MB.\<close>

definition demo_boot :: kheap where
  "demo_boot = demo\<lparr>mem := st32 (st32 (st32 (st32 (st32 (st32 (st32 (st32 (st32 (st32 (\<lambda>a. 0)
     0x530 0x600) 0x52C 48) 0x600 20) 0x60C 0x90000) 0x614 2) 0x618 20) 0x61C 0x100000)
     0x624 0x1000000) 0x62C 1) 0x800 7\<rparr>"

text \<open>
  \<open>kcalloc\<close> returns a fresh region of at least the requested size whose
  requested bytes are zero, and changes no other live region.
\<close>

lemma kcalloc_zeroed:
  assumes "heap_rep s bs" and "0 < n" and "\<exists>b \<in> set bs. fits n b"
  shows "\<exists>a s' rs1 rs2 k. kcalloc (of_nat n) s = Some (a, s') \<and>
     live (unat (store_global_head s)) bs = rs1 @ rs2 \<and> n \<le> k \<and>
     heap_owns s' (rs1 @ (unat a, k) # rs2) \<and>
     untouched (rs1 @ rs2) (mem s) (mem s') \<and> (\<forall>i < n. mem s' (a + of_nat i) = 0)"
proof -
  obtain a s1 where km: "kmalloc (of_nat n) s = Some (a, s1)"
    using kmalloc_spec [OF assms] by blast
  have n: "n < two32" using assms(1,3) heap_rep_fits by blast
  have "0 < (of_nat n :: u32)" using n assms(2) by (simp add: word_less_nat_alt)
  from kcalloc_owns [OF heap_rep_owns [OF assms(1)] this km] n show ?thesis
    by (simp only: unat_of_nat_fit) metis
qed

text \<open>
  C27: when the block is large enough or another free block is, \<open>krealloc\<close> returns
  a region of at least the new size that holds the old contents; the old region is released
  and the other live regions keep their bytes.
\<close>

theorem krealloc_moves:
  assumes "heap_rep s bs" and "live (unat (store_global_head s)) bs = rs1 @ (p, k) # rs2"
    and "n \<le> k \<or> (\<exists>b \<in> set bs. fits n b)"
  shows "\<exists>a s' vs1 vs2 j. krealloc (of_nat p) (of_nat n) s = Some (a, s') \<and> rs1 @ rs2 = vs1 @ vs2 \<and>
     n \<le> j \<and> heap_owns s' (vs1 @ (unat a, j) # vs2) \<and>
     untouched (rs1 @ rs2) (mem s) (mem s') \<and>
     (\<forall>i < k. mem s' (a + of_nat i) = mem s (of_nat p + of_nat i))"
proof -
  have o: "heap_owns s (rs1 @ (p, k) # rs2)" using heap_rep_owns [OF assms(1)] assms(2) by simp
  have pk: "p + k < two32" using kheap.owns_range [OF o, of p k] by simp
  show ?thesis
  proof (cases "n \<le> k")
    case True
    then have "krealloc (of_nat p) (of_nat n) s = Some (of_nat p, s)"
      using krealloc_keep [OF o, of "of_nat n"] pk by simp
    with True o pk show ?thesis
      by (intro exI [of _ "of_nat p"] exI [of _ s] exI [of _ rs1] exI [of _ rs2] exI [of _ k]) auto
  next
    case False
    then have fit: "\<exists>b \<in> set bs. fits n b" and n: "0 < n" using assms(3) by auto
    then obtain a s1 where "kmalloc (of_nat n) s = Some (a, s1)"
      using kmalloc_spec [OF assms(1)] by blast
    moreover have "n < two32" using assms(1) fit heap_rep_fits by blast
    ultimately show ?thesis
      using krealloc_grow [OF o, of "of_nat n" a s1] False
      by (simp only: unat_of_nat_fit not_le) metis
  qed
qed

theorem krealloc_moves_witness:
  "\<exists>s1 a s2. kmalloc 8 demo = Some (0x1010, s1) \<and> krealloc 0x1010 20 s1 = Some (a, s2) \<and>
     mem s2 (a + 7) = mem s1 0x1017"
proof -
  obtain m' where k: "kmalloc 8 demo = Some (0x1010, demo\<lparr>mem := m'\<rparr>)"
    and r: "heap_rep (demo\<lparr>mem := m'\<rparr>) [(8, False), (56, True)]"
    using kmalloc_spec [OF demo_rep, of 8] by (auto simp: fits_def carve_def) (auto simp: demo_def)
  have h: "store_global_head demo = 0x1000" by (simp add: demo_def)
  obtain a s2 where s: "krealloc 0x1010 20 (demo\<lparr>mem := m'\<rparr>) = Some (a, s2)"
    "\<forall>i < 8. mem s2 (a + of_nat i) = m' (0x1010 + of_nat i)"
    using krealloc_moves [OF r, of "[]" "0x1010" 8 "[]" 20] by (auto simp: fits_def h)
  from s(2) [rule_format, of 7] s(1) k show ?thesis by auto
qed

end
