(* ===== verification/Sched_Queues.thy ===== *)
theory Sched_Queues
  imports Sched Kmalloc_Proofs
begin

text \<open>
  Task structures and the circular queues through them: fields of different tasks do not
  interfere, \<open>splice_inq\<close> appends to a ring and \<open>splice_outq\<close> removes from it. The locale
  \<open>task_queue\<close> is what the scheduler needs of its queues; the two splice routines interpret it.
  Tasks are live regions of the heap, so writes to their fields keep the allocator's store.
\<close>

section \<open>Fields of task structures\<close>

definition task_ok :: "addr \<Rightarrow> bool" where
  "task_ok x \<longleftrightarrow> x \<noteq> 0 \<and> unat x + 112 \<le> two32"

definition tsep :: "addr set \<Rightarrow> bool" where
  "tsep T \<longleftrightarrow> (\<forall>x \<in> T. task_ok x) \<and> (\<forall>x \<in> T. \<forall>y \<in> T. x \<noteq> y \<longrightarrow> apart x 112 y 112)"

definition tfield :: "u32 \<Rightarrow> bool" where
  "tfield i \<longleftrightarrow> unat i + 4 \<le> 112 \<and> 4 dvd unat i"

lemma tfield_offsets [simp]:
  "tfield 0" "tfield 4" "tfield 8" "tfield 12" "tfield 16" "tfield 20" "tfield 24" "tfield 28"
  "tfield 32" "tfield 36" "tfield 104" "tfield 108"
  by (simp_all add: tfield_def)

lemma tsep_subset: "tsep T \<Longrightarrow> S \<subseteq> T \<Longrightarrow> tsep S"
  by (auto simp: tsep_def)

lemma tsep_nonnull: "tsep T \<Longrightarrow> x \<in> T \<Longrightarrow> x \<noteq> 0"
  by (auto simp: tsep_def task_ok_def)

lemma unat_field: "task_ok x \<Longrightarrow> tfield i \<Longrightarrow> unat (x + i) = unat x + unat i"
  by (rule unat_plus_fit) (auto simp: task_ok_def tfield_def)

lemma field_in_task:
  assumes "task_ok x" and "tfield i"
  shows "unat x \<le> unat (x + i) \<and> unat (x + i) + 4 \<le> unat x + 112"
  using unat_field [OF assms] assms by (simp add: tfield_def)

lemma tfield_disjoint:
  assumes "tfield i" "tfield j" "i \<noteq> j"
  shows "unat i + 4 \<le> unat j \<or> unat j + 4 \<le> unat i"
proof -
  obtain a b where "unat i = 4 * a" "unat j = 4 * b" using assms(1,2) by (auto simp: tfield_def dvd_def)
  moreover have "unat i \<noteq> unat j" using assms(3) by (simp add: word_unat_eq_iff)
  ultimately show ?thesis by (cases a b rule: linorder_cases) auto
qed

lemma task_fld:
  assumes "tsep T" "x \<in> T" "y \<in> T" "tfield i" "tfield j"
  shows "ld32 (st32 m (x + i) v) (y + j) = (if x = y \<and> i = j then v else ld32 m (y + j))"
proof (cases "x = y \<and> i = j")
  case False
  have ok: "task_ok x" "task_ok y" using assms by (auto simp: tsep_def)
  have "apart (x + i) 4 (y + j) 4"
  proof (cases "x = y")
    case True
    with False tfield_disjoint [OF assms(4,5)] unat_field [OF ok(1) assms(4)]
      unat_field [OF ok(1) assms(5)] field_in_task [OF ok(1) assms(4)]
      field_in_task [OF ok(1) assms(5)] ok
    show ?thesis by (auto simp: apart_def task_ok_def)
  next
    case False
    then have "apart x 112 y 112" using assms(1-3) by (auto simp: tsep_def)
    with field_in_task [OF ok(1) assms(4)] field_in_task [OF ok(2) assms(5)]
    show ?thesis by (auto simp: apart_def)
  qed
  with False show ?thesis by (auto simp: ld32_st32_apart)
qed simp

lemmas task_fld0 = task_fld [where i = 0, simplified] task_fld [where j = 0, simplified]
  task_fld [where i = 0 and j = 0, simplified]

section \<open>Circular lists\<close>

definition link :: "mem \<Rightarrow> addr \<Rightarrow> addr \<Rightarrow> bool" where
  "link m x y \<longleftrightarrow> ld32 m (x + 108) = y \<and> ld32 m (y + 104) = x"

fun linked :: "mem \<Rightarrow> addr list \<Rightarrow> bool" where
  "linked m [] = True"
| "linked m [x] = True"
| "linked m (x # y # r) = (link m x y \<and> linked m (y # r))"

definition cyc :: "mem \<Rightarrow> addr list \<Rightarrow> bool" where
  "cyc m xs \<longleftrightarrow> xs = [] \<or> linked m (xs @ [hd xs])"

definition ring :: "mem \<Rightarrow> addr \<Rightarrow> addr list \<Rightarrow> bool" where
  "ring m head xs \<longleftrightarrow> head = (if xs = [] then 0 else hd xs) \<and> distinct xs \<and> cyc m xs"

lemma linked_Cons: "xs \<noteq> [] \<Longrightarrow> linked m (x # xs) \<longleftrightarrow> link m x (hd xs) \<and> linked m xs"
  by (cases xs) auto

lemma linked_append:
  "xs \<noteq> [] \<Longrightarrow> ys \<noteq> [] \<Longrightarrow>
     linked m (xs @ ys) \<longleftrightarrow> linked m xs \<and> link m (last xs) (hd ys) \<and> linked m ys"
proof (induction xs)
  case (Cons x xs)
  then show ?case by (cases "xs = []") (auto simp: linked_Cons)
qed simp

lemma cyc_rotate: "cyc m (xs @ ys) = cyc m (ys @ xs)"
proof (cases "xs = [] \<or> ys = []")
  case False
  then have "linked m (xs @ ys @ [hd xs]) \<longleftrightarrow>
      linked m xs \<and> link m (last xs) (hd ys) \<and> linked m ys \<and> link m (last ys) (hd xs)"
    by (simp add: linked_append)
  moreover have "linked m (ys @ xs @ [hd ys]) \<longleftrightarrow>
      linked m ys \<and> link m (last ys) (hd xs) \<and> linked m xs \<and> link m (last xs) (hd ys)"
    using False by (simp add: linked_append)
  ultimately show ?thesis using False by (auto simp: cyc_def)
qed auto

lemma cyc_snoc:
  "xs \<noteq> [] \<Longrightarrow> cyc m (xs @ [e]) \<longleftrightarrow> linked m xs \<and> link m (last xs) e \<and> link m e (hd xs)"
  by (simp add: cyc_def linked_append)

lemma cyc_close: "xs \<noteq> [] \<Longrightarrow> cyc m xs \<longleftrightarrow> linked m xs \<and> link m (last xs) (hd xs)"
  by (simp add: cyc_def linked_append)

lemma linked_cong:
  assumes "\<And>x. x \<in> set (butlast xs) \<Longrightarrow> ld32 m' (x + 108) = ld32 m (x + 108)"
    and "\<And>x. x \<in> set (tl xs) \<Longrightarrow> ld32 m' (x + 104) = ld32 m (x + 104)"
  shows "linked m' xs = linked m xs"
  using assms
proof (induction xs)
  case (Cons x xs)
  have *: "linked m' xs = linked m xs"
  proof (rule Cons.IH)
    fix y assume "y \<in> set (butlast xs)"
    moreover from this have "xs \<noteq> []" by auto
    ultimately show "ld32 m' (y + 108) = ld32 m (y + 108)" using Cons.prems(1) [of y] by simp
  next
    fix y assume "y \<in> set (tl xs)"
    then show "ld32 m' (y + 104) = ld32 m (y + 104)" using Cons.prems(2) [of y] by (cases xs) auto
  qed
  show ?case
  proof (cases "xs = []")
    case False
    then have "link m' x (hd xs) = link m x (hd xs)"
      using Cons.prems(1) [of x] Cons.prems(2) [of "hd xs"] by (simp add: link_def)
    with False * show ?thesis by (simp add: linked_Cons)
  qed simp
qed simp

definition links :: "addr list \<Rightarrow> addr set" where
  "links xs = {a. \<exists>x \<in> set xs. unat x + 104 \<le> unat a \<and> unat a < unat x + 112}"

lemma links_mono: "set xs \<subseteq> set ys \<Longrightarrow> links xs \<subseteq> links ys"
  by (auto simp: links_def)

lemma link_region:
  assumes "x \<in> set xs" and "task_ok x" and "i = 104 \<or> i = 108"
  shows "region (x + i) 4 \<subseteq> links xs" and "unat (x + i) + 4 \<le> two32"
proof -
  have u: "unat (x + i) = unat x + unat i" using unat_field [OF assms(2)] assms(3) by auto
  then show "unat (x + i) + 4 \<le> two32" using assms by (auto simp: task_ok_def)
  show "region (x + i) 4 \<subseteq> links xs"
  proof
    fix a assume "a \<in> region (x + i) 4"
    then have "unat x + 104 \<le> unat a \<and> unat a < unat x + 112"
      using u assms(3) by (auto simp: region_def)
    with assms(1) show "a \<in> links xs" by (auto simp: links_def)
  qed
qed

lemma eq_out_link:
  assumes "eq_out (links xs) m m'" and "x \<in> set xs" and "task_ok x" and "i = 104 \<or> i = 108"
  shows "eq_out (links xs) m (st32 m' (x + i) v)"
  by (rule eq_out_trans [OF assms(1) eq_out_st32 [OF link_region(2,1)]]) (use assms in auto)

text \<open>Fields that are not links, and fields of other tasks, are kept.\<close>

lemma links_other_field:
  assumes "eq_out (links xs) m m'" and "tsep (insert x (set xs))" and "tfield i" and "unat i < 104"
  shows "ld32 m' (x + i) = ld32 m (x + i)"
proof (rule eq_out_ld32 [OF assms(1)])
  have ok: "task_ok x" using assms(2) by (simp add: tsep_def)
  note u = unat_field [OF ok assms(3)]
  have i: "unat i + 4 \<le> 104" using assms(3,4) by (auto simp: tfield_def dvd_def)
  show "unat (x + i) + 4 \<le> two32" using u i ok by (simp add: task_ok_def)
  have "y = x \<or> apart x 112 y 112" if "y \<in> set xs" for y
    using assms(2) that by (auto simp: tsep_def)
  then show "region (x + i) 4 \<inter> links xs = {}"
    using u i by (fastforce simp: region_def links_def apart_def)
qed

lemma cyc_frame:
  assumes "eq_out A m m'" and "links xs \<inter> A = {}" and "\<And>x. x \<in> set xs \<Longrightarrow> task_ok x"
  shows "cyc m' xs = cyc m xs"
proof -
  have "ld32 m' (x + i) = ld32 m (x + i)" if "x \<in> set xs" "i = 104 \<or> i = 108" for x i
    using link_region [OF that(1) assms(3) that(2)] that assms(1,2)
    by (intro eq_out_ld32) auto
  then have "linked m' (xs @ [hd xs]) = linked m (xs @ [hd xs])" if "xs \<noteq> []"
    using that by (intro linked_cong) (auto dest: in_set_butlastD list.set_sel)
  then show ?thesis by (auto simp: cyc_def)
qed

lemma ring_frame:
  "ring m h xs \<Longrightarrow> eq_out A m m' \<Longrightarrow> links xs \<inter> A = {} \<Longrightarrow> (\<And>x. x \<in> set xs \<Longrightarrow> task_ok x) \<Longrightarrow>
     ring m' h xs"
  using cyc_frame [of A m m' xs] by (simp add: ring_def)

lemma splice_inq_ring:
  assumes ring: "ring m h xs" and sep: "tsep (insert e (set xs))" and new: "e \<notin> set xs"
  shows "\<exists>m' h'. splice_inq m h e = Some (m', h') \<and> ring m' h' (xs @ [e]) \<and>
     eq_out (links (e # xs)) m m'"
proof (cases "xs = []")
  case True
  have e: "e \<noteq> 0" "task_ok e" using sep by (auto simp: tsep_def task_ok_def)
  let ?m = "st32 (st32 m (e + 108) e) (e + 104) e"
  have "link ?m e e" using task_fld [OF sep, of e e] by (simp add: link_def)
  moreover have "eq_out (links [e]) m ?m" by (intro eq_out_link eq_out_refl) (use e in auto)
  ultimately show ?thesis
    using True ring e by (auto simp: splice_inq_def ring_def cyc_def)
next
  case False
  let ?T = "insert e (set xs)"
  define l where "l = last xs"
  have h: "h = hd xs" "h \<in> ?T" "l \<in> ?T" "e \<in> ?T" "h \<noteq> e" "l \<noteq> e" "h \<in> set xs" "l \<in> set xs"
    using ring False new by (auto simp: ring_def l_def)
  have ok: "task_ok x" "x \<noteq> 0" if "x \<in> ?T" for x using sep that by (auto simp: tsep_def task_ok_def)
  have c: "linked m xs" "ld32 m (l + 108) = h" "ld32 m (h + 104) = l"
    using ring False cyc_close [of xs m] h(1) by (auto simp: ring_def link_def l_def)
  let ?m = "st32 (st32 (st32 (st32 m (e + 108) h) (e + 104) l) (l + 108) e) (h + 104) e"
  have run: "splice_inq m h e = Some (?m, h)"
    using c h ok [OF h(2)] ok [OF h(3)] ok [OF h(4)]
    by (simp add: splice_inq_def task_fld [OF sep])
  have eq: "eq_out (links (e # xs)) m ?m"
    by (intro eq_out_link eq_out_refl) (use h ok in auto)
  have ends: "link ?m l e" "link ?m e h"
    using h by (simp_all add: link_def task_fld [OF sep])
  have dist: "distinct xs" using ring by (simp add: ring_def)
  have "linked ?m xs"
  proof (rule linked_cong [THEN iffD2, OF _ _ c(1)])
    fix x assume x: "x \<in> set (butlast xs)"
    then have "x \<in> ?T" "x \<noteq> e" using new by (auto dest: in_set_butlastD)
    moreover have "x \<noteq> l" using dist x False l_def
      by (metis append_butlast_last_id distinct_append disjoint_iff list.set_intros(1))
    ultimately show "ld32 ?m (x + 108) = ld32 m (x + 108)"
      using h by (auto simp: task_fld [OF sep])
  next
    fix x assume x: "x \<in> set (tl xs)"
    then have "x \<in> ?T" "x \<noteq> e" "x \<noteq> h"
      using new dist False h(1) by (cases xs; auto)+
    then show "ld32 ?m (x + 104) = ld32 m (x + 104)"
      using h by (auto simp: task_fld [OF sep])
  qed
  with ends run eq False dist new h(1) show ?thesis
    by (auto simp: ring_def cyc_snoc l_def)
qed

text \<open>Taking the first element out of a cycle of at least two.\<close>

lemma unlink_cyc:
  assumes cyc: "cyc m (e # ws)" and sep: "tsep (insert e (set ws))" and dist: "distinct (e # ws)"
    and ne: "ws \<noteq> []"
  shows "\<exists>m'. unlink m e = Some m' \<and> cyc m' ws \<and> eq_out (links (e # ws)) m m'"
proof -
  let ?T = "insert e (set ws)"
  define p n where "p = last ws" and "n = hd ws"
  have pn: "p \<in> ?T" "n \<in> ?T" "e \<in> ?T" "p \<noteq> e" "n \<noteq> e" "p \<in> set ws" "n \<in> set ws"
    using ne dist by (auto simp: p_def n_def)
  have ok: "task_ok x" "x \<noteq> 0" if "x \<in> ?T" for x using sep that by (auto simp: tsep_def task_ok_def)
  have c: "linked m ws" "ld32 m (e + 108) = n" "ld32 m (e + 104) = p"
    using cyc ne cyc_close [of "e # ws" m] by (auto simp: linked_Cons link_def n_def p_def)
  let ?m = "st32 (st32 (st32 (st32 m (p + 108) n) (n + 104) p) (e + 108) 0) (e + 104) 0"
  have run: "unlink m e = Some ?m"
    using c pn ok [OF pn(1)] ok [OF pn(2)] ok [OF pn(3)]
    by (simp add: unlink_def task_fld [OF sep])
  have eq: "eq_out (links (e # ws)) m ?m"
    by (intro eq_out_link eq_out_refl) (use pn ok in auto)
  have close: "link ?m p n" using pn by (simp add: link_def task_fld [OF sep])
  have "linked ?m ws"
  proof (rule linked_cong [THEN iffD2, OF _ _ c(1)])
    fix x assume x: "x \<in> set (butlast ws)"
    then have "x \<in> ?T" "x \<noteq> e" using dist by (auto dest: in_set_butlastD)
    moreover have "x \<noteq> p" using dist x ne p_def
      by (metis append_butlast_last_id distinct.simps(2) distinct_append disjoint_iff list.set_intros(1))
    ultimately show "ld32 ?m (x + 108) = ld32 m (x + 108)"
      using pn by (auto simp: task_fld [OF sep])
  next
    fix x assume x: "x \<in> set (tl ws)"
    then have "x \<in> ?T" "x \<noteq> e" "x \<noteq> n"
      using dist ne n_def by (cases ws; auto)+
    then show "ld32 ?m (x + 104) = ld32 m (x + 104)"
      using pn by (auto simp: task_fld [OF sep])
  qed
  with close run eq ne show ?thesis by (auto simp: cyc_close p_def n_def)
qed

lemma splice_outq_ring:
  assumes ring: "ring m h (ys @ e # zs)" and sep: "tsep (set (ys @ e # zs))"
  shows "\<exists>m' h'. splice_outq m h e = Some (m', h') \<and> ring m' h' (ys @ zs) \<and>
     eq_out (links (ys @ e # zs)) m m'"
proof -
  have dist: "distinct (ys @ e # zs)" and cyc: "cyc m (e # zs @ ys)"
    using ring cyc_rotate [of m ys "e # zs"] by (auto simp: ring_def)
  have e0: "e \<noteq> 0" using sep by (auto simp: tsep_def task_ok_def)
  have h: "h = hd (ys @ e # zs)" using ring by (simp add: ring_def)
  have hT: "h \<in> set (ys @ e # zs)" using h by (cases ys) auto
  then have h0: "h \<noteq> 0" using tsep_nonnull [OF sep] by blast
  have nx: "ld32 m (e + 108) = hd (zs @ ys @ [e])"
    using cyc linked_Cons [of "zs @ ys @ [e]" m e] by (simp add: cyc_def link_def)
  show ?thesis
  proof (cases "zs @ ys = []")
    case True
    then show ?thesis using nx h e0 by (auto simp: splice_outq_def ring_def cyc_def)
  next
    case False
    obtain m' where m': "unlink m e = Some m'" "cyc m' (zs @ ys)" "eq_out (links (e # zs @ ys)) m m'"
      using unlink_cyc [OF cyc _ _ False] sep dist by (auto simp: insert_commute Un_commute)
    have eq: "eq_out (links (ys @ e # zs)) m m'"
      by (rule eq_out_mono [OF m'(3)]) (rule links_mono, auto)
    have cyc': "cyc m' (ys @ zs)" using m'(2) cyc_rotate by simp
    show ?thesis
    proof (cases "ys = []")
      case True
      then have he: "h = e" using h by simp
      have zs: "zs \<noteq> []" using False True by simp
      have n: "ld32 m (e + 108) = hd zs" using nx zs by simp
      have "hd zs \<noteq> e" using dist zs by (cases zs) auto
      then show ?thesis
        using True he n m'(1) eq cyc' e0 zs dist by (auto simp: splice_outq_def ring_def)
    next
      case False
      then have "h \<noteq> e" "h = hd ys" using h dist by (cases ys; auto)+
      then show ?thesis
        using m'(1) eq cyc' h0 False dist by (auto simp: splice_outq_def ring_def)
    qed
  qed
qed

section \<open>The queue interface\<close>

text \<open>
  What the scheduler relies on from its queues: joining appends, leaving removes, both return
  and write only link cells of the members; a write elsewhere keeps a queue.
\<close>

locale task_queue =
  fixes rep :: "mem \<Rightarrow> addr \<Rightarrow> addr list \<Rightarrow> bool"
    and join :: "mem \<Rightarrow> addr \<Rightarrow> addr \<Rightarrow> (mem \<times> addr) option"
    and quit :: "mem \<Rightarrow> addr \<Rightarrow> addr \<Rightarrow> (mem \<times> addr) option"
    and cells :: "addr list \<Rightarrow> addr set"
    and room :: "addr set \<Rightarrow> bool"
  assumes join_rep: "rep m h xs \<Longrightarrow> room (insert e (set xs)) \<Longrightarrow> e \<notin> set xs \<Longrightarrow>
      \<exists>m' h'. join m h e = Some (m', h') \<and> rep m' h' (xs @ [e]) \<and> eq_out (cells (e # xs)) m m'"
    and quit_rep: "rep m h (ys @ e # zs) \<Longrightarrow> room (set (ys @ e # zs)) \<Longrightarrow>
      \<exists>m' h'. quit m h e = Some (m', h') \<and> rep m' h' (ys @ zs) \<and> eq_out (cells (ys @ e # zs)) m m'"
    and rep_frame: "rep m h xs \<Longrightarrow> eq_out A m m' \<Longrightarrow> cells xs \<inter> A = {} \<Longrightarrow> room (set xs) \<Longrightarrow> rep m' h xs"
    and rep_distinct: "rep m h xs \<Longrightarrow> distinct xs"
    and room_subset: "room T \<Longrightarrow> S \<subseteq> T \<Longrightarrow> room S"
    and cells_mono: "set xs \<subseteq> set ys \<Longrightarrow> cells xs \<subseteq> cells ys"
    and cells_apart: "room (set xs \<union> set ys) \<Longrightarrow> set xs \<inter> set ys = {} \<Longrightarrow> cells xs \<inter> cells ys = {}"
begin

lemma bystander:
  assumes "rep m h us" and "eq_out (cells xs) m m'" and "room (set us \<union> set xs)"
    and "set us \<inter> set xs = {}"
  shows "rep m' h us"
  by (rule rep_frame [OF assms(1,2) cells_apart [OF assms(3,4)] room_subset [OF assms(3)]]) auto

lemma move:
  assumes q: "rep m h (ys @ e # zs)" and r: "rep m k xs"
    and room: "room (set (ys @ e # zs) \<union> set xs)" and disj: "set (ys @ e # zs) \<inter> set xs = {}"
  shows "\<exists>m1 h1 m2 k2. quit m h e = Some (m1, h1) \<and> join m1 k e = Some (m2, k2) \<and>
     rep m2 h1 (ys @ zs) \<and> rep m2 k2 (xs @ [e]) \<and> eq_out (cells (ys @ e # zs @ xs)) m m2"
proof -
  obtain m1 h1 where m1: "quit m h e = Some (m1, h1)" "rep m1 h1 (ys @ zs)"
    and e1: "eq_out (cells (ys @ e # zs)) m m1"
    using quit_rep [OF q room_subset [OF room]] by auto
  have r1: "rep m1 k xs"
    by (rule bystander [OF r e1]) (use room disj in \<open>auto simp: Un_commute insert_commute\<close>)
  have d: "distinct (ys @ e # zs)" by (rule rep_distinct [OF q])
  obtain m2 k2 where m2: "join m1 k e = Some (m2, k2)" "rep m2 k2 (xs @ [e])"
    and e2: "eq_out (cells (e # xs)) m1 m2"
    using join_rep [OF r1, of e] room_subset [OF room, of "insert e (set xs)"] disj by auto
  have "rep m2 h1 (ys @ zs)"
    by (rule bystander [OF m1(2) e2])
      (use room disj d in \<open>auto intro: room_subset [OF room]\<close>)
  moreover have "eq_out (cells (ys @ e # zs @ xs)) m m2"
    by (rule eq_out_trans [OF eq_out_mono [OF e1 cells_mono] eq_out_mono [OF e2 cells_mono]]) auto
  ultimately show ?thesis using m1 m2 by blast
qed

end

lemma links_apart:
  assumes "tsep (set xs \<union> set ys)" and "set xs \<inter> set ys = {}"
  shows "links xs \<inter> links ys = {}"
proof -
  have "apart x 112 y 112" if "x \<in> set xs" "y \<in> set ys" for x y
    using assms that unfolding tsep_def by (metis UnCI disjoint_iff)
  then show ?thesis by (fastforce simp: links_def apart_def)
qed

interpretation taskq: task_queue ring splice_inq splice_outq links tsep
proof unfold_locales
  fix m h xs A m'
  assume "ring m h xs" "eq_out A m m'" "links xs \<inter> A = {}" "tsep (set xs)"
  then show "ring m' h xs" using ring_frame by (auto simp: tsep_def)
qed (use splice_inq_ring splice_outq_ring tsep_subset links_mono links_apart in
    \<open>auto simp: ring_def [of _ _ "_ @ _ # _"] dest: ring_def [THEN iffD1]\<close>)

section \<open>Tasks in the heap\<close>

definition owned :: "'a kheap_scheme \<Rightarrow> addr set \<Rightarrow> bool" where
  "owned s T \<longleftrightarrow> (\<exists>rs. heap_owns s rs \<and> (\<forall>t \<in> T. \<exists>k. 112 \<le> k \<and> (unat t, k) \<in> set rs))"

definition bodies :: "addr set \<Rightarrow> addr set" where
  "bodies T = {a. \<exists>t \<in> T. unat t \<le> unat a \<and> unat a < unat t + 112}"

lemma heap_owns_cong:
  "mem s' = mem s \<Longrightarrow> store_global_head s' = store_global_head s \<Longrightarrow> heap_owns s' rs = heap_owns s rs"
  by (simp add: heap_owns_def heap_rep_def)

lemma owned_cong:
  "mem s' = mem s \<Longrightarrow> store_global_head s' = store_global_head s \<Longrightarrow> owned s' T = owned s T"
  unfolding owned_def using heap_owns_cong by metis

lemma regions_apart:
  fixes rs :: "(nat \<times> nat) list"
  assumes "sorted_wrt (\<lambda>(p, k) (q, l). p + k < q) rs" and "(p, k) \<in> set rs" "(q, l) \<in> set rs" "p \<noteq> q"
  shows "p + k \<le> q \<or> q + l \<le> p"
  using assms
proof (induction rs)
  case (Cons r rs)
  consider "r = (p, k)" "(q, l) \<in> set rs" | "r = (q, l)" "(p, k) \<in> set rs"
    | "(p, k) \<in> set rs" "(q, l) \<in> set rs"
    using Cons.prems(2-4) by auto
  then show ?case
  proof cases
    case 1
    with Cons.prems(1) have "p + k < q" by auto
    then show ?thesis by simp
  next
    case 2
    with Cons.prems(1) have "q + l < p" by auto
    then show ?thesis by simp
  next
    case 3
    with Cons.IH Cons.prems(1,4) show ?thesis by simp
  qed
qed simp

lemma owned_tsep:
  assumes "owned s T"
  shows "tsep T"
proof -
  obtain rs where rs: "heap_owns s rs" and T: "\<forall>t \<in> T. \<exists>k. 112 \<le> k \<and> (unat t, k) \<in> set rs"
    using assms by (auto simp: owned_def)
  note range = kheap.owns_range [OF rs] and sorted = kheap.owns_apart [OF rs]
  have ok: "task_ok x" if "x \<in> T" for x
    using T that range by (fastforce simp: task_ok_def)
  moreover have "apart x 112 y 112" if x: "x \<in> T" and y: "y \<in> T" and ne: "x \<noteq> y" for x y
  proof -
    obtain k l where "112 \<le> k" "(unat x, k) \<in> set rs" "112 \<le> l" "(unat y, l) \<in> set rs"
      using T x y by blast
    moreover have "unat x \<noteq> unat y" using ne by (simp add: word_unat_eq_iff)
    ultimately show ?thesis
      using regions_apart [OF sorted] ok [OF x] ok [OF y] by (fastforce simp: apart_def task_ok_def)
  qed
  ultimately show ?thesis by (auto simp: tsep_def)
qed

lemma owned_bodies:
  assumes "owned s T" and "eq_out (bodies T) (mem s) m"
  shows "owned (s\<lparr>mem := m\<rparr>) T"
proof -
  obtain rs where rs: "heap_owns s rs" and T: "\<forall>t \<in> T. \<exists>k. 112 \<le> k \<and> (unat t, k) \<in> set rs"
    using assms by (auto simp: owned_def)
  have "bodies T \<subseteq> payload rs"
  proof
    fix a assume "a \<in> bodies T"
    then obtain t where t: "t \<in> T" "unat t \<le> unat a" "unat a < unat t + 112" by (auto simp: bodies_def)
    then obtain k where "112 \<le> k" "(unat t, k) \<in> set rs" using T by blast
    with t have "(unat t, k) \<in> set rs \<and> unat t \<le> unat a \<and> unat a < unat t + k" by simp
    then show "a \<in> payload rs" unfolding payload_def by blast
  qed
  then have "eq_out (payload rs) (mem s) m" by (rule eq_out_mono [OF assms(2)])
  then have "heap_owns (s\<lparr>mem := m\<rparr>) rs" by (rule kheap.poke_owns [OF rs])
  with T show ?thesis by (auto simp: owned_def)
qed

lemma eq_out_body:
  assumes "eq_out (bodies T) m m'" and "t \<in> T" and "task_ok t" and "tfield i"
  shows "eq_out (bodies T) m (st32 m' (t + i) v)"
proof (rule eq_out_trans [OF assms(1) eq_out_st32])
  note f = field_in_task [OF assms(3,4)]
  show "unat (t + i) + 4 \<le> two32" using f assms(3) by (simp add: task_ok_def)
  show "region (t + i) 4 \<subseteq> bodies T"
  proof
    fix a assume "a \<in> region (t + i) 4"
    then have "unat t \<le> unat a \<and> unat a < unat t + 112" using f by (auto simp: region_def)
    with assms(2) show "a \<in> bodies T" by (auto simp: bodies_def)
  qed
qed

lemma links_bodies: "set xs \<subseteq> T \<Longrightarrow> links xs \<subseteq> bodies T"
proof
  fix a assume "set xs \<subseteq> T" "a \<in> links xs"
  then obtain x where "x \<in> T" "unat x + 104 \<le> unat a" "unat a < unat x + 112"
    by (auto simp: links_def)
  then show "a \<in> bodies T" unfolding bodies_def by (auto intro: bexI [of _ x])
qed

text \<open>A write to a field that is not a link keeps every queue.\<close>

lemma ring_field:
  assumes "ring m h xs" and "tsep (insert t (set xs))" and "tfield i" and "unat i < 104"
  shows "ring (st32 m (t + i) v) h xs"
proof -
  have eq: "ld32 (st32 m (t + i) v) (x + j) = ld32 m (x + j)" if "x \<in> set xs" "j = 104 \<or> j = 108" for x j
    using task_fld [OF assms(2), of t x i j m v] that assms(3,4) by auto
  have "linked (st32 m (t + i) v) (xs @ [hd xs]) = linked m (xs @ [hd xs])" if "xs \<noteq> []"
    using that by (intro linked_cong eq) (auto dest: in_set_butlastD list.set_sel)
  with assms(1) show ?thesis by (auto simp: ring_def cyc_def)
qed

end
