(* ===== verification/Sched_Proofs.thy ===== *)
theory Sched_Proofs
  imports Sched_Queues
begin

text \<open>
  The scheduler keeps its invariant \<open>sched_inv\<close>: the three queues are disjoint rings of live task
  structures, with statuses that fit the queue a task is in and a count that fits the queues.
  Sleeping, waking, creating and ending a thread and the timer tick preserve it; the choice of
  the next thread is round robin; a context switch restores the registers of the thread it
  resumes.
\<close>

section \<open>The scheduler's invariant\<close>

definition tasks :: "'a sched_scheme \<Rightarrow> addr list \<Rightarrow> addr list \<Rightarrow> addr list \<Rightarrow> addr set" where
  "tasks s rq wq dq = insert (idle_task s) (set rq \<union> set wq \<union> set dq)"

definition queues :: "mem \<Rightarrow> 'a sched_scheme \<Rightarrow> addr list \<Rightarrow> addr list \<Rightarrow> addr list \<Rightarrow> bool" where
  "queues m s rq wq dq \<longleftrightarrow> ring m (runq_head s) rq \<and> ring m (waitq_head s) wq \<and> ring m (doneq_head s) dq"

definition statuses :: "mem \<Rightarrow> addr list \<Rightarrow> addr list \<Rightarrow> addr list \<Rightarrow> bool" where
  "statuses m rq wq dq \<longleftrightarrow> (\<forall>t \<in> set rq. ld32 m (t + 36) \<in> {NEW, READY, RUNNING}) \<and>
     (\<forall>t \<in> set wq. ld32 m (t + 36) = BLOCKED) \<and> (\<forall>t \<in> set dq. ld32 m (t + 36) = EXITED)"

definition sched_inv :: "'a sched_scheme \<Rightarrow> addr list \<Rightarrow> addr list \<Rightarrow> addr list \<Rightarrow> bool" where
  "sched_inv s rq wq dq \<longleftrightarrow> owned s (tasks s rq wq dq) \<and> distinct (idle_task s # rq @ wq @ dq) \<and>
     queues (mem s) s rq wq dq \<and> statuses (mem s) rq wq dq \<and>
     unat (thread_count s) = length rq + length wq \<and> length rq + length wq \<le> 16"

lemma tasks_sub:
  "set rq \<subseteq> tasks s rq wq dq" "set wq \<subseteq> tasks s rq wq dq" "set dq \<subseteq> tasks s rq wq dq"
  "idle_task s \<in> tasks s rq wq dq"
  by (auto simp: tasks_def)

lemma statuses_cong:
  assumes "statuses m rq wq dq"
    and "\<And>x. x \<in> set rq \<union> set wq \<union> set dq \<Longrightarrow> ld32 m' (x + 36) = ld32 m (x + 36)"
  shows "statuses m' rq wq dq"
  using assms by (simp add: statuses_def)

lemma statuses_split:
  "statuses m (ys @ t # zs) wq dq \<Longrightarrow> statuses m (ys @ zs) wq dq"
  "statuses m rq (ys @ t # zs) dq \<Longrightarrow> statuses m rq (ys @ zs) dq"
  by (simp_all add: statuses_def)

lemma statuses_snoc:
  "statuses m (rq @ [t]) wq dq \<longleftrightarrow> statuses m rq wq dq \<and> ld32 m (t + 36) \<in> {NEW, READY, RUNNING}"
  "statuses m rq (wq @ [t]) dq \<longleftrightarrow> statuses m rq wq dq \<and> ld32 m (t + 36) = BLOCKED"
  "statuses m rq wq (dq @ [t]) \<longleftrightarrow> statuses m rq wq dq \<and> ld32 m (t + 36) = EXITED"
  by (auto simp: statuses_def)

lemma queues_field:
  assumes "queues m s rq wq dq" and "tsep T" and "tasks s rq wq dq \<subseteq> T" and "t \<in> T" and "tfield i"
    and "unat i < 104"
  shows "queues (st32 m (t + i) v) s rq wq dq"
proof -
  have "tsep (insert t (set xs))" if "set xs \<subseteq> tasks s rq wq dq" for xs
    using tsep_subset [OF assms(2)] that assms(3,4) by (meson insert_subset subset_trans)
  with assms tasks_sub [where s = s and rq = rq and wq = wq and dq = dq] show ?thesis
    by (auto simp: queues_def intro: ring_field)
qed

text \<open>Moving the task \<open>t\<close> between two queues after writes to its other fields.\<close>

lemma fields_after_move:
  assumes "eq_out (links xs) m m'" and "tsep T" and "set xs \<subseteq> T" and "x \<in> T" and "tfield i"
    and "unat i < 104"
  shows "ld32 m' (x + i) = ld32 m (x + i)"
  by (rule links_other_field [OF assms(1) tsep_subset [OF assms(2)] assms(5,6)]) (use assms(3,4) in auto)

lemma move_task:
  assumes q: "ring m h (ys @ t # zs)" "ring m k xs" "ring m l us"
    and sep: "tsep T" and sub: "set (ys @ t # zs) \<union> set xs \<union> set us \<subseteq> T"
    and dist: "distinct ((ys @ t # zs) @ xs @ us)"
  shows "\<exists>m1 h1 m2 k2. splice_outq m h t = Some (m1, h1) \<and> splice_inq m1 k t = Some (m2, k2) \<and>
     ring m2 h1 (ys @ zs) \<and> ring m2 k2 (xs @ [t]) \<and> ring m2 l us \<and> eq_out (bodies T) m m2 \<and>
     (\<forall>x \<in> T. \<forall>i. tfield i \<longrightarrow> unat i < 104 \<longrightarrow> ld32 m2 (x + i) = ld32 m (x + i))"
proof -
  let ?all = "ys @ t # zs @ xs"
  have sep1: "tsep (set (ys @ t # zs) \<union> set xs)" by (rule tsep_subset [OF sep]) (use sub in auto)
  have disj1: "set (ys @ t # zs) \<inter> set xs = {}" using dist by auto
  obtain m1 h1 m2 k2 where mv: "splice_outq m h t = Some (m1, h1)" "splice_inq m1 k t = Some (m2, k2)"
    "ring m2 h1 (ys @ zs)" "ring m2 k2 (xs @ [t])" and eq: "eq_out (links ?all) m m2"
    using taskq.move [OF q(1,2) sep1 disj1] by blast
  have suball: "set ?all \<subseteq> T" using sub by auto
  have sep2: "tsep (set us \<union> set ?all)" by (rule tsep_subset [OF sep]) (use sub in auto)
  have disj2: "set us \<inter> set ?all = {}" using dist by auto
  have "ring m2 l us" by (rule taskq.bystander [OF q(3) eq sep2 disj2])
  moreover have "eq_out (bodies T) m m2" by (rule eq_out_mono [OF eq links_bodies [OF suball]])
  moreover have "ld32 m2 (x + i) = ld32 m (x + i)" if "x \<in> T" "tfield i" "unat i < 104" for x i
    by (rule fields_after_move [OF eq sep suball that])
  ultimately show ?thesis using mv by blast
qed

lemma sleep_on_inv:
  assumes inv: "sched_inv s (ys @ t # zs) wq dq" and cur: "current_task s = t"
    and lock: "global_sched_lock s = 1"
  shows "\<exists>s'. sleep_on n s = Some s' \<and> sched_inv s' (ys @ zs) (wq @ [t]) dq \<and>
     global_sched_lock s' = 1 \<and> current_task s' = t \<and>
     ld32 (mem s') (t + 28) = n \<and> ld32 (mem s') (t + 24) = 0 \<and>
     (\<forall>x \<in> tasks s ys (zs @ wq) dq. \<forall>i. tfield i \<longrightarrow> unat i < 104 \<longrightarrow>
        ld32 (mem s') (x + i) = ld32 (mem s) (x + i)) \<and>
     (\<forall>i. tfield i \<longrightarrow> unat i < 104 \<longrightarrow> i \<notin> {24, 28, 36} \<longrightarrow> ld32 (mem s') (t + i) = ld32 (mem s) (t + i)) \<and>
     eq_out (bodies (tasks s (ys @ t # zs) wq dq)) (mem s) (mem s') \<and>
     s' = s\<lparr>mem := mem s', runq_head := runq_head s', waitq_head := waitq_head s'\<rparr>"
proof -
  let ?T = "tasks s (ys @ t # zs) wq dq"
  have own: "owned s ?T" and dist: "distinct (idle_task s # (ys @ t # zs) @ wq @ dq)"
    and q: "queues (mem s) s (ys @ t # zs) wq dq" and st: "statuses (mem s) (ys @ t # zs) wq dq"
    using inv by (auto simp: sched_inv_def)
  have sep: "tsep ?T" by (rule owned_tsep [OF own])
  have tT: "t \<in> ?T" by (simp add: tasks_def)
  have t0: "t \<noteq> 0" "task_ok t" using sep tT by (auto simp: tsep_def task_ok_def)
  define m3 where "m3 = st32 (st32 (st32 (mem s) (t + 36) 3) (t + 24) 0) (t + 28) n"
  have q3: "queues m3 s (ys @ t # zs) wq dq"
    unfolding m3_def by (intro queues_field [where T = ?T] q sep tT subset_refl) simp_all
  have q3r: "ring m3 (runq_head s) (ys @ t # zs)" "ring m3 (waitq_head s) wq" "ring m3 (doneq_head s) dq"
    using q3 by (auto simp: queues_def)
  have dist1: "distinct ((ys @ t # zs) @ wq @ dq)" using dist by simp
  have sub: "set (ys @ t # zs) \<union> set wq \<union> set dq \<subseteq> ?T" by (auto simp: tasks_def)
  obtain m4 h4 m5 k5 where mv: "splice_outq m3 (runq_head s) t = Some (m4, h4)"
    "splice_inq m4 (waitq_head s) t = Some (m5, k5)" "ring m5 h4 (ys @ zs)" "ring m5 k5 (wq @ [t])"
    and dq: "ring m5 (doneq_head s) dq" and eq: "eq_out (bodies ?T) m3 m5"
    and fldr: "\<forall>x \<in> ?T. \<forall>i. tfield i \<longrightarrow> unat i < 104 \<longrightarrow> ld32 m5 (x + i) = ld32 m3 (x + i)"
    using move_task [OF q3r sep sub dist1] by blast
  have fld: "ld32 m5 (x + i) = ld32 m3 (x + i)" if "x \<in> ?T" "tfield i" "unat i < 104" for x i
    using fldr that by blast
  have keep: "ld32 m3 (x + i) = ld32 (mem s) (x + i)" if "x \<in> ?T" "x \<noteq> t" "tfield i" for x i
    using that tT by (simp add: m3_def task_fld [OF sep])
  have mine: "ld32 m5 (t + 36) = 3" "ld32 m5 (t + 24) = 0" "ld32 m5 (t + 28) = n"
    using fld [OF tT, of 36] fld [OF tT, of 24] fld [OF tT, of 28] tT
    by (simp_all add: m3_def task_fld [OF sep])
  define s' where "s' = s\<lparr>mem := m5, runq_head := h4, waitq_head := k5, global_sched_lock := 1\<rparr>"
  have run: "sleep_on n s = Some s'"
    using cur lock t0 mv by (simp add: sleep_on_def s'_def m3_def kthread_mutex_unlock_def)
  have "eq_out (bodies ?T) (mem s) m3"
    unfolding m3_def by (intro eq_out_body eq_out_refl tT t0) simp_all
  then have e5: "eq_out (bodies ?T) (mem s) m5"
    by (rule eq_out_trans [OF _ eq])
  then have "owned (s\<lparr>mem := m5\<rparr>) ?T" by (rule owned_bodies [OF own])
  moreover have Teq: "tasks s' (ys @ zs) (wq @ [t]) dq = ?T" by (auto simp: tasks_def s'_def)
  ultimately have own': "owned s' (tasks s' (ys @ zs) (wq @ [t]) dq)"
    using owned_cong [of s' "s\<lparr>mem := m5\<rparr>"] by (simp add: s'_def)
  have "statuses m5 (ys @ zs) wq dq"
  proof (rule statuses_cong [OF statuses_split(1) [OF st]])
    fix x assume "x \<in> set (ys @ zs) \<union> set wq \<union> set dq"
    then have "x \<in> ?T" "x \<noteq> t" using dist by (auto simp: tasks_def)
    then show "ld32 m5 (x + 36) = ld32 (mem s) (x + 36)"
      using fld [of x 36] keep [of x 36] by simp
  qed
  then have st': "statuses m5 (ys @ zs) (wq @ [t]) dq" using mine by (simp add: statuses_snoc)
  have "sched_inv s' (ys @ zs) (wq @ [t]) dq"
    using own' st' mv dq dist inv by (auto simp: sched_inv_def queues_def s'_def)
  moreover have "ld32 (mem s') (x + i) = ld32 (mem s) (x + i)"
    if "x \<in> tasks s ys (zs @ wq) dq" "tfield i" "unat i < 104" for x i
  proof -
    have "x \<in> ?T" "x \<noteq> t" using that(1) dist by (auto simp: tasks_def)
    with fld [OF _ that(2,3)] keep [OF _ _ that(2)] show ?thesis by (simp add: s'_def)
  qed
  moreover have "ld32 m5 (t + i) = ld32 (mem s) (t + i)" if "tfield i" "unat i < 104" "i \<notin> {24, 28, 36}" for i
    using fld [OF tT that(1,2)] that tT by (simp add: m3_def task_fld [OF sep])
  ultimately show ?thesis using run mine e5 lock by (intro exI [of _ s']) (auto simp: s'_def cur)
qed

section \<open>Round robin\<close>

lemma ring_next:
  assumes "ring m h xs" and "i < length xs"
  shows "ld32 m (xs ! i + 108) = xs ! (Suc i mod length xs)"
proof -
  have ne: "xs \<noteq> []" using assms(2) by auto
  have "cyc m xs" using assms(1) by (simp add: ring_def)
  then have lk: "linked m (xs @ [hd xs])" using ne by (simp add: cyc_def)
  have "xs @ [hd xs] = take (Suc i) xs @ (drop (Suc i) xs @ [hd xs])"
    by (metis append.assoc append_take_drop_id)
  with lk have "linked m (take (Suc i) xs @ (drop (Suc i) xs @ [hd xs]))" by simp
  then have "link m (last (take (Suc i) xs)) (hd (drop (Suc i) xs @ [hd xs]))"
    using linked_append [of "take (Suc i) xs" "drop (Suc i) xs @ [hd xs]" m] ne by simp
  moreover have "last (take (Suc i) xs) = xs ! i" using assms(2) by (simp add: take_Suc_conv_app_nth)
  moreover have "hd (drop (Suc i) xs @ [hd xs]) = xs ! (Suc i mod length xs)"
  proof (cases "Suc i < length xs")
    case True
    then show ?thesis by (simp add: hd_drop_conv_nth)
  next
    case False
    then have "Suc i = length xs" using assms(2) by simp
    then show ?thesis using ne by (simp add: hd_conv_nth)
  qed
  ultimately show ?thesis by (simp add: link_def)
qed

lemma select_running:
  assumes inv: "sched_inv s rq wq dq" and i: "i < length rq"
    and cur: "current_task s = rq ! i \<or> current_task s = idle_task s \<and> i = 0"
  shows "sched_select_next_rr s = Some (rq ! (Suc i mod length rq),
     s\<lparr>current_task := rq ! (Suc i mod length rq)\<rparr>)"
proof -
  let ?n = "rq ! (Suc i mod length rq)"
  have ne: "rq \<noteq> []" using i by auto
  have r: "ring (mem s) (runq_head s) rq" and sep: "tsep (tasks s rq wq dq)"
    and dist: "distinct (idle_task s # rq @ wq @ dq)" and st: "statuses (mem s) rq wq dq"
    and cnt: "unat (thread_count s) = length rq + length wq" "length rq + length wq \<le> 16"
    using inv by (auto simp: sched_inv_def queues_def intro: owned_tsep)
  have h: "runq_head s = rq ! 0" using r ne by (simp add: ring_def hd_conv_nth)
  have mem: "rq ! i \<in> set rq" "?n \<in> set rq" "rq ! 0 \<in> set rq" using i ne by simp_all
  have nz: "rq ! i \<noteq> 0" "?n \<noteq> 0" "rq ! 0 \<noteq> 0"
    using mem tsep_nonnull [OF sep] tasks_sub(1) by blast+
  have ni: "rq ! i \<noteq> idle_task s" using dist mem by auto
  have c: "(if current_task s = idle_task s then runq_head s else current_task s) = rq ! i"
    using cur ni h by auto
  have "unat (thread_count s + 1) = length rq + length wq + 1" using cnt by simp
  then have loop: "rr_loop (mem s) (idle_task s) (rq ! i) (unat (thread_count s + 1)) = Some (?n, ?n)"
    using ring_next [OF r i] nz st mem by (auto simp: statuses_def)
  show ?thesis using h c loop nz by (simp add: sched_select_next_rr_def Let_def)
qed

text \<open>A queue of tasks that cannot run is walked in vain.\<close>

lemma rr_loop_stuck:
  assumes r: "ring m h xs" and i: "i < length xs" and sep: "tsep (set xs)"
    and st: "\<forall>t \<in> set xs. ld32 m (t + 36) = BLOCKED \<or> ld32 m (t + 36) = EXITED"
  shows "\<exists>c. rr_loop m idle (xs ! i) k = Some (idle, c)"
  using i
proof (induction k arbitrary: i)
  case (Suc k)
  let ?j = "Suc i mod length xs"
  have j: "?j < length xs" using Suc.prems by (metis length_greater_0_conv less_nat_zero_code list.size(3) mod_less_divisor)
  then have mem: "xs ! ?j \<in> set xs" "xs ! i \<in> set xs" using Suc.prems by simp_all
  then have "xs ! i \<noteq> 0" "xs ! ?j \<noteq> 0" using tsep_nonnull [OF sep] by blast+
  with ring_next [OF r Suc.prems] st mem Suc.IH [OF j] show ?case by auto
qed simp

lemma select_stuck:
  assumes inv: "sched_inv s rq wq dq" and cur: "current_task s \<in> set wq \<union> set dq"
  shows "\<exists>c. sched_select_next_rr s = Some (idle_task s, s\<lparr>current_task := c\<rparr>)"
proof -
  have q: "ring (mem s) (waitq_head s) wq" "ring (mem s) (doneq_head s) dq"
    and sep: "tsep (tasks s rq wq dq)"
    and dist: "distinct (idle_task s # rq @ wq @ dq)" and st: "statuses (mem s) rq wq dq"
    using inv by (auto simp: sched_inv_def queues_def intro: owned_tsep)
  have ni: "current_task s \<noteq> idle_task s" using cur dist by auto
  obtain h xs where xs: "xs = wq \<or> xs = dq" "current_task s \<in> set xs" "ring (mem s) h xs"
    using cur q by auto
  obtain i where i: "i < length xs" "current_task s = xs ! i" using xs(2) by (auto simp: in_set_conv_nth)
  have "\<exists>c. rr_loop (mem s) (idle_task s) (current_task s) k = Some (idle_task s, c)" for k
    unfolding i(2)
    by (rule rr_loop_stuck [OF xs(3) i(1)])
      (use xs(1) st tsep_subset [OF sep] tasks_sub [where s = s and rq = rq and wq = wq and dq = dq]
        in \<open>auto simp: statuses_def\<close>)
  then obtain c where c: "rr_loop (mem s) (idle_task s) (current_task s) (unat (thread_count s + 1)) =
      Some (idle_task s, c)" by blast
  show ?thesis
  proof (cases "runq_head s = 0")
    case True
    then show ?thesis using ni by (auto simp: sched_select_next_rr_def intro: exI [of _ "current_task s"])
  next
    case False
    then show ?thesis using ni c by (auto simp: sched_select_next_rr_def)
  qed
qed

section \<open>The timer tick\<close>

definition bump :: "addr \<Rightarrow> mem \<Rightarrow> mem" where
  "bump x m = st32 m (x + 24) (ld32 m (x + 24) + 1)"

lemma bump_fold:
  assumes "tsep T" and "set xs \<subseteq> T" and "distinct xs" and "y \<in> T" and "tfield j"
  shows "ld32 (fold bump xs m) (y + j) = ld32 m (y + j) + (if y \<in> set xs \<and> j = 24 then 1 else 0)"
  using assms(2,3)
proof (induction xs arbitrary: m)
  case (Cons x xs)
  then show ?case using assms(4,5) by (auto simp: bump_def task_fld [OF assms(1)])
qed simp

lemma ring_succ:
  assumes "ring m h (ys @ x # zs)"
  shows "ld32 m (x + 108) = hd (zs @ ys @ [x])"
proof -
  have "cyc m (x # zs @ ys)" using assms cyc_rotate [of m ys "x # zs"] by (auto simp: ring_def)
  then show ?thesis using linked_Cons [of "zs @ ys @ [x]" m x] by (simp add: cyc_def link_def)
qed

lemma tick_loop_fold:
  assumes "ring m h (vs @ us)" and "us \<noteq> []" and "tsep T" and "set (vs @ us) \<subseteq> T"
  shows "tick_loop m h (hd us) = Some (fold bump us m)"
  using assms(1,2,4)
proof (induction us arbitrary: m vs)
  case (Cons u us)
  have dist: "distinct (vs @ u # us)" and h: "h = hd (vs @ u # us)"
    using Cons.prems(1) by (auto simp: ring_def)
  have u: "u \<in> T" "u \<noteq> 0" using Cons.prems(3) tsep_nonnull [OF assms(3), of u] by auto
  have r: "ring (bump u m) h (vs @ u # us)"
    unfolding bump_def
    by (rule ring_field [OF Cons.prems(1) tsep_subset [OF assms(3)]]) (use Cons.prems(3) in auto)
  have nx: "ld32 (bump u m) (u + 108) = hd (us @ vs @ [u])" by (rule ring_succ [OF r])
  show ?case
  proof (cases "us = []")
    case True
    then have "hd (us @ vs @ [u]) = h" using h by (cases vs) auto
    then show ?thesis
      using u nx True by (subst tick_loop.simps) (simp add: bump_def [symmetric])
  next
    case False
    then have "hd us \<noteq> h" "hd (us @ vs @ [u]) = hd us" using h dist by (cases us; cases vs; auto)+
    moreover have "tick_loop (bump u m) h (hd us) = Some (fold bump us (bump u m))"
      using Cons.IH [of "bump u m" "vs @ [u]"] r False Cons.prems(3) by simp
    ultimately show ?thesis
      using u nx by (subst tick_loop.simps) (simp add: bump_def [symmetric])
  qed
qed simp

section \<open>Waking sleepers\<close>

definition expired :: "mem \<Rightarrow> addr \<Rightarrow> bool" where
  "expired m x \<longleftrightarrow> ld32 m (x + 28) \<le> ld32 m (x + 24)"

definition minv :: "mem \<Rightarrow> addr \<Rightarrow> addr \<Rightarrow> addr \<Rightarrow> addr set \<Rightarrow> addr list \<Rightarrow> addr list \<Rightarrow> addr list \<Rightarrow> bool" where
  "minv m rh wh dh T rq wq dq \<longleftrightarrow> ring m rh rq \<and> ring m wh wq \<and> ring m dh dq \<and> tsep T \<and>
     set rq \<union> set wq \<union> set dq \<subseteq> T \<and> distinct (rq @ wq @ dq) \<and> statuses m rq wq dq"

definition kept :: "mem \<Rightarrow> mem \<Rightarrow> addr set \<Rightarrow> bool" where
  "kept m m' X \<longleftrightarrow> (\<forall>x \<in> X. \<forall>i. tfield i \<longrightarrow> unat i < 104 \<longrightarrow> ld32 m' (x + i) = ld32 m (x + i))"

lemma keptD: "kept m m' X \<Longrightarrow> x \<in> X \<Longrightarrow> tfield i \<Longrightarrow> unat i < 104 \<Longrightarrow> ld32 m' (x + i) = ld32 m (x + i)"
  by (auto simp: kept_def)

lemma kept_trans: "kept m m1 X \<Longrightarrow> kept m1 m2 Y \<Longrightarrow> Z \<subseteq> X \<Longrightarrow> Z \<subseteq> Y \<Longrightarrow> kept m m2 Z"
  unfolding kept_def by (metis subsetD)

text \<open>What waking changes of a task: its sleep time and its status, from blocked to ready.\<close>

definition woken :: "mem \<Rightarrow> mem \<Rightarrow> addr set \<Rightarrow> bool" where
  "woken m m' X \<longleftrightarrow> (\<forall>x \<in> X. (\<forall>i. tfield i \<longrightarrow> unat i < 104 \<longrightarrow> i \<noteq> 28 \<longrightarrow> i \<noteq> 36 \<longrightarrow> ld32 m' (x + i) = ld32 m (x + i)) \<and>
     (ld32 m' (x + 36) = ld32 m (x + 36) \<or> ld32 m (x + 36) = BLOCKED \<and> ld32 m' (x + 36) = READY))"

lemma woken_refl [simp]: "woken m m X"
  by (simp add: woken_def)

lemma woken_trans:
  assumes "woken m m1 X" and "woken m1 m2 X"
  shows "woken m m2 X"
  unfolding woken_def
proof (intro ballI conjI allI impI)
  fix x assume x: "x \<in> X"
  show "ld32 m2 (x + i) = ld32 m (x + i)" if "tfield i" "unat i < 104" "i \<noteq> 28" "i \<noteq> 36" for i
    using assms x that by (simp add: woken_def)
  show "ld32 m2 (x + 36) = ld32 m (x + 36) \<or> ld32 m (x + 36) = BLOCKED \<and> ld32 m2 (x + 36) = READY"
    using bspec [OF assms(1) [unfolded woken_def] x] bspec [OF assms(2) [unfolded woken_def] x] by auto
qed

lemma expired_kept: "kept m m' X \<Longrightarrow> x \<in> X \<Longrightarrow> expired m' x = expired m x"
  using keptD [of m m' X x 24] keptD [of m m' X x 28] by (simp add: expired_def)

lemma service_one_wait:
  assumes "minv m rh wh dh T rq (ys @ w # zs) dq" and "\<not> expired m w"
  shows "service_one m rh wh w = Some (m, rh, wh, hd (zs @ ys @ [w]))"
proof -
  have "ld32 m (w + 108) = hd (zs @ ys @ [w])" using assms(1) ring_succ by (auto simp: minv_def)
  moreover have "w \<noteq> 0" using assms(1) tsep_nonnull [of T w] by (auto simp: minv_def)
  ultimately show ?thesis using assms(2) by (simp add: service_one_def expired_def)
qed

lemma service_one_wake:
  assumes inv: "minv m rh wh dh T rq (ys @ w # zs) dq" and ex: "expired m w"
  shows "\<exists>m' rh' wh'. service_one m rh wh w = Some (m', rh', wh', hd (zs @ ys @ [w])) \<and>
     minv m' rh' wh' dh T (rq @ [w]) (ys @ zs) dq \<and> eq_out (bodies T) m m' \<and>
     kept m m' (T - {w}) \<and> woken m m' T"
proof -
  have r: "ring m rh rq" "ring m wh (ys @ w # zs)" "ring m dh dq" and sep: "tsep T"
    and sub: "set rq \<union> set (ys @ w # zs) \<union> set dq \<subseteq> T" and dist: "distinct (rq @ (ys @ w # zs) @ dq)"
    and st: "statuses m rq (ys @ w # zs) dq"
    using inv by (auto simp: minv_def)
  have wT: "w \<in> T" using sub by auto
  have w: "w \<noteq> 0" "task_ok w" using sep wT by (auto simp: tsep_def task_ok_def)
  define m2 where "m2 = st32 (st32 m (w + 36) 1) (w + 28) 0"
  have keep: "ld32 m2 (x + i) = ld32 m (x + i)" if "x \<in> T" "x \<noteq> w" "tfield i" for x i
    using that wT by (simp add: m2_def task_fld [OF sep])
  have mine: "ld32 m2 (w + 36) = 1" "ld32 m2 (w + 28) = 0"
    using wT by (simp_all add: m2_def task_fld [OF sep])
  have rf: "ring m2 h xs" if "ring m h xs" "set xs \<subseteq> T" for h xs
  proof -
    have "tsep (insert w (set xs))" by (rule tsep_subset [OF sep]) (use wT that(2) in auto)
    then show ?thesis unfolding m2_def by (intro ring_field that(1)) simp_all
  qed
  have r2: "ring m2 wh (ys @ w # zs)" "ring m2 rh rq" "ring m2 dh dq"
    using rf [OF r(2)] rf [OF r(1)] rf [OF r(3)] sub by auto
  have sub2: "set (ys @ w # zs) \<union> set rq \<union> set dq \<subseteq> T" using sub by auto
  have dist2: "distinct ((ys @ w # zs) @ rq @ dq)" using dist by auto
  obtain m3 h3 m4 k4 where mv: "splice_outq m2 wh w = Some (m3, h3)" "splice_inq m3 rh w = Some (m4, k4)"
    "ring m4 h3 (ys @ zs)" "ring m4 k4 (rq @ [w])" "ring m4 dh dq" "eq_out (bodies T) m2 m4"
    and fld: "\<forall>x \<in> T. \<forall>i. tfield i \<longrightarrow> unat i < 104 \<longrightarrow> ld32 m4 (x + i) = ld32 m2 (x + i)"
    using move_task [OF r2 sep sub2 dist2] by blast
  have nx: "ld32 m (w + 108) = hd (zs @ ys @ [w])" by (rule ring_succ [OF r(2)])
  have run: "service_one m rh wh w = Some (m4, k4, h3, hd (zs @ ys @ [w]))"
    using w ex nx mv(1,2) by (simp add: service_one_def expired_def m2_def)
  have k: "kept m m4 (T - {w})" using fld keep by (auto simp: kept_def)
  have mine4: "ld32 m4 (w + 36) = 1" "ld32 m4 (w + 28) = 0"
    using fld [rule_format, OF wT, of 36] fld [rule_format, OF wT, of 28] mine by simp_all
  have "ld32 m4 (w + i) = ld32 m (w + i)" if "tfield i" "unat i < 104" "i \<noteq> 28" "i \<noteq> 36" for i
    using fld [rule_format, OF wT that(1,2)] that wT by (simp add: m2_def task_fld [OF sep])
  moreover have "ld32 m (w + 36) = BLOCKED" using st by (simp add: statuses_def)
  ultimately have wk: "woken m m4 T"
    unfolding woken_def using keptD [OF k] mine4 by (intro ballI, case_tac "x = w") auto
  have "statuses m4 rq (ys @ zs) dq"
  proof (rule statuses_cong [OF statuses_split(2) [OF st]])
    fix x assume "x \<in> set rq \<union> set (ys @ zs) \<union> set dq"
    then have "x \<in> T - {w}" using sub dist by auto
    then show "ld32 m4 (x + 36) = ld32 m (x + 36)" using keptD [OF k, of x 36] by simp
  qed
  then have "minv m4 k4 h3 dh T (rq @ [w]) (ys @ zs) dq"
    using mv sep sub dist mine4 by (auto simp: minv_def statuses_snoc)
  moreover have "eq_out (bodies T) m m2"
    unfolding m2_def by (intro eq_out_body eq_out_refl wT w) simp_all
  then have "eq_out (bodies T) m m4" by (rule eq_out_trans [OF _ mv(6)])
  ultimately show ?thesis using run k wk by blast
qed

lemma service_rest:
  assumes "minv m rh wh dh T rq (w # vs @ us) dq" and "us \<noteq> []" and "\<not> expired m w"
  shows "\<exists>m' rh' wh'. service_loop m rh wh (hd us) = Some (m', rh', wh') \<and>
     minv m' rh' wh' dh T (rq @ filter (expired m) us) (w # vs @ filter (\<lambda>x. \<not> expired m x) us) dq \<and>
     eq_out (bodies T) m m' \<and> kept m m' (T - set (filter (expired m) us)) \<and> woken m m' T"
  using assms
proof (induction us arbitrary: m rh wh rq vs)
  case (Cons u us)
  have sub: "set rq \<union> set (w # vs @ u # us) \<union> set dq \<subseteq> T"
    and dist: "distinct (rq @ (w # vs @ u # us) @ dq)" and wh: "wh = w" and w0: "w \<noteq> 0"
    using Cons.prems(1) tsep_nonnull [of T w] by (auto simp: minv_def ring_def)
  have nxt: "hd (us @ (w # vs) @ [u]) = (if us = [] then w else hd us)" by simp
  have hu: "hd us \<noteq> w" if "us \<noteq> []" using dist that by (cases us) auto
  show ?case
  proof (cases "expired m u")
    case True
    obtain m1 rh1 wh1 where s1: "service_one m rh wh u = Some (m1, rh1, wh1, hd (us @ (w # vs) @ [u]))"
      and i1: "minv m1 rh1 wh1 dh T (rq @ [u]) (w # vs @ us) dq" and e1: "eq_out (bodies T) m m1"
      and k1: "kept m m1 (T - {u})" and w1: "woken m m1 T"
      using service_one_wake [of m rh wh dh T rq "w # vs" u us dq] Cons.prems(1) True by auto
    have wh1: "wh1 = w" using i1 by (auto simp: minv_def ring_def)
    show ?thesis
    proof (cases "us = []")
      case True
      then have "service_loop m rh wh u = Some (m1, rh1, wh1)"
        using s1 wh1 by (subst service_loop.simps) simp
      with True \<open>expired m u\<close> i1 e1 k1 w1 show ?thesis by auto
    next
      case False
      have kx: "expired m1 x = expired m x" if "x \<in> set us \<or> x = w" for x
        by (rule expired_kept [OF k1]) (use that sub dist in auto)
      obtain m' rh' wh' where r: "service_loop m1 rh1 wh1 (hd us) = Some (m', rh', wh')"
        "minv m' rh' wh' dh T ((rq @ [u]) @ filter (expired m1) us)
           (w # vs @ filter (\<lambda>x. \<not> expired m1 x) us) dq"
        "eq_out (bodies T) m1 m'" and k2: "kept m1 m' (T - set (filter (expired m1) us))" and w2: "woken m1 m' T"
        using Cons.IH [OF i1 False] kx Cons.prems(3) by auto
      have f: "filter (expired m1) us = filter (expired m) us"
        "filter (\<lambda>x. \<not> expired m1 x) us = filter (\<lambda>x. \<not> expired m x) us"
        using kx by (auto intro: filter_cong)
      have "service_loop m rh wh u = service_loop m1 rh1 wh1 (hd us)"
        using s1 wh1 w0 hu [OF False] False by (subst service_loop.simps) (simp add: hd_append)
      moreover have "kept m m' (T - set (filter (expired m) (u # us)))"
        by (rule kept_trans [OF k1 k2]) (use f True in auto)
      ultimately show ?thesis
        using r True f eq_out_trans [OF e1 r(3)] woken_trans [OF w1 w2] by auto
    qed
  next
    case False
    have s1: "service_one m rh wh u = Some (m, rh, wh, hd (us @ (w # vs) @ [u]))"
      using service_one_wait [of m rh wh dh T rq "w # vs" u us dq] Cons.prems(1) False by auto
    show ?thesis
    proof (cases "us = []")
      case True
      then have "service_loop m rh wh u = Some (m, rh, wh)"
        using s1 wh by (subst service_loop.simps) simp
      with True \<open>\<not> expired m u\<close> Cons.prems(1) show ?thesis by (auto simp: kept_def)
    next
      case ne: False
      have "service_loop m rh wh u = service_loop m rh wh (hd us)"
        using s1 wh w0 hu [OF ne] ne by (subst service_loop.simps) (simp add: hd_append)
      with Cons.IH [of m rh wh rq "vs @ [u]"] Cons.prems ne False show ?thesis by auto
    qed
  qed
qed simp

lemma service_head_expired:
  assumes inv: "minv m rh wh dh T rq (w # ws) dq" and ex: "expired m w"
  shows "\<exists>m' rh' wh'. service_loop m rh wh wh = Some (m', rh', wh') \<and>
     minv m' rh' wh' dh T (rq @ [w]) ws dq \<and> eq_out (bodies T) m m' \<and> kept m m' (T - {w}) \<and> woken m m' T"
proof -
  have wh: "wh = w" using inv by (auto simp: minv_def ring_def)
  obtain m1 rh1 wh1 where s1: "service_one m rh wh w = Some (m1, rh1, wh1, hd (ws @ [] @ [w]))"
    and i1: "minv m1 rh1 wh1 dh T (rq @ [w]) ws dq" "eq_out (bodies T) m m1" "kept m m1 (T - {w})" "woken m m1 T"
    using service_one_wake [of m rh wh dh T rq "[]" w ws dq] inv ex by auto
  have "wh1 = (if ws = [] then 0 else hd ws)" using i1 by (simp add: minv_def ring_def)
  then have "service_loop m rh wh wh = Some (m1, rh1, wh1)"
    using s1 wh by (subst service_loop.simps) auto
  with i1 show ?thesis by blast
qed

lemma service_head_waits:
  assumes inv: "minv m rh wh dh T rq (w # ws) dq" and nex: "\<not> expired m w"
  shows "\<exists>m' rh' wh'. service_loop m rh wh wh = Some (m', rh', wh') \<and>
     minv m' rh' wh' dh T (rq @ filter (expired m) ws) (w # filter (\<lambda>x. \<not> expired m x) ws) dq \<and>
     eq_out (bodies T) m m' \<and> kept m m' (T - set (filter (expired m) ws)) \<and> woken m m' T"
proof -
  have wh: "wh = w" and w0: "w \<noteq> 0" and dist: "distinct (w # ws)"
    using inv tsep_nonnull [of T w] by (auto simp: minv_def ring_def)
  have s1: "service_one m rh wh w = Some (m, rh, wh, hd (ws @ [] @ [w]))"
    using service_one_wait [of m rh wh dh T rq "[]" w ws dq] inv nex by auto
  show ?thesis
  proof (cases "ws = []")
    case True
    then have "service_loop m rh wh wh = Some (m, rh, wh)"
      using s1 wh by (subst service_loop.simps) auto
    with True inv show ?thesis by (auto simp: kept_def)
  next
    case False
    then have "hd ws \<noteq> w" using dist by (cases ws) auto
    then have "service_loop m rh wh wh = service_loop m rh wh (hd ws)"
      using s1 wh w0 False by (subst service_loop.simps) auto
    with service_rest [of m rh wh dh T rq w "[]" ws dq] inv nex False show ?thesis by auto
  qed
qed

lemma sched_inv_minv:
  "sched_inv s rq wq dq \<Longrightarrow>
     minv (mem s) (runq_head s) (waitq_head s) (doneq_head s) (tasks s rq wq dq) rq wq dq"
  by (auto simp: sched_inv_def minv_def queues_def tasks_def dest: owned_tsep)

lemma minv_sched_inv:
  assumes inv: "sched_inv s rq wq dq" and mi: "minv m rh wh (doneq_head s) (tasks s rq wq dq) rq' wq' dq"
    and eq: "eq_out (bodies (tasks s rq wq dq)) (mem s) m" and perm: "set rq' \<union> set wq' = set rq \<union> set wq"
  shows "sched_inv (s\<lparr>mem := m, runq_head := rh, waitq_head := wh\<rparr>) rq' wq' dq"
proof -
  let ?s = "s\<lparr>mem := m, runq_head := rh, waitq_head := wh\<rparr>"
  have T: "tasks ?s rq' wq' dq = tasks s rq wq dq" using perm by (auto simp: tasks_def)
  have "owned (s\<lparr>mem := m\<rparr>) (tasks s rq wq dq)"
    using inv eq by (auto simp: sched_inv_def intro: owned_bodies)
  then have "owned ?s (tasks ?s rq' wq' dq)"
    using owned_cong [of ?s "s\<lparr>mem := m\<rparr>"] T by simp
  moreover have "length rq' + length wq' = length rq + length wq"
  proof -
    have "distinct (rq' @ wq')" "distinct (rq @ wq)"
      using mi inv by (auto simp: minv_def sched_inv_def)
    then show ?thesis using perm by (metis distinct_card length_append set_append)
  qed
  moreover have "idle_task s \<notin> set rq' \<union> set wq' \<union> set dq"
    using inv perm by (auto simp: sched_inv_def)
  ultimately show ?thesis using inv mi by (auto simp: sched_inv_def minv_def queues_def)
qed

section \<open>Context switch\<close>

text \<open>The frame \<open>save_context\<close> leaves on the stack, from its lowest word up.\<close>

definition frame_words :: "cpu \<Rightarrow> u32 list" where
  "frame_words c = [ucast (sel_gs c), ucast (sel_fs c), ucast (sel_es c), ucast (sel_ds c),
     ucast (sel_ss c), ebp c, edi c, esi c, edx c, ecx c, ebx c, eax c, eflags c]"

definition has_frame :: "mem \<Rightarrow> nat \<Rightarrow> u32 list \<Rightarrow> bool" where
  "has_frame m p ws \<longleftrightarrow> (\<forall>k < length ws. ld32 m (of_nat (p + 4 * k)) = ws ! k)"

lemma has_frame_frame:
  assumes "has_frame m p ws" and "eq_out A m m'" and "p + 4 * length ws \<le> two32"
    and "zone p (4 * length ws) \<inter> A = {}"
  shows "has_frame m' p ws"
  unfolding has_frame_def
proof (intro allI impI)
  fix k assume k: "k < length ws"
  have "ld32 m' (of_nat (p + 4 * k)) = ld32 m (of_nat (p + 4 * k))"
  proof (rule eq_out_ld32 [OF assms(2)])
    have u: "unat (of_nat (p + 4 * k) :: addr) = p + 4 * k"
      by (rule unat_of_nat_fit) (use k assms(3) in simp)
    show "unat (of_nat (p + 4 * k) :: addr) + 4 \<le> two32" using u k assms(3) by linarith
    have "region (of_nat (p + 4 * k)) 4 \<subseteq> zone p (4 * length ws)"
      using u k by (auto simp: region_def zone_def simp del: of_nat_add of_nat_mult)
    then show "region (of_nat (p + 4 * k)) 4 \<inter> A = {}" using assms(4) by blast
  qed
  with assms(1) k show "ld32 m' (of_nat (p + 4 * k)) = ws ! k" by (simp add: has_frame_def)
qed

lemma foldr_push:
  assumes "esp c = of_nat (p + 4 * length ws)" and "p + 4 * length ws \<le> two32"
  shows "\<exists>m'. foldr push ws (c, m) = (c\<lparr>esp := of_nat p\<rparr>, m') \<and> has_frame m' p ws \<and>
     eq_out (zone p (4 * length ws)) m m'"
  using assms
proof (induction ws arbitrary: p)
  case Nil
  then show ?case by (simp add: has_frame_def)
next
  case (Cons w ws)
  obtain m1 where m1: "foldr push ws (c, m) = (c\<lparr>esp := of_nat (p + 4)\<rparr>, m1)"
    and f1: "has_frame m1 (p + 4) ws" and e1: "eq_out (zone (p + 4) (4 * length ws)) m m1"
    using Cons.IH [of "p + 4"] Cons.prems by (auto simp: algebra_simps)
  let ?m = "st32 m1 (of_nat p) w"
  have "foldr push (w # ws) (c, m) = (c\<lparr>esp := of_nat p\<rparr>, ?m)"
    using m1 by (simp add: push_def)
  moreover have "has_frame ?m p (w # ws)"
    unfolding has_frame_def
  proof (intro allI impI)
    fix k assume k: "k < length (w # ws)"
    show "ld32 ?m (of_nat (p + 4 * k)) = (w # ws) ! k"
    proof (cases k)
      case (Suc j)
      have "ld32 ?m (of_nat (p + 4 * k)) = ld32 m1 (of_nat (p + 4 * k))"
        by (rule ld32_st32_pos) (use k Suc Cons.prems(2) in auto)
      also have "\<dots> = ld32 m1 (of_nat (p + 4 + 4 * j))" by (simp add: Suc algebra_simps)
      finally show ?thesis using f1 k Suc by (simp add: has_frame_def)
    qed simp
  qed
  moreover have "eq_out (zone p (4 * length (w # ws))) m ?m"
  proof (rule eq_out_zone [OF eq_out_mono [OF e1]])
    show "zone (p + 4) (4 * length ws) \<subseteq> zone p (4 * length (w # ws))"
      "zone p 4 \<subseteq> zone p (4 * length (w # ws))" by (auto simp: zone_def)
  qed (use Cons.prems(2) in simp)
  ultimately show ?case by blast
qed

lemma save_context_frame:
  assumes "esp c = of_nat (p + 52)" and "p + 52 \<le> two32" and "t \<noteq> 0"
  shows "\<exists>m1. save_context c m t = Some (c\<lparr>esp := of_nat p\<rparr>, st32 m1 t (of_nat p)) \<and>
     has_frame m1 p (frame_words c) \<and> eq_out (zone p 52) m m1"
proof -
  have "\<exists>m1. foldr push (frame_words c) (c, m) = (c\<lparr>esp := of_nat p\<rparr>, m1) \<and>
      has_frame m1 p (frame_words c) \<and> eq_out (zone p 52) m m1"
    using foldr_push [of c p "frame_words c" m] assms(1,2) by (simp add: frame_words_def)
  then obtain m1 where m1: "foldr push (frame_words c) (c, m) = (c\<lparr>esp := of_nat p\<rparr>, m1)"
    "has_frame m1 p (frame_words c)" "eq_out (zone p 52) m m1" by blast
  have "save_context c m t = (let (c1, m1) = foldr push (frame_words c) (c, m)
      in do { m2 \<leftarrow> wr32 m1 t t_esp (esp c1); Some (c1, m2) })"
    by (simp add: save_context_def frame_words_def)
  with m1 assms(3) show ?thesis by auto
qed

lemma ucast_sel [simp]: "ucast (ucast (x :: u16) :: u32) = x"
  by (rule bit_word_eqI) (simp add: bit_simps)

lemma dispatch_frame:
  assumes "t \<noteq> 0" and "ld32 m t = of_nat p" and "has_frame m p (frame_words c)"
    and "esp c = of_nat (p + 52)"
  shows "dispatch c' m t = Some c"
proof -
  have f: "ld32 m (of_nat p + of_nat (4 * k)) = frame_words c ! k" if "k < 13" for k
    using assms(3) that by (simp add: has_frame_def frame_words_def)
  note fs = f [of 0] f [of 1] f [of 2] f [of 3] f [of 4] f [of 5] f [of 6] f [of 7] f [of 8]
    f [of 9] f [of 10] f [of 11] f [of 12]
  show ?thesis
    using assms(1,2,4) fs
    by (cases c, cases c') (simp add: dispatch_def pop_into_def pop_def frame_words_def Let_def add.assoc)
qed

section \<open>The end of a thread\<close>

lemma start_new_thread_entry:
  assumes "t \<noteq> 0" and "ld32 m t = of_nat sp" and "16 \<le> sp" and "sp \<le> two32"
  shows "\<exists>c' m'. start_new_thread c m t ex ret = Some (ld32 m (t + 8), c', m') \<and>
     esp c' = of_nat (sp - 16) \<and> ebp c' = of_nat sp \<and> bit (eflags c') 9 \<and>
     has_frame m' (sp - 16) [ret, ld32 m (t + 12), ex, 0] \<and> eq_out (zone (sp - 16) 16) m m'"
proof -
  let ?ws = "[ld32 m (t + 12), ex, 0]"
  let ?c = "c\<lparr>esp := of_nat sp, ebp := of_nat sp\<rparr>"
  obtain m1 where m1: "foldr push ?ws (?c, m) = (?c\<lparr>esp := of_nat (sp - 12)\<rparr>, m1)"
    and f1: "has_frame m1 (sp - 12) ?ws" and e1: "eq_out (zone (sp - 12) 12) m m1"
    using foldr_push [of ?c "sp - 12" ?ws m] assms(3,4) by (auto simp: of_nat_diff)
  let ?c1 = "?c\<lparr>esp := of_nat (sp - 12), eflags := eflags c OR 0x200\<rparr>"
  have e: "esp ?c1 = of_nat (sp - 16 + 4 * length [ret])" and le: "sp - 16 + 4 * length [ret] \<le> two32"
    using assms(3,4) by (auto simp: of_nat_diff)
  obtain m2 where m2: "foldr push [ret] (?c1, m1) = (?c1\<lparr>esp := of_nat (sp - 16)\<rparr>, m2)"
    and f2: "has_frame m2 (sp - 16) [ret]" and e2: "eq_out (zone (sp - 16) 4) m1 m2"
    using foldr_push [OF e le] by auto
  have run: "start_new_thread c m t ex ret = Some (ld32 m (t + 8), ?c1\<lparr>esp := of_nat (sp - 16)\<rparr>, m2)"
    using assms m1 m2 by (simp add: start_new_thread_def)
  have f1': "has_frame m2 (sp - 12) ?ws"
    by (rule has_frame_frame [OF f1 e2]) (use assms(3,4) in \<open>auto simp: zone_def\<close>)
  have pos: "sp - 16 + 4 * Suc j = sp - 12 + 4 * j" for j using assms(3) by simp
  have "has_frame m2 (sp - 16) (ret # ?ws)"
    unfolding has_frame_def
  proof (intro allI impI)
    fix k assume k: "k < length (ret # ?ws)"
    show "ld32 m2 (of_nat (sp - 16 + 4 * k)) = (ret # ?ws) ! k"
    proof (cases k)
      case 0
      then show ?thesis using f2 by (simp add: has_frame_def)
    next
      case (Suc j)
      have "ld32 m2 (of_nat (sp - 12 + 4 * j)) = ?ws ! j"
        using f1' k Suc unfolding has_frame_def by (simp del: of_nat_add of_nat_mult)
      then show ?thesis unfolding Suc pos by simp
    qed
  qed
  moreover have "eq_out (zone (sp - 16) 16) m m2"
    by (rule eq_out_trans [OF eq_out_mono [OF e1] eq_out_mono [OF e2]])
      (use assms(3) in \<open>auto simp: zone_def\<close>)
  moreover have "bit (eflags c OR 0x200) 9" by (simp add: bit_simps)
  ultimately show ?thesis using run by (intro exI [of _ "?c1\<lparr>esp := of_nat (sp - 16)\<rparr>"] exI [of _ m2]) simp
qed

lemma thread_return_finalizer:
  assumes "esp c = of_nat (sp - 12)" and "12 \<le> sp" and "sp + 4 \<le> two32"
    and "ld32 m (of_nat (sp - 8)) = ex" and "ld32 m (of_nat (sp - 4)) = 0"
  shows "\<exists>c'. thread_return c m = (ex, c', st32 m (of_nat sp) (eax c)) \<and> esp c' = of_nat (sp - 4) \<and>
     ld32 (st32 m (of_nat sp) (eax c)) (of_nat (sp - 4)) = 0 \<and>
     ld32 (st32 m (of_nat sp) (eax c)) (of_nat (sp - 4 + 4)) = eax c"
proof -
  let ?m = "st32 m (of_nat sp) (eax c)"
  have a: "(of_nat (sp - 12) :: addr) + 12 = of_nat sp" "(of_nat (sp - 12) :: addr) + 4 = of_nat (sp - 8)"
    "(of_nat (sp - 8) :: addr) + 4 = of_nat (sp - 4)"
    using assms(2) by (simp_all add: of_nat_diff)
  have "ld32 ?m (of_nat (sp - 8)) = ex" "ld32 ?m (of_nat (sp - 4)) = 0"
    using assms ld32_st32_pos [of sp "sp - 8" m "eax c"] ld32_st32_pos [of sp "sp - 4" m "eax c"]
    by (auto simp del: of_nat_diff)
  with assms(1,2) a show ?thesis by (simp add: thread_return_def pop_def Let_def del: of_nat_diff)
qed

lemma overlap_store:
  assumes "unat a + 5 \<le> two32"
  shows "ld32 (st32 m a v) (a + 1) = (ld32 m (a + 1) AND 0xFF000000) OR drop_bit 8 v"
proof -
  have u: "unat (a + 4) = unat a + 4" using assms by simp
  have n: "a + 4 \<noteq> a" "a + 4 \<noteq> a + 1" "a + 4 \<noteq> a + 2" "a + 4 \<noteq> a + 3" by simp_all
  have "ld32 (st32 m a v) (a + 1) = ucast (ucast (drop_bit 8 v) :: u8)
     OR push_bit 8 (ucast (ucast (drop_bit 16 v) :: u8))
     OR push_bit 16 (ucast (ucast (drop_bit 24 v) :: u8)) OR push_bit 24 (ucast (m (a + 4)))"
    using n by (simp add: ld32_def st32_def add.assoc)
  also have "\<dots> = (ld32 m (a + 1) AND push_bit 24 (Bit_Operations.mask 8)) OR drop_bit 8 v" (is "?l = ?r")
  proof (rule bit_word_eqI)
    fix k assume k: "k < LENGTH(32)"
    consider "k < 8" | "8 \<le> k \<and> k < 16" | "16 \<le> k \<and> k < 24" | "24 \<le> k \<and> k < 32"
      using k by fastforce
    then show "bit ?l k = bit ?r k"
      by cases (auto simp: bit_simps ld32_def add.assoc dest: bit_imp_le_length)
  qed
  also have "push_bit 24 (Bit_Operations.mask 8) = (0xFF000000 :: u32)"
    by (simp add: mask_eq_exp_minus_1)
  finally show ?thesis .
qed

section \<open>Tasks and other heap regions\<close>

lemma untouched_bodies:
  assumes "untouched rs m m'" and "\<forall>t \<in> T. \<exists>k. 112 \<le> k \<and> (unat t, k) \<in> set rs"
  shows "eq_out (- bodies T) m m'"
  unfolding eq_out_def
proof (intro allI impI)
  fix a assume "a \<notin> - bodies T"
  then obtain t where t: "t \<in> T" "unat t \<le> unat a" "unat a < unat t + 112" by (auto simp: bodies_def)
  then obtain k where k: "112 \<le> k" "(unat t, k) \<in> set rs" using assms(2) by blast
  have "of_nat (unat t) + of_nat (unat a - unat t) = a"
    using t(2) by (simp add: of_nat_diff)
  then show "m' a = m a"
    using untouched_nth [OF assms(1) k(2), of "unat a - unat t"] t k(1) by simp
qed

lemma bodies_payload:
  assumes "\<forall>t \<in> T. \<exists>k. 112 \<le> k \<and> (unat t, k) \<in> set rs"
  shows "bodies T \<subseteq> payload rs"
proof
  fix a assume "a \<in> bodies T"
  then obtain t where t: "t \<in> T" "unat t \<le> unat a" "unat a < unat t + 112" by (auto simp: bodies_def)
  then obtain k where "112 \<le> k" "(unat t, k) \<in> set rs" using assms by blast
  with t have "(unat t, k) \<in> set rs \<and> unat t \<le> unat a \<and> unat a < unat t + k" by simp
  then show "a \<in> payload rs" unfolding payload_def by blast
qed

lemma kept_bodies:
  assumes "eq_out (- bodies T) m m'" and "t \<in> T" and "task_ok t" and "tfield i"
  shows "ld32 m' (t + i) = ld32 m (t + i)"
proof (rule eq_out_ld32 [OF assms(1)])
  note f = field_in_task [OF assms(3,4)]
  show "unat (t + i) + 4 \<le> two32" using f assms(3) by (simp add: task_ok_def)
  show "region (t + i) 4 \<inter> - bodies T = {}"
    using f assms(2) by (fastforce simp: region_def bodies_def)
qed

lemma ring_bodies:
  assumes "ring m h xs" and "eq_out (- bodies T) m m'" and "set xs \<subseteq> T" and "tsep T"
  shows "ring m' h xs"
  by (rule ring_frame [OF assms(1,2)])
    (use links_bodies [OF assms(3)] assms(3,4) in \<open>auto simp: tsep_def\<close>)

text \<open>
  Between two states of the scheduler that differ outside the task structures, and in the
  ownership of other regions, the invariant is kept.
\<close>

lemma sched_inv_outside:
  assumes inv: "sched_inv s rq wq dq" and own: "owned s' (tasks s rq wq dq)"
    and eq: "eq_out (- bodies (tasks s rq wq dq)) (mem s) (mem s')"
    and same: "runq_head s' = runq_head s" "waitq_head s' = waitq_head s" "doneq_head s' = doneq_head s"
      "idle_task s' = idle_task s" "thread_count s' = thread_count s"
  shows "sched_inv s' rq wq dq"
proof -
  let ?T = "tasks s rq wq dq"
  have sep: "tsep ?T" and q: "queues (mem s) s rq wq dq" and st: "statuses (mem s) rq wq dq"
    using inv by (auto simp: sched_inv_def intro: owned_tsep)
  have "queues (mem s') s' rq wq dq"
    using q ring_bodies [OF _ eq _ sep] tasks_sub [where s = s and rq = rq and wq = wq and dq = dq] same
    by (auto simp: queues_def)
  moreover have "statuses (mem s') rq wq dq"
  proof (rule statuses_cong [OF st])
    fix x assume "x \<in> set rq \<union> set wq \<union> set dq"
    then have "x \<in> ?T" by (auto simp: tasks_def)
    then show "ld32 (mem s') (x + 36) = ld32 (mem s) (x + 36)"
      using sep by (intro kept_bodies [OF eq]) (auto simp: tsep_def)
  qed
  moreover have "tasks s' rq wq dq = ?T" using same by (simp add: tasks_def)
  ultimately show ?thesis using inv own same by (auto simp: sched_inv_def)
qed

text \<open>A task that ends is marked, given its result and moved to the end of the queue of finished tasks.\<close>

lemma retire_moves:
  fixes v :: u32
  assumes inv: "sched_inv s (ys @ t # zs) wq dq"
  defines "T \<equiv> tasks s (ys @ t # zs) wq dq" and "m3 \<equiv> st32 (st32 (mem s) (t + 36) 4) (t + 16) v"
  shows "\<exists>m4 h4 m5 k5. splice_outq m3 (runq_head s) t = Some (m4, h4) \<and> splice_inq m4 (doneq_head s) t = Some (m5, k5) \<and>
     ring m5 h4 (ys @ zs) \<and> ring m5 (waitq_head s) wq \<and> ring m5 k5 (dq @ [t]) \<and> statuses m5 (ys @ zs) wq (dq @ [t]) \<and>
     ld32 m5 (t + 16) = v \<and> eq_out (bodies T) (mem s) m5"
proof -
  have sep: "tsep T" and dist: "distinct (idle_task s # (ys @ t # zs) @ wq @ dq)"
    using inv by (auto simp: sched_inv_def T_def intro: owned_tsep)
  have tT: "t \<in> T" by (simp add: tasks_def T_def)
  have t0: "t \<noteq> 0" "task_ok t" using sep tT by (auto simp: tsep_def task_ok_def)
  have "queues m3 s (ys @ t # zs) wq dq"
    unfolding m3_def by (intro queues_field [where T = T]) (use inv sep tT in \<open>auto simp: sched_inv_def tasks_def T_def\<close>)
  then have q3: "ring m3 (runq_head s) (ys @ t # zs)" "ring m3 (doneq_head s) dq" "ring m3 (waitq_head s) wq" by (auto simp: queues_def)
  have dist1: "distinct ((ys @ t # zs) @ dq @ wq)" using dist by auto
  have sub: "set (ys @ t # zs) \<union> set dq \<union> set wq \<subseteq> T" by (auto simp: tasks_def T_def)
  obtain m4 h4 m5 k5 where mv: "splice_outq m3 (runq_head s) t = Some (m4, h4)"
    "splice_inq m4 (doneq_head s) t = Some (m5, k5)" "ring m5 h4 (ys @ zs)" "ring m5 k5 (dq @ [t])"
    and wq: "ring m5 (waitq_head s) wq" and eq5: "eq_out (bodies T) m3 m5"
    and fld: "\<forall>x \<in> T. \<forall>i. tfield i \<longrightarrow> unat i < 104 \<longrightarrow> ld32 m5 (x + i) = ld32 m3 (x + i)"
    using move_task [OF q3 sep sub dist1] by blast
  have mine: "ld32 m5 (t + 36) = 4" "ld32 m5 (t + 16) = v"
    using fld [rule_format, OF tT, of 36] fld [rule_format, OF tT, of 16] tT by (simp_all add: m3_def task_fld [OF sep])
  have "statuses m5 (ys @ zs) wq dq"
  proof (rule statuses_cong [OF statuses_split(1)])
    show "statuses (mem s) (ys @ t # zs) wq dq" using inv by (simp add: sched_inv_def)
    fix x assume "x \<in> set (ys @ zs) \<union> set wq \<union> set dq"
    then have x: "x \<in> T" "x \<noteq> t" using dist by (auto simp: tasks_def T_def)
    then show "ld32 m5 (x + 36) = ld32 (mem s) (x + 36)"
      using fld [rule_format, OF x(1), of 36] tT by (simp add: m3_def task_fld [OF sep])
  qed
  then have "statuses m5 (ys @ zs) wq (dq @ [t])" using mine by (simp add: statuses_snoc)
  moreover have "eq_out (bodies T) (mem s) m3" unfolding m3_def by (intro eq_out_body eq_out_refl tT t0) simp_all
  then have "eq_out (bodies T) (mem s) m5" by (rule eq_out_trans [OF _ eq5])
  ultimately show ?thesis using mv wq mine by blast
qed

lemma twin_unlink:
  assumes "eq_out A m d" and "unlink m x = Some m'" and "clear_of A (x + 104)" and "clear_of A (x + 108)"
  shows "\<exists>d'. unlink d x = Some d' \<and> eq_out A m' d'"
  using assms twin_lds [OF assms(1)] by (auto simp: unlink_def rd32_def wr32_def twin_ld twin_st split: if_splits)

lemma twin_splice_outq:
  assumes "eq_out A m d" and "splice_outq m h x = Some (m', h')" and "clear_of A (x + 104)" and "clear_of A (x + 108)"
  shows "\<exists>d'. splice_outq d h x = Some (d', h') \<and> eq_out A m' d'"
  using assms twin_unlink [OF assms(1) _ assms(3,4)]
  by (fastforce simp: splice_outq_def rd32_def twin_ld split: if_splits Option.bind_splits)

lemma twin_splice_inq:
  assumes "eq_out A m d" and "splice_inq m h x = Some (m', h')" and "h \<noteq> 0 \<longrightarrow> clear_of A (h + 104)"
  shows "\<exists>d'. splice_inq d h x = Some (d', h') \<and> eq_out A m' d'"
  using assms twin_lds [OF assms(1)] by (auto simp: splice_inq_def rd32_def wr32_def twin_ld twin_st split: if_splits)

text \<open>\<open>retire_thread\<close> after the stack is freed.\<close>

definition retire_rest :: "u32 \<Rightarrow> 'a sched_scheme \<Rightarrow> 'a sched_scheme option" where
  "retire_rest v s = do {
     m1 \<leftarrow> wr32 (mem s) (current_task s) t_status EXITED;
     m2 \<leftarrow> wr32 m1 (current_task s) t_retval v;
     (m3, rh) \<leftarrow> splice_outq m2 (runq_head s) (current_task s);
     (m4, dh) \<leftarrow> splice_inq m3 (doneq_head s) (current_task s);
     Some (s\<lparr>mem := m4, runq_head := rh, doneq_head := dh, thread_count := thread_count s - 1,
       global_sched_lock := kthread_mutex_unlock (global_sched_lock s)\<rparr>) }"

lemma retire_thread_rest:
  assumes "global_sched_lock s = 1" and "current_task s = t" and "t \<noteq> 0"
    and "kfree (ld32 (mem s) (t + 4)) (s\<lparr>global_sched_lock := 0\<rparr>) = Some s2" and "current_task s2 = t"
  shows "retire_thread v s = retire_rest v s2"
  using assms by (simp add: retire_thread_def retire_rest_def)

lemma retire_rest_inv:
  assumes inv: "sched_inv s (ys @ t # zs) wq dq" and cur: "current_task s = t" and own: "heap_owns s rs"
    and tk: "\<forall>x \<in> tasks s (ys @ t # zs) wq dq. \<exists>j. 112 \<le> j \<and> (unat x, j) \<in> set rs"
  shows "\<exists>s'. retire_rest v s = Some s' \<and> sched_inv s' (ys @ zs) wq (dq @ [t]) \<and> heap_owns s' rs \<and>
     global_sched_lock s' = 1 \<and> current_task s' = t \<and> ld32 (mem s') (t + 16) = v"
proof -
  let ?T = "tasks s (ys @ t # zs) wq dq"
  have dist: "distinct (idle_task s # (ys @ t # zs) @ wq @ dq)" using inv by (simp add: sched_inv_def)
  have "t \<in> ?T" by (simp add: tasks_def)
  then have t0: "t \<noteq> 0" using inv by (auto simp: sched_inv_def dest: tsep_nonnull [OF owned_tsep])
  obtain m4 h4 m5 k5 where mv: "splice_outq (st32 (st32 (mem s) (t + 36) 4) (t + 16) v) (runq_head s) t = Some (m4, h4)"
    "splice_inq m4 (doneq_head s) t = Some (m5, k5)" "ring m5 h4 (ys @ zs)" "ring m5 (waitq_head s) wq" "ring m5 k5 (dq @ [t])"
    and st': "statuses m5 (ys @ zs) wq (dq @ [t])" and mine: "ld32 m5 (t + 16) = v" and body: "eq_out (bodies ?T) (mem s) m5"
    using retire_moves [OF inv, of v] by auto
  define s' where "s' = s\<lparr>mem := m5, runq_head := h4, doneq_head := k5, thread_count := thread_count s - 1, global_sched_lock := 1\<rparr>"
  have run: "retire_rest v s = Some s'" using cur t0 mv by (simp add: retire_rest_def s'_def kthread_mutex_unlock_def)
  have cong: "heap_owns s' r = heap_owns (s\<lparr>mem := m5\<rparr>) r" for r by (rule heap_owns_cong) (simp_all add: s'_def)
  have rs': "heap_owns s' rs" unfolding cong by (rule kheap.poke_owns [OF own eq_out_mono [OF body bodies_payload [OF tk]]])
  have "tasks s' (ys @ zs) wq (dq @ [t]) = ?T" by (auto simp: tasks_def s'_def)
  then have own': "owned s' (tasks s' (ys @ zs) wq (dq @ [t]))" using rs' tk by (auto simp: owned_def)
  have c: "unat (thread_count s) = length (ys @ t # zs) + length wq" using inv by (simp add: sched_inv_def)
  then have "1 \<le> thread_count s" by (simp add: word_le_nat_alt)
  with c have "unat (thread_count s - 1) = length ys + length zs + length wq" by (simp add: unat_minus_fit)
  then have "sched_inv s' (ys @ zs) wq (dq @ [t])" using own' st' mv dist inv by (auto simp: sched_inv_def queues_def s'_def)
  with run rs' mine cur show ?thesis by (intro exI [of _ s']) (auto simp: s'_def)
qed

lemma twin_retire_rest:
  fixes s :: "'a sched_scheme"
  assumes "retire_rest v s = Some s'" and "eq_out A (mem s) d"
    and o: "clear_of A (current_task s + 104)" "clear_of A (current_task s + 108)" "doneq_head s \<noteq> 0 \<longrightarrow> clear_of A (doneq_head s + 104)"
  shows "\<exists>d'. retire_rest v (s\<lparr>mem := d\<rparr>) = Some (s'\<lparr>mem := d'\<rparr>) \<and> eq_out A (mem s') d'"
proof -
  let ?t = "current_task s"
  let ?w = "\<lambda>m. st32 (st32 m (?t + 36) EXITED) (?t + 16) v"
  obtain m3 rh m4 dh where r: "?t \<noteq> 0" "splice_outq (?w (mem s)) (runq_head s) ?t = Some (m3, rh)"
    "splice_inq m3 (doneq_head s) ?t = Some (m4, dh)"
    "s' = s\<lparr>mem := m4, runq_head := rh, doneq_head := dh, thread_count := thread_count s - 1,
       global_sched_lock := kthread_mutex_unlock (global_sched_lock s)\<rparr>"
    using assms(1) by (auto simp: retire_rest_def wr32_def split: if_splits Option.bind_splits)
  obtain d3 where d3: "splice_outq (?w d) (runq_head s) ?t = Some (d3, rh)" "eq_out A m3 d3"
    using twin_splice_outq [OF twin_st [OF twin_st [OF assms(2)]] r(2) o(1,2)] by blast
  obtain d4 where "splice_inq d3 (doneq_head s) ?t = Some (d4, dh)" "eq_out A m4 d4"
    using twin_splice_inq [OF d3(2) r(3) o(3)] by blast
  with d3 r show ?thesis by (intro exI [of _ d4]) (simp add: retire_rest_def)
qed

lemma bodies_clear:
  assumes "heap_owns s (rs1 @ (p, k) # rs2)" and "\<forall>x \<in> T. \<exists>j. 112 \<le> j \<and> (unat x, j) \<in> set (rs1 @ rs2)"
    and "A \<subseteq> zone p (k + 3)"
  shows "A \<inter> bodies T = {}"
proof -
  have "sorted_wrt (\<lambda>(p, k) (q, l). p + k + 16 \<le> q) (rs1 @ (p, k) # rs2)"
    using assms(1) live_sorted by (metis heap_owns_def)
  then have "unat x + 112 \<le> p \<or> p + k + 16 \<le> unat x" if "x \<in> T" for x
    using that assms(2) by (fastforce simp: sorted_wrt_append)
  then show ?thesis using assms(3) by (fastforce simp: bodies_def zone_def)
qed

lemma clear_of_field:
  assumes "A \<inter> bodies T = {}" and "tsep T" and "x \<in> T" and "tfield i"
  shows "clear_of A (x + i)"
proof -
  have x: "task_ok x" using assms(2,3) by (simp add: tsep_def)
  note f = field_in_task [OF x assms(4)]
  have "region (x + i) 4 \<subseteq> bodies T" unfolding region_def bodies_def using f assms(3) by (auto intro!: bexI [of _ x])
  then show ?thesis using f x assms(1) by (auto simp: clear_of_def task_ok_def)
qed

lemma retire_twin:
  assumes inv: "sched_inv s (ys @ t # zs) wq dq" and cur: "current_task s = t" and lock: "global_sched_lock s = 1"
    and own: "heap_owns s (rs1 @ (stk, k) # rs2)" and stk: "stk = unat (ld32 (mem s) (t + 4))"
    and tk: "\<forall>x \<in> tasks s (ys @ t # zs) wq dq. \<exists>j. 112 \<le> j \<and> (unat x, j) \<in> set (rs1 @ rs2)"
    and e: "eq_out A (mem s) d" and A: "A \<subseteq> zone stk (k + 3)"
  shows "\<exists>s' d'. retire_thread v (s\<lparr>mem := d\<rparr>) = Some (s'\<lparr>mem := d'\<rparr>) \<and> eq_out A (mem s') d' \<and>
     sched_inv s' (ys @ zs) wq (dq @ [t]) \<and> heap_owns s' (rs1 @ rs2) \<and> global_sched_lock s' = 1 \<and> current_task s' = t \<and>
     ld32 d' (t + 16) = v \<and>
     (A \<subseteq> zone stk k \<or> stk + k + 16 \<notin> fst ` set rs2 \<longrightarrow>
        sched_inv (s'\<lparr>mem := d'\<rparr>) (ys @ zs) wq (dq @ [t]) \<and> heap_owns (s'\<lparr>mem := d'\<rparr>) (rs1 @ rs2))"
proof -
  let ?T = "tasks s (ys @ t # zs) wq dq" and ?s1 = "s\<lparr>global_sched_lock := 0\<rparr>"
  have sep: "tsep ?T" using inv by (auto simp: sched_inv_def intro: owned_tsep)
  have tT: "t \<in> ?T" by (simp add: tasks_def)
  have t0: "t \<noteq> 0" by (rule tsep_nonnull [OF sep tT])
  have ab: "A \<inter> bodies ?T = {}" by (rule bodies_clear [OF own tk A])
  note o = clear_of_field [OF ab sep]
  have own1: "heap_owns ?s1 (rs1 @ (stk, k) # rs2)" using own heap_owns_cong [of ?s1 s] by simp
  obtain s2 d2 where kf: "kfree (of_nat stk) ?s1 = Some s2" "kfree (of_nat stk) (?s1\<lparr>mem := d\<rparr>) = Some (s2\<lparr>mem := d2\<rparr>)"
    "eq_out A (mem s2) d2" "A \<subseteq> zone stk k \<or> stk + k + 16 \<notin> fst ` set rs2 \<longrightarrow> heap_owns (s2\<lparr>mem := d2\<rparr>) (rs1 @ rs2)"
    using kfree_owns_twin [OF own1 _ A, of d] e by auto
  have k2: "heap_owns s2 (rs1 @ rs2)" "untouched (rs1 @ rs2) (mem s) (mem s2)" "s2 = ?s1\<lparr>mem := mem s2\<rparr>"
    using kfree_heap_owns [OF own1] kf(1) by auto
  have h2: "runq_head s2 = runq_head s" "waitq_head s2 = waitq_head s" "doneq_head s2 = doneq_head s"
    "idle_task s2 = idle_task s" "thread_count s2 = thread_count s" "current_task s2 = t"
    by (subst k2(3), simp add: cur)+
  have T2: "tasks s2 (ys @ t # zs) wq dq = ?T" using h2(4) by (simp add: tasks_def)
  have inv2: "sched_inv s2 (ys @ t # zs) wq dq"
    by (rule sched_inv_outside [OF inv _ untouched_bodies [OF k2(2) tk] h2(1-5)]) (use k2(1) tk in \<open>auto simp: owned_def\<close>)
  obtain s' where s': "retire_rest v s2 = Some s'" "sched_inv s' (ys @ zs) wq (dq @ [t])" "heap_owns s' (rs1 @ rs2)"
    "global_sched_lock s' = 1" "current_task s' = t" "ld32 (mem s') (t + 16) = v"
    using retire_rest_inv [OF inv2 h2(6) k2(1), of v] tk T2 by auto
  have dq: "doneq_head s \<in> ?T" if "doneq_head s \<noteq> 0"
    using that inv by (auto simp: sched_inv_def queues_def ring_def tasks_def split: if_splits)
  obtain d' where d': "retire_rest v (s2\<lparr>mem := d2\<rparr>) = Some (s'\<lparr>mem := d'\<rparr>)" "eq_out A (mem s') d'"
    using twin_retire_rest [OF s'(1) kf(3)] o tT dq h2 by auto
  have "ld32 d (t + 4) = of_nat stk" using twin_ld [OF e o [OF tT], of 4] stk by simp
  moreover have sw: "s\<lparr>global_sched_lock := 0, mem := d\<rparr> = s\<lparr>mem := d, global_sched_lock := 0\<rparr>" by (cases s) simp
  note kf(2) [unfolded sw]
  ultimately have run: "retire_thread v (s\<lparr>mem := d\<rparr>) = Some (s'\<lparr>mem := d'\<rparr>)"
    using retire_thread_rest [of "s\<lparr>mem := d\<rparr>" t "s2\<lparr>mem := d2\<rparr>" v] lock cur t0 h2(6) d'(1) by simp
  have "sched_inv (s'\<lparr>mem := d'\<rparr>) (ys @ zs) wq (dq @ [t]) \<and> heap_owns (s'\<lparr>mem := d'\<rparr>) (rs1 @ rs2)"
    if c: "A \<subseteq> zone stk k \<or> stk + k + 16 \<notin> fst ` set rs2"
  proof -
    let ?d2 = "s2\<lparr>mem := d2\<rparr>"
    have ow: "heap_owns ?d2 (rs1 @ rs2)" using kf(4) c by blast
    have "eq_out (- bodies ?T) (mem s2) (mem ?d2)" using kf(3) ab by (auto simp: eq_out_def)
    then have "sched_inv ?d2 (ys @ t # zs) wq dq"
      by (intro sched_inv_outside [OF inv2]) (use ow tk T2 in \<open>auto simp: owned_def\<close>)
    from retire_rest_inv [OF this _ ow, of v] show ?thesis using d'(1) h2 tk T2 by (auto simp: tasks_def)
  qed
  then show ?thesis using run d'(2) s'(2-6) twin_ld [OF d'(2) o [OF tT], of 16]
    by (intro exI [of _ s'] exI [of _ d']) simp
qed

section \<open>Creating a thread\<close>

lemma owned_live:
  assumes "owned s T" and "heap_rep s bs" and "t \<in> T"
  shows "\<exists>k. 112 \<le> k \<and> (unat t, k) \<in> set (live (unat (store_global_head s)) bs)"
  using assms heap_owns_live unfolding owned_def by metis

text \<open>The structure of a new thread before it is queued.\<close>

definition new_task :: "mem \<Rightarrow> addr \<Rightarrow> u32 \<Rightarrow> addr \<Rightarrow> addr \<Rightarrow> mem" where
  "new_task m ts tid callable arg =
     st32 (st32 (st32 (st32 (st32 (st32 m (ts + 20) tid) (ts + 36) NEW) (ts + 32) 0) (ts + 24) 0)
       (ts + 8) callable) (ts + 12) arg"

lemma new_task_fields:
  assumes "task_ok ts"
  shows "ld32 (new_task m ts tid f a) (ts + 20) = tid" "ld32 (new_task m ts tid f a) (ts + 36) = NEW"
    "ld32 (new_task m ts tid f a) (ts + 32) = 0" "ld32 (new_task m ts tid f a) (ts + 24) = 0"
    "ld32 (new_task m ts tid f a) (ts + 8) = f" "ld32 (new_task m ts tid f a) (ts + 12) = a"
    "eq_out (bodies {ts}) m (new_task m ts tid f a)"
proof -
  have sep: "tsep {ts}" using assms by (simp add: tsep_def)
  show "ld32 (new_task m ts tid f a) (ts + 20) = tid" "ld32 (new_task m ts tid f a) (ts + 36) = NEW"
    "ld32 (new_task m ts tid f a) (ts + 32) = 0" "ld32 (new_task m ts tid f a) (ts + 24) = 0"
    "ld32 (new_task m ts tid f a) (ts + 8) = f" "ld32 (new_task m ts tid f a) (ts + 12) = a"
    by (simp_all add: new_task_def task_fld [OF sep])
  show "eq_out (bodies {ts}) m (new_task m ts tid f a)"
    unfolding new_task_def by (intro eq_out_body eq_out_refl) (use assms in auto)
qed

lemma bodies_one_payload:
  "112 \<le> k \<Longrightarrow> (unat t, k) \<in> set rs \<Longrightarrow> bodies {t} \<subseteq> payload rs"
  by (rule bodies_payload) auto

text \<open>The descriptor table is cleared; the other fields keep their values.\<close>

lemma memset_fds:
  assumes "task_ok ts"
  shows "\<exists>m'. memset m (ts + 40) 0 64 = Some m' \<and> eq_out (bodies {ts}) m m' \<and>
     (\<forall>i. tfield i \<longrightarrow> unat i < 40 \<or> 104 \<le> unat i \<longrightarrow> ld32 m' (ts + i) = ld32 m (ts + i)) \<and>
     (\<forall>j < 64. m' (ts + 40 + of_nat j) = 0)"
proof -
  have u: "unat (ts + 40) = unat ts + 40" using assms by (simp add: task_ok_def)
  then have nz: "ts + 40 \<noteq> 0" by auto
  define m' where "m' = (\<lambda>a. if a \<in> region (ts + 40) 64 then 0 else m a)"
  have "memset m (ts + 40) 0 64 = Some m'"
    using memset_eq [OF nz, of 64 m 0] u assms by (auto simp: m'_def task_ok_def)
  moreover have eq: "eq_out (region (ts + 40) 64) m m'" by (simp add: eq_out_def m'_def)
  have "eq_out (bodies {ts}) m m'"
    by (rule eq_out_mono [OF eq]) (use u in \<open>auto simp: region_def bodies_def\<close>)
  moreover have "ld32 m' (ts + i) = ld32 m (ts + i)"
    if i: "tfield i" "unat i < 40 \<or> 104 \<le> unat i" for i
  proof (rule eq_out_ld32 [OF eq])
    note f = unat_field [OF assms i(1)] field_in_task [OF assms i(1)]
    have "unat i + 4 \<le> 40 \<or> 104 \<le> unat i" using i by (auto simp: tfield_def dvd_def)
    then show "region (ts + i) 4 \<inter> region (ts + 40) 64 = {}"
      using f u by (intro region_disjoint) auto
    show "unat (ts + i) + 4 \<le> two32" using f assms by (simp add: task_ok_def)
  qed
  moreover have "m' (ts + 40 + of_nat j) = 0" if "j < 64" for j
    using that in_region_of_nat [of "ts + 40" 64 j] u assms by (simp add: m'_def task_ok_def)
  ultimately show ?thesis by blast
qed

lemma bodies_disjoint:
  assumes "tsep (insert t T)" and "t \<notin> T"
  shows "bodies {t} \<subseteq> - bodies T"
proof -
  have "apart t 112 x 112" if "x \<in> T" for x using assms that by (auto simp: tsep_def)
  then show ?thesis by (fastforce simp: bodies_def apart_def)
qed

lemma fd_not_link:
  assumes "tsep (insert t (set xs))" and "t \<notin> set xs" and "j < 64"
  shows "t + 40 + of_nat j \<notin> links (t # xs)"
proof -
  have ok: "unat t + 112 \<le> two32" using assms(1) by (simp add: tsep_def task_ok_def)
  have u: "unat (t + 40 + of_nat j) = unat t + 40 + j"
    using ok assms(3) unat_plus_of_nat [of "t + 40" j] by simp
  have "apart t 112 x 112" if "x \<in> set xs" for x using assms(1,2) that by (auto simp: tsep_def)
  then show ?thesis using u assms(3) by (fastforce simp: links_def apart_def)
qed

text \<open>From the allocation of the stack to the end of \<open>sched_register_thread\<close>.\<close>

lemma queue_new_task:
  assumes sep: "tsep (insert ts T)" and fresh: "ts \<notin> T" and sub: "set rq \<subseteq> T" and r: "ring m rh rq"
  shows "\<exists>m1 m2 h. memset (st32 (st32 m (ts + 4) stk) ts (0x1FFF + stk)) (ts + 40) 0 64 = Some m1 \<and>
     splice_inq m1 rh ts = Some (m2, h) \<and> ring m2 h (rq @ [ts]) \<and> ld32 m2 ts = stk + 0x1FFF \<and> ld32 m2 (ts + 4) = stk \<and>
     (\<forall>i. tfield i \<longrightarrow> unat i < 40 \<longrightarrow> i \<noteq> 0 \<longrightarrow> i \<noteq> 4 \<longrightarrow> ld32 m2 (ts + i) = ld32 m (ts + i)) \<and>
     (\<forall>j < 64. m2 (ts + 40 + of_nat j) = 0) \<and> kept m m2 T \<and> eq_out (bodies (insert ts T)) m m2 \<and>
     (\<forall>l xs. ring m l xs \<longrightarrow> set xs \<subseteq> T - set rq \<longrightarrow> ring m2 l xs)"
proof -
  have ok: "task_ok ts" and sepT: "tsep T" and sep0: "tsep {ts}"
    using sep tsep_subset [OF sep] by (auto simp: tsep_def)
  define m0 where "m0 = st32 (st32 m (ts + 4) stk) ts (0x1FFF + stk)"
  obtain m1 where m1: "memset m0 (ts + 40) 0 64 = Some m1" and e1: "eq_out (bodies {ts}) m0 m1"
    and f1: "\<forall>i. tfield i \<longrightarrow> unat i < 40 \<or> 104 \<le> unat i \<longrightarrow> ld32 m1 (ts + i) = ld32 m0 (ts + i)"
    and fd1: "\<forall>j < 64. m1 (ts + 40 + of_nat j) = 0"
    using memset_fds [OF ok, of m0] by blast
  have "eq_out (bodies {ts}) m m0"
    unfolding m0_def using eq_out_body [of "{ts}" m "st32 m (ts + 4) stk" ts 0] ok by (simp add: eq_out_body)
  then have e01: "eq_out (bodies {ts}) m m1" by (rule eq_out_trans [OF _ e1])
  then have eT: "eq_out (- bodies T) m m1" by (rule eq_out_mono) (rule bodies_disjoint [OF sep fresh])
  have rb: "ring m1 l xs" if "ring m l xs" "set xs \<subseteq> T" for l xs by (rule ring_bodies [OF that(1) eT that(2) sepT])
  have sep1: "tsep (insert ts (set rq))" by (rule tsep_subset [OF sep]) (use sub in auto)
  have ntq: "ts \<notin> set rq" using fresh sub by auto
  obtain m2 h where sq: "splice_inq m1 rh ts = Some (m2, h)" "ring m2 h (rq @ [ts])" and e2: "eq_out (links (ts # rq)) m1 m2"
    using splice_inq_ring [OF rb [OF r sub] sep1 ntq] by blast
  have sub2: "set (ts # rq) \<subseteq> insert ts T" using sub by auto
  note f2 = fields_after_move [OF e2 sep sub2]
  have "ring m2 l xs" if "ring m l xs" "set xs \<subseteq> T - set rq" for l xs
    by (rule taskq.bystander [OF rb [OF that(1)] e2 tsep_subset [OF sep]]) (use that fresh sub in auto)
  moreover have mine: "ld32 m2 (ts + i) = ld32 m0 (ts + i)" if "tfield i" "unat i < 40" for i
    using f2 [of ts i] f1 that by simp
  have "ld32 m0 (ts + i) = ld32 m (ts + i)" if "tfield i" "i \<noteq> 0" "i \<noteq> 4" for i
    using that task_fld [OF sep0, of ts ts 0 i] task_fld [OF sep0, of ts ts 4 i] by (simp add: m0_def)
  then have "\<forall>i. tfield i \<longrightarrow> unat i < 40 \<longrightarrow> i \<noteq> 0 \<longrightarrow> i \<noteq> 4 \<longrightarrow> ld32 m2 (ts + i) = ld32 m (ts + i)"
    using mine by simp
  moreover have "ld32 m2 ts = stk + 0x1FFF" "ld32 m2 (ts + 4) = stk"
    using mine [of 0] mine [of 4] task_fld [OF sep0, of ts ts 0 4] by (simp_all add: m0_def)
  moreover have "kept m m2 T"
    unfolding kept_def using f2 kept_bodies [OF eT] sepT by (auto simp: tsep_def)
  moreover have "m2 (ts + 40 + of_nat j) = 0" if "j < 64" for j
    using eq_outD [OF e2 fd_not_link [OF sep1 ntq that]] fd1 that by simp
  moreover have "eq_out (bodies (insert ts T)) m m2"
  proof (rule eq_out_trans [OF eq_out_mono [OF e01] eq_out_mono [OF e2 links_bodies [OF sub2]]])
    show "bodies {ts} \<subseteq> bodies (insert ts T)" by (auto simp: bodies_def)
  qed
  ultimately show ?thesis using m1 sq unfolding m0_def by blast
qed

text \<open>A region that was just allocated starts where no other live region does.\<close>

lemma untouched_payload:
  assumes "untouched rs m m'"
  shows "eq_out (- payload rs) m m'"
  unfolding eq_out_def
proof (intro allI impI)
  fix a assume "a \<notin> - payload rs"
  then obtain p k where "(p, k) \<in> set rs" "p \<le> unat a" "unat a < p + k" by (auto simp: payload_def)
  then show "m' a = m a" using untouched_nth [OF assms, of p k "unat a - p"] by (simp add: of_nat_diff)
qed

lemma alloc_region:
  assumes "heap_owns s rs" and "0 < n" and "kmalloc n s = Some (a, s')"
  shows "\<exists>rs' k. heap_owns s' rs' \<and> set rs' = insert (unat a, k) (set rs) \<and> unat n \<le> k \<and> unat a \<notin> fst ` set rs \<and>
     untouched rs (mem s) (mem s') \<and> s' = s\<lparr>mem := mem s'\<rparr>"
proof -
  obtain rs1 rs2 k where rs: "rs = rs1 @ rs2" "unat n \<le> k" "heap_owns s' (rs1 @ (unat a, k) # rs2)"
    "untouched rs (mem s) (mem s')" "s' = s\<lparr>mem := mem s'\<rparr>"
    using kmalloc_heap_owns [OF assms] by blast
  have "unat a \<notin> fst ` set rs" using kheap.owns_apart [OF rs(3)] rs(1) by (auto simp: sorted_wrt_append)
  with rs show ?thesis by (intro exI [of _ "rs1 @ (unat a, k) # rs2"] exI [of _ k]) auto
qed

text \<open>The two allocations of a new thread: the tasks keep their bytes, and the structure keeps what was stored in it.\<close>

lemma register_alloc:
  assumes own: "heap_owns s rs" and T: "\<forall>t \<in> T. \<exists>k. 112 \<le> k \<and> (unat t, k) \<in> set rs"
    and km1: "kmalloc 112 s = Some (ts, s1)"
    and km2: "kmalloc 0x2000 (s1\<lparr>mem := new_task (mem s1) ts (tid_counter s) f a, tid_counter := tid_counter s + 1\<rparr>) = Some (stk, s2)"
  shows "\<exists>rs' k l. heap_owns s2 rs' \<and> set rs' = insert (unat stk, l) (insert (unat ts, k) (set rs)) \<and> 112 \<le> k \<and> 0x2000 \<le> l \<and>
     unat ts \<notin> fst ` set rs \<and> unat stk \<notin> insert (unat ts) (fst ` set rs) \<and> tsep (insert ts T) \<and> ts \<notin> T \<and>
     eq_out (- bodies T) (mem s) (mem s2) \<and> eq_out (- payload rs \<union> bodies {ts}) (mem s) (mem s2) \<and>
     ld32 (mem s2) (ts + 20) = tid_counter s \<and> ld32 (mem s2) (ts + 36) = NEW \<and>
     ld32 (mem s2) (ts + 8) = f \<and> ld32 (mem s2) (ts + 12) = a \<and>
     s1 = s\<lparr>mem := mem s1\<rparr> \<and> s2 = s\<lparr>mem := mem s2, tid_counter := tid_counter s + 1\<rparr>"
proof -
  let ?m1 = "new_task (mem s1) ts (tid_counter s) f a"
  let ?s1 = "s1\<lparr>mem := ?m1, tid_counter := tid_counter s + 1\<rparr>"
  obtain rs1 k where a1: "heap_owns s1 rs1" "set rs1 = insert (unat ts, k) (set rs)" "112 \<le> k" "unat ts \<notin> fst ` set rs"
    "untouched rs (mem s) (mem s1)" "s1 = s\<lparr>mem := mem s1\<rparr>"
    using alloc_region [OF own _ km1] by auto
  have T1: "\<forall>t \<in> insert ts T. \<exists>j. 112 \<le> j \<and> (unat t, j) \<in> set rs1" using T a1(2,3) by auto
  have sep: "tsep (insert ts T)" using owned_tsep [of s1] a1(1) T1 unfolding owned_def by blast
  then have ok: "task_ok ts" by (auto simp: tsep_def task_ok_def)
  have fresh: "ts \<notin> T" using T a1(4) by force
  note nt = new_task_fields [OF ok, of "mem s1" "tid_counter s" f a]
  have "bodies {ts} \<subseteq> payload rs1" by (rule bodies_one_payload [OF a1(3)]) (simp add: a1(2))
  then have "heap_owns (s1\<lparr>mem := ?m1\<rparr>) rs1" by (rule kheap.poke_owns [OF a1(1) eq_out_mono [OF nt(7)]])
  then have o1: "heap_owns ?s1 rs1" using heap_owns_cong [of ?s1 "s1\<lparr>mem := ?m1\<rparr>"] by simp
  obtain rs2 l where a2: "heap_owns s2 rs2" "set rs2 = insert (unat stk, l) (set rs1)" "0x2000 \<le> l"
    "unat stk \<notin> fst ` set rs1" "untouched rs1 ?m1 (mem s2)" "s2 = ?s1\<lparr>mem := mem s2\<rparr>"
    using alloc_region [OF o1 _ km2] by auto
  have b2: "eq_out (- bodies T) (mem s) (mem s2)"
  proof (rule eq_out_trans [OF untouched_bodies [OF a1(5) T] eq_out_trans])
    show "eq_out (- bodies T) (mem s1) ?m1" by (rule eq_out_mono [OF nt(7) bodies_disjoint [OF sep fresh]])
    show "eq_out (- bodies T) ?m1 (mem s2)" by (rule untouched_bodies [OF a2(5)]) (use T1 in blast)
  qed
  have "- payload rs1 \<subseteq> - payload rs" using a1(2) by (auto simp: payload_def)
  then have p2: "eq_out (- payload rs \<union> bodies {ts}) (mem s) (mem s2)"
    by (intro eq_out_trans [OF eq_out_mono [OF untouched_payload [OF a1(5)]] eq_out_trans
          [OF eq_out_mono [OF nt(7)] eq_out_mono [OF untouched_payload [OF a2(5)]]]]) auto
  have "ld32 (mem s2) (ts + i) = ld32 ?m1 (ts + i)" if "tfield i" for i
    by (rule kept_bodies [OF untouched_bodies [OF a2(5), of "insert ts T"]]) (use T1 ok that in auto)
  then have f2: "ld32 (mem s2) (ts + 20) = tid_counter s" "ld32 (mem s2) (ts + 36) = NEW" "ld32 (mem s2) (ts + 8) = f" "ld32 (mem s2) (ts + 12) = a"
    using nt by simp_all
  have "s2 = s\<lparr>mem := mem s2, tid_counter := tid_counter s + 1\<rparr>" by (subst a2(6), subst a1(6)) simp
  then show ?thesis using a1(2-4,6) a2(1-4) sep fresh b2 p2 f2
    by (intro exI [of _ rs2] exI [of _ k] exI [of _ l]) (simp add: a1(2) a2(2))
qed

lemma register_run:
  assumes inv: "sched_inv s rq wq dq" and own: "heap_owns s rs" and few: "length rq + length wq < 16"
    and T: "\<forall>t \<in> tasks s rq wq dq. \<exists>k. 112 \<le> k \<and> (unat t, k) \<in> set rs"
    and km1: "kmalloc 112 s = Some (ts, s1)"
    and km2: "kmalloc 0x2000 (s1\<lparr>mem := new_task (mem s1) ts (tid_counter s) f a, tid_counter := tid_counter s + 1\<rparr>) = Some (stk, s2)"
  shows "\<exists>s' rs' k l. sched_register_thread f a s = Some (tid_counter s, s') \<and>
     sched_inv s' (rq @ [ts]) wq dq \<and> ts \<notin> tasks s rq wq dq \<and>
     heap_owns s' rs' \<and> set rs' = insert (unat stk, l) (insert (unat ts, k) (set rs)) \<and> 112 \<le> k \<and> 0x2000 \<le> l \<and>
     unat ts \<notin> fst ` set rs \<and> unat stk \<notin> insert (unat ts) (fst ` set rs) \<and>
     ld32 (mem s') (ts + 20) = tid_counter s \<and> ld32 (mem s') (ts + 36) = NEW \<and>
     ld32 (mem s') (ts + 8) = f \<and> ld32 (mem s') (ts + 12) = a \<and>
     ld32 (mem s') ts = stk + 0x1FFF \<and> ld32 (mem s') (ts + 4) = stk \<and>
     (\<forall>j < 64. mem s' (ts + 40 + of_nat j) = 0) \<and> kept (mem s) (mem s') (tasks s rq wq dq) \<and>
     eq_out (bodies (insert ts (tasks s rq wq dq))) (mem s2) (mem s') \<and>
     eq_out (- payload rs \<union> bodies (insert ts (tasks s rq wq dq))) (mem s) (mem s') \<and>
     s' = s\<lparr>mem := mem s', tid_counter := tid_counter s + 1,
       current_task := (if current_task s = 0 then ts else current_task s),
       runq_head := runq_head s', thread_count := thread_count s'\<rparr>"
proof -
  let ?T = "tasks s rq wq dq"
  have q: "ring (mem s) (runq_head s) rq" "ring (mem s) (waitq_head s) wq" "ring (mem s) (doneq_head s) dq"
    and cnt: "unat (thread_count s) = length rq + length wq" and dist: "distinct (idle_task s # rq @ wq @ dq)"
    using inv by (auto simp: sched_inv_def queues_def)
  obtain rs2 k l where a: "heap_owns s2 rs2" "set rs2 = insert (unat stk, l) (insert (unat ts, k) (set rs))" "112 \<le> k" "0x2000 \<le> l"
    "unat ts \<notin> fst ` set rs" "unat stk \<notin> insert (unat ts) (fst ` set rs)"
    and sep: "tsep (insert ts ?T)" and fresh: "ts \<notin> ?T" and b2: "eq_out (- bodies ?T) (mem s) (mem s2)"
    and p2: "eq_out (- payload rs \<union> bodies {ts}) (mem s) (mem s2)"
    and f2: "ld32 (mem s2) (ts + 20) = tid_counter s" "ld32 (mem s2) (ts + 36) = NEW" "ld32 (mem s2) (ts + 8) = f" "ld32 (mem s2) (ts + 12) = a"
    and s1: "s1 = s\<lparr>mem := mem s1\<rparr>" and s2: "s2 = s\<lparr>mem := mem s2, tid_counter := tid_counter s + 1\<rparr>"
    using register_alloc [OF own T km1 km2] by blast
  have ok: "task_ok ts" "ts \<noteq> 0" using sep by (auto simp: tsep_def task_ok_def)
  have sepT: "tsep ?T" by (rule tsep_subset [OF sep]) auto
  note sub = tasks_sub [where s = s and rq = rq and wq = wq and dq = dq]
  have r2: "ring (mem s2) h xs" if "ring (mem s) h xs" "set xs \<subseteq> ?T" for h xs
    by (rule ring_bodies [OF that(1) b2 that(2) sepT])
  obtain m3 m4 h where m3: "memset (st32 (st32 (mem s2) (ts + 4) stk) ts (0x1FFF + stk)) (ts + 40) 0 64 = Some m3"
      "splice_inq m3 (runq_head s) ts = Some (m4, h)" "ring m4 h (rq @ [ts])"
    and f4: "ld32 m4 ts = stk + 0x1FFF" "ld32 m4 (ts + 4) = stk"
      "\<forall>i. tfield i \<longrightarrow> unat i < 40 \<longrightarrow> i \<noteq> 0 \<longrightarrow> i \<noteq> 4 \<longrightarrow> ld32 m4 (ts + i) = ld32 (mem s2) (ts + i)"
      "\<forall>j < 64. m4 (ts + 40 + of_nat j) = 0"
    and k4: "kept (mem s2) m4 ?T" and e4: "eq_out (bodies (insert ts ?T)) (mem s2) m4"
    and r4: "\<forall>l xs. ring (mem s2) l xs \<longrightarrow> set xs \<subseteq> ?T - set rq \<longrightarrow> ring m4 l xs"
    using queue_new_task [OF sep fresh sub(1) r2 [OF q(1) sub(1)]] by blast
  have q4: "ring m4 (waitq_head s) wq" "ring m4 (doneq_head s) dq"
    by (rule r4 [rule_format, OF r2 [OF q(2) sub(2)]], use sub(2) dist in auto)
      (rule r4 [rule_format, OF r2 [OF q(3) sub(3)]], use sub(3) dist in auto)
  have fields: "ld32 m4 (ts + 20) = tid_counter s" "ld32 m4 (ts + 36) = NEW" "ld32 m4 (ts + 8) = f" "ld32 m4 (ts + 12) = a"
    using f4(3) f2 by simp_all
  define s' where "s' = s2\<lparr>mem := m4, current_task := (if current_task s = 0 then ts else current_task s),
    runq_head := h, thread_count := thread_count s + 1\<rparr>"
  have sel: "s' = s\<lparr>mem := m4, tid_counter := tid_counter s + 1,
      current_task := (if current_task s = 0 then ts else current_task s), runq_head := h, thread_count := thread_count s + 1\<rparr>"
    unfolding s'_def by (subst s2) simp
  have max: "thread_count s \<noteq> MAX_THREADCOUNT" using cnt few by (auto simp: MAX_THREADCOUNT_def)
  have s1f: "tid_counter s1 = tid_counter s" "current_task s2 = current_task s" "runq_head s2 = runq_head s" "thread_count s2 = thread_count s"
    by (subst s1, simp) (subst s2, simp)+
  have run: "sched_register_thread f a s = Some (tid_counter s, s')"
    using max km1 km2 ok m3 fields(1) s1f
    by (simp add: sched_register_thread_def sizeof_task_def THREAD_STACK_SIZE_def NUM_MAX_FD_def Let_def s'_def new_task_def)
  have T2: "\<forall>t \<in> insert ts ?T. \<exists>j. 112 \<le> j \<and> (unat t, j) \<in> set rs2" using T a(2,3) by auto
  have "heap_owns (s2\<lparr>mem := m4\<rparr>) rs2" by (rule kheap.poke_owns [OF a(1) eq_out_mono [OF e4 bodies_payload [OF T2]]])
  then have own': "heap_owns s' rs2" using heap_owns_cong [of s' "s2\<lparr>mem := m4\<rparr>"] by (simp add: s'_def)
  have keep: "kept (mem s) m4 ?T"
    unfolding kept_def using k4 kept_bodies [OF b2] sepT by (auto simp: kept_def tsep_def)
  have "statuses m4 rq wq dq"
    by (rule statuses_cong [of "mem s"]) (use inv keptD [OF keep, of _ 36] in \<open>auto simp: sched_inv_def tasks_def\<close>)
  then have "statuses m4 (rq @ [ts]) wq dq" using fields by (simp add: statuses_snoc)
  moreover have "tasks s' (rq @ [ts]) wq dq = insert ts ?T" by (auto simp: tasks_def sel)
  then have "owned s' (tasks s' (rq @ [ts]) wq dq)" using own' T2 unfolding owned_def by auto
  moreover have "unat (thread_count s + 1) = length rq + length wq + 1" using cnt few by simp
  ultimately have "sched_inv s' (rq @ [ts]) wq dq"
    using m3(3) q4 dist fresh few by (auto simp: sched_inv_def queues_def sel tasks_def)
  moreover have "bodies {ts} \<subseteq> bodies (insert ts ?T)" by (auto simp: bodies_def)
  then have "eq_out (- payload rs \<union> bodies (insert ts ?T)) (mem s) m4"
    by (intro eq_out_trans [OF eq_out_mono [OF p2] eq_out_mono [OF e4]]) auto
  ultimately show ?thesis
    using run fresh fields f4 e4 a(2-6) own' keep
    by (intro exI [of _ s'] exI [of _ rs2] exI [of _ k] exI [of _ l]) (simp add: sel)
qed


text \<open>In a heap with room for both, the allocator gives the task structure and the stack.\<close>

lemma register_room:
  assumes rep: "heap_rep s bs" and fit: "\<exists>b \<in> set bs. fits (112 + 16 + 0x2000) b"
  shows "\<exists>ts m1 k stk m3. kmalloc 112 s = Some (ts, s\<lparr>mem := m1\<rparr>) \<and>
     kmalloc 0x2000 (s\<lparr>mem := new_task m1 ts (tid_counter s) f a, tid_counter := tid_counter s + 1\<rparr>) =
       Some (stk, s\<lparr>mem := m3, tid_counter := tid_counter s + 1\<rparr>) \<and>
     112 \<le> k \<and> set (live (unat (store_global_head s)) (alloc_blks 112 bs)) =
       insert (unat ts, k) (set (live (unat (store_global_head s)) bs)) \<and>
     eq_out (zone (unat (store_global_head s)) (span bs)) (mem s) m3"
proof -
  let ?b = "unat (store_global_head s)" and ?l = "live (unat (store_global_head s))"
  have fit1: "\<exists>b \<in> set bs. fits 112 b" using fit by (auto simp: fits_def)
  obtain ts m1 k where km1: "kmalloc 112 s = Some (ts, s\<lparr>mem := m1\<rparr>)" and rep1: "heap_rep (s\<lparr>mem := m1\<rparr>) (alloc_blks 112 bs)"
    and k: "112 \<le> k" "set (?l (alloc_blks 112 bs)) = insert (unat ts, k) (set (?l bs))" and z1: "eq_out (zone ?b (span bs)) (mem s) m1"
    using kmalloc_room [OF rep _ fit1] by fastforce
  let ?m2 = "new_task m1 ts (tid_counter s) f a"
  define s2 where "s2 = s\<lparr>mem := ?m2, tid_counter := tid_counter s + 1\<rparr>"
  have p: "bodies {ts} \<subseteq> payload (?l (alloc_blks 112 bs))" by (rule bodies_payload) (use k in auto)
  have "owned (s\<lparr>mem := m1\<rparr>) {ts}" unfolding owned_def using heap_rep_owns [OF rep1] k by auto
  then have ok: "task_ok ts" using owned_tsep by (auto simp: tsep_def)
  note nt = new_task_fields(7) [OF ok, of m1 "tid_counter s" f a]
  have "heap_rep ((s\<lparr>mem := m1\<rparr>)\<lparr>mem := ?m2\<rparr>) (alloc_blks 112 bs)"
    by (rule heap_rep_payload [OF rep1]) (use eq_out_mono [OF nt p] in simp)
  then have rep2: "heap_rep s2 (alloc_blks 112 bs)" by (simp add: heap_rep_def s2_def)
  have fit2: "\<exists>b \<in> set (alloc_blks 112 bs). fits 0x2000 b" by (rule fits_after_alloc [OF fit]) simp
  obtain stk m3 where km2: "kmalloc 0x2000 s2 = Some (stk, s2\<lparr>mem := m3\<rparr>)" and z3: "eq_out (zone ?b (span bs)) ?m2 m3"
    using kmalloc_room [OF rep2 _ fit2] by (auto simp: s2_def)
  have "bodies {ts} \<subseteq> zone ?b (span bs)" using p payload_zone [of ?b "alloc_blks 112 bs"] by auto
  then have "eq_out (zone ?b (span bs)) (mem s) m3" by (intro eq_out_trans [OF z1 eq_out_trans [OF eq_out_mono [OF nt] z3]])
  with km1 km2 k show ?thesis
    by (intro exI [of _ ts] exI [of _ m1] exI [of _ k] exI [of _ stk] exI [of _ m3]) (simp add: s2_def)
qed

lemma register_inv:
  assumes inv: "sched_inv s rq wq dq" and rep: "heap_rep s bs" and few: "length rq + length wq < 16"
    and fit: "\<exists>b \<in> set bs. fits (112 + 16 + 0x2000) b"
  shows "\<exists>s' ts stk k. sched_register_thread f a s = Some (tid_counter s, s') \<and>
     sched_inv s' (rq @ [ts]) wq dq \<and> ts \<notin> tasks s rq wq dq \<and>
     tid_counter s' = tid_counter s + 1 \<and>
     current_task s' = (if current_task s = 0 then ts else current_task s) \<and>
     ld32 (mem s') (ts + 20) = tid_counter s \<and> ld32 (mem s') (ts + 36) = NEW \<and>
     ld32 (mem s') (ts + 8) = f \<and> ld32 (mem s') (ts + 12) = a \<and>
     ld32 (mem s') ts = stk + 0x1FFF \<and>
     (\<exists>rs. heap_owns s' rs \<and> (unat stk, k) \<in> set rs) \<and> 0x2000 \<le> k \<and>
     (\<forall>j < 64. mem s' (ts + 40 + of_nat j) = 0) \<and>
     kept (mem s) (mem s') (tasks s rq wq dq) \<and>
     eq_out (zone (unat (store_global_head s)) (span bs)) (mem s) (mem s') \<and>
     s' = s\<lparr>mem := mem s', tid_counter := tid_counter s', current_task := current_task s',
       runq_head := runq_head s', thread_count := thread_count s'\<rparr>"
proof -
  let ?T = "tasks s rq wq dq" and ?b = "unat (store_global_head s)" and ?l = "live (unat (store_global_head s))"
  have own: "heap_owns s (?l bs)" by (rule heap_rep_owns [OF rep])
  have T: "\<forall>t \<in> ?T. \<exists>k. 112 \<le> k \<and> (unat t, k) \<in> set (?l bs)"
    using owned_live [OF _ rep] inv by (auto simp: sched_inv_def)
  obtain ts m1 k stk m3 where km1: "kmalloc 112 s = Some (ts, s\<lparr>mem := m1\<rparr>)"
    and km2: "kmalloc 0x2000 (s\<lparr>mem := new_task m1 ts (tid_counter s) f a, tid_counter := tid_counter s + 1\<rparr>) =
       Some (stk, s\<lparr>mem := m3, tid_counter := tid_counter s + 1\<rparr>)"
    and k: "112 \<le> k" "set (?l (alloc_blks 112 bs)) = insert (unat ts, k) (set (?l bs))" and z: "eq_out (zone ?b (span bs)) (mem s) m3"
    using register_room [OF rep fit, of f a] by blast
  have pT: "bodies (insert ts ?T) \<subseteq> payload (?l (alloc_blks 112 bs))" by (rule bodies_payload) (use T k in auto)
  obtain s' rs' l where r: "sched_register_thread f a s = Some (tid_counter s, s')"
     "sched_inv s' (rq @ [ts]) wq dq" "ts \<notin> ?T" "heap_owns s' rs'" "(unat stk, l) \<in> set rs'" "0x2000 \<le> l"
     "ld32 (mem s') (ts + 20) = tid_counter s" "ld32 (mem s') (ts + 36) = NEW"
     "ld32 (mem s') (ts + 8) = f" "ld32 (mem s') (ts + 12) = a" "ld32 (mem s') ts = stk + 0x1FFF"
     "\<forall>j < 64. mem s' (ts + 40 + of_nat j) = 0" "kept (mem s) (mem s') ?T"
    and e: "eq_out (bodies (insert ts ?T)) m3 (mem s')"
    and sel: "s' = s\<lparr>mem := mem s', tid_counter := tid_counter s + 1,
       current_task := (if current_task s = 0 then ts else current_task s), runq_head := runq_head s', thread_count := thread_count s'\<rparr>"
    using register_run [OF inv own few T km1, of f a stk "s\<lparr>mem := m3, tid_counter := tid_counter s + 1\<rparr>"] km2 by auto
  have "bodies (insert ts ?T) \<subseteq> zone ?b (span bs)" using pT payload_zone [of ?b "alloc_blks 112 bs"] by auto
  then have "eq_out (zone ?b (span bs)) (mem s) (mem s')"
    by (intro eq_out_trans [OF z eq_out_mono [OF e]])
  moreover have "tid_counter s' = tid_counter s + 1" "current_task s' = (if current_task s = 0 then ts else current_task s)"
    by (subst sel, simp)+
  ultimately show ?thesis using r
    by (intro exI [of _ s'] exI [of _ ts] exI [of _ stk] exI [of _ l]) (use sel in auto)
qed

section \<open>A switch between two threads\<close>

lemma inv_set_field:
  assumes inv: "sched_inv s rq wq dq" and x: "x \<in> tasks s rq wq dq" and i: "tfield i" "unat i < 104"
    and st: "i = 36 \<Longrightarrow> x = idle_task s \<or> x \<in> set rq \<and> v \<in> {NEW, READY, RUNNING}"
  shows "sched_inv (s\<lparr>mem := st32 (mem s) (x + i) v\<rparr>) rq wq dq"
proof -
  let ?T = "tasks s rq wq dq" and ?m = "st32 (mem s) (x + i) v"
  have own: "owned s ?T" and q: "queues (mem s) s rq wq dq" and sts: "statuses (mem s) rq wq dq"
    and dist: "distinct (idle_task s # rq @ wq @ dq)"
    using inv by (auto simp: sched_inv_def)
  have sep: "tsep ?T" by (rule owned_tsep [OF own])
  have ok: "task_ok x" using sep x by (simp add: tsep_def)
  have "queues ?m s rq wq dq" by (rule queues_field [OF q sep subset_refl x i])
  moreover have "eq_out (bodies ?T) (mem s) ?m" by (rule eq_out_body [OF eq_out_refl x ok i(1)])
  then have "owned (s\<lparr>mem := ?m\<rparr>) ?T" by (rule owned_bodies [OF own])
  moreover have "ld32 ?m (y + 36) = (if x = y \<and> i = 36 then v else ld32 (mem s) (y + 36))" if "y \<in> ?T" for y
    by (rule task_fld [OF sep x that i(1)]) simp
  then have "statuses ?m rq wq dq"
    using sts st dist x unfolding statuses_def tasks_def by auto
  ultimately show ?thesis using inv by (simp add: sched_inv_def tasks_def queues_def)
qed

lemma zone_outside: "zone p k \<inter> bodies T = {} \<Longrightarrow> zone p k \<subseteq> - bodies T"
  by auto

text \<open>
  A thread that is not new can be suspended: its stack pointer has room for the frame, inside a
  live region and away from the task structures.
\<close>

definition stack_ok :: "'a sched_scheme \<Rightarrow> addr set \<Rightarrow> nat \<Rightarrow> bool" where
  "stack_ok s T p \<longleftrightarrow> p + 52 \<le> two32 \<and> zone p 52 \<inter> bodies T = {} \<and>
     (\<exists>rs. heap_owns s rs \<and> (\<forall>t \<in> T. \<exists>k. 112 \<le> k \<and> (unat t, k) \<in> set rs) \<and> zone p 52 \<subseteq> payload rs)"

definition suspended :: "mem \<Rightarrow> addr \<Rightarrow> cpu \<Rightarrow> nat \<Rightarrow> bool" where
  "suspended m t c q \<longleftrightarrow> ld32 m t = of_nat q \<and> has_frame m q (frame_words c) \<and> esp c = of_nat (q + 52)"

lemma suspended_frame:
  assumes "suspended m t c q" and "eq_out A m m'" and "q + 52 \<le> two32" and "zone q 52 \<inter> A = {}"
    and "ld32 m' t = ld32 m t"
  shows "suspended m' t c q"
  using assms has_frame_frame [of m q "frame_words c" A m'] by (simp add: suspended_def frame_words_def)

lemma save_context_inv:
  assumes inv: "sched_inv s rq wq dq" and t: "t \<in> tasks s rq wq dq"
    and stk: "stack_ok s (tasks s rq wq dq) p" and sp: "esp c = of_nat (p + 52)"
  shows "\<exists>m1. save_context c (mem s) t = Some (c\<lparr>esp := of_nat p\<rparr>, m1) \<and>
     sched_inv (s\<lparr>mem := m1\<rparr>) rq wq dq \<and> suspended m1 t c p \<and>
     eq_out (zone p 52 \<union> bodies {t}) (mem s) m1 \<and>
     (\<forall>x \<in> tasks s rq wq dq. \<forall>i. tfield i \<longrightarrow> (x \<noteq> t \<or> i \<noteq> 0) \<longrightarrow> ld32 m1 (x + i) = ld32 (mem s) (x + i))"
proof -
  let ?T = "tasks s rq wq dq"
  have sep: "tsep ?T" using inv by (auto simp: sched_inv_def intro: owned_tsep)
  have ok: "t \<noteq> 0" "task_ok t" using sep t by (auto simp: tsep_def task_ok_def)
  obtain rs where rs: "heap_owns s rs" and T: "\<forall>t \<in> ?T. \<exists>k. 112 \<le> k \<and> (unat t, k) \<in> set rs"
    and pay: "zone p 52 \<subseteq> payload rs" and p: "p + 52 \<le> two32" and off: "zone p 52 \<inter> bodies ?T = {}"
    using stk by (auto simp: stack_ok_def)
  obtain ma where ma: "save_context c (mem s) t = Some (c\<lparr>esp := of_nat p\<rparr>, st32 ma t (of_nat p))"
    and fr: "has_frame ma p (frame_words c)" and ea: "eq_out (zone p 52) (mem s) ma"
    using save_context_frame [OF sp p ok(1)] by blast
  have eb: "eq_out (- bodies ?T) (mem s) ma" by (rule eq_out_mono [OF ea zone_outside [OF off]])
  have "heap_owns (s\<lparr>mem := ma\<rparr>) rs" by (rule kheap.poke_owns [OF rs eq_out_mono [OF ea pay]])
  then have "owned (s\<lparr>mem := ma\<rparr>) ?T" unfolding owned_def using T by blast
  then have inva: "sched_inv (s\<lparr>mem := ma\<rparr>) rq wq dq"
    by (rule sched_inv_outside [OF inv]) (use eb in auto)
  have Ta: "tasks (s\<lparr>mem := ma\<rparr>) rq wq dq = ?T" by (simp add: tasks_def)
  define m1 where "m1 = st32 ma t (of_nat p)"
  have inv1: "sched_inv (s\<lparr>mem := m1\<rparr>) rq wq dq"
    using inv_set_field [OF inva, of t 0 "of_nat p"] t Ta by (simp add: m1_def)
  have e1: "eq_out (bodies {t}) ma m1"
    unfolding m1_def using eq_out_body [OF eq_out_refl, of t "{t}" 0 ma] ok by simp
  have "bodies {t} \<subseteq> bodies ?T" using t by (auto simp: bodies_def)
  then have "has_frame m1 p (frame_words c)"
    by (intro has_frame_frame [OF fr e1]) (use p off in \<open>auto simp: frame_words_def\<close>)
  then have sus: "suspended m1 t c p" using sp by (simp add: suspended_def m1_def)
  have "ld32 m1 (x + i) = ld32 (mem s) (x + i)" if "x \<in> ?T" "tfield i" "x \<noteq> t \<or> i \<noteq> 0" for x i
    using kept_bodies [OF eb, of x i] task_fld [OF sep t that(1) tfield_offsets(1) that(2), of ma "of_nat p"]
      that sep by (auto simp: m1_def tsep_def)
  moreover have "eq_out (zone p 52 \<union> bodies {t}) (mem s) m1"
    by (rule eq_out_trans [OF eq_out_mono [OF ea] eq_out_mono [OF e1]]) auto
  ultimately show ?thesis using ma inv1 sus by (auto simp: m1_def)
qed

section \<open>Concrete memories\<close>

definition words :: "(addr \<times> u32) list \<Rightarrow> mem" where
  "words ws = foldr (\<lambda>(a, v) m. st32 m a v) ws (\<lambda>a. 0)"

lemma aligned_apart:
  assumes "4 dvd unat a" "4 dvd unat b" "a \<noteq> (b :: addr)"
  shows "apart a 4 b 4"
proof -
  obtain i j where ij: "unat a = 4 * i" "unat b = 4 * j" using assms(1,2) by (auto simp: dvd_def)
  have "i \<noteq> j" using ij assms(3) by (auto simp: word_unat_eq_iff)
  moreover have "4 * i < two32" "4 * j < two32" using ij by (metis unat_lt_two32)+
  ultimately show ?thesis using ij by (cases i j rule: linorder_cases) (auto simp: apart_def)
qed

lemma ld32_words:
  assumes "\<forall>x \<in> set ws. 4 dvd unat (fst x)" and "4 dvd unat a"
  shows "ld32 (words ws) a = (case map_of ws a of None \<Rightarrow> 0 | Some v \<Rightarrow> v)"
  using assms(1)
proof (induction ws)
  case (Cons w ws)
  obtain b v where w: "w = (b, v)" by (cases w)
  then show ?case
    using Cons aligned_apart [of b a] assms(2) by (auto simp: words_def ld32_st32_apart)
qed (simp add: words_def)

definition demo_c2 :: cpu where
  "demo_c2 = \<lparr>eax = 1, ebx = 2, ecx = 3, edx = 4, esi = 5, edi = 6, ebp = 7, esp = 0x5034,
     eflags = 0x202, sel_ss = 16, sel_ds = 16, sel_es = 16, sel_fs = 16, sel_gs = 16\<rparr>"

definition demo_cpu :: cpu where
  "demo_cpu = demo_c2\<lparr>esp := 0x1234, eax := 42\<rparr>"

definition demo_words :: "(addr \<times> u32) list" where
  "demo_words = [(0x1004, 0x1080), (0x1008, 112),
     (0x1080, 0x1000), (0x1084, 0x1100), (0x1088, 112),
     (0x1100, 0x1080), (0x1104, 0x1180), (0x1108, 112),
     (0x1180, 0x1100), (0x1184, 0x3190), (0x1188, 0x2000),
     (0x3190, 0x1180), (0x3194, 0x51A0), (0x3198, 0x2000),
     (0x51A0, 0x3190), (0x51A4, 0x52B0), (0x51A8, 0x100),
     (0x52B0, 0x51A0), (0x52B8, 0x3000), (0x52BC, 1),
     (0x1010, 0x52AF), (0x1014, 0x51B0),
     (0x1094, 0x1190), (0x10B4, 2), (0x10F8, 0x1110), (0x10FC, 0x1110),
     (0x1110, 0x5000), (0x1114, 0x31A0), (0x1134, 1), (0x1178, 0x1090), (0x117C, 0x1090),
     (0x5000, 16), (0x5004, 16), (0x5008, 16), (0x500C, 16), (0x5010, 16), (0x5014, 7),
     (0x5018, 6), (0x501C, 5), (0x5020, 4), (0x5024, 3), (0x5028, 2), (0x502C, 1), (0x5030, 0x202)]"

text \<open>Two threads at 0x1090 (running) and 0x1110 (ready, suspended) and the idle task at 0x1010.\<close>

definition demo_sched :: sched where
  "demo_sched = \<lparr>mem = words demo_words, ports = [], ATTRIBUTE = 7, xpos = 0, ypos = 0,
     video = VIDEO, store_global_head = 0x1000, mem_store_base = 0x1000, mem_store_end = 0x82C0,
     mem_store_size = 0x72C0, global_sched_lock = 1, thread_count = 2, tid_counter = 2, jiffies = 0,
     idle_task = 0x1010, current_task = 0x1090, runq_head = 0x1090, waitq_head = 0, doneq_head = 0,
     do_idle_ptr = 0x100000, finalize_ptr = 0x100010\<rparr>"

lemma demo_aligned: "\<forall>x \<in> set demo_words. 4 dvd unat (fst x)"
  by (simp add: demo_words_def)

definition demo_val :: "addr \<Rightarrow> u32" where
  "demo_val a = (case map_of demo_words a of None \<Rightarrow> 0 | Some v \<Rightarrow> v)"

lemma demo_ld: "4 dvd unat a \<Longrightarrow> ld32 (words demo_words) a = demo_val a"
  using ld32_words [OF demo_aligned] by (simp add: demo_val_def)

definition demo_blocks :: "blk list" where
  "demo_blocks = [(112, False), (112, False), (112, False), (0x2000, False), (0x2000, False), (0x100, False), (0x3000, True)]"

lemma demo_sched_rep: "heap_rep demo_sched demo_blocks"
  by (simp add: heap_rep_def demo_blocks_def demo_sched_def demo_ld)
    (simp add: demo_val_def demo_words_def)

definition demo_regions :: "(nat \<times> nat) list" where
  "demo_regions = [(0x1010, 112), (0x1090, 112), (0x1110, 112), (0x1190, 0x2000), (0x31A0, 0x2000), (0x51B0, 0x100)]"

lemma demo_regions_owned: "heap_owns demo_sched demo_regions"
  unfolding heap_owns_def
  by (rule exI [of _ demo_blocks]) (simp add: demo_sched_rep, simp add: demo_blocks_def demo_regions_def demo_sched_def)

lemma demo_sched_inv: "sched_inv demo_sched [0x1090, 0x1110] [] []"
proof -
  have "owned demo_sched (tasks demo_sched [0x1090, 0x1110] [] [])"
    unfolding owned_def
    by (rule exI [of _ demo_regions], simp add: demo_regions_owned)
      (simp add: tasks_def demo_sched_def demo_regions_def)
  moreover have "queues (mem demo_sched) demo_sched [0x1090, 0x1110] [] []"
    by (simp add: queues_def ring_def cyc_def link_def demo_sched_def demo_ld)
      (simp add: demo_val_def demo_words_def)
  moreover have "statuses (mem demo_sched) [0x1090, 0x1110] [] []"
    by (simp add: statuses_def demo_sched_def demo_ld) (simp add: demo_val_def demo_words_def)
  ultimately show ?thesis by (simp add: sched_inv_def) (simp add: demo_sched_def)
qed

lemma demo_suspended: "suspended (mem demo_sched) 0x1110 demo_c2 0x5000"
  unfolding suspended_def has_frame_def
  by (simp add: frame_words_def demo_c2_def demo_sched_def demo_ld All_less_Suc)
    (simp add: demo_val_def demo_words_def)

section \<open>Properties\<close>

lemma demo_tasks: "tasks demo_sched [0x1090, 0x1110] [] [] = {0x1010, 0x1090, 0x1110}"
  by (auto simp: tasks_def demo_sched_def)

lemma demo_status: "ld32 (mem demo_sched) 0x10B4 = 2" "ld32 (mem demo_sched) 0x1134 = 1"
  "ld32 (mem demo_sched) 0x1094 = 0x1190" "ld32 (mem demo_sched) 0x10A8 = 0"
  by (simp_all add: demo_sched_def demo_ld) (simp_all add: demo_val_def demo_words_def)

text \<open>
  C32: when the current task has just left the run queue (it sleeps or has exited), the search
  follows the links of the queue it is in now, finds no task that can run there and chooses the
  idle task, even when the run queue has ready threads.
\<close>

theorem select_after_block_idles:
  assumes "sched_inv s rq wq dq" and "current_task s \<in> set wq \<union> set dq"
  shows "\<exists>c. sched_select_next_rr s = Some (idle_task s, s\<lparr>current_task := c\<rparr>)"
  using select_stuck [OF assms] .

lemma demo_sleep:
  "\<exists>s1. sleep_on n demo_sched = Some s1 \<and> sched_inv s1 [0x1110] [0x1090] [] \<and>
     ld32 (mem s1) (0x1090 + 28) = n \<and> ld32 (mem s1) (0x1090 + 24) = 0 \<and> current_task s1 = 0x1090"
  using sleep_on_inv [of demo_sched "[]" "0x1090" "[0x1110]" "[]" "[]" n] demo_sched_inv
  by (auto simp: demo_sched_def)

theorem select_after_block_idles_witness:
  "\<exists>s1 c. sleep_on 5 demo_sched = Some s1 \<and>
     sched_select_next_rr s1 = Some (idle_task s1, s1\<lparr>current_task := c\<rparr>)"
proof -
  obtain s1 where s: "sleep_on 5 demo_sched = Some s1" "sched_inv s1 [0x1110] [0x1090] []"
    "current_task s1 = 0x1090" using demo_sleep by blast
  with select_after_block_idles [OF s(2)] show ?thesis by auto
qed

text \<open>
  C33: \<open>__sleep_on\<close> takes the current thread out of the run queue and appends it to the wait queue,
  blocked and with its timers set; the lock is released again, every other task keeps its
  fields, and the invariant of the scheduler holds.
\<close>

theorem sleep_on_blocks:
  assumes "sched_inv s (ys @ t # zs) wq dq" and "current_task s = t" and "global_sched_lock s = 1"
  shows "\<exists>s'. sleep_on n s = Some s' \<and> sched_inv s' (ys @ zs) (wq @ [t]) dq \<and>
     global_sched_lock s' = 1 \<and> current_task s' = t \<and>
     ld32 (mem s') (t + 28) = n \<and> ld32 (mem s') (t + 24) = 0 \<and>
     (\<forall>x \<in> tasks s ys (zs @ wq) dq. \<forall>i. tfield i \<longrightarrow> unat i < 104 \<longrightarrow>
        ld32 (mem s') (x + i) = ld32 (mem s) (x + i))"
  using sleep_on_inv [OF assms] by blast

theorem sleep_on_blocks_witness:
  "\<exists>s1. sleep_on 5 demo_sched = Some s1 \<and> sched_inv s1 [0x1110] [0x1090] [] \<and>
     ld32 (mem s1) (0x1090 + 28) = 5"
  using sleep_on_blocks [of demo_sched "[]" "0x1090" "[0x1110]" "[]" "[]" 5] demo_sched_inv
  by (auto simp: demo_sched_def)

text \<open>
  C34: \<open>service_waitq\<close> returns, and what it wakes depends on the head of the queue: when the head's
  time is up, only the head is woken, since the new head then equals the cursor and the loop
  stops; when it is not, every other task whose time is up is moved to the run queue, in order.
\<close>

theorem service_waitq_wakes:
  assumes "sched_inv s rq (w # ws) dq"
  shows "\<exists>s'. service_waitq s = Some s' \<and>
     (if expired (mem s) w then sched_inv s' (rq @ [w]) ws dq
      else sched_inv s' (rq @ filter (expired (mem s)) ws)
        (w # filter (\<lambda>x. \<not> expired (mem s) x) ws) dq)"
proof (cases "expired (mem s) w")
  case True
  obtain m' rh' wh' where r: "service_loop (mem s) (runq_head s) (waitq_head s) (waitq_head s) = Some (m', rh', wh')"
    "minv m' rh' wh' (doneq_head s) (tasks s rq (w # ws) dq) (rq @ [w]) ws dq"
    "eq_out (bodies (tasks s rq (w # ws) dq)) (mem s) m'"
    using service_head_expired [OF sched_inv_minv [OF assms] True] by blast
  with minv_sched_inv [OF assms r(2,3)] True show ?thesis by (auto simp: service_waitq_def)
next
  case False
  obtain m' rh' wh' where r: "service_loop (mem s) (runq_head s) (waitq_head s) (waitq_head s) = Some (m', rh', wh')"
    "minv m' rh' wh' (doneq_head s) (tasks s rq (w # ws) dq) (rq @ filter (expired (mem s)) ws)
       (w # filter (\<lambda>x. \<not> expired (mem s) x) ws) dq"
    "eq_out (bodies (tasks s rq (w # ws) dq)) (mem s) m'"
    using service_head_waits [OF sched_inv_minv [OF assms] False] by blast
  have "set (rq @ filter (expired (mem s)) ws) \<union> set (w # filter (\<lambda>x. \<not> expired (mem s) x) ws) =
      set rq \<union> set (w # ws)" by auto
  with minv_sched_inv [OF assms r(2,3)] r(1) False show ?thesis by (auto simp: service_waitq_def)
qed

theorem service_waitq_wakes_witness:
  "\<exists>s1 s2. sleep_on 0 demo_sched = Some s1 \<and> service_waitq s1 = Some s2 \<and>
     sched_inv s2 [0x1110, 0x1090] [] []"
proof -
  obtain s1 where s: "sleep_on 0 demo_sched = Some s1" "sched_inv s1 [0x1110] [0x1090] []"
    "ld32 (mem s1) (0x1090 + 28) = 0" "ld32 (mem s1) (0x1090 + 24) = 0"
    using demo_sleep by blast
  then have "expired (mem s1) 0x1090" by (simp add: expired_def)
  with service_waitq_wakes [OF s(2)] s(1) show ?thesis by auto
qed

text \<open>
  C9: with room for the structure and the stack in the heap and fewer than 16 threads,
  \<open>sched_register_thread\<close> returns the next thread id and appends a new task to the run queue: its
  structure is a fresh region apart from every task, it is marked new with its function and
  argument, its descriptor table is empty, its stack pointer is the last byte of a live region
  of at least 8 kB, and the fields of the other tasks do not change.
\<close>

theorem register_thread_ready:
  assumes "sched_inv s rq wq dq" and "heap_rep s bs" and "length rq + length wq < 16"
    and "\<exists>b \<in> set bs. fits (112 + 16 + 0x2000) b"
  shows "\<exists>s' ts stk k. sched_register_thread f a s = Some (tid_counter s, s') \<and>
     sched_inv s' (rq @ [ts]) wq dq \<and> ts \<notin> tasks s rq wq dq \<and>
     tid_counter s' = tid_counter s + 1 \<and>
     current_task s' = (if current_task s = 0 then ts else current_task s) \<and>
     ld32 (mem s') (ts + 20) = tid_counter s \<and> ld32 (mem s') (ts + 36) = NEW \<and>
     ld32 (mem s') (ts + 8) = f \<and> ld32 (mem s') (ts + 12) = a \<and>
     ld32 (mem s') ts = stk + 0x1FFF \<and>
     (\<exists>rs. heap_owns s' rs \<and> (unat stk, k) \<in> set rs) \<and> 0x2000 \<le> k \<and>
     (\<forall>j < 64. mem s' (ts + 40 + of_nat j) = 0) \<and>
     kept (mem s) (mem s') (tasks s rq wq dq)"
  using register_inv [OF assms] by blast

theorem register_thread_ready_witness:
  "\<exists>s' ts. sched_register_thread 0x100100 9 demo_sched = Some (2, s') \<and>
     sched_inv s' [0x1090, 0x1110, ts] [] [] \<and> ld32 (mem s') (ts + 12) = 9"
proof -
  have "\<exists>b \<in> set demo_blocks. fits (112 + 16 + 0x2000) b" by (simp add: demo_blocks_def fits_def)
  from register_thread_ready [OF demo_sched_inv demo_sched_rep _ this, of "0x100100" 9]
  show ?thesis by (auto simp: demo_sched_def)
qed

text \<open>A seventeenth thread is refused with -1 and changes nothing.\<close>

lemma register_thread_limit:
  assumes "sched_inv s rq wq dq" and "length rq + length wq = 16"
  shows "sched_register_thread f a s = Some (- 1, s)"
proof -
  have "unat (thread_count s) = 16" using assms by (simp add: sched_inv_def)
  then have "thread_count s = MAX_THREADCOUNT"
    by (simp add: MAX_THREADCOUNT_def word_unat_eq_iff)
  then show ?thesis by (simp add: sched_register_thread_def)
qed

text \<open>
  C35: a thread whose function returns is retired. The return goes through the frame that \<open>start_new_thread\<close> left, which
  stores the result at the initial stack pointer (four bytes from the last byte of the stack on) and enters
  \<open>sched_finalize_thread\<close> with it; the heap is assumed to be in order until then, so that no earlier return has damaged
  it. The thread's stack goes back to the heap, the thread leaves the run queue, is appended to the queue of finished tasks with its
  result, and no longer counts; the lock is released. But for the four bytes of the store the scheduler and
  the heap are in order afterwards; and they are in order altogether when the stack's block has three spare bytes or when no
  block in use follows it, since a free block that follows is merged with it.
\<close>

theorem finalize_retires:
  assumes "sched_inv s (ys @ t # zs) wq dq" and "current_task s = t" and "global_sched_lock s = 1"
    and "heap_owns s (rs1 @ (stk, k) # rs2)" and "stk = unat (ld32 (mem s) (t + 4))" and "0x2000 \<le> k" and "stk + 0x2003 \<le> two32"
    and "\<forall>x \<in> tasks s (ys @ t # zs) wq dq. \<exists>j. 112 \<le> j \<and> (unat x, j) \<in> set (rs1 @ rs2)"
    and "esp c = of_nat (stk + 0x1FFF - 12)" and "ld32 (mem s) (of_nat (stk + 0x1FFF - 8)) = ex"
    and "ld32 (mem s) (of_nat (stk + 0x1FFF - 4)) = 0"
  shows "\<exists>c' d s' m. thread_return c (mem s) = (ex, c', d) \<and> ld32 d (esp c' + 4) = eax c \<and>
     retire_thread (eax c) (s\<lparr>mem := d\<rparr>) = Some s' \<and>
     global_sched_lock s' = 1 \<and> current_task s' = t \<and> ld32 (mem s') (t + 16) = eax c \<and>
     eq_out (zone (stk + 0x1FFF) 4) m (mem s') \<and> sched_inv (s'\<lparr>mem := m\<rparr>) (ys @ zs) wq (dq @ [t]) \<and>
     heap_owns (s'\<lparr>mem := m\<rparr>) (rs1 @ rs2) \<and>
     (0x2003 \<le> k \<or> stk + k + 16 \<notin> fst ` set rs2 \<longrightarrow>
        sched_inv s' (ys @ zs) wq (dq @ [t]) \<and> heap_owns s' (rs1 @ rs2))"
proof -
  let ?sp = "stk + 0x1FFF" and ?A = "zone (stk + 0x1FFF) 4"
  obtain c' where c: "thread_return c (mem s) = (ex, c', st32 (mem s) (of_nat ?sp) (eax c))" "esp c' = of_nat (?sp - 4)"
     "ld32 (st32 (mem s) (of_nat ?sp) (eax c)) (of_nat (?sp - 4 + 4)) = eax c"
    using thread_return_finalizer [OF assms(9) _ _ assms(10,11)] assms(7) by auto
  let ?d = "st32 (mem s) (of_nat ?sp) (eax c)"
  have A: "?A \<subseteq> zone stk (k + 3)" "0x2003 \<le> k \<Longrightarrow> ?A \<subseteq> zone stk k" using assms(6) by (auto simp: zone_def)
  have "eq_out ?A (mem s) ?d" by (rule eq_out_zone) (use assms(7) in auto)
  from retire_twin [OF assms(1-5,8) this A(1), of "eax c"] obtain s' d' where r:
    "retire_thread (eax c) (s\<lparr>mem := ?d\<rparr>) = Some (s'\<lparr>mem := d'\<rparr>)" "eq_out ?A (mem s') d'"
    "sched_inv s' (ys @ zs) wq (dq @ [t])" "heap_owns s' (rs1 @ rs2)" "global_sched_lock s' = 1" "current_task s' = t"
    "ld32 d' (t + 16) = eax c"
    "?A \<subseteq> zone stk k \<or> stk + k + 16 \<notin> fst ` set rs2 \<longrightarrow>
        sched_inv (s'\<lparr>mem := d'\<rparr>) (ys @ zs) wq (dq @ [t]) \<and> heap_owns (s'\<lparr>mem := d'\<rparr>) (rs1 @ rs2)" by blast
  have "esp c' + 4 = of_nat (?sp - 4 + 4)" using c(2) by simp
  then show ?thesis using c(1,3) r A(2)
    by (intro exI [of _ c'] exI [of _ ?d] exI [of _ "s'\<lparr>mem := d'\<rparr>"] exI [of _ "mem s'"]) auto
qed

lemma demo_return_frame: "ld32 (mem demo_sched) 0x3187 = 0" "ld32 (mem demo_sched) 0x318B = 0"
  by (simp_all add: demo_sched_def demo_words_def words_def ld32_st32_apart apart_def)

theorem finalize_retires_witness:
  "\<exists>c' d s' m. thread_return (demo_cpu\<lparr>esp := 0x3183, eax := 42\<rparr>) (mem demo_sched) = (0, c', d) \<and>
     retire_thread 42 (demo_sched\<lparr>mem := d\<rparr>) = Some s' \<and> eq_out (zone 0x318F 4) m (mem s') \<and>
     sched_inv (s'\<lparr>mem := m\<rparr>) [0x1110] [] [0x1090]"
proof -
  have o: "heap_owns demo_sched ([(0x1010, 112), (0x1090, 112), (0x1110, 112)] @ (0x1190, 0x2000) # [(0x31A0, 0x2000), (0x51B0, 0x100)])"
    using demo_regions_owned by (simp add: demo_regions_def)
  have "tasks demo_sched ([] @ 0x1090 # [0x1110]) [] [] = {0x1010, 0x1090, 0x1110}" using demo_tasks by simp
  with finalize_retires [of demo_sched "[]" "0x1090" "[0x1110]" "[]" "[]", OF _ _ _ o, of "demo_cpu\<lparr>esp := 0x3183, eax := 42\<rparr>" 0]
    demo_sched_inv demo_status demo_return_frame
  show ?thesis by (auto simp: demo_sched_def)
qed

text \<open>
  C36: a thread function that returns reaches \<open>sched_finalize_thread\<close> with its result as the
  argument. The result is stored at the initial stack pointer, the last byte of the stack, so its
  upper three bytes overwrite the first three bytes after the stack: the \<open>prev\<close> field of the next
  block's header, when the stack block has the requested size.
\<close>

theorem thread_return_overruns:
  assumes "sp = stk + 0x2000 - 1" and "32 \<le> stk" and "stk + 0x2004 \<le> two32"
    and "esp c = of_nat (sp - 12)" and "ld32 m (of_nat (sp - 8)) = ex" and "ld32 m (of_nat (sp - 4)) = 0"
  shows "\<exists>c' m'. thread_return c m = (ex, c', m') \<and> ld32 m' (esp c' + 4) = eax c \<and>
     ld32 m' (of_nat (stk + 0x2000)) = (ld32 m (of_nat (stk + 0x2000)) AND 0xFF000000) OR drop_bit 8 (eax c)"
proof -
  have sp: "12 \<le> sp" "sp + 4 \<le> two32" using assms(1-3) by auto
  obtain c' where tr: "thread_return c m = (ex, c', st32 m (of_nat sp) (eax c))" "esp c' = of_nat (sp - 4)"
    using thread_return_finalizer [OF assms(4) sp assms(5,6)] by blast
  have e4: "esp c' + 4 = of_nat sp" using tr(2) sp by (simp add: of_nat_diff)
  have e1: "(of_nat (stk + 0x2000) :: addr) = of_nat sp + 1"
    using assms(1) by (simp add: of_nat_diff)
  have "unat (of_nat sp :: addr) = sp" using assms(1,3) by simp
  then have "unat (of_nat sp :: addr) + 5 \<le> two32" using assms(1,3) by simp
  from overlap_store [OF this, of m "eax c"] tr e4 show ?thesis
    unfolding e1 by (intro exI [of _ c'] exI [of _ "st32 m (of_nat sp) (eax c)"]) simp
qed

theorem thread_return_overruns_witness:
  "\<exists>c' m'. thread_return (demo_cpu\<lparr>esp := 0x2FF3, eax := 0x1234\<rparr>) (st32 (\<lambda>a. 0) 0x3000 0x00000FF0) =
     (0, c', m') \<and> ld32 m' 0x3000 = 0x12"
proof -
  let ?m = "st32 (\<lambda>a. 0) 0x3000 0x00000FF0"
  have "ld32 ?m (of_nat (0x2FFF - 8)) = 0" "ld32 ?m (of_nat (0x2FFF - 4)) = 0"
    by (simp_all add: ld32_st32_apart apart_def)
  with thread_return_overruns [of "0x2FFF" "0x1000" "demo_cpu\<lparr>esp := 0x2FF3, eax := 0x1234\<rparr>" ?m 0]
  show ?thesis by auto
qed

section \<open>The timer interrupt\<close>

lemma eq_out_bump:
  assumes "set xs \<subseteq> T" and "tsep T"
  shows "eq_out (bodies T) m (fold bump xs m)"
  using assms(1)
proof (induction xs arbitrary: m)
  case (Cons x xs)
  have "eq_out (bodies T) m (bump x m)"
    unfolding bump_def by (rule eq_out_body [OF eq_out_refl]) (use Cons.prems assms(2) in \<open>auto simp: tsep_def\<close>)
  with Cons show ?case by (auto intro: eq_out_trans)
qed simp

lemma sched_inv_bump:
  assumes "sched_inv s rq wq dq" and "set xs \<subseteq> tasks s rq wq dq"
  shows "sched_inv (s\<lparr>mem := fold bump xs (mem s)\<rparr>) rq wq dq"
  using assms
proof (induction xs arbitrary: s)
  case (Cons x xs)
  have "sched_inv (s\<lparr>mem := bump x (mem s)\<rparr>) rq wq dq"
    unfolding bump_def by (rule inv_set_field) (use Cons.prems in auto)
  from Cons.IH [OF this] Cons.prems(2) show ?case by (simp add: tasks_def)
qed simp

text \<open>The tick and what follows it, whatever queue the current task is in.\<close>

lemma do_timer_run:
  assumes inv: "sched_inv s rq wq dq" and c: "current_task s \<in> tasks s rq wq dq"
  defines "m' \<equiv> fold bump (wq @ [current_task s]) (mem s)"
  shows "do_timer ret c s =
     (if ld32 m' (current_task s + 24) < 5 then Some (None, s\<lparr>mem := m', jiffies := jiffies s + 1\<rparr>)
      else do {
        (sw, s') \<leftarrow> schedule ret c (s\<lparr>mem := st32 m' (current_task s + 24) 0, jiffies := jiffies s + 1\<rparr>);
        Some (Some sw, s') })"
    "sched_inv (s\<lparr>mem := m', jiffies := jiffies s + 1\<rparr>) rq wq dq"
proof -
  let ?T = "tasks s rq wq dq" and ?c = "current_task s"
  have sep: "tsep ?T" and r: "ring (mem s) (waitq_head s) wq"
    using inv by (auto simp: sched_inv_def queues_def intro: owned_tsep)
  note sub = tasks_sub [where s = s and rq = rq and wq = wq and dq = dq]
  have c0: "?c \<noteq> 0" using tsep_nonnull [OF sep c] .
  define m1 where "m1 = fold bump wq (mem s)"
  have m': "m' = st32 m1 (?c + 24) (ld32 m1 (?c + 24) + 1)" by (simp add: m'_def m1_def bump_def)
  have tick: "(if waitq_head s \<noteq> 0 then tick_loop (mem s) (waitq_head s) (waitq_head s) else Some (mem s)) = Some m1"
  proof (cases "wq = []")
    case True
    then show ?thesis using r by (simp add: ring_def m1_def)
  next
    case False
    then have h: "waitq_head s = hd wq" using r by (simp add: ring_def)
    have "hd wq \<in> ?T" using hd_in_set [OF False] sub(2) by blast
    then have "hd wq \<noteq> 0" by (rule tsep_nonnull [OF sep])
    with h tick_loop_fold [of "mem s" "waitq_head s" "[]" wq ?T] r False sep sub(2) show ?thesis
      by (simp add: m1_def)
  qed
  have comm: "s\<lparr>jiffies := j, mem := mm\<rparr> = s\<lparr>mem := mm, jiffies := j\<rparr>" for j mm by (cases s) simp
  show "do_timer ret c s =
     (if ld32 m' (?c + 24) < 5 then Some (None, s\<lparr>mem := m', jiffies := jiffies s + 1\<rparr>)
      else do {
        (sw, s') \<leftarrow> schedule ret c (s\<lparr>mem := st32 m' (?c + 24) 0, jiffies := jiffies s + 1\<rparr>);
        Some (Some sw, s') })"
    using tick c0 m' by (simp add: do_timer_def SCHED_TIMESLICE_TICKS_def PIT_INT_FRQ_def Let_def comm)
  have "sched_inv (s\<lparr>mem := m'\<rparr>) rq wq dq" unfolding m'_def by (rule sched_inv_bump [OF inv]) (use c sub(2) in auto)
  then show "sched_inv (s\<lparr>mem := m', jiffies := jiffies s + 1\<rparr>) rq wq dq"
    using owned_cong [of "s\<lparr>mem := m', jiffies := jiffies s + 1\<rparr>" "s\<lparr>mem := m'\<rparr>"]
    by (simp add: sched_inv_def tasks_def queues_def)
qed

text \<open>How often a tick counts a task: once as a waiting task, once as the current one.\<close>

definition ticks :: "addr \<Rightarrow> addr list \<Rightarrow> addr \<Rightarrow> u32" where
  "ticks cur wq x = (if x \<in> set wq then 1 else 0) + (if x = cur then 1 else 0)"

text \<open>
  C37: a timer tick counts one more tick for every waiting task and one more for the current task, whichever queue the
  current task is in or if it is the idle task, and changes no other field of any task. So a thread that has gone to sleep and
  still has the processor until its time slice ends is in the wait queue and current, and gains two ticks of sleep at each
  interrupt. While the current task's counter is below five after that, the interrupt returns to it; otherwise the counter is
  reset and \<open>schedule\<close> is entered.
\<close>

theorem do_timer_ticks:
  assumes "sched_inv s rq wq dq" and "current_task s \<in> tasks s rq wq dq"
  shows "\<exists>m'. (\<forall>x \<in> tasks s rq wq dq. \<forall>i. tfield i \<longrightarrow>
       ld32 m' (x + i) = ld32 (mem s) (x + i) + (if i = 24 then ticks (current_task s) wq x else 0)) \<and>
     sched_inv (s\<lparr>mem := m', jiffies := jiffies s + 1\<rparr>) rq wq dq \<and>
     do_timer ret c s =
       (if ld32 (mem s) (current_task s + 24) + ticks (current_task s) wq (current_task s) < 5
        then Some (None, s\<lparr>mem := m', jiffies := jiffies s + 1\<rparr>)
        else do {
          (sw, s') \<leftarrow> schedule ret c (s\<lparr>mem := st32 m' (current_task s + 24) 0, jiffies := jiffies s + 1\<rparr>);
          Some (Some sw, s') })"
proof -
  let ?T = "tasks s rq wq dq" and ?c = "current_task s" and ?m = "fold bump (wq @ [current_task s]) (mem s)"
  have sep: "tsep ?T" and d: "distinct wq" "set wq \<subseteq> ?T"
    using assms(1) by (auto simp: sched_inv_def tasks_def intro: owned_tsep)
  have f: "ld32 ?m (x + i) = ld32 (mem s) (x + i) + (if i = 24 then ticks ?c wq x else 0)" if "x \<in> ?T" "tfield i" for x i
    using bump_fold [OF sep d(2,1), where m = "mem s"] that assms(2) task_fld [OF sep assms(2) that(1), of 24 i]
    by (auto simp: bump_def ticks_def)
  with f [OF assms(2), of 24] show ?thesis
    using do_timer_run(1) [OF assms, of ret c] do_timer_run(2) [OF assms]
    by (intro exI [of _ ?m]) (simp del: fold_append)
qed

theorem do_timer_ticks_witness:
  "\<exists>s1 s'. sleep_on 7 demo_sched = Some s1 \<and> do_timer 0 demo_cpu s1 = Some (None, s') \<and> ld32 (mem s') (0x1090 + 24) = 2"
proof -
  obtain s1 where s: "sleep_on 7 demo_sched = Some s1" "sched_inv s1 [0x1110] [0x1090] []"
    "ld32 (mem s1) (0x1090 + 24) = 0" "current_task s1 = 0x1090" using demo_sleep by blast
  have c: "0x1090 \<in> tasks s1 [0x1110] [0x1090] []" by (simp add: tasks_def)
  have t: "ticks 0x1090 [0x1090] 0x1090 = 2" by (simp add: ticks_def)
  obtain m' where m: "\<forall>x \<in> tasks s1 [0x1110] [0x1090] []. \<forall>i. tfield i \<longrightarrow>
      ld32 m' (x + i) = ld32 (mem s1) (x + i) + (if i = 24 then ticks 0x1090 [0x1090] x else 0)"
    "do_timer 0 demo_cpu s1 = Some (None, s1\<lparr>mem := m', jiffies := jiffies s1 + 1\<rparr>)"
    using do_timer_ticks [OF s(2), of 0 demo_cpu] s(3) c t unfolding s(4) by auto
  have "ld32 m' (0x1090 + 24) = 2" using m(1) [rule_format, OF c, of 24] s(3) t by simp
  with m(2) s(1) show ?thesis by auto
qed

end
