(* ===== verification/Sched_System.thy ===== *)
theory Sched_System
  imports Sched_Proofs
begin

text \<open>
  The scheduler and its threads as one system. \<open>sys_inv\<close> extends the scheduler's invariant by the stacks and the saved
  contexts: every thread has a stack of its own in the heap, and unless it runs it is either new or suspended with a
  frame on that stack. \<open>kstep\<close> is one step of the system (a thread computes, creates a thread, sleeps, yields, or a timer
  interrupt arrives); the invariant holds in every state such steps lead to, so the scheduler never follows a
  wrong pointer and a thread that is resumed finds its registers as it left them.

  \<open>schedule\<close> is cut into its four phases for this; each phase has one lemma.
\<close>

section \<open>Stacks and contexts\<close>

definition stack_lo :: "mem \<Rightarrow> addr \<Rightarrow> nat" where
  "stack_lo m t = unat (ld32 m (t + 4))"

definition stack_size :: "'a sched_scheme \<Rightarrow> addr \<Rightarrow> nat" where
  "stack_size s t = (if t = idle_task s then 0x100 else 0x2000)"

abbreviation stack_zone :: "'a sched_scheme \<Rightarrow> addr \<Rightarrow> addr set" where
  "stack_zone s t \<equiv> zone (stack_lo (mem s) t) (stack_size s t)"

abbreviation threads :: "'a sched_scheme \<Rightarrow> addr list \<Rightarrow> addr list \<Rightarrow> addr set" where
  "threads s rq wq \<equiv> tasks s rq wq []"

definition holds :: "'a sched_scheme \<Rightarrow> addr set \<Rightarrow> addr set \<Rightarrow> (nat \<times> nat) list \<Rightarrow> bool" where
  "holds s T A rs \<longleftrightarrow> heap_owns s rs \<and> (\<forall>t \<in> T. \<exists>k. 112 \<le> k \<and> (unat t, k) \<in> set rs) \<and>
     (\<forall>t \<in> A. \<exists>k. stack_size s t \<le> k \<and> (stack_lo (mem s) t, k) \<in> set rs) \<and>
     inj_on (stack_lo (mem s)) A \<and> (\<forall>t \<in> A. \<forall>x \<in> T. stack_lo (mem s) t \<noteq> unat x)"

definition ctx_ok :: "'a sched_scheme \<Rightarrow> (addr \<Rightarrow> cpu) \<Rightarrow> addr \<Rightarrow> bool" where
  "ctx_ok s K t \<longleftrightarrow>
     (if ld32 (mem s) (t + 36) = NEW then ld32 (mem s) t = of_nat (stack_lo (mem s) t + stack_size s t - 1)
      else \<exists>p. suspended (mem s) t (K t) p \<and> stack_lo (mem s) t \<le> p \<and> p + 52 \<le> stack_lo (mem s) t + stack_size s t)"

definition sys_at :: "'a sched_scheme \<Rightarrow> addr list \<Rightarrow> addr list \<Rightarrow> addr list \<Rightarrow> (addr \<Rightarrow> cpu) \<Rightarrow> addr set \<Rightarrow> bool" where
  "sys_at s rq wq dq K X \<longleftrightarrow> sched_inv s rq wq dq \<and> (\<exists>rs. holds s (tasks s rq wq dq) (threads s rq wq) rs) \<and>
     X \<subseteq> threads s rq wq \<and> (\<forall>t \<in> X. ctx_ok s K t)"

definition at_rest :: "'a sched_scheme \<Rightarrow> addr list \<Rightarrow> addr list \<Rightarrow> addr set" where
  "at_rest s rq wq = {t \<in> threads s rq wq. t \<noteq> current_task s \<or> ld32 (mem s) (t + 36) = NEW}"

definition sys_inv :: "'a sched_scheme \<Rightarrow> addr list \<Rightarrow> addr list \<Rightarrow> addr list \<Rightarrow> (addr \<Rightarrow> cpu) \<Rightarrow> bool" where
  "sys_inv s rq wq dq K \<longleftrightarrow> sys_at s rq wq dq K (at_rest s rq wq) \<and>
     global_sched_lock s = 1 \<and> current_task s \<in> threads s rq wq"

definition on_stack :: "'a sched_scheme \<Rightarrow> cpu \<Rightarrow> bool" where
  "on_stack s c \<longleftrightarrow> (ld32 (mem s) (current_task s + 36) \<noteq> NEW \<longrightarrow>
     (\<exists>p. esp c = of_nat (p + 52) \<and> stack_lo (mem s) (current_task s) \<le> p \<and>
        p + 52 \<le> stack_lo (mem s) (current_task s) + stack_size s (current_task s)))"

text \<open>A stack is a live region: it meets no task structure and no other stack.\<close>

lemma holds_stack:
  assumes "holds s T A rs" and "t \<in> A"
  shows "stack_lo (mem s) t + stack_size s t < two32" "0 < stack_lo (mem s) t" "stack_zone s t \<subseteq> payload rs"
    "stack_zone s t \<inter> bodies T = {}" "x \<in> A \<Longrightarrow> x \<noteq> t \<Longrightarrow> stack_zone s x \<inter> stack_zone s t = {}"
proof -
  obtain k where k: "stack_size s t \<le> k" "(stack_lo (mem s) t, k) \<in> set rs" using assms by (auto simp: holds_def)
  have own: "heap_owns s rs" using assms(1) by (simp add: holds_def)
  note range = kheap.owns_range [OF own] and ap = regions_apart [OF kheap.owns_apart [OF own]]
  show "stack_lo (mem s) t + stack_size s t < two32" "0 < stack_lo (mem s) t" using range [OF k(2)] k(1) by simp_all
  show "stack_zone s t \<subseteq> payload rs" by (rule zone_payload [OF k(2,1)])
  have "stack_lo (mem s) t + stack_size s t \<le> unat y \<or> unat y + 112 \<le> stack_lo (mem s) t" if y: "y \<in> T" for y
  proof -
    obtain l where "112 \<le> l" "(unat y, l) \<in> set rs" using assms(1) y by (auto simp: holds_def)
    moreover have "stack_lo (mem s) t \<noteq> unat y" using assms y by (simp add: holds_def)
    ultimately show ?thesis using ap [OF k(2)] k(1) by fastforce
  qed
  then show "stack_zone s t \<inter> bodies T = {}" by (fastforce simp: zone_def bodies_def)
  assume x: "x \<in> A" "x \<noteq> t"
  obtain l where l: "stack_size s x \<le> l" "(stack_lo (mem s) x, l) \<in> set rs" using assms x by (auto simp: holds_def)
  have "stack_lo (mem s) x \<noteq> stack_lo (mem s) t"
    using assms x by (auto simp: holds_def inj_on_def)
  with ap [OF l(2) k(2)] l(1) k(1) show "stack_zone s x \<inter> stack_zone s t = {}" by (fastforce simp: zone_def)
qed

text \<open>Writing to a live region keeps the regions, as long as the tasks keep their stacks.\<close>

lemma holds_write:
  assumes h: "holds s T A rs" and e: "eq_out P (mem s) (mem s')" and P: "P \<subseteq> payload rs"
    and st: "\<forall>t \<in> A. ld32 (mem s') (t + 4) = ld32 (mem s) (t + 4)"
    and same: "store_global_head s' = store_global_head s" "idle_task s' = idle_task s"
  shows "holds s' T A rs"
proof -
  have "heap_owns (s\<lparr>mem := mem s'\<rparr>) rs"
    using h by (intro kheap.poke_owns eq_out_mono [OF e P]) (simp add: holds_def)
  then have "heap_owns s' rs" using heap_owns_cong [of s' "s\<lparr>mem := mem s'\<rparr>"] same by simp
  moreover have lo: "stack_lo (mem s') t = stack_lo (mem s) t" if "t \<in> A" for t using st that by (simp add: stack_lo_def)
  moreover have "stack_size s' t = stack_size s t" for t using same by (simp add: stack_size_def)
  moreover have "inj_on (stack_lo (mem s')) A = inj_on (stack_lo (mem s)) A" using lo by (rule inj_on_cong)
  ultimately show ?thesis using h by (simp add: holds_def)
qed

lemma ctx_frame:
  assumes c: "ctx_ok s K t" and e: "eq_out P (mem s) (mem s')" and P: "stack_zone s t \<inter> P = {}"
    and bound: "stack_lo (mem s) t + stack_size s t \<le> two32"
    and f: "ld32 (mem s') t = ld32 (mem s) t" "ld32 (mem s') (t + 4) = ld32 (mem s) (t + 4)"
      "ld32 (mem s') (t + 36) = NEW \<longleftrightarrow> ld32 (mem s) (t + 36) = NEW"
    and same: "idle_task s' = idle_task s" "K' t = K t"
  shows "ctx_ok s' K' t"
proof -
  have lo: "stack_lo (mem s') t = stack_lo (mem s) t" "stack_size s' t = stack_size s t"
    using f same by (simp_all add: stack_lo_def stack_size_def)
  have "suspended (mem s') t (K t) p"
    if p: "suspended (mem s) t (K t) p" "stack_lo (mem s) t \<le> p" "p + 52 \<le> stack_lo (mem s) t + stack_size s t" for p
  proof (rule suspended_frame [OF p(1) e _ _ f(1)])
    show "p + 52 \<le> two32" using p(3) bound by simp
    have "zone p 52 \<subseteq> stack_zone s t" using p by (auto simp: zone_def)
    then show "zone p 52 \<inter> P = {}" using P by blast
  qed
  then show ?thesis using c f lo same unfolding ctx_ok_def by (auto split: if_splits)
qed


lemma threads_tasks: "threads s rq wq \<subseteq> tasks s rq wq dq"
  by (auto simp: tasks_def)

lemma sys_at_tsep: "sys_at s rq wq dq K X \<Longrightarrow> tsep (tasks s rq wq dq)"
  by (auto simp: sys_at_def sched_inv_def intro: owned_tsep)

lemma sys_at_cong:
  assumes "mem s' = mem s" "store_global_head s' = store_global_head s" "runq_head s' = runq_head s" "waitq_head s' = waitq_head s"
    "doneq_head s' = doneq_head s" "idle_task s' = idle_task s" "thread_count s' = thread_count s"
  shows "sys_at s' rq wq dq K X = sys_at s rq wq dq K X"
proof -
  have T: "tasks s' = tasks s" by (intro ext) (simp add: tasks_def assms)
  have "sched_inv s' rq wq dq = sched_inv s rq wq dq"
    unfolding sched_inv_def T owned_cong [OF assms(1,2)] by (simp add: queues_def assms)
  moreover have "stack_size s' = stack_size s" by (intro ext) (simp add: stack_size_def assms)
  then have "holds s' = holds s" "ctx_ok s' K = ctx_ok s K"
    by (intro ext, simp add: holds_def ctx_ok_def heap_owns_cong [OF assms(1,2)] assms)+
  ultimately show ?thesis unfolding sys_at_def T by simp
qed

text \<open>
  Writes to the task structures and to the stacks of some threads keep the contexts of the others, as long as
  these keep their saved stack pointers.
\<close>

lemma sys_at_write:
  assumes sys: "sys_at s rq wq dq K X" and inv: "sched_inv s' rq' wq' dq" and perm: "set rq' \<union> set wq' = set rq \<union> set wq"
    and e: "eq_out (bodies (tasks s rq wq dq) \<union> \<Union> (stack_zone s ` Y)) (mem s) (mem s')"
    and Y: "Y \<subseteq> threads s rq wq" and X: "Z \<subseteq> X" "Z \<inter> Y = {}"
    and f: "\<forall>t \<in> threads s rq wq. ld32 (mem s') (t + 4) = ld32 (mem s) (t + 4)"
      "\<forall>t \<in> Z. ld32 (mem s') t = ld32 (mem s) t \<and> (ld32 (mem s') (t + 36) = NEW \<longleftrightarrow> ld32 (mem s) (t + 36) = NEW) \<and> K' t = K t"
    and same: "store_global_head s' = store_global_head s" "idle_task s' = idle_task s"
  shows "sys_at s' rq' wq' dq K' Z"
proof -
  let ?T = "tasks s rq wq dq" and ?A = "threads s rq wq"
  let ?P = "bodies ?T \<union> \<Union> (stack_zone s ` Y)"
  have T: "tasks s' rq' wq' dq = ?T" "threads s' rq' wq' = ?A" using perm same by (auto simp: tasks_def)
  obtain rs where h: "holds s ?T ?A rs" and XA: "X \<subseteq> ?A" and c: "\<forall>t \<in> X. ctx_ok s K t" using sys by (auto simp: sys_at_def)
  have "bodies ?T \<subseteq> payload rs" by (rule bodies_payload) (use h in \<open>simp add: holds_def\<close>)
  then have "?P \<subseteq> payload rs" using holds_stack(3) [OF h] Y by blast
  then have "holds s' ?T ?A rs" by (rule holds_write [OF h e _ f(1) same])
  moreover have "ctx_ok s' K' t" if t: "t \<in> Z" for t
  proof (rule ctx_frame [OF _ e])
    have tA: "t \<in> ?A" "t \<notin> Y" using t X XA by auto
    show "ctx_ok s K t" using c t X by blast
    show "stack_zone s t \<inter> ?P = {}" using holds_stack(4) [OF h tA(1)] holds_stack(5) [OF h tA(1)] Y tA(2) by blast
    show "stack_lo (mem s) t + stack_size s t \<le> two32" using holds_stack(1) [OF h tA(1)] by simp
  qed (use f t X XA same in auto)
  ultimately show ?thesis using inv X(1) XA T by (auto simp: sys_at_def)
qed

text \<open>Threads stay threads, with their stacks, and one that has started stays so.\<close>

definition grows :: "'a sched_scheme \<Rightarrow> addr list \<Rightarrow> addr list \<Rightarrow> 'a sched_scheme \<Rightarrow> addr list \<Rightarrow> addr list \<Rightarrow> bool" where
  "grows s rq wq s' rq' wq' \<longleftrightarrow> idle_task s' = idle_task s \<and> (\<forall>x \<in> threads s rq wq. x \<in> threads s' rq' wq' \<and>
     ld32 (mem s') (x + 4) = ld32 (mem s) (x + 4) \<and> (ld32 (mem s) (x + 36) \<noteq> NEW \<longrightarrow> ld32 (mem s') (x + 36) \<noteq> NEW))"

section \<open>The phases of schedule\<close>

definition save_current :: "cpu \<Rightarrow> 'a sched_scheme \<Rightarrow> (cpu \<times> 'a sched_scheme) option" where
  "save_current c s = do {
     st \<leftarrow> rd32 (mem s) (current_task s) t_status;
     (c1, m1) \<leftarrow> (if st \<noteq> NEW then save_context c (mem s) (current_task s) else Some (c, mem s));
     st1 \<leftarrow> rd32 m1 (current_task s) t_status;
     m2 \<leftarrow> (if st1 = RUNNING then wr32 m1 (current_task s) t_status READY else Some m1);
     Some (c1, s\<lparr>mem := m2\<rparr>) }"

text \<open>
  Which sleepers a pass over the wait queue wakes, and which stay: only the head when its time is up, otherwise every
  other task whose time is up.
\<close>

definition wakes :: "mem \<Rightarrow> addr list \<Rightarrow> addr list" where
  "wakes m wq = (case wq of [] \<Rightarrow> [] | w # ws \<Rightarrow> if expired m w then [w] else filter (expired m) ws)"

definition stays :: "mem \<Rightarrow> addr list \<Rightarrow> addr list" where
  "stays m wq = (case wq of [] \<Rightarrow> [] | w # ws \<Rightarrow> if expired m w then ws else w # filter (\<lambda>x. \<not> expired m x) ws)"

lemma wakes_Nil [simp]: "wakes m [] = []" "stays m [] = []"
  by (simp_all add: wakes_def stays_def)

lemma set_wakes_stays: "set (wakes m wq) \<union> set (stays m wq) = set wq"
  by (cases wq) (auto simp: wakes_def stays_def)

lemma wakes_subset: "set (wakes m wq) \<subseteq> set wq" "set (stays m wq) \<subseteq> set wq"
  using set_wakes_stays [of m wq] by blast+

lemma wakes_cong:
  assumes "\<forall>x \<in> set wq. expired m x = expired m' x"
  shows "wakes m wq = wakes m' wq" "stays m wq = stays m' wq"
  using assms by (cases wq; auto simp: wakes_def stays_def intro: filter_cong)+

definition wake_sleepers :: "'a sched_scheme \<Rightarrow> 'a sched_scheme option" where
  "wake_sleepers s = (if waitq_head s \<noteq> 0 then service_waitq s else Some s)"

definition choose_next :: "'a sched_scheme \<Rightarrow> 'a sched_scheme option" where
  "choose_next s = do {
     st \<leftarrow> rd32 (mem s) (current_task s) t_status;
     if st \<noteq> NEW then do { (t, s') \<leftarrow> sched_select_next_rr s; Some (s'\<lparr>current_task := t\<rparr>) } else Some s }"

definition enter_current :: "addr \<Rightarrow> cpu \<Rightarrow> 'a sched_scheme \<Rightarrow> (switch \<times> 'a sched_scheme) option" where
  "enter_current ret_addr c s = do {
     st \<leftarrow> rd32 (mem s) (current_task s) t_status;
     m5 \<leftarrow> wr32 (mem s) (current_task s) t_status RUNNING;
     if st = NEW then do {
       (f, c2, m6) \<leftarrow> start_new_thread c m5 (current_task s) (finalize_ptr s) ret_addr;
       Some (Start f c2, s\<lparr>mem := m6\<rparr>) }
     else do {
       c2 \<leftarrow> dispatch c m5 (current_task s);
       Some (Resume c2, s\<lparr>mem := m5\<rparr>) } }"

lemma schedule_phases:
  "schedule ret c s = do {
     (c1, s2) \<leftarrow> save_current c s;
     s3 \<leftarrow> wake_sleepers s2;
     s4 \<leftarrow> choose_next s3;
     enter_current ret c1 s4 }"
  by (simp add: schedule_def save_current_def wake_sleepers_def choose_next_def enter_current_def bind_assoc case_prod_unfold
      cong: if_cong)


lemma holds_stack_ok:
  assumes h: "holds s (tasks s rq wq dq) (threads s rq wq) rs" and t: "t \<in> threads s rq wq"
    and p: "stack_lo (mem s) t \<le> p" "p + 52 \<le> stack_lo (mem s) t + stack_size s t"
  shows "stack_ok s (tasks s rq wq dq) p" "zone p 52 \<subseteq> stack_zone s t"
proof -
  show z: "zone p 52 \<subseteq> stack_zone s t" using p by (auto simp: zone_def)
  note st = holds_stack(1,3,4) [OF h t]
  have "zone p 52 \<subseteq> payload rs" "zone p 52 \<inter> bodies (tasks s rq wq dq) = {}" using z st(2,3) by blast+
  then show "stack_ok s (tasks s rq wq dq) p" using st(1) p h unfolding stack_ok_def holds_def by auto
qed

text \<open>Every thread keeps its function, its argument and its stack, and whether it is new.\<close>

definition same_threads :: "mem \<Rightarrow> mem \<Rightarrow> addr set \<Rightarrow> bool" where
  "same_threads m m' A \<longleftrightarrow> (\<forall>t \<in> A. ld32 m' (t + 4) = ld32 m (t + 4) \<and> ld32 m' (t + 8) = ld32 m (t + 8) \<and>
     ld32 m' (t + 12) = ld32 m (t + 12) \<and> (ld32 m' (t + 36) = NEW \<longleftrightarrow> ld32 m (t + 36) = NEW))"

text \<open>A thread that gives up the processor: its registers are on its stack, and it is ready if it was running.\<close>

lemma save_running:
  fixes s :: "'a sched_scheme"
  assumes inv: "sched_inv s rq wq dq" and tA: "current_task s \<in> threads s rq wq"
    and old: "ld32 (mem s) (current_task s + 36) \<noteq> NEW" and p: "esp c = of_nat (p + 52)" "stack_ok s (tasks s rq wq dq) p"
  shows "\<exists>c1 m2. save_current c s = Some (c1, s\<lparr>mem := m2\<rparr>) \<and> sched_inv (s\<lparr>mem := m2\<rparr>) rq wq dq \<and>
     suspended m2 (current_task s) c p \<and> eq_out (bodies (tasks s rq wq dq) \<union> zone p 52) (mem s) m2 \<and>
     (\<forall>x \<in> tasks s rq wq dq. x \<noteq> current_task s \<longrightarrow> ld32 m2 x = ld32 (mem s) x) \<and> same_threads (mem s) m2 (tasks s rq wq dq) \<and>
     (\<forall>x \<in> tasks s rq wq dq. expired m2 x = expired (mem s) x)"
proof -
  let ?T = "tasks s rq wq dq" and ?t = "current_task s"
  have sep: "tsep ?T" using inv by (auto simp: sched_inv_def intro: owned_tsep)
  have tT: "?t \<in> ?T" using tA threads_tasks by blast
  have t0: "?t \<noteq> 0" "task_ok ?t" using sep tT by (auto simp: tsep_def task_ok_def)
  obtain m1 where m1: "save_context c (mem s) ?t = Some (c\<lparr>esp := of_nat p\<rparr>, m1)" "sched_inv (s\<lparr>mem := m1\<rparr>) rq wq dq"
    "suspended m1 ?t c p" "eq_out (zone p 52 \<union> bodies {?t}) (mem s) m1"
    and k1: "\<forall>x \<in> ?T. \<forall>i. tfield i \<longrightarrow> (x \<noteq> ?t \<or> i \<noteq> 0) \<longrightarrow> ld32 m1 (x + i) = ld32 (mem s) (x + i)"
    using save_context_inv [OF inv tT p(2,1)] by blast
  define m2 where "m2 = (if ld32 (mem s) (?t + 36) = RUNNING then st32 m1 (?t + 36) READY else m1)"
  have run: "save_current c s = Some (c\<lparr>esp := of_nat p\<rparr>, s\<lparr>mem := m2\<rparr>)"
    using t0 old m1(1) k1 tT by (simp add: save_current_def m2_def)
  have "?t = idle_task s \<or> ?t \<in> set rq" if "ld32 (mem s) (?t + 36) = RUNNING"
    using that inv tA by (auto simp: sched_inv_def statuses_def tasks_def)
  then have inv2: "sched_inv (s\<lparr>mem := m2\<rparr>) rq wq dq"
    using inv_set_field [OF m1(2), of ?t 36 READY] m1(2) tT by (auto simp: m2_def tasks_def)
  have f2: "ld32 m2 (x + i) = (if x = ?t \<and> i = 36 \<and> ld32 (mem s) (?t + 36) = RUNNING then READY else ld32 m1 (x + i))"
    if "x \<in> ?T" "tfield i" for x i
    using that tT by (auto simp: m2_def task_fld [OF sep])
  have e12: "eq_out (bodies ?T) m1 m2"
    unfolding m2_def using eq_out_body [OF eq_out_refl tT] t0 by auto
  have "suspended m2 ?t c p"
    by (rule suspended_frame [OF m1(3) e12]) (use p(2) f2 [OF tT, of 0] in \<open>auto simp: stack_ok_def\<close>)
  moreover have "bodies {?t} \<subseteq> bodies ?T" using tT by (auto simp: bodies_def)
  then have "eq_out (bodies ?T \<union> zone p 52) (mem s) m2"
    by (intro eq_out_trans [OF eq_out_mono [OF m1(4)] eq_out_mono [OF e12]]) auto
  moreover have "same_threads (mem s) m2 ?T" unfolding same_threads_def using f2 k1 old by auto
  moreover have "\<forall>x \<in> ?T. expired m2 x = expired (mem s) x" unfolding expired_def using f2 k1 by auto
  moreover have "ld32 m2 x = ld32 (mem s) x" if "x \<in> ?T" "x \<noteq> ?t" for x
    using f2 [of x 0] k1 [rule_format, of x 0] that by simp
  ultimately show ?thesis using run inv2 by blast
qed

lemma save_phase:
  assumes sys: "sys_inv s rq wq dq K" and cpu: "on_stack s c"
  shows "\<exists>c1 m2. save_current c s = Some (c1, s\<lparr>mem := m2\<rparr>) \<and>
     sys_at (s\<lparr>mem := m2\<rparr>) rq wq dq (K(current_task s := c)) (threads s rq wq) \<and> same_threads (mem s) m2 (tasks s rq wq dq) \<and>
     (\<forall>x \<in> tasks s rq wq dq. expired m2 x = expired (mem s) x)"
proof -
  let ?T = "tasks s rq wq dq" and ?A = "threads s rq wq" and ?t = "current_task s" and ?K = "K(current_task s := c)"
  have at: "sys_at s rq wq dq K (at_rest s rq wq)" and tA: "?t \<in> ?A" using sys by (simp_all add: sys_inv_def)
  have inv: "sched_inv s rq wq dq" using at by (simp add: sys_at_def)
  have tT: "?t \<in> ?T" using tA threads_tasks by blast
  have t0: "?t \<noteq> 0" using tsep_nonnull [OF sys_at_tsep [OF at] tT] .
  show ?thesis
  proof (cases "ld32 (mem s) (?t + 36) = NEW")
    case True
    then have "save_current c s = Some (c, s\<lparr>mem := mem s\<rparr>)" using t0 by (simp add: save_current_def)
    moreover have "at_rest s rq wq = ?A" using True by (auto simp: at_rest_def)
    then have "sys_at s rq wq dq ?K ?A" using at True by (auto simp: sys_at_def ctx_ok_def)
    ultimately show ?thesis by (intro exI [of _ c] exI [of _ "mem s"]) (simp add: same_threads_def)
  next
    case False
    obtain p where p: "esp c = of_nat (p + 52)" "stack_lo (mem s) ?t \<le> p" "p + 52 \<le> stack_lo (mem s) ?t + stack_size s ?t"
      using cpu False by (auto simp: on_stack_def)
    obtain rs where h: "holds s ?T ?A rs" using at by (auto simp: sys_at_def)
    note stk = holds_stack_ok [OF h tA p(2,3)]
    obtain c1 m2 where run: "save_current c s = Some (c1, s\<lparr>mem := m2\<rparr>)" and inv2: "sched_inv (s\<lparr>mem := m2\<rparr>) rq wq dq"
      and sus: "suspended m2 ?t c p" and e: "eq_out (bodies ?T \<union> zone p 52) (mem s) m2"
      and sp: "\<forall>x \<in> ?T. x \<noteq> ?t \<longrightarrow> ld32 m2 x = ld32 (mem s) x" and same: "same_threads (mem s) m2 ?T"
      and ex: "\<forall>x \<in> ?T. expired m2 x = expired (mem s) x"
      using save_running [OF inv tA False p(1) stk(1)] by blast
    have rest: "sys_at (s\<lparr>mem := m2\<rparr>) rq wq dq ?K (?A - {?t})"
    proof (rule sys_at_write [OF at inv2 refl])
      show "eq_out (bodies ?T \<union> \<Union> (stack_zone s ` {?t})) (mem s) (mem (s\<lparr>mem := m2\<rparr>))"
        using eq_out_mono [OF e] stk(2) by auto
      show "\<forall>x \<in> ?A - {?t}. ld32 (mem (s\<lparr>mem := m2\<rparr>)) x = ld32 (mem s) x \<and>
          (ld32 (mem (s\<lparr>mem := m2\<rparr>)) (x + 36) = NEW \<longleftrightarrow> ld32 (mem s) (x + 36) = NEW) \<and> ?K x = K x"
        using same sp threads_tasks [of s rq wq dq] unfolding same_threads_def by auto
    qed (use tA same threads_tasks [of s rq wq dq] in \<open>auto simp: at_rest_def same_threads_def\<close>)
    have "stack_lo m2 ?t = stack_lo (mem s) ?t" "ld32 m2 (?t + 36) \<noteq> NEW"
      using same tT False by (auto simp: same_threads_def stack_lo_def)
    then have "ctx_ok (s\<lparr>mem := m2\<rparr>) ?K ?t" using p sus by (auto simp: ctx_ok_def stack_size_def)
    then have "sys_at (s\<lparr>mem := m2\<rparr>) rq wq dq ?K ?A" using rest tA by (auto simp: sys_at_def tasks_def)
    then show ?thesis using run same ex by blast
  qed
qed


lemma service_waitq_inv:
  assumes inv: "sched_inv s rq wq dq" and "wq \<noteq> []"
  shows "\<exists>m rh wh. service_waitq s = Some (s\<lparr>mem := m, runq_head := rh, waitq_head := wh\<rparr>) \<and>
     sched_inv (s\<lparr>mem := m, runq_head := rh, waitq_head := wh\<rparr>) (rq @ wakes (mem s) wq) (stays (mem s) wq) dq \<and>
     eq_out (bodies (tasks s rq wq dq)) (mem s) m \<and> woken (mem s) m (tasks s rq wq dq)"
proof -
  let ?T = "tasks s rq wq dq" and ?wh = "waitq_head s" and ?rq = "rq @ wakes (mem s) wq" and ?wq = "stays (mem s) wq"
  obtain w ws where wq: "wq = w # ws" using assms(2) by (cases wq) auto
  have "\<exists>m rh wh. service_loop (mem s) (runq_head s) ?wh ?wh = Some (m, rh, wh) \<and>
     minv m rh wh (doneq_head s) ?T ?rq ?wq dq \<and> eq_out (bodies ?T) (mem s) m \<and> woken (mem s) m ?T"
  proof (cases "expired (mem s) w")
    case True
    then show ?thesis
      using service_head_expired [OF sched_inv_minv [OF inv [unfolded wq]] True] wq by (auto simp: wakes_def stays_def)
  next
    case False
    then show ?thesis
      using service_head_waits [OF sched_inv_minv [OF inv [unfolded wq]] False] wq by (auto simp: wakes_def stays_def)
  qed
  then obtain m rh wh where r: "service_loop (mem s) (runq_head s) ?wh ?wh = Some (m, rh, wh)"
    "minv m rh wh (doneq_head s) ?T ?rq ?wq dq" "eq_out (bodies ?T) (mem s) m" "woken (mem s) m ?T" by blast
  have "sched_inv (s\<lparr>mem := m, runq_head := rh, waitq_head := wh\<rparr>) ?rq ?wq dq"
    by (rule minv_sched_inv [OF inv r(2,3)]) (use set_wakes_stays [of "mem s" wq] in auto)
  then show ?thesis using r by (intro exI [of _ m] exI [of _ rh] exI [of _ wh]) (simp add: service_waitq_def)
qed

lemma woken_same: "woken m m' T \<Longrightarrow> same_threads m m' T \<and> (\<forall>t \<in> T. ld32 m' t = ld32 m t)"
  unfolding woken_def same_threads_def by (force dest: spec [of _ 0])

lemma wake_phase:
  assumes at: "sys_at s rq wq dq K (threads s rq wq)"
  shows "\<exists>s'. wake_sleepers s = Some s' \<and> sys_at s' (rq @ wakes (mem s) wq) (stays (mem s) wq) dq K (threads s rq wq) \<and>
     same_threads (mem s) (mem s') (tasks s rq wq dq) \<and>
     s' = s\<lparr>mem := mem s', runq_head := runq_head s', waitq_head := waitq_head s'\<rparr>"
proof (cases "wq = []")
  case True
  then have "waitq_head s = 0" using at by (simp add: sys_at_def sched_inv_def queues_def ring_def)
  then show ?thesis using at True
    by (intro exI [of _ s]) (simp add: wake_sleepers_def same_threads_def)
next
  case False
  have inv: "sched_inv s rq wq dq" using at by (simp add: sys_at_def)
  then have "waitq_head s = hd wq" "hd wq \<in> tasks s rq wq dq"
    using False hd_in_set [OF False] by (auto simp: sched_inv_def queues_def ring_def tasks_def)
  then have h: "waitq_head s \<noteq> 0" using tsep_nonnull [OF sys_at_tsep [OF at]] by simp
  obtain m rh wh where r: "service_waitq s = Some (s\<lparr>mem := m, runq_head := rh, waitq_head := wh\<rparr>)"
     "sched_inv (s\<lparr>mem := m, runq_head := rh, waitq_head := wh\<rparr>) (rq @ wakes (mem s) wq) (stays (mem s) wq) dq"
     "eq_out (bodies (tasks s rq wq dq)) (mem s) m" "woken (mem s) m (tasks s rq wq dq)"
    using service_waitq_inv [OF inv False] by blast
  note sm = woken_same [OF r(4)]
  have "sys_at (s\<lparr>mem := m, runq_head := rh, waitq_head := wh\<rparr>) (rq @ wakes (mem s) wq) (stays (mem s) wq) dq K (threads s rq wq)"
    by (rule sys_at_write [OF at r(2), of "{}"])
      (use r(3) sm threads_tasks [of s rq wq dq] set_wakes_stays [of "mem s" wq] in \<open>auto simp: same_threads_def\<close>)
  then show ?thesis using r sm h
    by (intro exI [of _ "s\<lparr>mem := m, runq_head := rh, waitq_head := wh\<rparr>"]) (simp add: wake_sleepers_def)
qed

text \<open>Round robin: the thread after the current one, the first after the last; the idle task counts as the first.\<close>

definition follows :: "addr list \<Rightarrow> addr \<Rightarrow> addr \<Rightarrow> addr \<Rightarrow> bool" where
  "follows q idle cur n \<longleftrightarrow> (\<forall>i < length q. cur = q ! i \<or> cur = idle \<and> i = 0 \<longrightarrow> n = q ! (Suc i mod length q))"

lemma choose_phase:
  assumes inv: "sched_inv s rq wq dq" and cur: "current_task s \<in> threads s rq wq"
  shows "\<exists>n. choose_next s = Some (s\<lparr>current_task := n\<rparr>) \<and> n \<in> insert (idle_task s) (set rq) \<and>
     (ld32 (mem s) (current_task s + 36) \<noteq> NEW \<longrightarrow> follows rq (idle_task s) (current_task s) n)"
proof -
  have c0: "current_task s \<noteq> 0"
    using tsep_nonnull [OF owned_tsep] inv cur threads_tasks [of s rq wq dq] by (auto simp: sched_inv_def)
  have st: "statuses (mem s) rq wq dq" and q: "ring (mem s) (runq_head s) rq" using inv by (simp_all add: sched_inv_def queues_def)
  show ?thesis
  proof (cases "ld32 (mem s) (current_task s + 36) = NEW")
    case True
    then have "current_task s \<in> insert (idle_task s) (set rq)" using st cur by (auto simp: statuses_def tasks_def)
    then show ?thesis using True c0 by (intro exI [of _ "current_task s"]) (simp add: choose_next_def)
  next
    case False
    have "\<exists>n c. sched_select_next_rr s = Some (n, s\<lparr>current_task := c\<rparr>) \<and> n \<in> insert (idle_task s) (set rq)"
    proof -
      consider i where "i < length rq" "current_task s = rq ! i \<or> current_task s = idle_task s \<and> i = 0"
        | "current_task s \<in> set wq" | "current_task s = idle_task s" "rq = []"
        using cur by (fastforce simp: tasks_def in_set_conv_nth)
      then show ?thesis
      proof cases
        case 1
        then have "Suc i mod length rq < length rq" by (intro mod_less_divisor) auto
        then have "rq ! (Suc i mod length rq) \<in> set rq" by simp
        then show ?thesis using select_running [OF inv 1] by blast
      next
        case 2
        then show ?thesis using select_stuck [OF inv] by blast
      next
        case 3
        then show ?thesis using q by (auto simp: sched_select_next_rr_def ring_def)
      qed
    qed
    then obtain n c where n: "sched_select_next_rr s = Some (n, s\<lparr>current_task := c\<rparr>)" "n \<in> insert (idle_task s) (set rq)" by blast
    have "follows rq (idle_task s) (current_task s) n"
      unfolding follows_def using select_running [OF inv] n(1) by (metis Pair_inject option.inject)
    then show ?thesis using n False c0 by (intro exI [of _ n]) (auto simp: choose_next_def)
  qed
qed

text \<open>
  \<open>entered m sw m' n K\<close>: the switch \<open>sw\<close> continues thread \<open>n\<close>. A new thread starts at its function, with its argument on
  the stack and interrupts enabled; an old one gets the registers \<open>K n\<close>.
\<close>

definition entered :: "mem \<Rightarrow> switch \<Rightarrow> mem \<Rightarrow> addr \<Rightarrow> (addr \<Rightarrow> cpu) \<Rightarrow> bool" where
  "entered m sw m' n K \<longleftrightarrow> ld32 m' (n + 36) = RUNNING \<and>
     (if ld32 m (n + 36) = NEW
      then \<exists>c. sw = Start (ld32 m (n + 8)) c \<and> bit (eflags c) 9 \<and> ld32 m' (esp c + 4) = ld32 m (n + 12)
      else sw = Resume (K n))"

text \<open>The task chosen, once it is marked as running: nothing else has changed for the scheduler.\<close>

lemma mark_running:
  fixes s :: "'a sched_scheme"
  assumes at: "sys_at s rq wq dq K (threads s rq wq)" and cur: "current_task s \<in> insert (idle_task s) (set rq)"
  defines "m \<equiv> st32 (mem s) (current_task s + 36) RUNNING"
  shows "current_task s \<in> threads s rq wq" "current_task s \<in> tasks s rq wq dq" "current_task s \<noteq> 0" "tsep (tasks s rq wq dq)"
    and "x \<in> tasks s rq wq dq \<Longrightarrow> tfield i \<Longrightarrow>
      ld32 m (x + i) = (if x = current_task s \<and> i = 36 then RUNNING else ld32 (mem s) (x + i))"
    and "sched_inv (s\<lparr>mem := m\<rparr>) rq wq dq" and "eq_out (bodies (tasks s rq wq dq)) (mem s) m"
proof -
  let ?T = "tasks s rq wq dq" and ?n = "current_task s"
  show "?n \<in> threads s rq wq" using cur by (auto simp: tasks_def)
  then show nT: "?n \<in> ?T" using threads_tasks by blast
  show sep: "tsep ?T" by (rule sys_at_tsep [OF at])
  then have n: "?n \<noteq> 0" "task_ok ?n" using nT by (auto simp: tsep_def task_ok_def)
  then show "?n \<noteq> 0" by simp
  show "ld32 m (x + i) = (if x = ?n \<and> i = 36 then RUNNING else ld32 (mem s) (x + i))" if "x \<in> ?T" "tfield i"
    unfolding m_def using that nT by (auto simp: task_fld [OF sep])
  have "sched_inv s rq wq dq" using at by (simp add: sys_at_def)
  then show "sched_inv (s\<lparr>mem := m\<rparr>) rq wq dq" unfolding m_def by (rule inv_set_field [OF _ nT]) (use cur in auto)
  show "eq_out (bodies ?T) (mem s) m" unfolding m_def by (rule eq_out_body [OF eq_out_refl nT n(2)]) simp
qed

lemma enter_suspended:
  assumes at: "sys_at s rq wq dq K (threads s rq wq)" and cur: "current_task s \<in> insert (idle_task s) (set rq)"
    and old: "ld32 (mem s) (current_task s + 36) \<noteq> NEW"
  shows "\<exists>sw s'. enter_current ret c s = Some (sw, s') \<and> sys_at s' rq wq dq K (threads s rq wq - {current_task s}) \<and>
     entered (mem s) sw (mem s') (current_task s) K \<and> s' = s\<lparr>mem := mem s'\<rparr> \<and>
     (\<forall>x \<in> threads s rq wq. ld32 (mem s') (x + 4) = ld32 (mem s) (x + 4) \<and>
        (x \<noteq> current_task s \<longrightarrow> ld32 (mem s') (x + 36) = ld32 (mem s) (x + 36)))"
proof -
  let ?T = "tasks s rq wq dq" and ?A = "threads s rq wq" and ?n = "current_task s"
  let ?m = "st32 (mem s) (?n + 36) RUNNING"
  note mark = mark_running [OF at cur]
  obtain rs where h: "holds s ?T ?A rs" and ctx: "\<forall>t \<in> ?A. ctx_ok s K t" using at by (auto simp: sys_at_def)
  obtain p where p: "suspended (mem s) ?n (K ?n) p" "stack_lo (mem s) ?n \<le> p" "p + 52 \<le> stack_lo (mem s) ?n + stack_size s ?n"
    using bspec [OF ctx mark(1)] old by (auto simp: ctx_ok_def)
  note stk = holds_stack_ok [OF h mark(1) p(2,3)]
  have "suspended ?m ?n (K ?n) p"
    by (rule suspended_frame [OF p(1) mark(7)]) (use stk(1) mark(5) [OF mark(2), of 0] in \<open>auto simp: stack_ok_def\<close>)
  then have "dispatch c ?m ?n = Some (K ?n)" using dispatch_frame [OF mark(3)] by (auto simp: suspended_def)
  then have "enter_current ret c s = Some (Resume (K ?n), s\<lparr>mem := ?m\<rparr>)" using mark(3) old by (simp add: enter_current_def)
  moreover have "sys_at (s\<lparr>mem := ?m\<rparr>) rq wq dq K (?A - {?n})"
    by (rule sys_at_write [OF at mark(6) refl, of "{}"])
      (use mark(5,7) mark(5) [of _ 0] threads_tasks [of s rq wq dq] in auto)
  ultimately show ?thesis using old mark(5) [of _ 36] mark(5) [of _ 4] mark(2) threads_tasks [of s rq wq dq]
    by (intro exI [of _ "Resume (K ?n)"] exI [of _ "s\<lparr>mem := ?m\<rparr>"]) (auto simp: entered_def)
qed

lemma enter_new:
  assumes at: "sys_at s rq wq dq K (threads s rq wq)" and cur: "current_task s \<in> insert (idle_task s) (set rq)"
    and new: "ld32 (mem s) (current_task s + 36) = NEW"
  shows "\<exists>sw s'. enter_current ret c s = Some (sw, s') \<and> sys_at s' rq wq dq K (threads s rq wq - {current_task s}) \<and>
     entered (mem s) sw (mem s') (current_task s) K \<and> s' = s\<lparr>mem := mem s'\<rparr> \<and>
     (\<forall>x \<in> threads s rq wq. ld32 (mem s') (x + 4) = ld32 (mem s) (x + 4) \<and>
        (x \<noteq> current_task s \<longrightarrow> ld32 (mem s') (x + 36) = ld32 (mem s) (x + 36)))"
proof -
  let ?T = "tasks s rq wq dq" and ?A = "threads s rq wq" and ?n = "current_task s"
  let ?m = "st32 (mem s) (?n + 36) RUNNING"
  note mark = mark_running [OF at cur] and nA = mark_running(1) [OF at cur] and nT = mark_running(2) [OF at cur] and fld = mark_running(5) [OF at cur]
  obtain rs where h: "holds s ?T ?A rs" and ctx: "\<forall>t \<in> ?A. ctx_ok s K t" using at by (auto simp: sys_at_def)
  define sp where "sp = stack_lo (mem s) ?n + stack_size s ?n - 1"
  have sp: "ld32 ?m ?n = of_nat sp" using bspec [OF ctx nA] new fld [OF nT, of 0] by (simp add: ctx_ok_def sp_def)
  have size: "0x100 \<le> stack_size s ?n" by (simp add: stack_size_def)
  have b: "16 \<le> sp" "sp \<le> two32" using holds_stack(1) [OF h nA] size by (auto simp: sp_def)
  obtain c2 m2 where st: "start_new_thread c ?m ?n (finalize_ptr s) ret = Some (ld32 ?m (?n + 8), c2, m2)" "esp c2 = of_nat (sp - 16)"
    "bit (eflags c2) 9" "has_frame m2 (sp - 16) [ret, ld32 ?m (?n + 12), finalize_ptr s, 0]" "eq_out (zone (sp - 16) 16) ?m m2"
    using start_new_thread_entry [OF mark(3) sp b, of c "finalize_ptr s" ret] by blast
  have z: "zone (sp - 16) 16 \<subseteq> stack_zone s ?n" using b size by (auto simp: zone_def sp_def)
  then have off: "zone (sp - 16) 16 \<subseteq> - bodies ?T" using holds_stack(4) [OF h nA] by blast
  have f2: "ld32 m2 (x + i) = ld32 ?m (x + i)" if "x \<in> ?T" "tfield i" for x i
    by (rule kept_bodies [OF eq_out_mono [OF st(5) off] that(1) _ that(2)]) (use mark(4) that in \<open>simp add: tsep_def\<close>)
  have e2: "eq_out (bodies ?T \<union> \<Union> (stack_zone s ` {?n})) (mem s) m2"
    by (rule eq_out_trans [OF eq_out_mono [OF mark(7)] eq_out_mono [OF st(5)]]) (use z in auto)
  have own: "owned (s\<lparr>mem := m2\<rparr>) ?T"
  proof -
    have "bodies ?T \<subseteq> payload rs" by (rule bodies_payload) (use h in \<open>simp add: holds_def\<close>)
    then have "eq_out (payload rs) (mem s) m2" using holds_stack(3) [OF h nA] by (intro eq_out_mono [OF e2]) auto
    then have "heap_owns (s\<lparr>mem := m2\<rparr>) rs" using h by (intro kheap.poke_owns) (simp_all add: holds_def)
    then show ?thesis using h unfolding owned_def holds_def by blast
  qed
  have inv2: "sched_inv (s\<lparr>mem := m2\<rparr>) rq wq dq"
    by (rule sched_inv_outside [OF mark(6)]) (use own eq_out_mono [OF st(5) off] in \<open>auto simp: tasks_def\<close>)
  have "sys_at (s\<lparr>mem := m2\<rparr>) rq wq dq K (?A - {?n})"
    by (rule sys_at_write [OF at inv2 refl, of "{?n}"])
      (use e2 nA fld f2 fld [of _ 0] f2 [of _ 0] threads_tasks [of s rq wq dq] in auto)
  moreover have "enter_current ret c s = Some (Start (ld32 (mem s) (?n + 8)) c2, s\<lparr>mem := m2\<rparr>)"
    using mark(3) new st(1) fld [OF nT, of 8] by (simp add: enter_current_def)
  moreover have "ld32 m2 (esp c2 + 4) = ld32 (mem s) (?n + 12)"
    using st(4) [unfolded has_frame_def, rule_format, of 1] st(2) fld [OF nT, of 12] by simp
  moreover have "ld32 m2 (?n + 36) = RUNNING" using f2 [OF nT, of 36] fld [OF nT, of 36] by simp
  ultimately show ?thesis using new st(3) f2 [of _ 36] fld [of _ 36] f2 [of _ 4] fld [of _ 4] threads_tasks [of s rq wq dq]
    by (intro exI [of _ "Start (ld32 (mem s) (?n + 8)) c2"] exI [of _ "s\<lparr>mem := m2\<rparr>"]) (auto simp: entered_def)
qed

lemma enter_phase:
  assumes "sys_at s rq wq dq K (threads s rq wq)" and "current_task s \<in> insert (idle_task s) (set rq)"
  shows "\<exists>sw s'. enter_current ret c s = Some (sw, s') \<and> sys_at s' rq wq dq K (threads s rq wq - {current_task s}) \<and>
     entered (mem s) sw (mem s') (current_task s) K \<and> s' = s\<lparr>mem := mem s'\<rparr> \<and>
     (\<forall>x \<in> threads s rq wq. ld32 (mem s') (x + 4) = ld32 (mem s) (x + 4) \<and>
        (x \<noteq> current_task s \<longrightarrow> ld32 (mem s') (x + 36) = ld32 (mem s) (x + 36)))"
  using enter_suspended [OF assms] enter_new [OF assms] by blast


lemma same_threads_trans: "same_threads m m1 A \<Longrightarrow> same_threads m1 m2 A \<Longrightarrow> same_threads m m2 A"
  by (simp add: same_threads_def)

lemma schedule_sys:
  assumes sys: "sys_inv s rq wq dq K" and cpu: "on_stack s c"
  defines "rq' \<equiv> rq @ wakes (mem s) wq" and "wq' \<equiv> stays (mem s) wq"
  shows "\<exists>sw s'. schedule ret c s = Some (sw, s') \<and> sys_inv s' rq' wq' dq (K(current_task s := c)) \<and>
     current_task s' \<in> insert (idle_task s) (set rq') \<and>
     (ld32 (mem s) (current_task s + 36) \<noteq> NEW \<longrightarrow> follows rq' (idle_task s) (current_task s) (current_task s')) \<and>
     entered (mem s) sw (mem s') (current_task s') (K(current_task s := c)) \<and> grows s rq wq s' rq' wq'"
proof -
  let ?K = "K(current_task s := c)" and ?A = "threads s rq wq" and ?T = "tasks s rq wq dq"
  obtain c1 m2 where p1: "save_current c s = Some (c1, s\<lparr>mem := m2\<rparr>)" "sys_at (s\<lparr>mem := m2\<rparr>) rq wq dq ?K ?A"
    "same_threads (mem s) m2 ?T" "\<forall>x \<in> ?T. expired m2 x = expired (mem s) x"
    using save_phase [OF sys cpu] by blast
  let ?s2 = "s\<lparr>mem := m2\<rparr>"
  have T2: "threads ?s2 rq wq = ?A" "tasks ?s2 rq wq dq = ?T" by (simp_all add: tasks_def)
  have w: "wakes m2 wq = wakes (mem s) wq" "stays m2 wq = wq'" unfolding wq'_def
    using wakes_cong [of wq m2 "mem s"] p1(4) by (auto simp: tasks_def)
  have perm: "set rq' \<union> set wq' = set rq \<union> set wq" using set_wakes_stays [of "mem s" wq] by (auto simp: rq'_def wq'_def)
  obtain s3 where p2: "wake_sleepers ?s2 = Some s3" "sys_at s3 rq' wq' dq ?K ?A"
    "same_threads m2 (mem s3) ?T" "s3 = ?s2\<lparr>mem := mem s3, runq_head := runq_head s3, waitq_head := waitq_head s3\<rparr>"
    using wake_phase [OF p1(2) [folded T2(1)]] T2 w by (auto simp: rq'_def)
  have f3: "current_task s3 = current_task s" "idle_task s3 = idle_task s" "global_sched_lock s3 = 1"
    using sys by (subst p2(4), simp add: sys_inv_def)+
  have T3: "threads s3 rq' wq' = ?A" using perm f3 by (auto simp: tasks_def)
  have cur: "current_task s3 \<in> threads s3 rq' wq'" using sys f3 T3 by (simp add: sys_inv_def)
  obtain n where p3: "choose_next s3 = Some (s3\<lparr>current_task := n\<rparr>)" "n \<in> insert (idle_task s3) (set rq')"
    "ld32 (mem s3) (current_task s3 + 36) \<noteq> NEW \<longrightarrow> follows rq' (idle_task s3) (current_task s3) n"
    using choose_phase [OF _ cur, of dq] p2(2) unfolding sys_at_def by blast
  let ?s4 = "s3\<lparr>current_task := n\<rparr>"
  have T4: "threads ?s4 rq' wq' = ?A" "tasks ?s4 rq' wq' dq = tasks s3 rq' wq' dq" using T3 by (simp_all add: tasks_def)
  have "sys_at ?s4 rq' wq' dq ?K ?A" using p2(2) sys_at_cong [of ?s4 s3] by simp
  then obtain sw s' where p4: "enter_current ret c1 ?s4 = Some (sw, s')" "sys_at s' rq' wq' dq ?K (?A - {n})"
    "entered (mem s3) sw (mem s') n ?K" "s' = ?s4\<lparr>mem := mem s'\<rparr>"
    "\<forall>x \<in> ?A. ld32 (mem s') (x + 4) = ld32 (mem s3) (x + 4) \<and> (x \<noteq> n \<longrightarrow> ld32 (mem s') (x + 36) = ld32 (mem s3) (x + 36))"
    using enter_phase [of ?s4 rq' wq' dq ?K ret c1] p3(2) T4 by auto
  have f5: "current_task s' = n" "idle_task s' = idle_task s" "global_sched_lock s' = 1" using f3 by (subst p4(4), simp)+
  have "n \<in> ?T" using p3(2) f3 perm by (auto simp: tasks_def)
  then have "entered (mem s) sw (mem s') n ?K"
    using p4(3) same_threads_trans [OF p1(3) p2(3)] by (auto simp: entered_def same_threads_def split: if_splits)
  moreover have A': "threads s' rq' wq' = ?A" using T3 f3 f5 by (simp add: tasks_def)
  have "grows s rq wq s' rq' wq'"
    unfolding grows_def A'
  proof (intro ballI conjI impI)
    show "idle_task s' = idle_task s" by (rule f5(2))
    fix x assume x: "x \<in> ?A"
    then have sm: "ld32 (mem s3) (x + 36) = NEW \<longleftrightarrow> ld32 (mem s) (x + 36) = NEW" "ld32 (mem s3) (x + 4) = ld32 (mem s) (x + 4)"
      using same_threads_trans [OF p1(3) p2(3)] threads_tasks [of s rq wq dq] by (auto simp: same_threads_def)
    then show "ld32 (mem s') (x + 4) = ld32 (mem s) (x + 4)" using p4(5) x by simp
    assume "ld32 (mem s) (x + 36) \<noteq> NEW"
    with sm(1) show "ld32 (mem s') (x + 36) \<noteq> NEW" using p4(3,5) x by (cases "x = n") (auto simp: entered_def)
  qed
  moreover have "at_rest s' rq' wq' = ?A - {n}" "n \<in> threads s' rq' wq'" using A' p4(3) f5 p3(2) f3 by (auto simp: at_rest_def tasks_def entered_def)
  then have "sys_inv s' rq' wq' dq ?K" using p4(2) f5 by (simp add: sys_inv_def)
  moreover have "schedule ret c s = Some (sw, s')" using p1(1) p2(1) p3(1) p4(1) by (simp add: schedule_phases)
  moreover have "ld32 (mem s3) (current_task s + 36) \<noteq> NEW" if "ld32 (mem s) (current_task s + 36) \<noteq> NEW"
    using that same_threads_trans [OF p1(3) p2(3)] sys threads_tasks [of s rq wq dq] by (auto simp: same_threads_def sys_inv_def)
  ultimately show ?thesis using p3(2,3) unfolding f3 f5(1) [symmetric] by blast
qed


section \<open>Steps of the system\<close>

lemma fold_bump_other:
  assumes "tsep T" and "set xs \<subseteq> T" and "y \<in> T" and "tfield j" and "j \<noteq> 24"
  shows "ld32 (fold bump xs m) (y + j) = ld32 m (y + j)"
  using assms(2)
proof (induction xs arbitrary: m)
  case (Cons x xs)
  then show ?case using assms(3-5) by (simp add: bump_def task_fld [OF assms(1)])
qed simp

text \<open>A change of fields the contexts do not depend on.\<close>

lemma sys_inv_fields:
  assumes sys: "sys_inv s rq wq dq K" and inv: "sched_inv s' rq wq dq" and e: "eq_out (bodies (tasks s rq wq dq)) (mem s) (mem s')"
    and f: "\<forall>x \<in> tasks s rq wq dq. \<forall>i. tfield i \<longrightarrow> i \<noteq> 24 \<longrightarrow> i \<noteq> 28 \<longrightarrow> ld32 (mem s') (x + i) = ld32 (mem s) (x + i)"
    and same: "store_global_head s' = store_global_head s" "idle_task s' = idle_task s" "current_task s' = current_task s"
      "global_sched_lock s' = global_sched_lock s"
  shows "sys_inv s' rq wq dq K"
proof -
  have A: "x \<in> tasks s rq wq dq" if "x \<in> threads s rq wq" for x using that threads_tasks by blast
  have T: "threads s' rq wq = threads s rq wq" using same by (simp add: tasks_def)
  have z: "ld32 (mem s') x = ld32 (mem s) x" if "x \<in> threads s rq wq" for x using f [rule_format, OF A [OF that], of 0] by simp
  have "at_rest s' rq wq = at_rest s rq wq" using T f A same by (auto simp: at_rest_def)
  moreover have "sys_at s' rq wq dq K (at_rest s rq wq)"
    by (rule sys_at_write [of s rq wq dq K "at_rest s rq wq", OF _ inv refl, of "{}"])
      (use sys e A f z same in \<open>auto simp: sys_inv_def at_rest_def\<close>)
  ultimately show ?thesis using sys same T by (simp add: sys_inv_def)
qed


text \<open>The memory at the end of a time slice: the tick is counted, the counter of the current task reset.\<close>

definition slice_end :: "'a sched_scheme \<Rightarrow> addr list \<Rightarrow> mem" where
  "slice_end s wq = st32 (fold bump (wq @ [current_task s]) (mem s)) (current_task s + 24) 0"

lemma tick_sys:
  assumes sys: "sys_inv s rq wq dq K" and cpu: "on_stack s c"
  shows "\<exists>r s' rq' wq' K'. do_timer ret c s = Some (r, s') \<and> sys_inv s' rq' wq' dq K' \<and> grows s rq wq s' rq' wq' \<and>
     K' = (if r = None then K else K(current_task s := c)) \<and>
     (case r of None \<Rightarrow> rq' = rq \<and> wq' = wq \<and> current_task s' = current_task s
      | Some sw \<Rightarrow> rq' = rq @ wakes (slice_end s wq) wq \<and> wq' = stays (slice_end s wq) wq \<and>
          current_task s' \<in> insert (idle_task s) (set rq') \<and>
          (ld32 (mem s) (current_task s + 36) \<noteq> NEW \<longrightarrow> follows rq' (idle_task s) (current_task s) (current_task s')) \<and>
          entered (mem s) sw (mem s') (current_task s') K')"
proof -
  let ?T = "tasks s rq wq dq" and ?c = "current_task s"
  define m where "m = fold bump (wq @ [?c]) (mem s)"
  have inv: "sched_inv s rq wq dq" and cT: "?c \<in> ?T"
    using sys threads_tasks [of s rq wq dq] by (auto simp: sys_inv_def sys_at_def)
  have sep: "tsep ?T" using inv by (auto simp: sched_inv_def intro: owned_tsep)
  have sub: "set (wq @ [?c]) \<subseteq> ?T" using cT by (auto simp: tasks_def)
  let ?s1 = "s\<lparr>mem := m, jiffies := jiffies s + 1\<rparr>"
  let ?m2 = "st32 m (?c + 24) 0"
  let ?s2 = "s\<lparr>mem := ?m2, jiffies := jiffies s + 1\<rparr>"
  note run = do_timer_run [OF inv cT, folded m_def]
  have f: "ld32 m (x + i) = ld32 (mem s) (x + i)" "ld32 ?m2 (x + i) = ld32 (mem s) (x + i)"
    if "x \<in> ?T" "tfield i" "i \<noteq> 24" for x i
    using fold_bump_other [OF sep sub that, of "mem s"] that cT by (simp_all add: m_def task_fld [OF sep] del: fold_append)
  have e: "eq_out (bodies ?T) (mem s) m" unfolding m_def by (rule eq_out_bump [OF sub sep])
  have e2: "eq_out (bodies ?T) (mem s) ?m2" by (rule eq_out_body [OF e cT]) (use sep cT in \<open>auto simp: tsep_def\<close>)
  have sys1: "sys_inv ?s1 rq wq dq K" by (rule sys_inv_fields [OF sys run(2)]) (use e f in auto)
  have inv2: "sched_inv ?s2 rq wq dq"
  proof -
    have comm: "?s1\<lparr>mem := mm\<rparr> = s\<lparr>mem := mm, jiffies := jiffies s + 1\<rparr>" for mm by (cases s) simp
    have "?c \<in> tasks ?s1 rq wq dq" using cT by (simp add: tasks_def)
    from inv_set_field [OF run(2) this, of 24 0] show ?thesis unfolding comm by simp
  qed
  have sys2: "sys_inv ?s2 rq wq dq K" by (rule sys_inv_fields [OF sys inv2]) (use e2 f in auto)
  show ?thesis
  proof (cases "ld32 m (?c + 24) < 5")
    case True
    moreover have "grows s rq wq ?s1 rq wq"
      using f(1) [of _ 36] f(1) [of _ 4] threads_tasks [of s rq wq dq] by (auto simp: grows_def tasks_def)
    ultimately show ?thesis using run(1) sys1 by (intro exI [of _ None] exI [of _ ?s1] exI [of _ rq] exI [of _ wq] exI [of _ K]) simp
  next
    case False
    have "stack_lo ?m2 ?c = stack_lo (mem s) ?c" using f(2) [OF cT, of 4] by (simp add: stack_lo_def)
    then have "on_stack ?s2 c" using cpu f(2) [OF cT, of 36] by (simp add: on_stack_def stack_size_def)
    let ?rq = "rq @ wakes ?m2 wq" and ?wq = "stays ?m2 wq"
    from schedule_sys [OF sys2 \<open>on_stack ?s2 c\<close>, of ret]
    obtain sw s' where sc: "schedule ret c ?s2 = Some (sw, s')" "sys_inv s' ?rq ?wq dq (K(?c := c))"
      "current_task s' \<in> insert (idle_task s) (set ?rq)"
      "ld32 ?m2 (?c + 36) \<noteq> NEW \<longrightarrow> follows ?rq (idle_task s) ?c (current_task s')"
      "entered ?m2 sw (mem s') (current_task s') (K(?c := c))" and g: "grows ?s2 rq wq s' ?rq ?wq" by auto
    have "threads ?s2 rq wq = threads s rq wq" by (simp add: tasks_def)
    then have "grows s rq wq s' ?rq ?wq"
      using g f(2) [of _ 36] f(2) [of _ 4] threads_tasks [of s rq wq dq] unfolding grows_def by (auto simp: subset_iff)
    moreover have "current_task s' \<in> ?T" using sc(3) wakes_subset [of ?m2 wq] by (auto simp: tasks_def)
    then have "entered (mem s) sw (mem s') (current_task s') (K(?c := c))"
      using sc(5) f(2) by (simp add: entered_def cong: if_cong)
    moreover have "ld32 ?m2 (?c + 36) = ld32 (mem s) (?c + 36)" using f(2) [OF cT, of 36] by simp
    moreover have "slice_end s wq = ?m2" by (simp add: slice_end_def m_def)
    ultimately show ?thesis using run(1) [of ret c] False sc(1-4)
      by (intro exI [of _ "Some sw"] exI [of _ s'] exI [of _ ?rq] exI [of _ ?wq] exI [of _ "K(?c := c)"]) simp
  qed
qed

lemma sleep_sys:
  assumes sys: "sys_inv s rq wq dq K" and run: "ld32 (mem s) (current_task s + 36) = RUNNING" "current_task s \<noteq> idle_task s"
  shows "\<exists>s' rq' wq'. sleep_on n s = Some s' \<and> sys_inv s' rq' wq' dq K \<and> grows s rq wq s' rq' wq'"
proof -
  let ?t = "current_task s"
  have at: "sys_at s rq wq dq K (at_rest s rq wq)" and lock: "global_sched_lock s = 1" and inv: "sched_inv s rq wq dq"
    using sys by (auto simp: sys_inv_def sys_at_def)
  have "?t \<in> set rq" using sys run inv by (auto simp: sys_inv_def sched_inv_def statuses_def tasks_def)
  then obtain ys zs where rq: "rq = ys @ ?t # zs" by (auto dest: split_list)
  obtain s' where s': "sleep_on n s = Some s'" "sched_inv s' (ys @ zs) (wq @ [?t]) dq" "global_sched_lock s' = 1" "current_task s' = ?t"
      "\<forall>x \<in> tasks s ys (zs @ wq) dq. \<forall>i. tfield i \<longrightarrow> unat i < 104 \<longrightarrow> ld32 (mem s') (x + i) = ld32 (mem s) (x + i)"
      "\<forall>i. tfield i \<longrightarrow> unat i < 104 \<longrightarrow> i \<notin> {24, 28, 36} \<longrightarrow> ld32 (mem s') (?t + i) = ld32 (mem s) (?t + i)"
      "eq_out (bodies (tasks s rq wq dq)) (mem s) (mem s')"
      "s' = s\<lparr>mem := mem s', runq_head := runq_head s', waitq_head := waitq_head s'\<rparr>"
    using sleep_on_inv [of s ys ?t zs wq dq n] inv lock rq by auto
  have same: "store_global_head s' = store_global_head s" "idle_task s' = idle_task s" by (subst s'(8), simp)+
  have A: "threads s' (ys @ zs) (wq @ [?t]) = threads s rq wq" using same by (auto simp: tasks_def rq)
  have bl: "ld32 (mem s') (?t + 36) = BLOCKED" using s'(2) by (simp add: sched_inv_def statuses_def)
  have rest: "at_rest s' (ys @ zs) (wq @ [?t]) = threads s rq wq - {?t}" using A s'(4) bl by (auto simp: at_rest_def)
  have old: "x \<in> tasks s ys (zs @ wq) dq" if "x \<in> threads s rq wq" "x \<noteq> ?t" for x using that by (auto simp: tasks_def rq)
  have z: "ld32 (mem s') x = ld32 (mem s) x" if "x \<in> threads s rq wq" "x \<noteq> ?t" for x
    using s'(5) [rule_format, OF old [OF that], of 0] by simp
  have st4: "\<forall>x \<in> threads s rq wq. ld32 (mem s') (x + 4) = ld32 (mem s) (x + 4)"
    using s'(5) s'(6) [rule_format, of 4] old by (intro ballI, case_tac "x = ?t") auto
  then have g: "grows s rq wq s' (ys @ zs) (wq @ [?t])"
    unfolding grows_def A using s'(5) [rule_format, OF old, of _ 36] bl same(2) by (intro conjI ballI, simp_all, case_tac "x = ?t") auto
  have "sys_at s' (ys @ zs) (wq @ [?t]) dq K (threads s rq wq - {?t})"
  proof (rule sys_at_write [OF at s'(2), of "{}"])
    show "\<forall>x \<in> threads s rq wq. ld32 (mem s') (x + 4) = ld32 (mem s) (x + 4)" by (rule st4)
  qed (use s'(5,7) old z same in \<open>auto simp: rq at_rest_def\<close>)
  then show ?thesis using s'(1,3,4) sys A rest g
    by (intro exI [of _ s'] exI [of _ "ys @ zs"] exI [of _ "wq @ [?t]"]) (simp add: sys_inv_def)
qed

lemma resume_sys:
  assumes sys: "sys_inv s rq wq dq K"
  shows "\<exists>s'. sleep_resume s = Some s' \<and> sys_inv s' rq wq dq K \<and> grows s rq wq s' rq wq"
proof -
  let ?t = "current_task s" and ?T = "tasks s rq wq dq" and ?m = "st32 (st32 (mem s) (current_task s + 24) 0) (current_task s + 28) 0"
  have inv: "sched_inv s rq wq dq" and tT: "?t \<in> ?T" using sys threads_tasks [of s rq wq dq] by (auto simp: sys_inv_def sys_at_def)
  have sep: "tsep ?T" using inv by (auto simp: sched_inv_def intro: owned_tsep)
  have t: "?t \<noteq> 0" "task_ok ?t" using sep tT by (auto simp: tsep_def task_ok_def)
  have "sched_inv (s\<lparr>mem := st32 (mem s) (?t + 24) 0\<rparr>) rq wq dq" by (rule inv_set_field [OF inv tT]) simp_all
  then have "sched_inv (s\<lparr>mem := ?m\<rparr>) rq wq dq" using inv_set_field [of "s\<lparr>mem := st32 (mem s) (?t + 24) 0\<rparr>" rq wq dq ?t 28 0] tT by (simp add: tasks_def)
  moreover have "eq_out (bodies ?T) (mem s) ?m" by (intro eq_out_body eq_out_refl tT t) simp_all
  ultimately have "sys_inv (s\<lparr>mem := ?m\<rparr>) rq wq dq K"
    by (intro sys_inv_fields [OF sys]) (use tT in \<open>simp_all add: task_fld [OF sep]\<close>)
  moreover have "grows s rq wq (s\<lparr>mem := ?m\<rparr>) rq wq"
    using tT threads_tasks [of s rq wq dq] by (auto simp: grows_def task_fld [OF sep]) (simp_all add: tasks_def)
  ultimately show ?thesis using t by (simp add: sleep_resume_def)
qed


lemma register_some:
  assumes "sched_register_thread f a s = Some (r, s')"
  shows "thread_count s = MAX_THREADCOUNT \<and> s' = s \<or> thread_count s \<noteq> MAX_THREADCOUNT \<and> (\<exists>ts s1 stk s2. kmalloc 112 s = Some (ts, s1) \<and>
     (tid_counter s1 = tid_counter s \<longrightarrow>
      kmalloc 0x2000 (s1\<lparr>mem := new_task (mem s1) ts (tid_counter s) f a, tid_counter := tid_counter s + 1\<rparr>) = Some (stk, s2)))"
proof (cases "thread_count s = MAX_THREADCOUNT")
  case True
  then show ?thesis using assms by (simp add: sched_register_thread_def)
next
  case False
  then obtain ts s1 where k: "kmalloc 112 s = Some (ts, s1)"
    using assms by (cases "kmalloc 112 s") (auto simp: sched_register_thread_def sizeof_task_def)
  have "ts \<noteq> 0" using assms k False by (auto simp: sched_register_thread_def sizeof_task_def)
  then show ?thesis using assms k False
    by (cases "kmalloc 0x2000 (s1\<lparr>mem := new_task (mem s1) ts (tid_counter s) f a, tid_counter := tid_counter s + 1\<rparr>)")
      (auto simp: sched_register_thread_def sizeof_task_def THREAD_STACK_SIZE_def new_task_def)
qed

lemma create_at:
  assumes at: "sys_at s rq wq dq K X" and few: "length rq + length wq < 16" and km1: "kmalloc 112 s = Some (ts, s1)"
    and km2: "kmalloc 0x2000 (s1\<lparr>mem := new_task (mem s1) ts (tid_counter s) f a, tid_counter := tid_counter s + 1\<rparr>) = Some (stk, s2)"
  shows "\<exists>s'. sched_register_thread f a s = Some (tid_counter s, s') \<and> sys_at s' (rq @ [ts]) wq dq K (insert ts X) \<and>
     ts \<notin> tasks s rq wq dq \<and> ld32 (mem s') (ts + 36) = NEW \<and> kept (mem s) (mem s') (tasks s rq wq dq) \<and>
     current_task s' = (if current_task s = 0 then ts else current_task s) \<and>
     global_sched_lock s' = global_sched_lock s \<and> idle_task s' = idle_task s"
proof -
  let ?T = "tasks s rq wq dq" and ?A = "threads s rq wq"
  obtain rs where inv: "sched_inv s rq wq dq" and h: "holds s ?T ?A rs" and XA: "X \<subseteq> ?A" and ctx: "\<forall>t \<in> X. ctx_ok s K t"
    using at by (auto simp: sys_at_def)
  have own: "heap_owns s rs" and T: "\<forall>t \<in> ?T. \<exists>k. 112 \<le> k \<and> (unat t, k) \<in> set rs" using h by (simp_all add: holds_def)
  obtain s' rs' k l where r: "sched_register_thread f a s = Some (tid_counter s, s')" "sched_inv s' (rq @ [ts]) wq dq" "ts \<notin> ?T"
     "heap_owns s' rs'" "set rs' = insert (unat stk, l) (insert (unat ts, k) (set rs))" "112 \<le> k" "0x2000 \<le> l"
     "unat ts \<notin> fst ` set rs" "unat stk \<notin> insert (unat ts) (fst ` set rs)" "ld32 (mem s') (ts + 36) = NEW"
     "ld32 (mem s') ts = stk + 0x1FFF" "ld32 (mem s') (ts + 4) = stk" "kept (mem s) (mem s') ?T"
     "eq_out (- payload rs \<union> bodies (insert ts ?T)) (mem s) (mem s')"
    and sel: "s' = s\<lparr>mem := mem s', tid_counter := tid_counter s + 1,
       current_task := (if current_task s = 0 then ts else current_task s), runq_head := runq_head s', thread_count := thread_count s'\<rparr>"
    using register_run [OF inv own few T km1 km2] by blast
  have same: "store_global_head s' = store_global_head s" "idle_task s' = idle_task s" "global_sched_lock s' = global_sched_lock s"
    "current_task s' = (if current_task s = 0 then ts else current_task s)" by (subst sel, simp)+
  have T': "tasks s' (rq @ [ts]) wq dq = insert ts ?T" "threads s' (rq @ [ts]) wq = insert ts ?A" using same by (auto simp: tasks_def)
  have A: "t \<in> ?T" if "t \<in> ?A" for t using that threads_tasks by blast
  note keep = keptD [OF r(13) A]
  have sz: "stack_size s' t = stack_size s t" for t using same by (simp add: stack_size_def)
  have lo: "stack_lo (mem s') t = stack_lo (mem s) t" if "t \<in> ?A" for t using keep [OF that, of 4] by (simp add: stack_lo_def)
  have lots: "stack_lo (mem s') ts = unat stk" "stack_size s' ts = 0x2000"
    using r(3,12) same by (auto simp: stack_lo_def stack_size_def tasks_def)
  have inrs: "stack_lo (mem s) t \<in> fst ` set rs" if "t \<in> ?A" for t using h that by (force simp: holds_def)
  have inT: "unat t \<in> fst ` set rs" if "t \<in> ?T" for t using T that by force
  have new: "stack_lo (mem s) t \<noteq> unat ts" if "t \<in> ?A" for t using inrs [OF that] r(8) by metis
  have h': "holds s' (insert ts ?T) (insert ts ?A) rs'"
    unfolding holds_def
  proof (intro conjI)
    show "heap_owns s' rs'" by (rule r(4))
    show "\<forall>t \<in> insert ts ?T. \<exists>k. 112 \<le> k \<and> (unat t, k) \<in> set rs'" using T r(5,6) by auto
    show "\<forall>t \<in> insert ts ?A. \<exists>k. stack_size s' t \<le> k \<and> (stack_lo (mem s') t, k) \<in> set rs'"
      using h lo lots r(5,7) by (auto simp: holds_def sz)
    show "inj_on (stack_lo (mem s')) (insert ts ?A)"
    proof -
      have "inj_on (stack_lo (mem s')) ?A = inj_on (stack_lo (mem s)) ?A" using lo by (rule inj_on_cong)
      moreover have "unat stk \<notin> stack_lo (mem s') ` ?A" using inrs r(9) lo by auto
      ultimately show ?thesis using h lots by (auto simp: holds_def)
    qed
    show "\<forall>t \<in> insert ts ?A. \<forall>x \<in> insert ts ?T. stack_lo (mem s') t \<noteq> unat x"
      using h lo lots new inT r(9) by (auto simp: holds_def)
  qed
  have "ctx_ok s' K t" if t: "t \<in> X" for t
  proof (rule ctx_frame [OF _ r(14)])
    have tA: "t \<in> ?A" using t XA by blast
    show "ctx_ok s K t" using ctx t by blast
    have "stack_zone s' t = stack_zone s t" using lo [OF tA] sz by simp
    then show "stack_zone s t \<inter> (- payload rs \<union> bodies (insert ts ?T)) = {}"
      using holds_stack(3) [OF h tA] holds_stack(4) [OF h', of t] tA by auto
    show "stack_lo (mem s) t + stack_size s t \<le> two32" using holds_stack(1) [OF h tA] by simp
    show "ld32 (mem s') t = ld32 (mem s) t" "ld32 (mem s') (t + 4) = ld32 (mem s) (t + 4)"
      "(ld32 (mem s') (t + 36) = NEW) = (ld32 (mem s) (t + 36) = NEW)"
      using keep [OF tA, of 0] keep [OF tA, of 4] keep [OF tA, of 36] by simp_all
  qed (use same in simp_all)
  moreover have "ctx_ok s' K ts" using r(10,11) lots by (simp add: ctx_ok_def)
  ultimately have "sys_at s' (rq @ [ts]) wq dq K (insert ts X)" using r(2) h' XA T' by (auto simp: sys_at_def)
  then show ?thesis using r(1,3,10,13) same by blast
qed

lemma create_sys:
  assumes sys: "sys_inv s rq wq dq K" and run: "sched_register_thread f a s = Some (r, s')"
  shows "\<exists>rq'. sys_inv s' rq' wq dq K \<and> grows s rq wq s' rq' wq"
proof (cases "thread_count s = MAX_THREADCOUNT")
  case True
  then show ?thesis using run sys by (auto simp: sched_register_thread_def grows_def)
next
  case False
  let ?T = "tasks s rq wq dq" and ?c = "current_task s"
  obtain rs where at: "sys_at s rq wq dq K (at_rest s rq wq)" and inv: "sched_inv s rq wq dq" and own: "heap_owns s rs" and cA: "?c \<in> threads s rq wq"
    using sys by (auto simp: sys_inv_def sys_at_def holds_def)
  have few: "length rq + length wq < 16"
    using inv False by (auto simp: sched_inv_def MAX_THREADCOUNT_def word_unat_eq_iff)
  obtain ts s1 where k1: "kmalloc 112 s = Some (ts, s1)" using register_some [OF run] False by auto
  obtain m1 where "s1 = s\<lparr>mem := m1\<rparr>" using alloc_region [OF own _ k1] by auto
  then have "tid_counter s1 = tid_counter s" by simp
  then obtain stk s2 where k2: "kmalloc 0x2000 (s1\<lparr>mem := new_task (mem s1) ts (tid_counter s) f a, tid_counter := tid_counter s + 1\<rparr>) = Some (stk, s2)"
    using register_some [OF run] False k1 by auto
  have cT: "?c \<in> ?T" using cA threads_tasks by blast
  have c0: "?c \<noteq> 0" by (rule tsep_nonnull [OF sys_at_tsep [OF at] cT])
  have s': "sys_at s' (rq @ [ts]) wq dq K (insert ts (at_rest s rq wq))" "ts \<notin> ?T" "ld32 (mem s') (ts + 36) = NEW"
    "kept (mem s) (mem s') ?T" "current_task s' = ?c" "global_sched_lock s' = 1" "idle_task s' = idle_task s"
    using create_at [OF at few k1 k2] run c0 sys by (auto simp: sys_inv_def)
  have A': "threads s' (rq @ [ts]) wq = insert ts (threads s rq wq)" using s'(7) by (auto simp: tasks_def)
  have "grows s rq wq s' (rq @ [ts]) wq"
    using keptD [OF s'(4), of _ 36] keptD [OF s'(4), of _ 4] threads_tasks [of s rq wq dq] A' s'(7) by (auto simp: grows_def)
  moreover have "at_rest s' (rq @ [ts]) wq = insert ts (at_rest s rq wq)" "?c \<in> threads s' (rq @ [ts]) wq"
    using A' s'(2,3,5) keptD [OF s'(4) cT, of 36] cT cA by (auto simp: at_rest_def)
  ultimately show ?thesis using s'(1,5,6) by (intro exI [of _ "rq @ [ts]"]) (simp add: sys_inv_def)
qed


text \<open>
  What the running thread may do between calls of the scheduler: compute, allocate, print, use files. It leaves the
  scheduler's variables alone, the task structures but for the descriptor tables, and the stacks of the other
  threads; and the heap is in order with the tasks and the stacks still allocated.
\<close>

definition computes :: "'a sched_scheme \<Rightarrow> 'a sched_scheme \<Rightarrow> addr list \<Rightarrow> addr list \<Rightarrow> addr list \<Rightarrow> bool" where
  "computes s s' rq wq dq \<longleftrightarrow> (\<exists>rs. holds s' (tasks s rq wq dq) (threads s rq wq) rs) \<and>
     (\<forall>x \<in> tasks s rq wq dq. \<forall>i. tfield i \<longrightarrow> unat i < 40 \<or> 104 \<le> unat i \<longrightarrow> ld32 (mem s') (x + i) = ld32 (mem s) (x + i)) \<and>
     (\<forall>t \<in> threads s rq wq - {current_task s}. eq_out (- stack_zone s t) (mem s) (mem s')) \<and>
     runq_head s' = runq_head s \<and> waitq_head s' = waitq_head s \<and> doneq_head s' = doneq_head s \<and>
     idle_task s' = idle_task s \<and> current_task s' = current_task s \<and> thread_count s' = thread_count s \<and>
     global_sched_lock s' = global_sched_lock s"

lemma ring_same:
  assumes "ring m h xs" and "\<forall>x \<in> set xs. ld32 m' (x + 104) = ld32 m (x + 104) \<and> ld32 m' (x + 108) = ld32 m (x + 108)"
  shows "ring m' h xs"
proof -
  have "linked m' (xs @ [hd xs]) = linked m (xs @ [hd xs])" if "xs \<noteq> []"
    using that assms(2) by (intro linked_cong) (auto dest: in_set_butlastD list.set_sel)
  then show ?thesis using assms(1) by (auto simp: ring_def cyc_def)
qed

lemma compute_sys:
  assumes sys: "sys_inv s rq wq dq K" and run: "computes s s' rq wq dq"
  shows "sys_inv s' rq wq dq K" "grows s rq wq s' rq wq"
proof -
  let ?T = "tasks s rq wq dq" and ?A = "threads s rq wq"
  obtain rs0 where at: "sys_at s rq wq dq K (at_rest s rq wq)" and inv: "sched_inv s rq wq dq" and h0: "holds s ?T ?A rs0"
    using sys by (auto simp: sys_inv_def sys_at_def)
  obtain rs where h: "holds s' ?T ?A rs"
    and f: "\<forall>x \<in> ?T. \<forall>i. tfield i \<longrightarrow> unat i < 40 \<or> 104 \<le> unat i \<longrightarrow> ld32 (mem s') (x + i) = ld32 (mem s) (x + i)"
    and e: "\<forall>t \<in> ?A - {current_task s}. eq_out (- stack_zone s t) (mem s) (mem s')"
    and same: "runq_head s' = runq_head s" "waitq_head s' = waitq_head s" "doneq_head s' = doneq_head s"
      "idle_task s' = idle_task s" "current_task s' = current_task s" "thread_count s' = thread_count s"
      "global_sched_lock s' = global_sched_lock s"
    using run by (auto simp: computes_def)
  have T: "tasks s' rq wq dq = ?T" "threads s' rq wq = ?A" using same by (simp_all add: tasks_def)
  have A: "t \<in> ?T" if "t \<in> ?A" for t using that threads_tasks by blast
  note f0 = f [rule_format, OF A, of _ 0] and f36 = f [rule_format, of _ 36] and f4 = f [rule_format, of _ 4]
  note sub = tasks_sub [where s = s and rq = rq and wq = wq and dq = dq]
  have r: "ring (mem s') l xs" if "ring (mem s) l xs" "set xs \<subseteq> ?T" for l xs
    using that f by (intro ring_same [OF that(1)]) auto
  have "owned s' ?T" using h by (auto simp: holds_def owned_def)
  moreover have "queues (mem s') s' rq wq dq" using inv r sub same by (auto simp: sched_inv_def queues_def)
  moreover have "statuses (mem s') rq wq dq"
    by (rule statuses_cong [of "mem s"]) (use inv f36 in \<open>auto simp: sched_inv_def tasks_def\<close>)
  ultimately have inv': "sched_inv s' rq wq dq" using inv same T by (auto simp: sched_inv_def)
  have "ctx_ok s' K t" if t: "t \<in> at_rest s rq wq" for t
  proof (cases "t = current_task s")
    case True
    then have tA: "t \<in> ?A" and new: "ld32 (mem s) (t + 36) = NEW" and c: "ctx_ok s K t"
      using t at by (auto simp: at_rest_def sys_at_def)
    then show ?thesis using f0 [OF tA] f36 [OF A [OF tA]] f4 [OF A [OF tA]] same
      by (simp add: ctx_ok_def stack_lo_def stack_size_def)
  next
    case False
    then have tA: "t \<in> ?A" using t by (simp add: at_rest_def)
    show ?thesis
      by (rule ctx_frame [OF _ bspec [OF e]])
        (use t at tA False holds_stack(1) [OF h0 tA] f0 [OF tA] f36 [OF A [OF tA]] f4 [OF A [OF tA]] same in \<open>auto simp: sys_at_def\<close>)
  qed
  moreover have "at_rest s' rq wq = at_rest s rq wq" using T same f36 A by (auto simp: at_rest_def)
  ultimately show "sys_inv s' rq wq dq K" using sys inv' h T same by (auto simp: sys_inv_def sys_at_def)
  show "grows s rq wq s' rq wq" using f36 f4 A T same(4) by (auto simp: grows_def)
qed

section \<open>Reachable states\<close>

text \<open>
  The state is the kernel's and, for each thread, the registers it last entered \<open>schedule\<close> with. The operations are not
  interrupted half way. A thread that returns from its function is left out: its result is stored past its stack
  (\<open>thread_return\<close>).
\<close>

inductive kstep :: "'a sched_scheme \<times> (addr \<Rightarrow> cpu) \<Rightarrow> 'a sched_scheme \<times> (addr \<Rightarrow> cpu) \<Rightarrow> bool" where
  compute: "\<forall>rq wq dq. sched_inv s rq wq dq \<longrightarrow> computes s s' rq wq dq \<Longrightarrow> kstep (s, K) (s', K)"
| create: "sched_register_thread f a s = Some (r, s') \<Longrightarrow> kstep (s, K) (s', K)"
| sleep: "ld32 (mem s) (current_task s + 36) = RUNNING \<Longrightarrow> current_task s \<noteq> idle_task s \<Longrightarrow>
    sleep_on n s = Some s' \<Longrightarrow> kstep (s, K) (s', K)"
| wake: "sleep_resume s = Some s' \<Longrightarrow> kstep (s, K) (s', K)"
| yield: "on_stack s c \<Longrightarrow> schedule ret c s = Some (sw, s') \<Longrightarrow> kstep (s, K) (s', K(current_task s := c))"
| tick: "on_stack s c \<Longrightarrow> do_timer ret c s = Some (r, s') \<Longrightarrow>
    kstep (s, K) (s', if r = None then K else K(current_task s := c))"

lemma kstep_inv:
  assumes "kstep x y" and "sys_inv (fst x) rq wq dq (snd x)"
  shows "\<exists>rq' wq' dq'. sys_inv (fst y) rq' wq' dq' (snd y) \<and> grows (fst x) rq wq (fst y) rq' wq'"
  using assms
proof (induction rule: kstep.induct)
  case (compute s s' K)
  then have "computes s s' rq wq dq" by (auto simp: sys_inv_def sys_at_def)
  then show ?case using compute_sys [of s rq wq dq K s'] compute(2) by auto
next
  case (create f a s r s' K)
  then show ?case using create_sys by fastforce
next
  case (sleep s n s' K)
  then show ?case using sleep_sys [of s rq wq dq K n] by fastforce
next
  case (wake s s' K)
  then show ?case using resume_sys by fastforce
next
  case (yield s c ret sw s' K)
  then show ?case using schedule_sys [of s rq wq dq K c ret] by (auto simp del: fun_upd_apply)
next
  case (tick s c ret r s' K)
  then show ?case using tick_sys [of s rq wq dq K c ret] by (auto split: if_splits)
qed

lemma kreach_inv:
  assumes "kstep\<^sup>*\<^sup>* x y" and "sys_inv (fst x) rq wq dq (snd x)"
  shows "\<exists>rq' wq' dq'. sys_inv (fst y) rq' wq' dq' (snd y) \<and> grows (fst x) rq wq (fst y) rq' wq'"
  using assms(1)
proof (induction rule: rtranclp_induct)
  case base
  show ?case using assms(2) by (auto simp: grows_def)
next
  case (step y z)
  then obtain rq1 wq1 dq1 where i: "sys_inv (fst y) rq1 wq1 dq1 (snd y)" "grows (fst x) rq wq (fst y) rq1 wq1" by blast
  obtain rq2 wq2 dq2 where "sys_inv (fst z) rq2 wq2 dq2 (snd z)" "grows (fst y) rq1 wq1 (fst z) rq2 wq2"
    using kstep_inv [OF step(2) i(1)] by blast
  then show ?case using i(2) by (intro exI conjI) (auto simp: grows_def)
qed

text \<open>While other threads run, the registers a thread left are not replaced.\<close>

definition others :: "addr \<Rightarrow> 'a sched_scheme \<times> (addr \<Rightarrow> cpu) \<Rightarrow> 'a sched_scheme \<times> (addr \<Rightarrow> cpu) \<Rightarrow> bool" where
  "others t x y \<longleftrightarrow> kstep x y \<and> current_task (fst x) \<noteq> t"

lemma others_saved: "(others t)\<^sup>*\<^sup>* x y \<Longrightarrow> kstep\<^sup>*\<^sup>* x y \<and> snd y t = snd x t"
proof (induction rule: rtranclp_induct)
  case (step y z)
  then have "kstep y z" "current_task (fst y) \<noteq> t" by (auto simp: others_def)
  then have "snd z t = snd y t" by (induction rule: kstep.induct) auto
  then show ?case using step by (auto simp: others_def)
qed simp


lemma demo_esp: "ld32 (mem demo_sched) 0x1010 = 0x52AF" "ld32 (mem demo_sched) 0x1014 = 0x51B0" "ld32 (mem demo_sched) 0x1034 = 0"
  "ld32 (mem demo_sched) 0x1114 = 0x31A0"
  by (simp_all add: demo_sched_def demo_ld) (simp_all add: demo_val_def demo_words_def)

lemma demo_sel: "current_task demo_sched = 0x1090" "idle_task demo_sched = 0x1010" "global_sched_lock demo_sched = 1"
  by (simp_all add: demo_sched_def)

lemma demo_lo: "stack_lo (mem demo_sched) 0x1010 = 0x51B0" "stack_lo (mem demo_sched) 0x1090 = 0x1190" "stack_lo (mem demo_sched) 0x1110 = 0x31A0"
  "stack_size demo_sched 0x1010 = 0x100" "stack_size demo_sched 0x1090 = 0x2000" "stack_size demo_sched 0x1110 = 0x2000"
  using demo_esp demo_status demo_sel by (simp_all add: stack_lo_def stack_size_def)

lemma demo_sys: "sys_inv demo_sched [0x1090, 0x1110] [] [] (\<lambda>_. demo_c2)"
proof -
  have A: "threads demo_sched [0x1090, 0x1110] [] = {0x1010, 0x1090, 0x1110}" by (rule demo_tasks)
  have "holds demo_sched {0x1010, 0x1090, 0x1110} {0x1010, 0x1090, 0x1110} demo_regions"
    unfolding holds_def using demo_regions_owned by (simp add: demo_lo) (simp add: demo_regions_def)
  moreover have "ctx_ok demo_sched (\<lambda>_. demo_c2) 0x1010" using demo_esp by (simp add: ctx_ok_def demo_lo)
  moreover have "ctx_ok demo_sched (\<lambda>_. demo_c2) 0x1110"
    using demo_suspended demo_status by (auto simp: ctx_ok_def demo_lo)
  moreover have "at_rest demo_sched [0x1090, 0x1110] [] = {0x1010, 0x1110}"
    unfolding at_rest_def A using demo_status demo_sel by auto
  ultimately show ?thesis
    unfolding sys_inv_def sys_at_def A demo_tasks using demo_sched_inv demo_sel by auto
qed

lemma demo_on_stack: "on_stack demo_sched demo_cpu"
  unfolding on_stack_def demo_sel demo_lo by (intro impI exI [of _ "0x1200"]) (simp add: demo_cpu_def)

section \<open>Properties\<close>

text \<open>
  C3: the scheduler switches threads correctly from every state of the system: \<open>schedule\<close> returns; it appends to the run
  queue, in order, the sleepers that a pass over the wait queue wakes (\<open>wakes\<close>: the head alone when its time is up, and
  otherwise every other task whose time is up), and leaves the others waiting; it chooses the next thread of that run
  queue round robin (the thread after the current one, or the idle task), and leaves it running. A thread that was
  suspended continues with the registers it was suspended with, a new one starts at its function with its argument on its
  stack and interrupts enabled; the thread that was running is suspended with its registers, and every other context, stack
  and queue stays in order.
\<close>

theorem schedule_switches:
  assumes "sys_inv s rq wq dq K" and "on_stack s c"
  shows "\<exists>sw s' rq'. schedule ret c s = Some (sw, s') \<and> rq' = rq @ wakes (mem s) wq \<and>
     sys_inv s' rq' (stays (mem s) wq) dq (K(current_task s := c)) \<and> current_task s' \<in> insert (idle_task s) (set rq') \<and>
     (ld32 (mem s) (current_task s + 36) \<noteq> NEW \<longrightarrow> follows rq' (idle_task s) (current_task s) (current_task s')) \<and>
     entered (mem s) sw (mem s') (current_task s') (K(current_task s := c))"
  using schedule_sys [OF assms, of ret] by blast

theorem schedule_switches_witness:
  "\<exists>s'. schedule 0 demo_cpu demo_sched = Some (Resume demo_c2, s') \<and> current_task s' = 0x1110 \<and>
     sys_inv s' [0x1090, 0x1110] [] [] ((\<lambda>_. demo_c2)(0x1090 := demo_cpu))"
proof -
  obtain sw s' where r: "schedule 0 demo_cpu demo_sched = Some (sw, s')" "sys_inv s' [0x1090, 0x1110] [] [] ((\<lambda>_. demo_c2)(0x1090 := demo_cpu))"
    "follows [0x1090, 0x1110] 0x1010 0x1090 (current_task s')"
    "entered (mem demo_sched) sw (mem s') (current_task s') ((\<lambda>_. demo_c2)(0x1090 := demo_cpu))"
    using schedule_switches [OF demo_sys demo_on_stack, of 0] demo_status unfolding demo_sel by auto
  then have "current_task s' = 0x1110" by (auto simp: follows_def dest: spec [of _ 0])
  then show ?thesis using r demo_status by (auto simp: entered_def)
qed

text \<open>
  C6: preemption is invisible to a thread: suspended with registers \<open>c\<close>, whatever the other threads then do (compute,
  create threads, sleep, yield, be preempted by the timer), for any number of steps, it is resumed with exactly
  the registers \<open>c\<close>.
\<close>

theorem thread_resumes_unchanged:
  assumes "sys_inv s rq wq dq K" and "on_stack s c" and "current_task s = t" and "ld32 (mem s) (t + 36) \<noteq> NEW"
    and "schedule ret c s = Some (sw, s1)" and "(others t)\<^sup>*\<^sup>* (s1, K(t := c)) (s2, K2)" and "current_task s2 \<noteq> t"
    and "on_stack s2 c2" and "schedule ret2 c2 s2 = Some (sw2, s3)" and "current_task s3 = t"
  shows "sw2 = Resume c"
proof -
  obtain vs wq1 where s1: "sys_inv s1 (rq @ vs) wq1 dq (K(t := c))" "grows s rq wq s1 (rq @ vs) wq1"
    using schedule_sys [OF assms(1,2), of ret] assms(3,5) by auto
  have k: "kstep\<^sup>*\<^sup>* (s1, K(t := c)) (s2, K2)" "K2 t = c" using others_saved [OF assms(6)] by auto
  obtain rq2 wq2 dq2 where s2: "sys_inv s2 rq2 wq2 dq2 K2" "grows s1 (rq @ vs) wq1 s2 rq2 wq2"
    using kreach_inv [OF k(1), of "rq @ vs" wq1 dq] s1(1) by auto
  have "t \<in> threads s rq wq" using assms(1,3) by (simp add: sys_inv_def)
  then have "ld32 (mem s2) (t + 36) \<noteq> NEW" using s1(2) s2(2) assms(4) by (auto simp: grows_def)
  moreover have "entered (mem s2) sw2 (mem s3) t (K2(current_task s2 := c2))"
    using schedule_sys [OF s2(1) assms(8), of ret2] assms(9,10) by auto
  ultimately show ?thesis using k(2) assms(7) by (auto simp: entered_def)
qed


lemma demo_second:
  assumes "schedule 0 demo_cpu demo_sched = Some (sw, s1)"
  shows "sys_inv s1 [0x1090, 0x1110] [] [] ((\<lambda>_. demo_c2)(0x1090 := demo_cpu))" "current_task s1 = 0x1110" "on_stack s1 demo_c2"
    "\<exists>sw2 s3. schedule 0 demo_c2 s1 = Some (sw2, s3) \<and> current_task s3 = 0x1090"
proof -
  let ?K = "(\<lambda>_. demo_c2)(0x1090 := demo_cpu)"
  have r: "sys_inv s1 [0x1090, 0x1110] [] [] ?K" "follows [0x1090, 0x1110] 0x1010 0x1090 (current_task s1)"
    "grows demo_sched [0x1090, 0x1110] [] s1 [0x1090, 0x1110] []"
    using schedule_sys [OF demo_sys demo_on_stack, of 0] demo_status assms unfolding demo_sel by auto
  then show sys: "sys_inv s1 [0x1090, 0x1110] [] [] ?K" and c: "current_task s1 = 0x1110"
    by (auto simp: follows_def dest: spec [of _ 0])
  have g: "idle_task s1 = 0x1010" "stack_lo (mem s1) 0x1110 = 0x31A0" "ld32 (mem s1) (0x1110 + 36) \<noteq> NEW"
    using r(3) demo_sel demo_esp demo_status by (auto simp: grows_def tasks_def stack_lo_def)
  then show o: "on_stack s1 demo_c2"
    unfolding on_stack_def c by (intro impI exI [of _ "0x5000"]) (simp add: stack_size_def demo_c2_def)
  obtain sw2 s3 where "schedule 0 demo_c2 s1 = Some (sw2, s3)" "follows [0x1090, 0x1110] 0x1010 0x1110 (current_task s3)"
    using schedule_sys [OF sys o, of 0] g c by auto
  then show "\<exists>sw2 s3. schedule 0 demo_c2 s1 = Some (sw2, s3) \<and> current_task s3 = 0x1090"
    by (auto simp: follows_def dest: spec [of _ 1])
qed

theorem thread_resumes_unchanged_witness:
  "\<exists>sw s1 s3. schedule 0 demo_cpu demo_sched = Some (sw, s1) \<and> schedule 0 demo_c2 s1 = Some (Resume demo_cpu, s3)"
proof -
  obtain sw s1 where s1: "schedule 0 demo_cpu demo_sched = Some (sw, s1)" using schedule_sys [OF demo_sys demo_on_stack, of 0] by blast
  note d = demo_second [OF s1]
  obtain sw2 s3 where s3: "schedule 0 demo_c2 s1 = Some (sw2, s3)" "current_task s3 = 0x1090" using d(4) by blast
  have "sw2 = Resume demo_cpu"
    by (rule thread_resumes_unchanged [OF demo_sys demo_on_stack demo_sel(1) _ s1 rtranclp.rtrancl_refl _ d(3) s3])
      (use demo_status d(2) in simp_all)
  then show ?thesis using s1 s3(1) by blast
qed

end
