(* ===== verification/Boot.thy ===== *)
theory Boot
  imports Kernel Sched_System
begin

text \<open>
  The start of the system, composed: what \<open>kmain\<close> of src/MemeOS/src/kernel.c leaves behind when the
  boot loader hands it a memory map. The lemmas carry the loader's tables, the heap and the
  scheduler's invariant through the messages each step prints.
\<close>

section \<open>The report on the boot information\<close>

lemma console_keeps:
  assumes "console_step s t" and "unat p + 4 \<le> two32" and "region p 4 \<inter> screen = {}"
  shows "ld32 (mem t) p = ld32 (mem s) p"
  using assms eq_out_ld32 by (auto simp: console_step_def)

lemma console_tty: "console_step s t \<Longrightarrow> tty_ok t"
  by (simp add: console_step_def)

lemma print_more:
  assumes "console_step s t" and "fmt_ok (chars format) args"
  shows "\<exists>t'. printf format args t = Some t' \<and> console_step s t'"
  using printf_returns [OF assms(2) console_tty [OF assms(1)]] console_step_trans [OF assms(1)] by blast

lemma print_words_more:
  assumes "console_step s t" and "p \<noteq> 0" and "\<And>ws. length ws = length offs \<Longrightarrow> fmt_ok (chars format) (map Word ws)"
  shows "\<exists>t'. print_words format p offs t = Some t' \<and> console_step s t'"
proof -
  have "map Word (map (\<lambda>off. ld32 (mem t) (p + off)) offs) = map (\<lambda>off. Word (ld32 (mem t) (p + off))) offs" by simp
  moreover have "fmt_ok (chars format) (map Word (map (\<lambda>off. ld32 (mem t) (p + off)) offs))" by (rule assms(3)) simp
  ultimately have "fmt_ok (chars format) (map (\<lambda>off. Word (ld32 (mem t) (p + off))) offs)" by (simp only:)
  from print_more [OF assms(1) this] assms(2) show ?thesis by (simp add: print_words_def)
qed

lemma guarded_more:
  assumes "b = Some x" and "tty_ok s" and "console_step s t" and "x \<Longrightarrow> \<exists>t'. f t = Some t' \<and> console_step s t'"
  shows "\<exists>t'. guarded b f t = Some t' \<and> console_step s t'"
  using assms by (cases x) (auto simp: guarded_def)

text \<open>The number of conversions of a format that has only numeric ones and no escape.\<close>

function num_convs :: "u8 list \<Rightarrow> nat option" where
  "num_convs [] = Some 0"
| "num_convs (c # f) =
     (if c = 27 then None
      else if c \<noteq> ch CHR ''%'' then num_convs f
      else (case fmt_spec f of None \<Rightarrow> None | Some (pad0, pad, k, r) \<Rightarrow>
        (if is_num_conv k then map_option Suc (num_convs r) else None)))"
  by pat_completeness auto
termination
  by (relation "measure length") (auto dest: fmt_spec_shorter)

lemma num_convs_ok: "num_convs f = Some n \<Longrightarrow> length ws = n \<Longrightarrow> fmt_ok f (map Word ws)"
proof (induction f arbitrary: n ws rule: num_convs.induct)
  case (2 c f)
  show ?case
  proof (cases "c = ch CHR ''%''")
    case True
    with 2 show ?thesis
      by (cases ws) (auto simp: conv_ok_def split: option.splits prod.splits if_splits)
  next
    case False
    with 2 show ?thesis by (auto split: if_splits)
  qed
qed simp

lemma flagscheck_formats:
  "num_convs (chars (''flags = 0x%x'' @ nl)) = Some 1"
  "num_convs (chars (''Total System Memory: Lower = %uKB, Upper = %uKB'' @ nl)) = Some 2"
  "num_convs (chars (''boot_device = 0x%x'' @ nl)) = Some 1"
  "num_convs (chars (''multiboot_aout_symbol_table: tabsize = 0x%0x, strsize = 0x%x, addr = 0x%x'' @ nl)) = Some 3"
  "num_convs (chars (''multiboot_elf_sec: num = %u, size = 0x%x, addr = 0x%x, shndx = 0x%x'' @ nl)) = Some 4"
  "num_convs (chars (''mmap_addr = 0x%x, mmap_length = 0x%x'' @ nl)) = Some 2"
  "num_convs (chars ('' size = 0x%x, base = 0x%x%08x, length = 0x%x%08x, type = 0x%x'' @ nl)) = Some 6"
  "num_convs (chars (''mods_count = %d, mods_addr = 0x%x'' @ nl)) = Some 2"
  by code_simp+


text \<open>
  What the boot loader hands over: \<open>mbi\<close> points at a multiboot structure with a memory map \<open>es\<close> at position \<open>pos\<close>. A
  command line that is announced is a null pointer or a string; modules that are announced are a table of entries
  of 16 bytes whose command lines are such strings. All of it lies outside \<open>A\<close>.
\<close>

definition str_ok :: "mem \<Rightarrow> addr set \<Rightarrow> addr \<Rightarrow> bool" where
  "str_ok m A p \<longleftrightarrow> p = 0 \<or>
     (case read_cstr m p of None \<Rightarrow> False | Some xs \<Rightarrow> region p (length xs + 1) \<inter> A = {})"

definition mods_ok :: "mem \<Rightarrow> addr set \<Rightarrow> addr \<Rightarrow> nat \<Rightarrow> bool" where
  "mods_ok m A md n \<longleftrightarrow> 0 < n \<longrightarrow> md \<noteq> 0 \<and> unat md + 16 * n \<le> two32 \<and> region md (16 * n) \<inter> A = {} \<and>
     (\<forall>i < n. str_ok m A (ld32 m (md + of_nat (16 * i + 8))))"

definition boot_info :: "mem \<Rightarrow> addr \<Rightarrow> nat \<Rightarrow> mmap_entry list \<Rightarrow> addr set \<Rightarrow> bool" where
  "boot_info m mbi pos es A \<longleftrightarrow> mbi \<noteq> 0 \<and> unat mbi + 52 \<le> two32 \<and> region mbi 52 \<inter> A = {} \<and>
     (ld32 m mbi AND 4 \<noteq> 0 \<longrightarrow> str_ok m A (ld32 m (mbi + 16))) \<and>
     (ld32 m mbi AND 8 \<noteq> 0 \<longrightarrow> mods_ok m A (ld32 m (mbi + 24)) (unat (ld32 m (mbi + 20)))) \<and>
     ld32 m (mbi + 48) = of_nat pos \<and> ld32 m (mbi + 44) = of_nat (mmap_span es) \<and>
     mmap_table m pos es \<and> (\<forall>e \<in> set es. 20 \<le> fst e) \<and>
     0 < pos \<and> pos + mmap_span es < two32 \<and> zone pos (mmap_span es) \<inter> A = {}"

lemma str_ok_cstr: "str_ok m A p \<longleftrightarrow> p = 0 \<or> (\<exists>xs. cstr m p xs \<and> region p (length xs + 1) \<inter> A = {})"
proof (cases "read_cstr m p")
  case None
  then have "\<not> cstr m p xs" for xs using read_cstrI by fastforce
  then show ?thesis using None by (simp add: str_ok_def)
next
  case (Some xs)
  then have "cstr m p ys \<longleftrightarrow> ys = xs" for ys using read_cstrI [of m p ys] read_cstrD by auto
  then show ?thesis using Some by (simp add: str_ok_def)
qed

lemma str_ok_frame: "str_ok m A p \<Longrightarrow> eq_out A m m' \<Longrightarrow> str_ok m' A p"
  unfolding str_ok_cstr using cstr_apart by blast

lemma str_ok_clear:
  assumes "str_ok m screen p" and "p \<noteq> 0"
  shows "str_clear m 0xB8000 4000 p"
proof -
  obtain xs where xs: "cstr m p xs" "region p (length xs + 1) \<inter> screen = {}" using assms by (auto simp: str_ok_cstr)
  let ?q = "of_nat (max (unat p) 0xB8000) :: addr"
  have "unat ?q = max (unat p) 0xB8000" using cstr_fits [OF xs(1)] by (simp add: max_def)
  then have "\<not> (0xB8000 \<le> unat p + length xs \<and> unat p < 0xB8000 + 4000)"
    using xs(2) by (auto simp: region_def screen_def zone_def disjoint_iff max_def dest: spec [of _ ?q] split: if_splits)
  then show ?thesis using read_cstrI [OF xs(1)] by (auto simp: str_clear_def)
qed

lemma str_ok_mono: "str_ok m A p \<Longrightarrow> B \<subseteq> A \<Longrightarrow> str_ok m B p"
  by (auto simp: str_ok_def split: option.splits)

lemma mods_ok_word:
  assumes "mods_ok m A md n" and "eq_out A m m'" and "i < n" and "j \<le> 12"
  shows "ld32 m' (md + of_nat (16 * i + j)) = ld32 m (md + of_nat (16 * i + j))"
proof (rule eq_out_ld32 [OF assms(2)])
  have b: "unat md + 16 * n \<le> two32" "region md (16 * n) \<inter> A = {}" using assms(1,3) by (auto simp: mods_ok_def)
  have k: "16 * i + j + 4 \<le> 16 * n" using assms(3,4) by simp
  then have u: "unat (md + of_nat (16 * i + j)) = unat md + (16 * i + j)" using b(1) unat_plus_of_nat [of md "16 * i + j"] by simp
  show "unat (md + of_nat (16 * i + j)) + 4 \<le> two32" using u b(1) k by simp
  have "region (md + of_nat (16 * i + j)) 4 \<subseteq> region md (16 * n)" using u k by (auto simp: region_def)
  with b(2) show "region (md + of_nat (16 * i + j)) 4 \<inter> A = {}" by blast
qed

lemma mods_ok_frame: "mods_ok m A md n \<Longrightarrow> eq_out A m m' \<Longrightarrow> mods_ok m' A md n"
  using mods_ok_word [of m A md n m' _ 8] str_ok_frame [of m A _ m'] by (auto simp: mods_ok_def)

lemma mods_ok_mono: "mods_ok m A md n \<Longrightarrow> B \<subseteq> A \<Longrightarrow> mods_ok m B md n"
  using str_ok_mono [of m A _ B] by (auto simp: mods_ok_def)

lemma span_Nil: "mmap_span [] = 0"
  by (simp add: mmap_span_def)

lemma span_Cons: "mmap_span (e # es) = fst e + 4 + mmap_span es"
  by (simp add: mmap_span_def)

lemma table_frame:
  assumes "mmap_table m pos es" and "eq_out A m m'" and "\<forall>e \<in> set es. 20 \<le> fst e"
    and "pos + mmap_span es < two32" and "zone pos (mmap_span es) \<inter> A = {}"
  shows "mmap_table m' pos es"
  using assms(1,3-)
proof (induction es arbitrary: pos)
  case (Cons e es)
  obtain sz ad len ty where e: "e = (sz, ad, len, ty)" by (cases e)
  have sp: "mmap_span (e # es) = sz + 4 + mmap_span es" "20 \<le> sz" using Cons.prems(2) by (auto simp: span_Cons e)
  have w: "ld32 m' (of_nat pos + of_nat i) = ld32 m (of_nat pos + of_nat i)" if "i \<le> 20" for i
  proof (rule eq_out_ld32 [OF assms(2)])
    have u: "unat (of_nat pos + of_nat i :: addr) = pos + i" using Cons.prems(3) sp that by simp
    show "unat (of_nat pos + of_nat i :: addr) + 4 \<le> two32" using u Cons.prems(3) sp that by simp
    have "region (of_nat pos + of_nat i) 4 \<subseteq> zone pos (mmap_span (e # es))"
      using u sp that by (auto simp: region_def zone_def)
    with Cons.prems(4) show "region (of_nat pos + of_nat i) 4 \<inter> A = {}" by blast
  qed
  have "zone (pos + sz + 4) (mmap_span es) \<subseteq> zone pos (mmap_span (e # es))" using sp by (auto simp: zone_def)
  then have "mmap_table m' (pos + sz + 4) es"
    using Cons.prems e sp by (intro Cons.IH) auto
  with Cons.prems(1) w [of 0] w [of 4] w [of 12] w [of 20] show ?case by (simp add: e)
qed simp

lemma boot_info_word:
  assumes "boot_info m mbi pos es A" and "eq_out A m m'" and "i \<le> 48"
  shows "ld32 m' (mbi + of_nat i) = ld32 m (mbi + of_nat i)"
proof (rule eq_out_ld32 [OF assms(2)])
  have b: "unat mbi + 52 \<le> two32" "region mbi 52 \<inter> A = {}" using assms(1) by (auto simp: boot_info_def)
  have u: "unat (mbi + of_nat i) = unat mbi + i" using b(1) assms(3) by simp
  then show "unat (mbi + of_nat i) + 4 \<le> two32" using b(1) assms(3) by simp
  have "region (mbi + of_nat i) 4 \<subseteq> region mbi 52" using u assms(3) by (auto simp: region_def)
  with b(2) show "region (mbi + of_nat i) 4 \<inter> A = {}" by blast
qed

lemma boot_info_frame:
  assumes "boot_info m mbi pos es A" and "eq_out A m m'"
  shows "boot_info m' mbi pos es A"
proof -
  note w = boot_info_word [OF assms]
  show ?thesis using assms(1) table_frame [OF _ assms(2)] str_ok_frame [OF _ assms(2)] mods_ok_frame [OF _ assms(2)]
      w [of 0] w [of 16] w [of 20] w [of 24] w [of 44] w [of 48] by (simp add: boot_info_def)
qed

lemma boot_info_mono: "boot_info m mbi pos es A \<Longrightarrow> B \<subseteq> A \<Longrightarrow> boot_info m mbi pos es B"
  using str_ok_mono [of m A _ B] mods_ok_mono [of m A _ _ B] by (auto simp: boot_info_def)

lemma print_mmap_more:
  assumes i: "boot_info (mem s) mbi pos0 es0 screen" and "console_step s t" and "mmap_table (mem s) pos es"
    and "0 < pos" and "pos + mmap_span es = pos0 + mmap_span es0" and "pos0 \<le> pos" and "\<forall>e \<in> set es. 20 \<le> fst e"
  shows "\<exists>t'. print_mmap mbi (of_nat pos) t = Some t' \<and> console_step s t'"
  using assms(2-)
proof (induction es arbitrary: t pos)
  case Nil
  have b: "mbi \<noteq> 0" "ld32 (mem t) (mbi + 48) = of_nat pos0" "ld32 (mem t) (mbi + 44) = of_nat (mmap_span es0)"
    using i boot_info_frame [OF i] Nil.prems(1) by (auto simp: boot_info_def console_step_def)
  have "(of_nat pos :: addr) = of_nat pos0 + of_nat (mmap_span es0)"
    using Nil.prems(4) by (simp add: span_Nil)
  then show ?case using b Nil.prems(1) by (subst print_mmap.simps) simp
next
  case (Cons e es)
  obtain sz ad len ty where e: "e = (sz, ad, len, ty)" by (cases e)
  have sp: "mmap_span (e # es) = sz + 4 + mmap_span es" by (simp add: span_Cons e)
  have lim: "pos0 + mmap_span es0 < two32" "zone pos0 (mmap_span es0) \<inter> screen = {}" using i by (auto simp: boot_info_def)
  have b: "mbi \<noteq> 0" "ld32 (mem t) (mbi + 48) = of_nat pos0" "ld32 (mem t) (mbi + 44) = of_nat (mmap_span es0)"
    using i boot_info_frame [OF i] Cons.prems(1) by (auto simp: boot_info_def console_step_def)
  have lt: "(of_nat pos :: addr) < of_nat (pos0 + mmap_span es0)"
    using of_nat_less_fit [of pos "pos0 + mmap_span es0"] lim Cons.prems(4) sp by (simp del: of_nat_add)
  have nz: "(of_nat pos :: addr) \<noteq> 0" using Cons.prems(3,4) lim sp by simp
  obtain t1 where t1: "print_words ('' size = 0x%x, base = 0x%x%08x, length = 0x%x%08x, type = 0x%x'' @ nl)
      (of_nat pos) [0, 8, 4, 16, 12, 20] t = Some t1" "console_step s t1"
    using print_words_more [OF Cons.prems(1) nz num_convs_ok [OF flagscheck_formats(7)], of "[0, 8, 4, 16, 12, 20]"] by auto
  have "ld32 (mem t1) (of_nat pos) = of_nat sz"
  proof -
    have u: "unat (of_nat pos :: addr) = pos" using Cons.prems(4) lim sp by simp
    have "region (of_nat pos) 4 \<subseteq> zone pos0 (mmap_span es0)" using u Cons.prems(4,5) sp by (auto simp: region_def zone_def)
    then have "ld32 (mem t1) (of_nat pos) = ld32 (mem s) (of_nat pos)"
      using lim Cons.prems(4) sp u by (intro console_keeps [OF t1(2)]) auto
    then show ?thesis using Cons.prems(2) e by simp
  qed
  moreover have "of_nat pos + of_nat sz + 4 = (of_nat (pos + sz + 4) :: addr)" by simp
  moreover have "\<exists>t'. print_mmap mbi (of_nat (pos + sz + 4)) t1 = Some t' \<and> console_step s t'"
    using Cons.prems e sp t1(2) by (intro Cons.IH) auto
  ultimately show ?case
    using b nz lt t1(1) by (subst print_mmap.simps) (auto simp: of_nat_add [symmetric] simp del: of_nat_add)
qed


lemma check_flag_value: "mbi \<noteq> 0 \<Longrightarrow> check_flag mbi n t = Some (ld32 (mem t) mbi AND push_bit n 1 \<noteq> 0)"
  by (simp add: check_flag_def)

lemma print_shown:
  assumes "console_step s t" and "printable (mem t) (chars format) args"
  shows "\<exists>t'. printf format args t = Some t' \<and> console_step s t'"
  using printf_shows [OF assms(2) console_tty [OF assms(1)]] console_step_trans [OF assms(1)] by blast

lemma string_formats:
  "fmt_with P (chars (''cmdline = %s'' @ nl)) [Word p] \<longleftrightarrow> p = 0 \<or> P p"
  "fmt_with P (chars ('' mod_start = 0x%x, mod_end = 0x%x, cmdline = %s'' @ nl)) [Word x, Word y, Word p] \<longleftrightarrow> p = 0 \<or> P p"
  by (simp_all add: chars_def nl_def fmt_spec_def fmt_zero_def fmt_width_def conv_ok_def is_num_conv_def)

lemma print_mods_more:
  assumes i: "boot_info (mem s) mbi pos es screen" and f: "ld32 (mem s) mbi AND 8 \<noteq> 0"
    and "console_step s t" and "k \<le> unat (ld32 (mem s) (mbi + 20))"
  shows "\<exists>t'. print_mods mbi (ld32 (mem s) (mbi + 24) + of_nat (16 * k)) (of_nat k) t = Some t' \<and> console_step s t'"
  using assms(3,4)
proof (induction "unat (ld32 (mem s) (mbi + 20)) - k" arbitrary: k t)
  let ?n = "ld32 (mem s) (mbi + 20)" and ?md = "ld32 (mem s) (mbi + 24)"
  have nz: "mbi \<noteq> 0" using i by (simp add: boot_info_def)
  have cnt: "ld32 (mem t) (mbi + 20) = ?n" if "console_step s t" for t
    using boot_info_word [OF i, of "mem t" 20] that by (simp add: console_step_def)
  { case 0
    then have "of_nat k = ?n" by (simp add: le_antisym)
    then show ?case using 0 nz cnt [OF "0.prems"(1)] by (subst print_mods.simps) simp
  next
    case (Suc j)
    have k: "k < unat ?n" using Suc.hyps(2) by simp
    have ok: "mods_ok (mem s) screen ?md (unat ?n)" using i f by (simp add: boot_info_def)
    have e: "eq_out screen (mem s) (mem t)" using Suc.prems(1) by (simp add: console_step_def)
    let ?m = "?md + of_nat (16 * k)"
    have md: "?md \<noteq> 0" "unat ?md + 16 * unat ?n \<le> two32" using ok k by (auto simp: mods_ok_def)
    then have u: "unat ?m = unat ?md + 16 * k" using unat_plus_of_nat [of ?md "16 * k"] k by simp
    then have m0: "?m \<noteq> 0" using md(1) by (metis add_is_0 unat_0 unat_eq_zero)
    have "str_ok (mem t) screen (ld32 (mem t) (?m + 8))"
      using mods_ok_frame [OF ok e] k by (auto simp: mods_ok_def add.assoc)
    then have "printable (mem t) (chars ('' mod_start = 0x%x, mod_end = 0x%x, cmdline = %s'' @ nl))
        [Word (ld32 (mem t) ?m), Word (ld32 (mem t) (?m + 4)), Word (ld32 (mem t) (?m + 8))]"
      unfolding string_formats using str_ok_clear by blast
    from print_shown [OF Suc.prems(1) this] obtain t1 where
      t1: "print_words ('' mod_start = 0x%x, mod_end = 0x%x, cmdline = %s'' @ nl) ?m [0, 4, 8] t = Some t1" "console_step s t1"
      using m0 by (auto simp: print_words_def)
    have "\<exists>t'. print_mods mbi (?md + of_nat (16 * Suc k)) (of_nat (Suc k)) t1 = Some t' \<and> console_step s t'"
      by (rule Suc.hyps(1)) (use Suc.hyps(2) t1(2) k in auto)
    moreover have "?md + of_nat (16 * Suc k) = ?m + 16" "(of_nat (Suc k) :: u32) = of_nat k + 1" by simp_all
    ultimately have "\<exists>t'. print_mods mbi (?m + 16) (of_nat k + 1) t1 = Some t' \<and> console_step s t'" by (simp only:)
    moreover have "(of_nat k :: u32) < ?n" using of_nat_less_fit [of k "unat ?n"] k unsigned_less [of ?n] by simp
    ultimately show ?case using t1(1) nz cnt [OF Suc.prems(1)] by (subst print_mods.simps) simp }
qed

text \<open>The three parts of the report that follow pointers.\<close>

definition report_mods :: "addr \<Rightarrow> 'a tty_scheme \<Rightarrow> 'a tty_scheme option" where
  "report_mods mbi s = do {
     s' \<leftarrow> print_words (''mods_count = %d, mods_addr = 0x%x'' @ nl) mbi [mb_mods_count, mb_mods_addr] s;
     md \<leftarrow> rd32 (mem s') mbi mb_mods_addr;
     print_mods mbi md 0 s' }"

definition report_mmap :: "addr \<Rightarrow> 'a tty_scheme \<Rightarrow> 'a tty_scheme option" where
  "report_mmap mbi s = do {
     s' \<leftarrow> print_words (''mmap_addr = 0x%x, mmap_length = 0x%x'' @ nl) mbi [mb_mmap_addr, mb_mmap_length] s;
     a \<leftarrow> rd32 (mem s') mbi mb_mmap_addr;
     print_mmap mbi a s' }"

lemma cmdline_more:
  assumes i: "boot_info (mem s) mbi pos es screen" and t: "console_step s t" "ld32 (mem t) mbi AND 4 \<noteq> 0"
  shows "\<exists>t'. print_words (''cmdline = %s'' @ nl) mbi [mb_cmdline] t = Some t' \<and> console_step s t'"
proof -
  have "mbi \<noteq> 0" "str_ok (mem t) screen (ld32 (mem t) (mbi + 16))"
    using boot_info_frame [OF i, of "mem t"] t by (simp_all add: boot_info_def console_step_def)
  moreover from this have "printable (mem t) (chars (''cmdline = %s'' @ nl)) [Word (ld32 (mem t) (mbi + 16))]"
    unfolding string_formats using str_ok_clear by blast
  from print_shown [OF t(1) this] calculation show ?thesis by (simp add: print_words_def)
qed

lemma report_mods_more:
  assumes i: "boot_info (mem s) mbi pos es screen" and t: "console_step s t" "ld32 (mem t) mbi AND 8 \<noteq> 0"
  shows "\<exists>t'. report_mods mbi t = Some t' \<and> console_step s t'"
proof -
  have nz: "mbi \<noteq> 0" using i by (simp add: boot_info_def)
  have f: "ld32 (mem s) mbi AND 8 \<noteq> 0" using t boot_info_word [OF i, of "mem t" 0] by (simp add: console_step_def)
  obtain t' where t': "print_words (''mods_count = %d, mods_addr = 0x%x'' @ nl) mbi [20, 24] t = Some t'" "console_step s t'"
    using print_words_more [OF t(1) nz num_convs_ok [OF flagscheck_formats(8)], of "[20, 24]"] by auto
  have "ld32 (mem t') (mbi + 24) = ld32 (mem s) (mbi + 24)"
    using boot_info_word [OF i, of "mem t'" 24] t'(2) by (simp add: console_step_def)
  then show ?thesis using t' nz print_mods_more [OF i f t'(2), of 0] by (auto simp: report_mods_def)
qed

lemma report_mmap_more:
  assumes i: "boot_info (mem s) mbi pos es screen" and t: "console_step s t"
  shows "\<exists>t'. report_mmap mbi t = Some t' \<and> console_step s t'"
proof -
  have nz: "mbi \<noteq> 0" using i by (simp add: boot_info_def)
  obtain t' where t': "print_words (''mmap_addr = 0x%x, mmap_length = 0x%x'' @ nl) mbi [48, 44] t = Some t'" "console_step s t'"
    using print_words_more [OF t nz num_convs_ok [OF flagscheck_formats(6)], of "[48, 44]"] by auto
  have "ld32 (mem t') (mbi + 48) = of_nat pos"
    using boot_info_frame [OF i, of "mem t'"] t'(2) by (auto simp: boot_info_def console_step_def)
  moreover have "\<exists>t''. print_mmap mbi (of_nat pos) t' = Some t'' \<and> console_step s t''"
    using i by (intro print_mmap_more [OF i t'(2), of pos es]) (auto simp: boot_info_def)
  ultimately show ?thesis using t' nz by (auto simp: report_mmap_def)
qed

lemma flagscheck_returns:
  assumes i: "boot_info (mem s) mbi pos es screen" and ok: "tty_ok s"
  shows "\<exists>t. multiboot_flagscheck mbi s = Some t \<and> console_step s t"
proof -
  have nz: "mbi \<noteq> 0" using i by (simp add: boot_info_def)
  have report: "\<exists>t'. guarded (check_flag mbi n t) f t = Some t' \<and> console_step s t'"
    if "console_step s t" "ld32 (mem t) mbi AND push_bit n 1 \<noteq> 0 \<Longrightarrow> \<exists>t'. f t = Some t' \<and> console_step s t'" for t n f
    by (rule guarded_more [OF check_flag_value [OF nz] ok that(1)]) (rule that(2))
  have words: "\<exists>t'. guarded (check_flag mbi n t) (print_words format mbi offs) t = Some t' \<and> console_step s t'"
    if "console_step s t" "num_convs (chars format) = Some k" "k = length offs" for t n format offs k
    by (rule report [OF that(1)]) (rule print_words_more [OF that(1) nz num_convs_ok [OF that(2)]], simp add: that(3))
  obtain t0 where t0: "print_words (''flags = 0x%x'' @ nl) mbi [0] s = Some t0" "console_step s t0"
    using print_words_more [OF console_step_refl [OF ok] nz num_convs_ok [OF flagscheck_formats(1)], of "[0]"] by auto
  obtain t1 where t1: "guarded (check_flag mbi 0 t0)
      (print_words (''Total System Memory: Lower = %uKB, Upper = %uKB'' @ nl) mbi [4, 8]) t0 = Some t1" "console_step s t1"
    using words [OF t0(2) flagscheck_formats(2), of "[4, 8]" 0] by auto
  obtain t2 where t2: "guarded (check_flag mbi 1 t1) (print_words (''boot_device = 0x%x'' @ nl) mbi [12]) t1 = Some t2"
      "console_step s t2"
    using words [OF t1(2) flagscheck_formats(3), of "[12]" 1] by auto
  obtain t3 where t3: "guarded (check_flag mbi 2 t2) (print_words (''cmdline = %s'' @ nl) mbi [16]) t2 = Some t3" "console_step s t3"
    using report [OF t2(2), of 2] cmdline_more [OF i t2(2)] by auto
  obtain t4 where t4: "guarded (check_flag mbi 3 t3) (report_mods mbi) t3 = Some t4" "console_step s t4"
    using report [OF t3(2), of 3] report_mods_more [OF i t3(2)] by auto
  obtain t5 where t5: "guarded (check_flag mbi 4 t4)
      (print_words (''multiboot_aout_symbol_table: tabsize = 0x%0x, strsize = 0x%x, addr = 0x%x'' @ nl) mbi [28, 32, 36]) t4 =
      Some t5" "console_step s t5"
    using words [OF t4(2) flagscheck_formats(4), of "[28, 32, 36]" 4] by auto
  obtain t6 where t6: "guarded (check_flag mbi 5 t5)
      (print_words (''multiboot_elf_sec: num = %u, size = 0x%x, addr = 0x%x, shndx = 0x%x'' @ nl) mbi [28, 32, 36, 40]) t5 =
      Some t6" "console_step s t6"
    using words [OF t5(2) flagscheck_formats(5), of "[28, 32, 36, 40]" 5] by auto
  obtain t8 where t8: "guarded (check_flag mbi 6 t6) (report_mmap mbi) t6 = Some t8" "console_step s t8"
    using report [OF t6(2), of 6] report_mmap_more [OF i t6(2)] by auto
  obtain t9 where t9: "printf (''Both bits 4 and 5 are set.'' @ nl) [] t4 = Some t9" "console_step s t9"
    using print_more [OF t4(2), of "''Both bits 4 and 5 are set.'' @ nl" "[]"] by (auto simp: chars_def nl_def)
  show ?thesis
    using t0 t1 t2 t3 t4 t5 t6 t8 t9 nz unfolding report_mods_def report_mmap_def
    by (simp add: multiboot_flagscheck_def check_flag_value)
qed


section \<open>The first tasks\<close>

text \<open>\<open>init_sched\<close> creates the idle task; its queues are empty.\<close>

lemma init_sched_inv:
  assumes rep: "heap_rep s bs" and fit: "\<exists>b \<in> set bs. fits (112 + 16 + 0x100) b"
    and zero: "runq_head s = 0" "waitq_head s = 0" "doneq_head s = 0" "thread_count s = 0"
  shows "\<exists>s'. init_sched s = Some s' \<and> sys_at s' [] [] [] K {idle_task s'} \<and>
     heap_rep s' (alloc_blks 0x100 (alloc_blks 112 bs)) \<and> global_sched_lock s' = 1 \<and>
     eq_out (zone (unat (store_global_head s)) (span bs)) (mem s) (mem s') \<and>
     s' = s\<lparr>mem := mem s', idle_task := idle_task s', global_sched_lock := 1\<rparr>"
proof -
  let ?b = "unat (store_global_head s)"
  have fit1: "\<exists>b \<in> set bs. fits 112 b" using fit by (auto simp: fits_def)
  obtain t m1 rs1 rs2 k where km1: "kmalloc 112 s = Some (t, s\<lparr>mem := m1\<rparr>)"
    and rep1: "heap_rep (s\<lparr>mem := m1\<rparr>) (alloc_blks 112 bs)" and k: "112 \<le> k"
    and l1: "live ?b (alloc_blks 112 bs) = rs1 @ (unat t, k) # rs2"
    and z1: "eq_out (zone ?b (span bs)) (mem s) m1"
    using kmalloc_room [OF rep _ fit1] by auto
  let ?l1 = "rs1 @ (unat t, k) # rs2"
  have "heap_owns (s\<lparr>mem := m1\<rparr>) ?l1" using heap_rep_owns [OF rep1] l1 by simp
  then have "owned (s\<lparr>mem := m1\<rparr>) {t}" unfolding owned_def using k by (intro exI [of _ ?l1]) auto
  then have sep: "tsep {t}" by (rule owned_tsep)
  then have ok: "task_ok t" "t \<noteq> 0" by (auto simp: tsep_def task_ok_def)
  define m2 where "m2 = st32 (st32 (st32 m1 (t + 36) NEW) (t + 8) (do_idle_ptr s)) (t + 12) 0"
  have e2: "eq_out (bodies {t}) m1 m2"
    unfolding m2_def by (intro eq_out_body eq_out_refl) (use ok in auto)
  have pay1: "bodies {t} \<subseteq> payload ?l1" by (rule bodies_one_payload [OF k]) simp
  have rep2: "heap_rep (s\<lparr>mem := m2\<rparr>) (alloc_blks 112 bs)"
    using heap_rep_payload [OF rep1, of m2] eq_out_mono [OF e2 pay1] l1 by simp
  have fit2: "\<exists>b \<in> set (alloc_blks 112 bs). fits 0x100 b" by (rule fits_after_alloc [OF fit]) simp
  obtain stk m3 us1 us2 k3 where km2: "kmalloc 0x100 (s\<lparr>mem := m2\<rparr>) = Some (stk, s\<lparr>mem := m3\<rparr>)"
    and rep3: "heap_rep (s\<lparr>mem := m3\<rparr>) (alloc_blks 0x100 (alloc_blks 112 bs))"
    and l3: "?l1 = us1 @ us2" "live ?b (alloc_blks 0x100 (alloc_blks 112 bs)) = us1 @ (unat stk, k3) # us2" "0x100 \<le> k3"
    and u3: "untouched ?l1 m2 m3" and z3: "eq_out (zone ?b (span bs)) m2 m3"
    using kmalloc_room [OF rep2 _ fit2] l1 by auto
  let ?l3 = "us1 @ (unat stk, k3) # us2"
  define m5 where "m5 = st32 (st32 m3 (t + 4) stk) t (stk + 0x100 - 1)"
  define s' where "s' = s\<lparr>mem := m5, idle_task := t, global_sched_lock := 1\<rparr>"
  have run: "init_sched s = Some s'"
    using km1 km2 ok by (simp add: init_sched_def sizeof_task_def m2_def m5_def s'_def kthread_mutex_init_def)
  have e5: "eq_out (bodies {t}) m3 m5"
    unfolding m5_def using eq_out_body [of "{t}" m3 "st32 m3 (t + 4) stk" t 0] ok by (simp add: eq_out_body)
  have "(unat t, k) \<in> set ?l3" using l3(1) by (metis Un_iff in_set_conv_decomp set_append set_ConsD list.set_intros(2))
  then have pay3: "bodies {t} \<subseteq> payload ?l3" by (rule bodies_one_payload [OF k])
  have rep5: "heap_rep (s\<lparr>mem := m5\<rparr>) (alloc_blks 0x100 (alloc_blks 112 bs))"
    using heap_rep_payload [OF rep3, of m5] eq_out_mono [OF e5 pay3] l3(2) by simp
  then have rep': "heap_rep s' (alloc_blks 0x100 (alloc_blks 112 bs))" by (simp add: heap_rep_def s'_def)
  have own': "heap_owns s' ?l3" using heap_rep_owns [OF rep'] l3(2) by (simp add: s'_def)
  then have "owned s' {t}" unfolding owned_def using \<open>(unat t, k) \<in> set ?l3\<close> k by (intro exI [of _ ?l3]) blast
  then have inv: "sched_inv s' [] [] []"
    using zero by (simp add: sched_inv_def tasks_def queues_def ring_def cyc_def statuses_def s'_def)
  have "ld32 m3 (t + 36) = ld32 m2 (t + 36)"
    by (rule kept_bodies [OF untouched_bodies [OF u3, of "{t}"]]) (use k ok in auto)
  then have f: "ld32 m5 t = stk + 0x100 - 1" "ld32 m5 (t + 4) = stk" "ld32 m5 (t + 36) = NEW"
    using task_fld [OF sep, of t t 0 4] task_fld [OF sep, of t t 0 36]
    by (simp_all add: m5_def m2_def task_fld [OF sep])
  have "unat stk \<noteq> unat t"
  proof
    assume "unat stk = unat t"
    moreover have "(unat t, k) \<in> set us1 \<or> (unat t, k) \<in> set us2" using l3(1) by (metis Un_iff in_set_conv_decomp set_append)
    ultimately show False using kheap.owns_apart [OF own'] by (auto simp: sorted_wrt_append)
  qed
  then have "holds s' {t} {t} ?l3"
    using own' k \<open>(unat t, k) \<in> set ?l3\<close> l3(3) f by (auto simp: holds_def stack_lo_def stack_size_def s'_def)
  moreover have "ctx_ok s' K t" using f by (simp add: ctx_ok_def s'_def stack_lo_def stack_size_def)
  ultimately have at: "sys_at s' [] [] [] K {idle_task s'}" using inv by (auto simp: sys_at_def tasks_def s'_def)
  have "bodies {t} \<subseteq> zone ?b (span bs)"
    using pay1 payload_zone [of ?b "alloc_blks 112 bs"] l1 by auto
  then have "eq_out (zone ?b (span bs)) (mem s) m5"
    by (intro eq_out_trans [OF eq_out_trans [OF z1 eq_out_mono [OF e2]] eq_out_trans [OF z3 eq_out_mono [OF e5]]])
  with run at rep' show ?thesis by (intro exI [of _ s']) (simp add: s'_def)
qed


section \<open>Frames\<close>

text \<open>Writes outside the heap leave the scheduler's tasks alone.\<close>

lemma sched_outside:
  assumes inv: "sched_inv s rq wq dq" and rep: "heap_rep s bs" and out: "zone (unat (store_global_head s)) (span bs) \<inter> A = {}"
    and eq: "eq_out A (mem s) (mem t)"
    and same: "store_global_head t = store_global_head s" "runq_head t = runq_head s" "waitq_head t = waitq_head s"
      "doneq_head t = doneq_head s" "idle_task t = idle_task s" "thread_count t = thread_count s"
  shows "sched_inv t rq wq dq"
proof -
  let ?T = "tasks s rq wq dq" and ?l = "live (unat (store_global_head s)) bs"
  have own: "owned s ?T" using inv by (simp add: sched_inv_def)
  have T: "\<forall>x \<in> ?T. \<exists>k. 112 \<le> k \<and> (unat x, k) \<in> set ?l" using owned_live [OF own rep] by blast
  have "heap_owns t ?l" using heap_rep_owns [OF heap_outside [OF rep out eq same(1)]] same(1) by simp
  then have "owned t ?T" unfolding owned_def using T by blast
  moreover have "bodies ?T \<subseteq> zone (unat (store_global_head s)) (span bs)"
    using bodies_payload [OF T] payload_zone by blast
  then have "eq_out (- bodies ?T) (mem s) (mem t)" using eq_out_mono [OF eq] out by blast
  ultimately show ?thesis using same by (intro sched_inv_outside [OF inv])
qed

lemma sys_outside:
  assumes at: "sys_at s rq wq dq K X" and rep: "heap_rep s bs" and out: "zone (unat (store_global_head s)) (span bs) \<inter> A = {}"
    and eq: "eq_out A (mem s) (mem t)"
    and same: "store_global_head t = store_global_head s" "runq_head t = runq_head s" "waitq_head t = waitq_head s"
      "doneq_head t = doneq_head s" "idle_task t = idle_task s" "thread_count t = thread_count s"
  shows "sys_at t rq wq dq K X"
proof -
  let ?T = "tasks s rq wq dq" and ?A = "threads s rq wq" and ?l = "live (unat (store_global_head s)) bs"
  obtain rs where inv: "sched_inv s rq wq dq" and h: "holds s ?T ?A rs" and X: "X \<subseteq> ?A" "\<forall>x \<in> X. ctx_ok s K x"
    using at by (auto simp: sys_at_def)
  have rs: "rs = ?l" using heap_owns_live [OF rep] h by (simp add: holds_def)
  have z: "payload rs \<inter> A = {}" using payload_zone [of "unat (store_global_head s)" bs] out rs by blast
  have bT: "bodies ?T \<subseteq> payload rs" by (rule bodies_payload) (use h in \<open>simp add: holds_def\<close>)
  then have "eq_out (- bodies ?T) (mem s) (mem t)" using z by (intro eq_out_mono [OF eq]) blast
  then have f: "ld32 (mem t) (x + i) = ld32 (mem s) (x + i)" if "x \<in> ?T" "tfield i" for x i
    by (rule kept_bodies [OF _ that(1) _ that(2)]) (use sys_at_tsep [OF at] that in \<open>simp add: tsep_def\<close>)
  have A: "x \<in> ?T" if "x \<in> ?A" for x using that threads_tasks by blast
  have T': "tasks t rq wq dq = ?T" "threads t rq wq = ?A" using same by (simp_all add: tasks_def)
  have "heap_owns t rs" using heap_rep_owns [OF heap_outside [OF rep out eq same(1)]] same(1) rs by simp
  moreover have lo: "stack_lo (mem t) x = stack_lo (mem s) x" if "x \<in> ?A" for x using f [OF A [OF that], of 4] by (simp add: stack_lo_def)
  moreover have "stack_size t x = stack_size s x" for x using same by (simp add: stack_size_def)
  moreover have "inj_on (stack_lo (mem t)) ?A = inj_on (stack_lo (mem s)) ?A" using lo by (rule inj_on_cong)
  ultimately have "holds t ?T ?A rs" using h by (simp add: holds_def)
  moreover have "ctx_ok t K x" if x: "x \<in> X" for x
  proof (rule ctx_frame [OF bspec [OF X(2) x] eq])
    have xA: "x \<in> ?A" using x X(1) by blast
    show "stack_zone s x \<inter> A = {}" using holds_stack(3) [OF h xA] z by blast
    show "stack_lo (mem s) x + stack_size s x \<le> two32" using holds_stack(1) [OF h xA] by simp
    show "ld32 (mem t) x = ld32 (mem s) x" "ld32 (mem t) (x + 4) = ld32 (mem s) (x + 4)"
      "(ld32 (mem t) (x + 36) = NEW) = (ld32 (mem s) (x + 36) = NEW)"
      using f [OF A [OF xA], of 0] f [OF A [OF xA], of 4] f [OF A [OF xA], of 36] by simp_all
  qed (use same in simp_all)
  moreover have "sched_inv t rq wq dq" by (rule sched_outside [OF inv rep out eq same])
  ultimately show ?thesis using X(1) T' by (auto simp: sys_at_def)
qed

lemma gates_outside:
  assumes "eq_out A m m'" and "region idt 2048 \<inter> A = {}" and "unat idt + 2048 \<le> two32" and "n < 256"
  shows "gate_at m' (idt + of_nat (8 * n)) = gate_at m (idt + of_nat (8 * n))"
proof -
  have w: "ld32 m' (idt + of_nat i) = ld32 m (idt + of_nat i)" if "i + 4 \<le> 2048" for i
  proof (rule eq_out_ld32 [OF assms(1)])
    have u: "unat (idt + of_nat i) = unat idt + i" using assms(3) that by simp
    then show "unat (idt + of_nat i) + 4 \<le> two32" using assms(3) that by simp
    have "region (idt + of_nat i) 4 \<subseteq> region idt 2048" using u that by (auto simp: region_def)
    with assms(2) show "region (idt + of_nat i) 4 \<inter> A = {}" by blast
  qed
  show ?thesis using w [of "8 * n"] w [of "8 * n + 4"] assms(4) by (simp add: gate_at_def algebra_simps)
qed

text \<open>What a message, and clearing the screen, keep of the kernel's state.\<close>

definition screen_only :: "'a kern_scheme \<Rightarrow> 'a kern_scheme \<Rightarrow> bool" where
  "screen_only s t \<longleftrightarrow> tty_ok t \<and> eq_out screen (mem s) (mem t) \<and>
     t = s\<lparr>mem := mem t, ATTRIBUTE := ATTRIBUTE t, xpos := xpos t, ypos := ypos t, video := VIDEO\<rparr>"

lemma screen_only_fields:
  assumes "screen_only s t"
  shows "tty_ok t" "eq_out screen (mem s) (mem t)" "IDT t = IDT s" "ports t = ports s" "loaded_idt t = loaded_idt s"
    "store_global_head t = store_global_head s" "runq_head t = runq_head s" "waitq_head t = waitq_head s"
    "doneq_head t = doneq_head s" "idle_task t = idle_task s" "current_task t = current_task s"
    "thread_count t = thread_count s" "global_sched_lock t = global_sched_lock s"
proof -
  have e: "t = s\<lparr>mem := mem t, ATTRIBUTE := ATTRIBUTE t, xpos := xpos t, ypos := ypos t, video := VIDEO\<rparr>"
    using assms by (simp add: screen_only_def)
  show "tty_ok t" "eq_out screen (mem s) (mem t)" using assms by (simp_all add: screen_only_def)
  show "IDT t = IDT s" "ports t = ports s" "loaded_idt t = loaded_idt s"
    "store_global_head t = store_global_head s" "runq_head t = runq_head s" "waitq_head t = waitq_head s"
    "doneq_head t = doneq_head s" "idle_task t = idle_task s" "current_task t = current_task s"
    "thread_count t = thread_count s" "global_sched_lock t = global_sched_lock s" by (subst e, simp)+
qed

lemma screen_only_trans:
  assumes "screen_only s t" and "screen_only t u"
  shows "screen_only s u"
proof -
  have "u = s\<lparr>mem := mem u, ATTRIBUTE := ATTRIBUTE u, xpos := xpos u, ypos := ypos u, video := VIDEO\<rparr>"
    using assms unfolding screen_only_def by (cases s, cases t, cases u) simp
  with assms show ?thesis by (auto simp: screen_only_def intro: eq_out_trans)
qed

lemma console_screen_only: "console_step s t \<Longrightarrow> tty_ok s \<Longrightarrow> screen_only s t"
  unfolding console_step_def screen_only_def by (cases s, cases t) (simp add: tty_ok_def)

lemma cls_screen_only: "\<exists>t. cls s = Some t \<and> screen_only s t"
proof -
  obtain t where t: "cls s = Some t" "tty_ok t" "\<forall>a. mem t a = (if a \<in> screen then 0 else mem s a)"
    "t = s\<lparr>mem := mem t, video := VIDEO, xpos := 0, ypos := 0\<rparr>" using cls_screen [of s] by blast
  have "eq_out screen (mem s) (mem t)" using t(3) by (simp add: eq_out_def)
  moreover have "t = s\<lparr>mem := mem t, ATTRIBUTE := ATTRIBUTE t, xpos := xpos t, ypos := ypos t, video := VIDEO\<rparr>"
    using t(4) by (cases s, cases t) simp
  ultimately show ?thesis using t(1,2) by (auto simp: screen_only_def)
qed

lemma say:
  assumes "tty_ok s" and "num_convs (chars msg) = Some 0"
  shows "\<exists>t. printf msg [] s = Some t \<and> screen_only s t"
  using printf_returns [OF _ assms(1), of msg "[]"] num_convs_ok [OF assms(2), of "[]"] assms(1)
    console_screen_only by fastforce


section \<open>The phases of the boot\<close>

lemma messages:
  "num_convs (chars ''IDT setup ... '') = Some 0" "num_convs (chars (''done.'' @ nl)) = Some 0"
  "num_convs (chars ''PIT init ... '') = Some 0" "num_convs (chars ''PIC init ... '') = Some 0"
  "num_convs (chars ''kernel malloc init ... '') = Some 0" "num_convs (chars ''sched init ... '') = Some 0"
  "fmt_ok (chars (COLOR_RESET @ ''Multiboot flags check done.'' @ nl)) []"
  by code_simp+

text \<open>The tables of interrupt gates that \<open>init_idt\<close> builds at \<open>idt\<close>.\<close>

definition idt_ready :: "(isr \<Rightarrow> addr) \<Rightarrow> addr \<Rightarrow> mem \<Rightarrow> bool" where
  "idt_ready entry idt m \<longleftrightarrow> (\<forall>n < 256. gate_at m (idt + of_nat (8 * n)) =
     (case map_of idt_gates n of None \<Rightarrow> (0, 0, 0) | Some (ty, dpl, f) \<Rightarrow> (entry f, 8, gate_attr ty dpl)))"

lemma idt_ready_frame:
  assumes "idt_ready entry idt m" and "eq_out A m m'" and "region idt 2048 \<inter> A = {}" and "unat idt + 2048 \<le> two32"
  shows "idt_ready entry idt m'"
  using assms gates_outside [OF assms(2-4)] by (simp add: idt_ready_def)

lemma ports_only:
  "init_pit s = s\<lparr>ports := ports (init_pit s)\<rparr>" "init_pic dev s = s\<lparr>ports := ports (init_pic dev s)\<rparr>"
proof -
  have o: "outb p v s = s\<lparr>ports := ports (outb p v s)\<rparr>" for p v and s :: "'b machine_scheme" by (simp add: outb_def)
  have m: "irq_mask dev l s = s\<lparr>ports := ports (irq_mask dev l s)\<rparr>" for l and s :: "'b machine_scheme"
    by (simp add: irq_mask_def outb_def split: prod.splits)
  have f: "fold (\<lambda>i. irq_mask dev (of_nat i)) is s = s\<lparr>ports := ports (fold (\<lambda>i. irq_mask dev (of_nat i)) is s)\<rparr>"
    for "is" and s :: "'b machine_scheme"
  proof (induction "is" arbitrary: s)
    case (Cons i "is")
    show ?case using Cons.IH [of "irq_mask dev (of_nat i) s"] m [of "of_nat i" s] by (metis (no_types, lifting) fold_simps(2) machine.update_convs(2) machine.surjective)
  qed simp
  show "init_pit s = s\<lparr>ports := ports (init_pit s)\<rparr>" by (simp add: init_pit_def outb_def)
  show "init_pic dev s = s\<lparr>ports := ports (init_pic dev s)\<rparr>"
    unfolding init_pic_def by (subst f) (simp add: outb_def)
qed


text \<open>
  From the loader's call to the start of the allocator: the report is printed, the interrupt table
  is built and loaded, timer and controllers are programmed.
\<close>

definition boot_devices ::
  "device \<Rightarrow> (isr \<Rightarrow> addr) \<Rightarrow> addr \<Rightarrow> 'a kern_scheme \<Rightarrow> 'a kern_scheme option" where
  "boot_devices dev entry mbi s = do {
     s0 \<leftarrow> cls s;
     s1 \<leftarrow> multiboot_flagscheck mbi s0;
     s2 \<leftarrow> cls s1;
     s3 \<leftarrow> printf (COLOR_RESET @ ''Multiboot flags check done.'' @ nl) [] s2;
     s4 \<leftarrow> printf ''IDT setup ... '' [] s3;
     s5 \<leftarrow> init_idt entry s4;
     s6 \<leftarrow> printf (''done.'' @ nl) [] s5;
     s7 \<leftarrow> printf ''PIT init ... '' [] s6;
     s8 \<leftarrow> printf (''done.'' @ nl) [] (init_pit s7);
     s9 \<leftarrow> printf ''PIC init ... '' [] s8;
     s10 \<leftarrow> printf (''done.'' @ nl) [] (init_pic dev s9);
     printf ''kernel malloc init ... '' [] s10 }"

lemma kmain_phases:
  "kmain dev entry init_fn MULTIBOOT_BOOTLOADER_MAGIC mbi s = do {
     s11 \<leftarrow> boot_devices dev entry mbi s;
     s12 \<leftarrow> init_kmalloc mbi s11;
     s13 \<leftarrow> printf (''done.'' @ nl) [] s12;
     s14 \<leftarrow> printf ''sched init ... '' [] s13;
     s15 \<leftarrow> init_sched s14;
     s16 \<leftarrow> printf (''done.'' @ nl) [] s15;
     (tid, s17) \<leftarrow> sched_register_thread init_fn 0 s16;
     Some (Started, sti s17) }"
  by (simp add: kmain_def boot_devices_def del: append.simps)

lemma say_two:
  assumes "tty_ok s" and "num_convs (chars a) = Some 0" and "num_convs (chars b) = Some 0"
  shows "\<exists>t u. printf a [] s = Some t \<and> printf b [] t = Some u \<and> screen_only s u"
proof -
  obtain t where t: "printf a [] s = Some t" "screen_only s t" using say [OF assms(1,2)] by blast
  obtain u where "printf b [] t = Some u" "screen_only t u"
    using say [OF screen_only_fields(1) [OF t(2)] assms(3)] by blast
  with t show ?thesis using screen_only_trans by blast
qed

lemma boot_devices_ready:
  assumes info: "boot_info (mem s) mbi pos es (screen \<union> region (IDT s) 2048)"
    and idt: "IDT s \<noteq> 0" "unat (IDT s) + 2048 \<le> two32" "region (IDT s) 2048 \<inter> screen = {}" and dev: "pic_8259 dev"
  shows "\<exists>t. boot_devices dev entry mbi s = Some t \<and> tty_ok t \<and> eq_out (screen \<union> region (IDT s) 2048) (mem s) (mem t) \<and>
     idt_ready entry (IDT s) (mem t) \<and> imr dev t = 0xFFFE \<and>
     t = s\<lparr>mem := mem t, ports := ports t, ATTRIBUTE := ATTRIBUTE t, xpos := xpos t, ypos := ypos t, video := VIDEO,
       idtr_limit := 0x7FF, idtr_base := IDT s, loaded_idt := (0x7FF, IDT s)\<rparr>"
proof -
  obtain s0 where s0: "cls s = Some s0" "screen_only s s0" using cls_screen_only by blast
  note f0 = screen_only_fields [OF s0(2)]
  have "boot_info (mem s0) mbi pos es screen"
    by (rule boot_info_frame [OF boot_info_mono [OF info] f0(2)]) simp
  then obtain s1 where s1: "multiboot_flagscheck mbi s0 = Some s1" "screen_only s0 s1"
    using flagscheck_returns f0(1) console_screen_only by blast
  obtain s2 where s2: "cls s1 = Some s2" "screen_only s1 s2" using cls_screen_only by blast
  obtain s3 where s3: "printf (COLOR_RESET @ ''Multiboot flags check done.'' @ nl) [] s2 = Some s3" "screen_only s2 s3"
    using printf_returns [OF messages(7)] screen_only_fields(1) [OF s2(2)] console_screen_only by metis
  obtain s4 where s4: "printf ''IDT setup ... '' [] s3 = Some s4" "screen_only s3 s4"
    using say [OF screen_only_fields(1) [OF s3(2)] messages(1)] by blast
  have so4: "screen_only s s4" using s0(2) s1(2) s2(2) s3(2) s4(2) screen_only_trans by blast
  note f4 = screen_only_fields [OF so4]
  obtain s5 where s5: "init_idt entry s4 = Some s5" "eq_out (region (IDT s) 2048) (mem s4) (mem s5)"
    "idt_ready entry (IDT s) (mem s5)"
    "s5 = s4\<lparr>mem := mem s5, idtr_limit := 0x7FF, idtr_base := IDT s, loaded_idt := (0x7FF, IDT s)\<rparr>"
    using init_idt_gates [of s4 entry] idt(1,2) f4(3) by (auto simp: idt_ready_def)
  have t5: "tty_ok s5" using f4(1) by (subst s5(4)) (simp add: tty_ok_def)
  obtain s6 s7 where s7: "printf (''done.'' @ nl) [] s5 = Some s6" "printf ''PIT init ... '' [] s6 = Some s7"
    "screen_only s5 s7" using say_two [OF t5 messages(2,3)] by blast
  note f7 = screen_only_fields [OF s7(3)]
  have t7: "tty_ok (init_pit s7)" using f7(1) by (subst ports_only(1)) (simp add: tty_ok_def)
  obtain s8 s9 where s9: "printf (''done.'' @ nl) [] (init_pit s7) = Some s8" "printf ''PIC init ... '' [] s8 = Some s9"
    "screen_only (init_pit s7) s9" using say_two [OF t7 messages(2,4)] by blast
  note f9 = screen_only_fields [OF s9(3)]
  have t9: "tty_ok (init_pic dev s9)" using f9(1) by (subst ports_only(2)) (simp add: tty_ok_def)
  obtain s10 t where s11: "printf (''done.'' @ nl) [] (init_pic dev s9) = Some s10"
    "printf ''kernel malloc init ... '' [] s10 = Some t" "screen_only (init_pic dev s9) t"
    using say_two [OF t9 messages(2,5)] by blast
  note f11 = screen_only_fields [OF s11(3)]
  have run: "boot_devices dev entry mbi s = Some t"
    using s0(1) s1(1) s2(1) s3(1) s4(1) s5(1) s7(1,2) s9(1,2) s11(1,2)
    by (simp add: boot_devices_def del: append.simps)
  have m: "mem (init_pit s7) = mem s7" "mem (init_pic dev s9) = mem s9"
    by (subst ports_only(1), simp) (subst ports_only(2), simp)
  have e: "eq_out screen (mem s5) (mem t)"
    using eq_out_trans [OF eq_out_trans [OF f7(2)]] f9(2) f11(2) m by simp
  have eq: "eq_out (screen \<union> region (IDT s) 2048) (mem s) (mem t)"
    by (rule eq_out_trans [OF eq_out_trans [OF eq_out_mono [OF f4(2)] eq_out_mono [OF s5(2)]] eq_out_mono [OF e]]) auto
  have gates: "idt_ready entry (IDT s) (mem t)" using idt_ready_frame [OF s5(3) e idt(3,2)] .
  have "imr dev t = imr dev (init_pic dev s9)" using f11(4) by (simp add: imr_def inb_def)
  then have imr: "imr dev t = 0xFFFE" using init_pic_imr(1) [OF dev] by simp
  have "t = s\<lparr>mem := mem t, ports := ports t, ATTRIBUTE := ATTRIBUTE t, xpos := xpos t, ypos := ypos t, video := VIDEO,
       idtr_limit := 0x7FF, idtr_base := IDT s, loaded_idt := (0x7FF, IDT s)\<rparr>"
    using so4 s5(4) s7(3) s9(3) s11(3) ports_only(1) [of s7] ports_only(2) [of dev s9]
    unfolding screen_only_def
    by (cases s, cases s4, cases s5, cases s7, cases s9, cases t, cases "init_pit s7", cases "init_pic dev s9") simp
  with run f11(1) eq gates imr show ?thesis by blast
qed


text \<open>From a started allocator to the first thread.\<close>

lemma alloc_one_block:
  assumes "n + 33 \<le> sz"
  shows "alloc_blks n [(sz, True)] = [(n, False), (sz - n - 16, True)]"
  using assms by (simp add: fits_def carve_def)

lemma boot_threads:
  fixes s :: "'a kern_scheme"
  assumes rep: "heap_rep s [(sz, True)]" and room: "0x2300 \<le> sz"
    and out: "zone (unat (store_global_head s)) (sz + 16) \<inter> screen = {}" and tty: "tty_ok s"
    and zero: "runq_head s = 0" "waitq_head s = 0" "doneq_head s = 0" "thread_count s = 0" "current_task s = 0"
  shows "\<exists>u v s14 s15 s16 s17 t. printf (''done.'' @ nl) [] s = Some u \<and> printf ''sched init ... '' [] u = Some s14 \<and>
     init_sched s14 = Some s15 \<and> printf (''done.'' @ nl) [] s15 = Some s16 \<and>
     sched_register_thread init_fn 0 s16 = Some (v, s17) \<and>
     sys_inv s17 [t] [] [] K \<and> current_task s17 = t \<and> ld32 (mem s17) (t + 8) = init_fn \<and> ld32 (mem s17) (t + 36) = NEW \<and>
     eq_out (screen \<union> zone (unat (store_global_head s)) (sz + 16)) (mem s) (mem s17) \<and>
     ports s17 = ports s \<and> loaded_idt s17 = loaded_idt s \<and> tty_ok s17"
proof -
  let ?b = "unat (store_global_head s)" and ?bs = "[(sz, True)]"
  let ?Z = "zone ?b (sz + 16)"
  obtain u s14 where s14: "printf (''done.'' @ nl) [] s = Some u" "printf ''sched init ... '' [] u = Some s14" "screen_only s s14"
    using say_two [OF tty messages(2,6)] by blast
  note f14 = screen_only_fields [OF s14(3)]
  have sp: "span ?bs = sz + 16" by simp
  have rep14: "heap_rep s14 ?bs" by (rule heap_outside [OF rep _ f14(2,6)]) (use out sp in \<open>simp only:\<close>)
  obtain s15 where s15: "init_sched s14 = Some s15" "sys_at s15 [] [] [] K {idle_task s15}"
    "heap_rep s15 (alloc_blks 0x100 (alloc_blks 112 ?bs))"
    "eq_out (zone (unat (store_global_head s14)) (span ?bs)) (mem s14) (mem s15)"
    "s15 = s14\<lparr>mem := mem s15, idle_task := idle_task s15, global_sched_lock := 1\<rparr>"
    using init_sched_inv [OF rep14, of K] room zero f14 by (auto simp: fits_def)
  let ?bs2 = "[(112, False), (0x100, False), (sz - 112 - 16 - 0x100 - 16, True)]"
  have "alloc_blks 0x100 (alloc_blks 112 ?bs) = ?bs2" using room by (simp add: alloc_one_block fits_def carve_def)
  then have rep15: "heap_rep s15 ?bs2" using s15(3) by simp
  have f15: "tty_ok s15" "store_global_head s15 = store_global_head s" "ports s15 = ports s" "loaded_idt s15 = loaded_idt s"
    "current_task s15 = 0" "global_sched_lock s15 = 1"
    using f14(1,4,5,6,11) zero(5) by (subst s15(5), simp add: tty_ok_def)+
  obtain s16 where s16: "printf (''done.'' @ nl) [] s15 = Some s16" "screen_only s15 s16"
    using say [OF f15(1) messages(2)] by blast
  note f16 = screen_only_fields [OF s16(2)]
  have sp2: "span ?bs2 = sz + 16" using room by simp
  have out15: "zone (unat (store_global_head s15)) (span ?bs2) \<inter> screen = {}" using out unfolding sp2 f15(2) .
  have rep16: "heap_rep s16 ?bs2" by (rule heap_outside [OF rep15 out15 f16(2,6)])
  have at16: "sys_at s16 [] [] [] K {idle_task s15}"
    by (rule sys_outside [OF s15(2) rep15 out15 f16(2)]) (use f16 in simp_all)
  then have inv16: "sched_inv s16 [] [] []" by (simp add: sys_at_def)
  have fit: "\<exists>b \<in> set ?bs2. fits (112 + 16 + 0x2000) b" using room by (simp add: fits_def)
  let ?n = "tid_counter s16"
  obtain t m1 stk m3 where km: "kmalloc 112 s16 = Some (t, s16\<lparr>mem := m1\<rparr>)"
    "kmalloc 0x2000 (s16\<lparr>mem := new_task m1 t ?n init_fn 0, tid_counter := ?n + 1\<rparr>) = Some (stk, s16\<lparr>mem := m3, tid_counter := ?n + 1\<rparr>)"
    using register_room [OF rep16 fit, of init_fn 0] by blast
  have cur: "current_task s16 = 0" using f15(5) f16(11) by simp
  obtain s17 where s17: "sched_register_thread init_fn 0 s16 = Some (?n, s17)" "current_task s17 = t"
    "ld32 (mem s17) (t + 36) = NEW" "ld32 (mem s17) (t + 8) = init_fn"
    "eq_out (zone (unat (store_global_head s16)) (span ?bs2)) (mem s16) (mem s17)"
    "s17 = s16\<lparr>mem := mem s17, tid_counter := tid_counter s17, current_task := current_task s17,
       runq_head := runq_head s17, thread_count := thread_count s17\<rparr>"
    and at17: "sys_at s17 [t] [] [] K (insert t {idle_task s15})"
    using create_at [OF at16 _ km(1), of init_fn 0 stk] km(2) register_inv [OF inv16 rep16 _ fit, of init_fn 0] cur by auto
  have idle: "idle_task s17 = idle_task s15" "global_sched_lock s17 = 1"
    using f15(6) f16(10,13) by (subst s17(6), simp)+
  have "sys_inv s17 [t] [] [] K"
  proof -
    have A: "threads s17 [t] [] = insert t {idle_task s15}" using idle by (auto simp: tasks_def)
    have "at_rest s17 [t] [] = insert t {idle_task s15}" unfolding at_rest_def A using s17(2,3) by auto
    then show ?thesis using at17 idle s17(2) A by (simp add: sys_inv_def)
  qed
  moreover have "ports s17 = ports s" "loaded_idt s17 = loaded_idt s" "tty_ok s17"
    using f16(1,4,5) f15(3,4) by (subst s17(6), simp add: tty_ok_def)+
  moreover have "eq_out (screen \<union> ?Z) (mem s) (mem s17)"
  proof -
    have e15: "eq_out ?Z (mem s14) (mem s15)" using s15(4) unfolding sp f14(6) .
    have e17: "eq_out ?Z (mem s16) (mem s17)" using s17(5) unfolding sp2 f16(6) f15(2) .
    show ?thesis
      by (rule eq_out_trans [OF eq_out_trans [OF eq_out_mono [OF f14(2)] eq_out_mono [OF e15]]
            eq_out_trans [OF eq_out_mono [OF f16(2)] eq_out_mono [OF e17]]]) auto
  qed
  ultimately show ?thesis using s14(1,2) s15(1) s16(1) s17(1-4) by blast
qed

lemma sys_inv_sti: "sys_inv (sti s) rq wq dq K = sys_inv s rq wq dq K"
  unfolding sys_inv_def by (subst sys_at_cong [of "sti s" s]) (simp_all add: sti_def at_rest_def tasks_def)


lemma kmain_boots:
  assumes info: "boot_info (mem s) mbi pos es (screen \<union> region (IDT s) 2048)"
    and idt: "IDT s \<noteq> 0" "unat (IDT s) + 2048 \<le> two32" "region (IDT s) 2048 \<inter> screen = {}" and dev: "pic_8259 dev"
    and best: "mmap_best es = (ad, len)" "0x802400 \<le> unat len" "unat ad + unat len < two32"
    and heap: "zone (unat ad + 0x800000) (unat len - 0x800000) \<inter> (screen \<union> region (IDT s) 2048) = {}"
    and zero: "runq_head s = 0" "waitq_head s = 0" "doneq_head s = 0" "thread_count s = 0" "current_task s = 0"
  shows "\<exists>s' t. kmain dev entry init_fn MULTIBOOT_BOOTLOADER_MAGIC mbi s = Some (Started, s') \<and> int_flag s' \<and>
     sys_inv s' [t] [] [] K \<and> current_task s' = t \<and> ld32 (mem s') (t + 8) = init_fn \<and> ld32 (mem s') (t + 36) = NEW \<and>
     loaded_idt s' = (0x7FF, IDT s) \<and> idt_ready entry (IDT s) (mem s') \<and> imr dev s' = 0xFFFE \<and> tty_ok s'"
proof -
  let ?A = "screen \<union> region (IDT s) 2048" and ?sz = "unat len - 0x800010"
  obtain s11 where s11: "boot_devices dev entry mbi s = Some s11" "tty_ok s11" "eq_out ?A (mem s) (mem s11)"
    "idt_ready entry (IDT s) (mem s11)" "imr dev s11 = 0xFFFE"
    "s11 = s\<lparr>mem := mem s11, ports := ports s11, ATTRIBUTE := ATTRIBUTE s11, xpos := xpos s11, ypos := ypos s11, video := VIDEO,
       idtr_limit := 0x7FF, idtr_base := IDT s, loaded_idt := (0x7FF, IDT s)\<rparr>"
    using boot_devices_ready [OF info idt dev] by blast
  have i11: "boot_info (mem s11) mbi pos es ?A" by (rule boot_info_frame [OF info s11(3)])
  have len: "0x800010 \<le> unat len" using best(2) by simp
  obtain s12 where s12: "init_kmalloc mbi s11 = Some s12" "heap_rep s12 [(?sz, True)]"
    "unat (store_global_head s12) = unat ad + 0x800000" "eq_out (zone (unat ad + 0x800000) 16) (mem s11) (mem s12)"
    "s12 = s11\<lparr>mem := mem s12, store_global_head := store_global_head s12, mem_store_base := mem_store_base s12,
       mem_store_end := mem_store_end s12, mem_store_size := mem_store_size s12\<rparr>"
    using init_kmalloc_heap_rep [OF _ _ _ _ _ _ best(1) len best(3), of mbi s11 pos] i11 by (auto simp: boot_info_def)
  have f12: "tty_ok s12" "runq_head s12 = 0" "waitq_head s12 = 0" "doneq_head s12 = 0" "thread_count s12 = 0"
    "current_task s12 = 0" "ports s12 = ports s11" "loaded_idt s12 = (0x7FF, IDT s)"
    using s11(2) zero by (subst s12(5), subst s11(6), simp add: tty_ok_def)+
  have Z: "zone (unat (store_global_head s12)) (?sz + 16) = zone (unat ad + 0x800000) (unat len - 0x800000)"
    using best(2) s12(3) by (auto simp: zone_def)
  have room: "0x2300 \<le> ?sz" using best(2) by simp
  have out: "zone (unat (store_global_head s12)) (?sz + 16) \<inter> screen = {}" using heap Z by blast
  obtain u v s14 s15 s16 s17 t where th: "printf (''done.'' @ nl) [] s12 = Some u" "printf ''sched init ... '' [] u = Some s14"
     "init_sched s14 = Some s15" "printf (''done.'' @ nl) [] s15 = Some s16" "sched_register_thread init_fn 0 s16 = Some (v, s17)"
     "sys_inv s17 [t] [] [] K" "current_task s17 = t" "ld32 (mem s17) (t + 8) = init_fn" "ld32 (mem s17) (t + 36) = NEW"
     "eq_out (screen \<union> zone (unat (store_global_head s12)) (?sz + 16)) (mem s12) (mem s17)"
     "ports s17 = ports s12" "loaded_idt s17 = loaded_idt s12" "tty_ok s17"
    using boot_threads [OF s12(2) room out f12(1-6), of init_fn K] by blast
  have run: "kmain dev entry init_fn MULTIBOOT_BOOTLOADER_MAGIC mbi s = Some (Started, sti s17)"
    using s11(1) s12(1) th(1-5) by (simp add: kmain_phases del: append.simps)
  have "zone (unat ad + 0x800000) 16 \<subseteq> zone (unat ad + 0x800000) (unat len - 0x800000)"
    using best(2) by (auto simp: zone_def)
  then have "eq_out (screen \<union> zone (unat ad + 0x800000) (unat len - 0x800000)) (mem s11) (mem s17)"
    using eq_out_trans [OF eq_out_mono [OF s12(4)] th(10) [unfolded Z]] by blast
  then have "idt_ready entry (IDT s) (mem s17)"
    by (rule idt_ready_frame [OF s11(4) _ _ idt(2)]) (use heap idt(3) in blast)
  moreover have "imr dev s17 = 0xFFFE" using s11(5) th(11) f12(7) by (simp add: imr_def inb_def)
  ultimately show ?thesis using run th(6-9,12,13) f12(8)
    by (intro exI [of _ "sti s17"] exI [of _ t]) (simp add: sys_inv_sti, simp add: sti_def imr_def inb_def tty_ok_def)
qed

end
