(* ===== verification/Ramdisk.thy ===== *)
theory Ramdisk
  imports Sched
begin

text \<open>
  The file system, src/MemeOS/src/ramdisk.c: a disk in memory with a superblock, an array of
  inodes, a bitmap of data blocks and a root directory block. Structures are bytes of the flat
  memory at the offsets of include/sys/ufs.h and include/sys/vfs.h; the record \<open>fs\<close> adds the
  module's globals to the scheduler's. Descriptors and byte counts are 32-bit words; where the
  code compares them as \<open>int\<close> the model compares their signed values, where an unsigned operand
  makes the comparison unsigned it compares the words.

  The macro UFS_NUM_PTRS_PER_BLK has no parentheses of its own, so \<open>x % UFS_NUM_PTRS_PER_BLK\<close>
  is \<open>x % 256 / 4\<close>; the definitions below have the expressions as the compiler sees them.
\<close>

section \<open>State and constants\<close>

record fs = sched +
  superblk :: addr
  inode_array :: addr
  blk_bitmap :: addr
  root_blk :: addr
  fs_head_lock :: u32
  lit_delim :: addr

definition UFS_BLOCK_SIZE :: u32 where "UFS_BLOCK_SIZE = 0x100"
definition UFS_DISK_SIZE :: u32 where "UFS_DISK_SIZE = 0x200000"
definition UFS_HEADER_MAGIC :: u32 where "UFS_HEADER_MAGIC = 0x1337D00D"
definition UFS_NUM_DIRECT_PTRS :: u32 where "UFS_NUM_DIRECT_PTRS = 8"
definition UFS_NUM_MAX_INODES :: u32 where "UFS_NUM_MAX_INODES = 0x800"
definition UFS_NUM_BITMAP_BLOCKS :: u32 where "UFS_NUM_BITMAP_BLOCKS = 4"
definition UFS_NUM_MAX_BLOCKS :: u32 where
  "UFS_NUM_MAX_BLOCKS = UFS_DISK_SIZE div UFS_BLOCK_SIZE - 0x100 - UFS_NUM_BITMAP_BLOCKS - 1"
definition UFS_MAX_FILE_IN_DIR :: nat where "UFS_MAX_FILE_IN_DIR = 16"
definition UFS_MAX_FILESIZE :: u32 where "UFS_MAX_FILESIZE = 0x104800"

text \<open>\<open>inode_status_t\<close>, the fields of \<open>inode_t\<close> (64 bytes), of \<open>FILE\<close> (20 bytes), and the error codes.\<close>

abbreviation (input) INODE_EMPTY :: u32 where "INODE_EMPTY \<equiv> 0"
abbreviation (input) INODE_DIR :: u32 where "INODE_DIR \<equiv> 1"
abbreviation (input) INODE_REG :: u32 where "INODE_REG \<equiv> 2"

abbreviation (input) i_type :: u32 where "i_type \<equiv> 0"
abbreviation (input) i_size :: u32 where "i_size \<equiv> 4"
abbreviation (input) i_dirblock :: u32 where "i_dirblock \<equiv> 12"
abbreviation (input) i_direct :: u32 where "i_direct \<equiv> 16"
abbreviation (input) i_indirect :: u32 where "i_indirect \<equiv> 48"
abbreviation (input) i_double :: u32 where "i_double \<equiv> 52"

abbreviation (input) f_fd :: u32 where "f_fd \<equiv> 0"
abbreviation (input) f_dir_pos :: u32 where "f_dir_pos \<equiv> 4"
abbreviation (input) f_seek_head :: u32 where "f_seek_head \<equiv> 8"
abbreviation (input) f_path :: u32 where "f_path \<equiv> 12"
abbreviation (input) f_inode_ptr :: u32 where "f_inode_ptr \<equiv> 16"

definition EBADF :: u32 where "EBADF = - 1"
definition EBADBUF :: u32 where "EBADBUF = - 3"
definition EBOUNDS :: u32 where "EBOUNDS = - 4"
definition EBADPATH :: u32 where "EBADPATH = - 5"
definition EMAXF :: u32 where "EMAXF = - 6"
definition ENODIR :: u32 where "ENODIR = - 7"
definition ENOREG :: u32 where "ENOREG = - 8"
definition EINVAL :: u32 where "EINVAL = - 9"

abbreviation (input) delim :: u8 where "delim \<equiv> of_char CHR ''/''"

section \<open>The block bitmap\<close>

text \<open>\<open>1 << pos\<close> and \<open>val >> pos\<close> for a bit position below 8.\<close>

definition set_blk_bitmap :: "u32 \<Rightarrow> bool \<Rightarrow> 'a fs_scheme \<Rightarrow> 'a fs_scheme option" where
  "set_blk_bitmap blk_index occupied s =
     (if sint blk_index < 0 \<or> blk_index > UFS_NUM_BITMAP_BLOCKS * UFS_BLOCK_SIZE then Some s
      else do {
        val \<leftarrow> rd8 (mem s) (blk_bitmap s) (blk_index div 8);
        m \<leftarrow> wr8 (mem s) (blk_bitmap s) (blk_index div 8)
          (if occupied then val OR push_bit (unat (blk_index mod 8)) 1
           else val AND NOT (push_bit (unat (blk_index mod 8)) 1));
        Some (s\<lparr>mem := m\<rparr>) })"

definition get_blk_bitmap :: "u32 \<Rightarrow> 'a fs_scheme \<Rightarrow> bool option" where
  "get_blk_bitmap blk_index s =
     (if sint blk_index < 0 \<or> blk_index > UFS_NUM_MAX_INODES then Some False
      else do {
        val \<leftarrow> rd8 (mem s) (blk_bitmap s) (blk_index div 8);
        Some (drop_bit (unat (blk_index mod 8)) val AND 1 \<noteq> 0) })"

text \<open>The scan of \<open>alloc_block\<close> from index \<open>i\<close> on, with \<open>n\<close> indexes left.\<close>

fun scan_bitmap :: "nat \<Rightarrow> nat \<Rightarrow> 'a fs_scheme \<Rightarrow> (addr \<times> 'a fs_scheme) option" where
  "scan_bitmap i 0 s = Some (0, s)"
| "scan_bitmap i (Suc n) s = do {
     b \<leftarrow> get_blk_bitmap (of_nat i) s;
     if \<not> b then do {
       s1 \<leftarrow> set_blk_bitmap (of_nat i) True s;
       Some (root_blk s + of_nat i * UFS_BLOCK_SIZE, s1) }
     else scan_bitmap (i + 1) n s }"

definition lock_fs :: "'a fs_scheme \<Rightarrow> 'a fs_scheme option" where
  "lock_fs s = do { f \<leftarrow> kthread_mutex_lock (fs_head_lock s); Some (s\<lparr>fs_head_lock := f\<rparr>) }"

definition unlock_fs :: "'a fs_scheme \<Rightarrow> 'a fs_scheme" where
  "unlock_fs s = s\<lparr>fs_head_lock := kthread_mutex_unlock (fs_head_lock s)\<rparr>"

definition alloc_block :: "'a fs_scheme \<Rightarrow> (addr \<times> 'a fs_scheme) option" where
  "alloc_block s = do {
     s1 \<leftarrow> lock_fs s;
     (b, s2) \<leftarrow> scan_bitmap 0 (unat (8 * UFS_NUM_BITMAP_BLOCKS * UFS_BLOCK_SIZE)) s1;
     Some (b, unlock_fs s2) }"

text \<open>\<open>sizeof(UFS_BLOCK_SIZE)\<close> is the size of an unsigned long, 4.\<close>

definition dealloc_block :: "addr \<Rightarrow> 'a fs_scheme \<Rightarrow> 'a fs_scheme option" where
  "dealloc_block blk_ptr s = do {
     s1 \<leftarrow> lock_fs s;
     s2 \<leftarrow> set_blk_bitmap ((blk_ptr - root_blk s1) div 4) False s1;
     Some (unlock_fs s2) }"

section \<open>Start-up\<close>

definition init_rdisk :: "addr \<Rightarrow> 'a fs_scheme \<Rightarrow> 'a fs_scheme option" where
  "init_rdisk fs_base_addr s = do {
     m0 \<leftarrow> memset (mem s) fs_base_addr 0 UFS_DISK_SIZE;
     m1 \<leftarrow> wr32 m0 fs_base_addr 0 UFS_HEADER_MAGIC;
     m2 \<leftarrow> wr32 m1 fs_base_addr 8 UFS_BLOCK_SIZE;
     m3 \<leftarrow> wr32 m2 fs_base_addr 4 UFS_NUM_MAX_BLOCKS;
     m4 \<leftarrow> wr32 m3 fs_base_addr 16 (UFS_NUM_MAX_BLOCKS - 1);
     m5 \<leftarrow> wr32 m4 fs_base_addr 12 UFS_NUM_MAX_INODES;
     m6 \<leftarrow> wr32 m5 fs_base_addr 20 (UFS_NUM_MAX_INODES - 1);
     (let inodes = fs_base_addr + UFS_BLOCK_SIZE * 64;
          bitmap = inodes + UFS_NUM_MAX_INODES * 64;
          root = bitmap + (UFS_BLOCK_SIZE * UFS_NUM_BITMAP_BLOCKS) * 256
      in do {
        s1 \<leftarrow> set_blk_bitmap 0 True
          (s\<lparr>mem := m6, superblk := fs_base_addr, inode_array := inodes, blk_bitmap := bitmap\<rparr>);
        m7 \<leftarrow> wr32 (mem s1) inodes i_type INODE_DIR;
        m8 \<leftarrow> wr32 m7 inodes i_dirblock root;
        m9 \<leftarrow> wr32 m8 fs_base_addr 32 inodes;
        m10 \<leftarrow> wr32 m9 fs_base_addr 36 bitmap;
        m11 \<leftarrow> wr32 m10 fs_base_addr 40 root;
        Some (s1\<lparr>mem := m11, root_blk := root,
                 fs_head_lock := kthread_mutex_init (fs_head_lock s1)\<rparr>) }) }"

section \<open>Path lookup\<close>

text \<open>
  The entry of \<open>get_file_inode\<close>: a null path, the path that is just the delimiter, or a path whose
  leading delimiter is skipped before the directory is searched.
\<close>

datatype lookup = Found addr | Search addr

definition enter_path :: "addr \<Rightarrow> 'a fs_scheme \<Rightarrow> lookup option" where
  "enter_path path s =
     (if path = 0 then Some (Found 0)
      else do {
        root \<leftarrow> strcmp (mem s) path (lit_delim s);
        if root then Some (Found (inode_array s))
        else do {
          c \<leftarrow> rd8 (mem s) path 0;
          Some (Search (if c = delim then path + 1 else path)) } })"

definition entry_addr :: "addr \<Rightarrow> nat \<Rightarrow> addr" where
  "entry_addr dir_blk i = dir_blk + of_nat (16 * i)"

text \<open>The loop over the entries of a directory block; a match in a directory enters the next one.\<close>

partial_function (option) search_dir :: "addr \<Rightarrow> addr \<Rightarrow> nat \<Rightarrow> 'a fs_scheme \<Rightarrow> addr option" where
  "search_dir path dir_blk i s =
     (if i < UFS_MAX_FILE_IN_DIR then do {
        hit \<leftarrow> str_is_prefix (mem s) path (entry_addr dir_blk i);
        if hit then do {
          rest \<leftarrow> strtok (mem s) path (lit_delim s);
          num \<leftarrow> rd16 (mem s) dir_blk (of_nat (16 * i) + 14);
          ty \<leftarrow> rd32 (mem s) (inode_array s + ucast num * 64) i_type;
          if ty = INODE_DIR then do {
            d \<leftarrow> rd32 (mem s) (inode_array s + ucast num * 64) i_dirblock;
            l \<leftarrow> enter_path rest s;
            (case l of Found r \<Rightarrow> Some r | Search p \<Rightarrow> search_dir p d 0 s) }
          else Some (inode_array s + ucast num * 64) }
        else search_dir path dir_blk (i + 1) s }
      else Some 0)"

definition get_file_inode :: "addr \<Rightarrow> addr \<Rightarrow> 'a fs_scheme \<Rightarrow> addr option" where
  "get_file_inode path dir_blk s = do {
     l \<leftarrow> enter_path path s;
     (case l of Found r \<Rightarrow> Some r | Search p \<Rightarrow> search_dir p dir_blk 0 s) }"

text \<open>The length of the path up to and including its last delimiter before \<open>n\<close>.\<close>

partial_function (option) last_delim :: "mem \<Rightarrow> addr \<Rightarrow> u32 \<Rightarrow> u32 option" where
  "last_delim m path n = do {
     c \<leftarrow> rd8 m path (n - 1);
     if c \<noteq> delim then last_delim m path (n - 1) else Some n }"

definition get_parent_dir_inode :: "addr \<Rightarrow> addr \<Rightarrow> 'a fs_scheme \<Rightarrow> (addr \<times> 'a fs_scheme) option" where
  "get_parent_dir_inode path dir_blk s =
     (if path = 0 then Some (0, s)
      else do {
        c0 \<leftarrow> rd8 (mem s) path 0;
        if c0 \<noteq> delim then Some (0, s)
        else do {
          n \<leftarrow> strlen (mem s) path;
          cl \<leftarrow> rd8 (mem s) path (n - 1);
          n2 \<leftarrow> last_delim (mem s) path (if cl = delim then n - 1 else n);
          cd \<leftarrow> rd8 (mem s) path (n2 - 1);
          (let pathlen = (if cd = delim \<and> n2 > 1 then n2 - 1 else n2) in do {
             splice_char \<leftarrow> rd8 (mem s) path pathlen;
             m1 \<leftarrow> wr8 (mem s) path pathlen 0;
             inode_ptr \<leftarrow> get_file_inode path dir_blk (s\<lparr>mem := m1\<rparr>);
             m2 \<leftarrow> wr8 m1 path pathlen splice_char;
             Some (inode_ptr, s\<lparr>mem := m2\<rparr>) }) } })"

section \<open>Creating files and directories\<close>

text \<open>The first entry of a directory block whose name is empty; null when there is none.\<close>

fun free_entry :: "mem \<Rightarrow> addr \<Rightarrow> nat \<Rightarrow> nat \<Rightarrow> addr option" where
  "free_entry m dir_blk i 0 = Some 0"
| "free_entry m dir_blk i (Suc n) = do {
     c \<leftarrow> rd8 m dir_blk (of_nat (16 * i));
     if c = 0 then Some (entry_addr dir_blk i) else free_entry m dir_blk (i + 1) n }"

text \<open>The first empty inode: its number, or the size of the array.\<close>

fun free_inode :: "mem \<Rightarrow> addr \<Rightarrow> nat \<Rightarrow> nat \<Rightarrow> nat option" where
  "free_inode m inode i 0 = Some i"
| "free_inode m inode i (Suc n) = do {
     ty \<leftarrow> rd32 m inode i_type;
     if ty = INODE_EMPTY then Some i else free_inode m (inode + 64) (i + 1) n }"

text \<open>The name after the last delimiter: the pointer walks back from the end of the path.\<close>

partial_function (option) back_to_delim :: "mem \<Rightarrow> addr \<Rightarrow> addr option" where
  "back_to_delim m path = do {
     c \<leftarrow> rd8 m path 0;
     if c \<noteq> delim then back_to_delim m (path - 1) else Some (path + 1) }"

definition file_name :: "mem \<Rightarrow> addr \<Rightarrow> addr option" where
  "file_name m path = do { n \<leftarrow> strlen m path; back_to_delim m (path + n) }"

definition set_dirent :: "addr \<Rightarrow> addr \<Rightarrow> nat \<Rightarrow> 'a fs_scheme \<Rightarrow> 'a fs_scheme option" where
  "set_dirent dirent path inode_counter s = do {
     p \<leftarrow> file_name (mem s) path;
     n \<leftarrow> strlen (mem s) p;
     m1 \<leftarrow> memcpy (mem s) dirent p n;
     m2 \<leftarrow> wr16 m1 dirent 14 (of_nat inode_counter);
     Some (s\<lparr>mem := m2\<rparr>) }"

text \<open>
  \<open>rd_create\<close> and \<open>rd_mkdir\<close> differ in the inode's type and in the directory block the latter
  allocates: \<open>new_entry\<close> is the code they share, \<open>finish\<close> what happens between the unlock and the
  writing of the entry.
\<close>

definition new_entry ::
  "u32 \<Rightarrow> (addr \<Rightarrow> 'a fs_scheme \<Rightarrow> 'a fs_scheme option) \<Rightarrow> addr \<Rightarrow> 'a fs_scheme \<Rightarrow> (u32 \<times> 'a fs_scheme) option" where
  "new_entry ty finish path s =
     (if path = 0 then Some (EBADPATH, s)
      else do {
        (parent, s1) \<leftarrow> get_parent_dir_inode path (root_blk s) s;
        if parent = 0 then Some (EBADPATH, s1)
        else do {
          dirblk \<leftarrow> rd32 (mem s1) parent i_dirblock;
          dirent \<leftarrow> free_entry (mem s1) dirblk 0 UFS_MAX_FILE_IN_DIR;
          if dirent = 0 then Some (EBOUNDS, s1)
          else do {
            s2 \<leftarrow> lock_fs s1;
            k \<leftarrow> free_inode (mem s2) (inode_array s2) 0 (unat UFS_NUM_MAX_INODES);
            if k = unat UFS_NUM_MAX_INODES then Some (EBOUNDS, unlock_fs s2)
            else do {
              m3 \<leftarrow> wr32 (mem s2) (inode_array s2 + of_nat (64 * k)) i_type ty;
              m4 \<leftarrow> wr32 m3 (inode_array s2 + of_nat (64 * k)) i_size 0;
              s5 \<leftarrow> finish (inode_array s2 + of_nat (64 * k)) (unlock_fs (s2\<lparr>mem := m4\<rparr>));
              s6 \<leftarrow> set_dirent dirent path k s5;
              Some (0, s6) } } } })"

definition rd_create :: "addr \<Rightarrow> 'a fs_scheme \<Rightarrow> (u32 \<times> 'a fs_scheme) option" where
  "rd_create path s = new_entry INODE_REG (\<lambda>file_inode s. Some s) path s"

definition rd_mkdir :: "addr \<Rightarrow> 'a fs_scheme \<Rightarrow> (u32 \<times> 'a fs_scheme) option" where
  "rd_mkdir path s = new_entry INODE_DIR
     (\<lambda>dir_inode s. do {
        (b, s1) \<leftarrow> alloc_block s;
        m \<leftarrow> wr32 (mem s1) dir_inode i_dirblock b;
        Some (s1\<lparr>mem := m\<rparr>) }) path s"

section \<open>Descriptors\<close>

fun avail_fd :: "mem \<Rightarrow> addr \<Rightarrow> nat \<Rightarrow> nat \<Rightarrow> u32 option" where
  "avail_fd m task i 0 = Some (- 1)"
| "avail_fd m task i (Suc n) = do {
     f \<leftarrow> rd32 m task (t_fd_table + of_nat (4 * i));
     if f = 0 then Some (of_nat i) else avail_fd m task (i + 1) n }"

text \<open>
  \<open>get_avail_fd\<close> of vfs.c runs the same loop on a \<open>__current_task\<close> of its own, which is static
  there and never assigned.
\<close>

definition get_avail_fd :: "mem \<Rightarrow> u32 option" where
  "get_avail_fd m = avail_fd m 0 0 (unat NUM_MAX_FD)"

definition rd_open :: "addr \<Rightarrow> 'a fs_scheme \<Rightarrow> (u32 \<times> 'a fs_scheme) option" where
  "rd_open path s = do {
     fd \<leftarrow> avail_fd (mem s) (current_task s) 0 (unat NUM_MAX_FD);
     if fd = - 1 then Some (EMAXF, s)
     else do {
       file_inode \<leftarrow> get_file_inode path (root_blk s) s;
       if file_inode = 0 then Some (EBADPATH, s)
       else do {
         (file_obj, s1) \<leftarrow> kmalloc 20 s;
         m1 \<leftarrow> wr32 (mem s1) file_obj f_fd fd;
         m2 \<leftarrow> wr32 m1 file_obj f_inode_ptr file_inode;
         n \<leftarrow> strlen m2 path;
         (pbuf, s2) \<leftarrow> kmalloc n (s1\<lparr>mem := m2\<rparr>);
         m3 \<leftarrow> wr32 (mem s2) file_obj f_path pbuf;
         pb \<leftarrow> rd32 m3 file_obj f_path;
         m4 \<leftarrow> strcpy m3 path pb;
         m5 \<leftarrow> wr32 m4 file_obj f_seek_head 0;
         m6 \<leftarrow> wr32 m5 (current_task s2) (t_fd_table + 4 * fd) file_obj;
         Some (fd, s2\<lparr>mem := m6\<rparr>) } } }"

text \<open>The test all descriptor operations start with, and the table lookup after it.\<close>

definition bad_fd :: "u32 \<Rightarrow> bool" where
  "bad_fd fd \<longleftrightarrow> sint fd < 0 \<or> sint fd > 16"

definition fd_entry :: "u32 \<Rightarrow> 'a fs_scheme \<Rightarrow> addr option" where
  "fd_entry fd s = rd32 (mem s) (current_task s) (t_fd_table + 4 * fd)"

definition rd_close :: "u32 \<Rightarrow> 'a fs_scheme \<Rightarrow> (u32 \<times> 'a fs_scheme) option" where
  "rd_close fd s =
     (if bad_fd fd then Some (EBADF, s)
      else do {
        file_obj \<leftarrow> fd_entry fd s;
        if file_obj = 0 then Some (EBADF, s)
        else do {
          p \<leftarrow> rd32 (mem s) file_obj f_path;
          s1 \<leftarrow> kfree p s;
          s2 \<leftarrow> kfree file_obj s1;
          m \<leftarrow> wr32 (mem s2) (current_task s2) (t_fd_table + 4 * fd) 0;
          Some (0, s2\<lparr>mem := m\<rparr>) } })"

definition rd_lseek :: "u32 \<Rightarrow> u32 \<Rightarrow> u32 \<Rightarrow> 'a fs_scheme \<Rightarrow> (u32 \<times> 'a fs_scheme) option" where
  "rd_lseek fd offset whence s =
     (if bad_fd fd then Some (EBADF, s)
      else do {
        file_obj \<leftarrow> fd_entry fd s;
        if file_obj = 0 then Some (EBADF, s)
        else do {
          inode \<leftarrow> rd32 (mem s) file_obj f_inode_ptr;
          ty \<leftarrow> rd32 (mem s) inode i_type;
          if ty \<noteq> INODE_REG then Some (ENOREG, s)
          else if whence = 0 then
            (if sint offset < 0 \<or> offset > UFS_MAX_FILESIZE then Some (EBOUNDS, s)
             else do { m \<leftarrow> wr32 (mem s) file_obj f_seek_head offset; Some (0, s\<lparr>mem := m\<rparr>) })
          else if whence = 1 then do {
            sk \<leftarrow> rd32 (mem s) file_obj f_seek_head;
            (if sk + offset > UFS_MAX_FILESIZE then Some (EBOUNDS, s)
             else do { m \<leftarrow> wr32 (mem s) file_obj f_seek_head (sk + offset); Some (0, s\<lparr>mem := m\<rparr>) }) }
          else if whence = 2 then do {
            sz \<leftarrow> rd32 (mem s) inode i_size;
            m \<leftarrow> wr32 (mem s) file_obj f_seek_head sz;
            Some (0, s\<lparr>mem := m\<rparr>) }
          else Some (EINVAL, s) } })"

section \<open>Reading\<close>

text \<open>
  The byte loop of \<open>rd_read\<close>, from offset \<open>off\<close> of a block with \<open>n\<close> bytes left: it returns the
  memory, the buffer pointer and the counter.
\<close>

fun read_block ::
  "mem \<Rightarrow> addr \<Rightarrow> addr \<Rightarrow> u32 \<Rightarrow> u32 \<Rightarrow> u32 \<Rightarrow> nat \<Rightarrow> (mem \<times> addr \<times> u32) option" where
  "read_block m buf blk_ptr off cnt num_bytes 0 = Some (m, buf, cnt)"
| "read_block m buf blk_ptr off cnt num_bytes (Suc n) = do {
     c \<leftarrow> rd8 m blk_ptr off;
     m1 \<leftarrow> wr8 m buf 0 c;
     if cnt + 1 = num_bytes then Some (m1, buf + 1, cnt + 1)
     else read_block m1 (buf + 1) blk_ptr (off + 1) (cnt + 1) num_bytes n }"

text \<open>
  The nested loops, entered at the label \<open>start_reading\<close>: \<open>read_from\<close> is one pass of the inner
  body and what follows it, up to the next time the label is reached.
\<close>

partial_function (option) read_from ::
  "addr \<Rightarrow> addr \<Rightarrow> u32 \<Rightarrow> mem \<Rightarrow> addr \<Rightarrow> addr \<Rightarrow> addr \<Rightarrow> u32 \<Rightarrow> u32 \<Rightarrow> u32 \<Rightarrow> u32 \<Rightarrow> u32 \<Rightarrow> mem option" where
  "read_from inode double_blk_ptr num_bytes m buf single_blk_ptr blk_ptr
       blk_offset blk_num single_blk_idx double_blk_idx cnt = do {
     (m1, buf1, cnt1) \<leftarrow> read_block m buf blk_ptr blk_offset cnt num_bytes
       (unat UFS_BLOCK_SIZE - unat blk_offset);
     if cnt1 = num_bytes then Some m1
     else (let blk_num1 = blk_num + 1;
               idx1 = (if blk_num1 > UFS_NUM_DIRECT_PTRS then single_blk_idx + 1 else single_blk_idx)
       in do {
         blk1 \<leftarrow> (if blk_num1 < UFS_NUM_DIRECT_PTRS then rd32 m1 inode (i_direct + 4 * blk_num1)
                  else rd32 m1 single_blk_ptr (4 * idx1));
         if idx1 < 64 then
           read_from inode double_blk_ptr num_bytes m1 buf1 single_blk_ptr blk1 0 blk_num1 idx1
             double_blk_idx cnt1
         else (let dbl1 = (if blk_num1 > 72 then double_blk_idx + 1 else double_blk_idx) in do {
           sp \<leftarrow> rd32 m1 double_blk_ptr (4 * dbl1);
           blk2 \<leftarrow> rd32 m1 sp 0;
           if dbl1 < 64 then
             read_from inode double_blk_ptr num_bytes m1 buf1 sp blk2 0 blk_num1 0 dbl1 cnt1
           else Some m1 }) }) }"

text \<open>
  The pointers and indexes a read starts from: the singly indirect block, the data block, the
  index in the singly indirect block and the one in the doubly indirect block.
\<close>

definition read_start :: "mem \<Rightarrow> addr \<Rightarrow> u32 \<Rightarrow> (addr \<times> addr \<times> u32 \<times> u32) option" where
  "read_start m inode blk_num = do {
     double_blk_ptr \<leftarrow> rd32 m inode i_double;
     single_blk_ptr \<leftarrow> rd32 m inode i_indirect;
     if blk_num < UFS_NUM_DIRECT_PTRS then do {
       blk_ptr \<leftarrow> rd32 m inode (i_direct + 4 * blk_num);
       Some (single_blk_ptr, blk_ptr, 0, 0) }
     else if blk_num < 72 then
       (let idx = (blk_num - UFS_NUM_DIRECT_PTRS) mod UFS_BLOCK_SIZE div 4 in do {
          blk_ptr \<leftarrow> rd32 m single_blk_ptr (4 * idx);
          Some (single_blk_ptr, blk_ptr, idx, 0) })
     else
       (let dbl = (blk_num - 72) div UFS_BLOCK_SIZE div 4;
            idx = (blk_num - 72) mod UFS_BLOCK_SIZE div 4 in do {
          sp \<leftarrow> rd32 m double_blk_ptr (4 * dbl);
          blk_ptr \<leftarrow> rd32 m sp (4 * idx);
          Some (sp, blk_ptr, idx, dbl) }) }"

definition rd_read :: "u32 \<Rightarrow> addr \<Rightarrow> u32 \<Rightarrow> 'a fs_scheme \<Rightarrow> (u32 \<times> 'a fs_scheme) option" where
  "rd_read fd buf num_bytes s =
     (if bad_fd fd then Some (EBADF, s)
      else do {
        file_obj \<leftarrow> fd_entry fd s;
        inode \<leftarrow> rd32 (mem s) file_obj f_inode_ptr;
        if file_obj = 0 then Some (EBADF, s)
        else if buf = 0 then Some (EBADBUF, s)
        else do {
          sz \<leftarrow> rd32 (mem s) inode i_size;
          sk \<leftarrow> rd32 (mem s) file_obj f_seek_head;
          if sint num_bytes < 0 \<or> num_bytes > sz - sk then Some (EBOUNDS, s)
          else do {
            ty \<leftarrow> rd32 (mem s) inode i_type;
            if ty \<noteq> INODE_REG then Some (ENOREG, s)
            else do {
              (sp, blk_ptr, idx, dbl) \<leftarrow> read_start (mem s) inode (sk div UFS_BLOCK_SIZE);
              double_blk_ptr \<leftarrow> rd32 (mem s) inode i_double;
              m1 \<leftarrow> read_from inode double_blk_ptr num_bytes (mem s) buf sp blk_ptr
                (sk mod UFS_BLOCK_SIZE) (sk div UFS_BLOCK_SIZE) idx dbl 0;
              sk1 \<leftarrow> rd32 m1 file_obj f_seek_head;
              m2 \<leftarrow> wr32 m1 file_obj f_seek_head (sk1 + num_bytes);
              Some (0, s\<lparr>mem := m2\<rparr>) } } } })"

section \<open>Writing\<close>

text \<open>\<open>if (!p[i]) p[i] = alloc_block()\<close>, and then the cell's value.\<close>

definition ensure_cell :: "addr \<Rightarrow> u32 \<Rightarrow> 'a fs_scheme \<Rightarrow> (addr \<times> 'a fs_scheme) option" where
  "ensure_cell p off s = do {
     b \<leftarrow> rd32 (mem s) p off;
     if b = 0 then do {
       (nb, s1) \<leftarrow> alloc_block s;
       m \<leftarrow> wr32 (mem s1) p off nb;
       v \<leftarrow> rd32 m p off;
       Some (v, s1\<lparr>mem := m\<rparr>) }
     else Some (b, s) }"

text \<open>\<open>if (!p) p = alloc_block()\<close> for a local variable.\<close>

definition ensure_local :: "addr \<Rightarrow> 'a fs_scheme \<Rightarrow> (addr \<times> 'a fs_scheme) option" where
  "ensure_local p s = (if p = 0 then alloc_block s else Some (p, s))"

text \<open>The byte loop of \<open>rd_write\<close>; seek head and size are read again for every byte.\<close>

fun write_block ::
  "addr \<Rightarrow> addr \<Rightarrow> mem \<Rightarrow> addr \<Rightarrow> addr \<Rightarrow> u32 \<Rightarrow> u32 \<Rightarrow> u32 \<Rightarrow> nat \<Rightarrow> (mem \<times> addr \<times> u32) option" where
  "write_block file_obj inode m buf blk_ptr off cnt actual 0 = Some (m, buf, cnt)"
| "write_block file_obj inode m buf blk_ptr off cnt actual (Suc n) = do {
     sk \<leftarrow> rd32 m file_obj f_seek_head;
     sz \<leftarrow> rd32 m inode i_size;
     (m1, buf1) \<leftarrow>
       (if cnt < sk - sz then do { m1 \<leftarrow> wr8 m blk_ptr off 0; Some (m1, buf) }
        else do { c \<leftarrow> rd8 m buf 0; m1 \<leftarrow> wr8 m blk_ptr off c; Some (m1, buf + 1) });
     if cnt + 1 = actual then Some (m1, buf1, cnt + 1)
     else write_block file_obj inode m1 buf1 blk_ptr (off + 1) (cnt + 1) actual n }"

partial_function (option) write_from ::
  "addr \<Rightarrow> addr \<Rightarrow> u32 \<Rightarrow> addr \<Rightarrow> addr \<Rightarrow> addr \<Rightarrow> addr \<Rightarrow> u32 \<Rightarrow> u32 \<Rightarrow> u32 \<Rightarrow> u32 \<Rightarrow> u32 \<Rightarrow>
     'a fs_scheme \<Rightarrow> 'a fs_scheme option" where
  "write_from file_obj inode actual buf double_blk_ptr single_blk_ptr blk_ptr
       blk_offset blk_num single_blk_idx double_blk_idx cnt s = do {
     (m1, buf1, cnt1) \<leftarrow> write_block file_obj inode (mem s) buf blk_ptr blk_offset cnt actual
       (unat UFS_BLOCK_SIZE - unat blk_offset);
     if cnt1 = actual then Some (s\<lparr>mem := m1\<rparr>)
     else (let blk_num1 = blk_num + 1;
               idx1 = (if blk_num1 > UFS_NUM_DIRECT_PTRS then single_blk_idx + 1 else single_blk_idx)
       in do {
         (sp1, blk1, s1) \<leftarrow>
           (if blk_num1 > UFS_NUM_DIRECT_PTRS then do {
              (sp1, s1) \<leftarrow> ensure_local single_blk_ptr (s\<lparr>mem := m1\<rparr>);
              (blk1, s2) \<leftarrow> ensure_cell sp1 (4 * idx1) s1;
              Some (sp1, blk1, s2) }
            else do {
              (blk1, s2) \<leftarrow> ensure_cell inode (i_direct + 4 * blk_num1) (s\<lparr>mem := m1\<rparr>);
              Some (single_blk_ptr, blk1, s2) });
         if idx1 < 64 then
           write_from file_obj inode actual buf1 double_blk_ptr sp1 blk1 0 blk_num1 idx1
             double_blk_idx cnt1 s1
         else (let dbl1 = (if blk_num1 > 72 then double_blk_idx + 1 else double_blk_idx) in do {
           (dp1, s2) \<leftarrow> ensure_local double_blk_ptr s1;
           (sp2, s3) \<leftarrow> ensure_cell dp1 (4 * dbl1) s2;
           (blk2, s4) \<leftarrow> ensure_cell sp2 0 s3;
           if dbl1 < 64 then
             write_from file_obj inode actual buf1 dp1 sp2 blk2 0 blk_num1 0 dbl1 cnt1 s4
           else Some s4 }) }) }"

text \<open>
  The pointers and indexes a write starts from; missing blocks are allocated. In the direct
  region the block written is the entry at index \<open>seek_head % UFS_BLOCK_SIZE\<close>, whichever entry
  was filled before.
\<close>

definition write_start ::
  "addr \<Rightarrow> addr \<Rightarrow> u32 \<Rightarrow> 'a fs_scheme \<Rightarrow> (addr \<times> addr \<times> addr \<times> u32 \<times> u32 \<times> 'a fs_scheme) option" where
  "write_start file_obj inode blk_num s = do {
     double_blk_ptr \<leftarrow> rd32 (mem s) inode i_double;
     single_blk_ptr \<leftarrow> rd32 (mem s) inode i_indirect;
     if blk_num < UFS_NUM_DIRECT_PTRS then do {
       (b, s1) \<leftarrow> ensure_cell inode (i_direct + 4 * blk_num) s;
       sk \<leftarrow> rd32 (mem s1) file_obj f_seek_head;
       blk_ptr \<leftarrow> rd32 (mem s1) inode (i_direct + 4 * (sk mod UFS_BLOCK_SIZE));
       Some (double_blk_ptr, single_blk_ptr, blk_ptr, 0, 0, s1) }
     else if blk_num < 72 then
       (let idx = (blk_num - UFS_NUM_DIRECT_PTRS) mod UFS_BLOCK_SIZE div 4 in do {
          (sp, s1) \<leftarrow> (if single_blk_ptr = 0 then do {
             (nb, t) \<leftarrow> alloc_block s;
             m \<leftarrow> wr32 (mem t) inode i_indirect nb;
             Some (nb, t\<lparr>mem := m\<rparr>) } else Some (single_blk_ptr, s));
          (blk_ptr, s2) \<leftarrow> ensure_cell sp (4 * idx) s1;
          Some (double_blk_ptr, sp, blk_ptr, idx, 0, s2) })
     else
       (let dbl = (blk_num - 72) div UFS_BLOCK_SIZE div 4;
            idx = (blk_num - 72) mod UFS_BLOCK_SIZE div 4 in do {
          (dp, s1) \<leftarrow> (if double_blk_ptr = 0 then do {
             (nb, t) \<leftarrow> alloc_block s;
             m \<leftarrow> wr32 (mem t) inode i_double nb;
             Some (nb, t\<lparr>mem := m\<rparr>) } else Some (double_blk_ptr, s));
          (sp, s2) \<leftarrow> ensure_cell dp (4 * dbl) s1;
          (blk_ptr, s3) \<leftarrow> ensure_cell sp (4 * idx) s2;
          Some (dp, sp, blk_ptr, idx, dbl, s3) }) }"

text \<open>The end of \<open>rd_write\<close>: the size is updated twice, the second time under the lock.\<close>

definition write_end :: "addr \<Rightarrow> addr \<Rightarrow> u32 \<Rightarrow> 'a fs_scheme \<Rightarrow> 'a fs_scheme option" where
  "write_end file_obj inode num_bytes s = do {
     sz \<leftarrow> rd32 (mem s) inode i_size;
     sk \<leftarrow> rd32 (mem s) file_obj f_seek_head;
     m1 \<leftarrow> (if sz - sk > num_bytes then wr32 (mem s) inode i_size (sz - sk + num_bytes)
            else Some (mem s));
     sk1 \<leftarrow> rd32 m1 file_obj f_seek_head;
     m2 \<leftarrow> wr32 m1 file_obj f_seek_head (sk1 + num_bytes);
     s3 \<leftarrow> lock_fs (s\<lparr>mem := m2\<rparr>);
     sk2 \<leftarrow> rd32 (mem s3) file_obj f_seek_head;
     m3 \<leftarrow> wr32 (mem s3) inode i_size sk2;
     Some (unlock_fs (s3\<lparr>mem := m3\<rparr>)) }"

definition rd_write :: "u32 \<Rightarrow> addr \<Rightarrow> u32 \<Rightarrow> 'a fs_scheme \<Rightarrow> (u32 \<times> 'a fs_scheme) option" where
  "rd_write fd buf num_bytes s =
     (if bad_fd fd then Some (EBADF, s)
      else do {
        file_obj \<leftarrow> fd_entry fd s;
        inode \<leftarrow> rd32 (mem s) file_obj f_inode_ptr;
        if file_obj = 0 then Some (EBADF, s)
        else if buf = 0 then Some (EBADBUF, s)
        else do {
          sk \<leftarrow> rd32 (mem s) file_obj f_seek_head;
          if sint num_bytes < 0 \<or> num_bytes + sk > UFS_MAX_FILESIZE then Some (EBOUNDS, s)
          else do {
            ty \<leftarrow> rd32 (mem s) inode i_type;
            if ty \<noteq> INODE_REG then Some (ENOREG, s)
            else do {
              sz \<leftarrow> rd32 (mem s) inode i_size;
              (dp, sp, blk_ptr, idx, dbl, s1) \<leftarrow>
                write_start file_obj inode (sk div UFS_BLOCK_SIZE) s;
              s2 \<leftarrow> write_from file_obj inode (sk + num_bytes - sz) buf dp sp blk_ptr
                (sk mod UFS_BLOCK_SIZE) (sk div UFS_BLOCK_SIZE) idx dbl 0 s1;
              s3 \<leftarrow> write_end file_obj inode num_bytes s2;
              Some (0, s3) } } } })"

section \<open>Directories and removal\<close>

text \<open>
  The loops of \<open>rd_readdir\<close> that skip entries compare the address of an array with \<open>NULL\<close> and
  never run.
\<close>

definition rd_readdir :: "u32 \<Rightarrow> addr \<Rightarrow> 'a fs_scheme \<Rightarrow> (u32 \<times> 'a fs_scheme) option" where
  "rd_readdir fd buf s =
     (if bad_fd fd then Some (EBADF, s)
      else do {
        file_obj \<leftarrow> fd_entry fd s;
        if file_obj = 0 then Some (EBADF, s)
        else do {
          inode \<leftarrow> rd32 (mem s) file_obj f_inode_ptr;
          ty \<leftarrow> rd32 (mem s) inode i_type;
          if ty \<noteq> INODE_DIR then Some (ENODIR, s)
          else do {
            dir_ptr \<leftarrow> rd32 (mem s) inode i_dirblock;
            pos \<leftarrow> rd32 (mem s) file_obj f_dir_pos;
            if pos = of_nat UFS_MAX_FILE_IN_DIR then do {
              m \<leftarrow> wr32 (mem s) file_obj f_dir_pos 0; Some (1, s\<lparr>mem := m\<rparr>) }
            else do {
              m1 \<leftarrow> wr32 (mem s) file_obj f_dir_pos (pos + 1);
              m2 \<leftarrow> memcpy m1 buf (dir_ptr + 16 * pos) 16;
              pos2 \<leftarrow> rd32 m2 file_obj f_dir_pos;
              if pos2 = of_nat UFS_MAX_FILE_IN_DIR then do {
                m3 \<leftarrow> wr32 m2 file_obj f_dir_pos 0; Some (1, s\<lparr>mem := m3\<rparr>) }
              else Some (0, s\<lparr>mem := m2\<rparr>) } } } })"

text \<open>Is the inode open in the current task? The first \<open>n\<close> descriptors from \<open>i\<close> on.\<close>

fun is_open :: "mem \<Rightarrow> addr \<Rightarrow> addr \<Rightarrow> nat \<Rightarrow> nat \<Rightarrow> bool option" where
  "is_open m task inode i 0 = Some False"
| "is_open m task inode i (Suc n) = do {
     f \<leftarrow> rd32 m task (t_fd_table + of_nat (4 * i));
     hit \<leftarrow> (if f = 0 then Some False else do { p \<leftarrow> rd32 m f f_inode_ptr; Some (p = inode) });
     if hit then Some True else is_open m task inode (i + 1) n }"

fun dir_in_use :: "mem \<Rightarrow> addr \<Rightarrow> nat \<Rightarrow> nat \<Rightarrow> bool option" where
  "dir_in_use m dir_blk i 0 = Some False"
| "dir_in_use m dir_blk i (Suc n) = do {
     c \<leftarrow> rd8 m dir_blk (of_nat (16 * i));
     if c \<noteq> 0 then Some True else dir_in_use m dir_blk (i + 1) n }"

text \<open>
  The loops that free the blocks, entered at the label \<open>start_unlink\<close>: \<open>unlink_inner\<close> is the
  inner loop from the label on, \<open>unlink_outer\<close> the outer one, whose inner loop is skipped once
  the index has reached its bound.
\<close>

partial_function (option) unlink_inner ::
  "addr \<Rightarrow> u32 \<Rightarrow> addr \<Rightarrow> u32 \<Rightarrow> u32 \<Rightarrow> 'a fs_scheme \<Rightarrow> (u32 \<times> u32 \<times> 'a fs_scheme) option" where
  "unlink_inner inode num_blks single_blk_ptr single_blk_idx blk_idx s =
     (let idx1 = (if blk_idx > UFS_NUM_DIRECT_PTRS then single_blk_idx + 1 else single_blk_idx)
      in do {
        b \<leftarrow> (if blk_idx < UFS_NUM_DIRECT_PTRS then rd32 (mem s) inode (i_direct + 4 * blk_idx)
              else rd32 (mem s) single_blk_ptr (4 * idx1));
        s1 \<leftarrow> dealloc_block b s;
        if blk_idx + 1 = num_blks \<or> \<not> idx1 < 64 then Some (idx1, blk_idx + 1, s1)
        else unlink_inner inode num_blks single_blk_ptr idx1 (blk_idx + 1) s1 })"

partial_function (option) unlink_outer ::
  "addr \<Rightarrow> u32 \<Rightarrow> addr \<Rightarrow> bool \<Rightarrow> addr \<Rightarrow> u32 \<Rightarrow> u32 \<Rightarrow> u32 \<Rightarrow> 'a fs_scheme \<Rightarrow> 'a fs_scheme option" where
  "unlink_outer inode num_blks double_blk_ptr at_label single_blk_ptr single_blk_idx
       double_blk_idx blk_idx s = do {
     (idx1, blk1, s1) \<leftarrow>
       (if at_label \<or> single_blk_idx < 64 then
          unlink_inner inode num_blks single_blk_ptr single_blk_idx blk_idx s
        else Some (single_blk_idx, blk_idx, s));
     s2 \<leftarrow> (if single_blk_ptr \<noteq> 0 then do {
              b \<leftarrow> rd32 (mem s1) single_blk_ptr 0; dealloc_block b s1 }
            else Some s1);
     if blk1 = num_blks then Some s2
     else (let dbl1 = (if blk1 > 72 then double_blk_idx + 1 else double_blk_idx) in do {
       sp \<leftarrow> rd32 (mem s2) double_blk_ptr (4 * dbl1);
       if dbl1 < 64 then
         unlink_outer inode num_blks double_blk_ptr False sp idx1 dbl1 blk1 s2
       else Some s2 }) }"

definition unlink_blocks :: "addr \<Rightarrow> 'a fs_scheme \<Rightarrow> 'a fs_scheme option" where
  "unlink_blocks inode s = do {
     double_blk_ptr \<leftarrow> rd32 (mem s) inode i_double;
     single_blk_ptr \<leftarrow> rd32 (mem s) inode i_indirect;
     sz \<leftarrow> rd32 (mem s) inode i_size;
     (let num_blks = (if sz mod UFS_BLOCK_SIZE \<noteq> 0 then sz div UFS_BLOCK_SIZE + 1
                      else sz div UFS_BLOCK_SIZE) in
      if num_blks = 0 then Some s
      else do {
        s1 \<leftarrow> unlink_outer inode num_blks double_blk_ptr True single_blk_ptr 0 0 0 s;
        if double_blk_ptr \<noteq> 0 then do {
          b \<leftarrow> rd32 (mem s1) double_blk_ptr 0; dealloc_block b s1 }
        else Some s1 }) }"

text \<open>
  The directory entry with the inode's number, cleared. The cast to \<open>uint16_t\<close> applies to the
  distance in bytes, before the division by the size of an inode.
\<close>

fun clear_dirent :: "mem \<Rightarrow> addr \<Rightarrow> u32 \<Rightarrow> nat \<Rightarrow> nat \<Rightarrow> mem option" where
  "clear_dirent m parent dist i 0 = Some m"
| "clear_dirent m parent dist i (Suc n) = do {
     d \<leftarrow> rd32 m parent i_dirblock;
     num \<leftarrow> rd16 m d (of_nat (16 * i) + 14);
     if (ucast num :: u32) = ucast (ucast dist :: u16) div 64 then memset m (entry_addr d i) 0 16
     else clear_dirent m parent dist (i + 1) n }"

definition rd_unlink :: "addr \<Rightarrow> 'a fs_scheme \<Rightarrow> (u32 \<times> 'a fs_scheme) option" where
  "rd_unlink path s =
     (if path = 0 then Some (EBADPATH, s)
      else do {
        inode \<leftarrow> get_file_inode path (root_blk s) s;
        (parent, s1) \<leftarrow> get_parent_dir_inode path (root_blk s) s;
        if inode = 0 then Some (EBADPATH, s1)
        else do {
          busy \<leftarrow> is_open (mem s1) (current_task s1) inode 0 (unat NUM_MAX_FD);
          if busy then Some (EINVAL, s1)
          else do {
            ty \<leftarrow> rd32 (mem s1) inode i_type;
            refuse \<leftarrow> (if ty = INODE_DIR then
                if inode = inode_array s1 then Some True
                else do {
                  d \<leftarrow> rd32 (mem s1) inode i_dirblock;
                  dir_in_use (mem s1) d 0 UFS_MAX_FILE_IN_DIR }
              else Some False);
            if refuse then Some (EINVAL, s1)
            else do {
              s2 \<leftarrow> unlink_blocks inode s1;
              m3 \<leftarrow> clear_dirent (mem s2) parent (inode - inode_array s2) 0 UFS_MAX_FILE_IN_DIR;
              s4 \<leftarrow> lock_fs (s2\<lparr>mem := m3\<rparr>);
              m5 \<leftarrow> memset (mem s4) inode 0 64;
              Some (0, unlock_fs (s4\<lparr>mem := m5\<rparr>)) } } } })"

end
