(* ===== verification/Ramdisk_Blocks.thy ===== *)
theory Ramdisk_Blocks
  imports Ramdisk
begin

text \<open>
  The block bitmap of the file system: \<open>marked m bm i\<close> is bit \<open>i\<close> of the bitmap at \<open>bm\<close>. Setting
  and getting a bit are inverse where the two routines agree on their range (indexes up to 1024);
  \<open>alloc_block\<close> marks and returns the lowest free block there, and keeps returning one and the same
  block beyond it.

  \<open>disk_at s b\<close> says that the file system's pointers are those \<open>init_rdisk\<close> leaves for a disk at
  position \<open>b\<close>: inodes at 0x4000, the bitmap at 0x24000, blocks from 0x64000 on.
\<close>

section \<open>The bitmap\<close>

definition marked :: "mem \<Rightarrow> addr \<Rightarrow> nat \<Rightarrow> bool" where
  "marked m bm i \<longleftrightarrow> bit (m (bm + of_nat (i div 8))) (i mod 8)"

lemma small_index:
  assumes "i < 2147483648"
  shows "0 \<le> sint (of_nat i :: u32)" and "(of_nat i :: u32) div 8 = of_nat (i div 8)"
    and "unat ((of_nat i :: u32) mod 8) = i mod 8"
proof -
  have u: "unat (of_nat i :: u32) = i" using assms by simp
  show "0 \<le> sint (of_nat i :: u32)" using assms
    by (simp add: signed_of_nat signed_take_bit_int_eq_self)
  show "(of_nat i :: u32) div 8 = of_nat (i div 8)"
    using assms u by (simp add: word_unat_eq_iff unat_div)
  show "unat ((of_nat i :: u32) mod 8) = i mod 8" using u by (simp add: unat_mod)
qed

lemma get_bit:
  assumes "i \<le> 2048" and "blk_bitmap s \<noteq> 0"
  shows "get_blk_bitmap (of_nat i) s = Some (marked (mem s) (blk_bitmap s) i)"
proof -
  have le: "\<not> (of_nat i :: u32) > UFS_NUM_MAX_INODES"
    using assms(1) by (simp add: UFS_NUM_MAX_INODES_def word_less_nat_alt)
  have "drop_bit k v AND 1 \<noteq> 0 \<longleftrightarrow> bit v k" for k and v :: u8
    by (simp add: bit_iff_odd_drop_bit and_one_eq odd_iff_mod_2_eq_one)
  then show ?thesis using assms le small_index [of i]
    by (simp add: get_blk_bitmap_def marked_def)
qed

definition set_mark :: "mem \<Rightarrow> addr \<Rightarrow> nat \<Rightarrow> bool \<Rightarrow> mem" where
  "set_mark m bm i b = m(bm + of_nat (i div 8) :=
     if b then m (bm + of_nat (i div 8)) OR push_bit (i mod 8) 1
     else m (bm + of_nat (i div 8)) AND NOT (push_bit (i mod 8) 1))"

lemma set_bit:
  assumes "i \<le> 1024" and "blk_bitmap s \<noteq> 0"
  shows "set_blk_bitmap (of_nat i) b s = Some (s\<lparr>mem := set_mark (mem s) (blk_bitmap s) i b\<rparr>)"
proof -
  have "\<not> (of_nat i :: u32) > UFS_NUM_BITMAP_BLOCKS * UFS_BLOCK_SIZE"
    using assms(1) by (simp add: UFS_NUM_BITMAP_BLOCKS_def UFS_BLOCK_SIZE_def word_less_nat_alt)
  then show ?thesis using assms small_index [of i]
    by (simp add: set_blk_bitmap_def set_mark_def)
qed

lemma set_bit_ignored:
  assumes "1024 < i" and "i < 2147483648"
  shows "set_blk_bitmap (of_nat i) b s = Some s"
  using assms
  by (simp add: set_blk_bitmap_def UFS_NUM_BITMAP_BLOCKS_def UFS_BLOCK_SIZE_def word_less_nat_alt)

lemma set_mark_marked:
  assumes "unat bm + 257 \<le> two32" and "i \<le> 2048" and "j \<le> 2048"
  shows "marked (set_mark m bm i b) bm j = (if j = i then b else marked m bm j)"
proof (cases "i div 8 = j div 8")
  case True
  then have "j = i \<longleftrightarrow> j mod 8 = i mod 8" by (metis div_mult_mod_eq)
  moreover have "i mod 8 < 8" "j mod 8 < 8" by simp_all
  ultimately show ?thesis using True by (auto simp: marked_def set_mark_def bit_simps)
next
  case False
  have "i div 8 < 257" "j div 8 < 257" using assms by auto
  then have "(of_nat (j div 8) :: u32) \<noteq> of_nat (i div 8)" using False by (simp add: of_nat_inj_fit)
  then have "bm + of_nat (j div 8) \<noteq> bm + of_nat (i div 8)" by simp
  with False show ?thesis by (auto simp: marked_def set_mark_def)
qed

lemma set_mark_frame:
  assumes "unat bm + 257 \<le> two32" and "i \<le> 1024"
  shows "eq_out (region bm 129) m (set_mark m bm i b)"
  using in_region_of_nat [of bm 129 "i div 8"] assms by (auto simp: eq_out_def set_mark_def)

section \<open>Allocation\<close>

lemma scan_marked:
  assumes "blk_bitmap s \<noteq> 0" and "\<forall>j < k. marked (mem s) (blk_bitmap s) (i + j)" and "i + k \<le> 2048"
    and "\<not> marked (mem s) (blk_bitmap s) (i + k)" and "k < n"
  shows "scan_bitmap i n s = do {
     s1 \<leftarrow> set_blk_bitmap (of_nat (i + k)) True s;
     Some (root_blk s + of_nat (i + k) * UFS_BLOCK_SIZE, s1) }"
  using assms(2-)
proof (induction k arbitrary: i n)
  case 0
  then show ?case using get_bit [of i s] assms(1) by (cases n) auto
next
  case (Suc k)
  from Suc.prems obtain n' where n: "n = Suc n'" by (cases n) auto
  have "marked (mem s) (blk_bitmap s) i" using Suc.prems(1) by force
  moreover have "\<forall>j < k. marked (mem s) (blk_bitmap s) (Suc i + j)" using Suc.prems(1) by force
  ultimately show ?case
    using get_bit [of i s] assms(1) Suc.IH [of "Suc i" n'] Suc.prems n by simp
qed

lemma lock_free: "fs_head_lock s = 1 \<Longrightarrow> lock_fs s = Some (s\<lparr>fs_head_lock := 0\<rparr>)"
  by (simp add: lock_fs_def kthread_mutex_lock.simps)

lemma relock [simp]: "fs_head_lock s = 1 \<Longrightarrow> s\<lparr>mem := m, fs_head_lock := 1\<rparr> = s\<lparr>mem := m\<rparr>"
  by (cases s) simp

lemma relock2 [simp]: "fs_head_lock s = 1 \<Longrightarrow> s\<lparr>fs_head_lock := 1\<rparr> = s"
  by (cases s) simp

text \<open>The lowest free block is the one returned.\<close>

definition first_free :: "mem \<Rightarrow> addr \<Rightarrow> nat \<Rightarrow> bool" where
  "first_free m bm i \<longleftrightarrow> \<not> marked m bm i \<and> (\<forall>j < i. marked m bm j)"

lemma alloc_marks:
  assumes "fs_head_lock s = 1" and "blk_bitmap s \<noteq> 0" and "i \<le> 1024"
    and "first_free (mem s) (blk_bitmap s) i"
  shows "alloc_block s = Some (root_blk s + of_nat (256 * i), s\<lparr>mem := set_mark (mem s) (blk_bitmap s) i True\<rparr>)"
proof -
  have "unat (8 * UFS_NUM_BITMAP_BLOCKS * UFS_BLOCK_SIZE) = 8192"
    by (simp add: UFS_NUM_BITMAP_BLOCKS_def UFS_BLOCK_SIZE_def)
  then show ?thesis
    using assms scan_marked [of "s\<lparr>fs_head_lock := 0\<rparr>" i 0 8192] set_bit [of i "s\<lparr>fs_head_lock := 0\<rparr>" True]
    by (simp add: alloc_block_def lock_free unlock_fs_def kthread_mutex_unlock_def first_free_def
        UFS_BLOCK_SIZE_def mult.commute)
qed

lemma alloc_repeats:
  assumes "fs_head_lock s = 1" and "blk_bitmap s \<noteq> 0" and "1024 < i" and "i \<le> 2048"
    and "first_free (mem s) (blk_bitmap s) i"
  shows "alloc_block s = Some (root_blk s + of_nat (256 * i), s)"
proof -
  have "unat (8 * UFS_NUM_BITMAP_BLOCKS * UFS_BLOCK_SIZE) = 8192"
    by (simp add: UFS_NUM_BITMAP_BLOCKS_def UFS_BLOCK_SIZE_def)
  then show ?thesis
    using assms scan_marked [of "s\<lparr>fs_head_lock := 0\<rparr>" i 0 8192]
      set_bit_ignored [of i True "s\<lparr>fs_head_lock := 0\<rparr>"]
    by (simp add: alloc_block_def lock_free unlock_fs_def kthread_mutex_unlock_def first_free_def
        UFS_BLOCK_SIZE_def mult.commute)
qed

section \<open>The disk\<close>

definition disk_at :: "'a fs_scheme \<Rightarrow> nat \<Rightarrow> bool" where
  "disk_at s b \<longleftrightarrow> 0 < b \<and> b + 0x200000 \<le> two32 \<and> inode_array s = of_nat (b + 0x4000) \<and>
     blk_bitmap s = of_nat (b + 0x24000) \<and> root_blk s = of_nat (b + 0x64000) \<and> fs_head_lock s = 1"

definition blk_pos :: "nat \<Rightarrow> nat \<Rightarrow> nat" where
  "blk_pos b i = b + 0x64000 + 256 * i"

definition bits :: "nat \<Rightarrow> addr set" where
  "bits b = zone (b + 0x24000) 129"

definition free_blocks :: "nat \<Rightarrow> mem \<Rightarrow> nat set" where
  "free_blocks b m = {i. i \<le> 1024 \<and> \<not> marked m (of_nat (b + 0x24000)) i}"

lemma finite_free [simp]: "finite (free_blocks b m)"
  by (simp add: free_blocks_def)

lemma disk_at_mem: "disk_at s b \<Longrightarrow> disk_at (s\<lparr>mem := m\<rparr>) b"
  by (simp add: disk_at_def)

lemma free_blocks_frame:
  assumes "b + 0x200000 \<le> two32" and "eq_out A m m'" and "A \<inter> bits b = {}"
  shows "free_blocks b m' = free_blocks b m"
proof -
  have "marked m' (of_nat (b + 0x24000)) i = marked m (of_nat (b + 0x24000)) i" if "i \<le> 1024" for i
  proof -
    have "unat (of_nat (b + 0x24000) + of_nat (i div 8) :: addr) = b + 0x24000 + i div 8"
      using that assms(1) unat_plus_of_nat [of "of_nat (b + 0x24000)" "i div 8"] by simp
    then have "of_nat (b + 0x24000) + of_nat (i div 8) \<in> bits b" using that by (simp add: bits_def zone_def)
    then show ?thesis using assms(2,3) by (auto simp: marked_def dest!: eq_outD)
  qed
  then show ?thesis by (auto simp: free_blocks_def)
qed

lemma alloc_disk:
  assumes d: "disk_at s b" and f: "free_blocks b (mem s) \<noteq> {}"
  shows "\<exists>m'. alloc_block s = Some (of_nat (blk_pos b (Min (free_blocks b (mem s)))), s\<lparr>mem := m'\<rparr>) \<and>
     eq_out (bits b) (mem s) m' \<and> free_blocks b m' = free_blocks b (mem s) - {Min (free_blocks b (mem s))}"
proof -
  let ?bm = "of_nat (b + 0x24000) :: addr" and ?F = "free_blocks b (mem s)"
  define i where "i = Min ?F"
  have i: "i \<in> ?F" using f by (simp add: i_def)
  have least: "marked (mem s) ?bm j" if "j < i" for j
  proof (rule ccontr)
    assume "\<not> marked (mem s) ?bm j"
    then have "j \<in> ?F" using that i by (simp add: free_blocks_def)
    then have "i \<le> j" by (simp add: i_def)
    with that show False by simp
  qed
  have i1: "i \<le> 1024" and ff: "first_free (mem s) ?bm i"
    using i least by (auto simp: free_blocks_def first_free_def)
  have bm: "blk_bitmap s = ?bm" "?bm \<noteq> 0" "unat ?bm = b + 0x24000" "unat ?bm + 257 \<le> two32"
    and root: "root_blk s = of_nat (b + 0x64000)" "fs_head_lock s = 1"
    using d by (auto simp: disk_at_def simp del: of_nat_add)
  let ?m = "set_mark (mem s) ?bm i True"
  have "alloc_block s = Some (of_nat (blk_pos b i), s\<lparr>mem := ?m\<rparr>)"
    using alloc_marks [of s i] bm root i1 ff by (simp add: blk_pos_def algebra_simps)
  moreover have "eq_out (bits b) (mem s) ?m"
    using set_mark_frame [OF bm(4) i1] bm(3) by (simp add: bits_def zone_def region_def)
  moreover have "free_blocks b ?m = ?F - {i}"
    using set_mark_marked [OF bm(4), of i] i1 by (auto simp: free_blocks_def simp del: of_nat_add split: if_splits)
  ultimately show ?thesis by (auto simp: i_def)
qed

text \<open>
  What the file operations rely on: allocation returns a free block and takes it, touching only
  memory of its own, and writes elsewhere do not disturb it.
\<close>

locale block_pool =
  fixes ready :: "'s \<Rightarrow> bool" and contents :: "'s \<Rightarrow> mem" and store :: "mem \<Rightarrow> 's \<Rightarrow> 's"
    and free :: "mem \<Rightarrow> nat set" and place :: "nat \<Rightarrow> addr" and own :: "addr set"
    and alloc :: "'s \<Rightarrow> (addr \<times> 's) option"
  assumes alloc_ready: "ready s \<Longrightarrow> free (contents s) \<noteq> {} \<Longrightarrow>
      \<exists>i m'. alloc s = Some (place i, store m' s) \<and> i \<in> free (contents s) \<and>
        eq_out own (contents s) m' \<and> free m' = free (contents s) - {i}"
    and store_ready: "ready s \<Longrightarrow> ready (store m s) \<and> contents (store m s) = m \<and> store m' (store m s) = store m' s"
    and free_frame: "ready s \<Longrightarrow> eq_out A m m' \<Longrightarrow> A \<inter> own = {} \<Longrightarrow> free m' = free m"
    and free_finite: "finite (free m)"
begin

text \<open>Allocate, then write outside the pool's memory: the new block is taken and the rest is free.\<close>

lemma alloc_then_write:
  assumes "ready s" and "free (contents s) \<noteq> {}"
  shows "\<exists>i m1. alloc s = Some (place i, store m1 s) \<and> i \<in> free (contents s) \<and>
     eq_out own (contents s) m1 \<and>
     (\<forall>A m2. eq_out A m1 m2 \<longrightarrow> A \<inter> own = {} \<longrightarrow> free m2 = free (contents s) - {i} \<and>
        card (free m2) = card (free (contents s)) - 1 \<and> ready (store m2 s))"
proof -
  obtain i m1 where a: "alloc s = Some (place i, store m1 s)" "i \<in> free (contents s)"
    "eq_out own (contents s) m1" "free m1 = free (contents s) - {i}"
    using alloc_ready [OF assms] by blast
  moreover have "free m2 = free (contents s) - {i} \<and> card (free m2) = card (free (contents s)) - 1 \<and>
      ready (store m2 s)" if "eq_out A m1 m2" "A \<inter> own = {}" for A m2
    using free_frame [OF assms(1) that] a(2,4) free_finite store_ready [OF assms(1)] by simp
  ultimately show ?thesis by blast
qed

end

interpretation pool: block_pool "\<lambda>s. disk_at s b" mem "\<lambda>m. mem_update (\<lambda>_. m)" "free_blocks b"
    "\<lambda>i. of_nat (blk_pos b i)" "bits b" alloc_block
  for b
proof
  fix s :: "'a fs_scheme" assume "disk_at s b" "free_blocks b (mem s) \<noteq> {}"
  then show "\<exists>i m'. alloc_block s = Some (of_nat (blk_pos b i), s\<lparr>mem := m'\<rparr>) \<and> i \<in> free_blocks b (mem s) \<and>
      eq_out (bits b) (mem s) m' \<and> free_blocks b m' = free_blocks b (mem s) - {i}"
    using alloc_disk [of s b] Min_in [OF finite_free] by blast
next
  fix s :: "'a fs_scheme" and A m m' assume "disk_at s b" "eq_out A m m'" "A \<inter> bits b = {}"
  then show "free_blocks b m' = free_blocks b m"
    by (intro free_blocks_frame) (auto simp: disk_at_def)
qed (auto simp: disk_at_mem)

lemma dealloc_disk:
  assumes d: "disk_at s b" and i: "i \<le> 1024"
  shows "dealloc_block (of_nat (blk_pos b i)) s =
     Some (if i \<le> 16 then s\<lparr>mem := set_mark (mem s) (of_nat (b + 0x24000)) (64 * i) False\<rparr> else s)"
proof -
  have l: "fs_head_lock s = 1" and r: "root_blk s = of_nat (b + 0x64000)"
    and bm: "blk_bitmap s = of_nat (b + 0x24000)" "blk_bitmap s \<noteq> 0"
    using d by (auto simp: disk_at_def simp del: of_nat_add)
  have "(of_nat (blk_pos b i) :: addr) - of_nat (b + 0x64000) = of_nat (256 * i)"
    by (simp add: blk_pos_def)
  also have "of_nat (256 * i) div (4 :: u32) = of_nat (64 * i)"
    using i by (simp add: word_unat_eq_iff unat_div del: of_nat_mult)
  finally have ix: "(of_nat (blk_pos b i) - of_nat (b + 0x64000)) div (4 :: u32) = of_nat (64 * i)"
    using i by (simp add: blk_pos_def)
  show ?thesis
  proof (cases "i \<le> 16")
    case True
    then show ?thesis
      using l r bm ix set_bit [of "64 * i" "s\<lparr>fs_head_lock := 0\<rparr>" False]
      by (simp add: dealloc_block_def lock_free unlock_fs_def kthread_mutex_unlock_def del: of_nat_add of_nat_mult)
  next
    case False
    then show ?thesis
      using l r ix i set_bit_ignored [of "64 * i" False "s\<lparr>fs_head_lock := 0\<rparr>"]
      by (simp add: dealloc_block_def lock_free unlock_fs_def kthread_mutex_unlock_def del: of_nat_add of_nat_mult)
  qed
qed

section \<open>Properties\<close>

text \<open>
  With the file system's lock free and a free block among the first 1025, \<open>alloc_block\<close> returns
  the address of the lowest one, marks it and no other, releases the lock, and changes nothing
  but that byte of the bitmap.
\<close>

lemma alloc_block_lowest:
  assumes "disk_at s b" and "i \<le> 1024" and "first_free (mem s) (blk_bitmap s) i"
  shows "\<exists>m'. alloc_block s = Some (of_nat (b + 0x64000 + 256 * i), s\<lparr>mem := m'\<rparr>) \<and>
     (\<forall>j \<le> 2048. marked m' (blk_bitmap s) j \<longleftrightarrow> j = i \<or> marked (mem s) (blk_bitmap s) j) \<and>
     eq_out {blk_bitmap s + of_nat (i div 8)} (mem s) m'"
proof -
  have bm: "blk_bitmap s \<noteq> 0" "unat (blk_bitmap s) + 257 \<le> two32" "fs_head_lock s = 1"
    "root_blk s = of_nat (b + 0x64000)"
    using assms(1) by (auto simp: disk_at_def simp del: of_nat_add)
  let ?m = "set_mark (mem s) (blk_bitmap s) i True"
  have "alloc_block s = Some (of_nat (b + 0x64000 + 256 * i), s\<lparr>mem := ?m\<rparr>)"
    using alloc_marks [OF bm(3,1) assms(2,3)] bm(4) by (simp add: algebra_simps)
  moreover have "eq_out {blk_bitmap s + of_nat (i div 8)} (mem s) ?m"
    by (simp add: eq_out_def set_mark_def)
  ultimately show ?thesis using set_mark_marked [OF bm(2)] assms(2) by (intro exI [of _ ?m]) auto
qed

text \<open>A disk at 1 MB whose bitmap is given; everything else is zero.\<close>

definition demo_fs :: "mem \<Rightarrow> fs" where
  "demo_fs m = \<lparr>mem = m, ports = [], ATTRIBUTE = 7, xpos = 0, ypos = 0, video = VIDEO,
     store_global_head = 0, mem_store_base = 0, mem_store_end = 0, mem_store_size = 0,
     global_sched_lock = 1, thread_count = 1, tid_counter = 1, jiffies = 0, idle_task = 0,
     current_task = 0x80000, runq_head = 0, waitq_head = 0, doneq_head = 0, do_idle_ptr = 0,
     finalize_ptr = 0, superblk = 0x100000, inode_array = 0x104000, blk_bitmap = 0x124000,
     root_blk = 0x164000, fs_head_lock = 1, lit_delim = 0x90000\<rparr>"

lemma demo_fs_sel [simp]:
  "mem (demo_fs m) = m" "blk_bitmap (demo_fs m) = 0x124000" "inode_array (demo_fs m) = 0x104000"
  "root_blk (demo_fs m) = 0x164000" "fs_head_lock (demo_fs m) = 1" "current_task (demo_fs m) = 0x80000"
  "lit_delim (demo_fs m) = 0x90000" "demo_fs m\<lparr>mem := m'\<rparr> = demo_fs m'"
  by (simp_all add: demo_fs_def)

lemma demo_fs_disk: "disk_at (demo_fs m) 0x100000"
  by (simp add: disk_at_def)

text \<open>
  Once the first 1025 blocks are taken, \<open>alloc_block\<close> returns the next unmarked block without
  marking it, because the setter refuses indexes above 1024 and the getter does not; every further
  call returns the same block again, to different files.
\<close>

lemma alloc_block_shared:
  assumes "disk_at s b" and "1024 < i" and "i \<le> 2048" and "first_free (mem s) (blk_bitmap s) i"
  shows "alloc_block s = Some (of_nat (b + 0x64000 + 256 * i), s) \<and>
     (do { (p, s1) \<leftarrow> alloc_block s; (q, s2) \<leftarrow> alloc_block s1; Some (p = q) }) = Some True"
proof -
  have bm: "blk_bitmap s \<noteq> 0" "fs_head_lock s = 1" "root_blk s = of_nat (b + 0x64000)"
    using assms(1) by (auto simp: disk_at_def simp del: of_nat_add)
  have "alloc_block s = Some (of_nat (b + 0x64000 + 256 * i), s)"
    using alloc_repeats [OF bm(2,1) assms(2-4)] bm(3) by (simp add: algebra_simps)
  then show ?thesis by simp
qed

lemma alloc_block_shared_example:
  "alloc_block (demo_fs (\<lambda>a. if a = 0x124080 then 1 else 0xFF)) =
     Some (0x1A4100, demo_fs (\<lambda>a. if a = 0x124080 then 1 else 0xFF))"
proof -
  let ?m = "\<lambda>a :: addr. if a = 0x124080 then 1 else 0xFF :: u8" and ?bm = "0x124000 :: addr"
  have full: "bit (0xFF :: u8) (j mod 8)" for j :: nat
  proof -
    have f: "(0xFF :: u8) = - 1" by simp
    show ?thesis unfolding f by (simp add: bit_minus_1_iff)
  qed
  have "marked ?m ?bm j" if "j < 1025" for j
  proof (cases "j = 1024")
    case False
    then have "j div 8 < 128" using that by auto
    then have "(of_nat (j div 8) :: u32) \<noteq> of_nat 128" by (subst of_nat_inj_fit) auto
    then have "?bm + of_nat (j div 8) \<noteq> 0x124080" by auto
    then show ?thesis using full [of j] by (simp add: marked_def)
  qed (simp add: marked_def)
  then have "first_free (mem (demo_fs ?m)) (blk_bitmap (demo_fs ?m)) 1025"
    by (simp add: first_free_def marked_def)
  from alloc_block_shared [OF demo_fs_disk _ _ this] show ?thesis by simp
qed

text \<open>
  Freeing a block clears the mark of another: the index is the distance in bytes divided by
  four instead of 256, so block \<open>i\<close> stays marked for every \<open>i\<close> but 0, while block \<open>64 * i\<close> loses its
  mark (or nothing changes, beyond index 1024).
\<close>

lemma dealloc_block_misses:
  assumes "disk_at s b" and "0 < i" and "i \<le> 1024" and "marked (mem s) (blk_bitmap s) i"
  shows "\<exists>m'. dealloc_block (of_nat (b + 0x64000 + 256 * i)) s = Some (s\<lparr>mem := m'\<rparr>) \<and>
     marked m' (blk_bitmap s) i \<and>
     (\<forall>j \<le> 1024. marked m' (blk_bitmap s) j \<longleftrightarrow> marked (mem s) (blk_bitmap s) j \<and> j \<noteq> 64 * i)"
proof (cases "i \<le> 16")
  case True
  have bm: "unat (blk_bitmap s) + 257 \<le> two32" "blk_bitmap s = of_nat (b + 0x24000)"
    using assms(1) by (auto simp: disk_at_def simp del: of_nat_add)
  let ?m = "set_mark (mem s) (blk_bitmap s) (64 * i) False"
  have "dealloc_block (of_nat (b + 0x64000 + 256 * i)) s = Some (s\<lparr>mem := ?m\<rparr>)"
    using dealloc_disk [OF assms(1,3)] True bm(2) by (simp add: blk_pos_def)
  then show ?thesis using set_mark_marked [OF bm(1), of "64 * i"] True assms
    by (intro exI [of _ ?m]) auto
next
  case False
  then have "dealloc_block (of_nat (b + 0x64000 + 256 * i)) s = Some (s\<lparr>mem := mem s\<rparr>)"
    using dealloc_disk [OF assms(1,3)] by (simp add: blk_pos_def)
  with False assms show ?thesis by (intro exI [of _ "mem s"]) auto
qed

lemma dealloc_block_misses_example:
  "\<exists>m'. dealloc_block 0x164100 (demo_fs (\<lambda>a. if a = 0x124000 then 2 else 0)) = Some (demo_fs m') \<and>
     marked m' 0x124000 1"
  using dealloc_block_misses [OF demo_fs_disk, of 1 "\<lambda>a. if a = 0x124000 then 2 else 0"]
  by (auto simp: marked_def)

end
