(* ===== verification/Ramdisk_Files.thy ===== *)
theory Ramdisk_Files
  imports Ramdisk_Blocks
begin

text \<open>
  Reading and writing of files that fit the direct blocks of an inode. The byte loops copy a block
  at a time (\<open>moved\<close> of the C library's theory); the outer loops walk the direct blocks, which a
  write on an empty file allocates one after the other. What a write stored, a read after a seek to
  the start returns.
\<close>

section \<open>The byte loops\<close>

definition away :: "addr \<Rightarrow> nat \<Rightarrow> addr \<Rightarrow> nat \<Rightarrow> bool" where
  "away p n q k \<longleftrightarrow> unat p + n \<le> unat q \<or> unat q + k \<le> unat p"

lemma moved_step:
  assumes "unat d + Suc k \<le> two32" and "unat p + Suc k \<le> two32" and "away d (Suc k) p (Suc k)"
  shows "moved (m(d := m p)) (d + 1) (p + 1) k = moved m d p (Suc k)"
proof (rule ext)
  fix a
  have reg: "region d (Suc k) = insert d (region (d + 1) k)" by (rule region_Suc [OF assms(1)])
  show "moved (m(d := m p)) (d + 1) (p + 1) k a = moved m d p (Suc k) a"
  proof (cases "a \<in> region (d + 1) k")
    case True
    then have "k \<noteq> 0" by (auto simp: region_def)
    then have d1: "unat (d + 1) = unat d + 1" and p1: "unat (p + 1) = unat p + 1"
      using assms by simp_all
    have a: "unat d + 1 \<le> unat a" "unat a < unat d + 1 + k" using True d1 by (auto simp: region_def)
    have "unat (p + 1 + (a - (d + 1))) = unat p + 1 + (unat a - (unat d + 1))"
      using unat_offset [of "d + 1" a "p + 1"] a assms d1 p1 by simp
    then have "unat (p + 1 + (a - (d + 1))) \<noteq> unat d" using a assms(3) by (simp add: away_def) linarith
    then have "p + 1 + (a - (d + 1)) \<noteq> d" by metis
    moreover have "p + 1 + (a - (d + 1)) = p + (a - d)" by simp
    ultimately show ?thesis using True reg by (simp add: moved_def)
  next
    case False
    then show ?thesis using reg by (auto simp: moved_def)
  qed
qed

lemma moved_one: "unat d + 1 \<le> two32 \<Longrightarrow> moved m d p 1 = m(d := m p)"
  using region_Suc [of d 0] by (auto simp: moved_def)

lemma moved_frame: "unat d + k \<le> two32 \<Longrightarrow> eq_out (region d k) m (moved m d p k)"
  by (simp add: eq_out_def moved_def)

lemma moved_nth:
  assumes "unat d + k \<le> two32" and "i < k"
  shows "moved m d p k (d + of_nat i) = m (p + of_nat i)"
  using in_region_of_nat [OF assms] by (simp add: moved_def)

lemma write_block_moves:
  assumes "blk \<noteq> 0" "unat blk + 256 \<le> two32" "fo \<noteq> 0" "ino \<noteq> 0"
    and "unat off + n = 256" "buf \<noteq> 0" "unat buf + r \<le> two32" "away buf r blk 256" "0 < r"
    and "unat actual = unat cnt + r"
    and "\<And>m'. eq_out (region blk 256) m m' \<Longrightarrow> ld32 m' (fo + 8) = ld32 m' (ino + 4)"
  shows "write_block fo ino m buf blk off cnt actual n =
     Some (moved m (blk + off) buf (min n r), buf + of_nat (min n r), cnt + of_nat (min n r))"
  using assms(5-)
proof (induction n arbitrary: m buf off cnt r)
  case 0
  then show ?case by (simp add: moved_def)
next
  case (Suc n)
  let ?m1 = "m(blk + off := m buf)"
  have off: "unat (blk + off) = unat blk + unat off" using assms(2) Suc.prems(1) by (simp add: unat_plus_fit)
  have test: "\<not> cnt < ld32 m (fo + 8) - ld32 m (ino + 4)" using Suc.prems(7) [of m] by simp
  have eq1: "eq_out (region blk 256) m ?m1"
    using off Suc.prems(1) by (auto simp: eq_out_def region_def)
  have last: "cnt + 1 = actual \<longleftrightarrow> r = 1"
    using Suc.prems(5,6) unat_lt_two32 [of actual] by (auto simp: word_unat_eq_iff)
  show ?case
  proof (cases "r = 1")
    case True
    have "moved m (blk + off) buf 1 = ?m1"
      by (rule moved_one) (use off assms(2) Suc.prems(1) in simp)
    then show ?thesis using True test last assms(1,3,4) Suc.prems(2) by (simp add: fun_upd_def)
  next
    case False
    then have r: "1 < r" using Suc.prems(5) by simp
    have b1: "unat (buf + 1) = unat buf + 1" "buf + 1 \<noteq> 0" using r Suc.prems(3) by (auto simp: word_unat_eq_iff)
    have o1: "unat (off + 1) = unat off + 1" using Suc.prems(1) by simp
    have c1: "unat (cnt + 1) = unat cnt + 1" using Suc.prems(6) r unat_lt_two32 [of actual] by simp
    have IH: "write_block fo ino ?m1 (buf + 1) blk (off + 1) (cnt + 1) actual n =
       Some (moved ?m1 (blk + (off + 1)) (buf + 1) (min n (r - 1)), buf + 1 + of_nat (min n (r - 1)),
         cnt + 1 + of_nat (min n (r - 1)))"
    proof (rule Suc.IH)
      show "unat (off + 1) + n = 256" using o1 Suc.prems(1) by simp
      show "buf + 1 \<noteq> 0" "unat (buf + 1) + (r - 1) \<le> two32" using b1 Suc.prems(3) r by auto
      show "away (buf + 1) (r - 1) blk 256" using b1 Suc.prems(4) r by (auto simp: away_def)
      show "0 < r - 1" "unat actual = unat (cnt + 1) + (r - 1)" using c1 r Suc.prems(6) by auto
      show "ld32 m' (fo + 8) = ld32 m' (ino + 4)" if "eq_out (region blk 256) ?m1 m'" for m'
        by (rule Suc.prems(7)) (rule eq_out_trans [OF eq1 that])
    qed
    let ?k = "min n (r - 1)"
    have k: "min (Suc n) r = Suc ?k" using r by simp
    have "moved ?m1 (blk + off + 1) (buf + 1) ?k = moved m (blk + off) buf (Suc ?k)"
      by (rule moved_step) (use off assms(2) Suc.prems(1,3,4) r in \<open>auto simp: away_def\<close>)
    then show ?thesis using IH test last False assms(1,3,4) Suc.prems(2)
      by (simp add: k add.assoc)
  qed
qed

lemma read_block_moves:
  assumes "blk \<noteq> 0" "unat blk + 256 \<le> two32"
    and "unat off + n = 256" "buf \<noteq> 0" "unat buf + r \<le> two32" "away buf r blk 256" "0 < r"
    and "unat num = unat cnt + r"
  shows "read_block m buf blk off cnt num n =
     Some (moved m buf (blk + off) (min n r), buf + of_nat (min n r), cnt + of_nat (min n r))"
  using assms(3-)
proof (induction n arbitrary: m buf off cnt r)
  case 0
  then show ?case by (simp add: moved_def)
next
  case (Suc n)
  let ?m1 = "m(buf := m (blk + off))"
  have off: "unat (blk + off) = unat blk + unat off" using assms(2) Suc.prems(1) by (simp add: unat_plus_fit)
  have last: "cnt + 1 = num \<longleftrightarrow> r = 1"
    using Suc.prems(5,6) unat_lt_two32 [of num] by (auto simp: word_unat_eq_iff)
  show ?case
  proof (cases "r = 1")
    case True
    have "moved m buf (blk + off) 1 = ?m1" by (rule moved_one) (use Suc.prems(3) True in simp)
    then show ?thesis using True last assms(1) Suc.prems(2) by (simp add: fun_upd_def)
  next
    case False
    then have r: "1 < r" using Suc.prems(5) by simp
    have b1: "unat (buf + 1) = unat buf + 1" "buf + 1 \<noteq> 0" using r Suc.prems(3) by (auto simp: word_unat_eq_iff)
    have o1: "unat (off + 1) = unat off + 1" using Suc.prems(1) by simp
    have c1: "unat (cnt + 1) = unat cnt + 1" using Suc.prems(6) r unat_lt_two32 [of num] by simp
    have IH: "read_block ?m1 (buf + 1) blk (off + 1) (cnt + 1) num n =
       Some (moved ?m1 (buf + 1) (blk + (off + 1)) (min n (r - 1)), buf + 1 + of_nat (min n (r - 1)),
         cnt + 1 + of_nat (min n (r - 1)))"
    proof (rule Suc.IH)
      show "unat (off + 1) + n = 256" using o1 Suc.prems(1) by simp
      show "buf + 1 \<noteq> 0" "unat (buf + 1) + (r - 1) \<le> two32" using b1 Suc.prems(3) r by auto
      show "away (buf + 1) (r - 1) blk 256" using b1 Suc.prems(4) r by (auto simp: away_def)
      show "0 < r - 1" "unat num = unat (cnt + 1) + (r - 1)" using c1 r Suc.prems(6) by auto
    qed
    let ?k = "min n (r - 1)"
    have k: "min (Suc n) r = Suc ?k" using r by simp
    have "moved ?m1 (buf + 1) (blk + off + 1) ?k = moved m buf (blk + off) (Suc ?k)"
      by (rule moved_step) (use off assms(2) Suc.prems(1,3,4) r in \<open>auto simp: away_def\<close>)
    then show ?thesis using IH last False assms(1) Suc.prems(2)
      by (simp add: k add.assoc)
  qed
qed

section \<open>Where things are\<close>

abbreviation disk :: "nat \<Rightarrow> addr set" where
  "disk b \<equiv> zone b 0x200000"

definition off_disk :: "nat \<Rightarrow> addr \<Rightarrow> nat \<Rightarrow> bool" where
  "off_disk b p n \<longleftrightarrow> p \<noteq> 0 \<and> unat p + n \<le> two32 \<and> (unat p + n \<le> b \<or> b + 0x200000 \<le> unat p)"

definition inode_pos :: "nat \<Rightarrow> nat \<Rightarrow> nat" where
  "inode_pos b k = b + 0x4000 + 64 * k"

text \<open>
  The entries from \<open>v\<close> on of the first \<open>lim\<close>. An inode has eight of them; a ninth is what the code that writes takes the
  pointer to the indirect block for.
\<close>

definition cells :: "nat \<Rightarrow> nat \<Rightarrow> nat \<Rightarrow> nat \<Rightarrow> addr set" where
  "cells b k lim v = zone (inode_pos b k + 16 + 4 * v) (4 * (lim - v))"

definition block :: "nat \<Rightarrow> nat \<Rightarrow> addr set" where
  "block b j = zone (blk_pos b j) 256"

lemmas place_defs = zone_def bits_def cells_def block_def blk_pos_def inode_pos_def

lemma disk_fit: "disk_at s b \<Longrightarrow> 0 < b \<and> b + 0x200000 \<le> two32"
  by (simp add: disk_at_def)

lemma unat_blk:
  assumes "b + 0x200000 \<le> two32" and "j \<le> 1024"
  shows "unat (of_nat (blk_pos b j) :: addr) = blk_pos b j" "blk_pos b j + 256 \<le> two32"
    "region (of_nat (blk_pos b j)) 256 = block b j"
proof -
  show u: "unat (of_nat (blk_pos b j) :: addr) = blk_pos b j" "blk_pos b j + 256 \<le> two32"
    using assms by (auto simp: blk_pos_def simp del: of_nat_add of_nat_mult)
  then show "region (of_nat (blk_pos b j)) 256 = block b j" by (simp add: region_def block_def zone_def)
qed

lemma unat_inode:
  assumes "b + 0x200000 \<le> two32" and "k < 2048" and "i \<le> 60"
  shows "unat (of_nat (inode_pos b k) :: addr) = inode_pos b k"
    "unat (of_nat (inode_pos b k) + of_nat i :: addr) = inode_pos b k + i"
    "region (of_nat (inode_pos b k) + of_nat i) 4 = zone (inode_pos b k + i) 4"
proof -
  show u: "unat (of_nat (inode_pos b k) :: addr) = inode_pos b k"
    using assms by (simp add: inode_pos_def del: of_nat_add of_nat_mult)
  then show v: "unat (of_nat (inode_pos b k) + of_nat i :: addr) = inode_pos b k + i"
    using assms unat_plus_of_nat [of "of_nat (inode_pos b k)" i] by (simp add: inode_pos_def)
  then show "region (of_nat (inode_pos b k) + of_nat i) 4 = zone (inode_pos b k + i) 4"
    by (simp add: region_def zone_def)
qed

lemma blocks_apart: "i \<noteq> j \<Longrightarrow> block b i \<inter> block b j = {}"
  by (auto simp: place_defs)

lemma places_apart:
  assumes "k < 2048" and "lim \<le> 9"
  shows "block b j \<inter> bits b = {}" "cells b k lim v \<inter> bits b = {}" "block b j \<inter> cells b k lim v = {}"
  using assms by (auto simp: place_defs)

lemma on_disk:
  assumes "k < 2048" and "lim \<le> 9" and "j \<le> 1024"
  shows "bits b \<subseteq> disk b" "cells b k lim v \<subseteq> disk b" "block b j \<subseteq> disk b"
  using assms by (auto simp: place_defs)

lemma off_disk_byte:
  assumes "eq_out A m m'" and "A \<subseteq> disk b" and "off_disk b p n" and "i < n"
  shows "m' (p + of_nat i) = m (p + of_nat i)"
proof (rule eq_outD [OF assms(1)])
  have "unat (p + of_nat i) = unat p + i" using assms(3,4) by (simp add: off_disk_def)
  then have "p + of_nat i \<notin> disk b" using assms(3,4) by (auto simp: off_disk_def zone_def)
  with assms(2) show "p + of_nat i \<notin> A" by blast
qed

lemma off_disk_word:
  assumes "eq_out A m m'" and "A \<subseteq> disk b" and "off_disk b p n" and "i + 4 \<le> n"
  shows "ld32 m' (p + of_nat i) = ld32 m (p + of_nat i)"
proof (rule eq_out_ld32 [OF assms(1)])
  have u: "unat (p + of_nat i) = unat p + i" using assms(3,4) by (simp add: off_disk_def)
  then show "unat (p + of_nat i) + 4 \<le> two32" using assms(3,4) by (simp add: off_disk_def)
  have "region (p + of_nat i) 4 \<inter> disk b = {}"
    using u assms(3,4) by (auto simp: off_disk_def zone_def region_def)
  with assms(2) show "region (p + of_nat i) 4 \<inter> A = {}" by blast
qed

lemma inode_word:
  assumes "eq_out A m m'" and "b + 0x200000 \<le> two32" and "k < 2048" and "i \<le> 60"
    and "zone (inode_pos b k + i) 4 \<inter> A = {}"
  shows "ld32 m' (of_nat (inode_pos b k) + of_nat i) = ld32 m (of_nat (inode_pos b k) + of_nat i)"
  by (rule eq_out_ld32 [OF assms(1)])
    (use unat_inode [OF assms(2-4)] assms(2,3,4,5) in \<open>auto simp: inode_pos_def\<close>)

lemma block_byte:
  assumes "eq_out A m m'" and "b + 0x200000 \<le> two32" and "j \<le> 1024" and "i < 256"
    and "block b j \<inter> A = {}"
  shows "m' (of_nat (blk_pos b j) + of_nat i) = m (of_nat (blk_pos b j) + of_nat i)"
proof (rule eq_outD [OF assms(1)])
  have "of_nat (blk_pos b j) + of_nat i \<in> region (of_nat (blk_pos b j) :: addr) 256"
    using unat_blk [OF assms(2,3)] assms(4) by (intro in_region_of_nat) auto
  with unat_blk(3) [OF assms(2,3)] assms(5) show "of_nat (blk_pos b j) + of_nat i \<notin> A" by auto
qed

section \<open>Writing\<close>

abbreviation inode :: "nat \<Rightarrow> nat \<Rightarrow> addr" where
  "inode b k \<equiv> of_nat (inode_pos b k)"

abbreviation blk :: "nat \<Rightarrow> nat \<Rightarrow> addr" where
  "blk b j \<equiv> of_nat (blk_pos b j)"

text \<open>An empty cell of an inode gets a new block.\<close>

lemma ensure_cell_new:
  assumes d: "disk_at s b" and k: "k < 2048" and v: "v < 9"
    and z: "ld32 (mem s) (inode b k + of_nat (16 + 4 * v)) = 0" and f: "free_blocks b (mem s) \<noteq> {}"
  shows "\<exists>i m'. ensure_cell (inode b k) (16 + 4 * of_nat v) s = Some (blk b i, s\<lparr>mem := m'\<rparr>) \<and>
     i \<in> free_blocks b (mem s) \<and> free_blocks b m' = free_blocks b (mem s) - {i} \<and>
     card (free_blocks b m') = card (free_blocks b (mem s)) - 1 \<and>
     eq_out (bits b \<union> zone (inode_pos b k + (16 + 4 * v)) 4) (mem s) m' \<and>
     ld32 m' (inode b k + of_nat (16 + 4 * v)) = blk b i"
proof -
  have fit: "b + 0x200000 \<le> two32" "0 < b" using disk_fit [OF d] by auto
  have cell: "inode b k + (16 + 4 * of_nat v) = inode b k + of_nat (16 + 4 * v)" by simp
  note u = unat_inode [OF fit(1) k, of "16 + 4 * v"]
  obtain i m1 where a: "alloc_block s = Some (blk b i, s\<lparr>mem := m1\<rparr>)" "i \<in> free_blocks b (mem s)"
    "eq_out (bits b) (mem s) m1"
    and w: "\<forall>A m2. eq_out A m1 m2 \<longrightarrow> A \<inter> bits b = {} \<longrightarrow>
      free_blocks b m2 = free_blocks b (mem s) - {i} \<and>
      card (free_blocks b m2) = card (free_blocks b (mem s)) - 1 \<and> disk_at (s\<lparr>mem := m2\<rparr>) b"
    using pool.alloc_then_write [of s b, OF d f] by blast
  let ?m2 = "st32 m1 (inode b k + of_nat (16 + 4 * v)) (blk b i)"
  have eq: "eq_out (zone (inode_pos b k + (16 + 4 * v)) 4) m1 ?m2"
    by (rule eq_out_st32) (use u v fit k in \<open>auto simp: inode_pos_def\<close>)
  have "zone (inode_pos b k + (16 + 4 * v)) 4 \<inter> bits b = {}" using k v by (auto simp: place_defs)
  with w eq have fr: "free_blocks b ?m2 = free_blocks b (mem s) - {i}"
    "card (free_blocks b ?m2) = card (free_blocks b (mem s)) - 1" by blast+
  have "eq_out (bits b \<union> zone (inode_pos b k + (16 + 4 * v)) 4) (mem s) ?m2"
    by (rule eq_out_trans [OF eq_out_mono [OF a(3)] eq_out_mono [OF eq]]) auto
  moreover have "inode b k \<noteq> 0" using fit k by (simp add: inode_pos_def del: of_nat_add of_nat_mult)
  ultimately show ?thesis
    using a z fr unfolding ensure_cell_def cell by (intro exI [of _ i] exI [of _ ?m2]) simp
qed

text \<open>
  A write has reached block \<open>j\<close>, the one of entry \<open>w\<close> of an empty file: the seek head and the size are still 0 and the entries
  after \<open>w\<close> are empty, of the first \<open>lim\<close>.
\<close>

definition writing :: "'a fs_scheme \<Rightarrow> nat \<Rightarrow> nat \<Rightarrow> addr \<Rightarrow> nat \<Rightarrow> nat \<Rightarrow> nat \<Rightarrow> bool" where
  "writing s b k fo lim w j \<longleftrightarrow> disk_at s b \<and> j \<le> 1024 \<and> j \<notin> free_blocks b (mem s) \<and>
     ld32 (mem s) (fo + of_nat 8) = 0 \<and> ld32 (mem s) (inode b k + of_nat 4) = 0 \<and>
     (\<forall>v. w < v \<longrightarrow> v < lim \<longrightarrow> ld32 (mem s) (inode b k + of_nat (16 + 4 * v)) = 0)"

lemma unat_block_size: "unat UFS_BLOCK_SIZE = 256"
  by (simp add: UFS_BLOCK_SIZE_def)

lemma write_one_block:
  assumes k: "k < 2048" and fo: "off_disk b fo 20" and wr: "writing s b k fo lim w j"
    and buf: "off_disk b buf r" "0 < r" and cnt: "unat actual = unat cnt + r"
  shows "write_block fo (inode b k) (mem s) buf (blk b j) 0 cnt actual 256 =
      Some (moved (mem s) (blk b j) buf (min 256 r), buf + of_nat (min 256 r), cnt + of_nat (min 256 r))"
    "eq_out (block b j) (mem s) (moved (mem s) (blk b j) buf (min 256 r))"
    "\<forall>i < min 256 r. moved (mem s) (blk b j) buf (min 256 r) (blk b j + of_nat i) = mem s (buf + of_nat i)"
proof -
  let ?m = "mem s" and ?k = "min 256 r"
  have d: "disk_at s b" and j: "j \<le> 1024" and sk: "ld32 ?m (fo + of_nat 8) = 0" "ld32 ?m (inode b k + of_nat 4) = 0"
    using wr by (auto simp: writing_def)
  have fit: "b + 0x200000 \<le> two32" "0 < b" using disk_fit [OF d] by auto
  note ub = unat_blk [OF fit(1) j]
  have nz: "blk b j \<noteq> 0" "inode b k \<noteq> 0" "fo \<noteq> 0" "buf \<noteq> 0"
    using ub fit fo buf k by (auto simp: off_disk_def blk_pos_def inode_pos_def simp del: of_nat_add of_nat_mult)
  have "write_block fo (inode b k) ?m buf (blk b j) 0 cnt actual 256 =
      Some (moved ?m (blk b j + 0) buf (min 256 r), buf + of_nat (min 256 r), cnt + of_nat (min 256 r))"
  proof (rule write_block_moves [OF nz(1) _ nz(3,2)])
    show "unat (blk b j) + 256 \<le> two32" using ub by simp
    show "unat (0 :: u32) + 256 = 256" "buf \<noteq> 0" "unat buf + r \<le> two32" "0 < r" "unat actual = unat cnt + r"
      using buf cnt by (auto simp: off_disk_def)
    show "away buf r (blk b j) 256"
      using buf ub j by (auto simp: off_disk_def away_def blk_pos_def)
    fix m' assume "eq_out (region (blk b j) 256) ?m m'"
    then have e: "eq_out (block b j) ?m m'" using ub by simp
    have "zone (inode_pos b k + 4) 4 \<inter> block b j = {}" using k by (auto simp: place_defs)
    with inode_word [OF e fit(1) k, of 4] off_disk_word [OF e on_disk(3) [OF k _ j] fo, of 8 8] sk
    show "ld32 m' (fo + 8) = ld32 m' (inode b k + 4)" by simp
  qed
  then show "write_block fo (inode b k) ?m buf (blk b j) 0 cnt actual 256 =
      Some (moved ?m (blk b j) buf ?k, buf + of_nat ?k, cnt + of_nat ?k)" by simp
  have "eq_out (region (blk b j) ?k) ?m (moved ?m (blk b j) buf ?k)" by (rule moved_frame) (use ub in simp)
  moreover have "region (blk b j) ?k \<subseteq> region (blk b j) 256" by (rule region_subset) auto
  ultimately show "eq_out (block b j) ?m (moved ?m (blk b j) buf ?k)" using ub(3) by (metis eq_out_mono)
  show "\<forall>i < ?k. moved ?m (blk b j) buf ?k (blk b j + of_nat i) = ?m (buf + of_nat i)"
    using moved_nth [of "blk b j" ?k] ub by simp
qed

lemma writing_frame:
  assumes wr: "writing s b k fo lim w j" and k: "k < 2048" and fo: "off_disk b fo 20" and w: "w + 1 < lim" "lim \<le> 9" and x: "x \<le> 1024" "x \<notin> free_blocks b m'"
    and e: "eq_out (block b j \<union> (bits b \<union> zone (inode_pos b k + (16 + 4 * (w + 1))) 4)) (mem s) m'"
  shows "writing (s\<lparr>mem := m'\<rparr>) b k fo lim (w + 1) x"
proof -
  let ?A = "block b j \<union> (bits b \<union> zone (inode_pos b k + (16 + 4 * (w + 1))) 4)"
  have d: "disk_at s b" and j: "j \<le> 1024" and sk: "ld32 (mem s) (fo + of_nat 8) = 0" "ld32 (mem s) (inode b k + of_nat 4) = 0"
    and z: "\<forall>v. w < v \<longrightarrow> v < lim \<longrightarrow> ld32 (mem s) (inode b k + of_nat (16 + 4 * v)) = 0"
    using wr by (auto simp: writing_def)
  have fit: "b + 0x200000 \<le> two32" using disk_fit [OF d] by simp
  have "?A \<subseteq> disk b" using k w j by (auto simp: place_defs)
  then have "ld32 m' (fo + of_nat 8) = 0" using off_disk_word [OF e _ fo, of 8] sk by simp
  moreover have "zone (inode_pos b k + 4) 4 \<inter> ?A = {}" using k w by (auto simp: place_defs)
  then have "ld32 m' (inode b k + of_nat 4) = 0" using inode_word [OF e fit k, of 4] sk by simp
  moreover have "ld32 m' (inode b k + of_nat (16 + 4 * v)) = 0" if v: "w + 1 < v" "v < lim" for v
  proof -
    have "zone (inode_pos b k + (16 + 4 * v)) 4 \<inter> ?A = {}" using k v w by (auto simp: place_defs)
    then show ?thesis using inode_word [OF e fit k, of "16 + 4 * v"] z v w by simp
  qed
  ultimately show ?thesis using disk_at_mem [OF d] x by (simp add: writing_def)
qed

text \<open>A block that is not the last: it is filled and the next entry gets a block of its own.\<close>

lemma write_from_next:
  assumes k: "k < 2048" and fo: "off_disk b fo 20" and wr: "writing s b k fo lim w j" and f: "free_blocks b (mem s) \<noteq> {}"
    and buf: "off_disk b buf r" "256 < r" "256 * w + r \<le> 256 * lim" and lim: "lim \<le> 9" and cnt: "unat actual = unat cnt + r"
  shows "\<exists>x m2. write_from fo (inode b k) actual buf dp sp (blk b j) 0 (of_nat w) 0 dbl cnt s =
       write_from fo (inode b k) actual (buf + 256) dp sp (blk b x) 0 (of_nat (w + 1)) 0 dbl (cnt + 256) (s\<lparr>mem := m2\<rparr>) \<and>
     writing (s\<lparr>mem := m2\<rparr>) b k fo lim (w + 1) x \<and> x \<in> free_blocks b (mem s) \<and> free_blocks b m2 = free_blocks b (mem s) - {x} \<and>
     card (free_blocks b m2) = card (free_blocks b (mem s)) - 1 \<and> ld32 m2 (inode b k + of_nat (16 + 4 * (w + 1))) = blk b x \<and>
     (\<forall>i < 256. m2 (blk b j + of_nat i) = mem s (buf + of_nat i)) \<and>
     eq_out (block b j \<union> (bits b \<union> zone (inode_pos b k + (16 + 4 * (w + 1))) 4)) (mem s) m2"
proof -
  let ?m = "mem s" and ?m1 = "moved (mem s) (blk b j) buf 256" and ?C = "zone (inode_pos b k + (16 + 4 * (w + 1))) 4"
  have k256: "min 256 r = 256" and w7: "w + 1 < lim" "w + 1 < 9" using buf lim by auto
  have d: "disk_at s b" and j: "j \<le> 1024" and z: "\<forall>v. w < v \<longrightarrow> v < lim \<longrightarrow> ld32 ?m (inode b k + of_nat (16 + 4 * v)) = 0"
    using wr by (auto simp: writing_def)
  have fit: "b + 0x200000 \<le> two32" using disk_fit [OF d] by simp
  have one: "write_block fo (inode b k) ?m buf (blk b j) 0 cnt actual 256 = Some (?m1, buf + 256, cnt + 256)" "eq_out (block b j) ?m ?m1"
    "\<forall>i < 256. ?m1 (blk b j + of_nat i) = ?m (buf + of_nat i)"
    using write_one_block [OF k fo wr buf(1) _ cnt] buf(2) unfolding k256 by simp_all
  have fr: "free_blocks b ?m1 = free_blocks b ?m"
    by (rule free_blocks_frame [OF fit one(2)]) (rule places_apart(1) [OF k, of 0], simp)
  have "?C \<inter> block b j = {}" using k w7 by (auto simp: place_defs)
  then have "ld32 ?m1 (inode b k + of_nat (16 + 4 * (w + 1))) = 0"
    using inode_word [OF one(2) fit k, of "16 + 4 * (w + 1)"] z [rule_format, of "w + 1"] w7 by simp
  then obtain x m2 where x: "ensure_cell (inode b k) (16 + 4 * of_nat (w + 1)) (s\<lparr>mem := ?m1\<rparr>) = Some (blk b x, s\<lparr>mem := m2\<rparr>)"
    "x \<in> free_blocks b ?m" "free_blocks b m2 = free_blocks b ?m - {x}" "card (free_blocks b m2) = card (free_blocks b ?m) - 1"
    "eq_out (bits b \<union> ?C) ?m1 m2" "ld32 m2 (inode b k + of_nat (16 + 4 * (w + 1))) = blk b x"
    using ensure_cell_new [OF disk_at_mem [OF d, of ?m1] k, of "w + 1"] w7 f fr by auto
  have e: "eq_out (block b j \<union> (bits b \<union> ?C)) ?m m2"
    by (rule eq_out_trans [OF eq_out_mono [OF one(2)] eq_out_mono [OF x(5)]]) auto
  have "unat (of_nat w + 1 :: u32) = w + 1" using w7 unat_of_nat_fit [of "w + 1"] by (simp add: add.commute)
  then have nw: "\<not> UFS_NUM_DIRECT_PTRS < of_nat w + 1" using w7 by (simp add: UFS_NUM_DIRECT_PTRS_def word_less_nat_alt)
  have "unat (cnt + 256) = unat cnt + 256" using cnt buf(2) unat_lt_two32 [of actual] by simp
  then have "cnt + 256 \<noteq> actual" using cnt buf(2) by auto
  moreover have "ensure_cell (inode b k) (16 + 4 * (of_nat w + 1)) (s\<lparr>mem := ?m1\<rparr>) = Some (blk b x, s\<lparr>mem := m2\<rparr>)"
    using x(1) by (simp add: add.commute)
  ultimately have "write_from fo (inode b k) actual buf dp sp (blk b j) 0 (of_nat w) 0 dbl cnt s =
      write_from fo (inode b k) actual (buf + 256) dp sp (blk b x) 0 (of_nat w + 1) 0 dbl (cnt + 256) (s\<lparr>mem := m2\<rparr>)"
    using one(1) nw by (subst write_from.simps) (simp add: unat_block_size Let_def)
  then have step: "write_from fo (inode b k) actual buf dp sp (blk b j) 0 (of_nat w) 0 dbl cnt s =
      write_from fo (inode b k) actual (buf + 256) dp sp (blk b x) 0 (of_nat (w + 1)) 0 dbl (cnt + 256) (s\<lparr>mem := m2\<rparr>)"
    by (simp add: add.commute)
  have "block b j \<inter> (bits b \<union> ?C) = {}" using k w7 by (auto simp: place_defs)
  then have "\<forall>i < 256. m2 (blk b j + of_nat i) = ?m (buf + of_nat i)" using one(3) block_byte [OF x(5) fit j] by simp
  moreover have "writing (s\<lparr>mem := m2\<rparr>) b k fo lim (w + 1) x"
    by (rule writing_frame [OF wr k fo w7(1) lim _ _ e]) (use x(2,3) in \<open>auto simp: free_blocks_def\<close>)
  ultimately show ?thesis using step x(2-4,6) e by blast
qed

lemma block_of_byte: "256 \<le> i \<Longrightarrow> i div 256 = Suc ((i - 256) div 256) \<and> i mod 256 = (i - 256) mod (256 :: nat)"
  by (auto simp: mod_if [of i])

text \<open>The first block with the entry after it, and the blocks that follow.\<close>

lemma write_join:
  assumes fit: "b + 0x200000 \<le> two32" and k: "k < 2048" and w: "w + 1 < lim" "lim \<le> 9" and buf: "off_disk b buf r"
    and j: "j \<le> 1024" "j \<notin> set (x # js)"
    and e2: "eq_out (block b j \<union> (bits b \<union> zone (inode_pos b k + (16 + 4 * (w + 1))) 4)) m m2"
    and first: "\<forall>i < 256. m2 (blk b j + of_nat i) = m (buf + of_nat i)" and p: "ld32 m2 (inode b k + of_nat (16 + 4 * (w + 1))) = blk b x"
    and data: "\<forall>i < r - 256. m' (blk b ((x # js) ! (i div 256)) + of_nat (i mod 256)) = m2 (buf + 256 + of_nat i)"
    and ptrs: "\<forall>v < length js. ld32 m' (inode b k + of_nat (16 + 4 * (w + 1 + 1 + v))) = blk b (js ! v)"
    and e3: "eq_out (bits b \<union> cells b k lim (w + 1 + 1) \<union> (\<Union>x \<in> set (x # js). block b x)) m2 m'"
  shows "i < r \<Longrightarrow> m' (blk b ((j # x # js) ! (i div 256)) + of_nat (i mod 256)) = m (buf + of_nat i)"
    and "v < length (x # js) \<Longrightarrow> ld32 m' (inode b k + of_nat (16 + 4 * (w + 1 + v))) = blk b ((x # js) ! v)"
    and "eq_out (bits b \<union> cells b k lim (w + 1) \<union> (\<Union>x \<in> set (j # x # js). block b x)) m m'"
proof -
  let ?B = "bits b \<union> cells b k lim (w + 1 + 1) \<union> (\<Union>x \<in> set (x # js). block b x)"
  let ?C = "zone (inode_pos b k + (16 + 4 * (w + 1))) 4"
  have "block b j \<inter> block b y = {}" if "y \<in> set (x # js)" for y using that j(2) by (intro blocks_apart) auto
  then have jB: "block b j \<inter> ?B = {}"
    using places_apart(1) [OF k w(2), of b j] places_apart(3) [OF k w(2), of b j "w + 1 + 1"] by (simp add: Int_Un_distrib Int_UN_distrib)
  show "m' (blk b ((j # x # js) ! (i div 256)) + of_nat (i mod 256)) = m (buf + of_nat i)" if i: "i < r"
  proof (cases "i < 256")
    case True
    then show ?thesis using block_byte [OF e3 fit j(1) True jB] first by simp
  next
    case False
    then have "buf + 256 + of_nat (i - 256) = buf + of_nat i" "i - 256 < r - 256" using i by (simp_all add: of_nat_diff)
    moreover have "block b j \<union> (bits b \<union> ?C) \<subseteq> disk b" using k w j by (auto simp: place_defs)
    ultimately show ?thesis using data block_of_byte [of i] False off_disk_byte [OF e2 _ buf i] by simp
  qed
  have "?C \<inter> ?B = {}" using k w by (auto simp: place_defs)
  then have "ld32 m' (inode b k + of_nat (16 + 4 * (w + 1))) = blk b x" using inode_word [OF e3 fit k, of "16 + 4 * (w + 1)"] p w by simp
  then show "ld32 m' (inode b k + of_nat (16 + 4 * (w + 1 + v))) = blk b ((x # js) ! v)" if "v < length (x # js)"
    using ptrs that by (cases v) auto
  show "eq_out (bits b \<union> cells b k lim (w + 1) \<union> (\<Union>x \<in> set (j # x # js). block b x)) m m'"
    by (rule eq_out_trans [OF eq_out_mono [OF e2] eq_out_mono [OF e3]]) (use w in \<open>auto simp: cells_def zone_def\<close>)
qed

lemma write_from_blocks:
  assumes k: "k < 2048" and fo: "off_disk b fo 20" and lim: "lim \<le> 9"
    and "writing s b k fo lim w j" "off_disk b buf r" "0 < r" "256 * w + r \<le> 256 * lim"
    and "(r - 1) div 256 \<le> card (free_blocks b (mem s))" "unat actual = unat cnt + r"
  shows "\<exists>m' js. write_from fo (inode b k) actual buf dp sp (blk b j) 0 (of_nat w) 0 dbl cnt s = Some (s\<lparr>mem := m'\<rparr>) \<and>
     length js = (r - 1) div 256 \<and> distinct (j # js) \<and> set js \<subseteq> free_blocks b (mem s) \<and>
     (\<forall>i < r. m' (blk b ((j # js) ! (i div 256)) + of_nat (i mod 256)) = mem s (buf + of_nat i)) \<and>
     (\<forall>v < length js. ld32 m' (inode b k + of_nat (16 + 4 * (w + 1 + v))) = blk b (js ! v)) \<and>
     eq_out (bits b \<union> cells b k lim (w + 1) \<union> (\<Union>x \<in> set (j # js). block b x)) (mem s) m'"
  using assms(4-)
proof (induction r arbitrary: s buf w j cnt rule: less_induct)
  case (less r)
  note wr = less.prems(1) and buf = less.prems(2) and r0 = less.prems(3) and w = less.prems(4) and room = less.prems(5) and cnt = less.prems(6)
  let ?m = "mem s"
  have fit: "b + 0x200000 \<le> two32" and j: "j \<le> 1024" "j \<notin> free_blocks b ?m" using wr disk_fit [of s b] by (auto simp: writing_def)
  show ?case
  proof (cases "r \<le> 256")
    case True
    let ?m1 = "moved ?m (blk b j) buf r"
    have one: "write_block fo (inode b k) ?m buf (blk b j) 0 cnt actual 256 = Some (?m1, buf + of_nat r, cnt + of_nat r)" "eq_out (block b j) ?m ?m1"
      "\<forall>i < r. ?m1 (blk b j + of_nat i) = ?m (buf + of_nat i)" using write_one_block [OF k fo wr buf r0 cnt] True by simp_all
    have "cnt + of_nat r = actual" using cnt unat_lt_two32 [of actual] by (simp add: word_unat_eq_iff)
    then have "write_from fo (inode b k) actual buf dp sp (blk b j) 0 (of_nat w) 0 dbl cnt s = Some (s\<lparr>mem := ?m1\<rparr>)"
      using one(1) by (subst write_from.simps) (simp add: unat_block_size del: of_nat_add of_nat_mult)
    moreover have "eq_out (bits b \<union> cells b k lim (w + 1) \<union> (\<Union>x \<in> set [j]. block b x)) ?m ?m1"
      by (rule eq_out_mono [OF one(2)]) auto
    ultimately show ?thesis using True r0 one(3) by (intro exI [of _ ?m1] exI [of _ "[]"]) auto
  next
    case False
    then have r: "256 < r" and w7: "w + 1 < lim" "w + 1 < 9" using w lim by auto
    let ?C = "zone (inode_pos b k + (16 + 4 * (w + 1))) 4"
    have "0 < card (free_blocks b ?m)" using room r by (cases "(r - 1) div 256") auto
    then have "free_blocks b ?m \<noteq> {}" by auto
    then obtain x m2 where step: "write_from fo (inode b k) actual buf dp sp (blk b j) 0 (of_nat w) 0 dbl cnt s =
         write_from fo (inode b k) actual (buf + 256) dp sp (blk b x) 0 (of_nat (w + 1)) 0 dbl (cnt + 256) (s\<lparr>mem := m2\<rparr>)"
      and wr2: "writing (s\<lparr>mem := m2\<rparr>) b k fo lim (w + 1) x" and x: "x \<in> free_blocks b ?m" "free_blocks b m2 = free_blocks b ?m - {x}"
      "card (free_blocks b m2) = card (free_blocks b ?m) - 1" "ld32 m2 (inode b k + of_nat (16 + 4 * (w + 1))) = blk b x"
      "\<forall>i < 256. m2 (blk b j + of_nat i) = ?m (buf + of_nat i)" and e2: "eq_out (block b j \<union> (bits b \<union> ?C)) ?m m2"
      using write_from_next [OF k fo wr _ buf r w lim cnt] by blast
    have b1: "unat (buf + 256) = unat buf + 256" using buf r by (simp add: off_disk_def)
    have c1: "unat (cnt + 256) = unat cnt + 256" using cnt r unat_lt_two32 [of actual] by simp
    have "(r - 256 - 1) div 256 = (r - 1) div 256 - 1" using r by auto
    then have room2: "(r - 256 - 1) div 256 \<le> card (free_blocks b (mem (s\<lparr>mem := m2\<rparr>)))" using x(3) diff_le_mono [OF room, of 1] by simp
    have off2: "off_disk b (buf + 256) (r - 256)" using buf b1 r by (auto simp: off_disk_def word_unat_eq_iff)
    have less2: "r - 256 < r" "0 < r - 256" "256 * (w + 1) + (r - 256) \<le> 256 * lim" "unat actual = unat (cnt + 256) + (r - 256)"
      using r w c1 cnt by auto
    obtain m' js where run: "write_from fo (inode b k) actual buf dp sp (blk b j) 0 (of_nat w) 0 dbl cnt s = Some (s\<lparr>mem := m'\<rparr>)"
      and js: "length js = (r - 256 - 1) div 256" "distinct (x # js)" "set js \<subseteq> free_blocks b m2"
      and data: "\<forall>i < r - 256. m' (blk b ((x # js) ! (i div 256)) + of_nat (i mod 256)) = m2 (buf + 256 + of_nat i)"
      and ptrs: "\<forall>v < length js. ld32 m' (inode b k + of_nat (16 + 4 * (w + 1 + 1 + v))) = blk b (js ! v)"
      and e3: "eq_out (bits b \<union> cells b k lim (w + 1 + 1) \<union> (\<Union>x \<in> set (x # js). block b x)) m2 m'"
      using less.IH [OF less2(1) wr2 off2 less2(2,3) room2 less2(4)] unfolding step by auto
    have jn: "j \<noteq> x" "j \<notin> set js" using j(2) x(1,2) js(3) by auto
    then have jn': "j \<notin> set (x # js)" by simp
    note all = write_join [OF fit k w7(1) lim buf j(1) jn' e2 x(5,4) data ptrs e3]
    have "length (x # js) = (r - 1) div 256" using js(1) r by auto
    moreover have "distinct (j # x # js)" "set (x # js) \<subseteq> free_blocks b ?m" using jn js(2,3) x(1,2) by auto
    ultimately show ?thesis using run all by blast
  qed
qed

section \<open>Reading\<close>

lemma off_disk_region: "off_disk b p n \<Longrightarrow> disk b \<inter> region p n = {}"
  by (auto simp: off_disk_def zone_def region_def)

lemma read_one_block:
  assumes fit: "b + 0x200000 \<le> two32" "0 < b" and buf: "off_disk b buf r" "0 < r" and j: "j \<le> 1024" and cnt: "unat num = unat cnt + r"
  shows "read_block m buf (blk b j) 0 cnt num 256 =
      Some (moved m buf (blk b j) (min 256 r), buf + of_nat (min 256 r), cnt + of_nat (min 256 r))"
    "eq_out (region buf (min 256 r)) m (moved m buf (blk b j) (min 256 r))"
    "\<forall>i < min 256 r. moved m buf (blk b j) (min 256 r) (buf + of_nat i) = m (blk b j + of_nat i)"
proof -
  note ub = unat_blk [OF fit(1) j]
  have nz: "blk b j \<noteq> 0" "buf \<noteq> 0" using ub fit buf by (auto simp: off_disk_def blk_pos_def simp del: of_nat_add of_nat_mult)
  have "read_block m buf (blk b j) 0 cnt num 256 =
      Some (moved m buf (blk b j + 0) (min 256 r), buf + of_nat (min 256 r), cnt + of_nat (min 256 r))"
  proof (rule read_block_moves [OF nz(1) _ _ nz(2)])
    show "unat (blk b j) + 256 \<le> two32" "unat (0 :: u32) + 256 = 256" using ub by simp_all
    show "unat buf + r \<le> two32" "0 < r" "unat num = unat cnt + r" using buf cnt by (auto simp: off_disk_def)
    show "away buf r (blk b j) 256" using buf ub j by (auto simp: off_disk_def away_def blk_pos_def)
  qed
  then show "read_block m buf (blk b j) 0 cnt num 256 =
      Some (moved m buf (blk b j) (min 256 r), buf + of_nat (min 256 r), cnt + of_nat (min 256 r))" by simp
  have kfit: "unat buf + min 256 r \<le> two32" using buf by (auto simp: off_disk_def)
  show "eq_out (region buf (min 256 r)) m (moved m buf (blk b j) (min 256 r))" by (rule moved_frame [OF kfit])
  show "\<forall>i < min 256 r. moved m buf (blk b j) (min 256 r) (buf + of_nat i) = m (blk b j + of_nat i)"
    using moved_nth [OF kfit] by blast
qed

text \<open>A block that is not the last: the entry after it gives the next block.\<close>

lemma read_from_next:
  assumes fit: "b + 0x200000 \<le> two32" "0 < b" and k: "k < 2048" and buf: "off_disk b buf r" "256 < r" "256 * w + r \<le> 2048"
    and j: "j \<le> 1024" and p: "ld32 m (inode b k + of_nat (16 + 4 * (w + 1))) = blk b x" and cnt: "unat num = unat cnt + r"
  shows "\<exists>m1. read_from (inode b k) dp num m buf sp (blk b j) 0 (of_nat w) 0 dbl cnt =
       read_from (inode b k) dp num m1 (buf + 256) sp (blk b x) 0 (of_nat (w + 1)) 0 dbl (cnt + 256) \<and>
     eq_out (region buf 256) m m1 \<and> (\<forall>i < 256. m1 (buf + of_nat i) = m (blk b j + of_nat i))"
proof -
  let ?m1 = "moved m buf (blk b j) 256" and ?C = "zone (inode_pos b k + (16 + 4 * (w + 1))) 4"
  have k256: "min 256 r = 256" and w7: "w < 7" using buf by auto
  have one: "read_block m buf (blk b j) 0 cnt num 256 = Some (?m1, buf + 256, cnt + 256)" "eq_out (region buf 256) m ?m1"
    "\<forall>i < 256. ?m1 (buf + of_nat i) = m (blk b j + of_nat i)"
    using read_one_block [OF fit buf(1) _ j cnt] buf(2) unfolding k256 by simp_all
  have "disk b \<inter> region buf 256 = {}" by (rule off_disk_region) (use buf in \<open>auto simp: off_disk_def\<close>)
  moreover have "?C \<subseteq> disk b" using k w7 by (auto simp: place_defs)
  ultimately have "?C \<inter> region buf 256 = {}" by blast
  then have "ld32 ?m1 (inode b k + of_nat (16 + 4 * (w + 1))) = blk b x" using inode_word [OF one(2) fit(1) k, of "16 + 4 * (w + 1)"] w7 p by simp
  moreover have "inode b k \<noteq> 0" using fit k by (auto simp: inode_pos_def simp del: of_nat_add of_nat_mult)
  ultimately have cell: "rd32 ?m1 (inode b k) (16 + 4 * (of_nat w + 1)) = Some (blk b x)" by (simp add: add.commute)
  have "unat (of_nat w + 1 :: u32) = w + 1" using w7 unat_of_nat_fit [of "w + 1"] by (simp add: add.commute)
  then have nw: "of_nat w + 1 < UFS_NUM_DIRECT_PTRS" "\<not> UFS_NUM_DIRECT_PTRS < of_nat w + 1"
    using w7 by (simp_all add: UFS_NUM_DIRECT_PTRS_def word_less_nat_alt)
  have "unat (cnt + 256) = unat cnt + 256" using cnt buf(2) unat_lt_two32 [of num] by simp
  then have "cnt + 256 \<noteq> num" using cnt buf(2) by auto
  then have "read_from (inode b k) dp num m buf sp (blk b j) 0 (of_nat w) 0 dbl cnt =
      read_from (inode b k) dp num ?m1 (buf + 256) sp (blk b x) 0 (of_nat w + 1) 0 dbl (cnt + 256)"
    using one(1) cell nw by (subst read_from.simps) (simp add: unat_block_size Let_def)
  then show ?thesis using one(2,3) by (intro exI [of _ ?m1]) (simp add: add.commute)
qed

text \<open>The bytes of the first block and those of the blocks after it.\<close>

lemma read_join:
  assumes fit: "b + 0x200000 \<le> two32" and buf: "off_disk b buf r" and r: "256 < r"
    and js: "length js = (r - 256 - 1) div 256 + 1" "\<forall>x \<in> set js. x \<le> 1024"
    and e1: "eq_out (region buf 256) m m1" and copy: "\<forall>i < 256. m1 (buf + of_nat i) = m (blk b j + of_nat i)"
    and e2: "eq_out (region (buf + 256) (r - 256)) m1 m'"
    and data: "\<forall>i < r - 256. m' (buf + 256 + of_nat i) = m1 (blk b (js ! (i div 256)) + of_nat (i mod 256))"
  shows "eq_out (region buf r) m m' \<and> (\<forall>i < r. m' (buf + of_nat i) = m (blk b ((j # js) ! (i div 256)) + of_nat (i mod 256)))"
proof (intro conjI allI impI)
  have b1: "unat (buf + 256) = unat buf + 256" using buf r by (simp add: off_disk_def)
  have disj: "disk b \<inter> region buf 256 = {}" by (rule off_disk_region) (use buf r in \<open>auto simp: off_disk_def\<close>)
  show "eq_out (region buf r) m m'"
    by (rule eq_out_trans [OF eq_out_mono [OF e1] eq_out_mono [OF e2]]) (use b1 r in \<open>auto simp: region_def\<close>)
  fix i assume i: "i < r"
  show "m' (buf + of_nat i) = m (blk b ((j # js) ! (i div 256)) + of_nat (i mod 256))"
  proof (cases "i < 256")
    case True
    have "unat (buf + of_nat i) = unat buf + i" using buf i by (simp add: off_disk_def)
    then have "buf + of_nat i \<notin> region (buf + 256) (r - 256)" using b1 True by (simp add: region_def)
    then show ?thesis using eq_outD [OF e2] copy True by simp
  next
    case False
    let ?x = "js ! ((i - 256) div 256)"
    have q: "i div 256 = Suc ((i - 256) div 256)" "i mod 256 = (i - 256) mod 256" "i - 256 < r - 256" using block_of_byte [of i] False i by auto
    have "(i - 256) div 256 \<le> (r - 256 - 1) div 256" using q(3) by (intro div_le_mono) simp
    then have "?x \<in> set js" using js(1) by (intro nth_mem) simp
    then have "?x \<le> 1024" using js(2) by blast
    then have keep: "m1 (blk b ?x + of_nat (i mod 256)) = m (blk b ?x + of_nat (i mod 256))"
      using block_byte [OF e1 fit, of ?x "i mod 256"] disj on_disk(3) [of 0 0 ?x b] by (simp add: Int_commute disjoint_iff) blast
    have "m' (buf + of_nat i) = m' (buf + 256 + of_nat (i - 256))" using False by (simp add: of_nat_diff)
    also have "\<dots> = m1 (blk b ?x + of_nat (i mod 256))" using data q(2,3) by simp
    finally show ?thesis using keep q(1) by simp
  qed
qed

lemma read_from_blocks:
  assumes fit: "b + 0x200000 \<le> two32" "0 < b" and k: "k < 2048"
    and "off_disk b buf r" "0 < r" "256 * w + r \<le> 2048" "j \<le> 1024"
    and "length js = (r - 1) div 256" "\<forall>x \<in> set js. x \<le> 1024"
    and "\<forall>v < length js. ld32 m (inode b k + of_nat (16 + 4 * (w + 1 + v))) = blk b (js ! v)"
    and "unat num = unat cnt + r"
  shows "\<exists>m'. read_from (inode b k) dp num m buf sp (blk b j) 0 (of_nat w) 0 dbl cnt = Some m' \<and>
     eq_out (region buf r) m m' \<and>
     (\<forall>i < r. m' (buf + of_nat i) = m (blk b ((j # js) ! (i div 256)) + of_nat (i mod 256)))"
  using assms(4-)
proof (induction r arbitrary: m buf w j js cnt rule: less_induct)
  case (less r)
  note buf = less.prems(1) and r0 = less.prems(2) and w = less.prems(3) and j = less.prems(4)
    and js = less.prems(5,6) and ptrs = less.prems(7) and cnt = less.prems(8)
  show ?case
  proof (cases "r \<le> 256")
    case True
    have one: "read_block m buf (blk b j) 0 cnt num 256 = Some (moved m buf (blk b j) r, buf + of_nat r, cnt + of_nat r)"
      "eq_out (region buf r) m (moved m buf (blk b j) r)" "\<forall>i < r. moved m buf (blk b j) r (buf + of_nat i) = m (blk b j + of_nat i)"
      using read_one_block [OF fit buf r0 j cnt] True by simp_all
    have "cnt + of_nat r = num" using cnt unat_lt_two32 [of num] by (simp add: word_unat_eq_iff)
    then have "read_from (inode b k) dp num m buf sp (blk b j) 0 (of_nat w) 0 dbl cnt = Some (moved m buf (blk b j) r)"
      using one(1) by (subst read_from.simps) (simp add: unat_block_size)
    then show ?thesis using True one(2,3) by (intro exI [of _ "moved m buf (blk b j) r"]) simp
  next
    case False
    then have r: "256 < r" and w7: "w < 7" using w by auto
    have "js \<noteq> []" using js(1) False by (cases js) auto
    then obtain x xs where jx: "js = x # xs" by (cases js) auto
    have "ld32 m (inode b k + of_nat (16 + 4 * (w + 1))) = blk b x" using ptrs [rule_format, of 0] jx by simp
    then obtain m1 where step: "read_from (inode b k) dp num m buf sp (blk b j) 0 (of_nat w) 0 dbl cnt =
         read_from (inode b k) dp num m1 (buf + 256) sp (blk b x) 0 (of_nat (w + 1)) 0 dbl (cnt + 256)"
      and e1: "eq_out (region buf 256) m m1" and copy: "\<forall>i < 256. m1 (buf + of_nat i) = m (blk b j + of_nat i)"
      using read_from_next [OF fit k buf r w j _ cnt] by blast
    have disj: "disk b \<inter> region buf 256 = {}" by (rule off_disk_region) (use buf r in \<open>auto simp: off_disk_def\<close>)
    have ptrs1: "\<forall>v < length xs. ld32 m1 (inode b k + of_nat (16 + 4 * (w + 1 + 1 + v))) = blk b (xs ! v)"
    proof (intro allI impI)
      fix v assume v: "v < length xs"
      then have v8: "w + 1 + 1 + v < 8" using js(1) jx w r by auto
      then have "zone (inode_pos b k + (16 + 4 * (w + 1 + 1 + v))) 4 \<subseteq> disk b" using k by (auto simp: place_defs)
      with disj have "zone (inode_pos b k + (16 + 4 * (w + 1 + 1 + v))) 4 \<inter> region buf 256 = {}" by blast
      with inode_word [OF e1 fit(1) k, of "16 + 4 * (w + 1 + 1 + v)"] v8 ptrs [rule_format, of "Suc v"] v jx
      show "ld32 m1 (inode b k + of_nat (16 + 4 * (w + 1 + 1 + v))) = blk b (xs ! v)" by simp
    qed
    have b1: "unat (buf + 256) = unat buf + 256" using buf r by (simp add: off_disk_def)
    have off1: "off_disk b (buf + 256) (r - 256)" using buf b1 r by (auto simp: off_disk_def word_unat_eq_iff)
    have less1: "r - 256 < r" "0 < r - 256" "256 * (w + 1) + (r - 256) \<le> 2048" "x \<le> 1024" "length xs = (r - 256 - 1) div 256" "\<forall>x \<in> set xs. x \<le> 1024"
      "unat num = unat (cnt + 256) + (r - 256)"
      using r w js jx cnt unat_lt_two32 [of num] by auto
    obtain m' where run: "read_from (inode b k) dp num m buf sp (blk b j) 0 (of_nat w) 0 dbl cnt = Some m'"
      and e2: "eq_out (region (buf + 256) (r - 256)) m1 m'"
      and data: "\<forall>i < r - 256. m' (buf + 256 + of_nat i) = m1 (blk b ((x # xs) ! (i div 256)) + of_nat (i mod 256))"
      using less.IH [OF less1(1) off1 less1(2-6) ptrs1 less1(7)] unfolding step by blast
    show ?thesis using run read_join [OF fit(1) buf r _ _ e1 copy e2 data] less1(5,4,6) jx by simp
  qed
qed

section \<open>Open files\<close>

text \<open>
  \<open>opened s b fd fo k\<close>: the current task has descriptor \<open>fd\<close> open on the file object \<open>fo\<close> of the
  regular file whose inode is number \<open>k\<close>; task and file object are off the disk and apart.
\<close>

definition opened :: "'a fs_scheme \<Rightarrow> nat \<Rightarrow> nat \<Rightarrow> addr \<Rightarrow> nat \<Rightarrow> bool" where
  "opened s b fd fo k \<longleftrightarrow> disk_at s b \<and> fd < 16 \<and> k < 2048 \<and> off_disk b (current_task s) 112 \<and>
     off_disk b fo 20 \<and> away fo 20 (current_task s) 112 \<and>
     ld32 (mem s) (current_task s + of_nat (40 + 4 * fd)) = fo \<and>
     ld32 (mem s) (fo + of_nat 16) = inode b k \<and> ld32 (mem s) (inode b k + of_nat 0) = INODE_REG"

definition seek_head :: "mem \<Rightarrow> addr \<Rightarrow> u32" where
  "seek_head m fo = ld32 m (fo + of_nat 8)"

definition file_size :: "mem \<Rightarrow> nat \<Rightarrow> nat \<Rightarrow> u32" where
  "file_size m b k = ld32 m (inode b k + of_nat 4)"

definition direct_blk :: "mem \<Rightarrow> nat \<Rightarrow> nat \<Rightarrow> nat \<Rightarrow> addr" where
  "direct_blk m b k v = ld32 m (inode b k + of_nat (16 + 4 * v))"

lemma sint_small: "i < 2147483648 \<Longrightarrow> sint (of_nat i :: u32) = int i"
  by (simp add: signed_of_nat signed_take_bit_int_eq_self)

lemma fd_ok: "fd < 16 \<Longrightarrow> \<not> bad_fd (of_nat fd)"
  by (simp add: bad_fd_def sint_small)

lemma fd_entry_opened:
  assumes "opened s b fd fo k"
  shows "fd_entry (of_nat fd) s = Some fo" "rd32 (mem s) fo 16 = Some (inode b k)"
    "rd32 (mem s) (inode b k) 0 = Some INODE_REG" "fo \<noteq> 0" "inode b k \<noteq> 0" "current_task s \<noteq> 0"
proof -
  show nz: "fo \<noteq> 0" "inode b k \<noteq> 0" "current_task s \<noteq> 0"
    using assms unat_inode(1) [of b k 0] disk_fit [of s b]
    by (auto simp: opened_def off_disk_def inode_pos_def simp del: of_nat_add of_nat_mult)
  show "fd_entry (of_nat fd) s = Some fo" "rd32 (mem s) fo 16 = Some (inode b k)"
    "rd32 (mem s) (inode b k) 0 = Some INODE_REG"
    using assms nz by (simp_all add: opened_def fd_entry_def)
qed

text \<open>A change of the inode's other fields, the blocks and the bitmap, or of the seek head.\<close>

lemma opened_frame:
  assumes "opened s b fd fo k" and "eq_out (bits b \<union> zone (inode_pos b k + 4) 60 \<union> (\<Union>j \<in> {..1024}. block b j)
      \<union> region (fo + of_nat 8) 4) (mem s) m'"
  shows "opened (s\<lparr>mem := m'\<rparr>) b fd fo k"
proof -
  let ?A = "bits b \<union> zone (inode_pos b k + 4) 60 \<union> (\<Union>j \<in> {..1024}. block b j)" and ?F = "region (fo + of_nat 8) 4"
  let ?t = "current_task s"
  have o: "disk_at s b" "fd < 16" "k < 2048" "off_disk b ?t 112" "off_disk b fo 20" "away fo 20 ?t 112"
    "ld32 (mem s) (?t + of_nat (40 + 4 * fd)) = fo" "ld32 (mem s) (fo + of_nat 16) = inode b k"
    "ld32 (mem s) (inode b k + of_nat 0) = INODE_REG" using assms(1) by (auto simp: opened_def)
  have fit: "b + 0x200000 \<le> two32" "0 < b" using disk_fit [OF o(1)] by auto
  have A: "?A \<subseteq> disk b" using o(3) by (auto simp: place_defs)
  have uf: "unat (fo + of_nat i) = unat fo + i" if "i \<le> 16" for i
    using o(5) that by (simp add: off_disk_def)
  have ut: "unat (?t + of_nat i) = unat ?t + i" if "i \<le> 108" for i
    using o(4) that by (simp add: off_disk_def)
  have dA: "region p n \<inter> disk b = {}" if "off_disk b p n" for p n
    using off_disk_region [OF that] by blast
  have "region (?t + of_nat (40 + 4 * fd)) 4 \<inter> (?A \<union> ?F) = {}"
  proof -
    have "region (?t + of_nat (40 + 4 * fd)) 4 \<inter> ?A = {}"
      using A ut [of "40 + 4 * fd"] o(2,4) by (fastforce simp: off_disk_def region_def zone_def)
    moreover have "region (?t + of_nat (40 + 4 * fd)) 4 \<inter> ?F = {}"
      using ut [of "40 + 4 * fd"] uf [of 8] o(2,6) by (auto simp: region_def away_def)
    ultimately show ?thesis by blast
  qed
  then have "ld32 m' (?t + of_nat (40 + 4 * fd)) = fo"
    using eq_out_ld32 [OF assms(2)] ut [of "40 + 4 * fd"] o(2,4,7) by (simp add: off_disk_def)
  moreover have "region (fo + of_nat 16) 4 \<inter> (?A \<union> ?F) = {}"
  proof -
    have "region (fo + of_nat 16) 4 \<inter> ?A = {}"
      using A uf [of 16] o(5) by (fastforce simp: off_disk_def region_def zone_def)
    moreover have "region (fo + of_nat 16) 4 \<inter> ?F = {}"
      using uf [of 16] uf [of 8] by (auto simp: region_def)
    ultimately show ?thesis by blast
  qed
  then have "ld32 m' (fo + of_nat 16) = inode b k"
    using eq_out_ld32 [OF assms(2)] uf [of 16] o(5,8) by (simp add: off_disk_def)
  moreover have "zone (inode_pos b k + 0) 4 \<inter> (?A \<union> ?F) = {}"
  proof -
    have "zone (inode_pos b k + 0) 4 \<inter> ?A = {}" using o(3) by (auto simp: place_defs)
    moreover have "zone (inode_pos b k + 0) 4 \<subseteq> disk b" using o(3) by (auto simp: place_defs)
    moreover have "?F \<inter> disk b = {}" using uf [of 8] o(5) by (auto simp: off_disk_def region_def zone_def)
    ultimately show ?thesis by blast
  qed
  then have "ld32 m' (inode b k + of_nat 0) = INODE_REG"
    using inode_word [OF assms(2) fit(1) o(3), of 0] o(9) by simp
  ultimately show ?thesis using o by (simp add: opened_def disk_at_mem)
qed

lemma write_start_empty:
  assumes o: "opened s b fd fo k" and sk: "seek_head (mem s) fo = 0"
    and z: "direct_blk (mem s) b k 0 = 0" and f: "free_blocks b (mem s) \<noteq> {}"
  shows "\<exists>x m1 dp sp. write_start fo (inode b k) 0 s = Some (dp, sp, blk b x, 0, 0, s\<lparr>mem := m1\<rparr>) \<and>
     x \<in> free_blocks b (mem s) \<and> free_blocks b m1 = free_blocks b (mem s) - {x} \<and>
     card (free_blocks b m1) = card (free_blocks b (mem s)) - 1 \<and>
     eq_out (bits b \<union> zone (inode_pos b k + 16) 4) (mem s) m1 \<and> direct_blk m1 b k 0 = blk b x"
proof -
  have d: "disk_at s b" "k < 2048" "off_disk b fo 20" using o by (auto simp: opened_def)
  note e = fd_entry_opened [OF o]
  obtain x m1 where x: "ensure_cell (inode b k) (16 + 4 * of_nat 0) s = Some (blk b x, s\<lparr>mem := m1\<rparr>)"
    "x \<in> free_blocks b (mem s)" "free_blocks b m1 = free_blocks b (mem s) - {x}"
    "card (free_blocks b m1) = card (free_blocks b (mem s)) - 1"
    "eq_out (bits b \<union> zone (inode_pos b k + (16 + 4 * 0)) 4) (mem s) m1"
    "ld32 m1 (inode b k + of_nat (16 + 4 * 0)) = blk b x"
    using ensure_cell_new [OF d(1,2), of 0] z f by (auto simp: direct_blk_def)
  have "bits b \<union> zone (inode_pos b k + (16 + 4 * 0)) 4 \<subseteq> disk b" using d(2) by (auto simp: place_defs)
  then have "seek_head m1 fo = 0"
    using off_disk_word [OF x(5) _ d(3), of 8] sk by (simp add: seek_head_def)
  then have "write_start fo (inode b k) 0 s =
      Some (ld32 (mem s) (inode b k + 52), ld32 (mem s) (inode b k + 48), blk b x, 0, 0, s\<lparr>mem := m1\<rparr>)"
    using x(1,6) e by (simp add: write_start_def UFS_NUM_DIRECT_PTRS_def seek_head_def)
  with x show ?thesis
    by (intro exI [of _ x] exI [of _ m1] exI [of _ "ld32 (mem s) (inode b k + 52)"]
        exI [of _ "ld32 (mem s) (inode b k + 48)"]) (simp add: direct_blk_def)
qed

lemma write_end_grows:
  assumes o: "opened s b fd fo k" and "seek_head (mem s) fo = 0" and "file_size (mem s) b k \<le> n"
  shows "\<exists>m'. write_end fo (inode b k) n s = Some (s\<lparr>mem := m'\<rparr>) \<and> seek_head m' fo = n \<and>
     file_size m' b k = n \<and> eq_out (region (fo + of_nat 8) 4 \<union> zone (inode_pos b k + 4) 4) (mem s) m'"
proof -
  have d: "disk_at s b" "k < 2048" "off_disk b fo 20" using o by (auto simp: opened_def)
  have fit: "b + 0x200000 \<le> two32" "0 < b" using disk_fit [OF d(1)] by auto
  note e = fd_entry_opened [OF o] and u = unat_inode [OF fit(1) d(2), of 4]
  have lock: "fs_head_lock s = 1" using d(1) by (simp add: disk_at_def)
  let ?m2 = "st32 (mem s) (fo + of_nat 8) n"
  let ?m3 = "st32 ?m2 (inode b k + of_nat 4) n"
  have uf: "unat (fo + of_nat 8) = unat fo + 8" using d(3) by (simp add: off_disk_def)
  have ap: "apart (inode b k + of_nat 4) 4 (fo + of_nat 8) 4"
    using u uf d(2,3) fit by (auto simp: apart_def off_disk_def inode_pos_def)
  have run: "write_end fo (inode b k) n s = Some (s\<lparr>mem := ?m3\<rparr>)"
    using assms(2,3) e lock
    by (simp add: write_end_def seek_head_def file_size_def not_less lock_free unlock_fs_def kthread_mutex_unlock_def)
  have "eq_out (region (fo + of_nat 8) 4) (mem s) ?m2"
    by (rule eq_out_st32) (use uf d(3) in \<open>auto simp: off_disk_def\<close>)
  moreover have "eq_out (zone (inode_pos b k + 4) 4) ?m2 ?m3"
    by (rule eq_out_st32) (use u d(2) fit in \<open>auto simp: inode_pos_def\<close>)
  ultimately have "eq_out (region (fo + of_nat 8) 4 \<union> zone (inode_pos b k + 4) 4) (mem s) ?m3"
    by (meson Un_upper1 Un_upper2 eq_out_mono eq_out_trans)
  moreover have "seek_head ?m3 fo = n" using ld32_st32_apart [OF ap] by (simp add: seek_head_def)
  ultimately show ?thesis using run by (intro exI [of _ ?m3]) (simp add: file_size_def)
qed

text \<open>The blocks of a write to an empty file, before its size and position are stored.\<close>

lemma write_empty_blocks:
  assumes o: "opened s b fd fo k" and sk: "seek_head (mem s) fo = 0" and sz: "file_size (mem s) b k = 0"
    and z: "\<forall>v < lim. direct_blk (mem s) b k v = 0" and n: "0 < n" "n \<le> 256 * lim" "lim \<le> 9" and buf: "off_disk b buf n"
    and room: "(n - 1) div 256 < card (free_blocks b (mem s))"
  shows "\<exists>dp sp x m1 m2 js. write_start fo (inode b k) 0 s = Some (dp, sp, blk b x, 0, 0, s\<lparr>mem := m1\<rparr>) \<and>
     write_from fo (inode b k) (of_nat n) buf dp sp (blk b x) 0 0 0 0 0 (s\<lparr>mem := m1\<rparr>) = Some (s\<lparr>mem := m2\<rparr>) \<and>
     length js = (n - 1) div 256 + 1 \<and> distinct js \<and> set js \<subseteq> free_blocks b (mem s) \<and>
     (\<forall>v < length js. direct_blk m2 b k v = blk b (js ! v)) \<and>
     (\<forall>i < n. m2 (blk b (js ! (i div 256)) + of_nat (i mod 256)) = mem s (buf + of_nat i)) \<and>
     eq_out (bits b \<union> zone (inode_pos b k + 16) (4 * lim) \<union> (\<Union>j \<in> set js. block b j)) (mem s) m2"
proof -
  have d: "disk_at s b" "k < 2048" "off_disk b fo 20" using o by (auto simp: opened_def)
  have fit: "b + 0x200000 \<le> two32" using disk_fit [OF d(1)] by simp
  have l1: "1 \<le> lim" using n(1,2) by (cases lim) auto
  let ?A = "bits b \<union> zone (inode_pos b k + 16) 4"
  have "free_blocks b (mem s) \<noteq> {}" using room by auto
  then obtain x m1 dp sp where ws: "write_start fo (inode b k) 0 s = Some (dp, sp, blk b x, 0, 0, s\<lparr>mem := m1\<rparr>)"
    and x: "x \<in> free_blocks b (mem s)" "free_blocks b m1 = free_blocks b (mem s) - {x}" "card (free_blocks b m1) = card (free_blocks b (mem s)) - 1"
    and e1: "eq_out ?A (mem s) m1" and p0: "direct_blk m1 b k 0 = blk b x"
    using write_start_empty [OF o sk] z [rule_format, of 0] l1 by auto
  have A: "?A \<subseteq> disk b" using d(2) by (auto simp: place_defs)
  have w1: "ld32 m1 (inode b k + of_nat i) = ld32 (mem s) (inode b k + of_nat i)" if "i = 4 \<or> 20 \<le> i" "i \<le> 60" for i
    by (rule inode_word [OF e1 fit d(2) that(2)]) (use d(2) that in \<open>auto simp: place_defs\<close>)
  have wr: "writing (s\<lparr>mem := m1\<rparr>) b k fo lim 0 x"
  proof -
    have "ld32 m1 (inode b k + of_nat (16 + 4 * v)) = 0" if "0 < v" "v < lim" for v
      using w1 [of "16 + 4 * v"] z n(3) that by (simp add: direct_blk_def)
    moreover have "x \<le> 1024" "x \<notin> free_blocks b m1" using x(1,2) by (auto simp: free_blocks_def)
    ultimately show ?thesis using off_disk_word [OF e1 A d(3), of 8] w1 [of 4] sk sz disk_at_mem [OF d(1)]
      by (simp add: writing_def seek_head_def file_size_def)
  qed
  have "\<exists>m' js. write_from fo (inode b k) (of_nat n) buf dp sp (blk b x) 0 (of_nat 0) 0 0 0 (s\<lparr>mem := m1\<rparr>) = Some (s\<lparr>mem := m1, mem := m'\<rparr>) \<and>
     length js = (n - 1) div 256 \<and> distinct (x # js) \<and> set js \<subseteq> free_blocks b (mem (s\<lparr>mem := m1\<rparr>)) \<and>
     (\<forall>i < n. m' (blk b ((x # js) ! (i div 256)) + of_nat (i mod 256)) = mem (s\<lparr>mem := m1\<rparr>) (buf + of_nat i)) \<and>
     (\<forall>v < length js. ld32 m' (inode b k + of_nat (16 + 4 * (0 + 1 + v))) = blk b (js ! v)) \<and>
     eq_out (bits b \<union> cells b k lim (0 + 1) \<union> (\<Union>x \<in> set (x # js). block b x)) (mem (s\<lparr>mem := m1\<rparr>)) m'"
    by (rule write_from_blocks [OF d(2,3) n(3) wr buf n(1)]) (use n room x(3) in auto)
  then obtain m2 js where wf: "write_from fo (inode b k) (of_nat n) buf dp sp (blk b x) 0 0 0 0 0 (s\<lparr>mem := m1\<rparr>) = Some (s\<lparr>mem := m2\<rparr>)"
    and js: "length js = (n - 1) div 256" "distinct (x # js)" "set js \<subseteq> free_blocks b m1"
    and data: "\<forall>i < n. m2 (blk b ((x # js) ! (i div 256)) + of_nat (i mod 256)) = m1 (buf + of_nat i)"
    and ptrs: "\<forall>v < length js. ld32 m2 (inode b k + of_nat (16 + 4 * (1 + v))) = blk b (js ! v)"
    and e2: "eq_out (bits b \<union> cells b k lim 1 \<union> (\<Union>x \<in> set (x # js). block b x)) m1 m2"
    by auto
  have "zone (inode_pos b k + 16) 4 \<inter> (bits b \<union> cells b k lim 1 \<union> (\<Union>x \<in> set (x # js). block b x)) = {}" using d(2) by (auto simp: place_defs)
  then have "direct_blk m2 b k 0 = blk b x" using inode_word [OF e2 fit d(2), of 16] p0 by (simp add: direct_blk_def)
  then have "\<forall>v < length (x # js). direct_blk m2 b k v = blk b ((x # js) ! v)"
    using ptrs by (auto simp: direct_blk_def nth_Cons split: nat.splits)
  moreover have "\<forall>i < n. m2 (blk b ((x # js) ! (i div 256)) + of_nat (i mod 256)) = mem s (buf + of_nat i)"
    using data off_disk_byte [OF e1 A buf] by simp
  moreover have "eq_out (bits b \<union> zone (inode_pos b k + 16) (4 * lim) \<union> (\<Union>j \<in> set (x # js). block b j)) (mem s) m2"
    by (rule eq_out_trans [OF eq_out_mono [OF e1] eq_out_mono [OF e2]]) (use l1 in \<open>auto simp: cells_def zone_def\<close>)
  moreover have "length (x # js) = (n - 1) div 256 + 1" "set (x # js) \<subseteq> free_blocks b (mem s)" using js(1,3) x by auto
  ultimately show ?thesis using ws wf js(2) by blast
qed

text \<open>Storing the size and the position leaves the entries and the blocks.\<close>

lemma write_end_keeps:
  assumes e: "eq_out (region (fo + of_nat 8) 4 \<union> zone (inode_pos b k + 4) 4) m m'" and fo: "off_disk b fo 20" and k: "k < 2048"
    and fit: "b + 0x200000 \<le> two32"
  shows "v < 9 \<Longrightarrow> direct_blk m' b k v = direct_blk m b k v"
    and "j \<le> 1024 \<Longrightarrow> i < 256 \<Longrightarrow> m' (blk b j + of_nat i) = m (blk b j + of_nat i)"
proof -
  have "unat (fo + of_nat 8) = unat fo + 8" using fo by (simp add: off_disk_def)
  then have F: "disk b \<inter> region (fo + of_nat 8) 4 = {}" using fo by (auto simp: off_disk_def region_def zone_def)
  show "direct_blk m' b k v = direct_blk m b k v" if v: "v < 9"
  proof -
    have "zone (inode_pos b k + (16 + 4 * v)) 4 \<subseteq> disk b" using v k by (auto simp: place_defs)
    moreover have "zone (inode_pos b k + (16 + 4 * v)) 4 \<inter> zone (inode_pos b k + 4) 4 = {}" by (auto simp: zone_def)
    ultimately have "zone (inode_pos b k + (16 + 4 * v)) 4 \<inter> (region (fo + of_nat 8) 4 \<union> zone (inode_pos b k + 4) 4) = {}" using F by blast
    with inode_word [OF e fit k, of "16 + 4 * v"] v show ?thesis by (simp add: direct_blk_def)
  qed
  show "m' (blk b j + of_nat i) = m (blk b j + of_nat i)" if "j \<le> 1024" "i < 256"
    by (rule block_byte [OF e fit that]) (use F on_disk(3) [OF k, of 0 j b] that k in \<open>auto simp: place_defs\<close>)
qed

lemma rd_write_empty:
  assumes o: "opened s b fd fo k" and sk: "seek_head (mem s) fo = 0" and sz: "file_size (mem s) b k = 0"
    and z: "\<forall>v < lim. direct_blk (mem s) b k v = 0" and n: "0 < n" "n \<le> 256 * lim" "lim \<le> 9" and buf: "off_disk b buf n"
    and room: "(n - 1) div 256 < card (free_blocks b (mem s))"
  shows "\<exists>m' js. rd_write (of_nat fd) buf (of_nat n) s = Some (0, s\<lparr>mem := m'\<rparr>) \<and>
     opened (s\<lparr>mem := m'\<rparr>) b fd fo k \<and> seek_head m' fo = of_nat n \<and> file_size m' b k = of_nat n \<and>
     length js = (n - 1) div 256 + 1 \<and> distinct js \<and> set js \<subseteq> free_blocks b (mem s) \<and>
     (\<forall>v < length js. direct_blk m' b k v = blk b (js ! v)) \<and>
     (\<forall>i < n. m' (blk b (js ! (i div 256)) + of_nat (i mod 256)) = mem s (buf + of_nat i)) \<and>
     eq_out (bits b \<union> zone (inode_pos b k + 4) 60 \<union> (\<Union>j \<in> set js. block b j) \<union> region (fo + of_nat 8) 4) (mem s) m'"
proof -
  have d: "disk_at s b" "fd < 16" "k < 2048" "off_disk b fo 20" using o by (auto simp: opened_def)
  have fit: "b + 0x200000 \<le> two32" using disk_fit [OF d(1)] by simp
  obtain dp sp x m1 m2 js where ws: "write_start fo (inode b k) 0 s = Some (dp, sp, blk b x, 0, 0, s\<lparr>mem := m1\<rparr>)"
    and wf: "write_from fo (inode b k) (of_nat n) buf dp sp (blk b x) 0 0 0 0 0 (s\<lparr>mem := m1\<rparr>) = Some (s\<lparr>mem := m2\<rparr>)"
    and js: "length js = (n - 1) div 256 + 1" "distinct js" "set js \<subseteq> free_blocks b (mem s)"
    and ptrs: "\<forall>v < length js. direct_blk m2 b k v = blk b (js ! v)"
    and data: "\<forall>i < n. m2 (blk b (js ! (i div 256)) + of_nat (i mod 256)) = mem s (buf + of_nat i)"
    and e2: "eq_out (bits b \<union> zone (inode_pos b k + 16) (4 * lim) \<union> (\<Union>j \<in> set js. block b j)) (mem s) m2"
    using write_empty_blocks [OF assms] by blast
  let ?A = "bits b \<union> zone (inode_pos b k + 16) (4 * lim) \<union> (\<Union>j \<in> set js. block b j)"
  have js': "\<forall>j \<in> set js. j \<le> 1024" using js(3) by (auto simp: free_blocks_def)
  have o2: "opened (s\<lparr>mem := m2\<rparr>) b fd fo k"
    by (rule opened_frame [OF o eq_out_mono [OF e2]]) (use js' n(3) in \<open>auto simp: zone_def\<close>)
  have "?A \<subseteq> disk b" using d(3) n(3) js' on_disk [OF d(3), of 0] by (auto simp: place_defs)
  then have f2: "seek_head m2 fo = 0" using off_disk_word [OF e2 _ d(4), of 8] sk by (simp add: seek_head_def)
  have "zone (inode_pos b k + 4) 4 \<inter> ?A = {}" using d(3) by (auto simp: place_defs)
  then have s2: "file_size m2 b k = 0" using inode_word [OF e2 fit d(3), of 4] sz by (simp add: file_size_def)
  obtain m3 where we: "write_end fo (inode b k) (of_nat n) (s\<lparr>mem := m2\<rparr>) = Some (s\<lparr>mem := m3\<rparr>)"
    and f3: "seek_head m3 fo = of_nat n" "file_size m3 b k = of_nat n"
    and e3: "eq_out (region (fo + of_nat 8) 4 \<union> zone (inode_pos b k + 4) 4) m2 m3"
    using write_end_grows [OF o2, of "of_nat n"] f2 s2 by auto
  have "opened (s\<lparr>mem := m2, mem := m3\<rparr>) b fd fo k"
    by (rule opened_frame [OF o2 eq_out_mono]) (use e3 in \<open>auto simp: zone_def\<close>)
  then have o3: "opened (s\<lparr>mem := m3\<rparr>) b fd fo k" by simp
  have "\<not> bad_fd (of_nat fd)" "\<not> sint (of_nat n :: u32) < 0" "\<not> of_nat n > UFS_MAX_FILESIZE" "buf \<noteq> 0"
    using d(2) n buf by (auto simp: fd_ok sint_small UFS_MAX_FILESIZE_def word_less_nat_alt off_disk_def)
  then have run: "rd_write (of_nat fd) buf (of_nat n) s = Some (0, s\<lparr>mem := m3\<rparr>)"
    using fd_entry_opened [OF o] ws wf we sk sz by (simp add: rd_write_def seek_head_def file_size_def UFS_BLOCK_SIZE_def)
  note keep = write_end_keeps [OF e3 d(4,3) fit]
  have ptr: "\<forall>v < length js. direct_blk m3 b k v = blk b (js ! v)" using ptrs keep(1) js(1) n by simp
  have dat: "m3 (blk b (js ! (i div 256)) + of_nat (i mod 256)) = mem s (buf + of_nat i)" if i: "i < n" for i
  proof -
    have "i div 256 \<le> (n - 1) div 256" using i by (intro div_le_mono) simp
    then have "js ! (i div 256) \<le> 1024" using js(1) js' nth_mem [of "i div 256" js] by simp
    then show ?thesis using keep(2) data i by simp
  qed
  have "eq_out (bits b \<union> zone (inode_pos b k + 4) 60 \<union> (\<Union>j \<in> set js. block b j) \<union> region (fo + of_nat 8) 4) (mem s) m3"
    by (rule eq_out_trans [OF eq_out_mono [OF e2] eq_out_mono [OF e3]]) (use n(3) in \<open>auto simp: zone_def\<close>)
  then show ?thesis using run o3 f3 js ptr dat by blast
qed

section \<open>Seeking\<close>

text \<open>Where the seek head of a file of size \<open>sz\<close> goes from \<open>sk\<close>, or \<open>None\<close> for a refused request.\<close>

definition seek_target :: "u32 \<Rightarrow> u32 \<Rightarrow> u32 \<Rightarrow> u32 \<Rightarrow> u32 option" where
  "seek_target sk sz offset whence =
     (if whence = 0 then (if offset \<le> UFS_MAX_FILESIZE then Some offset else None)
      else if whence = 1 then (if sk + offset \<le> UFS_MAX_FILESIZE then Some (sk + offset) else None)
      else if whence = 2 then Some sz
      else None)"

lemma small_not_negative: "offset \<le> UFS_MAX_FILESIZE \<Longrightarrow> \<not> sint offset < 0"
  using sint_small [of "unat offset"] by (simp add: UFS_MAX_FILESIZE_def word_le_nat_alt)

lemma seek_store:
  assumes o: "opened s b fd fo k"
  shows "eq_out (region (fo + of_nat 8) 4) (mem s) (st32 (mem s) (fo + of_nat 8) v)"
    and "opened (s\<lparr>mem := st32 (mem s) (fo + of_nat 8) v\<rparr>) b fd fo k"
    and "seek_head (st32 (mem s) (fo + of_nat 8) v) fo = v"
proof -
  have fo: "off_disk b fo 20" using o by (simp add: opened_def)
  show e: "eq_out (region (fo + of_nat 8) 4) (mem s) (st32 (mem s) (fo + of_nat 8) v)"
    by (rule eq_out_st32) (use fo in \<open>auto simp: off_disk_def\<close>)
  show "opened (s\<lparr>mem := st32 (mem s) (fo + of_nat 8) v\<rparr>) b fd fo k"
    by (rule opened_frame [OF o eq_out_mono [OF e]]) auto
qed (simp add: seek_head_def)

text \<open>A seek changes neither the inode nor a block.\<close>

lemma seek_keeps:
  assumes o: "opened s b fd fo k"
  shows "i \<le> 60 \<Longrightarrow> ld32 (st32 (mem s) (fo + of_nat 8) v) (inode b k + of_nat i) = ld32 (mem s) (inode b k + of_nat i)"
    and "j \<le> 1024 \<Longrightarrow> x < 256 \<Longrightarrow> st32 (mem s) (fo + of_nat 8) v (blk b j + of_nat x) = mem s (blk b j + of_nat x)"
proof -
  have d: "k < 2048" "off_disk b fo 20" "b + 0x200000 \<le> two32" using o disk_fit [of s b] by (auto simp: opened_def)
  have "unat (fo + of_nat 8) = unat fo + 8" using d(2) by (simp add: off_disk_def)
  then have F: "disk b \<inter> region (fo + of_nat 8) 4 = {}" using d(2) by (auto simp: off_disk_def region_def zone_def)
  note e = seek_store(1) [OF o, of v]
  show "ld32 (st32 (mem s) (fo + of_nat 8) v) (inode b k + of_nat i) = ld32 (mem s) (inode b k + of_nat i)" if "i \<le> 60"
  proof (rule inode_word [OF e d(3,1) that])
    have "zone (inode_pos b k + i) 4 \<subseteq> disk b" using that d(1) by (auto simp: place_defs)
    with F show "zone (inode_pos b k + i) 4 \<inter> region (fo + of_nat 8) 4 = {}" by blast
  qed
  show "st32 (mem s) (fo + of_nat 8) v (blk b j + of_nat x) = mem s (blk b j + of_nat x)" if "j \<le> 1024" "x < 256"
    by (rule block_byte [OF e d(3) that]) (use F on_disk(3) [OF d(1), of 0 j b] that in blast)
qed

lemma rd_lseek_open:
  assumes o: "opened s b fd fo k"
  shows "rd_lseek (of_nat fd) offset whence s =
    (case seek_target (seek_head (mem s) fo) (file_size (mem s) b k) offset whence of
       Some v \<Rightarrow> Some (0, s\<lparr>mem := st32 (mem s) (fo + of_nat 8) v\<rparr>)
     | None \<Rightarrow> Some (if whence = 0 \<or> whence = 1 then EBOUNDS else EINVAL, s))"
proof -
  have "\<not> bad_fd (of_nat fd)" using o by (simp add: opened_def fd_ok)
  then show ?thesis
    using fd_entry_opened [OF o] small_not_negative [of offset]
    by (auto simp: rd_lseek_def seek_target_def seek_head_def file_size_def)
qed

section \<open>Reading\<close>

lemma rd_read_direct:
  assumes o: "opened s b fd fo k" and sk: "seek_head (mem s) fo = 0" and sz: "of_nat n \<le> file_size (mem s) b k"
    and n: "0 < n" "n \<le> 2048" and js: "length js = (n - 1) div 256 + 1" "\<forall>j \<in> set js. j \<le> 1024"
    and ptrs: "\<forall>v < length js. direct_blk (mem s) b k v = blk b (js ! v)"
    and buf: "off_disk b buf n" "away buf n fo 20"
  shows "\<exists>m'. rd_read (of_nat fd) buf (of_nat n) s = Some (0, s\<lparr>mem := m'\<rparr>) \<and>
     (\<forall>i < n. m' (buf + of_nat i) = mem s (blk b (js ! (i div 256)) + of_nat (i mod 256))) \<and>
     seek_head m' fo = of_nat n \<and> eq_out (region buf n \<union> region (fo + of_nat 8) 4) (mem s) m'"
proof -
  have d: "disk_at s b" "fd < 16" "k < 2048" "off_disk b fo 20" using o by (auto simp: opened_def)
  have fit: "b + 0x200000 \<le> two32" "0 < b" using disk_fit [OF d(1)] by auto
  note e = fd_entry_opened [OF o]
  obtain x xs where jx: "js = x # xs" using js(1) by (cases js) auto
  have un: "unat (of_nat n :: u32) = n" using n by simp
  let ?dp = "ld32 (mem s) (inode b k + 52)" and ?sp = "ld32 (mem s) (inode b k + 48)"
  have "\<exists>m'. read_from (inode b k) ?dp (of_nat n) (mem s) buf ?sp (blk b x) 0 (of_nat 0) 0 0 0 = Some m' \<and>
     eq_out (region buf n) (mem s) m' \<and>
     (\<forall>i < n. m' (buf + of_nat i) = mem s (blk b ((x # xs) ! (i div 256)) + of_nat (i mod 256)))"
    by (rule read_from_blocks [OF fit d(3) buf(1) n(1)])
      (use n js jx ptrs un in \<open>auto simp: direct_blk_def\<close>)
  then obtain m1 where rf: "read_from (inode b k) ?dp (of_nat n) (mem s) buf ?sp (blk b x) 0 0 0 0 0 = Some m1"
    and e1: "eq_out (region buf n) (mem s) m1"
    and data: "\<forall>i < n. m1 (buf + of_nat i) = mem s (blk b (js ! (i div 256)) + of_nat (i mod 256))"
    using jx by auto
  have uf: "unat (fo + of_nat 8) = unat fo + 8" using d(4) by (simp add: off_disk_def)
  have ap: "region (fo + of_nat 8) 4 \<inter> region buf n = {}"
    using uf buf(2) by (auto simp: region_def away_def)
  have f1: "seek_head m1 fo = 0"
    using eq_out_ld32 [OF e1 _ ap] uf d(4) sk by (simp add: seek_head_def off_disk_def)
  let ?m2 = "st32 m1 (fo + of_nat 8) (of_nat n)"
  have e2: "eq_out (region (fo + of_nat 8) 4) m1 ?m2"
    by (rule eq_out_st32) (use uf d(4) in \<open>auto simp: off_disk_def\<close>)
  have st: "read_start (mem s) (inode b k) 0 = Some (?sp, blk b x, 0, 0)"
    using e ptrs jx by (auto simp: read_start_def UFS_NUM_DIRECT_PTRS_def direct_blk_def)
  have "\<not> bad_fd (of_nat fd)" "\<not> sint (of_nat n :: u32) < 0" "buf \<noteq> 0"
    "\<not> of_nat n > file_size (mem s) b k - seek_head (mem s) fo"
    using d(2) n buf sz sk by (auto simp: fd_ok sint_small off_disk_def)
  then have "rd_read (of_nat fd) buf (of_nat n) s = Some (0, s\<lparr>mem := ?m2\<rparr>)"
    using e st rf sk f1 by (simp add: rd_read_def seek_head_def file_size_def UFS_BLOCK_SIZE_def)
  moreover have "?m2 (buf + of_nat i) = m1 (buf + of_nat i)" if "i < n" for i
  proof -
    have "buf + of_nat i \<in> region buf n" using that buf by (intro in_region_of_nat) (auto simp: off_disk_def)
    then show ?thesis using ap eq_outD [OF e2] by blast
  qed
  moreover have "eq_out (region buf n \<union> region (fo + of_nat 8) 4) (mem s) ?m2"
    by (rule eq_out_trans [OF eq_out_mono [OF e1] eq_out_mono [OF e2]]) auto
  ultimately show ?thesis using data by (intro exI [of _ ?m2]) (simp add: seek_head_def)
qed

section \<open>Properties\<close>

lemma write_seek_read:
  assumes "opened s b fd fo k" and "seek_head (mem s) fo = 0" and "file_size (mem s) b k = 0"
    and "\<forall>v < 8. direct_blk (mem s) b k v = 0" and "0 < n" "n \<le> 2048" and "off_disk b wbuf n"
    and "(n - 1) div 256 < card (free_blocks b (mem s))" and "off_disk b rbuf n" "away rbuf n fo 20"
  shows "\<exists>s1 s2 s3. rd_write (of_nat fd) wbuf (of_nat n) s = Some (0, s1) \<and>
     rd_lseek (of_nat fd) 0 0 s1 = Some (0, s2) \<and> rd_read (of_nat fd) rbuf (of_nat n) s2 = Some (0, s3) \<and>
     (\<forall>i < n. mem s3 (rbuf + of_nat i) = mem s (wbuf + of_nat i))"
proof -
  obtain m1 js where w: "rd_write (of_nat fd) wbuf (of_nat n) s = Some (0, s\<lparr>mem := m1\<rparr>)"
    and o1: "opened (s\<lparr>mem := m1\<rparr>) b fd fo k" and f1: "file_size m1 b k = of_nat n"
    and js: "length js = (n - 1) div 256 + 1" "set js \<subseteq> free_blocks b (mem s)"
    and ptrs: "\<forall>v < length js. direct_blk m1 b k v = blk b (js ! v)"
    and data: "\<forall>i < n. m1 (blk b (js ! (i div 256)) + of_nat (i mod 256)) = mem s (wbuf + of_nat i)"
    using rd_write_empty [OF assms(1-5) _ _ assms(7,8)] assms(6) by auto
  let ?m2 = "st32 m1 (fo + of_nat 8) 0"
  have l: "rd_lseek (of_nat fd) 0 0 (s\<lparr>mem := m1\<rparr>) = Some (0, s\<lparr>mem := ?m2\<rparr>)"
    using rd_lseek_open [OF o1, of 0 0] by (simp add: seek_target_def)
  note sk = seek_store [OF o1, of 0, simplified]
  have le: "\<forall>j \<in> set js. j \<le> 1024" using js(2) by (auto simp: free_blocks_def)
  have len: "length js \<le> 8" using js(1) assms(6) by auto
  have p2: "\<forall>v < length js. direct_blk ?m2 b k v = blk b (js ! v)"
    using ptrs len seek_keeps(1) [OF o1, of "16 + 4 * v" 0 for v] by (auto simp: direct_blk_def simp del: of_nat_add of_nat_mult)
  have f2: "file_size ?m2 b k = of_nat n" using f1 seek_keeps(1) [OF o1, of 4 0] by (simp add: file_size_def)
  obtain m3 where r: "rd_read (of_nat fd) rbuf (of_nat n) (s\<lparr>mem := ?m2\<rparr>) = Some (0, s\<lparr>mem := m3\<rparr>)"
    and d3: "\<forall>i < n. m3 (rbuf + of_nat i) = ?m2 (blk b (js ! (i div 256)) + of_nat (i mod 256))"
    using rd_read_direct [of "s\<lparr>mem := ?m2\<rparr>" b fd fo k n js rbuf] sk f2 p2 js(1) le assms by auto
  have "?m2 (blk b (js ! (i div 256)) + of_nat (i mod 256)) = m1 (blk b (js ! (i div 256)) + of_nat (i mod 256))"
    if i: "i < n" for i
  proof -
    have "i div 256 \<le> (n - 1) div 256" using i by (intro div_le_mono) simp
    then have "js ! (i div 256) \<le> 1024" using js(1) le nth_mem [of "i div 256" js] by auto
    then show ?thesis using seek_keeps(2) [OF o1, of "js ! (i div 256)" "i mod 256" 0] by simp
  qed
  with w l r d3 data show ?thesis by (intro exI) auto
qed

text \<open>
  C8: a file reads back what was written. For a descriptor open on an empty regular file whose
  seek head is at 0, and enough free blocks, \<open>rd_write\<close> of up to 2048 bytes (the direct blocks),
  \<open>rd_lseek\<close> to the start and \<open>rd_read\<close> of the same count all return 0, and the read buffer then
  holds the bytes of the write buffer, in order.
\<close>

theorem rd_write_read:
  assumes "opened s b fd fo k" and "seek_head (mem s) fo = 0" and "file_size (mem s) b k = 0"
    and "\<forall>v < 8. direct_blk (mem s) b k v = 0" and "0 < n" "n \<le> 2048" and "off_disk b wbuf n"
    and "(n - 1) div 256 < card (free_blocks b (mem s))" and "off_disk b rbuf n" "away rbuf n fo 20"
  shows "\<exists>s1 s2 s3. rd_write (of_nat fd) wbuf (of_nat n) s = Some (0, s1) \<and>
     rd_lseek (of_nat fd) 0 0 s1 = Some (0, s2) \<and> rd_read (of_nat fd) rbuf (of_nat n) s2 = Some (0, s3) \<and>
     (\<forall>i < n. mem s3 (rbuf + of_nat i) = mem s (wbuf + of_nat i))"
  by (rule write_seek_read [OF assms])


text \<open>
  A task at 0x80000 with descriptor 3 open on the file object at 0x91000, whose inode is number 5
  of the disk at 1 MB; the bytes 10, 20, 30 are at 0x92000.
\<close>

definition demo_open :: mem where
  "demo_open = st32 (st32 (st32 (st32 (\<lambda>_. 0) 0x80034 0x91000) 0x91010 0x104140) 0x104140 2) 0x92000 0x1E140A"

lemma demo_open_words:
  "ld32 demo_open 0x80034 = 0x91000" "ld32 demo_open 0x91008 = 0" "ld32 demo_open 0x91010 = 0x104140"
  "ld32 demo_open 0x104140 = 2" "ld32 demo_open 0x104144 = 0"
  by (simp_all add: demo_open_def ld32_st32_apart apart_def)

lemma demo_open_bytes: "demo_open 0x92000 = 10" "demo_open 0x92001 = 20" "demo_open 0x92002 = 30"
  by (simp_all add: demo_open_def st32_def)

lemma demo_open_blocks: assumes "v < 8" shows "direct_blk demo_open 0x100000 5 v = 0"
proof -
  let ?a = "of_nat (0x104150 + 4 * v) :: addr"
  have u: "unat ?a = 0x104150 + 4 * v" using assms by (simp del: of_nat_add of_nat_mult)
  have "direct_blk demo_open 0x100000 5 v = ld32 demo_open ?a"
    by (simp add: direct_blk_def inode_pos_def algebra_simps)
  also have "\<dots> = 0"
    using u assms by (simp add: demo_open_def ld32_st32_apart apart_def del: of_nat_add of_nat_mult)
  finally show ?thesis .
qed

lemma demo_opened: "opened (demo_fs demo_open) 0x100000 3 0x91000 5"
  by (simp add: opened_def demo_fs_disk off_disk_def away_def inode_pos_def demo_open_words)

theorem rd_write_read_witness:
  "\<exists>s1 s2 s3. rd_write 3 0x92000 3 (demo_fs demo_open) = Some (0, s1) \<and>
     rd_lseek 3 0 0 s1 = Some (0, s2) \<and> rd_read 3 0x93000 3 s2 = Some (0, s3) \<and>
     mem s3 0x93000 = 10 \<and> mem s3 0x93001 = 20 \<and> mem s3 0x93002 = 30"
proof -
  have "free_blocks 0x100000 demo_open \<noteq> {}"
  proof -
    have "demo_open 0x124000 = 0" by (simp add: demo_open_def st32_def)
    then have "0 \<in> free_blocks 0x100000 demo_open" by (simp add: free_blocks_def marked_def)
    then show ?thesis by blast
  qed
  then have room: "card (free_blocks 0x100000 demo_open) > 0" by (simp add: card_gt_0_iff)
  obtain s1 s2 s3 where run: "rd_write 3 0x92000 3 (demo_fs demo_open) = Some (0, s1)"
    "rd_lseek 3 0 0 s1 = Some (0, s2)" "rd_read 3 0x93000 3 s2 = Some (0, s3)"
    and data: "\<forall>i < 3. mem s3 (0x93000 + of_nat i) = demo_open (0x92000 + of_nat i)"
    using rd_write_read [OF demo_opened, of 3 "0x92000" "0x93000"] room demo_open_blocks
    by (auto simp: seek_head_def file_size_def demo_open_words inode_pos_def off_disk_def away_def)
  have "mem s3 0x93000 = 10" "mem s3 0x93001 = 20" "mem s3 0x93002 = 30"
    using data [rule_format, of 0] data [rule_format, of 1] data [rule_format, of 2] by (simp_all add: demo_open_bytes)
  with run show ?thesis by blast
qed

text \<open>
  C24: the seek head stays within the largest file. On an open regular file \<open>rd_lseek\<close> moves the
  head exactly when the target is one the code admits (from the start, from the head, with the
  32-bit sum, or to the end), and otherwise returns EBOUNDS or EINVAL and changes nothing; the
  file stays open and a head and a size of at most UFS_MAX_FILESIZE are never exceeded.
\<close>

theorem rd_lseek_bounds:
  assumes "opened s b fd fo k" and "file_size (mem s) b k \<le> UFS_MAX_FILESIZE"
    and "seek_head (mem s) fo \<le> UFS_MAX_FILESIZE"
  shows "\<exists>r m'. rd_lseek (of_nat fd) offset whence s = Some (r, s\<lparr>mem := m'\<rparr>) \<and>
     opened (s\<lparr>mem := m'\<rparr>) b fd fo k \<and> seek_head m' fo \<le> UFS_MAX_FILESIZE \<and>
     eq_out (region (fo + of_nat 8) 4) (mem s) m' \<and>
     (case seek_target (seek_head (mem s) fo) (file_size (mem s) b k) offset whence of
        Some v \<Rightarrow> r = 0 \<and> seek_head m' fo = v
      | None \<Rightarrow> r = (if whence = 0 \<or> whence = 1 then EBOUNDS else EINVAL) \<and> m' = mem s)"
proof (cases "seek_target (seek_head (mem s) fo) (file_size (mem s) b k) offset whence")
  case None
  then show ?thesis using rd_lseek_open [OF assms(1)] assms(1,3)
    by (intro exI [of _ "if whence = 0 \<or> whence = 1 then EBOUNDS else EINVAL"] exI [of _ "mem s"]) auto
next
  case (Some v)
  then have "v \<le> UFS_MAX_FILESIZE" using assms(2) by (auto simp: seek_target_def split: if_splits)
  with Some show ?thesis using rd_lseek_open [OF assms(1)] seek_store [OF assms(1), of v]
    by (intro exI [of _ 0] exI [of _ "st32 (mem s) (fo + of_nat 8) v"]) simp
qed

theorem rd_lseek_bounds_witness:
  "\<exists>m'. rd_lseek 3 0x104801 0 (demo_fs demo_open) = Some (EBOUNDS, demo_fs m') \<and> m' = demo_open"
  using rd_lseek_bounds [OF demo_opened, of "0x104801" 0]
  by (simp add: seek_head_def file_size_def demo_open_words inode_pos_def UFS_MAX_FILESIZE_def seek_target_def)

end
