(* ===== verification/Ramdisk_Large.thy ===== *)
theory Ramdisk_Large
  imports Ramdisk_Files
begin

text \<open>
  Reads and writes outside the round trip of Ramdisk_Files. The ninth block of a file is stored where the pointer to the
  indirect block belongs, so its contents are taken for pointers when it is read. A write to a file that has contents, from
  a position before its end, stores zeros.
\<close>

section \<open>The ninth block\<close>

lemma read_ninth:
  assumes o: "opened s b fd fo k" and sk: "seek_head (mem s) fo = 2048" and sz: "of_nat r \<le> file_size (mem s) b k - 2048"
    and r: "0 < r" "r \<le> 256" and p: "direct_blk (mem s) b k 8 = q" "q \<noteq> 0" and buf: "buf \<noteq> 0" "unat buf + r \<le> two32" "away buf r fo 20"
  defines "a \<equiv> ld32 (mem s) q"
  shows "a = 0 \<Longrightarrow> rd_read (of_nat fd) buf (of_nat r) s = None"
    and "a \<noteq> 0 \<Longrightarrow> unat a + 256 \<le> two32 \<Longrightarrow> away buf r a 256 \<Longrightarrow>
      \<exists>m'. rd_read (of_nat fd) buf (of_nat r) s = Some (0, s\<lparr>mem := m'\<rparr>) \<and> (\<forall>i < r. m' (buf + of_nat i) = mem s (a + of_nat i))"
proof -
  have fd: "fd < 16" "off_disk b fo 20" using o by (auto simp: opened_def)
  note e = fd_entry_opened [OF o]
  let ?dp = "ld32 (mem s) (inode b k + 52)"
  have st: "read_start (mem s) (inode b k) 8 = Some (q, a, 0, 0)"
    using e p by (simp add: read_start_def UFS_NUM_DIRECT_PTRS_def direct_blk_def a_def)
  have ok: "\<not> bad_fd (of_nat fd)" "\<not> sint (of_nat r :: u32) < 0" "\<not> of_nat r > file_size (mem s) b k - seek_head (mem s) fo"
    using fd r sz sk by (auto simp: fd_ok sint_small)
  have nul: "read_block (mem s) buf 0 0 0 (of_nat r) 256 = None"
    using read_block.simps(2) [of "mem s" buf 0 0 0 "of_nat r" 255] by (simp add: rd8_def)
  have div: "(2048 :: u32) div UFS_BLOCK_SIZE = 8" "(2048 :: u32) mod UFS_BLOCK_SIZE = 0" by (simp_all add: UFS_BLOCK_SIZE_def)
  show "rd_read (of_nat fd) buf (of_nat r) s = None" if "a = 0"
  proof -
    have "read_from (inode b k) ?dp (of_nat r) (mem s) buf q 0 0 8 0 0 0 = None"
      using nul by (subst read_from.simps) (simp add: UFS_BLOCK_SIZE_def)
    then show ?thesis using e st ok sk div buf(1) that by (simp add: rd_read_def seek_head_def file_size_def)
  qed
  show "\<exists>m'. rd_read (of_nat fd) buf (of_nat r) s = Some (0, s\<lparr>mem := m'\<rparr>) \<and> (\<forall>i < r. m' (buf + of_nat i) = mem s (a + of_nat i))"
    if a: "a \<noteq> 0" "unat a + 256 \<le> two32" "away buf r a 256"
  proof -
    let ?m1 = "moved (mem s) buf a r"
    have "read_block (mem s) buf a 0 0 (of_nat r) 256 = Some (moved (mem s) buf (a + 0) (min 256 r), buf + of_nat (min 256 r), 0 + of_nat (min 256 r))"
      by (rule read_block_moves [OF a(1,2) _ buf(1,2) a(3) r(1)]) (use r in simp_all)
    then have rb: "read_from (inode b k) ?dp (of_nat r) (mem s) buf q a 0 8 0 0 0 = Some ?m1"
      using r by (subst read_from.simps) (simp add: UFS_BLOCK_SIZE_def)
    have uf: "unat (fo + of_nat 8) = unat fo + 8" using fd by (simp add: off_disk_def)
    have ap: "region (fo + of_nat 8) 4 \<inter> region buf r = {}" using uf buf(3) by (auto simp: region_def away_def)
    note e1 = moved_frame [OF buf(2), of "mem s" a]
    have f1: "seek_head ?m1 fo = 2048" using eq_out_ld32 [OF e1 _ ap] uf fd sk by (simp add: seek_head_def off_disk_def)
    let ?m2 = "st32 ?m1 (fo + of_nat 8) (2048 + of_nat r)"
    have e2: "eq_out (region (fo + of_nat 8) 4) ?m1 ?m2" by (rule eq_out_st32) (use uf fd in \<open>auto simp: off_disk_def\<close>)
    have "rd_read (of_nat fd) buf (of_nat r) s = Some (0, s\<lparr>mem := ?m2\<rparr>)"
      using e st ok sk div buf(1) rb f1 by (simp add: rd_read_def seek_head_def file_size_def)
    moreover have "?m2 (buf + of_nat i) = mem s (a + of_nat i)" if "i < r" for i
    proof -
      have "buf + of_nat i \<in> region buf r" using that buf by (intro in_region_of_nat) auto
      then have "?m2 (buf + of_nat i) = ?m1 (buf + of_nat i)" using ap eq_outD [OF e2] by blast
      then show ?thesis using moved_nth [OF buf(2) that] by simp
    qed
    ultimately show ?thesis by blast
  qed
qed

text \<open>A write of more than 2048 and at most 2304 bytes: the bytes from 2048 on are in a block that the ninth entry names.\<close>

lemma write_ninth:
  assumes o: "opened s b fd fo k" and sk: "seek_head (mem s) fo = 0" and sz: "file_size (mem s) b k = 0"
    and z: "\<forall>v < 9. direct_blk (mem s) b k v = 0" and n: "2052 \<le> n" "n \<le> 2304" and buf: "off_disk b buf n"
    and room: "8 < card (free_blocks b (mem s))"
  shows "\<exists>m1 j. rd_write (of_nat fd) buf (of_nat n) s = Some (0, s\<lparr>mem := m1\<rparr>) \<and>
     opened (s\<lparr>mem := m1\<rparr>) b fd fo k \<and> seek_head m1 fo = of_nat n \<and> file_size m1 b k = of_nat n \<and> j \<le> 1024 \<and>
     direct_blk m1 b k 8 = blk b j \<and> ld32 m1 (blk b j) = ld32 (mem s) (buf + 2048)"
proof -
  have len: "(n - 1) div 256 = 8" using n by (intro div_nat_eqI) auto
  obtain m1 js where w: "rd_write (of_nat fd) buf (of_nat n) s = Some (0, s\<lparr>mem := m1\<rparr>)" "opened (s\<lparr>mem := m1\<rparr>) b fd fo k"
    "seek_head m1 fo = of_nat n" "file_size m1 b k = of_nat n" "length js = 9" "set js \<subseteq> free_blocks b (mem s)"
    "\<forall>v < length js. direct_blk m1 b k v = blk b (js ! v)"
    "\<forall>i < n. m1 (blk b (js ! (i div 256)) + of_nat (i mod 256)) = mem s (buf + of_nat i)"
    using rd_write_empty [OF o sk sz z, of n buf] n buf room len by auto
  let ?j = "js ! 8"
  have "?j \<in> set js" using w(5) by simp
  then have j: "?j \<le> 1024" using w(6) by (auto simp: free_blocks_def)
  have b: "m1 (blk b ?j + of_nat i) = mem s (buf + 2048 + of_nat i)" if "i < 4" for i
  proof -
    have "(2048 + i) div 256 = 8" "(2048 + i) mod 256 = i" using that by (auto intro: div_nat_eqI simp: mod_nat_eqI)
    with w(8) [rule_format, of "2048 + i"] that n show ?thesis by (simp add: add.assoc)
  qed
  have "ld32 m1 (blk b ?j) = ld32 (mem s) (buf + 2048)" using b [of 0] b [of 1] b [of 2] b [of 3] by (simp add: ld32_def add.assoc)
  then show ?thesis using w j by (intro exI [of _ m1] exI [of _ ?j]) simp
qed

section \<open>Writing over a file\<close>

lemma write_block_zeros:
  assumes "bp \<noteq> 0" "unat bp + 256 \<le> two32" "fo \<noteq> 0" "ino \<noteq> 0"
    and "unat off + n = 256" "0 < r" "unat actual = unat cnt + r" "unat cnt + r \<le> unat h"
    and "\<And>m'. eq_out (region bp 256) m m' \<Longrightarrow> ld32 m' (fo + 8) - ld32 m' (ino + 4) = h"
  shows "write_block fo ino m buf bp off cnt actual n =
     Some (\<lambda>a. if a \<in> region (bp + off) (min n r) then 0 else m a, buf, cnt + of_nat (min n r))"
  using assms(5-)
proof (induction n arbitrary: m off cnt r)
  case 0
  have "(\<lambda>a. if a \<in> region (bp + off) (min 0 r) then 0 else m a) = m" by (auto simp: region_def fun_eq_iff)
  then show ?case by simp
next
  case (Suc n)
  let ?m1 = "m(bp + off := 0)"
  have off: "unat (bp + off) = unat bp + unat off" using assms(2) Suc.prems(1) by (simp add: unat_plus_fit)
  have test: "cnt < ld32 m (fo + 8) - ld32 m (ino + 4)" using Suc.prems(2,4) Suc.prems(5) [of m] by (simp add: word_less_nat_alt)
  have eq1: "eq_out (region bp 256) m ?m1" using off Suc.prems(1) by (auto simp: eq_out_def region_def)
  have last: "cnt + 1 = actual \<longleftrightarrow> r = 1"
    using Suc.prems(2,3) unat_lt_two32 [of actual] by (auto simp: word_unat_eq_iff)
  have reg: "region (bp + off) (Suc x) = insert (bp + off) (region (bp + off + 1) x)" if "x \<le> n" for x
    by (rule region_Suc) (use off assms(2) Suc.prems(1) that in simp)
  show ?case
  proof (cases "r = 1")
    case True
    then show ?thesis using test last assms(1,3,4) reg [of 0] by (auto simp: region_def fun_upd_def fun_eq_iff)
  next
    case False
    then have r: "1 < r" using Suc.prems(2) by simp
    have o1: "unat (off + 1) = unat off + 1" using Suc.prems(1) by simp
    have c1: "unat (cnt + 1) = unat cnt + 1" using Suc.prems(3) r unat_lt_two32 [of actual] by simp
    have IH: "write_block fo ino ?m1 buf bp (off + 1) (cnt + 1) actual n =
       Some (\<lambda>a. if a \<in> region (bp + (off + 1)) (min n (r - 1)) then 0 else ?m1 a, buf, cnt + 1 + of_nat (min n (r - 1)))"
    proof (rule Suc.IH)
      show "unat (off + 1) + n = 256" "0 < r - 1" "unat actual = unat (cnt + 1) + (r - 1)" "unat (cnt + 1) + (r - 1) \<le> unat h"
        using o1 c1 r Suc.prems by auto
      show "ld32 m' (fo + 8) - ld32 m' (ino + 4) = h" if "eq_out (region bp 256) ?m1 m'" for m'
        by (rule Suc.prems(5)) (rule eq_out_trans [OF eq1 that])
    qed
    have k: "min (Suc n) r = Suc (min n (r - 1))" using r by simp
    show ?thesis using IH test last False assms(1,3,4) reg [of "min n (r - 1)"] unfolding k
      by (auto simp: add.assoc fun_eq_iff)
  qed
qed

lemma write_start_over:
  assumes o: "opened s b fd fo k" and sk: "seek_head (mem s) fo = 0" and p: "direct_blk (mem s) b k 0 = blk b j" "j \<le> 1024"
  shows "\<exists>dp sp. write_start fo (inode b k) 0 s = Some (dp, sp, blk b j, 0, 0, s)"
proof -
  have "disk_at s b" using o by (simp add: opened_def)
  then have "unat (blk b j) \<noteq> 0" using unat_blk(1) [of b j] p(2) disk_fit [of s b] by (simp add: blk_pos_def)
  then have "blk b j \<noteq> 0" by auto
  then show ?thesis using fd_entry_opened [OF o] sk p(1)
    by (simp add: write_start_def ensure_cell_def UFS_NUM_DIRECT_PTRS_def seek_head_def direct_blk_def)
qed

text \<open>
  C40: writing over the start of a file: with the position at 0 of a file of \<open>z > 0\<close> bytes, \<open>rd_write\<close> of \<open>n > z\<close> bytes (at most
  256 more) returns 0, sets size and position to \<open>n\<close>, and stores zeros in the first \<open>n - z\<close> bytes of the first block and
  nothing else on the disk but the size: the bytes of the caller's buffer are stored nowhere.
\<close>

theorem rd_write_over_zeros:
  assumes o: "opened s b fd fo k" and sk: "seek_head (mem s) fo = 0" and sz: "file_size (mem s) b k = of_nat z"
    and n: "0 < z" "z < n" "n \<le> z + 256" "n \<le> 0x104800" and p: "direct_blk (mem s) b k 0 = blk b j" "j \<le> 1024" and buf: "buf \<noteq> 0"
  shows "\<exists>m'. rd_write (of_nat fd) buf (of_nat n) s = Some (0, s\<lparr>mem := m'\<rparr>) \<and> (\<forall>i < n - z. m' (blk b j + of_nat i) = 0) \<and>
     file_size m' b k = of_nat n \<and> seek_head m' fo = of_nat n \<and>
     eq_out (zone (blk_pos b j) (n - z) \<union> zone (inode_pos b k + 4) 4 \<union> region (fo + of_nat 8) 4) (mem s) m'"
proof -
  have d: "disk_at s b" "fd < 16" "k < 2048" "off_disk b fo 20" using o by (auto simp: opened_def)
  have fit: "b + 0x200000 \<le> two32" using disk_fit [OF d(1)] by simp
  note e = fd_entry_opened [OF o] and ub = unat_blk [OF fit p(2)]
  let ?r = "n - z" and ?m = "mem s"
  let ?m1 = "\<lambda>a. if a \<in> region (blk b j) (n - z) then 0 else mem s a"
  have nz: "blk b j \<noteq> 0" using ub(1) disk_fit [OF d(1)] by (auto simp: blk_pos_def simp del: of_nat_add of_nat_mult)
  have fitb: "unat (blk b j) + 256 \<le> two32" using ub(1,2) by simp
  have act: "of_nat n - of_nat z = (of_nat (n - z) :: u32)" using n by (simp add: of_nat_diff)
  have neg: "0 - of_nat z = (of_nat (two32 - z) :: u32)" using of_nat_diff [of z two32, where 'a = u32] n by simp
  have hole: "unat (0 - of_nat z :: u32) = two32 - z" unfolding neg by (rule unat_of_nat_fit) (use n in simp)
  have "write_block fo (inode b k) ?m buf (blk b j) 0 0 (of_nat ?r) 256 =
      Some (\<lambda>a. if a \<in> region (blk b j + 0) (min 256 ?r) then 0 else ?m a, buf, 0 + of_nat (min 256 ?r))"
  proof (rule write_block_zeros [OF nz fitb e(4,5), where h = "0 - of_nat z"])
    fix m' assume "eq_out (region (blk b j) 256) ?m m'"
    then have eb: "eq_out (block b j) ?m m'" using ub(3) by simp
    have "zone (inode_pos b k + 4) 4 \<inter> block b j = {}" using d(3) by (auto simp: place_defs)
    with inode_word [OF eb fit d(3), of 4] off_disk_word [OF eb on_disk(3) [OF d(3) _ p(2)] d(4), of 8 8] sk sz
    show "ld32 m' (fo + 8) - ld32 m' (inode b k + 4) = 0 - of_nat z" by (simp add: seek_head_def file_size_def)
  qed (use n hole unat_of_nat_fit [of ?r] in \<open>simp_all del: of_nat_diff\<close>)
  then have wf: "write_from fo (inode b k) (of_nat ?r) buf dp sp (blk b j) 0 0 0 0 0 s = Some (s\<lparr>mem := ?m1\<rparr>)" for dp sp
    using n by (subst write_from.simps) (simp add: unat_block_size del: of_nat_diff)
  have e1: "eq_out (zone (blk_pos b j) ?r) ?m ?m1" using ub(1) by (auto simp: eq_out_def region_def zone_def)
  have "zone (blk_pos b j) ?r \<subseteq> block b j" using n by (auto simp: block_def zone_def)
  then have eb: "eq_out (block b j) ?m ?m1" by (rule eq_out_mono [OF e1])
  have o1: "opened (s\<lparr>mem := ?m1\<rparr>) b fd fo k" by (rule opened_frame [OF o eq_out_mono [OF eb]]) (use p(2) in auto)
  have "zone (inode_pos b k + 4) 4 \<inter> block b j = {}" using d(3) by (auto simp: place_defs)
  then have keep: "seek_head ?m1 fo = 0" "file_size ?m1 b k = of_nat z"
    using inode_word [OF eb fit d(3), of 4] off_disk_word [OF eb on_disk(3) [OF d(3) _ p(2)] d(4), of 8 8] sk sz
    by (simp_all add: seek_head_def file_size_def)
  have le: "(of_nat z :: u32) \<le> of_nat n" using n by (simp add: word_le_nat_alt)
  obtain m3 where we: "write_end fo (inode b k) (of_nat n) (s\<lparr>mem := ?m1\<rparr>) = Some (s\<lparr>mem := m3\<rparr>)" "seek_head m3 fo = of_nat n"
    "file_size m3 b k = of_nat n" "eq_out (region (fo + of_nat 8) 4 \<union> zone (inode_pos b k + 4) 4) ?m1 m3"
    using write_end_grows [OF o1, of "of_nat n"] keep le by auto
  obtain dp sp where ws: "write_start fo (inode b k) 0 s = Some (dp, sp, blk b j, 0, 0, s)" using write_start_over [OF o sk p] by blast
  have "\<not> bad_fd (of_nat fd)" "\<not> sint (of_nat n :: u32) < 0" "\<not> of_nat n > UFS_MAX_FILESIZE"
    using d(2) n by (auto simp: fd_ok sint_small UFS_MAX_FILESIZE_def word_less_nat_alt)
  then have "rd_write (of_nat fd) buf (of_nat n) s = Some (0, s\<lparr>mem := m3\<rparr>)"
    using e ws wf we(1) sk sz act buf by (simp add: rd_write_def seek_head_def file_size_def UFS_BLOCK_SIZE_def)
  moreover have "m3 (blk b j + of_nat i) = 0" if "i < ?r" for i
  proof -
    have "blk b j + of_nat i \<in> region (blk b j) ?r" using that ub n by (intro in_region_of_nat) auto
    then show ?thesis using write_end_keeps(2) [OF we(4) d(4,3) fit p(2), of i] that n by simp
  qed
  moreover have "eq_out (zone (blk_pos b j) ?r \<union> zone (inode_pos b k + 4) 4 \<union> region (fo + of_nat 8) 4) ?m m3"
    by (rule eq_out_trans [OF eq_out_mono [OF e1] eq_out_mono [OF we(4)]]) auto
  ultimately show ?thesis using we(2,3) by blast
qed

section \<open>Properties\<close>

text \<open>
  C25: the ninth block of a file does not read back. Writing 2052 to 2304 bytes to an empty file returns 0, but the block with
  the bytes from 2048 on is stored as the inode's indirect block: after a seek to 2048, reading them takes the first four for
  an address and copies what is there, or follows a null pointer if they are zero.
\<close>

theorem ninth_block_misread:
  assumes "opened s b fd fo k" and "seek_head (mem s) fo = 0" and "file_size (mem s) b k = 0"
    and "\<forall>v < 9. direct_blk (mem s) b k v = 0" and "2052 \<le> n" and "n \<le> 2304" and "off_disk b wbuf n"
    and "8 < card (free_blocks b (mem s))" and "rbuf \<noteq> 0" and "unat rbuf + (n - 2048) \<le> two32" and "away rbuf (n - 2048) fo 20"
  shows "\<exists>s1 s2. rd_write (of_nat fd) wbuf (of_nat n) s = Some (0, s1) \<and> rd_lseek (of_nat fd) 2048 0 s1 = Some (0, s2) \<and>
     (let a = ld32 (mem s) (wbuf + 2048); r = n - 2048 in
       (a = 0 \<longrightarrow> rd_read (of_nat fd) rbuf (of_nat r) s2 = None) \<and>
       (a \<noteq> 0 \<longrightarrow> unat a + 256 \<le> two32 \<longrightarrow> away rbuf r a 256 \<longrightarrow>
          (\<exists>s3. rd_read (of_nat fd) rbuf (of_nat r) s2 = Some (0, s3) \<and> (\<forall>i < r. mem s3 (rbuf + of_nat i) = mem s2 (a + of_nat i)))))"
proof -
  obtain m1 j where w: "rd_write (of_nat fd) wbuf (of_nat n) s = Some (0, s\<lparr>mem := m1\<rparr>)" and o1: "opened (s\<lparr>mem := m1\<rparr>) b fd fo k"
    and f1: "file_size m1 b k = of_nat n" and j: "j \<le> 1024" "direct_blk m1 b k 8 = blk b j" "ld32 m1 (blk b j) = ld32 (mem s) (wbuf + 2048)"
    using write_ninth [OF assms(1-8)] by blast
  let ?m2 = "st32 m1 (fo + of_nat 8) 2048" and ?r = "n - 2048"
  have l: "rd_lseek (of_nat fd) 2048 0 (s\<lparr>mem := m1\<rparr>) = Some (0, s\<lparr>mem := ?m2\<rparr>)"
    using rd_lseek_open [OF o1, of 2048 0] by (simp add: seek_target_def UFS_MAX_FILESIZE_def)
  have d: "k < 2048" "off_disk b fo 20" "b + 0x200000 \<le> two32" "0 < b" using assms(1) disk_fit [of s b] by (auto simp: opened_def)
  have sk: "eq_out (region (fo + of_nat 8) 4) m1 ?m2" "opened (s\<lparr>mem := ?m2\<rparr>) b fd fo k" "seek_head ?m2 fo = 2048"
    using seek_store [OF o1, of 2048] by simp_all
  have ub: "unat (blk b j) = blk_pos b j" by (rule unat_blk(1) [OF d(3) j(1)])
  have keep: "?m2 (blk b j + of_nat x) = m1 (blk b j + of_nat x)" if "x < 4" for x using seek_keeps(2) [OF o1 j(1), of x] that by simp
  have ptr: "ld32 ?m2 (blk b j) = ld32 (mem s) (wbuf + 2048)"
    using keep [of 0] keep [of 1] keep [of 2] keep [of 3] j(3) by (simp add: ld32_def)
  have q: "direct_blk ?m2 b k 8 = blk b j" "blk b j \<noteq> 0"
    using j(2) seek_keeps(1) [OF o1, of 48] ub d(4) by (auto simp: direct_blk_def blk_pos_def simp del: of_nat_add of_nat_mult)
  have "of_nat n - 2048 = (of_nat ?r :: u32)" using of_nat_diff [of 2048 n, where 'a = u32] assms(5) by simp
  then have sz: "of_nat ?r \<le> file_size ?m2 b k - 2048" using f1 seek_keeps(1) [OF o1, of 4] by (simp add: file_size_def)
  have r: "0 < ?r" "?r \<le> 256" using assms(5,6) by auto
  have s2: "mem (s\<lparr>mem := ?m2\<rparr>) = ?m2" by simp
  note rd = read_ninth [OF sk(2), unfolded s2, OF sk(3) sz r q assms(9-11), unfolded ptr]
  show ?thesis using w l rd unfolding Let_def by (intro exI [of _ "s\<lparr>mem := m1\<rparr>"] exI [of _ "s\<lparr>mem := ?m2\<rparr>"]) auto
qed

text \<open>The open file of Ramdisk_Files, with the address of the bytes 10, 20, 30 as the word at 2048 of the buffer.\<close>

definition demo_ninth :: mem where
  "demo_ninth = st32 demo_open 0x92800 0x92000"

lemma demo_ninth_eq: "eq_out (region 0x92800 4) demo_open demo_ninth"
  unfolding demo_ninth_def by (rule eq_out_st32) simp_all

lemma demo_ninth_words: "region a 4 \<inter> region 0x92800 4 = {} \<Longrightarrow> unat a + 4 \<le> two32 \<Longrightarrow> ld32 demo_ninth a = ld32 demo_open a"
  using eq_out_ld32 [OF demo_ninth_eq] by blast

lemma demo_ninth_opened:
  "opened (demo_fs demo_ninth) 0x100000 3 0x91000 5" "seek_head demo_ninth 0x91000 = 0" "file_size demo_ninth 0x100000 5 = 0"
proof -
  have "ld32 demo_ninth a = ld32 demo_open a" if "a \<in> {0x80034, 0x91008, 0x91010, 0x104140, 0x104144}" for a
    using that by (intro demo_ninth_words) (auto simp: region_def)
  then show "opened (demo_fs demo_ninth) 0x100000 3 0x91000 5" "seek_head demo_ninth 0x91000 = 0" "file_size demo_ninth 0x100000 5 = 0"
    by (simp_all add: opened_def demo_fs_disk off_disk_def away_def inode_pos_def seek_head_def file_size_def demo_open_words)
qed

lemma demo_ninth_cells: "v < 9 \<Longrightarrow> direct_blk demo_ninth 0x100000 5 v = 0"
proof -
  assume v: "v < 9"
  let ?a = "of_nat (0x104150 + 4 * v) :: addr"
  have u: "unat ?a = 0x104150 + 4 * v" using v by (simp del: of_nat_add of_nat_mult)
  have "direct_blk demo_ninth 0x100000 5 v = ld32 demo_ninth ?a" by (simp add: direct_blk_def inode_pos_def algebra_simps)
  also have "\<dots> = 0" using u v by (simp add: demo_ninth_def demo_open_def ld32_st32_apart apart_def del: of_nat_add of_nat_mult)
  finally show ?thesis .
qed

lemma demo_ninth_room: "8 < card (free_blocks 0x100000 demo_ninth)"
proof -
  have "demo_ninth 0x124000 = 0" "demo_ninth 0x124001 = 0" by (simp_all add: demo_ninth_def demo_open_def st32_def)
  then have "i \<in> free_blocks 0x100000 demo_ninth" if "i \<le> 8" for i
    using that by (cases "i = 8") (simp_all add: free_blocks_def marked_def)
  then have "{..8} \<subseteq> free_blocks 0x100000 demo_ninth" by auto
  then have "card {..8 :: nat} \<le> card (free_blocks 0x100000 demo_ninth)" by (rule card_mono [rotated]) (simp add: free_blocks_def)
  then show ?thesis by simp
qed

theorem ninth_block_misread_witness:
  "\<exists>s1 s2 s3. rd_write 3 0x92000 2052 (demo_fs demo_ninth) = Some (0, s1) \<and> rd_lseek 3 2048 0 s1 = Some (0, s2) \<and>
     rd_read 3 0x93000 4 s2 = Some (0, s3) \<and> mem s3 0x93000 = mem s2 0x92000"
proof -
  have "ld32 demo_ninth 0x92800 = 0x92000" by (simp add: demo_ninth_def)
  moreover have "off_disk 0x100000 0x92000 2052" "away 0x93000 4 0x91000 20" "away 0x93000 4 0x92000 256" by (simp_all add: off_disk_def away_def)
  ultimately obtain s1 s2 s3 where r: "rd_write (of_nat 3) 0x92000 (of_nat 2052) (demo_fs demo_ninth) = Some (0, s1)"
      "rd_lseek (of_nat 3) 2048 0 s1 = Some (0, s2)" "rd_read (of_nat 3) 0x93000 (of_nat 4) s2 = Some (0, s3)"
      "\<forall>i < 4. mem s3 (0x93000 + of_nat i) = mem s2 (0x92000 + of_nat i)"
    using ninth_block_misread [OF demo_ninth_opened(1), of 2052 "0x92000" "0x93000"] demo_ninth_opened(2,3) demo_ninth_cells demo_ninth_room
    by (auto simp: Let_def)
  from r(4) [rule_format, of 0] have "mem s3 0x93000 = mem s2 0x92000" by simp
  with r(1-3) show ?thesis by auto
qed

text \<open>The file \<open>ABC\<close>: writing five bytes over it leaves two zero bytes in front of its \<open>C\<close>.\<close>

definition demo_abc :: mem where
  "demo_abc = st32 (st32 (st32 demo_open 0x104144 3) 0x104150 0x164100) 0x164100 0x434241"

theorem rd_write_over_zeros_witness:
  "\<exists>m'. rd_write 3 0x92000 5 (demo_fs demo_abc) = Some (0, demo_fs m') \<and> m' 0x164100 = 0 \<and> m' 0x164101 = 0 \<and> m' 0x164102 = 0x43"
proof -
  have w: "ld32 demo_abc a = ld32 demo_open a" if "a \<in> {0x80034, 0x91008, 0x91010, 0x104140}" for a
    using that by (auto simp: demo_abc_def ld32_st32_apart apart_def)
  have o: "opened (demo_fs demo_abc) 0x100000 3 0x91000 5" "seek_head (mem (demo_fs demo_abc)) 0x91000 = 0"
    using demo_opened w demo_open_words by (auto simp: opened_def seek_head_def inode_pos_def demo_fs_def disk_at_def)
  have f: "file_size (mem (demo_fs demo_abc)) 0x100000 5 = of_nat 3" "direct_blk (mem (demo_fs demo_abc)) 0x100000 5 0 = blk 0x100000 1"
    by (simp_all add: file_size_def direct_blk_def inode_pos_def blk_pos_def demo_fs_def demo_abc_def ld32_st32_apart apart_def)
  obtain m' where r: "rd_write (of_nat 3) 0x92000 (of_nat 5) (demo_fs demo_abc) = Some (0, demo_fs demo_abc\<lparr>mem := m'\<rparr>)"
    "\<forall>i < 5 - 3. m' (blk 0x100000 1 + of_nat i) = 0"
    "eq_out (zone (blk_pos 0x100000 1) (5 - 3) \<union> zone (inode_pos 0x100000 5 + 4) 4 \<union> region (0x91000 + of_nat 8) 4) (mem (demo_fs demo_abc)) m'"
    using rd_write_over_zeros [OF o f(1), of 5 1 "0x92000"] f(2) by auto
  have "m' 0x164102 = mem (demo_fs demo_abc) 0x164102"
    by (rule eq_outD [OF r(3)]) (simp add: zone_def region_def inode_pos_def blk_pos_def)
  then have "m' 0x164102 = 0x43" by (simp add: demo_fs_def demo_abc_def st32_def)
  moreover have "m' 0x164100 = 0" "m' 0x164101 = 0" using r(2) [rule_format, of 0] r(2) [rule_format, of 1] by (simp_all add: blk_pos_def)
  moreover have "demo_fs demo_abc\<lparr>mem := m'\<rparr> = demo_fs m'" by (simp add: demo_fs_def)
  ultimately show ?thesis using r(1) by auto
qed

end
