(* ===== verification/Ramdisk_Paths.thy ===== *)
theory Ramdisk_Paths
  imports Ramdisk_Files
begin

text \<open>
  Names in the root directory. \<open>root_dir m b ds\<close> relates the directory block to the list \<open>ds\<close> of its sixteen
  slots, each empty (sixteen zero bytes) or a name with an inode number. Creating a file fills the first empty slot;
  looking a name up stops at the first slot that is empty or whose name is a prefix of it.
\<close>

section \<open>The directory as a list of slots\<close>

definition ent_pos :: "nat \<Rightarrow> nat \<Rightarrow> nat" where
  "ent_pos b j = b + 0x64000 + 16 * j"

abbreviation ent :: "nat \<Rightarrow> nat \<Rightarrow> addr" where
  "ent b j \<equiv> of_nat (ent_pos b j)"

definition dirent_at :: "mem \<Rightarrow> nat \<Rightarrow> nat \<Rightarrow> u8 list \<times> nat \<Rightarrow> bool" where
  "dirent_at m b j e \<longleftrightarrow> cstr m (ent b j) (fst e) \<and> fst e \<noteq> [] \<and> length (fst e) \<le> 13 \<and>
     ld16 m (ent b j + 14) = of_nat (snd e) \<and> snd e < 2048"

type_synonym slot = "(u8 list \<times> nat) option"

definition slot_at :: "mem \<Rightarrow> nat \<Rightarrow> nat \<Rightarrow> slot \<Rightarrow> bool" where
  "slot_at m b j e \<longleftrightarrow> (case e of None \<Rightarrow> \<forall>i < 16. m (ent b j + of_nat i) = 0 | Some x \<Rightarrow> dirent_at m b j x)"

definition root_dir :: "mem \<Rightarrow> nat \<Rightarrow> slot list \<Rightarrow> bool" where
  "root_dir m b ds \<longleftrightarrow> length ds = 16 \<and> ld32 m (inode b 0 + of_nat 0) = INODE_DIR \<and>
     ld32 m (inode b 0 + of_nat 12) = of_nat (b + 0x64000) \<and> (\<forall>j < 16. slot_at m b j (ds ! j))"

definition free_slot :: "slot list \<Rightarrow> nat" where
  "free_slot ds = length (takeWhile (\<lambda>e. e \<noteq> None) ds)"

lemma free_slot_less: "None \<in> set ds \<longleftrightarrow> free_slot ds < length ds"
  by (induction ds) (auto simp: free_slot_def simp del: not_None_eq)

lemma free_slot_nth: "free_slot ds < length ds \<Longrightarrow> ds ! free_slot ds = None"
  by (induction ds) (auto simp: free_slot_def simp del: not_None_eq split: if_splits)

lemma before_free_slot: "j < free_slot ds \<Longrightarrow> \<exists>e. ds ! j = Some e"
proof (induction ds arbitrary: j)
  case (Cons e ds)
  then show ?case by (cases j; cases e) (auto simp: free_slot_def)
qed (simp add: free_slot_def)

definition path_ok :: "'a fs_scheme \<Rightarrow> nat \<Rightarrow> addr \<Rightarrow> u8 list \<Rightarrow> bool" where
  "path_ok s b p name \<longleftrightarrow> cstr (mem s) p (delim # name) \<and> off_disk b p (length name + 2) \<and>
     name \<noteq> [] \<and> delim \<notin> set name \<and> length name \<le> 13 \<and> cstr (mem s) (lit_delim s) [delim] \<and>
     off_disk b (lit_delim s) 2 \<and> away (lit_delim s) 2 p (length name + 2)"

lemma unat_ent:
  assumes "b + 0x200000 \<le> two32" and "j < 16" and "i \<le> 16"
  shows "unat (ent b j) = ent_pos b j" "unat (ent b j + of_nat i) = ent_pos b j + i"
proof -
  show u: "unat (ent b j) = ent_pos b j"
    using assms by (simp add: ent_pos_def del: of_nat_add of_nat_mult)
  then show "unat (ent b j + of_nat i) = ent_pos b j + i"
    using assms unat_plus_of_nat [of "ent b j" i] by (simp add: ent_pos_def)
qed

lemma inode_nonnull: "b + 0x200000 \<le> two32 \<Longrightarrow> k < 2048 \<Longrightarrow> inode b k \<noteq> 0"
  using unat_inode(1) [of b k 0] by (auto simp: inode_pos_def simp del: of_nat_add of_nat_mult)

lemma ent_byte: "ent b j + of_nat i = of_nat (b + 0x64000 + (16 * j + i))"
  by (simp add: ent_pos_def algebra_simps)

lemma empty_entry:
  assumes "root_dir m b ds" and "ds ! j = None" and "j < 16" and "i < 16"
  shows "m (ent b j + of_nat i) = 0"
proof -
  have "slot_at m b j (ds ! j)" using assms(1,3) by (simp add: root_dir_def)
  then show ?thesis using assms by (simp add: slot_at_def)
qed

lemma used_entry:
  assumes "root_dir m b ds" and "ds ! j = Some e" and "j < 16"
  shows "dirent_at m b j e" "m (ent b j) \<noteq> 0"
proof -
  have "slot_at m b j (ds ! j)" using assms(1,3) by (simp add: root_dir_def)
  then show d: "dirent_at m b j e" using assms by (simp add: slot_at_def)
  then show "m (ent b j) \<noteq> 0" by (cases "fst e") (auto simp: dirent_at_def)
qed

lemma ld16_zero: "m a = 0 \<Longrightarrow> m (a + 1) = 0 \<Longrightarrow> ld16 m a = 0"
  by (simp add: ld16_def)

section \<open>The searches\<close>

lemma last_delim_last:
  assumes "cstr m p (xs @ delim # c)" and "delim \<notin> set c" and "j \<le> length c"
  shows "last_delim m p (of_nat (length xs + 1 + j)) = Some (of_nat (length xs + 1))"
  using assms(3)
proof (induction j)
  case 0
  then show ?case using cstr_nth [OF assms(1), of "length xs"] cstr_nonnull [OF assms(1)]
    by (subst last_delim.simps) simp
next
  case (Suc j)
  have "m (p + of_nat (length xs + 1 + j)) = c ! j"
    using cstr_nth [OF assms(1), of "length xs + 1 + j"] Suc.prems by (simp add: nth_append)
  moreover have "c ! j \<noteq> delim" using assms(2) Suc.prems by (metis Suc_le_lessD nth_mem)
  moreover have "last_delim m p (of_nat (length xs + 1 + j)) = Some (of_nat (length xs + 1))" using Suc by simp
  moreover have "(of_nat (length xs + 1 + Suc j) :: u32) - 1 = of_nat (length xs + 1 + j)" by simp
  ultimately show ?case using cstr_nonnull [OF assms(1)]
    unfolding last_delim.simps [of m p "of_nat (length xs + 1 + Suc j)"] by (simp del: of_nat_add of_nat_Suc)
qed

lemma back_to_delim_name:
  assumes "cstr m p (delim # name)" and "delim \<notin> set name" and "unat p + length name + 2 \<le> two32"
    and "j \<le> length name + 1"
  shows "back_to_delim m (p + of_nat j) = Some (p + 1)"
  using assms(4)
proof (induction j)
  case 0
  then show ?case using assms(1) by (subst back_to_delim.simps) simp
next
  case (Suc j)
  have "m (p + of_nat (Suc j)) \<noteq> delim"
  proof (cases "j < length name")
    case True
    then have "name ! j \<noteq> delim" using assms(2) by (metis nth_mem)
    with True show ?thesis using cstr_nth [OF assms(1), of "Suc j"] by simp
  next
    case False
    then have "Suc j = length (delim # name)" using Suc.prems by simp
    then show ?thesis using cstr_end [OF assms(1)] by (simp del: of_nat_Suc)
  qed
  moreover have "unat (p + of_nat (Suc j)) = unat p + Suc j" using assms(3) Suc.prems by (simp del: of_nat_Suc)
  then have "p + of_nat (Suc j) \<noteq> 0" by (auto simp del: of_nat_Suc)
  moreover have bk: "p + of_nat (Suc j) - 1 = p + of_nat j" by simp
  ultimately show ?case using Suc unfolding back_to_delim.simps [of m "p + of_nat (Suc j)"] bk
    by (simp del: of_nat_Suc)
qed

lemma free_entry_first:
  assumes r: "root_dir m b ds" and b: "0 < b" "b + 0x200000 \<le> two32" and "i \<le> free_slot ds"
  shows "free_entry m (of_nat (b + 0x64000)) i (16 - i) = Some (if None \<in> set ds then ent b (free_slot ds) else 0)"
  using assms(4)
proof (induction "free_slot ds - i" arbitrary: i)
  case 0
  then have i: "i = free_slot ds" by simp
  have len: "length ds = 16" using r by (simp add: root_dir_def)
  show ?case
  proof (cases "None \<in> set ds")
    case False
    then have "i = 16" using free_slot_less [of ds] i len length_takeWhile_le [of "\<lambda>e. e \<noteq> None" ds] by (simp add: free_slot_def)
    then show ?thesis using False by simp
  next
    case True
    then have l: "i < 16" "ds ! i = None" using free_slot_less free_slot_nth len i by auto
    then obtain n where n: "16 - i = Suc n" by (metis Suc_diff_Suc)
    have "m (ent b i + of_nat 0) = 0" using empty_entry [OF r l(2,1), of 0] by simp
    then show ?thesis using b i n True by (simp add: entry_addr_def ent_pos_def del: of_nat_add of_nat_mult) simp
  qed
next
  case (Suc k)
  have len: "length ds = 16" "free_slot ds \<le> 16" using r length_takeWhile_le [of "\<lambda>e. e \<noteq> None" ds] by (auto simp: root_dir_def free_slot_def)
  have n: "16 - i = Suc (16 - Suc i)" "i < free_slot ds" "i < 16" using Suc.hyps(2) len by simp_all
  obtain e where "ds ! i = Some e" using before_free_slot n(2) by blast
  then have "m (ent b i) \<noteq> 0" using used_entry(2) [OF r _ n(3)] by blast
  moreover have "free_entry m (of_nat (b + 0x64000)) (Suc i) (16 - Suc i) = Some (if None \<in> set ds then ent b (free_slot ds) else 0)"
    using Suc by (intro Suc.hyps(1)) auto
  ultimately show ?case using b n(1) by (simp add: ent_pos_def del: of_nat_add of_nat_mult) simp
qed

lemma free_inode_first:
  assumes b: "0 < b" "b + 0x200000 \<le> two32" and k: "k < 2048" "ld32 m (inode b k) = 0"
    and used: "\<forall>j < k. ld32 m (inode b j) \<noteq> 0" and "i \<le> k"
  shows "free_inode m (inode b i) i (2048 - i) = Some k"
  using assms(6)
proof (induction "k - i" arbitrary: i)
  case 0
  then have i: "i = k" by simp
  moreover have "inode b i \<noteq> 0" using inode_nonnull b k i by simp
  moreover have "2048 - i = Suc (2047 - i)" using i k by simp
  ultimately show ?case using k by simp
next
  case (Suc x)
  then have i: "i < k" by simp
  moreover have "inode b i \<noteq> 0" using inode_nonnull b k i by simp
  moreover have "2048 - i = Suc (2048 - Suc i)" using i k by simp
  moreover have "inode b i + 64 = inode b (Suc i)" by (simp add: inode_pos_def)
  moreover have "free_inode m (inode b (Suc i)) (Suc i) (2048 - Suc i) = Some k"
    using Suc i by (intro Suc.hyps(1)) auto
  ultimately show ?case using used by simp
qed

lemma parent_root:
  assumes d: "disk_at s b" and p: "path_ok s b p name"
  shows "get_parent_dir_inode p (root_blk s) s = Some (inode_array s, s)"
proof -
  let ?m = "mem s" and ?d = "lit_delim s"
  have c: "cstr ?m p (delim # name)" "name \<noteq> []" "delim \<notin> set name" "cstr ?m ?d [delim]"
    "unat p + length name + 2 \<le> two32" "away ?d 2 p (length name + 2)" "unat ?d + 2 \<le> two32"
    using p by (auto simp: path_ok_def off_disk_def)
  have nz: "p \<noteq> 0" "p + 1 \<noteq> 0" "?d \<noteq> 0" using c(1,2,4) cstr_nonnull [of ?m "p + 1" name] by auto
  have len: "strlen ?m p = Some (of_nat (Suc (length name)))" using strlen_eq [OF c(1)] by simp
  have last: "?m (p + of_nat (length name)) \<noteq> delim"
    using cstr_nth [OF c(1), of "length name"] c(2,3) by (cases name rule: rev_cases) (auto simp: nth_Cons')
  have ld: "last_delim ?m p (of_nat (Suc (length name))) = Some 1"
    using last_delim_last [of ?m p "[]" name "length name"] c(1,3) by simp
  let ?m1 = "?m(p + 1 := 0)"
  have "?d \<noteq> p + 1" "?d + 1 \<noteq> p + 1"
  proof -
    have "unat (p + 1) = unat p + 1" "unat (?d + 1) = unat ?d + 1" using c(5,7) by simp_all
    then have "unat ?d \<noteq> unat (p + 1)" "unat (?d + 1) \<noteq> unat (p + 1)" using c(6) by (auto simp: away_def)
    then show "?d \<noteq> p + 1" "?d + 1 \<noteq> p + 1" by metis+
  qed
  then have "cstr ?m1 p [delim]" "cstr ?m1 ?d [delim]" using c(1,4) nz by auto
  from strcmp_eq [OF this] have g: "get_file_inode p (root_blk s) (s\<lparr>mem := ?m1\<rparr>) = Some (inode_array s)"
    using nz by (simp add: get_file_inode_def enter_path_def)
  have "(of_nat (Suc (length name)) :: u32) - 1 = of_nat (length name)" by simp
  with len last ld g nz c(1) show ?thesis
    by (simp add: get_parent_dir_inode_def del: of_nat_Suc)
qed


text \<open>
  What a lookup of a name returns: the search stops at the first slot that is empty or holds a prefix of the name. An
  empty slot has the number of the root directory, and the lookup fails there.
\<close>

definition stops :: "u8 list \<Rightarrow> slot \<Rightarrow> bool" where
  "stops name e \<longleftrightarrow> (case e of None \<Rightarrow> True | Some x \<Rightarrow> prefix (fst x) name)"

lemma stops_simps [simp]: "stops name None" "stops name (Some x) \<longleftrightarrow> prefix (fst x) name"
  by (simp_all add: stops_def)

definition lookup_dir :: "mem \<Rightarrow> nat \<Rightarrow> slot list \<Rightarrow> u8 list \<Rightarrow> addr" where
  "lookup_dir m b ds name = (case find (stops name) ds of
     Some (Some x) \<Rightarrow> if ld32 m (inode b (snd x)) = INODE_DIR then 0 else inode b (snd x) | _ \<Rightarrow> 0)"

lemma strtok_none:
  assumes "cstr m q name" and "cstr m d [delim]" and "delim \<notin> set name"
  shows "strtok m q d = Some 0"
  using strtok_eq [OF assms(1,2)] assms(3) by simp

lemma ucast_small: "k < 2048 \<Longrightarrow> ucast (of_nat k :: u16) = (of_nat k :: u32)"
  by (simp add: unsigned_of_nat take_bit_nat_eq_self)

lemma inode_index: "of_nat (b + 0x4000) + of_nat k * 64 = inode b k"
  by (simp add: inode_pos_def algebra_simps)

lemma ent_index:
  assumes "0 < b \<and> b + 0x200000 \<le> two32"
  shows "entry_addr (of_nat (b + 0x64000)) i = ent b i"
    "(of_nat (b + 0x64000) :: addr) + (of_nat (16 * i) + 14) = ent b i + 14"
    "of_nat (b + 0x64000) \<noteq> (0 :: addr)"
proof -
  have "unat (of_nat (b + 0x64000) :: addr) = b + 0x64000" using assms by (simp del: of_nat_add)
  then show "of_nat (b + 0x64000) \<noteq> (0 :: addr)" by auto
qed (simp_all add: entry_addr_def ent_pos_def)

lemma search_dir_from:
  assumes d: "disk_at s b" and r: "root_dir (mem s) b ds"
    and q: "cstr (mem s) q name" "delim \<notin> set name" "cstr (mem s) (lit_delim s) [delim]" and "i \<le> 16"
  shows "search_dir q (of_nat (b + 0x64000)) i s = Some (lookup_dir (mem s) b (drop i ds) name)"
  using assms(6)
proof (induction "16 - i" arbitrary: i)
  case 0
  then show ?case using r by (subst search_dir.simps) (simp add: UFS_MAX_FILE_IN_DIR_def lookup_dir_def root_dir_def)
next
  case (Suc x)
  then have i: "i < 16" "i < length ds" using r by (simp_all add: root_dir_def)
  note fit = disk_fit [OF d]
  note pos = ent_index(1) [OF fit, of i] ent_index(3) [OF fit]
  have l: "drop i ds = ds ! i # drop (Suc i) ds" using i by (simp add: Cons_nth_drop_Suc)
  have ia: "inode_array s = inode b 0" using d by (simp add: disk_at_def inode_pos_def)
  show ?case
  proof (cases "ds ! i")
    case None
    have z: "mem s (ent b i + of_nat x) = 0" if "x < 16" for x using empty_entry [OF r None i(1) that] .
    have "cstr (mem s) (ent b i) []" using z [of 0] unat_ent(1) [of b i 0] fit i by (auto simp: ent_pos_def)
    then have hit: "str_is_prefix (mem s) q (ent b i) = Some True" by (simp only: str_is_prefix_eq [OF q(1)] Nil_prefix)
    have num: "ld16 (mem s) (ent b i + 14) = 0" using z [of 14] z [of 15] by (intro ld16_zero) (auto simp: add.assoc)
    have "inode b 0 \<noteq> 0" using inode_nonnull [of b 0] fit by simp
    moreover have "ld32 (mem s) (inode b 0) = INODE_DIR" using r by (simp add: root_dir_def)
    ultimately show ?thesis using i hit strtok_none [OF q(1,3,2)] pos num [folded ent_index(2) [OF fit]] ia None unfolding l
      by (subst search_dir.simps) (simp add: UFS_MAX_FILE_IN_DIR_def lookup_dir_def enter_path_def del: of_nat_add of_nat_mult)
  next
    case (Some e)
    have e: "cstr (mem s) (ent b i) (fst e)" "ld16 (mem s) (ent b i + 14) = of_nat (snd e)" "snd e < 2048"
      using used_entry(1) [OF r Some i(1)] by (auto simp: dirent_at_def)
    have hit: "str_is_prefix (mem s) q (ent b i) = Some (prefix (fst e) name)" by (rule str_is_prefix_eq [OF q(1) e(1)])
    have ih: "search_dir q (of_nat (b + 0x64000)) (Suc i) s = Some (lookup_dir (mem s) b (drop (Suc i) ds) name)"
      using Suc i by (intro Suc.hyps(1)) auto
    have nz: "inode b (snd e) \<noteq> 0" using inode_nonnull fit e(3) by blast
    have ino: "inode_array s + ucast (ld16 (mem s) (of_nat (b + 0x64000) + (of_nat (16 * i) + 14))) * 64 = inode b (snd e)"
      unfolding ent_index(2) [OF fit]
      using d e(2,3) inode_index [of b "snd e"] by (simp add: disk_at_def ucast_small)
    show ?thesis using i hit ih nz ino pos strtok_none [OF q(1,3,2)] Some unfolding l
      by (subst search_dir.simps)
        (simp add: UFS_MAX_FILE_IN_DIR_def lookup_dir_def enter_path_def del: of_nat_add of_nat_mult)
  qed
qed

lemma get_file_inode_name:
  assumes "disk_at s b" and "root_dir (mem s) b ds" and "path_ok s b p name"
  shows "get_file_inode p (root_blk s) s = Some (lookup_dir (mem s) b ds name)"
proof -
  have c: "cstr (mem s) p (delim # name)" "name \<noteq> []" "delim \<notin> set name" "cstr (mem s) (lit_delim s) [delim]"
    using assms(3) by (auto simp: path_ok_def)
  have "strcmp (mem s) p (lit_delim s) = Some False" using strcmp_eq [OF c(1,4)] c(2) by simp
  moreover have "cstr (mem s) (p + 1) name" using c(1) by simp
  ultimately show ?thesis using search_dir_from [OF assms(1,2) _ c(3,4), of "p + 1" 0] c(1) assms(1)
    by (simp add: get_file_inode_def enter_path_def disk_at_def)
qed


section \<open>Creating a file\<close>

lemma cstrI:
  assumes "\<And>i. i < length xs \<Longrightarrow> m (p + of_nat i) = xs ! i \<and> xs ! i \<noteq> 0" and "m (p + of_nat (length xs)) = 0"
    and "p \<noteq> 0" and "unat p + length xs < two32"
  shows "cstr m p xs"
  using assms
proof (induction xs arbitrary: p)
  case (Cons c cs)
  have "cstr m (p + 1) cs"
  proof (rule Cons.IH)
    show "m (p + 1 + of_nat i) = cs ! i \<and> cs ! i \<noteq> 0" if "i < length cs" for i
      using Cons.prems(1) [of "Suc i"] that by (simp add: add.assoc)
    show "m (p + 1 + of_nat (length cs)) = 0" using Cons.prems(2) by (simp add: add.assoc)
    show "p + 1 \<noteq> 0" "unat (p + 1) + length cs < two32" using next_nonnull [of p "Suc (length cs)"] Cons.prems(4) by auto
  qed
  then show ?case using Cons.prems(1) [of 0] Cons.prems(3) by simp
qed simp

lemma path_ok_frame:
  assumes "path_ok s b p name" and "eq_out A (mem s) m'" and "A \<subseteq> disk b"
  shows "path_ok (s\<lparr>mem := m'\<rparr>) b p name"
proof -
  have c: "cstr (mem s) p (delim # name)" "off_disk b p (length name + 2)"
    "cstr (mem s) (lit_delim s) [delim]" "off_disk b (lit_delim s) 2" using assms(1) by (auto simp: path_ok_def)
  have "cstr m' p (delim # name)"
    by (rule cstr_cong [OF c(1)], rule off_disk_byte [OF assms(2,3) c(2)]) simp
  moreover have "cstr m' (lit_delim s) [delim]"
    by (rule cstr_cong [OF c(3)], rule off_disk_byte [OF assms(2,3) c(4)]) simp
  ultimately show ?thesis using assms(1) by (simp add: path_ok_def)
qed

lemma dirent_frame:
  assumes "dirent_at m b j e" and "eq_out A m m'" and "zone (ent_pos b j) 16 \<inter> A = {}"
    and "b + 0x200000 \<le> two32" and "j < 16"
  shows "dirent_at m' b j e"
proof -
  have same: "m' (ent b j + of_nat i) = m (ent b j + of_nat i)" if "i < 16" for i
  proof (rule eq_outD [OF assms(2)])
    have "ent b j + of_nat i \<in> zone (ent_pos b j) 16" using unat_ent(2) [OF assms(4,5), of i] that by (simp add: zone_def)
    with assms(3) show "ent b j + of_nat i \<notin> A" by blast
  qed
  have c: "cstr m (ent b j) (fst e)" "length (fst e) \<le> 13" using assms(1) by (auto simp: dirent_at_def)
  have "cstr m' (ent b j) (fst e)" by (rule cstr_cong [OF c(1)], rule same) (use c(2) in simp)
  moreover have "ld16 m' (ent b j + 14) = ld16 m (ent b j + 14)"
    using same [of 14] same [of 15] by (simp add: ld16_def add.assoc)
  ultimately show ?thesis using assms(1) by (simp add: dirent_at_def)
qed

lemma set_dirent_writes:
  assumes d: "disk_at s b" and p: "path_ok s b p name" and e: "e < 16" and k: "k < 2048"
    and z: "\<And>i. i < 16 \<Longrightarrow> mem s (ent b e + of_nat i) = 0"
  shows "\<exists>m'. set_dirent (ent b e) p k s = Some (s\<lparr>mem := m'\<rparr>) \<and> dirent_at m' b e (name, k) \<and>
     eq_out (zone (ent_pos b e) 16) (mem s) m'"
proof -
  have c: "cstr (mem s) p (delim # name)" "delim \<notin> set name" "unat p + length name + 2 \<le> two32"
    "name \<noteq> []" "length name \<le> 13" "off_disk b p (length name + 2)"
    using p by (auto simp: path_ok_def off_disk_def)
  have c1: "cstr (mem s) (p + 1) name" using c(1) by simp
  have fit: "b + 0x200000 \<le> two32" "0 < b" using disk_fit [OF d] by auto
  note u = unat_ent [OF fit(1) e]
  have nz: "ent b e \<noteq> 0" "p + 1 \<noteq> 0" "unat (p + 1) = unat p + 1"
    using u [of 0] fit cstr_nonnull [OF c1] c(3) by (auto simp: ent_pos_def)
  have name: "file_name (mem s) p = Some (p + 1)"
    using strlen_eq [OF c(1)] back_to_delim_name [OF c(1-3), of "length name + 1"] by (simp add: file_name_def)
  have n: "unat (of_nat (length name) :: u32) = length name" using c(5) by simp
  let ?m1 = "moved (mem s) (ent b e) (p + 1) (length name)"
  let ?m2 = "st16 ?m1 (ent b e + 14) (of_nat k)"
  have "memcpy (mem s) (ent b e) (p + 1) (of_nat (length name)) = Some ?m1"
    using memcpy_eq [OF nz(1,2), of "of_nat (length name)"] n u [of 0] fit c(3,5) nz(3) e by (simp add: ent_pos_def)
  then have run: "set_dirent (ent b e) p k s = Some (s\<lparr>mem := ?m2\<rparr>)"
    using name strlen_eq [OF c1] nz by (simp add: set_dirent_def)
  have keep: "?m2 (ent b e + of_nat i) = ?m1 (ent b e + of_nat i)" if "i < 14" for i
  proof (rule st16_apply)
    show "ent b e + of_nat i \<noteq> ent b e + 14" "ent b e + of_nat i \<noteq> ent b e + 14 + 1"
      using u(2) [of i] u(2) [of 14] u(2) [of 15] that by (auto simp: add.assoc word_unat_eq_iff)
  qed
  have fitd: "unat (ent b e) + length name \<le> two32" using u [of 0] fit e c(5) by (simp add: ent_pos_def)
  have str: "cstr ?m2 (ent b e) name"
  proof (rule cstrI)
    show "?m2 (ent b e + of_nat i) = name ! i \<and> name ! i \<noteq> 0" if "i < length name" for i
      using keep [of i] moved_nth [OF fitd that] cstr_nth [OF c1 that] that c(5) by simp
    have "ent b e + of_nat (length name) \<notin> region (ent b e) (length name)"
      using u(2) [of "length name"] u(1) [of 0] c(5) by (simp add: region_def)
    then show "?m2 (ent b e + of_nat (length name)) = 0"
      using keep [of "length name"] z [of "length name"] c(5) by (simp add: moved_def)
    show "ent b e \<noteq> 0" "unat (ent b e) + length name < two32" using nz u [of 0] fit e c(5) by (simp_all add: ent_pos_def)
  qed
  have reg: "region (ent b e) (length name) \<subseteq> zone (ent_pos b e) 16" using u(1) [of 0] c(5) by (auto simp: region_def zone_def)
  have "eq_out (zone (ent_pos b e) 16) (mem s) ?m1" by (rule eq_out_mono [OF moved_frame [OF fitd] reg])
  moreover have "eq_out (zone (ent_pos b e) 16) ?m1 ?m2"
    using u(2) [of 14] u(2) [of 15] by (auto simp: eq_out_def st16_def zone_def add.assoc)
  ultimately have "eq_out (zone (ent_pos b e) 16) (mem s) ?m2" by (rule eq_out_trans)
  with run str c(4,5) k show ?thesis by (intro exI [of _ ?m2]) (simp add: dirent_at_def)
qed

text \<open>Writing one slot, and bytes that belong to neither the root inode nor its block.\<close>

lemma entry_frame:
  assumes "eq_out A m m'" and "zone (ent_pos b j) 16 \<inter> A = {}" and "b + 0x200000 \<le> two32" and "j < 16" and "i < 16"
  shows "m' (ent b j + of_nat i) = m (ent b j + of_nat i)"
proof (rule eq_outD [OF assms(1)])
  have "ent b j + of_nat i \<in> zone (ent_pos b j) 16" using unat_ent(2) [OF assms(3,4), of i] assms(5) by (simp add: zone_def)
  with assms(2) show "ent b j + of_nat i \<notin> A" by blast
qed

lemma slot_frame:
  assumes "slot_at m b j e" and "eq_out A m m'" and "zone (ent_pos b j) 16 \<inter> A = {}"
    and "b + 0x200000 \<le> two32" and "j < 16"
  shows "slot_at m' b j e"
  using assms(1) dirent_frame [OF _ assms(2-5)] entry_frame [OF assms(2-5)] by (auto simp: slot_at_def split: option.splits)

lemma root_dir_update:
  assumes r: "root_dir m b ds" and eq: "eq_out (A \<union> zone (ent_pos b f) 16) m m'"
    and A: "A \<inter> zone (b + 0x64000) 256 = {}" "A \<inter> zone (inode_pos b 0) 64 = {}"
    and fit: "b + 0x200000 \<le> two32" and f: "f < 16" "slot_at m' b f e"
  shows "root_dir m' b (ds[f := e])"
proof -
  have "slot_at m' b j (ds[f := e] ! j)" if j: "j < 16" for j
  proof (cases "j = f")
    case False
    have "zone (ent_pos b j) 16 \<subseteq> zone (b + 0x64000) 256" using j by (auto simp: zone_def ent_pos_def)
    moreover have "zone (ent_pos b j) 16 \<inter> zone (ent_pos b f) 16 = {}" using False by (auto simp: zone_def ent_pos_def)
    ultimately have "zone (ent_pos b j) 16 \<inter> (A \<union> zone (ent_pos b f) 16) = {}" using A(1) by blast
    then show ?thesis using slot_frame [OF _ eq _ fit j] r False j by (simp add: root_dir_def)
  qed (use r f in \<open>simp add: root_dir_def\<close>)
  moreover have "ld32 m' (inode b 0 + of_nat i) = ld32 m (inode b 0 + of_nat i)" if "i \<le> 60" for i
  proof (rule inode_word [OF eq fit _ that])
    have "zone (inode_pos b 0 + i) 4 \<subseteq> zone (inode_pos b 0) 64" using that by (auto simp: zone_def)
    moreover have "zone (inode_pos b 0 + i) 4 \<inter> zone (ent_pos b f) 16 = {}" using that f by (auto simp: zone_def inode_pos_def ent_pos_def)
    ultimately show "zone (inode_pos b 0 + i) 4 \<inter> (A \<union> zone (ent_pos b f) 16) = {}" using A(2) by blast
  qed simp
  from this [of 0] this [of 12] have "ld32 m' (inode b 0 + of_nat 0) = INODE_DIR" "ld32 m' (inode b 0 + of_nat 12) = of_nat (b + 0x64000)"
    using r by (simp_all add: root_dir_def)
  ultimately show ?thesis using r by (simp add: root_dir_def)
qed

lemma root_dir_frame:
  assumes r: "root_dir m b ds" and eq: "eq_out A m m'" and A: "A \<inter> zone (b + 0x64000) 256 = {}" "A \<inter> zone (inode_pos b 0) 64 = {}"
    and fit: "b + 0x200000 \<le> two32"
  shows "root_dir m' b ds"
proof -
  have "zone (ent_pos b 0) 16 \<subseteq> zone (b + 0x64000) 256" by (auto simp: zone_def ent_pos_def)
  then have "slot_at m' b 0 (ds ! 0)" using r A(1) by (intro slot_frame [OF _ eq _ fit]) (auto simp: root_dir_def)
  then have "root_dir m' b (ds[0 := ds ! 0])" by (intro root_dir_update [OF r eq_out_mono [OF eq] A fit]) auto
  then show ?thesis by simp
qed

text \<open>The first two words of an inode, as the creation of an entry writes them.\<close>

definition new_inode :: "mem \<Rightarrow> nat \<Rightarrow> nat \<Rightarrow> u32 \<Rightarrow> mem" where
  "new_inode m b k ty = st32 (st32 m (inode b k + of_nat 0) ty) (inode b k + of_nat 4) 0"

lemma new_inode_fields:
  assumes "b + 0x200000 \<le> two32" and "k < 2048"
  shows "ld32 (new_inode m b k ty) (inode b k + of_nat 0) = ty" "ld32 (new_inode m b k ty) (inode b k + of_nat 4) = 0"
    "eq_out (zone (inode_pos b k) 8) m (new_inode m b k ty)"
proof -
  note u = unat_inode [OF assms]
  have "apart (inode b k + of_nat 4) 4 (inode b k + of_nat 0) 4"
    using u [of 0] u [of 4] assms by (simp add: apart_def inode_pos_def)
  then show "ld32 (new_inode m b k ty) (inode b k + of_nat 0) = ty" unfolding new_inode_def by (subst ld32_st32_apart) simp_all
  show "ld32 (new_inode m b k ty) (inode b k + of_nat 4) = 0" by (simp add: new_inode_def)
  have "eq_out (zone (inode_pos b k) 8) m (st32 m (inode b k + of_nat 0) ty)"
    by (rule eq_out_st32) (use u [of 0] assms in \<open>auto simp: inode_pos_def zone_def\<close>)
  moreover have "eq_out (zone (inode_pos b k) 8) m' (st32 m' (inode b k + of_nat 4) 0)" for m'
    by (rule eq_out_st32) (use u [of 4] assms in \<open>auto simp: inode_pos_def zone_def\<close>)
  ultimately show "eq_out (zone (inode_pos b k) 8) m (new_inode m b k ty)" unfolding new_inode_def using eq_out_trans by blast
qed

lemma new_entry_fills:
  assumes d: "disk_at s b" and r: "root_dir (mem s) b ds" and l: "None \<in> set ds" and p: "path_ok s b p name"
    and k: "k < 2048" "ld32 (mem s) (inode b k) = INODE_EMPTY" "\<forall>j < k. ld32 (mem s) (inode b j) \<noteq> INODE_EMPTY"
    and fin: "finish (inode b k) (s\<lparr>mem := new_inode (mem s) b k ty\<rparr>) = Some (s\<lparr>mem := m5\<rparr>)"
      "eq_out F (new_inode (mem s) b k ty) m5" "F \<subseteq> disk b" "F \<inter> zone (b + 0x64000) 256 = {}" "F \<inter> zone (inode_pos b 0) 64 = {}"
  shows "\<exists>m'. new_entry ty finish p s = Some (0, s\<lparr>mem := m'\<rparr>) \<and> root_dir m' b (ds[free_slot ds := Some (name, k)]) \<and>
     path_ok (s\<lparr>mem := m'\<rparr>) b p name \<and> eq_out (zone (ent_pos b (free_slot ds)) 16) m5 m' \<and>
     eq_out (zone (inode_pos b k) 8 \<union> F \<union> zone (ent_pos b (free_slot ds)) 16) (mem s) m'"
proof -
  have fit: "b + 0x200000 \<le> two32" "0 < b" using disk_fit [OF d] by auto
  let ?e = "free_slot ds" and ?m4 = "new_inode (mem s) b k ty"
  let ?Z = "zone (inode_pos b k) 8" and ?E = "zone (ent_pos b (free_slot ds)) 16"
  have e: "?e < 16" "ds ! ?e = None" using l r free_slot_less free_slot_nth by (auto simp: root_dir_def)
  have ia: "inode_array s = inode b 0" "root_blk s = of_nat (b + 0x64000)" "fs_head_lock s = 1"
    using d by (simp_all add: disk_at_def inode_pos_def)
  have nz: "inode b j \<noteq> 0" if "j < 2048" for j using inode_nonnull [OF fit(1) that] .
  have ino: "inode b 0 + of_nat (64 * j) = inode b j" for j by (simp add: inode_pos_def)
  have k0: "k \<noteq> 0"
  proof
    assume "k = 0"
    with r k(2) show False by (simp add: root_dir_def)
  qed
  have e4: "eq_out ?Z (mem s) ?m4" by (rule new_inode_fields(3) [OF fit(1) k(1)])
  have e5: "eq_out (?Z \<union> F) (mem s) m5" by (rule eq_out_trans [OF eq_out_mono [OF e4] eq_out_mono [OF fin(2)]]) auto
  have Z: "?Z \<inter> zone (b + 0x64000) 256 = {}" "?Z \<inter> zone (inode_pos b 0) 64 = {}" "?Z \<subseteq> disk b" "?E \<subseteq> disk b"
    "?E \<subseteq> zone (b + 0x64000) 256"
    using k(1) k0 e(1) by (auto simp: zone_def inode_pos_def ent_pos_def)
  have z5: "m5 (ent b ?e + of_nat i) = 0" if "i < 16" for i
  proof -
    have "?E \<inter> (?Z \<union> F) = {}" using Z(1,5) fin(4) by blast
    then show ?thesis using entry_frame [OF e5 _ fit(1) e(1) that] empty_entry [OF r e(2,1) that] by simp
  qed
  have p5: "path_ok (s\<lparr>mem := m5\<rparr>) b p name" using path_ok_frame [OF p e5] Z(3) fin(3) by blast
  obtain m' where sd: "set_dirent (ent b ?e) p k (s\<lparr>mem := m5\<rparr>) = Some (s\<lparr>mem := m'\<rparr>)"
    and de: "dirent_at m' b ?e (name, k)" and e6: "eq_out ?E m5 m'"
    using set_dirent_writes [OF disk_at_mem [OF d] p5 e(1) k(1)] z5 by auto
  have eq: "eq_out (?Z \<union> F \<union> ?E) (mem s) m'"
    by (rule eq_out_trans [OF eq_out_mono [OF e5] eq_out_mono [OF e6]]) auto
  have par: "ld32 (mem s) (inode b 0 + 12) = of_nat (b + 0x64000)" using r by (simp add: root_dir_def)
  have fe: "free_entry (mem s) (of_nat (b + 0x64000)) 0 16 = Some (ent b ?e)"
    using free_entry_first [OF r fit(2,1), of 0] l by simp
  have fi: "free_inode (mem s) (inode b 0) 0 2048 = Some k"
    using free_inode_first [OF fit(2,1) k(1,2), of 0] k(3) by simp
  have "ent b ?e \<noteq> 0" "p \<noteq> 0" using unat_ent(1) [OF fit(1) e(1), of 0] fit p cstr_nonnull by (auto simp: ent_pos_def path_ok_def)
  then have run: "new_entry ty finish p s = Some (0, s\<lparr>mem := m'\<rparr>)"
    using parent_root [OF d p] nz [of 0] nz [OF k(1)] ia par fe fi sd ino k(1) fin(1)
    by (simp add: new_entry_def UFS_MAX_FILE_IN_DIR_def UFS_NUM_MAX_INODES_def lock_free new_inode_def
        unlock_fs_def kthread_mutex_unlock_def del: of_nat_mult of_nat_add)
  have "root_dir m' b (ds[?e := Some (name, k)])"
    by (rule root_dir_update [OF r eq _ _ fit(1) e(1)]) (use Z fin(4,5) de in \<open>auto simp: slot_at_def\<close>)
  moreover have "path_ok (s\<lparr>mem := m'\<rparr>) b p name" using path_ok_frame [OF p eq] Z(3,4) fin(3) by blast
  ultimately show ?thesis using run e6 eq by blast
qed

lemma rd_create_fills:
  assumes d: "disk_at s b" and r: "root_dir (mem s) b ds" and l: "None \<in> set ds" and p: "path_ok s b p name"
    and k: "k < 2048" "ld32 (mem s) (inode b k) = INODE_EMPTY" "\<forall>j < k. ld32 (mem s) (inode b j) \<noteq> INODE_EMPTY"
  shows "\<exists>m'. rd_create p s = Some (0, s\<lparr>mem := m'\<rparr>) \<and> root_dir m' b (ds[free_slot ds := Some (name, k)]) \<and>
     ld32 m' (inode b k) = INODE_REG \<and> file_size m' b k = 0 \<and> path_ok (s\<lparr>mem := m'\<rparr>) b p name \<and>
     eq_out (zone (inode_pos b k) 8 \<union> zone (ent_pos b (free_slot ds)) 16) (mem s) m'"
proof -
  have fit: "b + 0x200000 \<le> two32" using disk_fit [OF d] by simp
  let ?m4 = "new_inode (mem s) b k INODE_REG" and ?E = "zone (ent_pos b (free_slot ds)) 16"
  obtain m' where c: "rd_create p s = Some (0, s\<lparr>mem := m'\<rparr>)" "root_dir m' b (ds[free_slot ds := Some (name, k)])"
    "path_ok (s\<lparr>mem := m'\<rparr>) b p name" "eq_out ?E ?m4 m'" "eq_out (zone (inode_pos b k) 8 \<union> ?E) (mem s) m'"
    using new_entry_fills [OF d r l p k, of "\<lambda>file_inode s. Some s" INODE_REG ?m4 "{}"] by (auto simp: rd_create_def)
  have "free_slot ds < 16" using l r free_slot_less by (auto simp: root_dir_def)
  then have kw: "ld32 m' (inode b k + of_nat i) = ld32 ?m4 (inode b k + of_nat i)" if "i \<le> 60" for i
    by (intro inode_word [OF c(4) fit k(1) that]) (use that k(1) in \<open>auto simp: zone_def inode_pos_def ent_pos_def\<close>)
  have "ld32 m' (inode b k) = INODE_REG" "file_size m' b k = 0"
    using kw [of 0] kw [of 4] new_inode_fields [OF fit k(1)] by (simp_all add: file_size_def)
  with c show ?thesis by blast
qed

lemma new_entry_full:
  assumes d: "disk_at s b" and r: "root_dir (mem s) b ds" and l: "None \<notin> set ds" and p: "path_ok s b p name"
  shows "new_entry ty finish p s = Some (EBOUNDS, s)"
proof -
  have fit: "0 < b \<and> b + 0x200000 \<le> two32" using disk_fit [OF d] .
  have "inode_array s = inode b 0" using d by (simp add: disk_at_def inode_pos_def)
  moreover have "ld32 (mem s) (inode b 0 + 12) = of_nat (b + 0x64000)" using r by (simp add: root_dir_def)
  moreover have "free_entry (mem s) (of_nat (b + 0x64000)) 0 16 = Some 0"
    using free_entry_first [OF r, of 0] l fit by simp
  moreover have "p \<noteq> 0" using p cstr_nonnull by (auto simp: path_ok_def)
  ultimately show ?thesis using parent_root [OF d p] inode_nonnull [of b 0] fit
    by (simp add: new_entry_def UFS_MAX_FILE_IN_DIR_def del: of_nat_add)
qed

lemma lookup_at:
  assumes "j < length ds" and "stops name (ds ! j)" and "\<forall>i < j. \<not> stops name (ds ! i)"
  shows "lookup_dir m b ds name = (case ds ! j of None \<Rightarrow> 0
     | Some x \<Rightarrow> if ld32 m (inode b (snd x)) = INODE_DIR then 0 else inode b (snd x))"
proof -
  have "find (stops name) ds = Some (ds ! j)" using assms by (auto simp: find_Some_iff)
  then show ?thesis by (simp add: lookup_dir_def)
qed

lemma lookup_new:
  assumes "None \<in> set ds" and "\<forall>e. Some e \<in> set (take (free_slot ds) ds) \<longrightarrow> \<not> prefix (fst e) name"
  shows "lookup_dir m b (ds[free_slot ds := Some (name, k)]) name = (if ld32 m (inode b k) = INODE_DIR then 0 else inode b k)"
proof -
  let ?f = "free_slot ds"
  have f: "?f < length ds" using free_slot_less assms(1) by blast
  have "\<not> stops name (ds ! i)" if i: "i < ?f" for i
  proof -
    obtain e where e: "ds ! i = Some e" using before_free_slot i by blast
    moreover have "ds ! i \<in> set (take ?f ds)" using i f by (auto simp: in_set_conv_nth)
    ultimately show ?thesis using assms(2) by (metis stops_simps(2))
  qed
  then show ?thesis using lookup_at [of ?f "ds[?f := Some (name, k)]" name m b] f by simp
qed

section \<open>Properties\<close>

text \<open>
  C10: on the root directory, seen as the list of its sixteen slots, \<open>rd_create\<close> of \<open>/name\<close> (at most 13 characters)
  puts the name with the number of the first empty inode in the first empty slot; that inode becomes an empty regular
  file; the path is left as it was and nothing else of memory changes. This holds also when the directory has the
  name already: it then has two entries with it, and the result is 0 (DiskOS.txt asks for -1). With all sixteen slots in use it
  returns EBOUNDS and changes nothing.
\<close>

theorem rd_create_refines:
  assumes "disk_at s b" and "root_dir (mem s) b ds" and "path_ok s b p name" and "k < 2048"
    and "ld32 (mem s) (inode b k) = INODE_EMPTY" and "\<forall>j < k. ld32 (mem s) (inode b j) \<noteq> INODE_EMPTY"
  shows "if None \<notin> set ds then rd_create p s = Some (EBOUNDS, s)
     else \<exists>m'. rd_create p s = Some (0, s\<lparr>mem := m'\<rparr>) \<and> root_dir m' b (ds[free_slot ds := Some (name, k)]) \<and>
       ld32 m' (inode b k) = INODE_REG \<and> file_size m' b k = 0 \<and> path_ok (s\<lparr>mem := m'\<rparr>) b p name \<and>
       eq_out (zone (inode_pos b k) 8 \<union> zone (ent_pos b (free_slot ds)) 16) (mem s) m'"
  using rd_create_fills [OF assms(1,2) _ assms(3-6)] new_entry_full [OF assms(1,2) _ assms(3)] by (simp add: rd_create_def)

text \<open>A disk with an empty root directory; \<open>/\<close> is at 0x90000 and the path \<open>/ab\<close> at 0x92000.\<close>

definition demo_root :: mem where
  "demo_root = st32 (st32 (st32 (st32 (\<lambda>_. 0) 0x104000 1) 0x10400C 0x164000) 0x90000 0x2F) 0x92000 0x62612F"

lemma demo_root_words: "ld32 demo_root 0x104000 = 1" "ld32 demo_root 0x10400C = 0x164000" "ld32 demo_root 0x104040 = 0"
  by (simp_all add: demo_root_def ld32_st32_apart apart_def)

lemma demo_root_path: "path_ok (demo_fs demo_root) 0x100000 0x92000 [97, 98]"
  by (simp add: path_ok_def off_disk_def away_def demo_root_def st32_def)

lemma demo_root_dir: "root_dir demo_root 0x100000 (replicate 16 None)"
proof -
  have "demo_root (ent 0x100000 j + of_nat i) = 0" if "j < 16" "i < 16" for j i
  proof -
    have u: "unat (ent 0x100000 j + of_nat i) = 0x164000 + 16 * j + i"
      using unat_ent(2) [of "0x100000" j i] that by (simp add: ent_pos_def)
    show ?thesis using u that by (simp add: demo_root_def st32_apart apart_def)
  qed
  then show ?thesis by (simp add: root_dir_def slot_at_def inode_pos_def demo_root_words)
qed

lemma demo_root_inode:
  "ld32 demo_root (inode 0x100000 1) = INODE_EMPTY" "\<forall>j < 1. ld32 demo_root (inode 0x100000 j) \<noteq> INODE_EMPTY"
  by (simp_all add: inode_pos_def demo_root_words)

theorem rd_create_refines_witness:
  "\<exists>m'. rd_create 0x92000 (demo_fs demo_root) = Some (0, demo_fs m') \<and>
     root_dir m' 0x100000 ((replicate 16 None)[0 := Some ([97, 98], 1)])"
  using rd_create_refines [OF demo_fs_disk, of demo_root "replicate 16 None" "0x92000" "[97, 98]" 1]
    demo_root_dir demo_root_path demo_root_inode by (auto simp: free_slot_def)

text \<open>
  A created file is found: if no name in the slots before the first empty one is a prefix of the new name,
  looking the path up after \<open>rd_create\<close> gives the new inode; and whatever path is looked up, the search ends at the
  first slot that is empty (then nothing is found) or has a name that is a prefix of the path (then its inode is
  the result, unless it is a directory).
\<close>

lemma rd_create_lookup:
  assumes "disk_at s b" and "root_dir (mem s) b ds" and "None \<in> set ds" and "path_ok s b p name" and "k < 2048"
    and "ld32 (mem s) (inode b k) = INODE_EMPTY" and "\<forall>j < k. ld32 (mem s) (inode b j) \<noteq> INODE_EMPTY"
    and "\<forall>e. Some e \<in> set (take (free_slot ds) ds) \<longrightarrow> \<not> prefix (fst e) name"
  shows "\<exists>s'. rd_create p s = Some (0, s') \<and> get_file_inode p (root_blk s') s' = Some (inode b k) \<and>
     (\<forall>q qname. path_ok s' b q qname \<longrightarrow>
        get_file_inode q (root_blk s') s' = Some (lookup_dir (mem s') b (ds[free_slot ds := Some (name, k)]) qname))"
proof -
  let ?ds = "ds[free_slot ds := Some (name, k)]"
  obtain m' where c: "rd_create p s = Some (0, s\<lparr>mem := m'\<rparr>)" "root_dir m' b ?ds"
    "ld32 m' (inode b k) = INODE_REG" "path_ok (s\<lparr>mem := m'\<rparr>) b p name"
    using rd_create_fills [OF assms(1-7)] by blast
  have look: "get_file_inode q (root_blk s) (s\<lparr>mem := m'\<rparr>) = Some (lookup_dir m' b ?ds qname)"
    if "path_ok (s\<lparr>mem := m'\<rparr>) b q qname" for q qname
    using get_file_inode_name [of "s\<lparr>mem := m'\<rparr>" b ?ds q qname] disk_at_mem [OF assms(1)] c(2) that
    by simp
  have "lookup_dir m' b ?ds name = inode b k" using lookup_new [OF assms(3,8)] c(3) by simp
  with look [OF c(4)] c(1) look show ?thesis by (intro exI [of _ "s\<lparr>mem := m'\<rparr>"]) auto
qed

end
