(* ===== verification/Ramdisk_State.thy ===== *)
theory Ramdisk_State
  imports Ramdisk_Paths
begin

text \<open>
  The file system's calls in sequence, and its start. \<open>rd_call\<close> lists the operations of
  include/ramdisk.h, \<open>rd_exec\<close> runs one of them and \<open>rd_run\<close> a list. The operations are followed along
  their control flow with one rule per construct (\<open>returns_rules\<close>): whatever branch is taken, only memory
  changes, the lock is released, and a call that reports an error has changed nothing. \<open>init_rdisk\<close> is
  shown to establish what the theorems on files and names start from.
\<close>

section \<open>Operations that change memory only\<close>

definition mem_only :: "'a fs_scheme \<Rightarrow> 'a fs_scheme \<Rightarrow> bool" where
  "mem_only s s' \<longleftrightarrow> (\<exists>m. s' = s\<lparr>mem := m\<rparr>)"

lemma mem_only_refl [simp, intro]: "mem_only s s"
  unfolding mem_only_def by (rule exI [of _ "mem s"]) simp

lemma mem_only_upd [simp, intro]: "mem_only s (s\<lparr>mem := m\<rparr>)"
  unfolding mem_only_def by blast

lemma mem_only_trans [trans]: "mem_only s t \<Longrightarrow> mem_only t u \<Longrightarrow> mem_only s u"
  by (auto simp: mem_only_def)

lemma mem_only_store: "mem_only s t \<Longrightarrow> mem_only s (t\<lparr>mem := m\<rparr>)"
  using mem_only_trans mem_only_upd by blast

lemma mem_only_lock: "mem_only s t \<Longrightarrow> fs_head_lock t = fs_head_lock s"
  by (auto simp: mem_only_def)

text \<open>
  What holds of a result if there is one, with a rule for each construct of the monad: the operations
  are followed along their control flow.
\<close>

definition returns :: "('v \<Rightarrow> bool) \<Rightarrow> 'v option \<Rightarrow> bool" where
  "returns P x \<longleftrightarrow> (\<forall>v. x = Some v \<longrightarrow> P v)"

lemma returns_Some: "P v \<Longrightarrow> returns P (Some v)"
  by (simp add: returns_def)

lemma returns_bind: "(\<And>a. x = Some a \<Longrightarrow> returns P (f a)) \<Longrightarrow> returns P (x \<bind> f)"
  by (auto simp: returns_def bind_Some_iff)

lemma returns_if: "(b \<Longrightarrow> returns P x) \<Longrightarrow> (\<not> b \<Longrightarrow> returns P y) \<Longrightarrow> returns P (if b then x else y)"
  by simp

lemma returns_let: "returns P (f c) \<Longrightarrow> returns P (Let c f)"
  by simp

lemma returns_prod: "(\<And>a b. w = (a, b) \<Longrightarrow> returns P (f a b)) \<Longrightarrow> returns P (case_prod f w)"
  by (cases w) simp

lemmas returns_rules = returns_Some returns_bind returns_if returns_let returns_prod

lemma returnsD: "returns P x \<Longrightarrow> x = Some v \<Longrightarrow> P v"
  by (simp add: returns_def)

text \<open>Between taking and releasing the free lock only memory changes.\<close>

lemma locked_mem_only:
  assumes "lock_fs s = Some s1" and "mem_only s1 s2" and "fs_head_lock s = 1"
  shows "mem_only s (unlock_fs s2)"
  using assms lock_free [OF assms(3)] by (auto simp: mem_only_def unlock_fs_def kthread_mutex_unlock_def)

lemma set_blk_bitmap_mem: "set_blk_bitmap i o' s = Some s' \<Longrightarrow> mem_only s s'"
  by (auto simp: set_blk_bitmap_def bind_Some_iff split: if_splits)

lemma scan_bitmap_mem: "scan_bitmap i n s = Some (b, s') \<Longrightarrow> mem_only s s'"
  by (induction i n s rule: scan_bitmap.induct) (auto simp: bind_Some_iff dest: set_blk_bitmap_mem split: if_splits)

lemma alloc_block_mem: "alloc_block s = Some (b, s') \<Longrightarrow> fs_head_lock s = 1 \<Longrightarrow> mem_only s s'"
  by (auto simp: alloc_block_def bind_Some_iff intro: locked_mem_only scan_bitmap_mem)

lemma dealloc_block_mem: "dealloc_block b s = Some s' \<Longrightarrow> fs_head_lock s = 1 \<Longrightarrow> mem_only s s'"
  by (auto simp: dealloc_block_def bind_Some_iff intro: locked_mem_only set_blk_bitmap_mem)

lemma first_fit_large:
  assumes "first_fit m c n = Some p"
  shows "p \<noteq> 0 \<and> \<not> ld32 m (p + 8) < n"
proof (rule first_fit.raw_induct [where P = "\<lambda>m c n p. p \<noteq> 0 \<and> \<not> ld32 m (p + 8) < n", OF _ assms])
  fix f and m :: mem and c n p
  assume IH: "\<And>m c n p. f m c n = Some p \<Longrightarrow> p \<noteq> 0 \<and> \<not> ld32 m (p + 8) < n"
    and step: "(if c = 0 then rd32 m c h_next \<bind> (\<lambda>nx. f m nx n)
      else rd32 m c h_size \<bind> (\<lambda>sz. rd32 m c h_is_free \<bind> (\<lambda>fr.
        if sz < n \<or> fr = 0 then rd32 m c h_next \<bind> (\<lambda>nx. f m nx n) else Some c))) = Some p"
  show "p \<noteq> 0 \<and> \<not> ld32 m (p + 8) < n"
    using step IH by (cases "c = 0") (auto split: if_splits)
qed

text \<open>The message about a full store is never reached: the search does not end without a block.\<close>

lemma kmalloc_mem: "kmalloc n s = Some (a, s') \<Longrightarrow> mem_only s s'"
  by (auto simp: kmalloc_def bind_Some_iff dest: first_fit_large split: if_splits)

lemma kfree_mem: "kfree p s = Some s' \<Longrightarrow> mem_only s s'"
  by (auto simp: kfree_def bind_Some_iff split: if_splits prod.splits)

section \<open>Names\<close>

lemma parent_same: "get_parent_dir_inode p d s = Some (i, s') \<Longrightarrow> s' = s"
  by (auto simp: get_parent_dir_inode_def bind_Some_iff Let_def rd8_def wr8_def split: if_splits)

lemma set_dirent_mem: "set_dirent e p k s = Some s' \<Longrightarrow> mem_only s s'"
  by (auto simp: set_dirent_def bind_Some_iff)

lemma unlock_lock: "lock_fs s = Some s1 \<Longrightarrow> fs_head_lock s = 1 \<Longrightarrow> unlock_fs s1 = s"
  by (cases s) (auto simp: lock_free unlock_fs_def kthread_mutex_unlock_def)

section \<open>Calls\<close>

datatype rd_call = Create addr | Mkdir addr | Open addr | Close u32 | Lseek u32 u32 u32
  | Read u32 addr u32 | Write u32 addr u32 | Readdir u32 addr | Unlink addr

fun rd_exec :: "rd_call \<Rightarrow> 'a fs_scheme \<Rightarrow> (u32 \<times> 'a fs_scheme) option" where
  "rd_exec (Create path) s = rd_create path s"
| "rd_exec (Mkdir path) s = rd_mkdir path s"
| "rd_exec (Open path) s = rd_open path s"
| "rd_exec (Close fd) s = rd_close fd s"
| "rd_exec (Lseek fd offset whence) s = rd_lseek fd offset whence s"
| "rd_exec (Read fd buf n) s = rd_read fd buf n s"
| "rd_exec (Write fd buf n) s = rd_write fd buf n s"
| "rd_exec (Readdir fd buf) s = rd_readdir fd buf s"
| "rd_exec (Unlink path) s = rd_unlink path s"

text \<open>What a call may return.\<close>

fun rd_results :: "rd_call \<Rightarrow> u32 set" where
  "rd_results (Create _) = {0, EBADPATH, EBOUNDS}"
| "rd_results (Mkdir _) = {0, EBADPATH, EBOUNDS}"
| "rd_results (Open _) = {..<16} \<union> {EMAXF, EBADPATH}"
| "rd_results (Close _) = {0, EBADF}"
| "rd_results (Lseek _ _ _) = {0, EBADF, ENOREG, EBOUNDS, EINVAL}"
| "rd_results (Read _ _ _) = {0, EBADF, EBADBUF, EBOUNDS, ENOREG}"
| "rd_results (Write _ _ _) = {0, EBADF, EBADBUF, EBOUNDS, ENOREG}"
| "rd_results (Readdir _ _) = {0, 1, EBADF, ENODIR}"
| "rd_results (Unlink _) = {0, EBADPATH, EINVAL}"

definition call_ok :: "u32 set \<Rightarrow> 'a fs_scheme \<Rightarrow> u32 \<times> 'a fs_scheme \<Rightarrow> bool" where
  "call_ok R s = (\<lambda>(r, s'). r \<in> R \<and> mem_only s s' \<and> (sint r < 0 \<longrightarrow> s' = s))"

lemma new_entry_ok:
  assumes run: "new_entry ty finish p s = Some v" and lock: "fs_head_lock s = 1"
    and fin: "\<And>i t t'. finish i t = Some t' \<Longrightarrow> fs_head_lock t = 1 \<Longrightarrow> mem_only t t'"
  shows "call_ok {0, EBADPATH, EBOUNDS} s v"
proof -
  have "mem_only s s6" if l: "lock_fs s = Some s2" and f: "finish i (unlock_fs (s2\<lparr>mem := m4\<rparr>)) = Some s5"
    and e: "set_dirent d p k s5 = Some s6" for s2 i m4 s5 d k s6
  proof -
    have u: "mem_only s (unlock_fs (s2\<lparr>mem := m4\<rparr>))" by (rule locked_mem_only [OF l _ lock]) simp
    from mem_only_trans [OF mem_only_trans [OF u fin [OF f]] set_dirent_mem [OF e]] mem_only_lock [OF u] lock
    show ?thesis by simp
  qed
  with run lock show ?thesis
    by (auto simp: new_entry_def call_ok_def bind_Some_iff unlock_lock dest!: parent_same split: if_splits)
qed

lemma rd_create_ok: "fs_head_lock s = 1 \<Longrightarrow> returns (call_ok {0, EBADPATH, EBOUNDS} s) (rd_create p s)"
  unfolding rd_create_def returns_def by (intro allI impI new_entry_ok) auto

lemma rd_mkdir_ok: "fs_head_lock s = 1 \<Longrightarrow> returns (call_ok {0, EBADPATH, EBOUNDS} s) (rd_mkdir p s)"
  unfolding rd_mkdir_def returns_def
  by (intro allI impI, erule new_entry_ok)
    (auto simp: bind_Some_iff intro!: mem_only_store dest: alloc_block_mem)

lemma avail_fd_range: "avail_fd m t i n = Some fd \<Longrightarrow> fd = - 1 \<or> (\<exists>j < i + n. fd = of_nat j)"
proof (induction m t i n rule: avail_fd.induct)
  case (2 m t i n)
  have "\<exists>j < i + Suc n. (of_nat i :: u32) = of_nat j" by (rule exI [of _ i]) simp
  with 2 show ?case by (cases "rd32 m t (t_fd_table + of_nat (4 * i))") (auto split: if_splits)
qed simp

lemma rd_open_ok: "returns (call_ok ({..<16} \<union> {EMAXF, EBADPATH}) s) (rd_open p s)"
  unfolding rd_open_def
proof (intro returns_rules)
  fix fd i w obj s1 m1 m2 n w2 pb s2 m3 m4 m5 m6 q
  assume "avail_fd (mem s) (current_task s) 0 (unat NUM_MAX_FD) = Some fd" "fd \<noteq> - 1"
    and k: "kmalloc 20 s = Some w" "w = (obj, s1)" "kmalloc n (s1\<lparr>mem := m2\<rparr>) = Some w2" "w2 = (pb, s2)"
  then obtain j where j: "j < 16" "fd = of_nat j" using avail_fd_range by (fastforce simp: NUM_MAX_FD_def)
  then have "fd < 16" "\<not> sint fd < 0" by (simp_all add: word_less_nat_alt sint_small)
  moreover have "mem_only s s2" using k mem_only_trans [OF mem_only_store] by (auto dest!: kmalloc_mem)
  ultimately show "call_ok ({..<16} \<union> {EMAXF, EBADPATH}) s (fd, s2\<lparr>mem := m6\<rparr>)"
    by (simp add: call_ok_def mem_only_store)
qed (simp_all add: call_ok_def)

lemma rd_close_ok: "returns (call_ok {0, EBADF} s) (rd_close fd s)"
  unfolding rd_close_def
  by (intro returns_rules) (auto simp: call_ok_def intro!: mem_only_store dest!: kfree_mem intro: mem_only_trans)

lemma rd_lseek_ok: "returns (call_ok {0, EBADF, ENOREG, EBOUNDS, EINVAL} s) (rd_lseek fd offset whence s)"
  unfolding rd_lseek_def by (intro returns_rules) (simp_all add: call_ok_def)

lemma rd_read_ok: "returns (call_ok {0, EBADF, EBADBUF, EBOUNDS, ENOREG} s) (rd_read fd buf n s)"
  unfolding rd_read_def by (intro returns_rules) (simp_all add: call_ok_def)

lemma rd_readdir_ok: "returns (call_ok {0, 1, EBADF, ENODIR} s) (rd_readdir fd buf s)"
  unfolding rd_readdir_def by (intro returns_rules) (simp_all add: call_ok_def)


section \<open>Writing and removal\<close>

text \<open>\<open>settled s0 s\<close>: since \<open>s0\<close> only memory has changed, and the lock is free.\<close>

definition settled :: "'a fs_scheme \<Rightarrow> 'a fs_scheme \<Rightarrow> bool" where
  "settled s0 s \<longleftrightarrow> mem_only s0 s \<and> fs_head_lock s = 1"

lemma settled_refl: "fs_head_lock s = 1 \<Longrightarrow> settled s s"
  by (simp add: settled_def)

lemma settled_step: "mem_only s t \<Longrightarrow> settled s0 s \<Longrightarrow> settled s0 t"
  unfolding settled_def using mem_only_trans mem_only_lock by metis

lemma settled_store [intro]: "settled s0 s \<Longrightarrow> settled s0 (s\<lparr>mem := m\<rparr>)"
  by (rule settled_step) auto

lemma settled_alloc: "alloc_block s = Some (b, t) \<Longrightarrow> settled s0 s \<Longrightarrow> settled s0 t"
  using settled_step alloc_block_mem by (metis settled_def)

lemma settled_dealloc: "dealloc_block b s = Some t \<Longrightarrow> settled s0 s \<Longrightarrow> settled s0 t"
  using settled_step dealloc_block_mem by (metis settled_def)

lemma settled_cell: "ensure_cell p off s = Some (v, t) \<Longrightarrow> settled s0 s \<Longrightarrow> settled s0 t"
  by (auto simp: ensure_cell_def bind_Some_iff split: if_splits dest: settled_alloc)

lemma settled_local: "ensure_local p s = Some (v, t) \<Longrightarrow> settled s0 s \<Longrightarrow> settled s0 t"
  by (auto simp: ensure_local_def split: if_splits dest: settled_alloc)

lemmas settled_dests = settled_alloc settled_dealloc settled_cell settled_local

lemma write_start_at:
  assumes "write_start fo ino blk_num s = Some (dp, sp, bp, i, d, s')" and "settled s0 s"
  shows "settled s0 s'"
proof -
  have "returns (\<lambda>(dp, sp, bp, i, d, s'). settled s0 s') (write_start fo ino blk_num s)"
    unfolding write_start_def
    by (intro returns_rules) (use assms(2) in \<open>auto simp: bind_Some_iff split: if_splits dest!: settled_dests\<close>)
  from returnsD [OF this assms(1)] show ?thesis by simp
qed

lemma write_from_at:
  assumes "write_from fo ino actual buf dp sp bp off num idx dbl cnt s = Some s'" and "settled s0 s"
  shows "settled s0 s'"
proof -
  have "settled s0 s \<longrightarrow> settled s0 s'"
  proof (rule write_from.raw_induct [where P = "\<lambda>_ _ _ _ _ _ _ _ _ _ _ _ s s'. settled s0 s \<longrightarrow> settled s0 s'", OF _ assms(1)], goal_cases)
    case (1 f fo ino actual buf dp sp bp off num idx dbl cnt s s')
    have IH: "returns (settled s0) (f fo ino actual buf dp sp bp off num idx dbl cnt s)" if "settled s0 s"
      for fo ino actual buf dp sp bp off num idx dbl cnt s
      using 1(1) that by (auto simp: returns_def)
    show ?case
    proof
      assume s: "settled s0 s"
      show "settled s0 s'"
        by (rule returnsD [OF _ 1(2)], intro returns_rules)
          (use s in \<open>auto simp: bind_Some_iff split: if_splits intro!: IH dest!: settled_dests\<close>)
    qed
  qed
  then show ?thesis using assms(2) by blast
qed


lemma write_end_at: "write_end fo ino n s = Some s' \<Longrightarrow> settled s0 s \<Longrightarrow> settled s0 s'"
proof -
  assume e: "write_end fo ino n s = Some s'" and a: "settled s0 s"
  have "returns (mem_only s) (write_end fo ino n s)"
    unfolding write_end_def
  proof (intro returns_rules)
    fix m2 s3 m3 assume "lock_fs (s\<lparr>mem := m2\<rparr>) = Some s3"
    from locked_mem_only [OF this, of "s3\<lparr>mem := m3\<rparr>"] a
    show "mem_only s (unlock_fs (s3\<lparr>mem := m3\<rparr>))" by (auto simp: settled_def intro: mem_only_trans)
  qed
  from settled_step [OF returnsD [OF this e] a] show ?thesis .
qed

lemma rd_write_ok:
  assumes "fs_head_lock s = 1"
  shows "returns (call_ok {0, EBADF, EBADBUF, EBOUNDS, ENOREG} s) (rd_write fd buf n s)"
  unfolding rd_write_def
  by (intro returns_rules)
    (use settled_refl [OF assms] in \<open>auto simp: call_ok_def settled_def [symmetric] dest!: write_start_at write_from_at write_end_at
      dest: settled_def [THEN iffD1]\<close>)

lemma unlink_inner_at:
  assumes "unlink_inner ino num sp idx b s = Some (i, j, s')" and "settled s0 s"
  shows "settled s0 s'"
proof -
  have "settled s0 s \<longrightarrow> settled s0 (snd (snd (i, j, s')))"
  proof (rule unlink_inner.raw_induct [where P = "\<lambda>_ _ _ _ _ s v. settled s0 s \<longrightarrow> settled s0 (snd (snd v))", OF _ assms(1)], goal_cases)
    case (1 f ino num sp idx b s v)
    have IH: "returns (\<lambda>v. settled s0 (snd (snd v))) (f ino num sp idx b s)" if "settled s0 s" for ino num sp idx b s
      using 1(1) that by (auto simp: returns_def)
    show ?case
    proof
      assume s: "settled s0 s"
      show "settled s0 (snd (snd v))"
        by (rule returnsD [OF _ 1(2)], intro returns_rules) (use s in \<open>auto intro!: IH dest!: settled_dests\<close>)
    qed
  qed
  then show ?thesis using assms(2) by simp
qed

lemma unlink_outer_at:
  assumes "unlink_outer ino num dp lab sp idx dbl b s = Some s'" and "settled s0 s"
  shows "settled s0 s'"
proof -
  have "settled s0 s \<longrightarrow> settled s0 s'"
  proof (rule unlink_outer.raw_induct [where P = "\<lambda>_ _ _ _ _ _ _ _ s s'. settled s0 s \<longrightarrow> settled s0 s'", OF _ assms(1)], goal_cases)
    case (1 f ino num dp lab sp idx dbl b s s')
    have IH: "returns (settled s0) (f ino num dp lab sp idx dbl b s)" if "settled s0 s" for ino num dp lab sp idx dbl b s
      using 1(1) that by (auto simp: returns_def)
    show ?case
    proof
      assume s: "settled s0 s"
      show "settled s0 s'"
        by (rule returnsD [OF _ 1(2)], intro returns_rules)
          (use s in \<open>auto simp: bind_Some_iff split: if_splits intro!: IH dest!: settled_dests unlink_inner_at\<close>)
    qed
  qed
  then show ?thesis using assms(2) by blast
qed

lemma unlink_blocks_at: "settled s0 s \<Longrightarrow> returns (settled s0) (unlink_blocks ino s)"
  unfolding unlink_blocks_def
  by (intro returns_rules) (auto simp: returns_def dest!: unlink_outer_at dest: settled_dealloc)

lemma rd_unlink_ok:
  assumes l: "fs_head_lock s = 1"
  shows "returns (call_ok {0, EBADPATH, EINVAL} s) (rd_unlink p s)"
  unfolding rd_unlink_def
proof (intro returns_rules)
  fix w parent s1 s2 m3 s4 m5 ino
  assume "get_parent_dir_inode p (root_blk s) s = Some w" "w = (parent, s1)" "unlink_blocks ino s1 = Some s2"
    and k: "lock_fs (s2\<lparr>mem := m3\<rparr>) = Some s4"
  then have "settled s s2" using settled_refl [OF l] returnsD [OF unlink_blocks_at] by (auto dest!: parent_same)
  then have a: "settled s (s2\<lparr>mem := m3\<rparr>)" by blast
  then have "settled s (unlock_fs (s4\<lparr>mem := m5\<rparr>))" using settled_step [OF locked_mem_only [OF k _ _] a] by (simp add: settled_def)
  then show "call_ok {0, EBADPATH, EINVAL} s (0, unlock_fs (s4\<lparr>mem := m5\<rparr>))" by (simp add: call_ok_def settled_def)
qed (auto simp: call_ok_def dest!: parent_same)

lemma rd_exec_ok: "fs_head_lock s = 1 \<Longrightarrow> returns (call_ok (rd_results c) s) (rd_exec c s)"
  using rd_create_ok rd_mkdir_ok rd_open_ok rd_close_ok rd_lseek_ok rd_read_ok rd_write_ok rd_readdir_ok rd_unlink_ok
  by (cases c) simp_all

text \<open>A sequence of calls, with their results.\<close>

fun rd_run :: "rd_call list \<Rightarrow> 'a fs_scheme \<Rightarrow> (u32 list \<times> 'a fs_scheme) option" where
  "rd_run [] s = Some ([], s)"
| "rd_run (c # cs) s = do { (r, s1) \<leftarrow> rd_exec c s; (rs, s2) \<leftarrow> rd_run cs s1; Some (r # rs, s2) }"

section \<open>Properties\<close>

text \<open>
  C13: every sequence of file system calls that returns, whatever the calls, their arguments and their
  results, leaves the module's variables as they were (only memory changes), with the lock released; each
  result is one of the codes of its operation; and when all calls report errors, nothing has changed.
\<close>

theorem rd_calls_sound:
  assumes "rd_run cs s = Some (rs, s')" and "fs_head_lock s = 1"
  shows "(\<exists>m. s' = s\<lparr>mem := m\<rparr>) \<and> list_all2 (\<lambda>c r. r \<in> rd_results c) cs rs \<and>
     (list_all (\<lambda>r. sint r < 0) rs \<longrightarrow> s' = s)"
  using assms
proof (induction cs arbitrary: s rs)
  case (Cons c cs)
  obtain r s1 rs1 where e: "rd_exec c s = Some (r, s1)" "rd_run cs s1 = Some (rs1, s')" "rs = r # rs1"
    using Cons.prems(1) by (auto simp: bind_Some_iff)
  have ok: "r \<in> rd_results c" "mem_only s s1" "sint r < 0 \<longrightarrow> s1 = s"
    using returnsD [OF rd_exec_ok [OF Cons.prems(2)] e(1)] by (simp_all add: call_ok_def)
  moreover have "fs_head_lock s1 = 1" using mem_only_lock [OF ok(2)] Cons.prems(2) by simp
  ultimately show ?case using Cons.IH [OF e(2)] mem_only_trans [OF ok(2)] e(3) by (auto simp: mem_only_def)
qed (simp, metis machine.surjective machine.update_convs(1))


theorem rd_calls_sound_witness:
  "\<exists>m. rd_run [Create 0, Close 17, Create 0x92000] (demo_fs demo_root) = Some ([EBADPATH, EBADF, 0], demo_fs m) \<and>
     list_all2 (\<lambda>c r. r \<in> rd_results c) [Create 0, Close 17, Create 0x92000] [EBADPATH, EBADF, 0]"
proof -
  obtain m where c: "rd_create 0x92000 (demo_fs demo_root) = Some (0, demo_fs m)"
    using rd_create_fills [OF demo_fs_disk, of demo_root "replicate 16 None" "0x92000" "[97, 98]" 1]
      demo_root_dir demo_root_path demo_root_inode by auto
  have "rd_run [Create 0, Close 17, Create 0x92000] (demo_fs demo_root) = Some ([EBADPATH, EBADF, 0], demo_fs m)"
    using c by (simp add: rd_create_def [of 0] new_entry_def [of _ _ 0] rd_close_def bad_fd_def)
  with rd_calls_sound [OF this] show ?thesis by simp
qed

section \<open>A new disk\<close>

text \<open>The stages of \<open>init_rdisk\<close>: zeros, the superblock's counters, the mark of the root block, the root inode.\<close>

definition fresh_super :: "nat \<Rightarrow> mem \<Rightarrow> mem" where
  "fresh_super b m = st32 (st32 (st32 (st32 (st32 (st32 m (of_nat b) UFS_HEADER_MAGIC) (of_nat (b + 8)) UFS_BLOCK_SIZE)
     (of_nat (b + 4)) UFS_NUM_MAX_BLOCKS) (of_nat (b + 16)) (UFS_NUM_MAX_BLOCKS - 1)) (of_nat (b + 12)) UFS_NUM_MAX_INODES)
     (of_nat (b + 20)) (UFS_NUM_MAX_INODES - 1)"

definition fresh_root :: "nat \<Rightarrow> mem \<Rightarrow> mem" where
  "fresh_root b m = st32 (st32 (st32 (st32 (st32 m (of_nat (b + 0x4000)) INODE_DIR) (of_nat (b + 0x400C)) (of_nat (b + 0x64000)))
     (of_nat (b + 32)) (of_nat (b + 0x4000))) (of_nat (b + 36)) (of_nat (b + 0x24000))) (of_nat (b + 40)) (of_nat (b + 0x64000))"

lemma init_rdisk_run:
  assumes b: "0 < b" "b + 0x200000 \<le> two32"
  shows "init_rdisk (of_nat b) s = Some (s\<lparr>mem := fresh_root b (set_mark (fresh_super b
       (\<lambda>a. if a \<in> region (of_nat b) 0x200000 then 0 else mem s a)) (of_nat (b + 0x24000)) 0 True),
     superblk := of_nat b, inode_array := of_nat (b + 0x4000), blk_bitmap := of_nat (b + 0x24000),
     root_blk := of_nat (b + 0x64000), fs_head_lock := 1\<rparr>)"
proof -
  have nz: "(of_nat b :: addr) \<noteq> 0" "(of_nat (b + 0x4000) :: addr) \<noteq> 0" "(of_nat (b + 0x24000) :: addr) \<noteq> 0"
    and u: "unat (of_nat b :: addr) = b"
    using b by (simp_all del: of_nat_add)
  have mz: "memset (mem s) (of_nat b) 0 UFS_DISK_SIZE = Some (\<lambda>a. if a \<in> region (of_nat b) 0x200000 then 0 else mem s a)"
    using memset_eq [of "of_nat b" UFS_DISK_SIZE "mem s" 0] nz(1) u b(2) by (simp add: UFS_DISK_SIZE_def)
  have mk: "set_blk_bitmap 0 True t = Some (t\<lparr>mem := set_mark (mem t) (blk_bitmap t) 0 True\<rparr>)" if "blk_bitmap t \<noteq> 0" for t :: "'a fs_scheme"
    using set_bit [of 0 t True] that by simp
  show ?thesis
    using nz mz mk
    by (simp add: init_rdisk_def fresh_super_def fresh_root_def UFS_BLOCK_SIZE_def UFS_NUM_MAX_INODES_def
        UFS_NUM_BITMAP_BLOCKS_def kthread_mutex_init_def Let_def add.commute)
qed


lemma fresh_super_frame: "b + 24 \<le> two32 \<Longrightarrow> eq_out (zone b 24) m (fresh_super b m)"
  unfolding fresh_super_def by (intro eq_out_zone eq_out_refl) (auto simp: zone_def)

lemma fresh_root_frame:
  "b + 0x200000 \<le> two32 \<Longrightarrow> eq_out (zone (b + 32) 12 \<union> zone (b + 0x4000) 16) m (fresh_root b m)"
  unfolding fresh_root_def by (intro eq_out_zone eq_out_refl) (auto simp: zone_def)

lemma fresh_root_words:
  assumes "b + 0x200000 \<le> two32"
  shows "ld32 (fresh_root b m) (of_nat (b + 0x4000)) = INODE_DIR"
    "ld32 (fresh_root b m) (of_nat (b + 0x400C)) = of_nat (b + 0x64000)"
  using assms by (simp_all add: fresh_root_def ld32_st32_pos del: of_nat_add)

text \<open>The memory \<open>init_rdisk\<close> leaves: after the stages, every byte of the disk that none of them writes is zero.\<close>

abbreviation zeroed :: "nat \<Rightarrow> mem \<Rightarrow> mem" where
  "zeroed b m \<equiv> (\<lambda>a. if a \<in> region (of_nat b) 0x200000 then 0 else m a)"

abbreviation fresh_marked :: "nat \<Rightarrow> mem \<Rightarrow> mem" where
  "fresh_marked b m \<equiv> set_mark (fresh_super b (zeroed b m)) (of_nat (b + 0x24000)) 0 True"

lemma zeroed_region: "b + 0x200000 \<le> two32 \<Longrightarrow> region (of_nat b) 0x200000 = disk b"
  by (simp add: region_def zone_def)

lemma fresh_marked_frame:
  assumes "b + 0x200000 \<le> two32"
  shows "eq_out (bits b) (fresh_super b m) (set_mark (fresh_super b m) (of_nat (b + 0x24000)) 0 True)"
proof -
  have "unat (of_nat (b + 0x24000) :: addr) = b + 0x24000" using assms by (simp del: of_nat_add)
  then show ?thesis unfolding bits_def
    using set_mark_frame [of "of_nat (b + 0x24000)" 0 "fresh_super b m" True] assms by (simp add: region_def zone_def)
qed

lemma fresh_frame:
  assumes "b + 0x200000 \<le> two32"
  shows "eq_out (zone b 44 \<union> bits b \<union> zone (b + 0x4000) 16) (zeroed b m) (fresh_root b (fresh_marked b m))"
  using fresh_super_frame [of b "zeroed b m"] fresh_marked_frame [OF assms, of "zeroed b m"]
    fresh_root_frame [OF assms, of "fresh_marked b m"] assms by (auto simp: eq_out_def zone_def)

lemma fresh_byte:
  assumes "b + 0x200000 \<le> two32" and "b + 0x4010 \<le> x" and "x < b + 0x24000 \<or> b + 0x24081 \<le> x" and "x < b + 0x200000"
  shows "fresh_root b (fresh_marked b m) (of_nat x) = 0"
proof -
  have "unat (of_nat x :: addr) = x" using assms by simp
  then show ?thesis using eq_outD [OF fresh_frame [OF assms(1)], of "of_nat x" m] assms
    by (auto simp: zeroed_region zone_def bits_def)
qed

lemma fresh_inode:
  assumes fit: "b + 0x200000 \<le> two32" and k: "0 < k" "k < 2048" "i \<le> 60"
  shows "ld32 (fresh_root b (fresh_marked b m)) (inode b k + of_nat i) = 0"
proof -
  let ?m = "fresh_root b (fresh_marked b m)"
  have z: "?m (inode b k + of_nat i + of_nat j) = 0" if "j < 4" for j
    using fresh_byte [OF fit, of "inode_pos b k + i + j" m] that k by (simp add: inode_pos_def)
  have "ld32 ?m (inode b k + of_nat i) = ld32 (\<lambda>_. 0) (inode b k + of_nat i)"
    by (rule ld32_cong) (use z [of 0] z [of 1] z [of 2] z [of 3] in simp_all)
  then show ?thesis by simp
qed

lemma fresh_free:
  assumes fit: "b + 0x200000 \<le> two32"
  shows "free_blocks b (fresh_root b (fresh_marked b m)) = {1..1024}"
proof -
  let ?bm = "of_nat (b + 0x24000) :: addr" and ?m1 = "fresh_super b (zeroed b m)"
  have u: "unat ?bm = b + 0x24000" using fit by (simp del: of_nat_add)
  have fr: "free_blocks b (fresh_root b (fresh_marked b m)) = free_blocks b (fresh_marked b m)"
    by (rule free_blocks_frame [OF fit fresh_root_frame [OF fit]]) (auto simp: zone_def bits_def)
  have nm: "\<not> marked ?m1 ?bm i" if "i \<le> 1024" for i
  proof -
    let ?a = "?bm + of_nat (i div 8)"
    have "unat ?a = b + 0x24000 + i div 8" using unat_plus_of_nat [of ?bm "i div 8"] u that fit by simp
    then have "?m1 ?a = 0" using eq_outD [OF fresh_super_frame, of b ?a "zeroed b m"] that fit by (auto simp: zeroed_region zone_def)
    then show ?thesis by (simp add: marked_def)
  qed
  have mm: "marked (fresh_marked b m) ?bm i = (if i = 0 then True else marked ?m1 ?bm i)" if "i \<le> 1024" for i
    by (rule set_mark_marked) (use u fit that in simp_all)
  have "i \<in> free_blocks b (fresh_marked b m) \<longleftrightarrow> i \<in> {1..1024}" for i
    using nm [of i] mm [of i] by (cases "i = 0"; cases "i \<le> 1024") (simp_all add: free_blocks_def del: of_nat_add)
  then show ?thesis unfolding fr by blast
qed

lemma fresh_magic:
  assumes fit: "b + 0x200000 \<le> two32"
  shows "ld32 (fresh_root b (fresh_marked b m)) (of_nat b) = UFS_HEADER_MAGIC"
proof -
  have u: "unat (of_nat b :: addr) = b" using fit by simp
  have "ld32 (fresh_root b (fresh_marked b m)) (of_nat b) = ld32 (fresh_marked b m) (of_nat b)"
    by (rule eq_out_ld32 [OF fresh_root_frame [OF fit]]) (use u fit in \<open>auto simp: region_def zone_def\<close>)
  also have "\<dots> = ld32 (fresh_super b (zeroed b m)) (of_nat b)"
    by (rule eq_out_ld32 [OF fresh_marked_frame [OF fit]]) (use u fit in \<open>auto simp: region_def zone_def bits_def\<close>)
  also have "\<dots> = UFS_HEADER_MAGIC" using fit by (simp add: fresh_super_def ld32_st32_pos del: of_nat_add)
  finally show ?thesis .
qed

lemma fresh_root_dir:
  assumes fit: "b + 0x200000 \<le> two32"
  shows "root_dir (fresh_root b (fresh_marked b m)) b (replicate 16 None)"
proof -
  have "fresh_root b (fresh_marked b m) (ent b j + of_nat i) = 0" if "j < 16" "i < 16" for j i
    using fresh_byte [OF fit, of "b + 0x64000 + (16 * j + i)" m] that unfolding ent_byte by simp
  then show ?thesis using fresh_root_words [OF fit, of "fresh_marked b m"]
    by (simp add: root_dir_def slot_at_def inode_pos_def del: of_nat_add) (simp add: add.assoc)
qed

lemma init_rdisk_fresh:
  assumes "0 < b" and "b + 0x200000 \<le> two32"
  shows "\<exists>m. init_rdisk (of_nat b) s = Some (s\<lparr>mem := m, superblk := of_nat b, inode_array := of_nat (b + 0x4000),
      blk_bitmap := of_nat (b + 0x24000), root_blk := of_nat (b + 0x64000), fs_head_lock := 1\<rparr>) \<and> root_dir m b (replicate 16 None) \<and>
     ld32 m (of_nat b) = UFS_HEADER_MAGIC \<and>
     (\<forall>k i. 0 < k \<longrightarrow> k < 2048 \<longrightarrow> i \<le> 60 \<longrightarrow> ld32 m (inode b k + of_nat i) = 0) \<and>
     free_blocks b m = {1..1024} \<and> (\<forall>j \<le> 1024. \<forall>i < 256. m (blk b j + of_nat i) = 0) \<and> eq_out (disk b) (mem s) m"
proof -
  let ?m = "fresh_root b (fresh_marked b (mem s))"
  have "?m (blk b j + of_nat i) = 0" if "j \<le> 1024" "i < 256" for j i
    using fresh_byte [OF assms(2), of "blk_pos b j + i" "mem s"] that by (simp add: blk_pos_def)
  moreover have "eq_out (disk b) (mem s) ?m"
    using fresh_frame [OF assms(2), of "mem s"] assms(2) by (auto simp: eq_out_def zeroed_region zone_def bits_def)
  ultimately show ?thesis
    unfolding init_rdisk_run [OF assms] using fresh_root_dir fresh_magic fresh_inode fresh_free assms(2) by (intro exI [of _ ?m]) simp
qed

text \<open>
  C22: \<open>init_rdisk\<close> makes an empty file system. On any 2 MB of memory it returns, whatever the bytes were
  before, with the module's pointers and lock set for a disk there; the root directory is empty; every
  inode but the root's is unused, and zero; every block but the root's is free; no byte outside the disk changes.
\<close>

theorem init_rdisk_formats:
  assumes "0 < b" and "b + 0x200000 \<le> two32"
  shows "\<exists>s'. init_rdisk (of_nat b) s = Some s' \<and> disk_at s' b \<and> root_dir (mem s') b (replicate 16 None) \<and>
     ld32 (mem s') (superblk s') = UFS_HEADER_MAGIC \<and>
     (\<forall>k i. 0 < k \<longrightarrow> k < 2048 \<longrightarrow> i \<le> 60 \<longrightarrow> ld32 (mem s') (inode b k + of_nat i) = 0) \<and>
     free_blocks b (mem s') = {1..1024} \<and> eq_out (disk b) (mem s) (mem s')"
proof -
  obtain m where "init_rdisk (of_nat b) s = Some (s\<lparr>mem := m, superblk := of_nat b, inode_array := of_nat (b + 0x4000),
      blk_bitmap := of_nat (b + 0x24000), root_blk := of_nat (b + 0x64000), fs_head_lock := 1\<rparr>)" "root_dir m b (replicate 16 None)"
    "ld32 m (of_nat b) = UFS_HEADER_MAGIC" "free_blocks b m = {1..1024}" "eq_out (disk b) (mem s) m"
    "\<forall>k i. 0 < k \<longrightarrow> k < 2048 \<longrightarrow> i \<le> 60 \<longrightarrow> ld32 m (inode b k + of_nat i) = 0"
    using init_rdisk_fresh [OF assms, of s] by blast
  then show ?thesis using assms by (simp add: disk_at_def)
qed


theorem init_rdisk_formats_witness:
  "\<exists>s'. init_rdisk 0x100000 (demo_fs (\<lambda>_. 0xFF)) = Some s' \<and> disk_at s' 0x100000 \<and> root_dir (mem s') 0x100000 (replicate 16 None) \<and>
     free_blocks 0x100000 (mem s') = {1..1024}"
  using init_rdisk_formats [of "0x100000" "demo_fs (\<lambda>_. 0xFF)"] by auto

end
