(* ===== verification/Ramdisk_Open.thy ===== *)
theory Ramdisk_Open
  imports Ramdisk_State Kmalloc_Proofs
begin

text \<open>
  Opening a file, and the whole way from a new disk to the contents of a file. \<open>rd_open\<close> takes two regions
  from the kernel allocator, the file object and the copy of the path, so its proof joins the models of the two
  modules: \<open>clear_of_heap\<close> says which memory an allocation leaves alone, and \<open>rd_open_opens\<close> that the call fills the lowest
  free descriptor. The path is copied into a region one byte too short for its terminator; the byte after it is
  accounted for (\<open>slack\<close>).
\<close>

section \<open>Opening a file\<close>

lemma avail_fd_first:
  assumes "t \<noteq> 0" and "\<forall>j. i \<le> j \<longrightarrow> j < fd \<longrightarrow> ld32 m (t + of_nat (40 + 4 * j)) \<noteq> 0"
    and "ld32 m (t + of_nat (40 + 4 * fd)) = 0" and "i \<le> fd" and "fd < i + n"
  shows "avail_fd m t i n = Some (of_nat fd)"
  using assms
proof (induction m t i n rule: avail_fd.induct)
  case (2 m t i n)
  have e: "t + (40 + of_nat (4 * i)) = t + of_nat (40 + 4 * i)" by simp
  show ?case
  proof (cases "i = fd")
    case True
    then show ?thesis using 2 e by simp
  next
    case False
    then show ?thesis using 2 e by (simp del: of_nat_add of_nat_mult)
  qed
qed simp

text \<open>
  \<open>clear_of_heap s bs A\<close>: the bytes \<open>A\<close> are either outside the store or in its live regions, so that no
  allocation touches them.
\<close>

abbreviation clear_of_heap :: "'a fs_scheme \<Rightarrow> blk list \<Rightarrow> addr set \<Rightarrow> bool" where
  "clear_of_heap s bs A \<equiv> A \<inter> slack (unat (store_global_head s)) bs = {}"

lemma off_disk_disjoint:
  assumes "region p n \<inter> disk b = {}" and "p \<noteq> 0" and "unat p + n \<le> two32" and "0 < n" and "b + 0x200000 \<le> two32"
  shows "off_disk b p n"
  using zones_apart [of "unat p" n b "0x200000"] assms by (simp add: off_disk_def region_zone)

lemma away_disjoint:
  assumes "region p n \<inter> region q k = {}" and "0 < n" and "0 < k" and "unat p + n \<le> two32" and "unat q + k \<le> two32"
  shows "away p n q k"
  using zones_apart [of "unat p" n "unat q" k] assms by (simp add: away_def region_zone)

text \<open>The fields of a \<open>FILE\<close> object.\<close>

lemma object_field:
  assumes "unat fo + 20 < two32" and "unat i \<le> 16"
  shows "unat (fo + i) + 4 \<le> two32" "region (fo + i) 4 \<subseteq> region fo 20"
proof -
  have "unat (fo + i) = unat fo + unat i" using assms by (simp add: unat_plus_fit)
  then show "unat (fo + i) + 4 \<le> two32" "region (fo + i) 4 \<subseteq> region fo 20" using assms by (auto simp: region_def)
qed

lemma object_word:
  assumes "eq_out A m m'" and "region fo 20 \<inter> A = {}" and "unat fo + 20 < two32" and "unat i \<le> 16"
  shows "ld32 m' (fo + i) = ld32 m (fo + i)"
  by (rule eq_out_ld32 [OF assms(1) object_field(1) [OF assms(3,4)]]) (use object_field(2) [OF assms(3,4)] assms(2) in blast)

lemma object_other:
  assumes "unat fo + 20 < two32" and "unat i \<le> 16" and "unat j \<le> 16" and "unat i + 4 \<le> unat j \<or> unat j + 4 \<le> unat i"
  shows "ld32 (st32 m (fo + i) v) (fo + j) = ld32 m (fo + j)"
proof (rule ld32_st32_apart)
  have "unat (fo + i) = unat fo + unat i" "unat (fo + j) = unat fo + unat j" using assms by (simp_all add: unat_plus_fit)
  then show "apart (fo + i) 4 (fo + j) 4" using assms by (auto simp: apart_def)
qed

text \<open>The object is allocated and may be written.\<close>

lemma alloc_object:
  assumes rep: "heap_rep s bs" and fit: "\<exists>x \<in> set bs. fits 20 x"
  defines "b \<equiv> unat (store_global_head s)"
  shows "\<exists>fo m1. kmalloc 20 s = Some (fo, s\<lparr>mem := m1\<rparr>) \<and> fo \<noteq> 0 \<and> unat fo + 20 < two32 \<and>
     region fo 20 \<subseteq> slack b bs \<and> region fo 20 \<inter> slack b (alloc_blks 20 bs) = {} \<and> slack b (alloc_blks 20 bs) \<subseteq> slack b bs \<and>
     (\<forall>m2. eq_out (region fo 20) m1 m2 \<longrightarrow> heap_rep (s\<lparr>mem := m2\<rparr>) (alloc_blks 20 bs) \<and> eq_out (slack b bs) (mem s) m2)"
proof -
  obtain fo m1 where fo: "kmalloc 20 s = Some (fo, s\<lparr>mem := m1\<rparr>)" "heap_rep (s\<lparr>mem := m1\<rparr>) (alloc_blks 20 bs)"
    "fo \<noteq> 0" "unat fo + 20 < two32" "eq_out (slack b bs) (mem s) m1" "region fo 21 \<subseteq> slack b bs"
    "region fo 20 \<inter> slack b (alloc_blks 20 bs) = {}" "slack b (alloc_blks 20 bs) \<subseteq> slack b bs"
    using kmalloc_slack [OF rep _ fit] unfolding b_def by auto
  have f20: "region fo 20 \<subseteq> slack b bs" using fo(6) by (auto simp: region_def)
  have "heap_rep (s\<lparr>mem := m2\<rparr>) (alloc_blks 20 bs) \<and> eq_out (slack b bs) (mem s) m2" if "eq_out (region fo 20) m1 m2" for m2
    using heap_rep_safe [OF fo(2), of "region fo 20" "s\<lparr>mem := m2\<rparr>"] that fo(7) eq_out_trans [OF fo(5) eq_out_mono [OF that f20]]
    by (simp add: b_def)
  with fo f20 show ?thesis by blast
qed

text \<open>The copy of the path: the terminator lands on the byte after the allocated region.\<close>

lemma copy_path:
  assumes rep: "heap_rep t bs" and fit: "\<exists>x \<in> set bs. fits (length xs) x" and xs: "xs \<noteq> []"
    and c: "cstr (mem t) p xs" "unat p + length xs < two32" and fo: "unat fo + 20 < two32" "fo \<noteq> 0"
    and dis: "region p (length xs + 1) \<inter> (slack (unat (store_global_head t)) bs \<union> region fo 20) = {}"
      "region fo 20 \<inter> slack (unat (store_global_head t)) bs = {}"
  shows "\<exists>pb m3 m5. kmalloc (of_nat (length xs)) t = Some (pb, t\<lparr>mem := m3\<rparr>) \<and> strcpy (st32 m3 (fo + 12) pb) p pb = Some m5 \<and>
     ld32 m5 (fo + 16) = ld32 (mem t) (fo + 16) \<and>
     eq_out (slack (unat (store_global_head t)) bs \<union> region fo 20) (mem t) m5"
proof -
  let ?S = "slack (unat (store_global_head t)) bs" and ?n = "length xs"
  obtain pb m3 where pb: "kmalloc (of_nat ?n) t = Some (pb, t\<lparr>mem := m3\<rparr>)" "pb \<noteq> 0" "unat pb + ?n < two32"
    "eq_out ?S (mem t) m3" "region pb (?n + 1) \<subseteq> ?S"
    using kmalloc_slack [OF rep _ fit] xs by auto
  define m4 where "m4 = st32 m3 (fo + 12) pb"
  have e4: "eq_out (region fo 20) m3 m4"
    unfolding m4_def using object_field [OF fo(1), of 12] by (intro eq_out_st32) simp_all
  have E4: "eq_out (?S \<union> region fo 20) (mem t) m4"
    using eq_out_trans [OF eq_out_mono [OF pb(4)] eq_out_mono [OF e4]] by blast
  have c4: "cstr m4 p xs" by (rule cstr_frame [OF c(1) E4 dis(1) c(2)])
  have "region p (?n + 1) \<inter> region pb (?n + 1) = {}" using dis(1) pb(5) by auto
  then have "away p (?n + 1) pb (?n + 1)" by (rule away_disjoint) (use c(2) pb(3) in simp_all)
  then have ap: "apart p (?n + 1) pb (?n + 1)" using c(2) pb(3) by (simp add: apart_def away_def)
  obtain m5 where m5: "strcpy m4 p pb = Some m5" "eq_out (region pb (?n + 1)) m4 m5" using strcpy_eq [OF c4 pb(2) ap] by auto
  have "eq_out ?S m4 m5" using eq_out_mono [OF m5(2) pb(5)] .
  then have "ld32 m5 (fo + 16) = ld32 m4 (fo + 16)" "eq_out (?S \<union> region fo 20) (mem t) m5"
    using object_word [OF _ dis(2) fo(1), of m4 m5 16] eq_out_trans [OF E4 eq_out_mono] by auto
  moreover have "ld32 m4 (fo + 16) = ld32 (mem t) (fo + 16)"
    using object_word [OF pb(4) dis(2) fo(1), of 16] object_other [OF fo(1), of 12 16] by (simp add: m4_def)
  ultimately show ?thesis using pb(1) m5(1) by (auto simp: m4_def)
qed

lemma rd_open_opens:
  assumes d: "disk_at s b" and r: "root_dir (mem s) b ds" and p: "path_ok s b p name"
    and look: "lookup_dir (mem s) b ds name = inode b k" "k < 2048" "ld32 (mem s) (inode b k + of_nat 0) = INODE_REG"
    and rep: "heap_rep s bs" and fit: "\<exists>x \<in> set bs. fits (20 + 16 + (length name + 17)) x"
    and task: "off_disk b (current_task s) 112"
    and fd: "fd < 16" "\<forall>j < fd. ld32 (mem s) (current_task s + of_nat (40 + 4 * j)) \<noteq> 0"
      "ld32 (mem s) (current_task s + of_nat (40 + 4 * fd)) = 0"
    and clear: "clear_of_heap s bs (disk b)" "clear_of_heap s bs (region p (length name + 2))"
      "clear_of_heap s bs (region (current_task s) 112)"
  shows "\<exists>fo m. rd_open p s = Some (of_nat fd, s\<lparr>mem := m\<rparr>) \<and> opened (s\<lparr>mem := m\<rparr>) b fd fo k \<and> seek_head m fo = 0 \<and>
     region fo 20 \<subseteq> slack (unat (store_global_head s)) bs \<and>
     eq_out (slack (unat (store_global_head s)) bs \<union> region (current_task s + of_nat (40 + 4 * fd)) 4) (mem s) m"
proof -
  let ?b = "unat (store_global_head s)" and ?t = "current_task s" and ?path = "delim # name"
  let ?S = "slack ?b bs" and ?S1 = "slack ?b (alloc_blks 20 bs)" and ?c = "current_task s + of_nat (40 + 4 * fd)"
  have fit0: "b + 0x200000 \<le> two32" using disk_fit [OF d] by simp
  have cs: "cstr (mem s) p ?path" "unat p + length ?path < two32" using p by (auto simp: path_ok_def off_disk_def)
  have t0: "?t \<noteq> 0" "unat ?t + 112 \<le> two32" using task by (auto simp: off_disk_def)
  have av: "avail_fd (mem s) ?t 0 (unat NUM_MAX_FD) = Some (of_nat fd)"
    by (rule avail_fd_first) (use t0 fd in \<open>auto simp: NUM_MAX_FD_def\<close>)
  have gf: "get_file_inode p (root_blk s) s = Some (inode b k)" "inode b k \<noteq> 0"
    using get_file_inode_name [OF d r p] look(1) inode_nonnull [OF fit0 look(2)] by simp_all
  have fits: "\<exists>x \<in> set bs. fits 20 x" "\<exists>x \<in> set (alloc_blks 20 bs). fits (length ?path) x"
    using fit fits_after_alloc [OF fit] by (auto simp: fits_def)
  obtain fo m1 where fo: "kmalloc 20 s = Some (fo, s\<lparr>mem := m1\<rparr>)" "fo \<noteq> 0" "unat fo + 20 < two32"
    "region fo 20 \<subseteq> ?S" "region fo 20 \<inter> ?S1 = {}" "?S1 \<subseteq> ?S"
    "\<forall>m2. eq_out (region fo 20) m1 m2 \<longrightarrow> heap_rep (s\<lparr>mem := m2\<rparr>) (alloc_blks 20 bs) \<and> eq_out ?S (mem s) m2"
    using alloc_object [OF rep fits(1)] by blast
  define m2 where "m2 = st32 (st32 m1 fo (of_nat fd)) (fo + 16) (inode b k)"
  have "eq_out (region fo 20) m1 m2"
    unfolding m2_def using object_field [OF fo(3), of 0] object_field [OF fo(3), of 16]
    by (intro eq_out_trans [OF eq_out_st32 eq_out_st32]) simp_all
  then have m2: "heap_rep (s\<lparr>mem := m2\<rparr>) (alloc_blks 20 bs)" "eq_out ?S (mem s) m2" using fo(7) by auto
  have P: "region p (length ?path + 1) \<inter> ?S = {}" using clear(2) by simp
  have cs2: "cstr m2 p ?path" by (rule cstr_frame [OF cs(1) m2(2) P cs(2)])
  have P1: "region p (length ?path + 1) \<inter> (?S1 \<union> region fo 20) = {}" using P fo(4,6) by blast
  have n2: "ld32 m2 (fo + 16) = inode b k" by (simp add: m2_def)
  obtain pb m3 m5 where m5: "kmalloc (of_nat (length ?path)) (s\<lparr>mem := m2\<rparr>) = Some (pb, s\<lparr>mem := m3\<rparr>)"
    "strcpy (st32 m3 (fo + 12) pb) p pb = Some m5" "ld32 m5 (fo + 16) = inode b k" "eq_out (?S1 \<union> region fo 20) m2 m5"
    using copy_path [of "s\<lparr>mem := m2\<rparr>" "alloc_blks 20 bs" ?path p fo, OF m2(1) fits(2) list.distinct(2)] cs2 cs(2) fo(3,2,5) P1 n2
    by (simp del: list.size) blast
  define m where "m = st32 (st32 m5 (fo + 8) 0) ?c fo"
  have "unat ?c = unat ?t + (40 + 4 * fd)"
    using unat_plus_of_nat [of ?t "40 + 4 * fd"] t0 fd(1) by (simp del: of_nat_add of_nat_mult)
  then have c: "unat ?c + 4 \<le> two32" "region ?c 4 \<subseteq> region ?t 112" using t0 fd(1) by (auto simp: region_def)
  have e7: "eq_out (region ?c 4) (st32 m5 (fo + 8) 0) m" unfolding m_def by (rule eq_out_st32 [OF c(1)]) simp
  have e6: "eq_out (region fo 20) m5 (st32 m5 (fo + 8) 0)" using object_field [OF fo(3), of 8] by (intro eq_out_st32) simp_all
  have E: "eq_out (?S \<union> region ?c 4) (mem s) m"
    by (rule eq_out_trans [OF eq_out_mono [OF m2(2)] eq_out_trans [OF eq_out_mono [OF m5(4)] eq_out_trans
          [OF eq_out_mono [OF e6] eq_out_mono [OF e7]]]]) (use fo(4,6) in blast)+
  have "strlen m2 p = Some (of_nat (length ?path))" using strlen_eq [OF cs2] .
  moreover have "(of_nat fd :: u32) \<noteq> - 1" using fd(1) sint_small [of fd] by auto
  ultimately have run: "rd_open p s = Some (of_nat fd, s\<lparr>mem := m\<rparr>)"
    using av gf fo(1,2) m5(1,2) t0(1) by (simp add: rd_open_def m2_def [symmetric] m_def add.assoc)
  have fc: "region fo 20 \<inter> region ?c 4 = {}" using c(2) clear(3) fo(4) by blast
  have "ld32 m (fo + 16) = inode b k" "seek_head m fo = 0"
    using object_word [OF e7 fc fo(3), of 16] object_word [OF e7 fc fo(3), of 8] m5(3) object_other [OF fo(3), of 8 16]
    by (simp_all add: seek_head_def)
  moreover have "ld32 m (inode b k + of_nat 0) = INODE_REG"
  proof -
    have "region ?c 4 \<inter> disk b = {}" using c(2) task by (fastforce simp: off_disk_def region_def zone_def)
    moreover have "zone (inode_pos b k + 0) 4 \<subseteq> disk b" using look(2) by (auto simp: place_defs)
    ultimately have "zone (inode_pos b k + 0) 4 \<inter> (?S \<union> region ?c 4) = {}" using clear(1) by blast
    then show ?thesis using inode_word [OF E fit0 look(2), of 0] look(3) by simp
  qed
  moreover have "off_disk b fo 20" by (rule off_disk_disjoint) (use clear(1) fo(2,3,4) fit0 in auto)
  moreover have "away fo 20 ?t 112" by (rule away_disjoint) (use clear(3) fo(3,4) t0 in auto)
  ultimately show ?thesis
    using run E fo(4) disk_at_mem [OF d] fd(1) look(2) task
    by (intro exI [of _ fo] exI [of _ m]) (simp add: opened_def m_def)
qed

section \<open>From a new disk to the contents of a file\<close>

text \<open>A new disk with one file, created in it.\<close>

lemma fresh_file:
  assumes b: "0 < b" "b + 0x200000 \<le> two32" and p: "path_ok s b p name"
  shows "\<exists>s0 m1. init_rdisk (of_nat b) s = Some s0 \<and> rd_create p s0 = Some (0, s0\<lparr>mem := m1\<rparr>) \<and>
     disk_at (s0\<lparr>mem := m1\<rparr>) b \<and> root_dir m1 b ((replicate 16 None)[0 := Some (name, 1)]) \<and> path_ok (s0\<lparr>mem := m1\<rparr>) b p name \<and>
     ld32 m1 (inode b 1 + of_nat 0) = INODE_REG \<and> file_size m1 b 1 = 0 \<and> (\<forall>v < 8. direct_blk m1 b 1 v = 0) \<and>
     free_blocks b m1 = {1..1024} \<and> eq_out (disk b) (mem s) m1 \<and>
     current_task s0 = current_task s \<and> store_global_head s0 = store_global_head s"
proof -
  obtain m where i: "init_rdisk (of_nat b) s = Some (s\<lparr>mem := m, superblk := of_nat b, inode_array := of_nat (b + 0x4000),
      blk_bitmap := of_nat (b + 0x24000), root_blk := of_nat (b + 0x64000), fs_head_lock := 1\<rparr>)" "root_dir m b (replicate 16 None)"
    and z: "\<forall>k i. 0 < k \<longrightarrow> k < 2048 \<longrightarrow> i \<le> 60 \<longrightarrow> ld32 m (inode b k + of_nat i) = 0"
    and f: "free_blocks b m = {1..1024}" "eq_out (disk b) (mem s) m"
    using init_rdisk_fresh [OF b, of s] by blast
  define s0 where "s0 = s\<lparr>mem := m, superblk := of_nat b, inode_array := of_nat (b + 0x4000),
      blk_bitmap := of_nat (b + 0x24000), root_blk := of_nat (b + 0x64000), fs_head_lock := 1\<rparr>"
  have sel: "mem s0 = m" "current_task s0 = current_task s" "store_global_head s0 = store_global_head s" "lit_delim s0 = lit_delim s"
    by (simp_all add: s0_def)
  have d: "disk_at s0 b" using b by (simp add: s0_def disk_at_def)
  have p0: "path_ok s0 b p name" 
    using path_ok_frame [OF p f(2)] by (simp add: path_ok_def s0_def)
  have "ld32 (mem s0) (inode b 0) \<noteq> INODE_EMPTY" using i(2) sel by (simp add: root_dir_def)
  moreover have "ld32 (mem s0) (inode b 1) = INODE_EMPTY" using z [rule_format, of 1 0] sel by simp
  ultimately obtain m1 where m1: "rd_create p s0 = Some (0, s0\<lparr>mem := m1\<rparr>)" "root_dir m1 b ((replicate 16 None)[0 := Some (name, 1)])" "ld32 m1 (inode b 1) = INODE_REG"
    "file_size m1 b 1 = 0" "path_ok (s0\<lparr>mem := m1\<rparr>) b p name"
    "eq_out (zone (inode_pos b 1) 8 \<union> zone (ent_pos b 0) 16) m m1"
    using rd_create_fills [OF d _ _ p0, of "replicate 16 None" 1] i(2) sel by (auto simp: free_slot_def)
  have "direct_blk m1 b 1 v = 0" if "v < 8" for v
  proof -
    have "zone (inode_pos b 1 + (16 + 4 * v)) 4 \<inter> (zone (inode_pos b 1) 8 \<union> zone (ent_pos b 0) 16) = {}"
      using that by (auto simp: place_defs ent_pos_def)
    then show ?thesis
      using inode_word [OF m1(6) b(2), of 1 "16 + 4 * v"] z [rule_format, of 1 "16 + 4 * v"] that
      by (simp add: direct_blk_def)
  qed
  moreover have "free_blocks b m1 = {1..1024}"
  proof -
    have "(zone (inode_pos b 1) 8 \<union> zone (ent_pos b 0) 16) \<inter> bits b = {}" by (auto simp: place_defs ent_pos_def)
    then show ?thesis using free_blocks_frame [OF b(2) m1(6)] f(1) by simp
  qed
  moreover have "zone (inode_pos b 1) 8 \<union> zone (ent_pos b 0) 16 \<subseteq> disk b" by (auto simp: place_defs ent_pos_def)
  then have "eq_out (disk b) (mem s) m1" using eq_out_trans [OF f(2) eq_out_mono [OF m1(6)]] by blast
  ultimately show ?thesis
    using i(1) m1 disk_at_mem [OF d] sel by (intro exI [of _ s0] exI [of _ m1]) (simp add: s0_def)
qed


text \<open>A buffer of the caller: it is apart from the disk, the free memory of the store and the task structure.\<close>

definition user_buffer :: "'a fs_scheme \<Rightarrow> blk list \<Rightarrow> nat \<Rightarrow> addr \<Rightarrow> nat \<Rightarrow> bool" where
  "user_buffer s bs b q n \<longleftrightarrow> off_disk b q n \<and> clear_of_heap s bs (region q n) \<and>
     region q n \<inter> region (current_task s) 112 = {}"

lemma user_buffer_byte:
  assumes u: "user_buffer s bs b q n" and i: "i < n" and e: "eq_out (disk b) (mem s) m1" "eq_out (slack (unat (store_global_head s)) bs \<union> A) m1 m2"
    and a: "A \<subseteq> region (current_task s) 112"
  shows "m2 (q + of_nat i) = mem s (q + of_nat i)"
proof -
  have "unat (q + of_nat i) = unat q + i" using u i by (simp add: user_buffer_def off_disk_def)
  then have "q + of_nat i \<in> region q n" using i by (simp add: region_def)
  moreover have "region q n \<inter> disk b = {}" using u by (fastforce simp: user_buffer_def off_disk_def region_def zone_def)
  ultimately have "q + of_nat i \<notin> disk b" "q + of_nat i \<notin> slack (unat (store_global_head s)) bs \<union> A"
    using u a by (auto simp: user_buffer_def)
  then show ?thesis using e by (simp add: eq_out_def)
qed

lemma fresh_file_opened:
  assumes b: "0 < b" "b + 0x200000 \<le> two32" and p: "path_ok s b p name"
    and rep: "heap_rep s bs" and fit: "\<exists>x \<in> set bs. fits (20 + 16 + (length name + 17)) x"
    and task: "off_disk b (current_task s) 112" "ld32 (mem s) (current_task s + 40) = 0"
    and clear: "clear_of_heap s bs (disk b)" "clear_of_heap s bs (region p (length name + 2))"
      "clear_of_heap s bs (region (current_task s) 112)"
  shows "\<exists>s0 s1 m1 s2 fo. init_rdisk (of_nat b) s = Some s0 \<and> rd_create p s0 = Some (0, s1) \<and> rd_open p s1 = Some (0, s2) \<and>
     opened s2 b 0 fo 1 \<and> seek_head (mem s2) fo = 0 \<and> region fo 20 \<subseteq> slack (unat (store_global_head s)) bs \<and>
     file_size (mem s2) b 1 = 0 \<and> (\<forall>v < 8. direct_blk (mem s2) b 1 v = 0) \<and> free_blocks b (mem s2) = {1..1024} \<and>
     eq_out (disk b) (mem s) m1 \<and>
     eq_out (slack (unat (store_global_head s)) bs \<union> region (current_task s + of_nat 40) 4) m1 (mem s2)"
proof -
  let ?S = "slack (unat (store_global_head s)) bs" and ?c = "current_task s + of_nat 40"
  obtain s0 m1 where c: "init_rdisk (of_nat b) s = Some s0" "rd_create p s0 = Some (0, s0\<lparr>mem := m1\<rparr>)"
    "disk_at (s0\<lparr>mem := m1\<rparr>) b" "root_dir m1 b ((replicate 16 None)[0 := Some (name, 1)])" "path_ok (s0\<lparr>mem := m1\<rparr>) b p name"
    "ld32 m1 (inode b 1 + of_nat 0) = INODE_REG" "file_size m1 b 1 = 0" "\<forall>v < 8. direct_blk m1 b 1 v = 0"
    "free_blocks b m1 = {1..1024}" "eq_out (disk b) (mem s) m1"
    and sel: "current_task s0 = current_task s" "store_global_head s0 = store_global_head s"
    using fresh_file [OF b p] by blast
  let ?s1 = "s0\<lparr>mem := m1\<rparr>"
  have rep1: "heap_rep ?s1 bs" using heap_rep_safe [OF rep, of "disk b" ?s1] c(10) clear(1) sel by simp
  have z: "ld32 m1 ?c = 0" using off_disk_word [OF c(10) subset_refl task(1), of 40] task(2) by simp
  have look: "lookup_dir m1 b ((replicate 16 None)[0 := Some (name, 1)]) name = inode b 1"
    using c(6) by (simp add: lookup_dir_def numeral_eq_Suc)
  obtain fo m where o: "rd_open p ?s1 = Some (0, ?s1\<lparr>mem := m\<rparr>)" "opened (?s1\<lparr>mem := m\<rparr>) b 0 fo 1" "seek_head m fo = 0"
    "region fo 20 \<subseteq> ?S" "eq_out (?S \<union> region ?c 4) m1 m"
    using rd_open_opens [OF c(3) _ c(5), of "(replicate 16 None)[0 := Some (name, 1)]" 1 bs 0] c(4,6) look rep1 fit task(1) z clear sel by auto
  have "unat ?c = unat (current_task s) + 40" using task(1) by (simp add: off_disk_def)
  then have "region ?c 4 \<inter> disk b = {}" using task(1) by (fastforce simp: off_disk_def region_def zone_def)
  then have dis: "(?S \<union> region ?c 4) \<inter> disk b = {}" using clear(1) by blast
  have "zone (inode_pos b 1 + i) 4 \<inter> (?S \<union> region ?c 4) = {}" if "i \<le> 60" for i
  proof -
    have "zone (inode_pos b 1 + i) 4 \<subseteq> disk b" using that by (auto simp: place_defs)
    then show ?thesis using dis by blast
  qed
  then have w: "ld32 m (inode b 1 + of_nat i) = ld32 m1 (inode b 1 + of_nat i)" if "i \<le> 60" for i
    using inode_word [OF o(5) b(2), of 1 i] that by simp
  have "bits b \<subseteq> disk b" by (auto simp: place_defs)
  then have "free_blocks b m = {1..1024}" using free_blocks_frame [OF b(2) o(5)] dis c(9) by blast
  moreover have "file_size m b 1 = 0" using c(7) w [of 4] by (simp add: file_size_def)
  moreover have "\<forall>v < 8. direct_blk m b 1 v = 0" using c(8) w [of "16 + 4 * _"] by (simp add: direct_blk_def)
  ultimately show ?thesis using c(1,2,10) o
    by (intro exI [of _ s0] exI [of _ ?s1] exI [of _ m1] exI [of _ "?s1\<lparr>mem := m\<rparr>"] exI [of _ fo]) simp
qed

text \<open>
  C7: on a new disk, a file that is created, opened and written gives the same bytes back: \<open>init_rdisk\<close>,
  \<open>rd_create\<close>, \<open>rd_open\<close>, \<open>rd_write\<close>, \<open>rd_lseek\<close> and \<open>rd_read\<close> all succeed in this order, the descriptor is 0, and
  up to 2048 bytes arrive unchanged in the second buffer, whatever was in the memory of the disk before.
\<close>

theorem fresh_file_roundtrip:
  assumes b: "0 < b" "b + 0x200000 \<le> two32" and p: "path_ok s b p name"
    and rep: "heap_rep s bs" and fit: "\<exists>x \<in> set bs. fits (20 + 16 + (length name + 17)) x"
    and task: "off_disk b (current_task s) 112" "ld32 (mem s) (current_task s + 40) = 0"
    and clear: "clear_of_heap s bs (disk b)" "clear_of_heap s bs (region p (length name + 2))"
      "clear_of_heap s bs (region (current_task s) 112)"
    and n: "0 < n" "n \<le> 2048" and bufs: "user_buffer s bs b wbuf n" "user_buffer s bs b rbuf n"
  shows "\<exists>s0 s1 s2 s3 s4 s5. init_rdisk (of_nat b) s = Some s0 \<and> rd_create p s0 = Some (0, s1) \<and>
     rd_open p s1 = Some (0, s2) \<and> rd_write 0 wbuf (of_nat n) s2 = Some (0, s3) \<and> rd_lseek 0 0 0 s3 = Some (0, s4) \<and>
     rd_read 0 rbuf (of_nat n) s4 = Some (0, s5) \<and> (\<forall>i < n. mem s5 (rbuf + of_nat i) = mem s (wbuf + of_nat i))"
proof -
  obtain s0 s1 m1 s2 fo where r: "init_rdisk (of_nat b) s = Some s0" "rd_create p s0 = Some (0, s1)" "rd_open p s1 = Some (0, s2)"
    and o: "opened s2 b 0 fo 1" "seek_head (mem s2) fo = 0" "region fo 20 \<subseteq> slack (unat (store_global_head s)) bs"
      "file_size (mem s2) b 1 = 0" "\<forall>v < 8. direct_blk (mem s2) b 1 v = 0" "free_blocks b (mem s2) = {1..1024}"
    and e: "eq_out (disk b) (mem s) m1"
      "eq_out (slack (unat (store_global_head s)) bs \<union> region (current_task s + of_nat 40) 4) m1 (mem s2)"
    using fresh_file_opened [OF b p rep fit task clear] by blast
  have "away rbuf n fo 20"
    by (rule away_disjoint) (use bufs(2) o(1,3) n(1) in \<open>auto simp: user_buffer_def off_disk_def opened_def\<close>)
  moreover have "(n - 1) div 256 < card (free_blocks b (mem s2))" using n o(6) by simp
  ultimately obtain s3 s4 s5 where w: "rd_write 0 wbuf (of_nat n) s2 = Some (0, s3)" "rd_lseek 0 0 0 s3 = Some (0, s4)"
    "rd_read 0 rbuf (of_nat n) s4 = Some (0, s5)" "\<forall>i < n. mem s5 (rbuf + of_nat i) = mem s2 (wbuf + of_nat i)"
    using write_seek_read [OF o(1,2,4,5) n, of wbuf rbuf] bufs by (auto simp: user_buffer_def)
  have "unat (current_task s + of_nat 40) = unat (current_task s) + 40" using task(1) by (simp add: off_disk_def)
  then have "region (current_task s + of_nat 40) 4 \<subseteq> region (current_task s) 112" by (auto simp: region_def)
  then have "mem s2 (wbuf + of_nat i) = mem s (wbuf + of_nat i)" if "i < n" for i
    using user_buffer_byte [OF bufs(1) that e] by blast
  then show ?thesis using r w by (intro exI conjI) auto
qed


text \<open>A store of 80 free bytes, the path \<open>/ab\<close> and three bytes to write.\<close>

definition demo_new :: fs where
  "demo_new = demo_fs (st32 (st32 (st32 (st32 (st32 (\<lambda>_. 0) 0x1008 80) 0x100C 1) 0x90000 0x2F) 0x92000 0x62612F) 0x93000 0x1E140A)
     \<lparr>store_global_head := 0x1000, mem_store_base := 0x1000, mem_store_end := 0x1060, mem_store_size := 96\<rparr>"

lemma demo_new_sel:
  "store_global_head demo_new = 0x1000" "mem_store_base demo_new = 0x1000" "mem_store_end demo_new = 0x1060"
  "mem_store_size demo_new = 96" "current_task demo_new = 0x80000" "lit_delim demo_new = 0x90000"
  by (simp_all add: demo_new_def)

lemma demo_new_rep: "heap_rep demo_new [(80, True)]"
  by (simp add: heap_rep_def demo_new_sel) (simp add: demo_new_def ld32_st32_apart apart_def)

lemma demo_new_path: "path_ok demo_new 0x100000 0x92000 [97, 98]"
  by (simp add: path_ok_def off_disk_def away_def demo_new_sel) (simp add: demo_new_def st32_def)

lemma demo_new_task: "ld32 (mem demo_new) 0x80028 = 0"
  by (simp add: demo_new_def ld32_st32_apart apart_def)

lemma demo_new_bytes: "mem demo_new 0x93000 = 10" "mem demo_new 0x93001 = 20" "mem demo_new 0x93002 = 30"
  by (simp_all add: demo_new_def st32_def)

lemma demo_new_clear:
  assumes "0x1061 \<le> unat q" and "unat q + n \<le> two32"
  shows "clear_of_heap demo_new [(80, True)] (region q n)"
  using assms by (auto simp: demo_new_sel slack_def region_def zone_def)

theorem fresh_file_roundtrip_witness:
  "\<exists>s0 s1 s2 s3 s4 s5. init_rdisk 0x100000 demo_new = Some s0 \<and> rd_create 0x92000 s0 = Some (0, s1) \<and>
     rd_open 0x92000 s1 = Some (0, s2) \<and> rd_write 0 0x93000 3 s2 = Some (0, s3) \<and> rd_lseek 0 0 0 s3 = Some (0, s4) \<and>
     rd_read 0 0x94000 3 s4 = Some (0, s5) \<and> mem s5 0x94000 = 10 \<and> mem s5 0x94001 = 20 \<and> mem s5 0x94002 = 30"
proof -
  have d: "clear_of_heap demo_new [(80, True)] (disk 0x100000)" by (auto simp: demo_new_sel slack_def zone_def)
  have u: "user_buffer demo_new [(80, True)] 0x100000 q 3" if "q = 0x93000 \<or> q = 0x94000" for q
    using that demo_new_clear [of q 3] by (auto simp: user_buffer_def off_disk_def demo_new_sel region_def)
  obtain s0 s1 s2 s3 s4 s5 where r: "init_rdisk 0x100000 demo_new = Some s0" "rd_create 0x92000 s0 = Some (0, s1)"
    "rd_open 0x92000 s1 = Some (0, s2)" "rd_write 0 0x93000 3 s2 = Some (0, s3)" "rd_lseek 0 0 0 s3 = Some (0, s4)"
    "rd_read 0 0x94000 3 s4 = Some (0, s5)" and e: "\<forall>i < 3. mem s5 (0x94000 + of_nat i) = mem demo_new (0x93000 + of_nat i)"
    using fresh_file_roundtrip [OF _ _ demo_new_path demo_new_rep _ _ _ d, of 3 "0x93000" "0x94000"] u demo_new_task
      demo_new_clear [of "0x92000" "Suc (Suc (Suc (Suc 0)))"] demo_new_clear [of "0x80000" 112]
    by (auto simp: demo_new_sel off_disk_def fits_def)
  show ?thesis using r e [rule_format, of 0] e [rule_format, of 1] e [rule_format, of 2]
    by (intro exI conjI) (auto simp: demo_new_bytes)
qed

end
