(* ===== verification/Ramdisk_Dirs.thy ===== *)
theory Ramdisk_Dirs
  imports Ramdisk_Open
begin

text \<open>
  Removing files, making directories, listing the root directory and closing descriptors. The directory is the
  list of slots of Ramdisk_Paths: \<open>rd_unlink\<close> empties a slot and \<open>rd_mkdir\<close> fills one, and the free blocks change the
  way the (wrong) index computation of \<open>dealloc_block\<close> makes them change.
\<close>

section \<open>Freeing the blocks of a file\<close>

text \<open>Freeing block \<open>i\<close> takes the mark of block \<open>64 * i\<close>, if there is one.\<close>

lemma dealloc_free:
  assumes d: "disk_at s b" and i: "i \<le> 1024"
  shows "\<exists>m'. dealloc_block (blk b i) s = Some (s\<lparr>mem := m'\<rparr>) \<and> eq_out (bits b) (mem s) m' \<and>
     free_blocks b m' = free_blocks b (mem s) \<union> ({64 * i} \<inter> {..1024})"
proof (cases "i \<le> 16")
  case True
  let ?bm = "of_nat (b + 0x24000) :: addr"
  let ?m = "set_mark (mem s) ?bm (64 * i) False"
  have bm: "unat ?bm + 257 \<le> two32" "unat ?bm = b + 0x24000" using disk_fit [OF d] by (auto simp del: of_nat_add)
  have "eq_out (bits b) (mem s) ?m"
    using set_mark_frame [OF bm(1), of "64 * i" "mem s" False] True bm(2) by (simp add: bits_def zone_def region_def)
  moreover have "free_blocks b ?m = free_blocks b (mem s) \<union> ({64 * i} \<inter> {..1024})"
    using set_mark_marked [OF bm(1), of "64 * i"] True by (auto simp: free_blocks_def simp del: of_nat_add of_nat_mult split: if_splits)
  ultimately show ?thesis using dealloc_disk [OF d i] True by (intro exI [of _ ?m]) simp
next
  case False
  then show ?thesis using dealloc_disk [OF d i] by (intro exI [of _ "mem s"]) auto
qed

lemma unlink_inner_direct:
  assumes d: "disk_at s b" and k: "k < 2048" and n: "n \<le> 8" and v: "v < n"
    and g: "\<forall>u < n. direct_blk (mem s) b k u = blk b (g u) \<and> g u \<le> 1024"
  shows "\<exists>m'. unlink_inner (inode b k) (of_nat n) sp 0 (of_nat v) s = Some (0, of_nat n, s\<lparr>mem := m'\<rparr>) \<and>
     eq_out (bits b) (mem s) m' \<and>
     free_blocks b m' = free_blocks b (mem s) \<union> ((\<lambda>u. 64 * g u) ` {v..<n} \<inter> {..1024})"
  using d v g
proof (induction "n - v" arbitrary: v s)
  case (Suc x)
  note fit = disk_fit [OF Suc.prems(1)]
  have nz: "inode b k \<noteq> 0" using inode_nonnull k fit by blast
  have r: "rd32 (mem s) (inode b k) (16 + 4 * of_nat v) = Some (blk b (g v))" and gv: "g v \<le> 1024"
    using Suc.prems(2,3) nz by (auto simp: direct_blk_def)
  obtain m1 where m1: "dealloc_block (blk b (g v)) s = Some (s\<lparr>mem := m1\<rparr>)" "eq_out (bits b) (mem s) m1"
    "free_blocks b m1 = free_blocks b (mem s) \<union> ({64 * g v} \<inter> {..1024})"
    using dealloc_free [OF Suc.prems(1) gv] by blast
  have small: "(of_nat v :: u32) < 8" "\<not> (of_nat v :: u32) > 8" "(of_nat v + 1 = (of_nat n :: u32)) = (Suc v = n)"
    using Suc.prems(2) n of_nat_less_fit [of v 8] of_nat_less_fit [of 8 v] of_nat_inj_fit [of "Suc v" n] by (auto simp: add.commute)
  have lt: "(0 :: u32) < 64" by simp
  show ?case
  proof (cases "Suc v = n")
    case True
    have "unlink_inner (inode b k) (of_nat n) sp 0 (of_nat v) s = Some (0, of_nat n, s\<lparr>mem := m1\<rparr>)"
      using r m1(1) small True by (subst unlink_inner.simps) (simp add: UFS_NUM_DIRECT_PTRS_def)
    moreover have "{v..<n} = {v}" using True by auto
    ultimately show ?thesis using m1 by auto
  next
    case False
    have w: "direct_blk m1 b k u = direct_blk (mem s) b k u" if "u < n" for u
      unfolding direct_blk_def using that n k
      by (intro inode_word [OF m1(2)]) (use fit in \<open>auto simp: place_defs\<close>)
    moreover have "x = n - Suc v" using Suc.hyps(2) by simp
    ultimately obtain m' where m': "unlink_inner (inode b k) (of_nat n) sp 0 (of_nat (Suc v)) (s\<lparr>mem := m1\<rparr>) = Some (0, of_nat n, s\<lparr>mem := m'\<rparr>)"
      "eq_out (bits b) m1 m'" "free_blocks b m' = free_blocks b m1 \<union> ((\<lambda>u. 64 * g u) ` {Suc v..<n} \<inter> {..1024})"
      using Suc.hyps(1) [of "Suc v" "s\<lparr>mem := m1\<rparr>"] Suc.prems False disk_at_mem [OF Suc.prems(1)] by auto
    have "unlink_inner (inode b k) (of_nat n) sp 0 (of_nat v) s = Some (0, of_nat n, s\<lparr>mem := m'\<rparr>)"
      using r m1(1) m'(1) small lt False by (subst unlink_inner.simps) (simp add: UFS_NUM_DIRECT_PTRS_def add.commute)
    moreover have "{v..<n} = insert v {Suc v..<n}" using Suc.prems(2) by auto
    ultimately show ?thesis using m1(2,3) m'(2,3) eq_out_trans [OF m1(2) m'(2)] by (intro exI [of _ m']) auto
  qed
qed simp

text \<open>A file in the direct blocks: its size, its blocks \<open>g\<close> and no indirect block.\<close>

definition small_file :: "mem \<Rightarrow> nat \<Rightarrow> nat \<Rightarrow> nat \<Rightarrow> (nat \<Rightarrow> nat) \<Rightarrow> bool" where
  "small_file m b k sz g \<longleftrightarrow> sz \<le> 2048 \<and> file_size m b k = of_nat sz \<and>
     ld32 m (inode b k + of_nat 48) = 0 \<and> ld32 m (inode b k + of_nat 52) = 0 \<and>
     (\<forall>u < (sz + 255) div 256. direct_blk m b k u = blk b (g u) \<and> g u \<le> 1024)"

lemma blocks_for_size:
  assumes "sz \<le> 2048"
  shows "(if of_nat sz mod UFS_BLOCK_SIZE \<noteq> 0 then of_nat sz div UFS_BLOCK_SIZE + 1 else of_nat sz div UFS_BLOCK_SIZE) =
     (of_nat ((sz + 255) div 256) :: u32)"
proof -
  obtain q r where sz: "sz = 256 * q + r" "r < 256" using mult_div_mod_eq [of 256 sz] by (metis mod_less_divisor zero_less_numeral)
  have "(r + 255) div 256 = (if r = 0 then 0 else 1)" using sz(2) by (auto intro!: div_nat_eqI)
  moreover have "(sz + 255) div 256 = q + (r + 255) div 256" using div_mult_self4 [of 256 q "r + 255"] sz(1) by (simp add: add.assoc)
  ultimately have n: "(sz + 255) div 256 = (if r = 0 then q else q + 1)" by simp
  have m: "sz mod 256 = r" "sz div 256 = q" using sz by simp_all
  have "unat (of_nat sz mod 256 :: u32) = r" "unat (of_nat sz div 256 :: u32) = q"
    using assms m by (simp_all add: unat_mod unat_div)
  then have "(of_nat sz mod 256 :: u32) = of_nat r" "(of_nat sz div 256 :: u32) = of_nat q"
    using sz assms by (simp_all only: word_unat_eq_iff) simp_all
  moreover have "(of_nat r :: u32) = 0 \<longleftrightarrow> r = 0" using of_nat_inj_fit [of r 0] sz(2) by simp
  ultimately show ?thesis using n by (simp add: UFS_BLOCK_SIZE_def)
qed

lemma unlink_blocks_small:
  assumes d: "disk_at s b" and k: "k < 2048" and f: "small_file (mem s) b k sz g"
  shows "\<exists>m'. unlink_blocks (inode b k) s = Some (s\<lparr>mem := m'\<rparr>) \<and> eq_out (if sz = 0 then {} else bits b) (mem s) m' \<and>
     free_blocks b m' = free_blocks b (mem s) \<union> ((\<lambda>u. 64 * g u) ` {..<(sz + 255) div 256} \<inter> {..1024})"
proof -
  let ?n = "(sz + 255) div 256"
  note fit = disk_fit [OF d]
  have nz: "inode b k \<noteq> 0" using inode_nonnull k fit by blast
  have f': "sz \<le> 2048" "ld32 (mem s) (inode b k + 4) = of_nat sz" "ld32 (mem s) (inode b k + 48) = 0" "ld32 (mem s) (inode b k + 52) = 0"
    using f by (simp_all add: small_file_def file_size_def)
  have g: "\<forall>u < ?n. direct_blk (mem s) b k u = blk b (g u) \<and> g u \<le> 1024" "?n \<le> 8" using f by (auto simp: small_file_def)
  note num = blocks_for_size [OF f'(1)]
  show ?thesis
  proof (cases "?n = 0")
    case True
    then show ?thesis using nz f' num by (intro exI [of _ "mem s"]) (simp add: unlink_blocks_def)
  next
    case False
    then obtain m' where m': "unlink_inner (inode b k) (of_nat ?n) 0 0 0 s = Some (0, of_nat ?n, s\<lparr>mem := m'\<rparr>)"
      "eq_out (bits b) (mem s) m'" "free_blocks b m' = free_blocks b (mem s) \<union> ((\<lambda>u. 64 * g u) ` {..<?n} \<inter> {..1024})"
      using unlink_inner_direct [OF d k g(2) _ g(1), of 0 0] by (auto simp: atLeast0LessThan)
    have "unlink_outer (inode b k) (of_nat ?n) 0 True 0 0 0 0 s = Some (s\<lparr>mem := m'\<rparr>)"
      using m'(1) by (subst unlink_outer.simps) simp
    moreover have "(of_nat ?n :: u32) \<noteq> 0" using False g(2) by (simp add: unat_eq_zero [symmetric])
    moreover have "sz \<noteq> 0" using False by (cases "sz = 0") simp_all
    ultimately show ?thesis using nz f' num m'(2,3) by (intro exI [of _ m']) (simp add: unlink_blocks_def)
  qed
qed

section \<open>Removing a file\<close>

text \<open>No descriptor of the current task refers to inode \<open>k\<close>; task and file objects are not on the disk.\<close>

definition not_open :: "'a fs_scheme \<Rightarrow> nat \<Rightarrow> nat \<Rightarrow> bool" where
  "not_open s b k \<longleftrightarrow> off_disk b (current_task s) 112 \<and>
     (\<forall>i < 16. (let f = ld32 (mem s) (current_task s + of_nat (40 + 4 * i)) in
        f = 0 \<or> off_disk b f 20 \<and> ld32 (mem s) (f + of_nat 16) \<noteq> inode b k))"

lemma not_open_frame:
  assumes "not_open s b k" and "eq_out A (mem s) m'" and "A \<subseteq> disk b"
  shows "not_open (s\<lparr>mem := m'\<rparr>) b k"
proof -
  have "ld32 m' (current_task s + of_nat (40 + 4 * i)) = ld32 (mem s) (current_task s + of_nat (40 + 4 * i))" if "i < 16" for i
    by (rule off_disk_word [OF assms(2,3)]) (use assms(1) that in \<open>auto simp: not_open_def\<close>)
  moreover have "ld32 m' (f + of_nat 16) = ld32 (mem s) (f + of_nat 16)" if "off_disk b f 20" for f
    by (rule off_disk_word [OF assms(2,3) that]) simp
  ultimately show ?thesis using assms(1) unfolding not_open_def Let_def by fastforce
qed

lemma is_open_no:
  assumes "t \<noteq> 0" and "\<forall>j. i \<le> j \<longrightarrow> j < i + n \<longrightarrow>
    (let f = ld32 m (t + of_nat (40 + 4 * j)) in f = 0 \<or> ld32 m (f + of_nat 16) \<noteq> ino)"
  shows "is_open m t ino i n = Some False"
  using assms(2)
proof (induction n arbitrary: i)
  case (Suc n)
  have e: "t + (40 + of_nat (4 * i)) = t + of_nat (40 + 4 * i)" by simp
  have "is_open m t ino (i + 1) n = Some False" using Suc.prems by (intro Suc.IH) auto
  moreover have "let f = ld32 m (t + of_nat (40 + 4 * i)) in f = 0 \<or> ld32 m (f + of_nat 16) \<noteq> ino" using Suc.prems by simp
  ultimately show ?case using assms(1) unfolding e [symmetric] by (auto simp: Let_def)
qed simp

lemma byte_distance: "k < 1024 \<Longrightarrow> ucast (ucast (of_nat (64 * k) :: u32) :: u16) div 64 = (of_nat k :: u32)"
proof -
  assume k: "k < 1024"
  have "ucast (ucast (of_nat (64 * k) :: u32) :: u16) = (of_nat (64 * k) :: u32)"
    using k by (simp add: unsigned_of_nat take_bit_nat_eq_self del: of_nat_mult)
  then show ?thesis using k by (simp add: word_unat_eq_iff unat_div del: of_nat_mult)
qed

lemma clear_dirent_first:
  assumes r: "root_dir m b ds" and fit: "0 < b \<and> b + 0x200000 \<le> two32" and k: "0 < k" "k < 1024"
    and j: "j < 16" "ds ! j = Some (x, k)" "\<forall>i < j. \<forall>y l. ds ! i = Some (y, l) \<longrightarrow> l \<noteq> k" and "i \<le> j"
  shows "clear_dirent m (inode b 0) (of_nat (64 * k)) i (16 - i) = Some (\<lambda>a. if a \<in> zone (ent_pos b j) 16 then 0 else m a)"
  using assms(8)
proof (induction "j - i" arbitrary: i)
  case 0
  then have i: "i = j" by simp
  have dist: "ucast (ucast (of_nat (64 * k) :: u32) :: u16) div 64 = (of_nat k :: u32)" by (rule byte_distance [OF k(2)])
  note u = unat_ent [OF conjunct2 [OF fit] j(1)]
  have "ld16 m (of_nat (b + 0x64000) + (of_nat (16 * j) + 14)) = of_nat k"
    unfolding ent_index(2) [OF fit] using used_entry(1) [OF r j(2,1)] by (simp add: dirent_at_def)
  moreover have "ld32 m (inode b 0 + 12) = of_nat (b + 0x64000)" "inode b 0 \<noteq> 0"
    using r inode_nonnull [of b 0] fit by (simp_all add: root_dir_def)
  moreover have "memset m (ent b j) 0 16 = Some (\<lambda>a. if a \<in> region (ent b j) 16 then 0 else m a)"
  proof -
    have "unat (ent b j) \<noteq> 0" using u(1) [of 0] by (simp add: ent_pos_def)
    then have "ent b j \<noteq> 0" by auto
    then show ?thesis using memset_eq [of "ent b j" 16 m 0] u [of 0] fit j(1) by (simp add: ent_pos_def)
  qed
  moreover have "region (ent b j) 16 = zone (ent_pos b j) 16" using u [of 0] by (simp add: region_def zone_def)
  moreover have "16 - i = Suc (15 - i)" using i j by simp
  moreover have "ucast (of_nat k :: u16) = (of_nat k :: u32)" by (rule ucast_small) (use k in simp)
  ultimately show ?case using i dist ent_index(1) [OF fit, of j] ent_index(3) [OF fit] by (simp del: of_nat_add of_nat_mult)
next
  case (Suc n)
  then have i: "i < j" "i < 16" using j by simp_all
  note fit2 = conjunct2 [OF fit]
  have dist: "ucast (ucast (of_nat (64 * k) :: u32) :: u16) div 64 = (of_nat k :: u32)" by (rule byte_distance [OF k(2)])
  have "\<exists>l. ld16 m (ent b i + 14) = of_nat l \<and> l < 2048 \<and> l \<noteq> k"
  proof (cases "ds ! i")
    case None
    have "ld16 m (ent b i + 14) = 0"
      using empty_entry [OF r None i(2), of 14] empty_entry [OF r None i(2), of 15] by (intro ld16_zero) (auto simp: add.assoc)
    then show ?thesis using k by (intro exI [of _ 0]) simp
  next
    case (Some e)
    then have "ld16 m (ent b i + 14) = of_nat (snd e)" "snd e < 2048" using used_entry(1) [OF r Some i(2)] by (auto simp: dirent_at_def)
    moreover have "snd e \<noteq> k" using j(3) i(1) Some by (metis prod.collapse)
    ultimately show ?thesis by blast
  qed
  then obtain l where l: "ld16 m (ent b i + 14) = of_nat l" "l < 2048" "l \<noteq> k" by blast
  have "ucast (of_nat l :: u16) = (of_nat l :: u32)" by (rule ucast_small [OF l(2)])
  moreover have "(of_nat l :: u32) \<noteq> of_nat k" using l k of_nat_inj_fit [of l k] by simp
  moreover have "clear_dirent m (inode b 0) (of_nat (64 * k)) (Suc i) (16 - Suc i) = Some (\<lambda>a. if a \<in> zone (ent_pos b j) 16 then 0 else m a)"
    using Suc i by (intro Suc.hyps(1)) auto
  moreover have "16 - i = Suc (16 - Suc i)" using i by simp
  moreover have "ld32 m (inode b 0 + 12) = of_nat (b + 0x64000)" "inode b 0 \<noteq> 0"
    using r inode_nonnull [of b 0] fit by (simp_all add: root_dir_def)
  ultimately show ?case using l(1) [folded ent_index(2) [OF fit]] dist ent_index(1) [OF fit, of i] ent_index(3) [OF fit] by (simp del: of_nat_add of_nat_mult)
qed

text \<open>What a removal leaves in memory: the marks changed, the slot and the inode zeroed.\<close>

lemma rd_unlink_file:
  assumes d: "disk_at s b" and r: "root_dir (mem s) b ds" and p: "path_ok s b p name"
    and j: "j < 16" "ds ! j = Some (x, k)" "prefix x name" "\<forall>i < j. \<not> stops name (ds ! i) \<and> (\<forall>y. ds ! i \<noteq> Some (y, k))"
    and k: "0 < k" "k < 1024" "ld32 (mem s) (inode b k) = INODE_REG" and no: "not_open s b k" and f: "small_file (mem s) b k sz g"
  shows "\<exists>m'. rd_unlink p s = Some (0, s\<lparr>mem := m'\<rparr>) \<and> root_dir m' b (ds[j := None]) \<and>
     (\<forall>a \<in> zone (inode_pos b k) 64 \<union> zone (ent_pos b j) 16. m' a = 0) \<and>
     free_blocks b m' = free_blocks b (mem s) \<union> ((\<lambda>u. 64 * g u) ` {..<(sz + 255) div 256} \<inter> {..1024}) \<and>
     eq_out ((if sz = 0 then {} else bits b) \<union> zone (inode_pos b k) 64 \<union> zone (ent_pos b j) 16) (mem s) m'"
proof -
  note fit = disk_fit [OF d] and fit2 = conjunct2 [OF disk_fit [OF d]]
  have k2: "k < 2048" using k by simp
  let ?I = "zone (inode_pos b k) 64" and ?E = "zone (ent_pos b j) 16" and ?B = "if sz = 0 then {} else bits b"
  have "lookup_dir (mem s) b ds name = inode b k"
    using lookup_at [of j ds name] j k(3) r by (simp add: root_dir_def)
  then have look: "get_file_inode p (root_blk s) s = Some (inode b k)" using get_file_inode_name [OF d r p] by simp
  have ia: "inode_array s = inode b 0" "fs_head_lock s = 1" using d by (simp_all add: disk_at_def inode_pos_def)
  have nz: "inode b k \<noteq> 0" "p \<noteq> 0" using inode_nonnull [OF fit2 k2] p cstr_nonnull by (auto simp: path_ok_def)
  have op: "is_open (mem s) (current_task s) (inode b k) 0 16 = Some False"
    by (rule is_open_no) (use no in \<open>auto simp: not_open_def off_disk_def Let_def\<close>)
  obtain m2 where m2: "unlink_blocks (inode b k) s = Some (s\<lparr>mem := m2\<rparr>)" "eq_out ?B (mem s) m2"
    "free_blocks b m2 = free_blocks b (mem s) \<union> ((\<lambda>u. 64 * g u) ` {..<(sz + 255) div 256} \<inter> {..1024})"
    using unlink_blocks_small [OF d k2 f] by blast
  have apart: "?B \<inter> zone (b + 0x64000) 256 = {}" "?B \<inter> zone (inode_pos b 0) 64 = {}" "?I \<inter> zone (b + 0x64000) 256 = {}"
    "?I \<inter> zone (inode_pos b 0) 64 = {}" "(?I \<union> ?E) \<inter> bits b = {}" "?E \<inter> ?I = {}"
    using k j(1) by (auto simp: place_defs ent_pos_def)
  have r2: "root_dir m2 b ds" by (rule root_dir_frame [OF r m2(2) apart(1,2) fit2])
  define m3 where "m3 = (\<lambda>a. if a \<in> ?E then 0 else m2 a)"
  define m5 where "m5 = (\<lambda>a. if a \<in> ?I then 0 else m3 a)"
  have dist: "inode b k - inode b 0 = of_nat (64 * k)" by (simp add: inode_pos_def)
  have cl: "clear_dirent m2 (inode b 0) (of_nat (64 * k)) 0 16 = Some m3"
    using clear_dirent_first [OF r2 fit k(1,2) j(1,2), of 0] j(4) by (auto simp: m3_def)
  have "region (inode b k) 64 = ?I" "unat (inode b k) + 64 \<le> two32"
    using unat_inode(1) [OF fit2 k2, of 0] fit k by (simp_all add: region_def zone_def inode_pos_def)
  then have ms: "memset m3 (inode b k) 0 64 = Some m5" using memset_eq [OF nz(1), of 64 m3 0] by (simp add: m5_def)
  have run: "rd_unlink p s = Some (0, s\<lparr>mem := m5\<rparr>)"
    using look parent_root [OF d p] op m2(1) cl ms nz k(3) ia dist
    by (simp add: rd_unlink_def NUM_MAX_FD_def UFS_MAX_FILE_IN_DIR_def lock_free unlock_fs_def kthread_mutex_unlock_def
        del: of_nat_add of_nat_mult)
  have e3: "eq_out ({} \<union> ?E) m2 m3" by (simp add: m3_def eq_out_def)
  have "slot_at m3 b j None" using unat_ent(2) [OF fit2 j(1)] by (simp add: slot_at_def m3_def zone_def)
  then have r3: "root_dir m3 b (ds[j := None])" by (intro root_dir_update [OF r2 e3 _ _ fit2 j(1)]) simp_all
  have e5: "eq_out ?I m3 m5" by (simp add: m5_def eq_out_def)
  have "root_dir m5 b (ds[j := None])" by (rule root_dir_frame [OF r3 e5 apart(3,4) fit2])
  moreover have "eq_out (?I \<union> ?E) m2 m5" using e3 e5 by (auto simp: eq_out_def)
  then have "free_blocks b m5 = free_blocks b m2" "eq_out (?B \<union> ?I \<union> ?E) (mem s) m5"
    using free_blocks_frame [OF fit2 _ apart(5)] m2(2) by (auto simp: eq_out_def)
  moreover have "\<forall>a \<in> ?I \<union> ?E. m5 a = 0" by (auto simp: m5_def m3_def)
  ultimately show ?thesis using run m2(3) by (intro exI [of _ m5]) simp
qed


lemma zone_word_zero:
  assumes "\<forall>a \<in> A. m a = 0" and "region p 4 \<subseteq> A" and "unat p + 4 \<le> two32"
  shows "ld32 m p = 0"
proof -
  have "p + of_nat i \<in> A" if "i < 4" for i using in_region_of_nat [of p 4 i] assms(2,3) that by auto
  from this [of 0] this [of 1] this [of 2] this [of 3] have "ld32 m p = ld32 (\<lambda>_. 0) p"
    using assms(1) by (intro ld32_cong) auto
  then show ?thesis by simp
qed

lemma slot_zone:
  assumes "a \<in> zone (ent_pos b j) 16"
  shows "\<exists>i < 16. a = ent b j + of_nat i"
proof -
  obtain i where i: "unat a = ent_pos b j + i" "i < 16" using assms by (auto simp: zone_def le_iff_add)
  moreover have "a = of_nat (unat a)" by simp
  ultimately have "a = of_nat (ent_pos b j + i)" by (simp only:)
  then show ?thesis using i(2) by auto
qed

text \<open>A created file that is removed at once leaves no trace.\<close>

lemma create_small:
  assumes d: "disk_at s b" and r: "root_dir (mem s) b ds" and l: "None \<in> set ds" and p: "path_ok s b p name"
    and k: "k < 2048" "\<forall>a \<in> zone (inode_pos b k) 64. mem s a = 0" "\<forall>j < k. ld32 (mem s) (inode b j) \<noteq> INODE_EMPTY"
    and no: "not_open s b k"
  shows "\<exists>m1. rd_create p s = Some (0, s\<lparr>mem := m1\<rparr>) \<and> root_dir m1 b (ds[free_slot ds := Some (name, k)]) \<and> 0 < k \<and>
     ld32 m1 (inode b k) = INODE_REG \<and> small_file m1 b k 0 (\<lambda>_. 0) \<and> path_ok (s\<lparr>mem := m1\<rparr>) b p name \<and>
     not_open (s\<lparr>mem := m1\<rparr>) b k \<and> eq_out (zone (inode_pos b k) 64 \<union> zone (ent_pos b (free_slot ds)) 16) (mem s) m1"
proof -
  note fit = conjunct2 [OF disk_fit [OF d]]
  let ?f = "free_slot ds" and ?I = "zone (inode_pos b k) 64" and ?E = "zone (ent_pos b (free_slot ds)) 16"
  have f: "?f < 16" using l r free_slot_less by (auto simp: root_dir_def)
  have z: "ld32 (mem s) (inode b k + of_nat i) = 0" if "i \<le> 60" for i
    by (rule zone_word_zero [OF k(2)]) (use unat_inode [OF fit k(1) that] that fit k in \<open>auto simp: zone_def inode_pos_def\<close>)
  obtain m1 where c: "rd_create p s = Some (0, s\<lparr>mem := m1\<rparr>)" "root_dir m1 b (ds[?f := Some (name, k)])"
    "ld32 m1 (inode b k) = INODE_REG" "file_size m1 b k = 0" "path_ok (s\<lparr>mem := m1\<rparr>) b p name"
    "eq_out (zone (inode_pos b k) 8 \<union> ?E) (mem s) m1"
    using rd_create_fills [OF d r l p k(1) _ k(3)] z [of 0] by auto
  have "k \<noteq> 0" using z [of 0] r by (cases "k = 0") (simp_all add: root_dir_def)
  moreover have w: "ld32 m1 (inode b k + of_nat i) = 0" if "8 \<le> i" "i \<le> 60" for i
  proof -
    have "zone (inode_pos b k + i) 4 \<inter> (zone (inode_pos b k) 8 \<union> ?E) = {}"
      using that k f(1) by (auto simp: zone_def inode_pos_def ent_pos_def)
    then show ?thesis using inode_word [OF c(6) fit k(1) that(2)] z [OF that(2)] by simp
  qed
  have "small_file m1 b k 0 (\<lambda>_. 0)" using c(4) w [of 48] w [of 52] by (simp add: small_file_def)
  moreover have "zone (inode_pos b k) 8 \<union> ?E \<subseteq> disk b" using k f(1) by (auto simp: zone_def inode_pos_def ent_pos_def)
  then have "not_open (s\<lparr>mem := m1\<rparr>) b k" by (rule not_open_frame [OF no c(6)])
  moreover have "eq_out (?I \<union> ?E) (mem s) m1" by (rule eq_out_mono [OF c(6)]) (auto simp: zone_def)
  ultimately show ?thesis using c(1-3,5) by blast
qed

lemma create_then_unlink:
  assumes d: "disk_at s b" and r: "root_dir (mem s) b ds" and l: "None \<in> set ds" and p: "path_ok s b p name"
    and k: "k < 1024" "\<forall>a \<in> zone (inode_pos b k) 64. mem s a = 0" "\<forall>j < k. ld32 (mem s) (inode b j) \<noteq> INODE_EMPTY"
    and new: "\<forall>i < free_slot ds. \<not> stops name (ds ! i) \<and> (\<forall>y. ds ! i \<noteq> Some (y, k))" and no: "not_open s b k"
  shows "\<exists>s1. rd_create p s = Some (0, s1) \<and> rd_unlink p s1 = Some (0, s)"
proof -
  let ?f = "free_slot ds" and ?I = "zone (inode_pos b k) 64" and ?E = "zone (ent_pos b (free_slot ds)) 16"
  have k2: "k < 2048" using k by simp
  have length: "length ds = 16" using r by (simp add: root_dir_def)
  then have f: "?f < 16" "ds ! ?f = None" using l free_slot_less free_slot_nth by auto
  obtain m1 where c: "rd_create p s = Some (0, s\<lparr>mem := m1\<rparr>)" "root_dir m1 b (ds[?f := Some (name, k)])" "0 < k"
    "ld32 m1 (inode b k) = INODE_REG" "small_file m1 b k 0 (\<lambda>_. 0)" "path_ok (s\<lparr>mem := m1\<rparr>) b p name"
    "not_open (s\<lparr>mem := m1\<rparr>) b k" "eq_out (?I \<union> ?E) (mem s) m1"
    using create_small [OF d r l p k2 k(2,3) no] by blast
  obtain m2 where u: "rd_unlink p (s\<lparr>mem := m1\<rparr>) = Some (0, s\<lparr>mem := m2\<rparr>)" "\<forall>a \<in> ?I \<union> ?E. m2 a = 0" "eq_out (?I \<union> ?E) m1 m2"
    using rd_unlink_file [OF disk_at_mem [OF d] _ c(6) f(1), where ds = "ds[?f := Some (name, k)]" and x = name and k = k
        and sz = 0 and g = "\<lambda>_. 0"] c(2-5,7) f length new k(1) by auto
  have "m2 a = mem s a" for a
  proof (cases "a \<in> ?I \<union> ?E")
    case True
    then show ?thesis using u(2) k(2) slot_zone [of a b ?f] empty_entry [OF r f(2,1)] by auto
  next
    case False
    then show ?thesis using u(3) c(8) by (auto simp: eq_out_def)
  qed
  then have "s\<lparr>mem := m2\<rparr> = s" by (simp add: ext [of m2 "mem s"])
  then show ?thesis using c(1) u(1) by auto
qed

section \<open>Making a directory\<close>

lemma rd_mkdir_fills:
  fixes s :: "'a fs_scheme"
  assumes d: "disk_at s b" and r: "root_dir (mem s) b ds" and l: "None \<in> set ds" and p: "path_ok s b p name"
    and k: "k < 2048" "ld32 (mem s) (inode b k) = INODE_EMPTY" "\<forall>j < k. ld32 (mem s) (inode b j) \<noteq> INODE_EMPTY"
    and f: "free_blocks b (mem s) \<noteq> {}"
  defines "i \<equiv> Min (free_blocks b (mem s))"
  shows "\<exists>m'. rd_mkdir p s = Some (0, s\<lparr>mem := m'\<rparr>) \<and> root_dir m' b (ds[free_slot ds := Some (name, k)]) \<and>
     ld32 m' (inode b k) = INODE_DIR \<and> file_size m' b k = 0 \<and> ld32 m' (inode b k + of_nat 12) = blk b i \<and>
     free_blocks b m' = free_blocks b (mem s) - {i} \<and> path_ok (s\<lparr>mem := m'\<rparr>) b p name \<and>
     eq_out (bits b \<union> zone (inode_pos b k) 16 \<union> zone (ent_pos b (free_slot ds)) 16) (mem s) m'"
proof -
  note fit = conjunct2 [OF disk_fit [OF d]]
  let ?m4 = "new_inode (mem s) b k INODE_DIR" and ?E = "zone (ent_pos b (free_slot ds)) 16" and ?C = "zone (inode_pos b k + 12) 4"
  have e: "free_slot ds < 16" using l r free_slot_less by (auto simp: root_dir_def)
  have k0: "k \<noteq> 0" using r k(2) by (cases "k = 0") (simp_all add: root_dir_def)
  note ni = new_inode_fields [OF fit k(1), of "mem s" INODE_DIR]
  have "zone (inode_pos b k) 8 \<inter> bits b = {}" using k by (auto simp: place_defs)
  then have f4: "free_blocks b ?m4 = free_blocks b (mem s)" by (rule free_blocks_frame [OF fit ni(3)])
  obtain ma where a: "alloc_block (s\<lparr>mem := ?m4\<rparr>) = Some (blk b i, s\<lparr>mem := ma\<rparr>)" "eq_out (bits b) ?m4 ma"
    "free_blocks b ma = free_blocks b (mem s) - {i}"
    using alloc_disk [OF disk_at_mem [OF d], of ?m4] f f4 by (auto simp: i_def)
  let ?m5 = "st32 ma (inode b k + of_nat 12) (blk b i)"
  note u = unat_inode [OF fit k(1), of 12]
  have e5: "eq_out ?C ma ?m5" by (rule eq_out_st32) (use u fit k(1) in \<open>auto simp: inode_pos_def\<close>)
  have e45: "eq_out (bits b \<union> ?C) ?m4 ?m5" by (rule eq_out_trans [OF eq_out_mono [OF a(2)] eq_out_mono [OF e5]]) auto
  have F: "bits b \<union> ?C \<subseteq> disk b" "(bits b \<union> ?C) \<inter> zone (b + 0x64000) 256 = {}" "(bits b \<union> ?C) \<inter> zone (inode_pos b 0) 64 = {}"
    using k(1) k0 by (auto simp: place_defs)
  define finish :: "addr \<Rightarrow> 'a fs_scheme \<Rightarrow> 'a fs_scheme option" where "finish = (\<lambda>dir_inode s. do {
     (b, s1) \<leftarrow> alloc_block s; m \<leftarrow> wr32 (mem s1) dir_inode i_dirblock b; Some (s1\<lparr>mem := m\<rparr>) })"
  have fin: "finish (inode b k) (s\<lparr>mem := ?m4\<rparr>) = Some (s\<lparr>mem := ?m5\<rparr>)"
    using a(1) inode_nonnull [OF fit k(1)] by (simp add: finish_def)
  obtain m' where c: "rd_mkdir p s = Some (0, s\<lparr>mem := m'\<rparr>)" "root_dir m' b (ds[free_slot ds := Some (name, k)])"
    "path_ok (s\<lparr>mem := m'\<rparr>) b p name" "eq_out ?E ?m5 m'" "eq_out (zone (inode_pos b k) 8 \<union> (bits b \<union> ?C) \<union> ?E) (mem s) m'"
    using new_entry_fills [OF d r l p k, of finish, OF fin e45 F] unfolding rd_mkdir_def finish_def by blast
  have kw: "ld32 m' (inode b k + of_nat x) = ld32 ?m5 (inode b k + of_nat x)" if "x \<le> 60" for x
    by (intro inode_word [OF c(4) fit k(1) that]) (use that k(1) e in \<open>auto simp: zone_def inode_pos_def ent_pos_def\<close>)
  have kx: "ld32 ?m5 (inode b k + of_nat x) = ld32 ?m4 (inode b k + of_nat x)" if "x \<le> 8" for x
    by (intro inode_word [OF e45 fit k(1)]) (use that k(1) in \<open>auto simp: place_defs\<close>)
  have "ld32 m' (inode b k) = INODE_DIR" "file_size m' b k = 0" "ld32 m' (inode b k + of_nat 12) = blk b i"
    using kw [of 0] kw [of 4] kw [of 12] kx [of 0] kx [of 4] ni(1,2) by (simp_all add: file_size_def)
  moreover have "(?C \<union> ?E) \<inter> bits b = {}" using k(1) by (auto simp: place_defs ent_pos_def)
  moreover have "eq_out (?C \<union> ?E) ma m'" by (rule eq_out_trans [OF eq_out_mono [OF e5] eq_out_mono [OF c(4)]]) auto
  ultimately have "free_blocks b m' = free_blocks b (mem s) - {i}" using free_blocks_frame [OF fit] a(3) by metis
  moreover have "eq_out (bits b \<union> zone (inode_pos b k) 16 \<union> ?E) (mem s) m'"
    by (rule eq_out_mono [OF c(5)]) (auto simp: zone_def)
  ultimately show ?thesis using c(1-3) kw [of 0] kw [of 4] kw [of 12] kx [of 0] kx [of 4] ni(1,2)
    by (intro exI [of _ m']) (simp add: file_size_def)
qed

section \<open>Listing the root directory\<close>

text \<open>Descriptor \<open>fd\<close> of the current task refers to the root directory through the file object \<open>fo\<close>.\<close>

definition dir_opened :: "'a fs_scheme \<Rightarrow> nat \<Rightarrow> nat \<Rightarrow> addr \<Rightarrow> bool" where
  "dir_opened s b fd fo \<longleftrightarrow> disk_at s b \<and> fd < 16 \<and> off_disk b (current_task s) 112 \<and> off_disk b fo 20 \<and>
     away fo 20 (current_task s) 112 \<and> ld32 (mem s) (current_task s + of_nat (40 + 4 * fd)) = fo \<and>
     ld32 (mem s) (fo + of_nat 16) = inode b 0"

definition clear_buffer :: "'a fs_scheme \<Rightarrow> nat \<Rightarrow> addr \<Rightarrow> addr \<Rightarrow> nat \<Rightarrow> bool" where
  "clear_buffer s b fo q n \<longleftrightarrow> off_disk b q n \<and> away q n fo 20 \<and> away q n (current_task s) 112"

lemma dir_opened_frame:
  assumes o: "dir_opened s b fd fo" and q: "clear_buffer s b fo q n" and e: "eq_out (region q n \<union> region (fo + of_nat 4) 4) (mem s) m'"
  shows "dir_opened (s\<lparr>mem := m'\<rparr>) b fd fo"
proof -
  have u: "unat (current_task s + of_nat (40 + 4 * fd)) = unat (current_task s) + (40 + 4 * fd)"
    "unat (fo + of_nat 16) = unat fo + 16" "unat (fo + of_nat 4) = unat fo + 4"
    using o unat_plus_of_nat [of "current_task s" "40 + 4 * fd"] by (auto simp: dir_opened_def off_disk_def simp del: of_nat_add of_nat_mult)
  have a: "away q n (current_task s) 112" "away q n fo 20" "away fo 20 (current_task s) 112" "fd < 16"
    "unat (current_task s) + 112 \<le> two32" "unat fo + 20 \<le> two32"
    using o q by (auto simp: dir_opened_def clear_buffer_def off_disk_def)
  have "region (current_task s + of_nat (40 + 4 * fd)) 4 \<inter> region q n = {}" "region (fo + of_nat 16) 4 \<inter> region q n = {}"
    using a(1,2,4) u by (auto simp: region_def away_def)
  moreover have "region (current_task s + of_nat (40 + 4 * fd)) 4 \<inter> region (fo + of_nat 4) 4 = {}"
    "region (fo + of_nat 16) 4 \<inter> region (fo + of_nat 4) 4 = {}"
    using a(3,4) u by (auto simp: region_def away_def)
  ultimately have "ld32 m' (current_task s + of_nat (40 + 4 * fd)) = ld32 (mem s) (current_task s + of_nat (40 + 4 * fd))"
    "ld32 m' (fo + of_nat 16) = ld32 (mem s) (fo + of_nat 16)"
    using a(4-6) u by (intro eq_out_ld32 [OF e], simp, blast)+
  then show ?thesis using o by (simp add: dir_opened_def disk_at_mem)
qed

lemma rd_readdir_step:
  assumes o: "dir_opened s b fd fo" and r: "root_dir (mem s) b ds" and pos: "ld32 (mem s) (fo + of_nat 4) = of_nat i" "i < 16"
    and q: "clear_buffer s b fo q 16"
  shows "\<exists>m'. rd_readdir (of_nat fd) q s = Some (if i = 15 then 1 else 0, s\<lparr>mem := m'\<rparr>) \<and>
     (\<forall>x < 16. m' (q + of_nat x) = mem s (ent b i + of_nat x)) \<and>
     ld32 m' (fo + of_nat 4) = of_nat (if i = 15 then 0 else i + 1) \<and>
     eq_out (region q 16 \<union> region (fo + of_nat 4) 4) (mem s) m'"
proof -
  have o': "disk_at s b" "fd < 16" "fo \<noteq> 0" "unat fo + 20 \<le> two32" "current_task s \<noteq> 0"
    "ld32 (mem s) (current_task s + of_nat (40 + 4 * fd)) = fo" "ld32 (mem s) (fo + of_nat 16) = inode b 0" "off_disk b fo 20"
    using o by (auto simp: dir_opened_def off_disk_def)
  have q': "q \<noteq> 0" "unat q + 16 \<le> two32" "away q 16 fo 20" using q by (auto simp: clear_buffer_def off_disk_def)
  note fit = disk_fit [OF o'(1)] and fit2 = conjunct2 [OF disk_fit [OF o'(1)]]
  have inz: "inode b 0 \<noteq> 0" using inode_nonnull [OF fit2] by simp
  have u: "unat (fo + of_nat 4) = unat fo + 4" using o'(4) by simp
  let ?m1 = "st32 (mem s) (fo + of_nat 4) (of_nat i + 1)"
  let ?m2 = "moved ?m1 q (ent b i) 16"
  let ?F = "region (fo + of_nat 4) 4"
  have e1: "eq_out ?F (mem s) ?m1" "eq_out ?F m (st32 m (fo + of_nat 4) v)" for m v
    by (rule eq_out_st32; use u o'(4) in simp)+
  have e2: "eq_out (region q 16) ?m1 ?m2" by (rule moved_frame) (use q' in simp)
  note ue = unat_ent [OF fit2 pos(2)]
  have enz: "ent b i \<noteq> 0" "unat (ent b i) + 16 \<le> two32" using ue [of 0] fit pos(2) by (auto simp: ent_pos_def)
  have cp: "memcpy ?m1 q (ent b i) 16 = Some ?m2" using memcpy_eq [OF q'(1) enz(1), of 16] q'(2) enz(2) by simp
  have posx: "(of_nat (b + 0x64000) :: addr) + 16 * of_nat i = ent b i" by (simp add: ent_pos_def)
  have "region (fo + of_nat 4) 4 \<inter> region q 16 = {}" using q'(3) u by (auto simp: region_def away_def)
  then have p2: "ld32 ?m2 (fo + of_nat 4) = of_nat i + 1" using eq_out_ld32 [OF e2, of "fo + of_nat 4"] u o'(4) by simp
  have copied: "?m2 (q + of_nat x) = mem s (ent b i + of_nat x)" if "x < 16" for x
  proof -
    have "ent b i + of_nat x \<notin> ?F"
      using ue(2) [of x] that u o'(8) pos(2) by (auto simp: region_def off_disk_def ent_pos_def)
    then show ?thesis using moved_nth [of q 16 x ?m1 "ent b i"] that q'(2) eq_outD [OF e1(1)] by simp
  qed
  have lit: "ld32 (mem s) (inode b 0) = INODE_DIR" "ld32 (mem s) (inode b 0 + 12) = of_nat (b + 0x64000)"
    using r by (simp_all add: root_dir_def)
  have n16: "(of_nat i :: u32) \<noteq> 16" "((of_nat i :: u32) + 1 = 16) = (i = 15)"
    using of_nat_inj_fit [of i 16] of_nat_inj_fit [of "i + 1" 16] pos(2) by auto
  have fd: "\<not> bad_fd (of_nat fd)" "fd_entry (of_nat fd) s = Some fo" using fd_ok [OF o'(2)] o'(5,6) by (simp_all add: fd_entry_def)
  note run = fd o'(3,7) inz lit pos(1) n16 cp p2 posx
  show ?thesis
  proof (cases "i = 15")
    case False
    have "rd_readdir (of_nat fd) q s = Some (0, s\<lparr>mem := ?m2\<rparr>)"
      using run False by (simp add: rd_readdir_def UFS_MAX_FILE_IN_DIR_def del: of_nat_add)
    moreover have "eq_out (region q 16 \<union> ?F) (mem s) ?m2" by (rule eq_out_trans [OF eq_out_mono [OF e1(1)] eq_out_mono [OF e2]]) auto
    ultimately show ?thesis using False copied p2 by (intro exI [of _ ?m2]) (simp add: add.commute)
  next
    case True
    let ?m3 = "st32 ?m2 (fo + of_nat 4) 0"
    have "rd_readdir (of_nat fd) q s = Some (1, s\<lparr>mem := ?m3\<rparr>)"
      using run True by (simp add: rd_readdir_def UFS_MAX_FILE_IN_DIR_def del: of_nat_add)
    moreover have "eq_out (region q 16 \<union> ?F) (mem s) ?m3"
      by (rule eq_out_trans [OF eq_out_mono [OF e1(1)] eq_out_trans [OF eq_out_mono [OF e2] eq_out_mono [OF e1(2)]]]) auto
    moreover have "?m3 (q + of_nat x) = mem s (ent b i + of_nat x)" if "x < 16" for x
    proof -
      have "q + of_nat x \<notin> ?F" using q'(2,3) u that by (auto simp: region_def away_def)
      then show ?thesis using eq_outD [OF e1(2)] copied [OF that] by simp
    qed
    ultimately show ?thesis using True by (intro exI [of _ ?m3]) simp
  qed
qed

text \<open>A client that lists the directory: \<open>n\<close> calls, each into the next sixteen bytes of its buffer.\<close>

fun list_dir :: "u32 \<Rightarrow> addr \<Rightarrow> nat \<Rightarrow> 'a fs_scheme \<Rightarrow> (u32 list \<times> 'a fs_scheme) option" where
  "list_dir fd q 0 s = Some ([], s)"
| "list_dir fd q (Suc n) s = do {
     (r, s1) \<leftarrow> rd_readdir fd q s;
     (rs, s2) \<leftarrow> list_dir fd (q + 16) n s1;
     Some (r # rs, s2) }"

text \<open>A write off the disk keeps the root directory, and the bytes of its slots.\<close>

lemma root_dir_off:
  assumes "root_dir m b ds" and "eq_out A m m'" and "A \<inter> disk b = {}" and "b + 0x200000 \<le> two32"
  shows "root_dir m' b ds"
proof -
  have "zone (b + 0x64000) 256 \<subseteq> disk b" "zone (inode_pos b 0) 64 \<subseteq> disk b" by (auto simp: zone_def inode_pos_def)
  then show ?thesis using assms(3) by (intro root_dir_frame [OF assms(1,2) _ _ assms(4)]) blast+
qed

lemma slot_byte_off:
  assumes "eq_out A m m'" and "A \<inter> disk b = {}" and "b + 0x200000 \<le> two32" and "16 * i + x < 256"
  shows "m' (ent b i + of_nat x) = m (ent b i + of_nat x)"
proof (rule eq_outD [OF assms(1)])
  have "ent b i + of_nat x = of_nat (b + 0x64000 + (16 * i + x))" by (simp add: ent_pos_def)
  then have "unat (ent b i + of_nat x) = b + 0x64000 + (16 * i + x)" using assms(3,4) by (simp del: of_nat_add of_nat_mult)
  then have "ent b i + of_nat x \<in> disk b" using assms(4) by (simp add: zone_def)
  with assms(2) show "ent b i + of_nat x \<notin> A" by blast
qed

lemma list_dir_from:
  assumes "dir_opened s b fd fo" and "root_dir (mem s) b ds" and "ld32 (mem s) (fo + of_nat 4) = of_nat i" and "i < 16"
    and "clear_buffer s b fo q (16 * (16 - i))"
  shows "\<exists>m'. list_dir (of_nat fd) q (16 - i) s = Some (replicate (15 - i) 0 @ [1], s\<lparr>mem := m'\<rparr>) \<and>
     (\<forall>x < 16 * (16 - i). m' (q + of_nat x) = mem s (ent b i + of_nat x)) \<and> ld32 m' (fo + of_nat 4) = 0 \<and>
     eq_out (region q (16 * (16 - i)) \<union> region (fo + of_nat 4) 4) (mem s) m'"
  using assms
proof (induction "15 - i" arbitrary: i q s)
  case 0
  then have i: "i = 15" by simp
  then obtain m' where "rd_readdir (of_nat fd) q s = Some (1, s\<lparr>mem := m'\<rparr>)" "\<forall>x < 16. m' (q + of_nat x) = mem s (ent b i + of_nat x)"
     "ld32 m' (fo + of_nat 4) = 0" "eq_out (region q 16 \<union> region (fo + of_nat 4) 4) (mem s) m'"
    using rd_readdir_step [OF 0(2-5), of q] 0(6) by auto
  then show ?case using i by (intro exI [of _ m']) (simp add: numeral_eq_Suc)
next
  case (Suc n)
  then have i: "i < 15" "16 - i = Suc (16 - Suc i)" "15 - i = Suc (15 - Suc i)" "n = 15 - Suc i" by simp_all
  let ?n = "16 * (16 - i)" and ?n1 = "16 * (16 - Suc i)" and ?F = "region (fo + of_nat 4) 4"
  have n: "?n = 16 + ?n1" using i by simp
  have qn: "unat q + ?n \<le> two32" "off_disk b q ?n" using Suc.prems(5) by (auto simp: clear_buffer_def off_disk_def)
  have u: "unat (q + 16) = unat q + 16" using unat_plus_of_nat [of q 16] qn(1) n i(1) by simp
  have q1: "clear_buffer s b fo q 16" using Suc.prems(5) n by (auto simp: clear_buffer_def off_disk_def away_def)
  obtain m1 where s1: "rd_readdir (of_nat fd) q s = Some (0, s\<lparr>mem := m1\<rparr>)" "\<forall>x < 16. m1 (q + of_nat x) = mem s (ent b i + of_nat x)"
     "ld32 m1 (fo + of_nat 4) = of_nat (Suc i)" "eq_out (region q 16 \<union> ?F) (mem s) m1"
    using rd_readdir_step [OF Suc.prems(1-4) q1] i by auto
  have o: "disk_at s b" "off_disk b fo 20" "unat (fo + of_nat 4) = unat fo + 4" using Suc.prems(1) by (auto simp: dir_opened_def off_disk_def)
  note fit = conjunct2 [OF disk_fit [OF o(1)]]
  have off: "(region q ?n \<union> ?F) \<inter> disk b = {}"
    using off_disk_region [OF qn(2)] off_disk_region [OF o(2)] o(3) by (auto simp: region_def)
  have zone1: "region q 16 \<union> ?F \<subseteq> region q ?n \<union> ?F" using n by (auto simp: region_def)
  have off1: "(region q 16 \<union> ?F) \<inter> disk b = {}" using off zone1 by blast
  have r1: "root_dir m1 b ds" by (rule root_dir_off [OF Suc.prems(2) s1(4) off1 fit])
  have q2: "clear_buffer s b fo (q + 16) ?n1"
    using Suc.prems(5) n u by (auto simp: clear_buffer_def off_disk_def away_def)
  obtain m2 where m2: "list_dir (of_nat fd) (q + 16) (16 - Suc i) (s\<lparr>mem := m1\<rparr>) = Some (replicate (15 - Suc i) 0 @ [1], s\<lparr>mem := m2\<rparr>)"
     "\<forall>x < ?n1. m2 (q + 16 + of_nat x) = m1 (ent b (Suc i) + of_nat x)" "ld32 m2 (fo + of_nat 4) = 0"
     "eq_out (region (q + 16) ?n1 \<union> ?F) m1 m2"
    using Suc.hyps(1) [OF i(4), of "s\<lparr>mem := m1\<rparr>" "q + 16"] dir_opened_frame [OF Suc.prems(1) q1 s1(4)] r1 s1(3) i(1) q2
    by (auto simp: clear_buffer_def)
  have run: "list_dir (of_nat fd) q (16 - i) s = Some (replicate (15 - i) 0 @ [1], s\<lparr>mem := m2\<rparr>)"
    unfolding i(2,3) using s1(1) m2(1) by simp
  have "m2 (q + of_nat x) = mem s (ent b i + of_nat x)" if x: "x < ?n" for x
  proof (cases "x < 16")
    case True
    have ux: "unat (q + of_nat x) = unat q + x" using qn(1) x by simp
    have "q + of_nat x \<notin> region (q + 16) ?n1 \<union> ?F"
      using ux u True o(3) q1 by (auto simp: region_def clear_buffer_def away_def)
    then show ?thesis using eq_outD [OF m2(4)] s1(2) True by simp
  next
    case False
    then obtain y where y: "x = 16 + y" "y < ?n1" using x n by (metis le_iff_add not_less nat_add_left_cancel_less)
    have e: "q + of_nat x = q + 16 + of_nat y" "ent b (Suc i) + of_nat y = ent b i + of_nat x"
      using y(1) by (simp_all add: ent_pos_def)
    have "m1 (ent b i + of_nat x) = mem s (ent b i + of_nat x)" by (rule slot_byte_off [OF s1(4) off1 fit]) (use x i in simp)
    moreover have "m2 (q + 16 + of_nat y) = m1 (ent b (Suc i) + of_nat y)" using m2(2) y(2) by blast
    ultimately show ?thesis unfolding e by (simp only:)
  qed
  moreover have "region (q + 16) ?n1 \<subseteq> region q ?n" using u n by (auto simp: region_def)
  then have "eq_out (region q ?n \<union> ?F) (mem s) m2"
    using zone1 by (intro eq_out_trans [OF eq_out_mono [OF s1(4)] eq_out_mono [OF m2(4)]]) blast+
  ultimately show ?case using run m2(3) by blast
qed

section \<open>Closing a descriptor\<close>

lemma release_region:
  assumes "heap_owns s rs" and "(p, k) \<in> set rs"
  shows "\<exists>s' rs'. kfree (of_nat p) s = Some s' \<and> heap_owns s' rs' \<and> set rs' = set rs - {(p, k)} \<and> untouched rs' (mem s) (mem s')"
proof -
  obtain rs1 rs2 where rs: "rs = rs1 @ (p, k) # rs2" using split_list [OF assms(2)] by blast
  have "(p, k) \<notin> set (rs1 @ rs2)"
    using kheap.owns_apart [OF assms(1)] unfolding rs by (auto simp: sorted_wrt_append)
  then have "set (rs1 @ rs2) = set rs - {(p, k)}" using rs by auto
  then show ?thesis using kheap.release_owns [of s rs1 p k rs2] assms(1) rs by metis
qed

lemma rd_close_frees:
  assumes own: "heap_owns s rs" and task: "(unat (current_task s), kt) \<in> set rs" "112 \<le> kt"
    and fd: "fd < 16" "ld32 (mem s) (current_task s + of_nat (40 + 4 * fd)) = fo"
    and obj: "(unat fo, ko) \<in> set rs" "20 \<le> ko" "fo \<noteq> current_task s"
    and path: "ld32 (mem s) (fo + of_nat 12) = pb" "(unat pb, kp) \<in> set rs" "pb \<noteq> fo" "pb \<noteq> current_task s"
  shows "\<exists>s' rs'. rd_close (of_nat fd) s = Some (0, s') \<and> heap_owns s' rs' \<and>
     set rs' = set rs - {(unat fo, ko), (unat pb, kp)} \<and> ld32 (mem s') (current_task s + of_nat (40 + 4 * fd)) = 0 \<and>
     mem_only s s' \<and> rd_close (of_nat fd) s' = Some (EBADF, s') \<and>
     (\<forall>(p, k) \<in> set rs'. \<forall>i < k. of_nat (p + i) \<notin> region (current_task s + of_nat (40 + 4 * fd)) 4 \<longrightarrow>
        mem s' (of_nat (p + i)) = mem s (of_nat (p + i)))"
proof -
  let ?t = "current_task s" and ?c = "current_task s + of_nat (40 + 4 * fd)"
  have nz: "fo \<noteq> 0" "?t \<noteq> 0" "unat ?t + kt < two32" using kheap.owns_range [OF own obj(1)] kheap.owns_range [OF own task(1)] by auto
  obtain s1 rs1 where s1: "kfree pb s = Some s1" "heap_owns s1 rs1" "set rs1 = set rs - {(unat pb, kp)}" "untouched rs1 (mem s) (mem s1)"
    using release_region [OF own path(2)] by auto
  have un: "unat fo \<noteq> unat pb" "unat ?t \<noteq> unat pb" "unat ?t \<noteq> unat fo" using obj(3) path(3,4) by (metis word_unat_eq_iff)+
  have in1: "(unat fo, ko) \<in> set rs1" "(unat ?t, kt) \<in> set rs1" unfolding s1(3) using obj(1) task(1) un by simp_all
  obtain s2 rs2 where s2: "kfree fo s1 = Some s2" "heap_owns s2 rs2" "set rs2 = set rs1 - {(unat fo, ko)}" "untouched rs2 (mem s1) (mem s2)"
    using release_region [OF s1(2) in1(1)] by auto
  have in2: "(unat ?t, kt) \<in> set rs2" unfolding s2(3) using in1(2) un by simp
  have mo: "mem_only s s1" "mem_only s1 s2" by (rule kfree_mem [OF s1(1)]) (rule kfree_mem [OF s2(1)])
  then obtain n1 n2 where m: "s1 = s\<lparr>mem := n1\<rparr>" "s2 = s1\<lparr>mem := n2\<rparr>" unfolding mem_only_def by blast
  have sel: "current_task s1 = ?t" "current_task s2 = ?t" unfolding m by simp_all
  let ?m = "st32 (mem s2) ?c 0"
  have uc: "unat ?c = unat ?t + (40 + 4 * fd)"
    using unat_plus_of_nat [of ?t "40 + 4 * fd"] nz(3) task(2) fd(1) by (simp del: of_nat_add of_nat_mult)
  have ec: "eq_out (region ?c 4) (mem s2) ?m" by (rule eq_out_st32) (use uc nz(3) task(2) fd(1) in simp_all)
  have "region ?c 4 \<subseteq> zone (unat ?t) kt" using uc task(2) fd(1) by (auto simp: region_def zone_def)
  then have "region ?c 4 \<subseteq> payload rs2" using zone_payload [OF in2 order_refl] by blast
  then have own': "heap_owns (s2\<lparr>mem := ?m\<rparr>) rs2" by (rule kheap.poke_owns [OF s2(2) eq_out_mono [OF ec]])
  have fd': "\<not> bad_fd (of_nat fd)" "fd_entry (of_nat fd) s = Some fo" "rd32 (mem s) fo 12 = Some pb"
    using fd_ok [OF fd(1)] fd(2) nz path(1) by (simp_all add: fd_entry_def)
  have run: "rd_close (of_nat fd) s = Some (0, s2\<lparr>mem := ?m\<rparr>)"
    using fd' nz s1(1) s2(1) sel by (simp add: rd_close_def)
  have "fd_entry (of_nat fd) (s2\<lparr>mem := ?m\<rparr>) = Some 0" using nz sel by (simp add: fd_entry_def)
  then have again: "rd_close (of_nat fd) (s2\<lparr>mem := ?m\<rparr>) = Some (EBADF, s2\<lparr>mem := ?m\<rparr>)" using fd'(1) by (simp add: rd_close_def)
  have "?m (of_nat (p + i)) = mem s (of_nat (p + i))" if "(p, k) \<in> set rs2" "i < k" "of_nat (p + i) \<notin> region ?c 4" for p k i
  proof -
    have "mem s1 (of_nat (p + i)) = mem s (of_nat (p + i))" "mem s2 (of_nat (p + i)) = mem s1 (of_nat (p + i))"
      using s1(4) s2(4) that s2(3) unfolding untouched_def by fastforce+
    then show ?thesis using eq_outD [OF ec that(3)] by simp
  qed
  then have "\<forall>(p, k) \<in> set rs2. \<forall>i < k. of_nat (p + i) \<notin> region ?c 4 \<longrightarrow> mem (s2\<lparr>mem := ?m\<rparr>) (of_nat (p + i)) = mem s (of_nat (p + i))"
    by auto
  moreover have "mem_only s (s2\<lparr>mem := ?m\<rparr>)" by (rule mem_only_store [OF mem_only_trans [OF mo]])
  moreover have "set rs2 = set rs - {(unat fo, ko), (unat pb, kp)}" using s1(3) s2(3) by auto
  ultimately show ?thesis using run own' again by (intro exI [of _ "s2\<lparr>mem := ?m\<rparr>"] exI [of _ rs2]) simp
qed

section \<open>Properties\<close>

text \<open>
  C11: \<open>rd_unlink\<close> of a regular file that is not open and fits the direct blocks: the file is the one in the first slot
  whose name is a prefix of the path; its slot becomes empty and its inode zero. No other byte changes but marks of the
  block bitmap: the blocks that become free are those with 64 times the numbers of the file's blocks. After it
  no path is found that the slots before the emptied one do not match, whatever the later slots hold.
\<close>

theorem rd_unlink_removes:
  assumes "disk_at s b" and "root_dir (mem s) b ds" and "path_ok s b p name"
    and "j < 16" and "ds ! j = Some (x, k)" and "prefix x name"
    and "\<forall>i < j. \<not> stops name (ds ! i) \<and> (\<forall>y. ds ! i \<noteq> Some (y, k))"
    and "0 < k" and "k < 1024" and "ld32 (mem s) (inode b k) = INODE_REG" and "not_open s b k" and "small_file (mem s) b k sz g"
  shows "\<exists>s'. rd_unlink p s = Some (0, s') \<and> s' = s\<lparr>mem := mem s'\<rparr> \<and> root_dir (mem s') b (ds[j := None]) \<and>
     (\<forall>a \<in> zone (inode_pos b k) 64. mem s' a = 0) \<and>
     free_blocks b (mem s') = free_blocks b (mem s) \<union> ((\<lambda>u. 64 * g u) ` {..<(sz + 255) div 256} \<inter> {..1024}) \<and>
     eq_out (bits b \<union> zone (inode_pos b k) 64 \<union> zone (ent_pos b j) 16) (mem s) (mem s') \<and>
     (\<forall>q qname. path_ok s' b q qname \<longrightarrow> (\<forall>i < j. \<not> stops qname (ds ! i)) \<longrightarrow>
        get_file_inode q (root_blk s') s' = Some 0)"
proof -
  obtain m' where m': "rd_unlink p s = Some (0, s\<lparr>mem := m'\<rparr>)" "root_dir m' b (ds[j := None])"
    "\<forall>a \<in> zone (inode_pos b k) 64 \<union> zone (ent_pos b j) 16. m' a = 0"
    "free_blocks b m' = free_blocks b (mem s) \<union> ((\<lambda>u. 64 * g u) ` {..<(sz + 255) div 256} \<inter> {..1024})"
    "eq_out ((if sz = 0 then {} else bits b) \<union> zone (inode_pos b k) 64 \<union> zone (ent_pos b j) 16) (mem s) m'"
    using rd_unlink_file [OF assms] by blast
  have "get_file_inode q (root_blk s) (s\<lparr>mem := m'\<rparr>) = Some 0"
    if "path_ok (s\<lparr>mem := m'\<rparr>) b q qname" "\<forall>i < j. \<not> stops qname (ds ! i)" for q qname
  proof -
    have "lookup_dir m' b (ds[j := None]) qname = 0"
      using lookup_at [of j "ds[j := None]" qname m' b] assms(2,4) that(2) by (simp add: root_dir_def)
    then show ?thesis
      using get_file_inode_name [of "s\<lparr>mem := m'\<rparr>" b "ds[j := None]" q qname] disk_at_mem [OF assms(1)] m'(2) that(1) by simp
  qed
  moreover have "eq_out (bits b \<union> zone (inode_pos b k) 64 \<union> zone (ent_pos b j) 16) (mem s) m'"
    by (rule eq_out_mono [OF m'(5)]) auto
  ultimately show ?thesis using m'(1-4) by (intro exI [of _ "s\<lparr>mem := m'\<rparr>"]) auto
qed

lemma demo_root_zero:
  assumes "0x104040 \<le> unat a" and "unat a < 0x110000"
  shows "demo_root a = 0"
  using assms by (simp add: demo_root_def st32_apart apart_def)

lemma demo_not_open: "not_open (demo_fs demo_root) 0x100000 1"
proof -
  have "ld32 demo_root (0x80000 + of_nat (40 + 4 * i)) = 0" if "i < 16" for i
  proof -
    have "unat (0x80000 + of_nat (40 + 4 * i) :: addr) = 0x80000 + (40 + 4 * i)"
      using unat_plus_of_nat [of "0x80000" "40 + 4 * i"] that by (simp del: of_nat_add of_nat_mult)
    then show ?thesis using that by (simp add: demo_root_def ld32_st32_apart apart_def del: of_nat_add of_nat_mult)
  qed
  then show ?thesis by (simp add: not_open_def off_disk_def del: of_nat_add of_nat_mult)
qed

lemma demo_created:
  "\<exists>m1. rd_create 0x92000 (demo_fs demo_root) = Some (0, demo_fs m1) \<and>
     root_dir m1 0x100000 ((replicate 16 None)[0 := Some ([97, 98], 1)]) \<and>
     ld32 m1 (inode 0x100000 1) = INODE_REG \<and> small_file m1 0x100000 1 0 (\<lambda>_. 0) \<and>
     path_ok (demo_fs m1) 0x100000 0x92000 [97, 98] \<and> not_open (demo_fs m1) 0x100000 1"
proof -
  have "\<forall>a \<in> zone (inode_pos 0x100000 1) 64. demo_root a = 0" using demo_root_zero by (auto simp: zone_def inode_pos_def)
  then show ?thesis
    using create_small [OF demo_fs_disk, of demo_root "replicate 16 None" "0x92000" "[97, 98]" 1]
      demo_root_dir demo_root_path demo_root_inode demo_not_open by (auto simp: free_slot_def)
qed

theorem rd_unlink_removes_witness:
  "\<exists>s1 s2. rd_create 0x92000 (demo_fs demo_root) = Some (0, s1) \<and> rd_unlink 0x92000 s1 = Some (0, s2) \<and>
     root_dir (mem s2) 0x100000 (replicate 16 None)"
proof -
  obtain m1 where m1: "rd_create 0x92000 (demo_fs demo_root) = Some (0, demo_fs m1)"
    "root_dir m1 0x100000 ((replicate 16 None)[0 := Some ([97, 98], 1)])" "ld32 m1 (inode 0x100000 1) = INODE_REG"
    "small_file m1 0x100000 1 0 (\<lambda>_. 0)" "path_ok (demo_fs m1) 0x100000 0x92000 [97, 98]" "not_open (demo_fs m1) 0x100000 1"
    using demo_created by blast
  have "(replicate 16 None)[0 := Some ([97, 98 :: u8], 1 :: nat), 0 := None] = replicate 16 None" by (simp add: numeral_eq_Suc)
  moreover obtain s2 where "rd_unlink 0x92000 (demo_fs m1) = Some (0, s2)"
    "root_dir (mem s2) 0x100000 ((replicate 16 None)[0 := Some ([97, 98], 1), 0 := None])"
    using rd_unlink_removes [OF demo_fs_disk _ m1(5), of "(replicate 16 None)[0 := Some ([97, 98], 1)]" 0 "[97, 98]" 1 0 "\<lambda>_. 0"] m1
    by auto
  ultimately show ?thesis using m1(1) by auto
qed

text \<open>
  C12: creating a file and removing it again restores the state exactly: when the name is not hidden by an earlier slot and
  the first free inode is below 1024 and zero, \<open>rd_unlink\<close> after \<open>rd_create\<close> of the same path gives back every byte of
  memory and every variable.
\<close>

theorem create_unlink_roundtrip:
  assumes "disk_at s b" and "root_dir (mem s) b ds" and "None \<in> set ds" and "path_ok s b p name"
    and "k < 1024" and "\<forall>a \<in> zone (inode_pos b k) 64. mem s a = 0" and "\<forall>j < k. ld32 (mem s) (inode b j) \<noteq> INODE_EMPTY"
    and "\<forall>i < free_slot ds. \<not> stops name (ds ! i) \<and> (\<forall>y. ds ! i \<noteq> Some (y, k))" and "not_open s b k"
  shows "\<exists>s1. rd_create p s = Some (0, s1) \<and> rd_unlink p s1 = Some (0, s)"
  using create_then_unlink [OF assms] .

theorem create_unlink_roundtrip_witness:
  "\<exists>s1. rd_create 0x92000 (demo_fs demo_root) = Some (0, s1) \<and> rd_unlink 0x92000 s1 = Some (0, demo_fs demo_root)"
proof (rule create_unlink_roundtrip [OF demo_fs_disk, of demo_root "replicate 16 None" "0x92000" "[97, 98]" 1])
  show "\<forall>a \<in> zone (inode_pos 0x100000 1) 64. mem (demo_fs demo_root) a = 0"
    using demo_root_zero by (auto simp: zone_def inode_pos_def)
qed (use demo_root_dir demo_root_path demo_root_inode demo_not_open in \<open>auto simp: free_slot_def\<close>)

text \<open>
  C17: \<open>rd_mkdir\<close> fills the first empty slot of the root directory with the name and the first empty inode, which becomes a
  directory whose block is the lowest free one; that block is taken, and only the bitmap, the inode and the slot change.
  This holds also when the directory has the name already: it then has two entries with it, and the result is 0 (DiskOS.txt
  asks for -1). With all slots in use it returns EBOUNDS and changes nothing. The new directory is then not found by its own path.
\<close>

theorem rd_mkdir_refines:
  assumes "disk_at s b" and "root_dir (mem s) b ds" and "path_ok s b p name" and "k < 2048"
    and "ld32 (mem s) (inode b k) = INODE_EMPTY" and "\<forall>j < k. ld32 (mem s) (inode b j) \<noteq> INODE_EMPTY"
    and "free_blocks b (mem s) \<noteq> {}"
  shows "if None \<notin> set ds then rd_mkdir p s = Some (EBOUNDS, s)
     else \<exists>s'. rd_mkdir p s = Some (0, s') \<and> s' = s\<lparr>mem := mem s'\<rparr> \<and> root_dir (mem s') b (ds[free_slot ds := Some (name, k)]) \<and>
       ld32 (mem s') (inode b k) = INODE_DIR \<and> file_size (mem s') b k = 0 \<and>
       ld32 (mem s') (inode b k + of_nat 12) = blk b (Min (free_blocks b (mem s))) \<and>
       free_blocks b (mem s') = free_blocks b (mem s) - {Min (free_blocks b (mem s))} \<and>
       eq_out (bits b \<union> zone (inode_pos b k) 16 \<union> zone (ent_pos b (free_slot ds)) 16) (mem s) (mem s') \<and>
       ((\<forall>e. Some e \<in> set (take (free_slot ds) ds) \<longrightarrow> \<not> prefix (fst e) name) \<longrightarrow>
          get_file_inode p (root_blk s') s' = Some 0)"
proof (cases "None \<in> set ds")
  case False
  then show ?thesis using new_entry_full [OF assms(1,2) _ assms(3)] by (simp add: rd_mkdir_def)
next
  case True
  let ?ds = "ds[free_slot ds := Some (name, k)]"
  obtain m' where m': "rd_mkdir p s = Some (0, s\<lparr>mem := m'\<rparr>)" "root_dir m' b ?ds" "ld32 m' (inode b k) = INODE_DIR"
    "file_size m' b k = 0" "ld32 m' (inode b k + of_nat 12) = blk b (Min (free_blocks b (mem s)))"
    "free_blocks b m' = free_blocks b (mem s) - {Min (free_blocks b (mem s))}" "path_ok (s\<lparr>mem := m'\<rparr>) b p name"
    "eq_out (bits b \<union> zone (inode_pos b k) 16 \<union> zone (ent_pos b (free_slot ds)) 16) (mem s) m'"
    using rd_mkdir_fills [OF assms(1,2) True assms(3-7)] by blast
  have "get_file_inode p (root_blk s) (s\<lparr>mem := m'\<rparr>) = Some 0"
    if "\<forall>e. Some e \<in> set (take (free_slot ds) ds) \<longrightarrow> \<not> prefix (fst e) name"
    using get_file_inode_name [of "s\<lparr>mem := m'\<rparr>" b ?ds p name] disk_at_mem [OF assms(1)] m'(2,3,7) lookup_new [OF True that, of m' b k]
    by simp
  then show ?thesis using True m' by (subst if_not_P, simp, intro exI [of _ "s\<lparr>mem := m'\<rparr>"]) auto
qed

text \<open>A disk whose root block is marked in the bitmap.\<close>

definition demo_marked :: mem where
  "demo_marked = demo_root(0x124000 := 1)"

lemma demo_marked_eq: "eq_out (bits 0x100000) demo_root demo_marked"
  by (simp add: demo_marked_def eq_out_def place_defs)

lemma demo_marked_dir: "root_dir demo_marked 0x100000 (replicate 16 None)"
  by (rule root_dir_frame [OF demo_root_dir demo_marked_eq]) (auto simp: place_defs)

lemma demo_marked_path: "path_ok (demo_fs demo_marked) 0x100000 0x92000 [97, 98]"
  using path_ok_frame [OF demo_root_path, of "bits 0x100000" demo_marked] demo_marked_eq on_disk(1) [of 0 0 0] by simp

lemma demo_marked_inode:
  "ld32 demo_marked (inode 0x100000 1) = INODE_EMPTY" "\<forall>j < 1. ld32 demo_marked (inode 0x100000 j) \<noteq> INODE_EMPTY"
proof -
  have "ld32 demo_marked (inode 0x100000 j + of_nat 0) = ld32 demo_root (inode 0x100000 j + of_nat 0)" if "j < 2" for j
    by (rule inode_word [OF demo_marked_eq]) (use that in \<open>auto simp: place_defs\<close>)
  from this [of 0] this [of 1] demo_root_inode
  show "ld32 demo_marked (inode 0x100000 1) = INODE_EMPTY" "\<forall>j < 1. ld32 demo_marked (inode 0x100000 j) \<noteq> INODE_EMPTY" by simp_all
qed

lemma demo_marked_free: "1 \<in> free_blocks 0x100000 demo_marked" "Min (free_blocks 0x100000 demo_marked) = 1"
proof -
  have z: "demo_root 0x124000 = 0" by (simp add: demo_root_def st32_apart apart_def)
  show f: "1 \<in> free_blocks 0x100000 demo_marked" by (simp add: free_blocks_def marked_def demo_marked_def bit_1_iff)
  have "0 \<notin> free_blocks 0x100000 demo_marked" by (simp add: free_blocks_def marked_def demo_marked_def)
  then have "1 \<le> i" if "i \<in> free_blocks 0x100000 demo_marked" for i using that by (cases i) auto
  then show "Min (free_blocks 0x100000 demo_marked) = 1" using f by (intro Min_eqI) auto
qed

theorem rd_mkdir_refines_witness:
  "\<exists>s'. rd_mkdir 0x92000 (demo_fs demo_marked) = Some (0, s') \<and>
     root_dir (mem s') 0x100000 ((replicate 16 None)[0 := Some ([97, 98], 1)]) \<and>
     ld32 (mem s') 0x10404C = 0x164100 \<and> get_file_inode 0x92000 (root_blk s') s' = Some 0"
proof -
  obtain s' where "rd_mkdir 0x92000 (demo_fs demo_marked) = Some (0, s')"
    "root_dir (mem s') 0x100000 ((replicate 16 None)[0 := Some ([97, 98], 1)])"
    "ld32 (mem s') (inode 0x100000 1 + of_nat 12) = blk 0x100000 1" "get_file_inode 0x92000 (root_blk s') s' = Some 0"
    using rd_mkdir_refines [OF demo_fs_disk, of demo_marked "replicate 16 None" "0x92000" "[97, 98]" 1]
      demo_marked_dir demo_marked_path demo_marked_inode demo_marked_free by (auto simp: free_slot_def)
  then show ?thesis by (auto simp: inode_pos_def blk_pos_def)
qed

text \<open>
  C39: a directory is listed by sixteen calls of \<open>rd_readdir\<close>: from position 0, each stores the next slot of the root
  directory, empty ones too, into the caller's buffer; all return 0 but the last, which returns 1 and sets the position
  back, so that the next listing starts at the first slot again. (The file system test and DiskOS.txt expect the opposite, a
  nonzero result for each entry and 0 at the end.) Only the buffer and the position change.
\<close>

theorem rd_readdir_lists:
  assumes "dir_opened s b fd fo" and "root_dir (mem s) b ds" and "ld32 (mem s) (fo + of_nat 4) = 0" and "clear_buffer s b fo q 256"
  shows "\<exists>s'. list_dir (of_nat fd) q 16 s = Some (replicate 15 0 @ [1], s') \<and>
     (\<forall>x < 256. mem s' (q + of_nat x) = mem s (of_nat (b + 0x64000) + of_nat x)) \<and> ld32 (mem s') (fo + of_nat 4) = 0 \<and>
     eq_out (region q 256 \<union> region (fo + of_nat 4) 4) (mem s) (mem s') \<and> s' = s\<lparr>mem := mem s'\<rparr>"
proof -
  have "ent b 0 = of_nat (b + 0x64000)" by (simp add: ent_pos_def)
  with list_dir_from [OF assms(1,2), of 0 q] assms(3,4) show ?thesis by auto
qed

text \<open>The root directory open as descriptor 0, its file object at 0x91000.\<close>

definition demo_dir :: mem where
  "demo_dir = st32 (st32 demo_root 0x80028 0x91000) 0x91010 0x104000"

lemma demo_dir_words: "ld32 demo_dir 0x80028 = 0x91000" "ld32 demo_dir 0x91010 = 0x104000" "ld32 demo_dir 0x91004 = 0"
  by (simp_all add: demo_dir_def demo_root_def ld32_st32_apart apart_def)

lemma demo_dir_root: "root_dir demo_dir 0x100000 (replicate 16 None)"
proof (rule root_dir_frame [OF demo_root_dir])
  show "eq_out (region 0x80028 4 \<union> region 0x91010 4) demo_root demo_dir"
    unfolding demo_dir_def by (intro eq_out_trans [OF eq_out_st32 eq_out_st32]) auto
qed (auto simp: region_def zone_def inode_pos_def)

theorem rd_readdir_lists_witness:
  "\<exists>s'. list_dir 0 0x93000 16 (demo_fs demo_dir) = Some (replicate 15 0 @ [1], s') \<and> mem s' 0x93000 = demo_dir 0x164000"
proof -
  have "dir_opened (demo_fs demo_dir) 0x100000 0 0x91000"
    using demo_dir_words demo_fs_disk by (simp add: dir_opened_def off_disk_def away_def inode_pos_def)
  moreover have "clear_buffer (demo_fs demo_dir) 0x100000 0x91000 0x93000 256"
    by (simp add: clear_buffer_def off_disk_def away_def)
  ultimately obtain s' where "list_dir 0 0x93000 16 (demo_fs demo_dir) = Some (replicate 15 0 @ [1], s')"
    "\<forall>x < 256. mem s' (0x93000 + of_nat x) = demo_dir (of_nat (0x100000 + 0x64000) + of_nat x)"
    using rd_readdir_lists [of "demo_fs demo_dir" "0x100000" 0 "0x91000" "replicate 16 None" "0x93000"] demo_dir_root demo_dir_words by auto
  from this(1) spec [OF this(2), of 0] show ?thesis by auto
qed

text \<open>
  C16: \<open>rd_close\<close> gives back what \<open>rd_open\<close> took: with the heap in order and the file object and its path live regions of
  it, both are freed, every other region stays live, the descriptor is unused again, so that closing it a second time
  returns EBADF, and no byte of a live region but the descriptor changes.
\<close>

theorem rd_close_releases:
  assumes "heap_owns s rs" and "(unat (current_task s), kt) \<in> set rs" and "112 \<le> kt"
    and "fd < 16" and "ld32 (mem s) (current_task s + of_nat (40 + 4 * fd)) = fo"
    and "(unat fo, ko) \<in> set rs" and "20 \<le> ko" and "fo \<noteq> current_task s"
    and "ld32 (mem s) (fo + of_nat 12) = pb" and "(unat pb, kp) \<in> set rs" and "pb \<noteq> fo" and "pb \<noteq> current_task s"
  shows "\<exists>s' rs'. rd_close (of_nat fd) s = Some (0, s') \<and> heap_owns s' rs' \<and>
     set rs' = set rs - {(unat fo, ko), (unat pb, kp)} \<and> ld32 (mem s') (current_task s + of_nat (40 + 4 * fd)) = 0 \<and>
     rd_close (of_nat fd) s' = Some (EBADF, s') \<and>
     (\<forall>(p, k) \<in> set rs'. \<forall>i < k. of_nat (p + i) \<notin> region (current_task s + of_nat (40 + 4 * fd)) 4 \<longrightarrow>
        mem s' (of_nat (p + i)) = mem s (of_nat (p + i)))"
  using rd_close_frees [OF assms] by blast

text \<open>A heap of three live regions (a task, a file object, a path) and one free block.\<close>

definition demo_close :: fs where
  "demo_close = demo_fs (st32 (st32 (st32 (st32 (st32 (st32 (st32 (st32 (st32 (st32 (st32 (st32 (st32 (\<lambda>_. 0)
       0x1004 0x1080) 0x1008 112) 0x1080 0x1000) 0x1084 0x10A4) 0x1088 20) 0x10A4 0x1080) 0x10A8 0x10B8) 0x10AC 4)
       0x10B8 0x10A4) 0x10C0 40) 0x10C4 1) 0x1038 0x1090) 0x109C 0x10B4)
     \<lparr>store_global_head := 0x1000, mem_store_base := 0x1000, mem_store_end := 0x10F0, mem_store_size := 240, current_task := 0x1010\<rparr>"

lemma demo_close_sel:
  "store_global_head demo_close = 0x1000" "mem_store_base demo_close = 0x1000" "mem_store_end demo_close = 0x10F0"
  "mem_store_size demo_close = 240" "current_task demo_close = 0x1010"
  by (simp_all add: demo_close_def)

lemma demo_close_words: "ld32 (mem demo_close) 0x1038 = 0x1090" "ld32 (mem demo_close) 0x109C = 0x10B4"
  by (simp_all add: demo_close_def ld32_st32_apart apart_def)

lemma demo_close_rep: "heap_rep demo_close [(112, False), (20, False), (4, False), (40, True)]"
  by (simp add: heap_rep_def demo_close_sel) (simp add: demo_close_def ld32_st32_apart apart_def)

theorem rd_close_releases_witness:
  "\<exists>s' rs'. rd_close 0 demo_close = Some (0, s') \<and> heap_owns s' rs' \<and> set rs' = {(0x1010, 112)} \<and> rd_close 0 s' = Some (EBADF, s')"
proof -
  have own: "heap_owns demo_close [(0x1010, 112), (0x1090, 20), (0x10B4, 4)]"
    using heap_rep_owns [OF demo_close_rep] demo_close_sel by simp
  let ?rs = "[(0x1010, 112), (0x1090, 20), (0x10B4, 4)] :: (nat \<times> nat) list"
  have p: "(unat (current_task demo_close), 112) \<in> set ?rs" "ld32 (mem demo_close) (current_task demo_close + of_nat (40 + 4 * 0)) = 0x1090"
    "(unat (0x1090 :: addr), 20) \<in> set ?rs" "0x1090 \<noteq> current_task demo_close" "ld32 (mem demo_close) (0x1090 + of_nat 12) = 0x10B4"
    "(unat (0x10B4 :: addr), 4) \<in> set ?rs" "(0x10B4 :: addr) \<noteq> 0x1090" "0x10B4 \<noteq> current_task demo_close"
    using demo_close_words demo_close_sel by simp_all
  obtain s' rs' where s': "rd_close (of_nat 0) demo_close = Some (0, s')" "heap_owns s' rs'"
      "set rs' = set ?rs - {(unat (0x1090 :: addr), 20), (unat (0x10B4 :: addr), 4)}" "rd_close (of_nat 0) s' = Some (EBADF, s')"
    using rd_close_releases [OF own p(1) _ _ p(2,3) _ p(4-8)] by auto
  moreover have "set rs' = {(0x1010, 112)}" unfolding s'(3) by auto
  ultimately show ?thesis by auto
qed

end
