(* ===== verification/Ramdisk_Tree.thy ===== *)
theory Ramdisk_Tree
  imports Ramdisk_Dirs
begin

text \<open>
  Paths of any depth. A directory is the list of its sixteen slots, as in Ramdisk_Paths, now for every inode; \<open>resolve\<close> is
  what looking up a path computes on them, component by component, and \<open>get_file_inode\<close> refines it. A path that ends at a
  directory is not found, so the calls that need the directory of a path work for the root directory only.
\<close>

section \<open>The specification\<close>

type_synonym path = "u8 list list"

fun spell :: "path \<Rightarrow> u8 list" where
  "spell [] = []"
| "spell (c # cs) = delim # c @ spell cs"

text \<open>
  One component after the other: the first slot that is empty or whose name is a prefix of the component decides. An empty
  slot has the number of the root directory, where the rest of the path is then looked up.
\<close>

primrec resolve :: "(nat \<Rightarrow> slot list) \<Rightarrow> (nat \<Rightarrow> bool) \<Rightarrow> nat \<Rightarrow> path \<Rightarrow> nat option" where
  "resolve D dir k [] = None"
| "resolve D dir k (c # cs) = (case find (stops c) (D k) of
     None \<Rightarrow> None
   | Some None \<Rightarrow> resolve D dir 0 cs
   | Some (Some x) \<Rightarrow> if dir (snd x) then resolve D dir (snd x) cs else Some (snd x))"

lemma resolve_not_dir: "resolve D dir k cs = Some i \<Longrightarrow> \<not> dir i"
  by (induction cs arbitrary: k) (auto split: option.splits if_splits)

definition slot_on :: "mem \<Rightarrow> addr \<Rightarrow> slot \<Rightarrow> bool" where
  "slot_on m a e \<longleftrightarrow> (case e of None \<Rightarrow> \<forall>i < 16. m (a + of_nat i) = 0
     | Some x \<Rightarrow> cstr m a (fst x) \<and> length (fst x) \<le> 13 \<and> delim \<notin> set (fst x) \<and> ld16 m (a + 14) = of_nat (snd x) \<and> snd x < 2048)"

definition dir_on :: "mem \<Rightarrow> nat \<Rightarrow> nat \<Rightarrow> slot list \<Rightarrow> bool" where
  "dir_on m b k ds \<longleftrightarrow> length ds = 16 \<and>
     (\<exists>q \<le> 1024. ld32 m (inode b k + of_nat 12) = blk b q \<and> (\<forall>j < 16. slot_on m (blk b q + of_nat (16 * j)) (ds ! j)))"

text \<open>\<open>dir\<close> are the inodes that are directories and \<open>D\<close> their slots; inode 0 is the root directory.\<close>

definition tree :: "mem \<Rightarrow> nat \<Rightarrow> (nat \<Rightarrow> slot list) \<Rightarrow> (nat \<Rightarrow> bool) \<Rightarrow> bool" where
  "tree m b D dir \<longleftrightarrow> dir 0 \<and> ld32 m (inode b 0 + of_nat 12) = blk b 0 \<and>
     (\<forall>k < 2048. (ld32 m (inode b k + of_nat 0) = INODE_DIR \<longleftrightarrow> dir k) \<and> (dir k \<longrightarrow> dir_on m b k (D k)))"

definition names_ok :: "path \<Rightarrow> bool" where
  "names_ok cs \<longleftrightarrow> (\<forall>c \<in> set cs. c \<noteq> [] \<and> delim \<notin> set c)"

section \<open>Lookup refines the specification\<close>

lemma spell_prefix:
  assumes "delim \<notin> set x"
  shows "prefix x (c @ spell cs) \<longleftrightarrow> prefix x c"
proof (cases cs)
  case (Cons c' cs')
  show ?thesis
  proof
    assume "prefix x (c @ spell cs)"
    then consider "prefix x c" | us where "x = c @ us" "prefix us (spell cs)" by (auto simp: prefix_append)
    then show "prefix x c"
    proof cases
      case 2
      then have "us = []" using assms Cons by (cases us) auto
      with 2 show ?thesis by simp
    qed
  qed simp
qed simp

lemma strtok_rest:
  assumes "cstr m q (c @ spell cs)" and "cstr m d [delim]" and "delim \<notin> set c"
  shows "strtok m q d = Some (if cs = [] then 0 else q + of_nat (length c))"
proof -
  have "takeWhile (\<lambda>x. x \<notin> set [delim]) (c @ spell cs) = c" using assms(3) by (cases cs) (auto simp: takeWhile_append)
  moreover have "set (c @ spell cs) \<inter> set [delim] = {} \<longleftrightarrow> cs = []" using assms(3) by (cases cs) auto
  ultimately show ?thesis using strtok_eq [OF assms(1,2)] by simp
qed

text \<open>The recursive call: the rest of the path, without its delimiter.\<close>

lemma enter_rest:
  assumes c: "cstr (mem s) q (spell (c # cs))" and n: "c \<noteq> []" and l: "cstr (mem s) (lit_delim s) [delim]"
  shows "enter_path q s = Some (Search (q + 1)) \<and> cstr (mem s) (q + 1) (c @ spell cs)"
proof -
  have "strcmp (mem s) q (lit_delim s) = Some False" using strcmp_eq [OF c l] n by simp
  then show ?thesis using c by (simp add: enter_path_def)
qed

definition found :: "nat \<Rightarrow> nat option \<Rightarrow> addr" where
  "found b r = (case r of None \<Rightarrow> 0 | Some k \<Rightarrow> inode b k)"

lemma slot_facts:
  assumes d: "disk_at s b" and t: "tree (mem s) b D dir" and q: "q \<le> 1024" and j: "j < 16"
    and sl: "slot_on (mem s) (blk b q + of_nat (16 * j)) e"
  shows "\<exists>k < 2048. cstr (mem s) (entry_addr (blk b q) j) (case e of None \<Rightarrow> [] | Some x \<Rightarrow> fst x) \<and>
     rd16 (mem s) (blk b q) (of_nat (16 * j) + 14) = Some (of_nat k) \<and> k = (case e of None \<Rightarrow> 0 | Some x \<Rightarrow> snd x) \<and>
     inode_array s + ucast (of_nat k :: u16) * 64 = inode b k"
proof -
  have fit: "b + 0x200000 \<le> two32" "0 < b" using disk_fit [OF d] by auto
  have ub: "unat (blk b q) = blk_pos b q" "blk_pos b q + 256 \<le> two32" using unat_blk [OF fit(1) q] by simp_all
  have nz: "blk b q \<noteq> 0" using ub fit by (auto simp: blk_pos_def simp del: of_nat_add of_nat_mult)
  have "unat (blk b q + of_nat (16 * j)) = blk_pos b q + 16 * j" using unat_plus_of_nat [of "blk b q" "16 * j"] ub j by simp
  then have nz2: "blk b q + of_nat (16 * j) \<noteq> 0" using fit by (auto simp: blk_pos_def simp del: of_nat_add of_nat_mult)
  have ino: "inode_array s + ucast (of_nat k :: u16) * 64 = inode b k" if "k < 2048" for k
    using d that inode_index [of b k] by (simp add: disk_at_def ucast_small)
  have at: "blk b q + (of_nat (16 * j) + 14) = blk b q + of_nat (16 * j) + 14" by simp
  show ?thesis
  proof (cases e)
    case None
    then have z: "mem s (blk b q + of_nat (16 * j) + of_nat i) = 0" if "i < 16" for i using sl that by (simp add: slot_on_def)
    have "ld16 (mem s) (blk b q + (of_nat (16 * j) + 14)) = 0" using z [of 14] z [of 15] by (intro ld16_zero) (auto simp: add.assoc)
    then show ?thesis using None z [of 0] nz nz2 ino [of 0] by (intro exI [of _ 0]) (simp add: entry_addr_def del: of_nat_mult)
  next
    case (Some x)
    then have "cstr (mem s) (blk b q + of_nat (16 * j)) (fst x)" "ld16 (mem s) (blk b q + of_nat (16 * j) + 14) = of_nat (snd x)" "snd x < 2048"
      using sl by (auto simp: slot_on_def)
    then show ?thesis using Some nz ino unfolding at [symmetric] by (intro exI [of _ "snd x"]) (simp add: entry_addr_def del: of_nat_mult)
  qed
qed

text \<open>What the slot that decides leads to, and the call on the rest of the path in directory \<open>k\<close>.\<close>

definition decide :: "(nat \<Rightarrow> slot list) \<Rightarrow> (nat \<Rightarrow> bool) \<Rightarrow> path \<Rightarrow> slot \<Rightarrow> nat option" where
  "decide D dir cs e = (case e of None \<Rightarrow> resolve D dir 0 cs
     | Some x \<Rightarrow> if dir (snd x) then resolve D dir (snd x) cs else Some (snd x))"

definition descends :: "'a fs_scheme \<Rightarrow> nat \<Rightarrow> (nat \<Rightarrow> slot list) \<Rightarrow> (nat \<Rightarrow> bool) \<Rightarrow> addr \<Rightarrow> path \<Rightarrow> bool" where
  "descends s b D dir r cs \<longleftrightarrow> (\<forall>k < 2048. dir k \<longrightarrow>
     get_file_inode r (ld32 (mem s) (inode b k + of_nat 12)) s = Some (found b (resolve D dir k cs)))"

lemma search_step:
  assumes d: "disk_at s b" and t: "tree (mem s) b D dir" and l: "cstr (mem s) (lit_delim s) [delim]" and n: "delim \<notin> set c"
    and q: "q \<le> 1024" and j: "j < 16" and sl: "slot_on (mem s) (blk b q + of_nat (16 * j)) e"
    and p: "cstr (mem s) p (c @ spell cs)" and h: "descends s b D dir (if cs = [] then 0 else p + of_nat (length c)) cs"
  shows "search_dir p (blk b q) j s = (if stops c e then Some (found b (decide D dir cs e)) else search_dir p (blk b q) (j + 1) s)"
proof -
  let ?name = "case e of None \<Rightarrow> [] | Some x \<Rightarrow> fst x"
  obtain k where k: "k < 2048" "cstr (mem s) (entry_addr (blk b q) j) ?name" "rd16 (mem s) (blk b q) (of_nat (16 * j) + 14) = Some (of_nat k)"
    "k = (case e of None \<Rightarrow> 0 | Some x \<Rightarrow> snd x)" "inode_array s + ucast (of_nat k :: u16) * 64 = inode b k"
    using slot_facts [OF d t q j sl] by blast
  have "delim \<notin> set ?name" using sl by (auto simp: slot_on_def split: option.splits)
  then have hit: "str_is_prefix (mem s) p (entry_addr (blk b q) j) = Some (stops c e)"
    using str_is_prefix_eq [OF p k(2)] spell_prefix [of ?name c cs] by (cases e) auto
  have nz: "inode b k \<noteq> 0" using inode_nonnull k(1) disk_fit [OF d] by blast
  have ty: "ld32 (mem s) (inode b k + 0) = INODE_DIR \<longleftrightarrow> dir k" and d0: "dir 0" using t k(1) by (auto simp: tree_def)
  have dec: "decide D dir cs e = (if dir k then resolve D dir k cs else Some k)"
    using k(4) d0 by (simp add: decide_def split: option.splits)
  note h' = h [unfolded descends_def get_file_inode_def, rule_format, OF k(1)]
  show ?thesis using hit k(3,5) j nz ty h' strtok_rest [OF p l n] dec
    by (subst search_dir.simps) (simp add: UFS_MAX_FILE_IN_DIR_def found_def del: of_nat_mult)
qed

lemma search_from:
  assumes d: "disk_at s b" and t: "tree (mem s) b D dir" and l: "cstr (mem s) (lit_delim s) [delim]" and n: "delim \<notin> set c"
    and k: "k < 2048" "dir k" and p: "cstr (mem s) p (c @ spell cs)"
    and h: "descends s b D dir (if cs = [] then 0 else p + of_nat (length c)) cs" and j: "j \<le> 16"
  shows "search_dir p (ld32 (mem s) (inode b k + of_nat 12)) j s =
    Some (found b (Option.bind (find (stops c) (drop j (D k))) (decide D dir cs)))"
proof -
  obtain q where q: "length (D k) = 16" "q \<le> 1024" "ld32 (mem s) (inode b k + of_nat 12) = blk b q"
    "\<And>j. j < 16 \<Longrightarrow> slot_on (mem s) (blk b q + of_nat (16 * j)) (D k ! j)"
    using t k by (auto simp: tree_def dir_on_def)
  show ?thesis using j
  proof (induction "16 - j" arbitrary: j)
    case 0
    then show ?case using q(1) by (subst search_dir.simps) (simp add: UFS_MAX_FILE_IN_DIR_def found_def)
  next
    case (Suc x)
    then have j: "j < 16" "drop j (D k) = D k ! j # drop (Suc j) (D k)" using q(1) by (simp_all add: Cons_nth_drop_Suc)
    have "search_dir p (blk b q) (Suc j) s = Some (found b (Option.bind (find (stops c) (drop (Suc j) (D k))) (decide D dir cs)))"
      using Suc.hyps(1) [of "Suc j"] Suc.hyps(2) j(1) unfolding q(3) by simp
    then show ?case unfolding j(2) q(3) using search_step [OF d t l n q(2) j(1) q(4) [OF j(1)] p h] by simp
  qed
qed

lemma resolve_bind: "resolve D dir k (c # cs) = Option.bind (find (stops c) (D k)) (decide D dir cs)"
  by (simp add: decide_def split: option.splits)

lemma lookup_tree:
  assumes d: "disk_at s b" and t: "tree (mem s) b D dir" and l: "cstr (mem s) (lit_delim s) [delim]"
    and "names_ok cs" and "if cs = [] then p = 0 else cstr (mem s) p (spell cs)"
  shows "descends s b D dir p cs"
  using assms(4,5)
proof (induction cs arbitrary: p)
  case Nil
  then show ?case by (simp add: descends_def get_file_inode_def enter_path_def found_def)
next
  case (Cons c cs)
  then have c: "c \<noteq> []" "delim \<notin> set c" "names_ok cs" "cstr (mem s) p (spell (c # cs))" by (auto simp: names_ok_def)
  note e = enter_rest [OF c(4,1) l]
  have "cs \<noteq> [] \<Longrightarrow> cstr (mem s) (p + 1 + of_nat (length c)) (spell cs)" using e cstr_drop [of "mem s" "p + 1" "c @ spell cs" "length c"] by simp
  then have h: "descends s b D dir (if cs = [] then 0 else p + 1 + of_nat (length c)) cs" using c(3) by (intro Cons.IH) auto
  show ?case unfolding descends_def resolve_bind
  proof (intro allI impI)
    fix k assume k: "k < 2048" "dir k"
    show "get_file_inode p (ld32 (mem s) (inode b k + of_nat 12)) s = Some (found b (Option.bind (find (stops c) (D k)) (decide D dir cs)))"
      using search_from [OF d t l c(2) k _ h, of 0] e by (simp add: get_file_inode_def)
  qed
qed

section \<open>The directory of a path\<close>

text \<open>A path with components \<open>cs\<close>, off the disk and clear of the literal \<open>/\<close>.\<close>

definition path_at :: "'a fs_scheme \<Rightarrow> nat \<Rightarrow> addr \<Rightarrow> path \<Rightarrow> bool" where
  "path_at s b p cs \<longleftrightarrow> cs \<noteq> [] \<and> names_ok cs \<and> cstr (mem s) p (spell cs) \<and> off_disk b p (length (spell cs) + 1) \<and>
     cstr (mem s) (lit_delim s) [delim] \<and> off_disk b (lit_delim s) 2 \<and> away (lit_delim s) 2 p (length (spell cs) + 1)"

lemma slot_on_frame:
  assumes "slot_on m (blk b q + of_nat (16 * j)) e" and e: "eq_out A m m'" and a: "A \<inter> disk b = {}" and fit: "b + 0x200000 \<le> two32"
    and q: "q \<le> 1024" and j: "j < 16"
  shows "slot_on m' (blk b q + of_nat (16 * j)) e"
proof -
  let ?a = "blk b q + of_nat (16 * j)"
  have same: "m' (?a + of_nat i) = m (?a + of_nat i)" if "i < 16" for i
  proof (rule eq_outD [OF e])
    have "unat (?a + of_nat i) = blk_pos b q + (16 * j + i)"
      using unat_plus_of_nat [of "blk b q" "16 * j + i"] unat_blk(1,2) [OF fit q] that j by (simp add: add.assoc)
    then have "?a + of_nat i \<in> disk b" using that j q by (simp add: zone_def blk_pos_def)
    with a show "?a + of_nat i \<notin> A" by blast
  qed
  have "ld16 m' (?a + 14) = ld16 m (?a + 14)" using same [of 14] same [of 15] by (simp add: ld16_def add.assoc)
  moreover have "cstr m' ?a x" if "cstr m ?a x" "length x \<le> 13" for x using that by (intro cstr_cong [OF that(1)] same) simp
  ultimately show ?thesis using assms(1) same by (cases e) (simp_all add: slot_on_def del: of_nat_mult)
qed

lemma tree_frame:
  assumes t: "tree m b D dir" and e: "eq_out A m m'" and a: "A \<inter> disk b = {}" and fit: "b + 0x200000 \<le> two32"
  shows "tree m' b D dir"
proof -
  have w: "ld32 m' (inode b k + of_nat i) = ld32 m (inode b k + of_nat i)" if "k < 2048" "i \<le> 60" for k i
  proof (rule inode_word [OF e fit that])
    have "zone (inode_pos b k + i) 4 \<subseteq> disk b" using that by (auto simp: zone_def inode_pos_def)
    with a show "zone (inode_pos b k + i) 4 \<inter> A = {}" by blast
  qed
  have "dir_on m' b k ds" if "dir_on m b k ds" "k < 2048" for k ds
    using that slot_on_frame [OF _ e a fit] w [OF that(2), of 12] by (auto simp: dir_on_def)
  then show ?thesis using t w [of 0 12] w [of _ 0] by (simp add: tree_def)
qed

lemma spell_Nil [simp]: "spell cs = [] \<longleftrightarrow> cs = []"
  by (cases cs) simp_all

lemma spell_snoc: "spell (cs @ [c]) = spell cs @ delim # c"
  by (induction cs) simp_all

text \<open>The path cut at its last delimiter, as it is while the directory is looked up.\<close>

lemma cut_path:
  assumes p: "path_at s b p (cs @ [c])" and cs: "cs \<noteq> []"
  shows "path_at (s\<lparr>mem := (mem s)(p + of_nat (length (spell cs)) := 0)\<rparr>) b p cs"
proof -
  let ?L = "length (spell cs)" and ?m1 = "(mem s)(p + of_nat (length (spell cs)) := 0)"
  have c: "names_ok cs" "cstr (mem s) p (spell cs @ delim # c)" "off_disk b p (?L + length c + 2)" "cstr (mem s) (lit_delim s) [delim]"
    "off_disk b (lit_delim s) 2" "away (lit_delim s) 2 p (?L + length c + 2)"
    using p by (auto simp: path_at_def names_ok_def spell_snoc)
  have up: "unat (p + of_nat i) = unat p + i" if "i \<le> ?L" for i using c(3) that by (simp add: off_disk_def)
  have "cstr ?m1 p (spell cs)"
  proof (rule cstrI)
    show "?m1 (p + of_nat i) = spell cs ! i \<and> spell cs ! i \<noteq> 0" if "i < ?L" for i
      using cstr_nth [OF c(2), of i] that up [of i] up [of ?L] by (auto simp: nth_append word_unat_eq_iff)
    show "p \<noteq> 0" "unat p + ?L < two32" using c(3) by (auto simp: off_disk_def)
  qed simp
  moreover have "cstr ?m1 (lit_delim s) [delim]"
  proof (rule cstr_frame [OF c(4)])
    show "eq_out {p + of_nat ?L} (mem s) ?m1" by (simp add: eq_out_def)
    show "region (lit_delim s) (length [delim] + 1) \<inter> {p + of_nat ?L} = {}" using c(6) up [of ?L] by (auto simp: region_def away_def)
    show "unat (lit_delim s) + length [delim] < two32" using c(5) by (simp add: off_disk_def)
  qed
  moreover have "away (lit_delim s) 2 p (?L + 1)" "off_disk b p (?L + 1)" using c(3,6) by (auto simp: away_def off_disk_def)
  ultimately show ?thesis using cs c(1,5) by (simp add: path_at_def)
qed

lemma lookup_path:
  assumes "disk_at s b" and "tree (mem s) b D dir" and "path_at s b p cs"
  shows "get_file_inode p (root_blk s) s = Some (found b (resolve D dir 0 cs))"
proof -
  have "cs \<noteq> []" "names_ok cs" "cstr (mem s) p (spell cs)" "cstr (mem s) (lit_delim s) [delim]" using assms(3) by (auto simp: path_at_def)
  then have "descends s b D dir p cs" using lookup_tree [OF assms(1,2)] by simp
  moreover have "dir 0" "ld32 (mem s) (inode b 0 + of_nat 12) = root_blk s"
    using assms(1,2) by (auto simp: tree_def disk_at_def blk_pos_def)
  ultimately show ?thesis unfolding descends_def by force
qed

lemma parent_deep:
  assumes d: "disk_at s b" and t: "tree (mem s) b D dir" and p: "path_at s b p (cs @ [c])" and cs: "cs \<noteq> []"
  shows "get_parent_dir_inode p (root_blk s) s = Some (found b (resolve D dir 0 cs), s)"
proof -
  let ?L = "length (spell cs)" and ?m1 = "(mem s)(p + of_nat (length (spell cs)) := 0)"
  have c: "cstr (mem s) p (spell cs @ delim # c)" "c \<noteq> []" "delim \<notin> set c" "off_disk b p (?L + length c + 2)" "0 < ?L"
    using p cs by (simp_all add: path_at_def names_ok_def spell_snoc)
  have fit: "b + 0x200000 \<le> two32" using disk_fit [OF d] by simp
  have up: "unat (p + of_nat ?L) = unat p + ?L" using c(4) by (simp add: off_disk_def)
  have "tree ?m1 b D dir"
    by (rule tree_frame [OF t, of "{p + of_nat ?L}"]) (use fit c(4) up in \<open>auto simp: eq_out_def zone_def off_disk_def\<close>)
  then have look: "get_file_inode p (root_blk s) (s\<lparr>mem := ?m1\<rparr>) = Some (found b (resolve D dir 0 cs))"
    using lookup_path [OF disk_at_mem [OF d] _ cut_path [OF p cs]] by simp
  have n: "strlen (mem s) p = Some (of_nat (?L + 1 + length c))" using strlen_eq [OF c(1)] by simp
  have first: "mem s p = delim" using cstr_nth [OF c(1), of 0] cs by (cases cs) auto
  have "mem s (p + of_nat (?L + length c)) \<noteq> delim"
    using cstr_nth [OF c(1), of "?L + length c"] c(2,3) by (cases c rule: rev_cases) (auto simp: nth_append)
  moreover have "mem s (p + of_nat ?L) = delim" using cstr_nth [OF c(1), of ?L] by simp
  moreover have "(of_nat (?L + 1) :: u32) > 1" using c(4,5) by (simp add: word_less_nat_alt off_disk_def)
  moreover have "(of_nat (?L + 1 + length c) :: u32) - 1 = of_nat (?L + length c)" "(of_nat (?L + 1) :: u32) - 1 = of_nat ?L" by simp_all
  ultimately show ?thesis using n first look last_delim_last [OF c(1,3), of "length c"] cstr_nonnull [OF c(1)]
    by (simp add: get_parent_dir_inode_def fun_upd_idem del: of_nat_add)
qed

lemma new_entry_deep:
  assumes d: "disk_at s b" and t: "tree (mem s) b D dir" and p: "path_at s b p (cs @ [c])" and cs: "cs \<noteq> []"
    and r: "\<forall>i. resolve D dir 0 cs = Some i \<longrightarrow> i < 2048 \<and> ld32 (mem s) (inode b i + of_nat 12) = 0"
  shows "new_entry ty finish p s = (if resolve D dir 0 cs = None then Some (EBADPATH, s) else None)"
proof -
  have nz: "p \<noteq> 0" using p by (auto simp: path_at_def off_disk_def)
  note par = parent_deep [OF d t p cs]
  show ?thesis
  proof (cases "resolve D dir 0 cs")
    case None
    then show ?thesis using nz par by (simp add: new_entry_def found_def)
  next
    case (Some i)
    then have i: "i < 2048" "ld32 (mem s) (inode b i + 12) = 0" using r by auto
    have "inode b i \<noteq> 0" using inode_nonnull i(1) disk_fit [OF d] by blast
    moreover have "free_entry (mem s) 0 0 UFS_MAX_FILE_IN_DIR = None"
      by (simp add: UFS_MAX_FILE_IN_DIR_def numeral_eq_Suc rd8_def)
    ultimately show ?thesis using nz par i(2) Some by (simp add: new_entry_def found_def)
  qed
qed

lemma find_in_set: "find P xs = Some x \<Longrightarrow> x \<in> set xs"
  by (auto simp: find_Some_iff)

lemma resolve_bound:
  assumes t: "tree m b D dir" and "k < 2048" and "dir k" and "resolve D dir k cs = Some i"
  shows "i < 2048"
  using assms(2-4)
proof (induction cs arbitrary: k)
  case (Cons c cs)
  have slots: "snd x < 2048" if fd: "find (stops c) (D k) = Some (Some x)" for x
  proof -
    obtain j where "j < length (D k)" "D k ! j = Some x" using find_in_set [OF fd] by (auto simp: in_set_conv_nth)
    then show ?thesis using t Cons.prems(1,2) by (fastforce simp: tree_def dir_on_def slot_on_def)
  qed
  have "dir 0" using t by (simp add: tree_def)
  with Cons slots Cons.IH [of 0] show ?case by (auto split: option.splits if_splits)
qed simp

text \<open>A file whose directory is not found: its entry is looked for through a null pointer.\<close>

lemma unlink_deep:
  assumes d: "disk_at s b" and t: "tree (mem s) b D dir" and p: "path_at s b p (cs @ [c])" and cs: "cs \<noteq> []"
  shows "resolve D dir 0 (cs @ [c]) = None \<Longrightarrow> rd_unlink p s = Some (EBADPATH, s)"
    and "resolve D dir 0 (cs @ [c]) = Some k \<Longrightarrow> resolve D dir 0 cs = None \<Longrightarrow> not_open s b k \<Longrightarrow> rd_unlink p s = None"
proof -
  have nz: "p \<noteq> 0" using p by (auto simp: path_at_def off_disk_def)
  note par = parent_deep [OF d t p cs] and look = lookup_path [OF d t p]
  show "rd_unlink p s = Some (EBADPATH, s)" if "resolve D dir 0 (cs @ [c]) = None"
    using nz par look that by (simp add: rd_unlink_def found_def)
  show "rd_unlink p s = None" if r: "resolve D dir 0 (cs @ [c]) = Some k" "resolve D dir 0 cs = None" and no: "not_open s b k"
  proof -
    have k: "k < 2048" using resolve_bound [OF t _ _ r(1)] t by (simp add: tree_def)
    then have ino: "inode b k \<noteq> 0" "ld32 (mem s) (inode b k) \<noteq> INODE_DIR"
      using inode_nonnull disk_fit [OF d] t resolve_not_dir [OF r(1)] by (auto simp: tree_def)
    have "is_open (mem s) (current_task s) (inode b k) 0 16 = Some False"
      using no by (intro is_open_no) (auto simp: not_open_def off_disk_def Let_def)
    moreover have "clear_dirent m 0 x 0 UFS_MAX_FILE_IN_DIR = None" for m x
      by (simp add: UFS_MAX_FILE_IN_DIR_def numeral_eq_Suc rd32_def)
    ultimately show ?thesis using nz par look ino r
      by (cases "unlink_blocks (inode b k) s") (simp_all add: rd_unlink_def found_def NUM_MAX_FD_def)
  qed
qed

lemma resolve_all_dirs:
  assumes "\<And>k x. Some x \<in> set (D k) \<Longrightarrow> dir (snd x)"
  shows "resolve D dir k cs = None"
proof (induction cs arbitrary: k)
  case (Cons c cs)
  have "dir (snd x)" if "find (stops c) (D k) = Some (Some x)" for x
    using assms [OF find_in_set [OF that]] .
  with Cons show ?case by (auto split: option.splits)
qed simp

section \<open>A new disk with one directory\<close>

text \<open>The root directory has the one entry and the block of the other directory is empty.\<close>

definition one_dir :: "u8 list \<Rightarrow> nat \<Rightarrow> slot list" where
  "one_dir name k = (if k = 0 then (replicate 16 None)[0 := Some (name, 1)] else replicate 16 None)"

lemma root_slot:
  assumes "slot_at m b j e" and "\<And>x. e = Some x \<Longrightarrow> delim \<notin> set (fst x)"
  shows "slot_on m (blk b 0 + of_nat (16 * j)) e"
proof -
  have "ent b j = blk b 0 + of_nat (16 * j)" by (simp add: ent_pos_def blk_pos_def)
  then show ?thesis using assms by (cases e) (auto simp: slot_at_def slot_on_def dirent_at_def simp del: of_nat_mult of_nat_add)
qed

lemma one_dir_tree:
  assumes fit: "b + 0x200000 \<le> two32" and r: "root_dir m b (one_dir name 0)" and n: "delim \<notin> set name"
    and k: "ld32 m (inode b 1 + of_nat 0) = INODE_DIR" "ld32 m (inode b 1 + of_nat 12) = blk b 1"
    and z: "\<And>k. 1 < k \<Longrightarrow> k < 2048 \<Longrightarrow> ld32 m (inode b k + of_nat 0) = 0" and blk: "\<And>i. i < 256 \<Longrightarrow> m (blk b 1 + of_nat i) = 0"
  shows "tree m b (one_dir name) (\<lambda>k. k \<le> 1)"
proof -
  have root: "ld32 m (inode b 0 + of_nat 0) = INODE_DIR" "ld32 m (inode b 0 + of_nat 12) = blk b 0" "length (one_dir name 0) = 16"
    and sl: "\<And>j. j < 16 \<Longrightarrow> slot_at m b j (one_dir name 0 ! j)"
    using r by (auto simp: root_dir_def blk_pos_def)
  have "slot_on m (blk b 0 + of_nat (16 * j)) (one_dir name 0 ! j)" if "j < 16" for j
    by (rule root_slot [OF sl [OF that]]) (use n that in \<open>auto simp: one_dir_def nth_list_update split: if_splits\<close>)
  then have d0: "dir_on m b 0 (one_dir name 0)" unfolding dir_on_def using root by (intro conjI exI [of _ 0]) auto
  have "m (blk b 1 + of_nat (16 * j) + of_nat i) = 0" if "j < 16" "i < 16" for i j
    using blk [of "16 * j + i"] that by (simp add: add.assoc)
  then have d1: "dir_on m b 1 (one_dir name 1)" unfolding dir_on_def using k(2)
    by (intro conjI exI [of _ 1]) (auto simp: one_dir_def slot_on_def)
  have ty: "(ld32 m (inode b i + of_nat 0) = INODE_DIR) = (i \<le> 1)" if "i < 2048" for i
  proof -
    consider "i = 0" | "i = 1" | "1 < i" by linarith
    then show ?thesis by cases (use root(1) k(1) z that in simp_all)
  qed
  have dd: "dir_on m b i (one_dir name i)" if "i \<le> 1" for i using d0 d1 that by (cases i) auto
  show ?thesis unfolding tree_def using root(2) ty dd by simp
qed

lemma path_at_frame:
  assumes "path_at s b p cs" and "eq_out A (mem s) m'" and "A \<subseteq> disk b"
  shows "path_at (s\<lparr>mem := m'\<rparr>) b p cs"
proof -
  have c: "cstr (mem s) p (spell cs)" "off_disk b p (length (spell cs) + 1)"
    "cstr (mem s) (lit_delim s) [delim]" "off_disk b (lit_delim s) 2" using assms(1) by (auto simp: path_at_def)
  have "cstr m' p (spell cs)" by (rule cstr_cong [OF c(1)], rule off_disk_byte [OF assms(2,3) c(2)]) simp
  moreover have "cstr m' (lit_delim s) [delim]" by (rule cstr_cong [OF c(3)], rule off_disk_byte [OF assms(2,3) c(4)]) simp
  ultimately show ?thesis using assms(1) by (simp add: path_at_def)
qed

lemma fresh_dir:
  assumes b: "0 < b" "b + 0x200000 \<le> two32" and p: "path_ok s b p name"
  shows "\<exists>s0 m1. init_rdisk (of_nat b) s = Some s0 \<and> rd_mkdir p s0 = Some (0, s0\<lparr>mem := m1\<rparr>) \<and>
     disk_at (s0\<lparr>mem := m1\<rparr>) b \<and> tree m1 b (one_dir name) (\<lambda>k. k \<le> 1) \<and> eq_out (disk b) (mem s) m1 \<and>
     lit_delim s0 = lit_delim s"
proof -
  obtain m where i: "init_rdisk (of_nat b) s = Some (s\<lparr>mem := m, superblk := of_nat b, inode_array := of_nat (b + 0x4000),
      blk_bitmap := of_nat (b + 0x24000), root_blk := of_nat (b + 0x64000), fs_head_lock := 1\<rparr>)" "root_dir m b (replicate 16 None)"
    and z: "\<forall>k i. 0 < k \<longrightarrow> k < 2048 \<longrightarrow> i \<le> 60 \<longrightarrow> ld32 m (inode b k + of_nat i) = 0"
    and f: "free_blocks b m = {1..1024}" "\<forall>j \<le> 1024. \<forall>i < 256. m (blk b j + of_nat i) = 0" "eq_out (disk b) (mem s) m"
    using init_rdisk_fresh [OF b, of s] by blast
  define s0 where "s0 = s\<lparr>mem := m, superblk := of_nat b, inode_array := of_nat (b + 0x4000),
      blk_bitmap := of_nat (b + 0x24000), root_blk := of_nat (b + 0x64000), fs_head_lock := 1\<rparr>"
  have m: "mem s0 = m" and d: "disk_at s0 b" using b by (simp_all add: s0_def disk_at_def)
  have p0: "path_ok s0 b p name" using path_ok_frame [OF p f(3)] by (simp add: path_ok_def s0_def)
  have e1: "ld32 (mem s0) (inode b 1) = INODE_EMPTY" "\<forall>j < 1. ld32 (mem s0) (inode b j) \<noteq> INODE_EMPTY"
    using z [rule_format, of 1 0] i(2) m by (simp_all add: root_dir_def)
  have min: "Min {1..1024 :: nat} = 1" by (intro Min_eqI) auto
  let ?A = "bits b \<union> zone (inode_pos b 1) 16 \<union> zone (ent_pos b 0) 16"
  have fs: "free_slot (replicate 16 None) = 0" by (simp add: free_slot_def)
  obtain m1 where m1: "rd_mkdir p s0 = Some (0, s0\<lparr>mem := m1\<rparr>)" "root_dir m1 b (one_dir name 0)" "ld32 m1 (inode b 1) = INODE_DIR"
    "ld32 m1 (inode b 1 + of_nat 12) = blk b 1" "eq_out ?A m m1"
    using rd_mkdir_fills [OF d _ _ p0 _ e1, of "replicate 16 None"] i(2) f(1) m min fs by (auto simp: one_dir_def)
  have "tree m1 b (one_dir name) (\<lambda>k. k \<le> 1)"
  proof (rule one_dir_tree [OF b(2) m1(2) _ _ m1(4)])
    show "ld32 m1 (inode b 1 + of_nat 0) = INODE_DIR" "delim \<notin> set name" using m1(3) p by (simp_all add: path_ok_def)
    show "ld32 m1 (inode b k + of_nat 0) = 0" if "1 < k" "k < 2048" for k
    proof -
      have "zone (inode_pos b k + 0) 4 \<inter> ?A = {}" using that by (auto simp: place_defs ent_pos_def)
      then show ?thesis using inode_word [OF m1(5) b(2) that(2), of 0] z [rule_format, of k 0] that by simp
    qed
    show "m1 (blk b 1 + of_nat i) = 0" if "i < 256" for i
    proof -
      have "block b 1 \<inter> ?A = {}" by (auto simp: place_defs ent_pos_def)
      then show ?thesis using block_byte [OF m1(5) b(2), of 1 i] f(2) [rule_format, of 1 i] that by simp
    qed
  qed
  moreover have "?A \<subseteq> disk b" by (auto simp: place_defs ent_pos_def)
  then have "eq_out (disk b) (mem s) m1" by (intro eq_out_trans [OF f(3) eq_out_mono [OF m1(5)]]) auto
  ultimately show ?thesis using i(1) m1(1) disk_at_mem [OF d, of m1]
    by (intro exI [of _ s0] exI [of _ m1]) (simp add: s0_def)
qed

section \<open>Properties\<close>

text \<open>
  C14: looking up a path of any depth in a file system of any shape returns, and computes \<open>resolve\<close> on the directories' slots:
  each component is decided by the first slot that is empty or whose name is a prefix of it; a directory is entered for the
  rest of the path, a file ends the lookup whatever the rest is, an empty slot sends the rest to the root directory, and a path
  that ends at a directory is not found. What is found is the inode of a file, never of a directory.
\<close>

theorem get_file_inode_resolves:
  assumes "disk_at s b" and "tree (mem s) b D dir" and "path_at s b p cs"
  shows "get_file_inode p (root_blk s) s = Some (case resolve D dir 0 cs of None \<Rightarrow> 0 | Some k \<Rightarrow> inode b k) \<and>
     (\<forall>k. resolve D dir 0 cs = Some k \<longrightarrow> k < 2048 \<and> inode b k \<noteq> 0 \<and> ld32 (mem s) (inode b k) \<noteq> INODE_DIR)"
proof -
  have t: "dir 0" "\<And>k. k < 2048 \<Longrightarrow> (ld32 (mem s) (inode b k + of_nat 0) = INODE_DIR) = dir k"
    using assms(2) by (auto simp: tree_def)
  have "k < 2048 \<and> inode b k \<noteq> 0 \<and> ld32 (mem s) (inode b k) \<noteq> INODE_DIR" if r: "resolve D dir 0 cs = Some k" for k
  proof -
    have "k < 2048" using resolve_bound [OF assms(2) _ t(1) r] by simp
    then show ?thesis using t(2) [of k] resolve_not_dir [OF r] inode_nonnull disk_fit [OF assms(1)] by auto
  qed
  then show ?thesis using lookup_path [OF assms] by (auto simp: found_def)
qed

text \<open>
  A disk with \<open>/d\<close> (a directory, inode 1), \<open>/f\<close> (inode 2) and \<open>/d/g\<close> (inode 3), written byte by byte; the paths \<open>/d/g\<close>,
  \<open>/x/f\<close>, \<open>/d/h\<close> and \<open>/f/h\<close> are at 0x92000, 0x92010, 0x92020 and 0x92030.
\<close>

definition demo_tree :: mem where
  "demo_tree a = (case map_of [(0x104000, 1), (0x10400D, 0x40), (0x10400E, 0x16), (0x104040, 1), (0x10404D, 0x41), (0x10404E, 0x16),
     (0x104080, 2), (0x1040C0, 2), (0x164000, 100), (0x16400E, 1), (0x164010, 102), (0x16401E, 2), (0x164100, 103), (0x16410E, 3),
     (0x90000, 47), (0x92000, 47), (0x92001, 100), (0x92002, 47), (0x92003, 103), (0x92010, 47), (0x92011, 120), (0x92012, 47), (0x92013, 102),
     (0x92020, 47), (0x92021, 100), (0x92022, 47), (0x92023, 104), (0x92030, 47), (0x92031, 102), (0x92032, 47), (0x92033, 104),
     (0x92040, 47), (0x92041, 100)]
     (unat a) of None \<Rightarrow> 0 | Some v \<Rightarrow> v)"

definition demo_slots :: "nat \<Rightarrow> slot list" where
  "demo_slots k = (if k = 0 then [Some ([100], 1), Some ([102], 2), None] @ replicate 13 None else Some ([103], 3) # replicate 15 None)"

lemma demo_tree_paths:
  "path_at (demo_fs demo_tree) 0x100000 0x92000 [[100], [103]]" "path_at (demo_fs demo_tree) 0x100000 0x92010 ([[120]] @ [[102]])"
  "path_at (demo_fs demo_tree) 0x100000 0x92020 ([[100]] @ [[104]])" "path_at (demo_fs demo_tree) 0x100000 0x92030 ([[102]] @ [[104]])"
  by (simp_all add: path_at_def names_ok_def off_disk_def away_def demo_fs_def demo_tree_def)

definition demo_bytes :: "nat set" where
  "demo_bytes = {0x104000, 0x10400D, 0x10400E, 0x104040, 0x10404D, 0x10404E, 0x104080, 0x1040C0, 0x164000, 0x16400E, 0x164010,
     0x16401E, 0x164100, 0x16410E} \<union> {0x90000..0x92041}"

lemma demo_tree_zero: "unat a \<notin> demo_bytes \<Longrightarrow> demo_tree a = 0"
  unfolding demo_tree_def demo_bytes_def by (auto simp: map_of_eq_None_iff split: option.split dest!: map_of_SomeD)

lemma demo_tree_inode:
  assumes "k < 2048"
  shows "ld32 demo_tree (inode 0x100000 k + of_nat 0) = (if k \<le> 1 then 1 else if k \<le> 3 then 2 else 0)"
    "ld32 demo_tree (inode 0x100000 k + of_nat 12) = (if k = 0 then 0x164000 else if k = 1 then 0x164100 else 0)"
proof -
  have z: "ld32 demo_tree (inode 0x100000 k + of_nat i) = 0" if k4: "4 \<le> k" and i: "i \<le> 60" for i
  proof -
    have "demo_tree (inode 0x100000 k + of_nat i + of_nat j) = 0" if "j < 4" for j
    proof (rule demo_tree_zero)
      have "unat (inode 0x100000 k + of_nat i + of_nat j) = 0x104000 + 64 * k + i + j"
        using unat_plus_of_nat [of "inode 0x100000 k" "i + j"] unat_inode(1) [of "0x100000" k 0] assms i that
        by (simp add: inode_pos_def add.assoc)
      then show "unat (inode 0x100000 k + of_nat i + of_nat j) \<notin> demo_bytes" using k4 assms i that by (auto simp: demo_bytes_def)
    qed
    from this [of 0] this [of 1] this [of 2] this [of 3] show ?thesis by (simp add: ld32_def)
  qed
  have split: "k = 0 \<or> k = 1 \<or> k = 2 \<or> k = 3 \<or> 4 \<le> k" by linarith
  show "ld32 demo_tree (inode 0x100000 k + of_nat 0) = (if k \<le> 1 then 1 else if k \<le> 3 then 2 else 0)"
    using split z [of 0] by (elim disjE) (simp_all add: ld32_def demo_tree_def inode_pos_def)
  show "ld32 demo_tree (inode 0x100000 k + of_nat 12) = (if k = 0 then 0x164000 else if k = 1 then 0x164100 else 0)"
    using split z [of 12] by (elim disjE) (simp_all add: ld32_def demo_tree_def inode_pos_def)
qed

lemma demo_tree_slot:
  assumes "q \<le> 1" and "j < 16"
  shows "slot_on demo_tree (blk 0x100000 q + of_nat (16 * j)) (demo_slots q ! j)"
proof (cases "q = 0 \<and> j \<le> 1 \<or> q = 1 \<and> j = 0")
  case True
  then have "q = 0 \<and> j = 0 \<or> q = 0 \<and> j = 1 \<or> q = 1 \<and> j = 0" by auto
  then show ?thesis by (elim disjE) (simp_all add: slot_on_def demo_slots_def blk_pos_def demo_tree_def ld16_def)
next
  case False
  have "demo_tree (blk 0x100000 q + of_nat (16 * j) + of_nat i) = 0" if "i < 16" for i
  proof (rule demo_tree_zero)
    have "unat (blk 0x100000 q + of_nat (16 * j) + of_nat i) = 0x164000 + 256 * q + (16 * j + i)"
      using unat_plus_of_nat [of "blk 0x100000 q" "16 * j + i"] unat_blk(1) [of "0x100000" q] assms that
      by (simp add: blk_pos_def add.assoc)
    then show "unat (blk 0x100000 q + of_nat (16 * j) + of_nat i) \<notin> demo_bytes"
      using False assms that by (cases "q = 0") (auto simp: demo_bytes_def)
  qed
  moreover have "demo_slots q ! j = None"
    using False assms by (auto simp: demo_slots_def nth_Cons' nth_append)
  ultimately show ?thesis by (simp add: slot_on_def)
qed

lemma demo_tree_ok: "tree demo_tree 0x100000 demo_slots (\<lambda>k. k \<le> 1)"
proof -
  have "dir_on demo_tree 0x100000 k (demo_slots k)" if "k \<le> 1" for k
    unfolding dir_on_def
  proof (intro conjI exI [of _ k] allI impI)
    show "length (demo_slots k) = 16" by (simp add: demo_slots_def)
    show "ld32 demo_tree (inode 0x100000 k + of_nat 12) = blk 0x100000 k"
      using demo_tree_inode(2) [of k] that by (cases k) (simp_all add: blk_pos_def)
  qed (use that demo_tree_slot [OF that] in simp_all)
  then show ?thesis using demo_tree_inode demo_tree_inode(2) [of 0] by (auto simp: tree_def blk_pos_def)
qed

theorem get_file_inode_resolves_witness:
  "get_file_inode 0x92000 0x164000 (demo_fs demo_tree) = Some 0x1040C0 \<and>
     get_file_inode 0x92010 0x164000 (demo_fs demo_tree) = Some 0x104080"
proof -
  have "root_blk (demo_fs demo_tree) = 0x164000" by (simp add: demo_fs_def)
  moreover have "resolve demo_slots (\<lambda>k. k \<le> 1) 0 [[100], [103]] = Some 3" "resolve demo_slots (\<lambda>k. k \<le> 1) 0 [[120], [102]] = Some 2"
    by (simp_all add: demo_slots_def)
  ultimately show ?thesis
    using get_file_inode_resolves [OF demo_fs_disk, of demo_tree demo_slots] demo_tree_ok demo_tree_paths(1,2)
    by (simp add: inode_pos_def)
qed

text \<open>
  C15: nothing is created or removed below the root directory. For a path of two components or more, \<open>rd_create\<close> and \<open>rd_mkdir\<close> look up
  the path without its last component; if that is not found, and so if it is a directory, they return EBADPATH and change
  nothing, and if it is found it is a file, whose inode has no directory block, and its null pointer is followed. In the same
  way \<open>rd_unlink\<close> of a file that is found, but whose directory is not, follows a null pointer.
\<close>

theorem below_root_refused:
  assumes "disk_at s b" and "tree (mem s) b D dir" and "path_at s b p (cs @ [c])" and "cs \<noteq> []"
    and "\<forall>k < 2048. \<not> dir k \<longrightarrow> ld32 (mem s) (inode b k + of_nat 12) = 0"
  shows "rd_create p s = (if resolve D dir 0 cs = None then Some (EBADPATH, s) else None) \<and>
     rd_mkdir p s = (if resolve D dir 0 cs = None then Some (EBADPATH, s) else None) \<and>
     (resolve D dir 0 (cs @ [c]) = None \<longrightarrow> rd_unlink p s = Some (EBADPATH, s)) \<and>
     (\<forall>k. resolve D dir 0 (cs @ [c]) = Some k \<longrightarrow> resolve D dir 0 cs = None \<longrightarrow> not_open s b k \<longrightarrow> rd_unlink p s = None)"
proof -
  have "i < 2048 \<and> ld32 (mem s) (inode b i + of_nat 12) = 0" if r: "resolve D dir 0 cs = Some i" for i
    using resolve_bound [OF assms(2) _ _ r] resolve_not_dir [OF r] assms(2,5) by (auto simp: tree_def)
  then show ?thesis using new_entry_deep [OF assms(1-4)] unlink_deep [OF assms(1-4)] by (simp add: rd_create_def rd_mkdir_def)
qed

theorem below_root_refused_witness:
  "rd_create 0x92020 (demo_fs demo_tree) = Some (EBADPATH, demo_fs demo_tree) \<and> rd_mkdir 0x92030 (demo_fs demo_tree) = None \<and>
     rd_unlink 0x92010 (demo_fs demo_tree) = None"
proof -
  have r: "resolve demo_slots (\<lambda>k. k \<le> 1) 0 [[100]] = None" "resolve demo_slots (\<lambda>k. k \<le> 1) 0 [[102]] = Some 2"
    "resolve demo_slots (\<lambda>k. k \<le> 1) 0 [[120]] = None" "resolve demo_slots (\<lambda>k. k \<le> 1) 0 [[120], [102]] = Some 2"
    by (simp_all add: demo_slots_def)
  have z: "\<forall>k < 2048. \<not> k \<le> 1 \<longrightarrow> ld32 demo_tree (inode 0x100000 k + of_nat 12) = 0" using demo_tree_inode(2) by simp
  have t: "tree (mem (demo_fs demo_tree)) 0x100000 demo_slots (\<lambda>k. k \<le> 1)" using demo_tree_ok by simp
  have "ld32 demo_tree (0x80000 + of_nat (40 + 4 * i)) = 0" if "i < 16" for i
  proof -
    have "demo_tree (0x80000 + of_nat (40 + 4 * i) + of_nat j) = 0" if "j < 4" for j
    proof (rule demo_tree_zero)
      have "unat (0x80000 + of_nat (40 + 4 * i) + of_nat j :: addr) = 0x80000 + (40 + 4 * i + j)"
        using unat_plus_of_nat [of "0x80000" "40 + 4 * i + j"] \<open>i < 16\<close> \<open>j < 4\<close> by (simp add: add.assoc)
      then show "unat (0x80000 + of_nat (40 + 4 * i) + of_nat j :: addr) \<notin> demo_bytes"
        using \<open>i < 16\<close> \<open>j < 4\<close> by (auto simp: demo_bytes_def)
    qed
    from this [of 0] this [of 1] this [of 2] this [of 3] show ?thesis by (simp add: ld32_def)
  qed
  then have "not_open (demo_fs demo_tree) 0x100000 2" by (simp add: not_open_def off_disk_def Let_def)
  then show ?thesis using below_root_refused [OF demo_fs_disk t demo_tree_paths(2)] below_root_refused [OF demo_fs_disk t demo_tree_paths(3)] below_root_refused [OF demo_fs_disk t demo_tree_paths(4)] z r
    by (simp del: resolve.simps)
qed

text \<open>
  C23: on a new disk with one directory, made by \<open>rd_mkdir\<close>, every path of two components or more is refused, also below that
  directory: \<open>rd_create\<close> and \<open>rd_mkdir\<close> return EBADPATH and change nothing, and the path is not found.
\<close>

theorem new_directory_unusable:
  assumes "0 < b" and "b + 0x200000 \<le> two32" and "path_ok s b p name" and "path_at s b q (cs @ [c])" and "cs \<noteq> []"
  shows "\<exists>s0 s1. init_rdisk (of_nat b) s = Some s0 \<and> rd_mkdir p s0 = Some (0, s1) \<and>
     rd_create q s1 = Some (EBADPATH, s1) \<and> rd_mkdir q s1 = Some (EBADPATH, s1) \<and> get_file_inode q (root_blk s1) s1 = Some 0"
proof -
  obtain s0 m1 where r: "init_rdisk (of_nat b) s = Some s0" "rd_mkdir p s0 = Some (0, s0\<lparr>mem := m1\<rparr>)" "disk_at (s0\<lparr>mem := m1\<rparr>) b"
    "tree m1 b (one_dir name) (\<lambda>k. k \<le> 1)" "eq_out (disk b) (mem s) m1" "lit_delim s0 = lit_delim s"
    using fresh_dir [OF assms(1-3)] by blast
  have q: "path_at (s0\<lparr>mem := m1\<rparr>) b q (cs @ [c])"
    using path_at_frame [OF assms(4) r(5)] r(6) by (simp add: path_at_def)
  have none: "resolve (one_dir name) (\<lambda>k. k \<le> 1) 0 xs = None" for xs
    by (rule resolve_all_dirs) (auto simp: one_dir_def in_set_conv_nth nth_list_update split: if_splits)
  have new: "new_entry ty finish q (s0\<lparr>mem := m1\<rparr>) = Some (EBADPATH, s0\<lparr>mem := m1\<rparr>)" for ty finish
    using new_entry_deep [OF r(3) _ q assms(5), of "one_dir name"] r(4) none by simp
  have "get_file_inode q (root_blk (s0\<lparr>mem := m1\<rparr>)) (s0\<lparr>mem := m1\<rparr>) = Some 0"
    using lookup_path [OF r(3) _ q] r(4) none by (simp add: found_def)
  then show ?thesis using r(1,2) new by (intro exI [of _ s0] exI [of _ "s0\<lparr>mem := m1\<rparr>"]) (simp add: rd_create_def rd_mkdir_def)
qed

theorem new_directory_unusable_witness:
  "\<exists>s0 s1. init_rdisk 0x100000 (demo_fs demo_tree) = Some s0 \<and> rd_mkdir 0x92040 s0 = Some (0, s1) \<and>
     rd_create 0x92000 s1 = Some (EBADPATH, s1)"
proof -
  have "path_ok (demo_fs demo_tree) 0x100000 0x92040 [100]"
    by (simp add: path_ok_def off_disk_def away_def demo_fs_def demo_tree_def)
  moreover have "path_at (demo_fs demo_tree) 0x100000 0x92000 ([[100]] @ [[103]])" using demo_tree_paths(1) by simp
  ultimately show ?thesis
    using new_directory_unusable [of "0x100000" "demo_fs demo_tree" "0x92040" "[100]" "0x92000" "[[100]]" "[103]"] by auto
qed

end
