(* ===== verification/Test_Rd.thy ===== *)
theory Test_Rd
  imports Ramdisk_Dirs Format Interrupt
begin

text \<open>
  The test program of the file system, src/MemeOS/src/test_rd.c: \<open>run_tests\<close> with its five tests and the two threads
  that the last one creates. The record \<open>tests\<close> adds the addresses of the module's static buffers, of its path
  literals (\<open>lit_path\<close>, by their text) and of its thread functions, which the linker chooses.

  A stage of \<open>run_tests\<close> yields \<open>Inl\<close> with the value that the function returns there, or \<open>Inr\<close> with what the next
  stage uses. The first test is followed to its end: it does not pass.
\<close>

section \<open>The program\<close>

record tests = fs +
  pathname :: addr
  data1 :: addr
  data2 :: addr
  data3 :: addr
  scratchpad :: addr
  lit_path :: "string \<Rightarrow> addr"
  rd_test_fn :: "nat \<Rightarrow> addr"

definition TEST_SUCCESS :: addr where "TEST_SUCCESS = 1"
definition TEST_FAILURE :: addr where "TEST_FAILURE = 0"
definition MAX_FILES :: nat where "MAX_FILES = 16"

abbreviation (input) data1_size :: u32 where "data1_size \<equiv> 8 * 256"
abbreviation (input) data2_size :: u32 where "data2_size \<equiv> 64 * 256"
abbreviation (input) data3_size :: u32 where "data3_size \<equiv> 64 * 64 * 256"

type_synonym ('b, 'a) stage = "'a tests_scheme \<Rightarrow> ((addr + 'b) \<times> 'a tests_scheme) option"

definition and_then :: "((addr + 'b) \<times> 's) option \<Rightarrow> ('b \<Rightarrow> 's \<Rightarrow> ((addr + 'c) \<times> 's) option) \<Rightarrow> ((addr + 'c) \<times> 's) option" where
  "and_then x f = do { (r, s) \<leftarrow> x; case r of Inl v \<Rightarrow> Some (Inl v, s) | Inr y \<Rightarrow> f y s }"

text \<open>The report after every call: a negative status is printed after the message and ends the tests.\<close>

definition passed :: "string \<Rightarrow> (u32 \<times> 'a tests_scheme) option \<Rightarrow> ((addr + u32) \<times> 'a tests_scheme) option" where
  "passed msg call = do {
     (retval, s) \<leftarrow> call;
     if sint retval < 0 then do {
       s1 \<leftarrow> printf (msg @ '' status: %d'' @ nl) [Word retval] s;
       Some (Inl TEST_FAILURE, s1) }
     else Some (Inr retval, s) }"

text \<open>Test 1: create \<open>MAX_FILES + 1\<close> files (the last creation may fail), then remove \<open>MAX_FILES\<close>.\<close>

definition put_name :: "u8 \<Rightarrow> 'a tests_scheme \<Rightarrow> 'a tests_scheme option" where
  "put_name c s = do {
     m1 \<leftarrow> sprintf (mem s) (pathname s) (chars ''/file'') [];
     m2 \<leftarrow> wr8 m1 (pathname s) 5 c;
     Some (s\<lparr>mem := m2\<rparr>) }"

definition clear_name :: "'a tests_scheme \<Rightarrow> 'a tests_scheme option" where
  "clear_name s = do { m \<leftarrow> memset (mem s) (pathname s) 0 80; Some (s\<lparr>mem := m\<rparr>) }"

fun create_files :: "nat \<Rightarrow> nat \<Rightarrow> u8 \<Rightarrow> (unit, 'a) stage" where
  "create_files i 0 c s = Some (Inr (), s)"
| "create_files i (Suc n) c s = do {
     s1 \<leftarrow> put_name c s;
     (retval, s2) \<leftarrow> rd_create (pathname s1) s1;
     s3 \<leftarrow> (if sint retval < 0
       then printf (''rd_create: File creation error! status: %d (%s)'' @ nl) [Word retval, Word (pathname s2)] s2
       else Some s2);
     if sint retval < 0 \<and> i \<noteq> MAX_FILES then Some (Inl TEST_FAILURE, s3)
     else do { s4 \<leftarrow> clear_name s3; create_files (i + 1) n (c + 1) s4 } }"

fun unlink_files :: "nat \<Rightarrow> u8 \<Rightarrow> (unit, 'a) stage" where
  "unlink_files 0 c s = Some (Inr (), s)"
| "unlink_files (Suc n) c s = do {
     s1 \<leftarrow> put_name c s;
     and_then (passed ''unlink: File deletion error!'' (rd_unlink (pathname s1) s1)) (\<lambda>_ s2. do {
       s3 \<leftarrow> clear_name s2;
       unlink_files n (c + 1) s3 }) }"

definition test1 :: "(unit, 'a) stage" where
  "test1 s = and_then (create_files 0 (MAX_FILES + 1) (ch CHR ''0'') s) (\<lambda>_. unlink_files MAX_FILES (ch CHR ''0''))"

text \<open>Test 2: one file of the largest size, written in three calls; its result is the descriptor.\<close>

definition test2 :: "(u32, 'a) stage" where
  "test2 s =
     and_then (passed ''creat: File creation error!'' (rd_create (lit_path s ''/bigfile'') s)) (\<lambda>_ s.
     and_then (passed ''open: File open error!'' (rd_open (lit_path s ''/bigfile'') s)) (\<lambda>fd s.
     and_then (passed ''write: File write STAGE1 error!'' (rd_write fd (data1 s) data1_size s)) (\<lambda>_ s.
     and_then (passed ''write: File write STAGE2 error!'' (rd_write fd (data2 s) data2_size s)) (\<lambda>_ s.
     and_then (passed ''write: File write STAGE3 error!'' (rd_write fd (data3 s) data3_size s)) (\<lambda>_ s.
     do { s1 \<leftarrow> printf (''test2 ok'' @ nl) [] s; Some (Inr fd, s1) })))))"

text \<open>Test 3: read it back in three calls, showing what was read, then close and remove it.\<close>

definition read_back :: "string \<Rightarrow> u32 \<Rightarrow> u32 \<Rightarrow> (unit, 'a) stage" where
  "read_back msg fd n s =
     and_then (passed msg (rd_read fd (scratchpad s) n s)) (\<lambda>_ s.
     do { s1 \<leftarrow> printf (''Data at addr: %s'' @ nl) [Word (scratchpad s)] s; Some (Inr (), s1) })"

definition test3 :: "u32 \<Rightarrow> (unit, 'a) stage" where
  "test3 fd s =
     and_then (passed ''lseek: File seek error!'' (rd_lseek fd 0 0 s)) (\<lambda>_ s.
     and_then (read_back ''read: File read STAGE1 error!'' fd data1_size s) (\<lambda>_ s.
     and_then (read_back ''read: File read STAGE2 error!'' fd data2_size s) (\<lambda>_ s.
     and_then (read_back ''read: File read STAGE3 error!'' fd data3_size s) (\<lambda>_ s.
     and_then (passed ''close: File close error!'' (rd_close fd s)) (\<lambda>_ s.
     and_then (passed ''unlink: /bigfile file deletion error!'' (rd_unlink (lit_path s ''/bigfile'') s)) (\<lambda>_ s.
     Some (Inr (), s)))))))"

text \<open>Test 4: a directory with two directories in it, whose entries are listed until \<open>rd_readdir\<close> returns 0.\<close>

partial_function (option) list_entries :: "u32 \<Rightarrow> 'a tests_scheme \<Rightarrow> ((addr + unit) \<times> 'a tests_scheme) option" where
  "list_entries fd s = do {
     (retval, s1) \<leftarrow> rd_readdir fd (scratchpad s) s;
     if retval = 0 then Some (Inr (), s1)
     else if sint retval < 0 then do {
       s2 \<leftarrow> printf (''readdir: Directory read error! status: %d'' @ nl) [Word retval] s1;
       Some (Inl TEST_FAILURE, s2) }
     else do {
       s2 \<leftarrow> printf (''Contents at addr: [%s,%x]'' @ nl) [Word (scratchpad s1), Word (scratchpad s1 + 14)] s1;
       list_entries fd s2 } }"

definition test4 :: "(unit, 'a) stage" where
  "test4 s =
     and_then (passed ''mkdir: Directory 1 creation error!'' (rd_mkdir (lit_path s ''/dir1'') s)) (\<lambda>_ s.
     and_then (passed ''mkdir: Directory 2 creation error!'' (rd_mkdir (lit_path s ''/dir1/dir2'') s)) (\<lambda>_ s.
     and_then (passed ''mkdir: Directory 3 creation error!'' (rd_mkdir (lit_path s ''/dir1/dir3'') s)) (\<lambda>_ s.
     and_then (passed ''open: Directory open error!'' (rd_open (lit_path s ''/dir1'') s)) (\<lambda>fd s.
     do { m \<leftarrow> memset (mem s) (scratchpad s) 0 (data3_size + 1); list_entries fd (s\<lparr>mem := m\<rparr>) }))))"

text \<open>Test 5: two threads. A thread that could not be created is reported, and the tests succeed.\<close>

definition start_thread :: "string \<Rightarrow> nat \<Rightarrow> 'a tests_scheme \<Rightarrow> 'a tests_scheme option" where
  "start_thread pre k s = do {
     (tid, s1) \<leftarrow> kthread_create (rd_test_fn s k) 0 s;
     if tid = - 1
     then printf (pre @ ''    Could not create thread '' @ [char_of (48 + k)] @ nl) [] s1
     else printf (pre @ ''    Thread '' @ [char_of (48 + k)] @ '' created with tid = %d'' @ nl) [Word tid] s1 }"

definition test5 :: "(unit, 'a) stage" where
  "test5 s = do { s1 \<leftarrow> start_thread '''' 0 s; s2 \<leftarrow> start_thread nl 1 s1; Some (Inr (), s2) }"

definition fill_data :: "'a tests_scheme \<Rightarrow> 'a tests_scheme option" where
  "fill_data s = do {
     m1 \<leftarrow> memset (mem s) (data1 s) (ch CHR ''1'') data1_size;
     m2 \<leftarrow> memset m1 (data2 s) (ch CHR ''2'') data2_size;
     m3 \<leftarrow> memset m2 (data3 s) (ch CHR ''3'') data3_size;
     Some (s\<lparr>mem := m3\<rparr>) }"

definition run_tests :: "'a tests_scheme \<Rightarrow> (addr \<times> 'a tests_scheme) option" where
  "run_tests s = do {
     s1 \<leftarrow> fill_data s;
     (r, s2) \<leftarrow> and_then (test1 s1) (\<lambda>_ s. and_then (test2 s) (\<lambda>fd s. and_then (test3 fd s) (\<lambda>_ s.
       and_then (test4 s) (\<lambda>_ s. test5 s))));
     Some (case r of Inl v \<Rightarrow> v | Inr _ \<Rightarrow> TEST_SUCCESS, s2) }"

text \<open>The part of \<open>init\<close> that \<open>RUN_TEST\<close> compiles in: a disk in memory of the allocator, then the tests.\<close>

definition init_run_test :: "'a tests_scheme \<Rightarrow> (addr \<times> 'a tests_scheme) option" where
  "init_run_test s = do {
     s1 \<leftarrow> cls s;
     s2 \<leftarrow> printf ''ram disk init ... '' [] s1;
     (ramdisk_base_addr, s3) \<leftarrow> kmalloc UFS_DISK_SIZE s2;
     s4 \<leftarrow> init_rdisk ramdisk_base_addr s3;
     s5 \<leftarrow> printf (''done.'' @ nl) [] s4;
     s6 \<leftarrow> printf (''starting tests...'' @ nl) [] s5;
     run_tests s6 }"

text \<open>The threads of test 5: 300 files each, in the one \<open>pathname\<close>.\<close>

fun create_numbered :: "string \<Rightarrow> nat \<Rightarrow> nat \<Rightarrow> 'a tests_scheme \<Rightarrow> (addr \<times> 'a tests_scheme) option" where
  "create_numbered k i 0 s = Some (0, s)"
| "create_numbered k i (Suc n) s = do {
     m \<leftarrow> sprintf (mem s) (pathname s) (chars (''/file_t'' @ k @ ''_%d'')) [Word (of_nat i)];
     (retval, s1) \<leftarrow> rd_create (pathname s) (s\<lparr>mem := m\<rparr>);
     if sint retval < 0 then do {
       s2 \<leftarrow> printf (''(thread'' @ k @ '') create: File creation error! status: %d'' @ nl) [Word retval] s1;
       Some (TEST_FAILURE, s2) }
     else do { s2 \<leftarrow> clear_name s1; create_numbered k (i + 1) n s2 } }"

definition rd_test_thread0 :: "addr \<Rightarrow> 'a tests_scheme \<Rightarrow> (addr \<times> 'a tests_scheme) option" where
  "rd_test_thread0 arg s = create_numbered ''0'' 0 300 s"

definition rd_test_thread1 :: "addr \<Rightarrow> 'a tests_scheme \<Rightarrow> (addr \<times> 'a tests_scheme) option" where
  "rd_test_thread1 arg s = create_numbered ''1'' 0 300 s"

section \<open>Where the buffers are\<close>

text \<open>
  The buffers of the tests, the delimiter literal and the current task, with their sizes, are neither on the disk nor
  on the screen and do not overlap; nor do the disk and the screen. The task has no open file.
\<close>

definition buffers :: "'a tests_scheme \<Rightarrow> (addr \<times> nat) list" where
  "buffers s = [(pathname s, 80), (data1 s, 2048), (data2 s, 16384), (data3 s, 0x100000), (lit_delim s, 2), (current_task s, 112)]"

definition placed :: "'a tests_scheme \<Rightarrow> nat \<Rightarrow> bool" where
  "placed s b \<longleftrightarrow> list_all (\<lambda>(p, n). off_disk b p n \<and> away p n VIDEO 4000) (buffers s) \<and>
     sorted_wrt (\<lambda>(p, n) (q, k). away p n q k) (buffers s) \<and> (b + 0x200000 \<le> 0xB8000 \<or> 0xB8000 + 4000 \<le> b)"

definition no_files_open :: "'a tests_scheme \<Rightarrow> bool" where
  "no_files_open s \<longleftrightarrow> (\<forall>i < 16. ld32 (mem s) (current_task s + of_nat (40 + 4 * i)) = 0)"

text \<open>The inodes \<open>us\<close> are empty regular files and the others are not in use.\<close>

definition empty_files :: "mem \<Rightarrow> nat \<Rightarrow> nat set \<Rightarrow> bool" where
  "empty_files m b us \<longleftrightarrow> (\<forall>k. 0 < k \<longrightarrow> k < 2048 \<longrightarrow>
     ld32 m (inode b k + of_nat 0) = (if k \<in> us then INODE_REG else INODE_EMPTY) \<and>
     (\<forall>x \<in> {4, 48, 52}. ld32 m (inode b k + of_nat x) = 0))"

definition test_disk :: "'a tests_scheme \<Rightarrow> nat \<Rightarrow> slot list \<Rightarrow> nat set \<Rightarrow> bool" where
  "test_disk s b ds us \<longleftrightarrow> disk_at s b \<and> placed s b \<and> root_dir (mem s) b ds \<and> empty_files (mem s) b us \<and>
     cstr (mem s) (lit_delim s) [delim] \<and> no_files_open s"

definition name_clear :: "'a tests_scheme \<Rightarrow> bool" where
  "name_clear s \<longleftrightarrow> (\<forall>i < 80. mem s (pathname s + of_nat i) = 0)"

lemma test_disk_console [simp]:
  "test_disk (s\<lparr>ATTRIBUTE := a, xpos := x, ypos := y\<rparr>) b ds us = test_disk s b ds us"
  by (simp add: test_disk_def placed_def buffers_def disk_at_def no_files_open_def)

lemma test_disk_placed: "test_disk s b ds us \<Longrightarrow> placed s b"
  by (simp add: test_disk_def)

text \<open>Memory outside the disk, the literal and the task may change.\<close>

definition aside :: "'a tests_scheme \<Rightarrow> nat \<Rightarrow> addr set" where
  "aside s b = - (disk b \<union> region (lit_delim s) 2 \<union> region (current_task s) 112)"

lemma empty_files_frame:
  assumes "empty_files m b us" and "eq_out A m m'" and "A \<inter> zone (b + 0x4000) 0x20000 = {}" and "b + 0x200000 \<le> two32"
  shows "empty_files m' b us"
proof -
  have w: "ld32 m' (inode b k + of_nat x) = ld32 m (inode b k + of_nat x)" if "k < 2048" "x \<le> 60" for k x
    by (rule inode_word [OF assms(2,4) that]) (use assms(3) that in \<open>auto simp: zone_def inode_pos_def\<close>)
  show ?thesis unfolding empty_files_def
  proof (intro allI impI)
    fix k :: nat assume k: "0 < k" "k < 2048"
    then show "ld32 m' (inode b k + of_nat 0) = (if k \<in> us then INODE_REG else INODE_EMPTY) \<and> (\<forall>x \<in> {4, 48, 52}. ld32 m' (inode b k + of_nat x) = 0)"
      using assms(1) w [OF k(2), of 0] w [OF k(2), of 4] w [OF k(2), of 48] w [OF k(2), of 52] by (simp add: empty_files_def)
  qed
qed

lemma delim_frame:
  assumes "cstr m p [delim]" and "eq_out A m m'" and "A \<inter> region p 2 = {}" and "unat p + 2 \<le> two32"
  shows "cstr m' p [delim]"
proof -
  have "p + of_nat i \<notin> A" if "i < 2" for i using in_region_of_nat [of p 2 i] assms(3,4) that by blast
  then have "m' (p + of_nat i) = m (p + of_nat i)" if "i < 2" for i using eq_outD [OF assms(2)] that by blast
  from this [of 0] this [of 1] show ?thesis using assms(1) by auto
qed

lemma no_files_open_frame:
  assumes "no_files_open s" and "eq_out A (mem s) m'" and "A \<inter> region (current_task s) 112 = {}" and "unat (current_task s) + 112 \<le> two32"
  shows "no_files_open (s\<lparr>mem := m'\<rparr>)"
proof -
  have "ld32 m' (current_task s + of_nat (40 + 4 * i)) = ld32 (mem s) (current_task s + of_nat (40 + 4 * i))" if "i < 16" for i
  proof (rule eq_out_ld32 [OF assms(2)])
    have u: "unat (current_task s + of_nat (40 + 4 * i)) = unat (current_task s) + (40 + 4 * i)"
      by (rule unat_plus_of_nat) (use assms(4) that in simp)
    then show "unat (current_task s + of_nat (40 + 4 * i)) + 4 \<le> two32" using assms(4) that by simp
    have "region (current_task s + of_nat (40 + 4 * i)) 4 \<subseteq> region (current_task s) 112"
      unfolding region_def u using that by auto
    then show "region (current_task s + of_nat (40 + 4 * i)) 4 \<inter> A = {}" using assms(3) by blast
  qed
  then show ?thesis using assms(1) by (simp add: no_files_open_def)
qed

lemma away_regions: "away p n q k \<Longrightarrow> region p n \<inter> region q k = {}"
  by (auto simp: away_def region_def)

lemma screen_region: "screen = region VIDEO 4000"
  by (simp add: screen_def region_def zone_def VIDEO_def)

lemma placed_facts:
  assumes "placed s b"
  shows "off_disk b (pathname s) 80" "off_disk b (lit_delim s) 2" "off_disk b (current_task s) 112"
    "away (lit_delim s) 2 (pathname s) 80" "region (pathname s) 80 \<subseteq> aside s b" "screen \<subseteq> aside s b"
    "region (pathname s) 80 \<inter> screen = {}"
    "region (data1 s) 2048 \<union> region (data2 s) 16384 \<union> region (data3 s) 0x100000 \<subseteq> aside s b"
    "(region (data1 s) 2048 \<union> region (data2 s) 16384 \<union> region (data3 s) 0x100000) \<inter> region (pathname s) 80 = {}"
    "disk b \<inter> screen = {}"
proof -
  have p: "list_all (\<lambda>(p, n). off_disk b p n \<and> away p n VIDEO 4000) (buffers s)"
    "sorted_wrt (\<lambda>(p, n) (q, k). away p n q k) (buffers s)" "b + 0x200000 \<le> 0xB8000 \<or> 0xB8000 + 4000 \<le> b"
    using assms by (simp_all only: placed_def)
  note off = p(1) [unfolded buffers_def, simplified] and apart = p(2) [unfolded buffers_def, simplified]
  show "off_disk b (pathname s) 80" "off_disk b (lit_delim s) 2" "off_disk b (current_task s) 112" using off by simp_all
  show "away (lit_delim s) 2 (pathname s) 80" using apart by (auto simp: away_def)
  show d: "disk b \<inter> screen = {}" using p(3) by (auto simp: zone_def screen_def)
  show "region (pathname s) 80 \<inter> screen = {}" unfolding screen_region using off by (intro away_regions) simp
  have dd: "region (pathname s) 80 \<inter> disk b = {}" "region (data1 s) 2048 \<inter> disk b = {}"
    "region (data2 s) 16384 \<inter> disk b = {}" "region (data3 s) 0x100000 \<inter> disk b = {}"
    using off off_disk_region by blast+
  have l: "region (pathname s) 80 \<inter> region (lit_delim s) 2 = {}" "region (data1 s) 2048 \<inter> region (lit_delim s) 2 = {}"
    "region (data2 s) 16384 \<inter> region (lit_delim s) 2 = {}" "region (data3 s) 0x100000 \<inter> region (lit_delim s) 2 = {}"
    "region (lit_delim s) 2 \<inter> screen = {}"
    unfolding screen_region using off apart by (simp_all add: away_regions)
  have t: "region (pathname s) 80 \<inter> region (current_task s) 112 = {}" "region (data1 s) 2048 \<inter> region (current_task s) 112 = {}"
    "region (data2 s) 16384 \<inter> region (current_task s) 112 = {}" "region (data3 s) 0x100000 \<inter> region (current_task s) 112 = {}"
    "region (current_task s) 112 \<inter> screen = {}"
    unfolding screen_region using off apart by (simp_all add: away_regions)
  show "region (pathname s) 80 \<subseteq> aside s b" unfolding aside_def using dd(1) l(1) t(1) by blast
  show "screen \<subseteq> aside s b" unfolding aside_def using d l(5) t(5) by blast
  show "region (data1 s) 2048 \<union> region (data2 s) 16384 \<union> region (data3 s) 0x100000 \<subseteq> aside s b"
    unfolding aside_def using dd(2-4) l(2-4) t(2-4) by blast
  have "region (pathname s) 80 \<inter> region (data1 s) 2048 = {}" "region (pathname s) 80 \<inter> region (data2 s) 16384 = {}"
    "region (pathname s) 80 \<inter> region (data3 s) 0x100000 = {}" using apart by (simp_all add: away_regions)
  then show "(region (data1 s) 2048 \<union> region (data2 s) 16384 \<union> region (data3 s) 0x100000) \<inter> region (pathname s) 80 = {}" by blast
qed

lemma test_disk_frame:
  assumes t: "test_disk s b ds us" and e: "eq_out A (mem s) m'" and A: "A \<subseteq> aside s b"
  shows "test_disk (s\<lparr>mem := m'\<rparr>) b ds us"
proof -
  note p = placed_facts [OF test_disk_placed [OF t]]
  have A': "A \<inter> disk b = {}" "A \<inter> region (lit_delim s) 2 = {}" "A \<inter> region (current_task s) 112 = {}"
    using A by (auto simp: aside_def)
  have t': "disk_at s b" "placed s b" "root_dir (mem s) b ds" "empty_files (mem s) b us" "cstr (mem s) (lit_delim s) [delim]" "no_files_open s"
    using t by (simp_all add: test_disk_def)
  have fit: "b + 0x200000 \<le> two32" using disk_fit [OF t'(1)] by simp
  have "zone (b + 0x64000) 256 \<subseteq> disk b" "zone (inode_pos b 0) 64 \<subseteq> disk b" "zone (b + 0x4000) 0x20000 \<subseteq> disk b"
    by (auto simp: zone_def inode_pos_def)
  then have d: "A \<inter> zone (b + 0x64000) 256 = {}" "A \<inter> zone (inode_pos b 0) 64 = {}" "A \<inter> zone (b + 0x4000) 0x20000 = {}"
    using A'(1) by blast+
  have "root_dir m' b ds" by (rule root_dir_frame [OF t'(3) e d(1,2) fit])
  moreover have "empty_files m' b us" by (rule empty_files_frame [OF t'(4) e d(3) fit])
  moreover have "cstr m' (lit_delim s) [delim]" by (rule delim_frame [OF t'(5) e A'(2)]) (use p(2) in \<open>simp add: off_disk_def\<close>)
  moreover have "no_files_open (s\<lparr>mem := m'\<rparr>)" by (rule no_files_open_frame [OF t'(6) e A'(3)]) (use p(3) in \<open>simp add: off_disk_def\<close>)
  moreover have "placed (s\<lparr>mem := m'\<rparr>) b" using t'(2) by (simp add: placed_def buffers_def)
  ultimately show ?thesis using disk_at_mem [OF t'(1)] by (simp add: test_disk_def)
qed

text \<open>A call that writes to the disk only.\<close>

lemma test_disk_change:
  assumes t: "test_disk s b ds us" and e: "eq_out A (mem s) m'" and A: "A \<subseteq> disk b" and new: "root_dir m' b ds'" "empty_files m' b us'"
  shows "test_disk (s\<lparr>mem := m'\<rparr>) b ds' us'"
proof -
  note p = placed_facts [OF test_disk_placed [OF t]]
  have t': "disk_at s b" "placed s b" "cstr (mem s) (lit_delim s) [delim]" "no_files_open s" using t by (simp_all add: test_disk_def)
  have "cstr m' (lit_delim s) [delim]"
    by (rule delim_frame [OF t'(3) e]) (use A off_disk_region [OF p(2)] p(2) in \<open>auto simp: off_disk_def\<close>)
  moreover have "no_files_open (s\<lparr>mem := m'\<rparr>)"
    by (rule no_files_open_frame [OF t'(4) e]) (use A off_disk_region [OF p(3)] p(3) in \<open>auto simp: off_disk_def\<close>)
  moreover have "placed (s\<lparr>mem := m'\<rparr>) b" using t'(2) by (simp add: placed_def buffers_def)
  ultimately show ?thesis using new disk_at_mem [OF t'(1)] by (simp add: test_disk_def)
qed

lemma test_disk_step:
  assumes t: "test_disk s b ds us" and c: "console_step s s'"
  shows "test_disk s' b ds us"
proof -
  have s': "s' = s\<lparr>mem := mem s', ATTRIBUTE := ATTRIBUTE s', xpos := xpos s', ypos := ypos s'\<rparr>" "eq_out screen (mem s) (mem s')"
    using c by (simp_all add: console_step_def)
  have "test_disk (s\<lparr>mem := mem s'\<rparr>) b ds us"
    by (rule test_disk_frame [OF t s'(2)]) (rule placed_facts(6) [OF test_disk_placed [OF t]])
  then have "test_disk (s\<lparr>mem := mem s', ATTRIBUTE := ATTRIBUTE s', xpos := xpos s', ypos := ypos s'\<rparr>) b ds us" by simp
  then show ?thesis by (simp only: s'(1) [symmetric])
qed

section \<open>Creating the files\<close>

definition test_name :: "u8 \<Rightarrow> u8 list" where
  "test_name c = chars ''file'' @ [c]"

text \<open>Writing a path into the cleared buffer, whatever formatted it: the zeros after it end it.\<close>

lemma path_written:
  assumes t: "test_disk s b ds us" and z: "name_clear s" and e: "eq_out (region (pathname s) k) (mem s) m'" and k: "k = Suc (length name)"
    and w: "\<forall>i < k. m' (pathname s + of_nat i) = (delim # name) ! i" and ok: "0 \<notin> set name" "delim \<notin> set name" "name \<noteq> []" "length name \<le> 13"
  shows "path_ok (s\<lparr>mem := m'\<rparr>) b (pathname s) name" "test_disk (s\<lparr>mem := m'\<rparr>) b ds us" "eq_out (region (pathname s) 80) (mem s) m'"
proof -
  note p = placed_facts [OF test_disk_placed [OF t]]
  have sub: "region (pathname s) k \<subseteq> region (pathname s) 80" using k ok(4) by (auto simp: region_def)
  show t': "test_disk (s\<lparr>mem := m'\<rparr>) b ds us" by (rule test_disk_frame [OF t e]) (use sub p(5) in blast)
  show "eq_out (region (pathname s) 80) (mem s) m'" by (rule eq_out_mono [OF e sub])
  have fit: "unat (pathname s) + 80 \<le> two32" "pathname s \<noteq> 0" using p(1) by (auto simp: off_disk_def)
  have "pathname s + of_nat k \<notin> region (pathname s) k"
    using unat_plus_of_nat [of "pathname s" k] fit k ok(4) by (simp add: region_def)
  moreover have "mem s (pathname s + of_nat k) = 0" using z k ok(4) unfolding name_clear_def by (simp del: of_nat_Suc)
  ultimately have "m' (pathname s + of_nat k) = 0" using eq_outD [OF e] by simp
  moreover have "(delim # name) ! i \<noteq> 0" if "i < k" for i
    using that k ok(1) by (cases i) (auto simp: in_set_conv_nth)
  ultimately have "cstr m' (pathname s) (delim # name)" using w k fit ok(4) by (intro cstrI) auto
  then show "path_ok (s\<lparr>mem := m'\<rparr>) b (pathname s) name"
    using t' p(1,2,4) ok by (auto simp: path_ok_def test_disk_def off_disk_def away_def)
qed

lemma put_name_path:
  assumes t: "test_disk s b ds us" and z: "name_clear s" and c: "c \<noteq> 0" "c \<noteq> delim"
  shows "\<exists>m'. put_name c s = Some (s\<lparr>mem := m'\<rparr>) \<and> path_ok (s\<lparr>mem := m'\<rparr>) b (pathname s) (test_name c) \<and>
     test_disk (s\<lparr>mem := m'\<rparr>) b ds us \<and> eq_out (region (pathname s) 80) (mem s) m'"
proof -
  let ?p = "pathname s" and ?f = "chars ''/file''"
  have fit: "unat ?p + 80 \<le> two32" "?p \<noteq> 0" using placed_facts(1) [OF test_disk_placed [OF t]] by (auto simp: off_disk_def)
  have r: "render (\<lambda>p. None) ?f [] = Some ?f" by (simp add: chars_def)
  have len: "length ?f = 5" by (simp add: chars_def)
  obtain m1 where m1: "put_bytes (mem s) ?p ?f = Some (m1, ?p + 5)" "\<forall>i < 5. m1 (?p + of_nat i) = ?f ! i" "eq_out (region ?p 5) (mem s) m1"
    using put_bytes_region [of ?p ?f "mem s"] fit len by auto
  let ?m = "m1(?p + 5 := c)"
  have run: "put_name c s = Some (s\<lparr>mem := ?m\<rparr>)" using sprintf_render [OF r reads_none fit(2) _ subset_refl, of "mem s"] m1(1) fit len by (simp add: put_name_def)
  have u: "unat (?p + of_nat i) = unat ?p + i" if "i < 80" for i using unat_plus_of_nat [of ?p i] fit that by simp
  have "?p + 5 \<in> region ?p 6" using u [of 5] by (simp add: region_def)
  moreover have "region ?p 5 \<subseteq> region ?p 6" by (auto simp: region_def)
  ultimately have e: "eq_out (region ?p 6) (mem s) ?m" using m1(3) by (auto simp: eq_out_def)
  have w: "\<forall>i < 6. ?m (?p + of_nat i) = (delim # test_name c) ! i"
  proof (intro allI impI)
    fix i :: nat assume i: "i < 6"
    show "?m (?p + of_nat i) = (delim # test_name c) ! i"
    proof (cases "i = 5")
      case True
      then show ?thesis by (simp add: test_name_def chars_def)
    next
      case False
      then have i5: "i < 5" using i by simp
      have "?p + of_nat i \<noteq> ?p + 5" using u [of i] u [of 5] i5 by auto
      moreover have "?f ! i = (delim # test_name c) ! i"
        using i5 by (auto simp: test_name_def chars_def less_Suc_eq numeral_eq_Suc)
      ultimately show ?thesis using m1(2) i5 by simp
    qed
  qed
  have "0 \<notin> set (test_name c)" "delim \<notin> set (test_name c)" "test_name c \<noteq> []" "length (test_name c) \<le> 13" "6 = Suc (length (test_name c))"
    using c by (auto simp: test_name_def chars_def)
  with run path_written [OF t z e _ w] show ?thesis by blast
qed

lemma clear_name_clears:
  assumes t: "test_disk s b ds us"
  shows "\<exists>m'. clear_name s = Some (s\<lparr>mem := m'\<rparr>) \<and> test_disk (s\<lparr>mem := m'\<rparr>) b ds us \<and> name_clear (s\<lparr>mem := m'\<rparr>)"
proof -
  let ?p = "pathname s" and ?m = "\<lambda>a. if a \<in> region (pathname s) 80 then 0 else mem s a"
  have fit: "unat ?p + 80 \<le> two32" "?p \<noteq> 0" using placed_facts(1) [OF test_disk_placed [OF t]] by (auto simp: off_disk_def)
  have "clear_name s = Some (s\<lparr>mem := ?m\<rparr>)" using memset_eq [of ?p 80 "mem s" 0] fit by (simp add: clear_name_def)
  moreover have "test_disk (s\<lparr>mem := ?m\<rparr>) b ds us"
    by (rule test_disk_frame [OF t _ placed_facts(5) [OF test_disk_placed [OF t]]]) (simp add: eq_out_def)
  moreover have "name_clear (s\<lparr>mem := ?m\<rparr>)"
    using in_region_of_nat [of ?p 80] fit by (simp add: name_clear_def)
  ultimately show ?thesis by blast
qed

lemma files_first_free:
  assumes "test_disk s b ds {1..n}" and "n < 2047"
  shows "ld32 (mem s) (inode b (Suc n)) = INODE_EMPTY" "\<forall>j < Suc n. ld32 (mem s) (inode b j) \<noteq> INODE_EMPTY"
proof -
  have f: "empty_files (mem s) b {1..n}" "ld32 (mem s) (inode b 0) = INODE_DIR" using assms(1) by (auto simp: test_disk_def root_dir_def)
  then have e: "ld32 (mem s) (inode b k) = (if k \<le> n then INODE_REG else INODE_EMPTY)" if "0 < k" "k < 2048" for k
    using that by (simp add: empty_files_def)
  show "ld32 (mem s) (inode b (Suc n)) = INODE_EMPTY" using e [of "Suc n"] assms(2) by simp
  show "\<forall>j < Suc n. ld32 (mem s) (inode b j) \<noteq> INODE_EMPTY"
  proof (intro allI impI)
    fix j assume "j < Suc n"
    then show "ld32 (mem s) (inode b j) \<noteq> INODE_EMPTY" using e [of j] f(2) assms(2) by (cases "j = 0") auto
  qed
qed

lemma create_adds_file:
  assumes t: "test_disk s b ds {1..n}" and p: "path_ok s b (pathname s) name" and l: "None \<in> set ds" and n: "n < 2047"
  shows "\<exists>m'. rd_create (pathname s) s = Some (0, s\<lparr>mem := m'\<rparr>) \<and> test_disk (s\<lparr>mem := m'\<rparr>) b (ds[free_slot ds := Some (name, Suc n)]) {1..Suc n}"
proof -
  let ?k = "Suc n"
  let ?A = "zone (inode_pos b ?k) 8 \<union> zone (ent_pos b (free_slot ds)) 16"
  have t': "disk_at s b" "root_dir (mem s) b ds" "empty_files (mem s) b {1..n}" using t by (simp_all add: test_disk_def)
  have fit: "b + 0x200000 \<le> two32" using disk_fit [OF t'(1)] by simp
  have k: "?k < 2048" using n by simp
  obtain m' where c: "rd_create (pathname s) s = Some (0, s\<lparr>mem := m'\<rparr>)" "root_dir m' b (ds[free_slot ds := Some (name, ?k)])"
    "ld32 m' (inode b ?k) = INODE_REG" "file_size m' b ?k = 0" "eq_out ?A (mem s) m'"
    using rd_create_fills [OF t'(1,2) l p k files_first_free [OF t n]] by blast
  have f: "free_slot ds < 16" using l t'(2) free_slot_less by (auto simp: root_dir_def)
  have sub: "?A \<subseteq> disk b" using k f by (auto simp: zone_def inode_pos_def ent_pos_def)
  have w: "ld32 m' (inode b j + of_nat x) = ld32 (mem s) (inode b j + of_nat x)" if "j < 2048" "x \<le> 60" "j = ?k \<longrightarrow> 8 \<le> x" for j x
  proof (rule inode_word [OF c(5) fit that(1,2)])
    show "zone (inode_pos b j + x) 4 \<inter> ?A = {}"
      using that f k by (cases j ?k rule: linorder_cases) (auto simp: zone_def inode_pos_def ent_pos_def)
  qed
  have "empty_files m' b {1..?k}" unfolding empty_files_def
  proof (intro allI impI)
    fix j :: nat assume j: "0 < j" "j < 2048"
    have old: "ld32 (mem s) (inode b j + of_nat 0) = (if j \<in> {1..n} then INODE_REG else INODE_EMPTY)"
      "\<forall>x \<in> {4, 48, 52}. ld32 (mem s) (inode b j + of_nat x) = 0" using t'(3) j by (simp_all add: empty_files_def)
    have "ld32 m' (inode b j + of_nat 48) = 0" "ld32 m' (inode b j + of_nat 52) = 0"
      using w [OF j(2), of 48] w [OF j(2), of 52] old(2) by simp_all
    moreover have "ld32 m' (inode b j + of_nat 0) = (if j \<in> {1..?k} then INODE_REG else INODE_EMPTY)" "ld32 m' (inode b j + of_nat 4) = 0"
      using w [OF j(2), of 0] w [OF j(2), of 4] old c(3,4) by (cases "j = ?k"; simp add: file_size_def)+
    ultimately show "ld32 m' (inode b j + of_nat 0) = (if j \<in> {1..?k} then INODE_REG else INODE_EMPTY) \<and> (\<forall>x \<in> {4, 48, 52}. ld32 m' (inode b j + of_nat x) = 0)"
      by simp
  qed
  then have "test_disk (s\<lparr>mem := m'\<rparr>) b (ds[free_slot ds := Some (name, ?k)]) {1..?k}"
    by (rule test_disk_change [OF t c(5) sub c(2)])
  with c(1) show ?thesis by blast
qed

text \<open>The root directory after the files \<open>names\<close> were created on an empty disk, in this order.\<close>

definition listed :: "u8 list list \<Rightarrow> slot list" where
  "listed names = map (\<lambda>i. if i < length names then Some (names ! i, Suc i) else None) [0..<16]"

lemma free_slotI:
  assumes "n < length ds" and "ds ! n = None" and "\<forall>j < n. ds ! j \<noteq> None"
  shows "free_slot ds = n"
  using free_slot_nth [of ds] before_free_slot [of n ds] assms by (cases "free_slot ds" n rule: linorder_cases) auto

lemma listed_next:
  assumes "length names < 16"
  shows "None \<in> set (listed names)" "(listed names)[free_slot (listed names) := Some (x, Suc (length names))] = listed (names @ [x])"
proof -
  have "free_slot (listed names) = length names" by (rule free_slotI) (use assms in \<open>auto simp: listed_def\<close>)
  then show "(listed names)[free_slot (listed names) := Some (x, Suc (length names))] = listed (names @ [x])"
    using assms by (intro nth_equalityI) (auto simp: listed_def nth_list_update nth_append)
  show "None \<in> set (listed names)" using assms by (auto simp: listed_def)
qed

lemma create_step:
  assumes t: "test_disk s b (listed names) {1..length names}" and z: "name_clear s" and l: "length names < 16" and c: "c \<noteq> 0" "c \<noteq> delim"
  shows "\<exists>m'. create_files i (Suc n) c s = create_files (i + 1) n (c + 1) (s\<lparr>mem := m'\<rparr>) \<and>
     test_disk (s\<lparr>mem := m'\<rparr>) b (listed (names @ [test_name c])) {1..Suc (length names)} \<and> name_clear (s\<lparr>mem := m'\<rparr>)"
proof -
  obtain m1 where m1: "put_name c s = Some (s\<lparr>mem := m1\<rparr>)" "path_ok (s\<lparr>mem := m1\<rparr>) b (pathname s) (test_name c)"
    "test_disk (s\<lparr>mem := m1\<rparr>) b (listed names) {1..length names}" using put_name_path [OF t z c] by blast
  obtain m2 where m2: "rd_create (pathname s) (s\<lparr>mem := m1\<rparr>) = Some (0, s\<lparr>mem := m2\<rparr>)"
    "test_disk (s\<lparr>mem := m2\<rparr>) b (listed (names @ [test_name c])) {1..Suc (length names)}"
    using create_adds_file [OF m1(3)] m1(2) listed_next [OF l] l by auto
  obtain m3 where "clear_name (s\<lparr>mem := m2\<rparr>) = Some (s\<lparr>mem := m3\<rparr>)"
    "test_disk (s\<lparr>mem := m3\<rparr>) b (listed (names @ [test_name c])) {1..Suc (length names)}" "name_clear (s\<lparr>mem := m3\<rparr>)"
    using clear_name_clears [OF m2(2)] by auto
  then show ?thesis using m1(1) m2(1) by (intro exI [of _ m3]) simp
qed

lemma create_steps:
  assumes "test_disk s b (listed names) {1..length names}" and "name_clear s" and "length names + k \<le> 16"
    and "\<forall>j < k. c + of_nat j \<noteq> 0 \<and> c + of_nat j \<noteq> delim"
  shows "\<exists>m'. create_files i (k + n) c s = create_files (i + k) n (c + of_nat k) (s\<lparr>mem := m'\<rparr>) \<and>
     test_disk (s\<lparr>mem := m'\<rparr>) b (listed (names @ map (\<lambda>j. test_name (c + of_nat j)) [0..<k])) {1..length names + k} \<and> name_clear (s\<lparr>mem := m'\<rparr>)"
  using assms
proof (induction k arbitrary: s names i c)
  case 0
  then show ?case by (intro exI [of _ "mem s"]) simp
next
  case (Suc k)
  have c: "c \<noteq> 0" "c \<noteq> delim" using Suc.prems(4) by (auto dest: spec [of _ 0])
  have c': "\<forall>j < k. c + 1 + of_nat j \<noteq> 0 \<and> c + 1 + of_nat j \<noteq> delim"
  proof (intro allI impI)
    fix j assume "j < k"
    then show "c + 1 + of_nat j \<noteq> 0 \<and> c + 1 + of_nat j \<noteq> delim" using Suc.prems(4) [rule_format, of "Suc j"] by (simp add: add.assoc)
  qed
  obtain m1 where m1: "create_files i (Suc (k + n)) c s = create_files (i + 1) (k + n) (c + 1) (s\<lparr>mem := m1\<rparr>)"
    "test_disk (s\<lparr>mem := m1\<rparr>) b (listed (names @ [test_name c])) {1..length (names @ [test_name c])}" "name_clear (s\<lparr>mem := m1\<rparr>)"
    using create_step [OF Suc.prems(1,2) _ c] Suc.prems(3) by fastforce
  have l: "length (names @ [test_name c]) + k \<le> 16" using Suc.prems(3) by simp
  obtain m2 where m2: "create_files (i + 1) (k + n) (c + 1) (s\<lparr>mem := m1\<rparr>) = create_files (i + 1 + k) n (c + 1 + of_nat k) (s\<lparr>mem := m2\<rparr>)"
    "test_disk (s\<lparr>mem := m2\<rparr>) b (listed ((names @ [test_name c]) @ map (\<lambda>j. test_name (c + 1 + of_nat j)) [0..<k])) {1..length (names @ [test_name c]) + k}"
    "name_clear (s\<lparr>mem := m2\<rparr>)"
    using Suc.IH [OF m1(2,3) l c', of "i + 1"] by auto
  have "map (\<lambda>j. test_name (c + of_nat j)) [0..<Suc k] = test_name c # map (\<lambda>j. test_name (c + 1 + of_nat j)) [0..<k]"
    by (simp only: upt_conv_Cons [of 0 "Suc k"] zero_less_Suc list.map map_Suc_upt [symmetric] map_map) (simp add: comp_def add.assoc)
  then show ?case using m1(1) m2 by (intro exI [of _ m2]) (simp del: create_files.simps add: add.assoc)
qed

section \<open>Reporting\<close>

lemma putcstr_returns:
  assumes "cstr (mem s) p xs" and "tty_ok s" and "region p (Suc (length xs)) \<inter> screen = {}" and "unat p + Suc (length xs) \<le> two32"
  shows "\<exists>s'. putcstr p s = Some s' \<and> console_step s s'"
  using assms
proof (induction xs arbitrary: p s)
  case Nil
  then show ?case by (subst putcstr.simps) simp
next
  case (Cons x xs)
  obtain s1 where s1: "putchar (scast x) s = Some s1" "console_step s s1" using putchar_console [OF Cons.prems(2)] by blast
  have r: "region p (Suc (Suc (length xs))) = insert p (region (p + 1) (Suc (length xs)))"
    by (rule region_Suc) (use Cons.prems(4) in simp)
  have u: "unat (p + 1) = unat p + 1" using next_nonnull [of p "Suc (length xs)"] Cons.prems(4) by simp
  have off: "region (p + 1) (Suc (length xs)) \<inter> screen = {}" using Cons.prems(3) r by auto
  have "cstr (mem s1) (p + 1) xs"
  proof (rule cstr_cong)
    show "cstr (mem s) (p + 1) xs" using Cons.prems(1) by simp
    fix i assume "i \<le> length xs"
    then have "p + 1 + of_nat i \<in> region (p + 1) (Suc (length xs))" using in_region_of_nat [of "p + 1" "Suc (length xs)" i] u Cons.prems(4) by simp
    then show "mem s1 (p + 1 + of_nat i) = mem s (p + 1 + of_nat i)" using off s1(2) eq_outD [of screen "mem s" "mem s1"] by (auto simp: console_step_def)
  qed
  then obtain s' where "putcstr (p + 1) s1 = Some s'" "console_step s1 s'"
    using Cons.IH [OF _ console_step_ok [OF s1(2)] off] u Cons.prems(4) by auto
  then show ?case using s1 Cons.prems(1) console_step_trans [OF s1(2)] by (subst putcstr.simps) simp
qed

text \<open>A piece of a format without conversions and escapes.\<close>

lemma printf_text:
  assumes "tty_ok s" and "27 \<notin> set f" and "ch CHR ''%'' \<notin> set f"
  shows "\<exists>s'. printf_loop (f @ r) args s = printf_loop r args s' \<and> console_step s s'"
  using assms
proof (induction f arbitrary: s)
  case (Cons c f)
  obtain s1 where s1: "putchar (scast c) s = Some s1" "console_step s s1" using putchar_console [OF Cons.prems(1)] by blast
  then obtain s' where "printf_loop (f @ r) args s1 = printf_loop r args s'" "console_step s1 s'"
    using Cons.IH [OF console_step_ok [OF s1(2)]] Cons.prems by auto
  then show ?case using s1 Cons.prems console_step_trans [OF s1(2)] by auto
qed auto

lemma printf_status_string:
  assumes "tty_ok s" and "cstr (mem s) p xs" and "region p (Suc (length xs)) \<inter> screen = {}" and "unat p + Suc (length xs) \<le> two32"
    and f: "chars format = f1 @ chars ''%d'' @ f2 @ chars ''%s'' @ f3" "27 \<notin> set f1 \<union> set f2 \<union> set f3" "ch CHR ''%'' \<notin> set f1 \<union> set f2 \<union> set f3"
  shows "\<exists>s'. printf format [Word w, Word p] s = Some s' \<and> console_step s s'"
proof -
  have d: "chars ''%d'' @ r = ch CHR ''%'' # ch CHR ''d'' # r" "chars ''%s'' @ r = ch CHR ''%'' # ch CHR ''s'' # r" for r by (simp_all add: chars_def)
  have spec: "fmt_spec (ch CHR ''d'' # r) = Some (False, 0, ch CHR ''d'', r)" "fmt_spec (ch CHR ''s'' # r) = Some (False, 0, ch CHR ''s'', r)" for r
    by (simp_all add: fmt_spec_def fmt_zero_def fmt_width_def)
  obtain s1 where s1: "printf_loop (f1 @ chars ''%d'' @ f2 @ chars ''%s'' @ f3) [Word w, Word p] s = printf_loop (chars ''%d'' @ f2 @ chars ''%s'' @ f3) [Word w, Word p] s1"
    "console_step s s1" using printf_text [OF assms(1), of f1] f by auto
  obtain s2 where s2: "printf_conv False 0 (ch CHR ''d'') [Word w, Word p] s1 = Some (s2, [Word p])" "console_step s1 s2"
    using putchars_console [OF console_step_ok [OF s1(2)], of "itoa (ch CHR ''d'') w"] by (auto simp: printf_conv_def is_num_conv_def padding_def)
  obtain s3 where s3: "printf_loop (f2 @ chars ''%s'' @ f3) [Word p] s2 = printf_loop (chars ''%s'' @ f3) [Word p] s3" "console_step s2 s3"
    using printf_text [OF console_step_ok [OF s2(2)], of f2] f by auto
  have c3: "console_step s s3" using s1(2) s2(2) s3(2) console_step_trans by blast
  have "cstr (mem s3) p xs"
  proof (rule cstr_cong [OF assms(2)])
    fix i assume "i \<le> length xs"
    then have "p + of_nat i \<in> region p (Suc (length xs))" using in_region_of_nat [of p "Suc (length xs)" i] assms(4) by simp
    then show "mem s3 (p + of_nat i) = mem s (p + of_nat i)" using assms(3) c3 eq_outD [of screen "mem s" "mem s3"] by (auto simp: console_step_def)
  qed
  then obtain s4 where s4: "printf_conv False 0 (ch CHR ''s'') [Word p] s3 = Some (s4, [])" "console_step s3 s4"
    using putcstr_returns [OF _ console_step_ok [OF s3(2)] assms(3,4)] cstr_nonnull strlen_eq
    by (fastforce simp: printf_conv_def is_num_conv_def padding_def)
  obtain s5 where s5: "printf_loop (f3 @ []) [] s4 = printf_loop [] [] s5" "console_step s4 s5"
    using printf_text [OF console_step_ok [OF s4(2)], of f3 "[]"] f by auto
  have "printf format [Word w, Word p] s = Some s5"
    using s1(1) s2(1) s3(1) s4(1) s5(1) unfolding printf_def f(1) by (simp add: d spec [simplified])
  moreover have "console_step s s5" using c3 s4(2) s5(2) console_step_trans by blast
  ultimately show ?thesis by blast
qed

text \<open>The report of a failed call: the tests end.\<close>

lemma passed_fails:
  assumes "call = Some (retval, s)" and "sint retval < 0" and "tty_ok s" and "fmt_ok (chars (msg @ '' status: %d'' @ nl)) [Word retval]"
  shows "\<exists>s'. passed msg call = Some (Inl TEST_FAILURE, s') \<and> console_step s s'"
  using assms printf_returns [OF assms(4,3)] by (auto simp: passed_def)

section \<open>The first test\<close>

lemma create_rejected:
  assumes t: "test_disk s b (listed names) {1..length names}" and z: "name_clear s" and l: "length names = 16" and c: "c \<noteq> 0" "c \<noteq> delim" and tty: "tty_ok s"
  shows "\<exists>s'. create_files MAX_FILES 1 c s = Some (Inr (), s') \<and> test_disk s' b (listed names) {1..16} \<and> name_clear s' \<and> tty_ok s'"
proof -
  obtain m1 where m1: "put_name c s = Some (s\<lparr>mem := m1\<rparr>)" "path_ok (s\<lparr>mem := m1\<rparr>) b (pathname s) (test_name c)"
    "test_disk (s\<lparr>mem := m1\<rparr>) b (listed names) {1..length names}" using put_name_path [OF t z c] by blast
  let ?s1 = "s\<lparr>mem := m1\<rparr>"
  have "None \<notin> set (listed names)" using l by (auto simp: listed_def)
  then have full: "rd_create (pathname s) ?s1 = Some (EBOUNDS, ?s1)"
    using new_entry_full [OF _ _ _ m1(2)] m1(3) by (auto simp: rd_create_def test_disk_def)
  have len: "length (test_name c) = 5" by (simp add: test_name_def chars_def)
  note p = placed_facts [OF test_disk_placed [OF t]]
  have "region (pathname s) 7 \<subseteq> region (pathname s) 80" by (auto simp: region_def)
  then have off: "region (pathname s) (Suc (length (delim # test_name c))) \<inter> screen = {}" using p(7) len by auto
  obtain s2 where s2: "printf (''rd_create: File creation error! status: %d (%s)'' @ nl) [Word EBOUNDS, Word (pathname s)] ?s1 = Some s2" "console_step ?s1 s2"
    using printf_status_string [of ?s1 "pathname s" "delim # test_name c" "''rd_create: File creation error! status: %d (%s)'' @ nl"
        "chars ''rd_create: File creation error! status: ''" "chars '' (''" "chars ('')'' @ nl)" EBOUNDS] off m1(2) p(1) tty len
    by (auto simp: path_ok_def off_disk_def tty_ok_def chars_def nl_def)
  have t2: "test_disk s2 b (listed names) {1..16}" using test_disk_step [OF m1(3) s2(2)] l by simp
  obtain m3 where "clear_name s2 = Some (s2\<lparr>mem := m3\<rparr>)" "test_disk (s2\<lparr>mem := m3\<rparr>) b (listed names) {1..16}" "name_clear (s2\<lparr>mem := m3\<rparr>)"
    using clear_name_clears [OF t2] by blast
  moreover have "sint EBOUNDS < 0" by (simp add: EBOUNDS_def)
  moreover have "tty_ok (s2\<lparr>mem := m3\<rparr>)" using s2(2) by (simp add: console_step_def tty_ok_def)
  ultimately show ?thesis using m1(1) full s2(1) by simp
qed

lemma fill_data_fills:
  assumes t: "test_disk s b ds us" and z: "name_clear s"
  shows "\<exists>m'. fill_data s = Some (s\<lparr>mem := m'\<rparr>) \<and> test_disk (s\<lparr>mem := m'\<rparr>) b ds us \<and> name_clear (s\<lparr>mem := m'\<rparr>)"
proof -
  note pl = test_disk_placed [OF t]
  let ?R = "region (data1 s) 2048 \<union> region (data2 s) 16384 \<union> region (data3 s) 0x100000"
  have "off_disk b (data1 s) 2048" "off_disk b (data2 s) 16384" "off_disk b (data3 s) 0x100000"
    using pl by (simp_all add: placed_def buffers_def)
  then have fit: "data1 s \<noteq> 0" "data2 s \<noteq> 0" "data3 s \<noteq> 0" "unat (data1 s) + 2048 \<le> two32" "unat (data2 s) + 16384 \<le> two32" "unat (data3 s) + 0x100000 \<le> two32"
    by (simp_all add: off_disk_def)
  obtain m' where m': "fill_data s = Some (s\<lparr>mem := m'\<rparr>)" "eq_out ?R (mem s) m'"
    using memset_eq [of "data1 s" 2048] memset_eq [of "data2 s" 16384] memset_eq [of "data3 s" "0x100000"] fit
    by (auto simp: fill_data_def eq_out_def)
  have "m' (pathname s + of_nat i) = mem s (pathname s + of_nat i)" if "i < 80" for i
  proof (rule eq_outD [OF m'(2)])
    have "pathname s + of_nat i \<in> region (pathname s) 80"
      using in_region_of_nat [of "pathname s" 80 i] that placed_facts(1) [OF pl] by (simp add: off_disk_def)
    then show "pathname s + of_nat i \<notin> ?R" using placed_facts(9) [OF pl] by blast
  qed
  then have "name_clear (s\<lparr>mem := m'\<rparr>)" using z by (simp add: name_clear_def)
  with m'(1) test_disk_frame [OF t m'(2) placed_facts(8) [OF pl]] show ?thesis by blast
qed

text \<open>The names of the first test: \<open>file0\<close> to \<open>file9\<close>, then \<open>file:\<close> and on.\<close>

definition test_names :: "u8 list list" where
  "test_names = map (\<lambda>j. test_name (ch CHR ''0'' + of_nat j)) [0..<16]"

lemma test_names_nth: "j < 16 \<Longrightarrow> test_names ! j = test_name (48 + of_nat j)" "length test_names = 16"
  by (simp_all add: test_names_def)

lemma not_open_none: "test_disk s b ds us \<Longrightarrow> not_open s b k"
  using placed_facts(3) [of s b] by (auto simp: test_disk_def no_files_open_def not_open_def Let_def)

lemma unlink_first_file:
  assumes t: "test_disk s b (listed test_names) {1..16}" and p: "path_ok s b (pathname s) (test_name 48)"
  shows "\<exists>m'. rd_unlink (pathname s) s = Some (0, s\<lparr>mem := m'\<rparr>) \<and> test_disk (s\<lparr>mem := m'\<rparr>) b ((listed test_names)[0 := None]) {2..16}"
proof -
  have d: "disk_at s b" "root_dir (mem s) b (listed test_names)" "empty_files (mem s) b {1..16}"
    using t by (simp_all add: test_disk_def)
  note fit = conjunct2 [OF disk_fit [OF d(1)]]
  let ?I = "zone (inode_pos b 1) 64" and ?E = "zone (ent_pos b 0) 16"
  have e: "listed test_names ! 0 = Some (test_name 48, 1)" using test_names_nth by (simp add: listed_def)
  have "ld32 (mem s) (inode b 1) = INODE_REG" "small_file (mem s) b 1 0 (\<lambda>_. 0)"
    using d(3) [unfolded empty_files_def, rule_format, of 1] by (simp_all add: small_file_def file_size_def)
  then obtain m' where m': "rd_unlink (pathname s) s = Some (0, s\<lparr>mem := m'\<rparr>)" "root_dir m' b ((listed test_names)[0 := None])"
    "\<forall>a \<in> ?I \<union> ?E. m' a = 0" "eq_out (?I \<union> ?E) (mem s) m'"
    using rd_unlink_file [OF d(1,2) p _ e, where sz = 0 and g = "\<lambda>_. 0"] not_open_none [OF t, of 1] by auto
  have sub: "?I \<union> ?E \<subseteq> disk b" by (auto simp: zone_def inode_pos_def ent_pos_def)
  have zero: "ld32 m' (inode b 1 + of_nat x) = 0" if "x \<le> 60" for x
    by (rule zone_word_zero [OF m'(3)]) (use unat_inode [OF fit, of 1 x] that fit in \<open>auto simp: zone_def inode_pos_def\<close>)
  have old: "ld32 m' (inode b j + of_nat x) = ld32 (mem s) (inode b j + of_nat x)" if "j < 2048" "1 < j" "x \<le> 60" for j x
    by (rule inode_word [OF m'(4) fit that(1,3)]) (use that in \<open>auto simp: zone_def inode_pos_def ent_pos_def\<close>)
  have "empty_files m' b {2..16}" unfolding empty_files_def
  proof (intro allI impI)
    fix j :: nat assume j: "0 < j" "j < 2048"
    show "ld32 m' (inode b j + of_nat 0) = (if j \<in> {2..16} then INODE_REG else INODE_EMPTY) \<and> (\<forall>x \<in> {4, 48, 52}. ld32 m' (inode b j + of_nat x) = 0)"
    proof (cases "j = 1")
      case True
      then show ?thesis using zero [of 0] zero [of 4] zero [of 48] zero [of 52] by simp
    next
      case False
      then show ?thesis using old [of j 0] old [of j 4] old [of j 48] old [of j 52] j d(3) [unfolded empty_files_def, rule_format, of j] by simp
    qed
  qed
  then show ?thesis using m'(1) test_disk_change [OF t m'(4) sub m'(2)] by blast
qed

lemma unlink_missing:
  assumes d: "disk_at s b" and r: "root_dir (mem s) b ds" and p: "path_ok s b p name" and n: "ds ! 0 = None"
  shows "rd_unlink p s = Some (EBADPATH, s)"
proof -
  have "0 < length ds" using r by (simp add: root_dir_def)
  then have "lookup_dir (mem s) b ds name = 0" using lookup_at [of 0 ds name "mem s" b] n by simp
  moreover have "p \<noteq> 0" using p cstr_nonnull by (auto simp: path_ok_def)
  ultimately show ?thesis using get_file_inode_name [OF d r p] parent_root [OF d p] by (simp add: rd_unlink_def)
qed

section \<open>The threads of the last test\<close>

definition numbered_name :: "string \<Rightarrow> nat \<Rightarrow> u8 list" where
  "numbered_name t i = chars (''file_t'' @ t @ ''_'') @ itoa (ch CHR ''d'') (of_nat i)"

lemma small_numbers: "\<forall>i \<in> set [0..<17]. let ds = itoa 100 (of_nat i) in 0 \<notin> set ds \<and> 47 \<notin> set ds \<and> length ds \<le> 2"
  by code_simp

lemma numbered_name_ok:
  assumes "i \<le> 16" and "t \<in> {''0'', ''1''}"
  shows "0 \<notin> set (numbered_name t i)" "delim \<notin> set (numbered_name t i)" "numbered_name t i \<noteq> []" "length (numbered_name t i) \<le> 13"
    "render (\<lambda>p. None) (chars (''/file_t'' @ t @ ''_%d'')) [Word (of_nat i)] = Some (delim # numbered_name t i)"
proof -
  have d: "0 \<notin> set (itoa 100 (of_nat i))" "47 \<notin> set (itoa 100 (of_nat i))" "length (itoa 100 (of_nat i)) \<le> 2"
    using small_numbers assms(1) by (auto simp: Let_def)
  then show "0 \<notin> set (numbered_name t i)" "delim \<notin> set (numbered_name t i)" "numbered_name t i \<noteq> []" "length (numbered_name t i) \<le> 13"
    using assms(2) by (auto simp: numbered_name_def chars_def)
  show "render (\<lambda>p. None) (chars (''/file_t'' @ t @ ''_%d'')) [Word (of_nat i)] = Some (delim # numbered_name t i)"
    using assms(2) by (auto simp: numbered_name_def chars_def fmt_spec_def fmt_zero_def fmt_width_def render_conv_def is_num_conv_def padding_def)
qed

lemma numbered_path:
  assumes t: "test_disk s b ds us" and z: "name_clear s" and k: "i \<le> 16" "k \<in> {''0'', ''1''}"
  shows "\<exists>m'. sprintf (mem s) (pathname s) (chars (''/file_t'' @ k @ ''_%d'')) [Word (of_nat i)] = Some m' \<and>
     path_ok (s\<lparr>mem := m'\<rparr>) b (pathname s) (numbered_name k i) \<and> test_disk (s\<lparr>mem := m'\<rparr>) b ds us"
proof -
  let ?p = "pathname s" and ?bs = "delim # numbered_name k i"
  note n = numbered_name_ok [OF k]
  have fit: "unat ?p + 80 \<le> two32" "?p \<noteq> 0" using placed_facts(1) [OF test_disk_placed [OF t]] by (auto simp: off_disk_def)
  obtain m' where m': "put_bytes (mem s) ?p ?bs = Some (m', ?p + of_nat (length ?bs))" "\<forall>j < length ?bs. m' (?p + of_nat j) = ?bs ! j"
    "eq_out (region ?p (length ?bs)) (mem s) m'" using put_bytes_region [of ?p ?bs "mem s"] fit n(4) by auto
  have "sprintf (mem s) ?p (chars (''/file_t'' @ k @ ''_%d'')) [Word (of_nat i)] = Some m'"
    using sprintf_render [OF n(5) reads_none fit(2) _ subset_refl, of "mem s"] m'(1) fit n(4) by simp
  with path_written [OF t z m'(3) _ m'(2) n(1-4)] show ?thesis by auto
qed

lemma create_numbered_stops:
  assumes t: "test_disk s b (listed names) {1..length names}" and z: "name_clear s" and tty: "tty_ok s" and l: "length names = 16" "i \<le> 16"
    and k: "k \<in> {''0'', ''1''}"
  shows "\<exists>s'. create_numbered k i (Suc n) s = Some (TEST_FAILURE, s') \<and> tty_ok s' \<and> test_disk s' b (listed names) {1..16}"
proof -
  obtain m1 where m1: "sprintf (mem s) (pathname s) (chars (''/file_t'' @ k @ ''_%d'')) [Word (of_nat i)] = Some m1"
    "path_ok (s\<lparr>mem := m1\<rparr>) b (pathname s) (numbered_name k i)" "test_disk (s\<lparr>mem := m1\<rparr>) b (listed names) {1..length names}"
    using numbered_path [OF t z l(2) k] by blast
  have "None \<notin> set (listed names)" using l by (auto simp: listed_def)
  then have full: "rd_create (pathname s) (s\<lparr>mem := m1\<rparr>) = Some (EBOUNDS, s\<lparr>mem := m1\<rparr>)"
    using new_entry_full [OF _ _ _ m1(2)] m1(3) by (auto simp: rd_create_def test_disk_def)
  have "fmt_ok (chars (''(thread'' @ k @ '') create: File creation error! status: %d'' @ nl)) [Word EBOUNDS]"
    using k by (auto simp: chars_def nl_def fmt_spec_def fmt_zero_def fmt_width_def conv_ok_def is_num_conv_def)
  moreover have "tty_ok (s\<lparr>mem := m1\<rparr>)" using tty by (simp add: tty_ok_def)
  ultimately obtain s2 where s2: "printf (''(thread'' @ k @ '') create: File creation error! status: %d'' @ nl) [Word EBOUNDS] (s\<lparr>mem := m1\<rparr>) = Some s2"
    "console_step (s\<lparr>mem := m1\<rparr>) s2" using printf_returns by blast
  have "sint EBOUNDS < 0" by (simp add: EBOUNDS_def)
  then have "create_numbered k i (Suc n) s = Some (TEST_FAILURE, s2)" using m1(1) full s2(1) by simp
  then show ?thesis using test_disk_step [OF m1(3) s2(2)] console_step_ok [OF s2(2)] l by simp
qed

lemma create_numbered_fills:
  assumes "test_disk s b (listed names) {1..length names}" and "name_clear s" and "tty_ok s" and "i \<le> length names" and "length names \<le> 16"
    and k: "k \<in> {''0'', ''1''}" and "16 - length names < n"
  shows "\<exists>s'. create_numbered k i n s = Some (TEST_FAILURE, s') \<and> tty_ok s' \<and>
     test_disk s' b (listed (names @ map (numbered_name k) [i..<i + (16 - length names)])) {1..16}"
  using assms(1-5,7)
proof (induction "16 - length names" arbitrary: s names i n)
  case 0
  then have l: "length names = 16" "i \<le> 16" by simp_all
  obtain n' where "n = Suc n'" using 0 by (cases n) auto
  with create_numbered_stops [OF 0(2-4) l k, of n'] l show ?case by (simp del: create_numbered.simps)
next
  case (Suc x)
  then have l: "length names < 16" "i \<le> 16" by simp_all
  obtain n' where n: "n = Suc n'" using Suc.prems by (cases n) auto
  obtain m1 where m1: "sprintf (mem s) (pathname s) (chars (''/file_t'' @ k @ ''_%d'')) [Word (of_nat i)] = Some m1"
    "path_ok (s\<lparr>mem := m1\<rparr>) b (pathname s) (numbered_name k i)" "test_disk (s\<lparr>mem := m1\<rparr>) b (listed names) {1..length names}"
    using numbered_path [OF Suc.prems(1,2) l(2) k] by blast
  obtain m2 where m2: "rd_create (pathname s) (s\<lparr>mem := m1\<rparr>) = Some (0, s\<lparr>mem := m2\<rparr>)"
    "test_disk (s\<lparr>mem := m2\<rparr>) b (listed (names @ [numbered_name k i])) {1..Suc (length names)}"
    using create_adds_file [OF m1(3)] m1(2) listed_next [OF l(1)] l(1) by auto
  obtain m3 where m3: "clear_name (s\<lparr>mem := m2\<rparr>) = Some (s\<lparr>mem := m3\<rparr>)"
    "test_disk (s\<lparr>mem := m3\<rparr>) b (listed (names @ [numbered_name k i])) {1..length (names @ [numbered_name k i])}" "name_clear (s\<lparr>mem := m3\<rparr>)"
    using clear_name_clears [OF m2(2)] by auto
  have "tty_ok (s\<lparr>mem := m3\<rparr>)" using Suc.prems(3) by (simp add: tty_ok_def)
  moreover have "x = 16 - length (names @ [numbered_name k i])" "i + 1 \<le> length (names @ [numbered_name k i])"
    "length (names @ [numbered_name k i]) \<le> 16" "16 - length (names @ [numbered_name k i]) < n'"
    using Suc.prems(4,6) Suc.hyps(2) l n by auto
  ultimately obtain s' where s': "create_numbered k (i + 1) n' (s\<lparr>mem := m3\<rparr>) = Some (TEST_FAILURE, s')" "tty_ok s'"
    "test_disk s' b (listed ((names @ [numbered_name k i]) @ map (numbered_name k) [i + 1..<i + 1 + (16 - length (names @ [numbered_name k i]))])) {1..16}"
    using Suc.hyps(1) [OF _ m3(2,3)] by blast
  have run: "create_numbered k i n s = Some (TEST_FAILURE, s')" using n m1(1) m2(1) m3(1) s'(1) by simp
  have "i + 1 + (16 - length (names @ [numbered_name k i])) = i + (16 - length names)" using l(1) by simp
  note full = s'(3) [unfolded this]
  have "[i..<i + (16 - length names)] = i # [i + 1..<i + (16 - length names)]"
    unfolding Suc_eq_plus1 [symmetric] by (rule upt_conv_Cons) (use l(1) in simp)
  then have "names @ map (numbered_name k) [i..<i + (16 - length names)] = (names @ [numbered_name k i]) @ map (numbered_name k) [i + 1..<i + (16 - length names)]"
    by (simp only: list.map append_Cons append_Nil append_assoc)
  with run s'(2) full show ?case by (simp only:) blast
qed

lemma console_mem: "tty_ok (s\<lparr>mem := m\<rparr>) = tty_ok s"
  by (simp add: tty_ok_def)

text \<open>The sixteen creations succeed and the seventeenth is refused, as the test expects.\<close>

lemma create_files_fill:
  assumes t: "test_disk s b (listed []) {}" and z: "name_clear s" and tty: "tty_ok s"
  shows "\<exists>s'. create_files 0 (MAX_FILES + 1) (ch CHR ''0'') s = Some (Inr (), s') \<and> test_disk s' b (listed test_names) {1..16} \<and>
     name_clear s' \<and> tty_ok s'"
proof -
  have c: "(48 :: u8) + of_nat j \<noteq> 0 \<and> (48 :: u8) + of_nat j \<noteq> 47" if "j < 17" for j
  proof -
    have "unat (of_nat (48 + j) :: u8) = 48 + j" using that by (simp add: unsigned_of_nat take_bit_nat_eq_self del: of_nat_add)
    then have "(of_nat (48 + j) :: u8) \<noteq> 0" "(of_nat (48 + j) :: u8) \<noteq> 47" by (auto simp del: of_nat_add)
    then show ?thesis by simp
  qed
  obtain m1 where m1: "create_files 0 (16 + 1) 48 s = create_files (0 + 16) 1 (48 + of_nat 16) (s\<lparr>mem := m1\<rparr>)"
    "test_disk (s\<lparr>mem := m1\<rparr>) b (listed test_names) {1..16}" "name_clear (s\<lparr>mem := m1\<rparr>)"
    using create_steps [of s b "[]" 16 48 0 1] t z c by (auto simp: test_names_def simp del: create_files.simps)
  obtain s' where "create_files MAX_FILES 1 64 (s\<lparr>mem := m1\<rparr>) = Some (Inr (), s')" "test_disk s' b (listed test_names) {1..16}"
    "name_clear s'" "tty_ok s'"
    using create_rejected [of "s\<lparr>mem := m1\<rparr>" b test_names 64] m1(2,3) test_names_nth tty console_mem by auto
  then show ?thesis using m1(1) by (simp add: MAX_FILES_def del: create_files.simps)
qed

text \<open>The first removal succeeds; it leaves the first slot empty, where every later search ends.\<close>

lemma unlink_files_fail:
  assumes t: "test_disk s b (listed test_names) {1..16}" and z: "name_clear s" and tty: "tty_ok s"
  shows "\<exists>s'. unlink_files MAX_FILES (ch CHR ''0'') s = Some (Inl TEST_FAILURE, s') \<and> tty_ok s' \<and>
     test_disk s' b ((listed test_names)[0 := None]) {2..16}"
proof -
  let ?ds = "(listed test_names)[0 := None]"
  obtain n where n: "MAX_FILES = Suc (Suc n)" by (simp add: MAX_FILES_def eval_nat_numeral)
  obtain m1 where m1: "put_name 48 s = Some (s\<lparr>mem := m1\<rparr>)" "path_ok (s\<lparr>mem := m1\<rparr>) b (pathname s) (test_name 48)"
    "test_disk (s\<lparr>mem := m1\<rparr>) b (listed test_names) {1..16}" using put_name_path [OF t z, of 48] by auto
  obtain m2 where m2: "rd_unlink (pathname s) (s\<lparr>mem := m1\<rparr>) = Some (0, s\<lparr>mem := m2\<rparr>)" "test_disk (s\<lparr>mem := m2\<rparr>) b ?ds {2..16}"
    using unlink_first_file [OF m1(3)] m1(2) by auto
  obtain m3 where m3: "clear_name (s\<lparr>mem := m2\<rparr>) = Some (s\<lparr>mem := m3\<rparr>)" "test_disk (s\<lparr>mem := m3\<rparr>) b ?ds {2..16}" "name_clear (s\<lparr>mem := m3\<rparr>)"
    using clear_name_clears [OF m2(2)] by auto
  obtain m4 where m4: "put_name 49 (s\<lparr>mem := m3\<rparr>) = Some (s\<lparr>mem := m4\<rparr>)" "path_ok (s\<lparr>mem := m4\<rparr>) b (pathname s) (test_name 49)"
    "test_disk (s\<lparr>mem := m4\<rparr>) b ?ds {2..16}" using put_name_path [OF m3(2,3), of 49] by auto
  have bad: "rd_unlink (pathname s) (s\<lparr>mem := m4\<rparr>) = Some (EBADPATH, s\<lparr>mem := m4\<rparr>)"
    by (rule unlink_missing [OF _ _ m4(2), of ?ds]) (use m4(3) in \<open>simp_all add: test_disk_def listed_def\<close>)
  have "fmt_ok (chars (''unlink: File deletion error!'' @ '' status: %d'' @ nl)) [Word EBADPATH]"
    by (simp add: chars_def nl_def fmt_spec_def fmt_zero_def fmt_width_def conv_ok_def is_num_conv_def)
  moreover have "sint EBADPATH < 0" by (simp add: EBADPATH_def)
  ultimately obtain s5 where s5: "passed ''unlink: File deletion error!'' (rd_unlink (pathname s) (s\<lparr>mem := m4\<rparr>)) = Some (Inl TEST_FAILURE, s5)"
    "console_step (s\<lparr>mem := m4\<rparr>) s5" using passed_fails [OF bad] tty console_mem by blast
  have ok: "passed ''unlink: File deletion error!'' (rd_unlink (pathname s) (s\<lparr>mem := m1\<rparr>)) = Some (Inr 0, s\<lparr>mem := m2\<rparr>)"
    using m2(1) by (simp add: passed_def)
  have "unlink_files MAX_FILES (ch CHR ''0'') s = Some (Inl TEST_FAILURE, s5)"
    unfolding n using m1(1) ok m3(1) m4(1) s5(1) by (simp add: and_then_def)
  then show ?thesis using test_disk_step [OF m4(3) s5(2)] console_step_ok [OF s5(2)] by blast
qed

text \<open>A disk that was just made has no files.\<close>

lemma init_test_disk:
  assumes b: "0 < b" "b + 0x200000 \<le> two32" and pl: "placed s b" and l: "cstr (mem s) (lit_delim s) [delim]"
    and o: "no_files_open s" and z: "name_clear s" and tty: "tty_ok s"
  shows "\<exists>s1. init_rdisk (of_nat b) s = Some s1 \<and> test_disk s1 b (listed []) {} \<and> name_clear s1 \<and> tty_ok s1"
proof -
  obtain m where m: "init_rdisk (of_nat b) s = Some (s\<lparr>mem := m, superblk := of_nat b, inode_array := of_nat (b + 0x4000),
      blk_bitmap := of_nat (b + 0x24000), root_blk := of_nat (b + 0x64000), fs_head_lock := 1\<rparr>)" "root_dir m b (replicate 16 None)"
    "\<forall>k i. 0 < k \<longrightarrow> k < 2048 \<longrightarrow> i \<le> 60 \<longrightarrow> ld32 m (inode b k + of_nat i) = 0" "eq_out (disk b) (mem s) m"
    using init_rdisk_fresh [OF b, of s] by blast
  let ?s = "s\<lparr>mem := m, superblk := of_nat b, inode_array := of_nat (b + 0x4000),
      blk_bitmap := of_nat (b + 0x24000), root_blk := of_nat (b + 0x64000), fs_head_lock := 1\<rparr>"
  note p = placed_facts [OF pl]
  have "cstr m (lit_delim s) [delim]"
    by (rule delim_frame [OF l m(4)]) (use off_disk_region [OF p(2)] p(2) in \<open>auto simp: off_disk_def\<close>)
  moreover have "no_files_open (s\<lparr>mem := m\<rparr>)"
    by (rule no_files_open_frame [OF o m(4)]) (use off_disk_region [OF p(3)] p(3) in \<open>auto simp: off_disk_def\<close>)
  moreover have "empty_files m b {}" unfolding empty_files_def
  proof (intro allI impI)
    fix k :: nat assume "0 < k" "k < 2048"
    then show "ld32 m (inode b k + of_nat 0) = (if k \<in> {} then INODE_REG else INODE_EMPTY) \<and> (\<forall>x \<in> {4, 48, 52}. ld32 m (inode b k + of_nat x) = 0)"
      using m(3) [rule_format, of k 0] m(3) [rule_format, of k 4] m(3) [rule_format, of k 48] m(3) [rule_format, of k 52] by simp
  qed
  moreover have "listed [] = replicate 16 None" by (simp add: listed_def map_replicate_const)
  ultimately have "test_disk ?s b (listed []) {}"
    using m(2) b pl by (simp add: test_disk_def disk_at_def placed_def buffers_def no_files_open_def)
  moreover have "name_clear ?s" using z off_disk_byte [OF m(4) _ p(1)] by (simp add: name_clear_def)
  ultimately show ?thesis using m(1) tty by (simp add: tty_ok_def)
qed

section \<open>Properties\<close>

text \<open>
  C26: \<open>run_tests\<close> on a disk that \<open>init_rdisk\<close> has just made, for every position of the disk and of the buffers where they do not
  overlap, with a task that has no open file and a cleared \<open>pathname\<close>: the sixteen files are created, the seventeenth creation is
  refused, \<open>/file0\<close> is removed, and then the removal of \<open>/file1\<close> fails, because a search of the directory ends at an
  empty slot. The tests return \<open>TEST_FAILURE\<close> and leave the other fifteen files, all empty, in the directory.
\<close>

theorem run_tests_fail:
  assumes "0 < b" and "b + 0x200000 \<le> two32" and "placed s b" and "tty_ok s" and "cstr (mem s) (lit_delim s) [delim]"
    and "no_files_open s" and "name_clear s"
  shows "\<exists>s1 s'. init_rdisk (of_nat b) s = Some s1 \<and> run_tests s1 = Some (TEST_FAILURE, s') \<and>
     root_dir (mem s') b (None # map (\<lambda>i. Some (test_name (48 + of_nat i), i + 1)) [1..<16]) \<and>
     (\<forall>k. 0 < k \<longrightarrow> k < 2048 \<longrightarrow> ld32 (mem s') (inode b k) = (if 2 \<le> k \<and> k \<le> 16 then INODE_REG else INODE_EMPTY))"
proof -
  obtain s0 where s0: "init_rdisk (of_nat b) s = Some s0" "test_disk s0 b (listed []) {}" "name_clear s0" "tty_ok s0"
    using init_test_disk [OF assms(1-3,5-7,4)] by blast
  obtain m1 where m1: "fill_data s0 = Some (s0\<lparr>mem := m1\<rparr>)" "test_disk (s0\<lparr>mem := m1\<rparr>) b (listed []) {}" "name_clear (s0\<lparr>mem := m1\<rparr>)"
    using fill_data_fills [OF s0(2,3)] by blast
  obtain s2 where s2: "create_files 0 (MAX_FILES + 1) (ch CHR ''0'') (s0\<lparr>mem := m1\<rparr>) = Some (Inr (), s2)"
    "test_disk s2 b (listed test_names) {1..16}" "name_clear s2" "tty_ok s2" using create_files_fill [OF m1(2,3)] s0(4) console_mem by blast
  obtain s' where s': "unlink_files MAX_FILES (ch CHR ''0'') s2 = Some (Inl TEST_FAILURE, s')"
    "test_disk s' b ((listed test_names)[0 := None]) {2..16}" using unlink_files_fail [OF s2(2-4)] by blast
  have "run_tests s0 = Some (TEST_FAILURE, s')"
    using m1(1) s2(1) s'(1) by (simp add: run_tests_def test1_def and_then_def del: create_files.simps)
  moreover have "(listed test_names)[0 := None] = None # map (\<lambda>i. Some (test_name (48 + of_nat i), i + 1)) [1..<16]"
    by (intro nth_equalityI) (auto simp: listed_def test_names_def nth_list_update nth_Cons')
  moreover have "ld32 (mem s') (inode b k) = (if 2 \<le> k \<and> k \<le> 16 then INODE_REG else INODE_EMPTY)" if "0 < k" "k < 2048" for k
    using s'(2) that by (auto simp: test_disk_def empty_files_def)
  ultimately show ?thesis using s0(1) s'(2) by (auto simp: test_disk_def)
qed

text \<open>A disk at 1 MB with the buffers around it; \<open>/\<close> is at 0x90000.\<close>

definition demo_tests :: tests where
  "demo_tests = fs.extend (demo_fs ((\<lambda>_. 0)(0x90000 := 0x2F)))
     \<lparr>pathname = 0x91000, data1 = 0x92000, data2 = 0x93000, data3 = 0x400000, scratchpad = 0x600000, lit_path = (\<lambda>_. 0x98000), rd_test_fn = (\<lambda>_. 0x50000)\<rparr>"

lemma demo_tests_ok:
  "placed demo_tests 0x100000" "tty_ok demo_tests" "cstr (mem demo_tests) (lit_delim demo_tests) [delim]"
  "no_files_open demo_tests" "name_clear demo_tests"
proof -
  have sel: "mem demo_tests = (\<lambda>_. 0)(0x90000 := 0x2F)" "pathname demo_tests = 0x91000" "data1 demo_tests = 0x92000" "data2 demo_tests = 0x93000"
    "data3 demo_tests = 0x400000" "lit_delim demo_tests = 0x90000" "current_task demo_tests = 0x80000"
    by (simp_all add: demo_tests_def demo_fs_def fs.defs)
  show "placed demo_tests 0x100000" by (simp add: placed_def buffers_def sel off_disk_def away_def VIDEO_def)
  show "tty_ok demo_tests" by (simp add: demo_tests_def demo_fs_def fs.defs tty_ok_def)
  show "cstr (mem demo_tests) (lit_delim demo_tests) [delim]" by (simp add: sel)
  have far: "mem demo_tests (a + of_nat i) = 0" if "unat a + i < two32" "unat a + i \<noteq> 0x90000" for a i
  proof -
    have "unat (a + of_nat i) \<noteq> 0x90000" using unat_plus_of_nat [of a i] that by simp
    then have "a + of_nat i \<noteq> 0x90000" by auto
    then show ?thesis by (simp add: sel)
  qed
  show "name_clear demo_tests" unfolding name_clear_def sel(2) using far [of "0x91000"] by simp
  have "ld32 (mem demo_tests) (0x80000 + of_nat (40 + 4 * i)) = 0" if "i < 16" for i
  proof -
    have z: "mem demo_tests (0x80000 + of_nat (40 + 4 * i) + of_nat j) = 0" if "j < 4" for j
      using far [of "0x80000" "40 + 4 * i + j"] that \<open>i < 16\<close> by (simp add: add.assoc)
    have "ld32 (mem demo_tests) (0x80000 + of_nat (40 + 4 * i)) = ld32 (\<lambda>_. 0) (0x80000 + of_nat (40 + 4 * i))"
      by (rule ld32_cong) (use z [of 0] z [of 1] z [of 2] z [of 3] in simp_all)
    then show ?thesis by simp
  qed
  then show "no_files_open demo_tests" by (simp add: no_files_open_def sel(7) del: of_nat_add of_nat_mult)
qed

theorem run_tests_fail_witness:
  "\<exists>s1 s'. init_rdisk 0x100000 demo_tests = Some s1 \<and> run_tests s1 = Some (TEST_FAILURE, s') \<and>
     root_dir (mem s') 0x100000 (None # map (\<lambda>i. Some (test_name (48 + of_nat i), i + 1)) [1..<16])"
  using run_tests_fail [OF _ _ demo_tests_ok] by auto

text \<open>
  The first thread of the last test, alone on a new disk under the same conditions: of its 300 files it creates
  \<open>file_t0_0\<close> to \<open>file_t0_15\<close>, which fill the directory, and returns \<open>TEST_FAILURE\<close> at the next.
\<close>

lemma rd_test_thread0_fails:
  assumes "0 < b" and "b + 0x200000 \<le> two32" and "placed s b" and "tty_ok s" and "cstr (mem s) (lit_delim s) [delim]"
    and "no_files_open s" and "name_clear s"
  shows "\<exists>s1 s'. init_rdisk (of_nat b) s = Some s1 \<and> rd_test_thread0 arg s1 = Some (TEST_FAILURE, s') \<and>
     root_dir (mem s') b (map (\<lambda>i. Some (numbered_name ''0'' i, i + 1)) [0..<16])"
proof -
  obtain s0 where s0: "init_rdisk (of_nat b) s = Some s0" "test_disk s0 b (listed []) {}" "name_clear s0" "tty_ok s0"
    using init_test_disk [OF assms(1-3,5-7,4)] by blast
  obtain s' where s': "create_numbered ''0'' 0 300 s0 = Some (TEST_FAILURE, s')" "test_disk s' b (listed (map (numbered_name ''0'') [0..<16])) {1..16}"
    using create_numbered_fills [of s0 b "[]" 0 "''0''" 300] s0(2-4) by (auto simp del: create_numbered.simps)
  moreover have "listed (map (numbered_name ''0'') [0..<16]) = map (\<lambda>i. Some (numbered_name ''0'' i, i + 1)) [0..<16]"
    by (simp add: listed_def)
  ultimately show ?thesis using s0(1) by (auto simp: rd_test_thread0_def test_disk_def simp del: create_numbered.simps)
qed

end
