(* ===== verification/Proto_Cr.thy ===== *)
theory Proto_Cr
  imports Interrupt
begin

text \<open>
  The protothreads, src/MemeOS/src/proto_cr.c: two coroutines that keep their place in a static
  variable and yield by returning, and a loop that calls the tasks of a circular run queue in turn
  and unlinks those that are done. The first queue node is static, the others come from the heap;
  a node is task, tid, next, prev at offsets 0, 4, 8, 12.

  A coroutine has two entry points, the start and the statement after \<open>crReturn\<close>; the static
  \<open>state\<close> is a boolean here. The addresses of the two functions are the linker's.
\<close>

record proto = kheap +
  rq_head :: addr
  fn1 :: addr
  fn2 :: addr
  done1 :: bool
  done2 :: bool
  state1 :: bool
  state2 :: bool
  j1 :: u32
  j2 :: u32

definition MAX_THREADS :: nat where "MAX_THREADS = 2"

abbreviation (input) q_task :: u32 where "q_task \<equiv> 0"
abbreviation (input) q_tid :: u32 where "q_tid \<equiv> 4"
abbreviation (input) q_next :: u32 where "q_next \<equiv> 8"
abbreviation (input) q_prev :: u32 where "q_prev \<equiv> 12"

section \<open>Coroutines\<close>

fun print_times :: "nat \<Rightarrow> string \<Rightarrow> 'a tty_scheme \<Rightarrow> 'a tty_scheme option" where
  "print_times 0 t s = Some s"
| "print_times (Suc n) t s = do { s1 \<leftarrow> printf t [] s; print_times n t s1 }"

text \<open>The loop body up to the yield.\<close>

definition proto_row :: "nat \<Rightarrow> string \<Rightarrow> 'a tty_scheme \<Rightarrow> 'a tty_scheme option" where
  "proto_row n t s = do { s1 \<leftarrow> print_times n t s; printf nl [] s1 }"

definition proto_cr_thread1 :: "'a proto_scheme \<Rightarrow> (u32 \<times> 'a proto_scheme) option" where
  "proto_cr_thread1 s =
     (let s0 = (if state1 s then s\<lparr>j1 := j1 s + 1\<rparr> else s) in
      if state1 s \<and> j1 s0 = 3 then do {
        s1 \<leftarrow> printf (''Done <1>!'' @ nl) [] (s0\<lparr>done1 := True\<rparr>);
        Some (1, s1) }
      else do {
        s1 \<leftarrow> proto_row 10 ''<1>'' s0;
        Some (1, s1\<lparr>state1 := True\<rparr>) })"

definition proto_cr_thread2 :: "'a proto_scheme \<Rightarrow> (u32 \<times> 'a proto_scheme) option" where
  "proto_cr_thread2 s =
     (let s0 = (if state2 s then s\<lparr>j2 := j2 s + 1\<rparr> else s) in
      if state2 s \<and> j2 s0 = 5 then do {
        s1 \<leftarrow> printf (''Done <2>!'' @ nl) [] (s0\<lparr>done2 := True\<rparr>);
        Some (2, s1) }
      else do {
        s1 \<leftarrow> proto_row 5 ''<2>'' s0;
        Some (2, s1\<lparr>state2 := True\<rparr>) })"

section \<open>The run queue\<close>

definition call_task :: "addr \<Rightarrow> 'a proto_scheme \<Rightarrow> (u32 \<times> 'a proto_scheme) option" where
  "call_task f s = (if f = fn1 s then proto_cr_thread1 s else if f = fn2 s then proto_cr_thread2 s else None)"

definition is_done :: "u32 \<Rightarrow> 'a proto_scheme \<Rightarrow> bool option" where
  "is_done tid s = (if tid = 0 then Some (done1 s) else if tid = 1 then Some (done2 s) else None)"

text \<open>Unlinking the finished node; the result is the next one, which takes its place.\<close>

definition unlink_finished :: "addr \<Rightarrow> mem \<Rightarrow> (addr \<times> mem) option" where
  "unlink_finished finished m = do {
     fp \<leftarrow> rd32 m finished q_prev;
     fx \<leftarrow> rd32 m finished q_next;
     m1 \<leftarrow> wr32 m fp q_next fx;
     current \<leftarrow> rd32 m1 finished q_next;
     fp1 \<leftarrow> rd32 m1 finished q_prev;
     m2 \<leftarrow> wr32 m1 current q_prev fp1;
     cx \<leftarrow> rd32 m2 current q_next;
     m3 \<leftarrow> (if cx = finished then do { n \<leftarrow> rd32 m2 finished q_next; wr32 m2 current q_next n }
            else Some m2);
     Some (current, m3) }"

partial_function (option) schedule_loop :: "addr \<Rightarrow> u32 \<Rightarrow> 'a proto_scheme \<Rightarrow> 'a proto_scheme option" where
  "schedule_loop current threads s =
     (if current = 0 then Some s
      else do {
        f \<leftarrow> rd32 (mem s) current q_task;
        (r, s1) \<leftarrow> call_task f s;
        tid \<leftarrow> rd32 (mem s1) current q_tid;
        d \<leftarrow> is_done tid s1;
        if d then
          (if threads = 1 then Some s1
           else do {
             (nxt, m) \<leftarrow> unlink_finished current (mem s1);
             if current \<noteq> rq_head s1 then do {
               s2 \<leftarrow> kfree current (s1\<lparr>mem := m\<rparr>);
               schedule_loop nxt (threads - 1) s2 }
             else schedule_loop nxt threads (s1\<lparr>mem := m\<rparr>) })
        else do {
          nxt \<leftarrow> rd32 (mem s1) current q_next;
          schedule_loop nxt threads s1 } })"

definition proto_cr_schedule :: "'a proto_scheme \<Rightarrow> 'a proto_scheme option" where
  "proto_cr_schedule s = schedule_loop (rq_head s) (of_nat MAX_THREADS) s"

text \<open>The loop that adds the threads from \<open>i\<close> on, \<open>n\<close> of them; \<open>pptr\<close> is the node added last.\<close>

fun register_loop :: "nat \<Rightarrow> nat \<Rightarrow> addr \<Rightarrow> 'a proto_scheme \<Rightarrow> 'a proto_scheme option" where
  "register_loop i 0 pptr s = Some s"
| "register_loop i (Suc n) pptr s = do {
     (ptr, s1) \<leftarrow> kmalloc 16 s;
     (pptr1, m1) \<leftarrow>
       (if i = 1 then do { m1 \<leftarrow> wr32 (mem s1) (rq_head s1) q_next ptr; Some (rq_head s1, m1) }
        else do {
          pn \<leftarrow> rd32 (mem s1) pptr q_next;
          m1 \<leftarrow> wr32 (mem s1) pn q_next ptr;
          Some (pn, m1) });
     m2 \<leftarrow> wr32 m1 ptr q_prev pptr1;
     m3 \<leftarrow> wr32 m2 ptr q_task (if i = 0 then fn1 s1 else fn2 s1);
     m4 \<leftarrow> wr32 m3 ptr q_tid (of_nat i);
     m5 \<leftarrow> wr32 m4 ptr q_next (rq_head s1);
     m6 \<leftarrow> wr32 m5 (rq_head s1) q_prev ptr;
     register_loop (i + 1) n pptr1 (s1\<lparr>mem := m6\<rparr>) }"

definition proto_cr_register_routine :: "'a proto_scheme \<Rightarrow> 'a proto_scheme option" where
  "proto_cr_register_routine s = do {
     m1 \<leftarrow> wr32 (mem s) (rq_head s) q_task (fn1 s);
     m2 \<leftarrow> wr32 m1 (rq_head s) q_tid 0;
     m3 \<leftarrow> wr32 m2 (rq_head s) q_next 0;
     m4 \<leftarrow> wr32 m3 (rq_head s) q_prev 0;
     register_loop 1 (MAX_THREADS - 1) 0 (s\<lparr>mem := m4\<rparr>) }"

end
