(* ===== verification/Proto_Proofs.thy ===== *)
theory Proto_Proofs
  imports Proto_Cr Kmalloc_Proofs
begin

text \<open>
  The protothreads of src/MemeOS/src/proto_cr.c run to their end. A coroutine is abstracted to its
  entry point, its counter and its flag (\<open>co_step\<close>); a turn of the scheduling loop is one step of the
  coroutine whose node is current (\<open>turn1\<close>, \<open>turn2\<close>), and the turns are composed until the loop returns.
  The nodes are bytes of memory: the first is static, the second comes from the heap and goes back to it.
\<close>

section \<open>Nodes of the run queue\<close>

definition rq_node :: "mem \<Rightarrow> addr \<Rightarrow> addr \<times> u32 \<times> addr \<times> addr \<Rightarrow> bool" where
  "rq_node m x v \<longleftrightarrow> (ld32 m x, ld32 m (x + 4), ld32 m (x + 8), ld32 m (x + 12)) = v"

definition node_ok :: "addr \<Rightarrow> bool" where
  "node_ok x \<longleftrightarrow> x \<noteq> 0 \<and> unat x + 16 \<le> two32 \<and> region x 16 \<inter> screen = {}"

lemma node_word:
  assumes "unat x + 16 \<le> two32" and "i \<in> {0, 4, 8, 12}"
  shows "unat (x + i) + 4 \<le> two32" "region (x + i) 4 \<subseteq> region x 16"
proof -
  have "unat (x + i) = unat x + unat i" "unat i + 4 \<le> 16" using assms by auto
  then show "unat (x + i) + 4 \<le> two32" "region (x + i) 4 \<subseteq> region x 16"
    using assms(1) by (auto simp: region_def)
qed

lemma node_fld:
  assumes "apart p 16 q 16 \<or> p = q \<and> i \<noteq> j" and "unat p + 16 \<le> two32" and "unat q + 16 \<le> two32"
    and "i \<in> {0, 4, 8, 12}" and "j \<in> {0, 4, 8, 12}"
  shows "ld32 (st32 m (p + i) v) (q + j) = ld32 m (q + j)"
proof (rule ld32_st32_apart)
  have "unat (p + i) = unat p + unat i" "unat (q + j) = unat q + unat j" using assms by auto
  then show "apart (p + i) 4 (q + j) 4" using assms by (auto simp: apart_def)
qed

lemmas node_flds = node_fld node_fld [where i = 0, simplified] node_fld [where j = 0, simplified]
  node_fld [where i = 0 and j = 0, simplified]

lemma rq_node_frame:
  assumes "eq_out A m m'" and "unat x + 16 \<le> two32" and "region x 16 \<inter> A = {}"
  shows "rq_node m' x v = rq_node m x v"
proof -
  have "ld32 m' (x + i) = ld32 m (x + i)" if "i \<in> {0, 4, 8, 12}" for i
    by (rule eq_out_ld32 [OF assms(1) node_word(1) [OF assms(2) that]]) (use node_word(2) [OF assms(2) that] assms(3) in blast)
  from this [of 0] this [of 4] this [of 8] this [of 12] show ?thesis by (simp add: rq_node_def)
qed

lemma rq_node_untouched:
  assumes "untouched rs m m'" and "(unat x, k) \<in> set rs" and "16 \<le> k" and "unat x + 16 \<le> two32"
  shows "rq_node m' x v = rq_node m x v"
proof (rule rq_node_frame [where A = "- region x 16"])
  show "eq_out (- region x 16) m m'"
    using untouched_byte [OF assms(1,2)] assms(3) by (auto simp: eq_out_def region_def)
qed (use assms in auto)

section \<open>The coroutines\<close>

text \<open>
  A coroutine is its entry point, its counter and its flag: a call before the last one prints a row,
  the one that makes the counter reach \<open>n\<close> sets the flag.
\<close>

definition co_step :: "u32 \<Rightarrow> bool \<times> u32 \<times> bool \<Rightarrow> bool \<times> u32 \<times> bool" where
  "co_step n = (\<lambda>(st, j, d). if st \<and> j + 1 = n then (True, n, True) else (True, if st then j + 1 else j, d))"

definition co1 :: "'a proto_scheme \<Rightarrow> bool \<times> u32 \<times> bool" where
  "co1 s = (state1 s, j1 s, done1 s)"

definition co2 :: "'a proto_scheme \<Rightarrow> bool \<times> u32 \<times> bool" where
  "co2 s = (state2 s, j2 s, done2 s)"

text \<open>What a call of a coroutine keeps.\<close>

definition co_frame :: "'a proto_scheme \<Rightarrow> 'a proto_scheme \<Rightarrow> bool" where
  "co_frame s t \<longleftrightarrow> tty_ok t \<and> eq_out screen (mem s) (mem t) \<and> rq_head t = rq_head s \<and> fn1 t = fn1 s \<and> fn2 t = fn2 s \<and>
     store_global_head t = store_global_head s"

lemma console_proto:
  fixes s :: "'a proto_scheme"
  assumes "console_step s t"
  shows "co_frame s t" "co1 t = co1 s" "co2 t = co2 s"
proof -
  have e: "t = s\<lparr>mem := mem t, ATTRIBUTE := ATTRIBUTE t, xpos := xpos t, ypos := ypos t\<rparr>"
    using assms by (simp add: console_step_def)
  have "rq_head t = rq_head s" "fn1 t = fn1 s" "fn2 t = fn2 s" "store_global_head t = store_global_head s"
    by (subst e, simp)+
  then show "co_frame s t" using assms by (simp add: co_frame_def console_step_def)
  show "co1 t = co1 s" "co2 t = co2 s" by (subst e, simp add: co1_def co2_def)+
qed

lemma print_times_runs:
  "fmt_ok (chars t) [] \<Longrightarrow> tty_ok s \<Longrightarrow> \<exists>s'. print_times n t s = Some s' \<and> console_step s s'"
proof (induction n arbitrary: s)
  case (Suc n)
  obtain s1 where s1: "printf t [] s = Some s1" "console_step s s1" using printf_returns [OF Suc.prems] by blast
  then obtain s2 where "print_times n t s1 = Some s2" "console_step s1 s2"
    using Suc.IH [OF Suc.prems(1) console_step_ok] by blast
  with s1 show ?case using console_step_trans by force
qed simp

lemma proto_row_runs:
  assumes "fmt_ok (chars t) []" and "tty_ok s"
  shows "\<exists>s'. proto_row n t s = Some s' \<and> console_step s s'"
proof -
  obtain s1 where s1: "print_times n t s = Some s1" "console_step s s1" using print_times_runs [OF assms] by blast
  have "fmt_ok (chars nl) []" by code_simp
  then obtain s2 where "printf nl [] s1 = Some s2" "console_step s1 s2"
    using printf_returns console_step_ok [OF s1(2)] by blast
  with s1 show ?thesis using console_step_trans by (force simp: proto_row_def)
qed

lemma thread1_runs:
  assumes "tty_ok s"
  shows "\<exists>r t. proto_cr_thread1 s = Some (r, t) \<and> co_frame s t \<and> co1 t = co_step 3 (co1 s) \<and> co2 t = co2 s"
proof -
  define s0 where "s0 = (if state1 s then s\<lparr>j1 := j1 s + 1\<rparr> else s)"
  have ok: "tty_ok (s0\<lparr>done1 := True\<rparr>)" "tty_ok s0" using assms by (simp_all add: s0_def tty_ok_def)
  have fmt: "fmt_ok (chars (''Done <1>!'' @ nl)) []" "fmt_ok (chars ''<1>'') []" by code_simp+
  obtain t1 where t1: "printf (''Done <1>!'' @ nl) [] (s0\<lparr>done1 := True\<rparr>) = Some t1" "console_step (s0\<lparr>done1 := True\<rparr>) t1"
    using printf_returns [OF fmt(1) ok(1)] by blast
  obtain t2 where t2: "proto_row 10 ''<1>'' s0 = Some t2" "console_step s0 t2"
    using proto_row_runs [OF fmt(2) ok(2)] by blast
  show ?thesis
    using t1(1) t2(1) console_proto [OF t1(2)] console_proto [OF t2(2)]
    by (auto simp: proto_cr_thread1_def Let_def co_step_def co1_def co2_def co_frame_def tty_ok_def s0_def)
qed

lemma thread2_runs:
  assumes "tty_ok s"
  shows "\<exists>r t. proto_cr_thread2 s = Some (r, t) \<and> co_frame s t \<and> co2 t = co_step 5 (co2 s) \<and> co1 t = co1 s"
proof -
  define s0 where "s0 = (if state2 s then s\<lparr>j2 := j2 s + 1\<rparr> else s)"
  have ok: "tty_ok (s0\<lparr>done2 := True\<rparr>)" "tty_ok s0" using assms by (simp_all add: s0_def tty_ok_def)
  have fmt: "fmt_ok (chars (''Done <2>!'' @ nl)) []" "fmt_ok (chars ''<2>'') []" by code_simp+
  obtain t1 where t1: "printf (''Done <2>!'' @ nl) [] (s0\<lparr>done2 := True\<rparr>) = Some t1" "console_step (s0\<lparr>done2 := True\<rparr>) t1"
    using printf_returns [OF fmt(1) ok(1)] by blast
  obtain t2 where t2: "proto_row 5 ''<2>'' s0 = Some t2" "console_step s0 t2"
    using proto_row_runs [OF fmt(2) ok(2)] by blast
  show ?thesis
    using t1(1) t2(1) console_proto [OF t1(2)] console_proto [OF t2(2)]
    by (auto simp: proto_cr_thread2_def Let_def co_step_def co1_def co2_def co_frame_def tty_ok_def s0_def)
qed


section \<open>The loop\<close>

lemma co_frame_trans: "co_frame s t \<Longrightarrow> co_frame t u \<Longrightarrow> co_frame s u"
  by (auto simp: co_frame_def intro: eq_out_trans)

lemma co_frame_node: "co_frame s t \<Longrightarrow> node_ok x \<Longrightarrow> rq_node (mem t) x v = rq_node (mem s) x v"
  by (rule rq_node_frame) (auto simp: co_frame_def node_ok_def)

text \<open>One turn of the loop, after the call of the task.\<close>

lemma schedule_loop_call:
  assumes "node_ok x" and n: "rq_node (mem s) x (f, tid, nx, pv)" and c: "call_task f s = Some (r, t)"
    and fr: "co_frame s t" and d: "is_done tid t = Some d"
  shows "schedule_loop x th s =
     (if d then
        (if th = 1 then Some t
         else do {
           (nxt, m) \<leftarrow> unlink_finished x (mem t);
           if x \<noteq> rq_head t then do {
             s2 \<leftarrow> kfree x (t\<lparr>mem := m\<rparr>);
             schedule_loop nxt (th - 1) s2 }
           else schedule_loop nxt th (t\<lparr>mem := m\<rparr>) })
      else schedule_loop nx th t)"
proof -
  have "rq_node (mem t) x (f, tid, nx, pv)" using n co_frame_node [OF fr assms(1)] by simp
  then have w: "ld32 (mem s) x = f" "ld32 (mem t) (x + 4) = tid" "ld32 (mem t) (x + 8) = nx"
    using n by (simp_all add: rq_node_def)
  show ?thesis using assms(1) c d w by (subst schedule_loop.simps) (simp add: node_ok_def)
qed

text \<open>Both coroutines queued, and only the second left.\<close>

definition both_queued :: "'a proto_scheme \<Rightarrow> addr \<Rightarrow> bool" where
  "both_queued s x \<longleftrightarrow> tty_ok s \<and> fn1 s \<noteq> fn2 s \<and> node_ok (rq_head s) \<and> node_ok x \<and> apart (rq_head s) 16 x 16 \<and>
     rq_node (mem s) (rq_head s) (fn1 s, 0, x, x) \<and> rq_node (mem s) x (fn2 s, 1, rq_head s, rq_head s)"

definition one_queued :: "'a proto_scheme \<Rightarrow> addr \<Rightarrow> bool" where
  "one_queued s x \<longleftrightarrow> tty_ok s \<and> fn1 s \<noteq> fn2 s \<and> node_ok x \<and> x \<noteq> rq_head s \<and> rq_node (mem s) x (fn2 s, 1, x, x)"

lemma queued_frame:
  assumes "co_frame s t"
  shows "both_queued s x \<Longrightarrow> both_queued t x" "one_queued s x \<Longrightarrow> one_queued t x"
  using assms co_frame_node [OF assms] by (auto simp: both_queued_def one_queued_def co_frame_def)

text \<open>The first coroutine's turn, and the second's.\<close>

lemma turn1:
  assumes "both_queued s x"
  shows "\<exists>t. co_frame s t \<and> co1 t = co_step 3 (co1 s) \<and> co2 t = co2 s \<and> both_queued t x \<and>
     (\<not> done1 t \<longrightarrow> schedule_loop (rq_head s) th s = schedule_loop x th t) \<and>
     (done1 t \<longrightarrow> th \<noteq> 1 \<longrightarrow> schedule_loop (rq_head s) th s = do {
        (nxt, m) \<leftarrow> unlink_finished (rq_head s) (mem t); schedule_loop nxt th (t\<lparr>mem := m\<rparr>) })"
proof -
  have q: "tty_ok s" "node_ok (rq_head s)" "rq_node (mem s) (rq_head s) (fn1 s, 0, x, x)"
    using assms by (simp_all add: both_queued_def)
  obtain r t where t: "proto_cr_thread1 s = Some (r, t)" "co_frame s t" "co1 t = co_step 3 (co1 s)" "co2 t = co2 s"
    using thread1_runs [OF q(1)] by blast
  have "call_task (fn1 s) s = Some (r, t)" "is_done 0 t = Some (done1 t)" using t(1) by (simp_all add: call_task_def is_done_def)
  note l = schedule_loop_call [OF q(2,3) this(1) t(2) this(2), of th]
  have h: "rq_head t = rq_head s" using t(2) by (simp add: co_frame_def)
  show ?thesis unfolding l by (intro exI [of _ t]) (use t(2-4) queued_frame(1) [OF t(2) assms] h in simp)
qed

lemma turn2:
  assumes "tty_ok s" and "node_ok x" and "fn1 s \<noteq> fn2 s" and "rq_node (mem s) x (fn2 s, 1, nx, pv)" and "x \<noteq> rq_head s"
  shows "\<exists>t. co_frame s t \<and> co2 t = co_step 5 (co2 s) \<and> co1 t = co1 s \<and>
     (\<not> done2 t \<longrightarrow> schedule_loop x th s = schedule_loop nx th t) \<and>
     (done2 t \<longrightarrow> th \<noteq> 1 \<longrightarrow> schedule_loop x th s = do {
        (nxt, m) \<leftarrow> unlink_finished x (mem t);
        s2 \<leftarrow> kfree x (t\<lparr>mem := m\<rparr>);
        schedule_loop nxt (th - 1) s2 }) \<and>
     (done2 t \<longrightarrow> th = 1 \<longrightarrow> schedule_loop x th s = Some t)"
proof -
  obtain r t where t: "proto_cr_thread2 s = Some (r, t)" "co_frame s t" "co2 t = co_step 5 (co2 s)" "co1 t = co1 s"
    using thread2_runs [OF assms(1)] by blast
  have "call_task (fn2 s) s = Some (r, t)" "is_done 1 t = Some (done2 t)"
    using t(1) assms(3) by (simp_all add: call_task_def is_done_def)
  note l = schedule_loop_call [OF assms(2,4) this(1) t(2) this(2), of th]
  have h: "rq_head t = rq_head s" using t(2) by (simp add: co_frame_def)
  show ?thesis unfolding l by (intro exI [of _ t]) (use t(2-4) h assms(5) in simp)
qed

lemma round_robin_turn:
  assumes q: "both_queued s x" and d: "\<not> snd (snd (co_step 3 (co1 s)))" "\<not> snd (snd (co_step 5 (co2 s)))"
  shows "\<exists>t. schedule_loop (rq_head s) th s = schedule_loop (rq_head t) th t \<and> co_frame s t \<and> both_queued t x \<and>
     co1 t = co_step 3 (co1 s) \<and> co2 t = co_step 5 (co2 s)"
proof -
  obtain t where t: "co_frame s t" "co1 t = co_step 3 (co1 s)" "co2 t = co2 s" "both_queued t x"
    "\<not> done1 t \<longrightarrow> schedule_loop (rq_head s) th s = schedule_loop x th t"
    using turn1 [OF q] by blast
  have n: "tty_ok t" "node_ok x" "fn1 t \<noteq> fn2 t" "rq_node (mem t) x (fn2 t, 1, rq_head t, rq_head t)" "x \<noteq> rq_head t"
    using t(4) by (auto simp: both_queued_def apart_def)
  obtain u where u: "co_frame t u" "co2 u = co_step 5 (co2 t)" "co1 u = co1 t"
    "\<not> done2 u \<longrightarrow> schedule_loop x th t = schedule_loop (rq_head t) th u"
    using turn2 [OF n] by blast
  have "done1 t = snd (snd (co1 t))" "done2 u = snd (snd (co2 u))" by (simp_all add: co1_def co2_def)
  then have "\<not> done1 t" "\<not> done2 u" using t(2,3) u(2) d by simp_all
  moreover have "rq_head u = rq_head t" using u(1) by (simp add: co_frame_def)
  ultimately show ?thesis
    using t u co_frame_trans queued_frame(1) [OF u(1) t(4)] by (intro exI [of _ u]) auto
qed


text \<open>Unlinking the first node leaves the second alone, and unlinking that one changes nothing.\<close>

lemma unlink_first:
  assumes "both_queued s x"
  shows "\<exists>m. unlink_finished (rq_head s) (mem s) = Some (x, m) \<and> one_queued (s\<lparr>mem := m\<rparr>) x \<and> eq_out (region x 16) (mem s) m"
proof -
  let ?h = "rq_head s"
  have ok: "x \<noteq> 0" "?h \<noteq> 0" "unat x + 16 \<le> two32" "unat ?h + 16 \<le> two32" "apart ?h 16 x 16"
    and w: "ld32 (mem s) (?h + 8) = x" "ld32 (mem s) (?h + 12) = x" "ld32 (mem s) x = fn2 s" "ld32 (mem s) (x + 4) = 1"
    using assms by (auto simp: both_queued_def node_ok_def rq_node_def)
  define m1 where "m1 = st32 (mem s) (x + 8) x"
  define m2 where "m2 = st32 m1 (x + 12) x"
  have a: "apart (x + 8) 4 (?h + i) 4 \<and> apart (x + 12) 4 (?h + i) 4" if "i \<in> {8, 12}" for i
    using ok that by (auto simp: apart_def)
  have b: "apart (x + i) 4 (x + j) 4" if "i \<in> {0, 4, 8, 12}" "j \<in> {0, 4, 8, 12}" "i \<noteq> j" for i j
    using ok(3) that by (auto simp: apart_def)
  have r1: "ld32 m1 (?h + 8) = x" "ld32 m1 (?h + 12) = x" "ld32 m1 (x + 8) = x"
    using a [of 8] a [of 12] w by (simp_all add: m1_def ld32_st32_apart)
  have "ld32 m2 (x + 8) = x" "ld32 m2 x = fn2 s" "ld32 m2 (x + 4) = 1" "ld32 m2 (x + 12) = x"
    using b [of 12 8] b [of 12 0] b [of 12 4] b [of 8 0] b [of 8 4] w by (simp_all add: m2_def m1_def ld32_st32_apart)
  note r2 = this
  have "x \<noteq> ?h" using ok(5) by (auto simp: apart_def)
  then have "unlink_finished ?h (mem s) = Some (x, m2)"
    using ok(1,2) w r1 r2(1) by (simp add: unlink_finished_def m1_def [symmetric] m2_def [symmetric])
  moreover have "one_queued (s\<lparr>mem := m2\<rparr>) x"
    using assms r2 \<open>x \<noteq> ?h\<close> by (simp add: both_queued_def one_queued_def rq_node_def tty_ok_def)
  moreover have "eq_out (region x 16) (mem s) m2"
    unfolding m2_def m1_def
    by (intro eq_out_trans [OF eq_out_st32 eq_out_st32] node_word [OF ok(3)]) simp_all
  ultimately show ?thesis by blast
qed

lemma unlink_last:
  assumes "one_queued s x"
  shows "\<exists>m. unlink_finished x (mem s) = Some (x, m) \<and> one_queued (s\<lparr>mem := m\<rparr>) x \<and> eq_out (region x 16) (mem s) m"
proof -
  have ok: "x \<noteq> 0" "unat x + 16 \<le> two32"
    and w: "ld32 (mem s) (x + 8) = x" "ld32 (mem s) (x + 12) = x" "ld32 (mem s) x = fn2 s" "ld32 (mem s) (x + 4) = 1"
    using assms by (auto simp: one_queued_def node_ok_def rq_node_def)
  define m3 where "m3 = st32 (st32 (st32 (mem s) (x + 8) x) (x + 12) x) (x + 8) x"
  have b: "apart (x + i) 4 (x + j) 4" if "i \<in> {0, 4, 8, 12}" "j \<in> {0, 4, 8, 12}" "i \<noteq> j" for i j
    using ok(2) that by (auto simp: apart_def)
  note ne = b [of 8 12] b [of 12 8] b [of 12 0] b [of 12 4] b [of 8 0] b [of 8 4]
  have "unlink_finished x (mem s) = Some (x, m3)"
    using ok w ne by (simp add: unlink_finished_def m3_def ld32_st32_apart)
  moreover have "one_queued (s\<lparr>mem := m3\<rparr>) x"
    using assms w ne by (simp add: one_queued_def rq_node_def tty_ok_def m3_def ld32_st32_apart)
  moreover have "eq_out (region x 16) (mem s) m3"
    unfolding m3_def
    by (intro eq_out_trans [OF eq_out_trans [OF eq_out_st32 eq_out_st32] eq_out_st32] node_word [OF ok(2)]) simp_all
  ultimately show ?thesis by blast
qed


text \<open>The first three rounds print two rows each; in the fourth the first coroutine ends.\<close>

lemma first_finishes:
  assumes q: "both_queued s x" and c: "co1 s = (False, 0, False)" "co2 s = (False, 0, False)" and th: "th \<noteq> 1"
  shows "\<exists>t m. schedule_loop (rq_head s) th s = schedule_loop x th (t\<lparr>mem := m\<rparr>) \<and> co_frame s t \<and>
     eq_out (region x 16) (mem t) m \<and> one_queued (t\<lparr>mem := m\<rparr>) x \<and> co1 t = (True, 3, True) \<and> co2 t = (True, 2, False)"
proof -
  note step = co_step_def
  obtain s1 where s1: "schedule_loop (rq_head s) th s = schedule_loop (rq_head s1) th s1" "co_frame s s1" "both_queued s1 x"
    "co1 s1 = (True, 0, False)" "co2 s1 = (True, 0, False)"
    using round_robin_turn [OF q, of th] c by (auto simp: step)
  obtain s2 where s2: "schedule_loop (rq_head s1) th s1 = schedule_loop (rq_head s2) th s2" "co_frame s1 s2" "both_queued s2 x"
    "co1 s2 = (True, 1, False)" "co2 s2 = (True, 1, False)"
    using round_robin_turn [OF s1(3), of th] s1(4,5) by (auto simp: step)
  obtain s3 where s3: "schedule_loop (rq_head s2) th s2 = schedule_loop (rq_head s3) th s3" "co_frame s2 s3" "both_queued s3 x"
    "co1 s3 = (True, 2, False)" "co2 s3 = (True, 2, False)"
    using round_robin_turn [OF s2(3), of th] s2(4,5) by (auto simp: step)
  obtain t where t: "co_frame s3 t" "co1 t = co_step 3 (co1 s3)" "co2 t = co2 s3" "both_queued t x"
    "done1 t \<longrightarrow> th \<noteq> 1 \<longrightarrow> schedule_loop (rq_head s3) th s3 = do {
        (nxt, m) \<leftarrow> unlink_finished (rq_head s3) (mem t); schedule_loop nxt th (t\<lparr>mem := m\<rparr>) }"
    using turn1 [OF s3(3), of th] by blast
  have c': "co1 t = (True, 3, True)" using t(2) s3(4) by (simp add: step)
  have h: "rq_head t = rq_head s3" using t(1) by (simp add: co_frame_def)
  obtain m where m: "unlink_finished (rq_head s3) (mem t) = Some (x, m)" "one_queued (t\<lparr>mem := m\<rparr>) x" "eq_out (region x 16) (mem t) m"
    using unlink_first [OF t(4)] h by auto
  have "schedule_loop (rq_head s) th s = schedule_loop x th (t\<lparr>mem := m\<rparr>)"
    using s1(1) s2(1) s3(1) t(5) m(1) th c' by (simp add: co1_def)
  moreover have "co_frame s t" using co_frame_trans s1(2) s2(2) s3(2) t(1) by meson
  ultimately show ?thesis using m(2,3) c' t(3) s3(5) by metis
qed

lemma alone_turn:
  assumes q: "one_queued s x" and d: "\<not> snd (snd (co_step 5 (co2 s)))"
  shows "\<exists>t. schedule_loop x th s = schedule_loop x th t \<and> co_frame s t \<and> one_queued t x \<and>
     co2 t = co_step 5 (co2 s) \<and> co1 t = co1 s"
proof -
  have n: "tty_ok s" "node_ok x" "fn1 s \<noteq> fn2 s" "rq_node (mem s) x (fn2 s, 1, x, x)" "x \<noteq> rq_head s"
    using q by (auto simp: one_queued_def)
  obtain t where t: "co_frame s t" "co2 t = co_step 5 (co2 s)" "co1 t = co1 s"
    "\<not> done2 t \<longrightarrow> schedule_loop x th s = schedule_loop x th t"
    using turn2 [OF n] by blast
  have "done2 t = snd (snd (co2 t))" by (simp add: co2_def)
  then show ?thesis using t d queued_frame(2) [OF t(1) q] by auto
qed

text \<open>
  The second coroutine's node is freed when it ends, but it is its own successor: the loop calls its
  task once more, through the freed node, which the allocator leaves as it was.
\<close>

lemma second_finishes:
  assumes q: "one_queued s x" and c: "co2 s = (True, 4, False)" and rep: "heap_rep s bs"
    and l: "live (unat (store_global_head s)) bs = rs1 @ (unat x, k) # rs2" and k: "16 \<le> k"
    and out: "zone (unat (store_global_head s)) (span bs) \<inter> screen = {}"
  shows "\<exists>t bs'. schedule_loop x 2 s = Some t \<and> co1 t = co1 s \<and> co2 t = (True, 6, True) \<and> tty_ok t \<and> heap_rep t bs' \<and>
     live (unat (store_global_head s)) bs' = rs1 @ rs2 \<and> store_global_head t = store_global_head s \<and>
     eq_out (screen \<union> zone (unat (store_global_head s)) (span bs)) (mem s) (mem t)"
proof -
  let ?b = "unat (store_global_head s)" and ?Z = "zone (unat (store_global_head s)) (span bs)"
  have n: "tty_ok s" "node_ok x" "fn1 s \<noteq> fn2 s" "rq_node (mem s) x (fn2 s, 1, x, x)" "x \<noteq> rq_head s"
    using q by (auto simp: one_queued_def)
  obtain t where t: "co_frame s t" "co2 t = co_step 5 (co2 s)" "co1 t = co1 s"
    "done2 t \<longrightarrow> (2 :: u32) \<noteq> 1 \<longrightarrow> schedule_loop x 2 s = do {
        (nxt, m) \<leftarrow> unlink_finished x (mem t);
        s2 \<leftarrow> kfree x (t\<lparr>mem := m\<rparr>);
        schedule_loop nxt (2 - 1) s2 }"
    using turn2 [OF n, of 2] by blast
  have c2: "co2 t = (True, 5, True)" using t(2) c by (simp add: co_step_def)
  have fr: "store_global_head t = store_global_head s" "eq_out screen (mem s) (mem t)" "tty_ok t" using t(1) by (simp_all add: co_frame_def)
  obtain m where m: "unlink_finished x (mem t) = Some (x, m)" "one_queued (t\<lparr>mem := m\<rparr>) x" "eq_out (region x 16) (mem t) m"
    using unlink_last [OF queued_frame(2) [OF t(1) q]] by blast
  have rep1: "heap_rep t bs" using heap_outside [OF rep out fr(2,1)] .
  have x16: "region x 16 \<subseteq> payload (live ?b bs)" using l k by (fastforce simp: payload_def region_def)
  have rep2: "heap_rep (t\<lparr>mem := m\<rparr>) bs"
    by (rule heap_rep_payload [OF rep1]) (use eq_out_mono [OF m(3) x16] fr(1) in simp)
  obtain m' bs' where m': "kfree x (t\<lparr>mem := m\<rparr>) = Some (t\<lparr>mem := m'\<rparr>)" "heap_rep (t\<lparr>mem := m'\<rparr>) bs'"
    "live ?b bs' = rs1 @ rs2" "span bs' = span bs" "untouched (rs1 @ (unat x, k) # rs2) m m'" "eq_out ?Z m m'"
    using kfree_room [OF rep2, of rs1 "unat x" k rs2] l fr(1) by auto
  have q2: "one_queued (t\<lparr>mem := m'\<rparr>) x"
    using m(2) rq_node_untouched [OF m'(5), of x k] k by (simp add: one_queued_def node_ok_def tty_ok_def)
  then have n2: "tty_ok (t\<lparr>mem := m'\<rparr>)" "fn1 (t\<lparr>mem := m'\<rparr>) \<noteq> fn2 (t\<lparr>mem := m'\<rparr>)"
    "rq_node (mem (t\<lparr>mem := m'\<rparr>)) x (fn2 (t\<lparr>mem := m'\<rparr>), 1, x, x)" "x \<noteq> rq_head (t\<lparr>mem := m'\<rparr>)"
    by (auto simp: one_queued_def)
  obtain u where u: "co_frame (t\<lparr>mem := m'\<rparr>) u" "co2 u = co_step 5 (co2 (t\<lparr>mem := m'\<rparr>))" "co1 u = co1 (t\<lparr>mem := m'\<rparr>)"
    "done2 u \<longrightarrow> (1 :: u32) = 1 \<longrightarrow> schedule_loop x 1 (t\<lparr>mem := m'\<rparr>) = Some u"
    using turn2 [OF n2(1) n(2) n2(2-4), of 1] by blast
  have cu: "co2 u = (True, 6, True)" using u(2) c2 by (simp add: co_step_def co2_def)
  have "schedule_loop x 2 s = Some u" using t(4) m(1) m'(1) u(4) c2 cu by (simp add: co2_def)
  moreover have "heap_rep u bs'"
    by (rule heap_outside [OF m'(2), of screen]) (use u(1) out m'(4) fr(1) in \<open>auto simp: co_frame_def\<close>)
  moreover have "eq_out (screen \<union> ?Z) (mem s) (mem u)"
  proof -
    have "region x 16 \<subseteq> ?Z" using x16 payload_zone by blast
    with fr(2) m(3) m'(6) u(1) show ?thesis by (auto simp: co_frame_def eq_out_def subset_eq)
  qed
  ultimately show ?thesis using u(1,3) cu t(3) m'(3) fr(1) by (intro exI [of _ u] exI [of _ bs']) (auto simp: co_frame_def co1_def)
qed


section \<open>Registration\<close>

lemma register_queues:
  assumes ok: "tty_ok s" "fn1 s \<noteq> fn2 s" "node_ok (rq_head s)" and rep: "heap_rep s bs" and fit: "\<exists>b \<in> set bs. fits 16 b"
    and out: "zone (unat (store_global_head s)) (span bs) \<inter> (screen \<union> region (rq_head s) 16) = {}"
  shows "\<exists>m x k rs1 rs2. proto_cr_register_routine s = Some (s\<lparr>mem := m\<rparr>) \<and> both_queued (s\<lparr>mem := m\<rparr>) x \<and>
     heap_rep (s\<lparr>mem := m\<rparr>) (alloc_blks 16 bs) \<and> live (unat (store_global_head s)) bs = rs1 @ rs2 \<and>
     live (unat (store_global_head s)) (alloc_blks 16 bs) = rs1 @ (unat x, k) # rs2 \<and> 16 \<le> k"
proof -
  let ?h = "rq_head s" and ?b = "unat (store_global_head s)"
  define m4 where "m4 = st32 (st32 (st32 (st32 (mem s) ?h (fn1 s)) (?h + 4) 0) (?h + 8) 0) (?h + 12) 0"
  have h: "?h \<noteq> 0" "unat ?h + 16 \<le> two32" using ok(3) by (simp_all add: node_ok_def)
  have e4: "eq_out (region ?h 16) (mem s) m4"
    unfolding m4_def using node_word [OF h(2), of 0]
    by (intro eq_out_trans [OF eq_out_trans [OF eq_out_trans [OF eq_out_st32 eq_out_st32] eq_out_st32] eq_out_st32]
        node_word [OF h(2)]) simp_all
  have rep4: "heap_rep (s\<lparr>mem := m4\<rparr>) bs" by (rule heap_outside [OF rep, of "region ?h 16"]) (use e4 out in auto)
  obtain x m5 rs1 rs2 k where km: "kmalloc 16 (s\<lparr>mem := m4\<rparr>) = Some (x, s\<lparr>mem := m5\<rparr>)"
    and rep5: "heap_rep (s\<lparr>mem := m5\<rparr>) (alloc_blks 16 bs)" and k: "16 \<le> k"
    and l: "live ?b bs = rs1 @ rs2" "live ?b (alloc_blks 16 bs) = rs1 @ (unat x, k) # rs2"
    and z: "eq_out (zone ?b (span bs)) m4 m5"
    using kmalloc_room [OF rep4 _ fit] by auto
  have x: "0 < unat x" "unat x + k < two32"
    using kheap.owns_range [OF heap_rep_owns [OF rep5], of "unat x" k] l(2) by auto
  have x16: "region x 16 \<subseteq> payload (live ?b (alloc_blks 16 bs))" using l(2) k by (fastforce simp: payload_def region_def)
  then have xz: "region x 16 \<subseteq> zone ?b (span bs)" using payload_zone [of ?b "alloc_blks 16 bs"] by auto
  then have hx: "region ?h 16 \<inter> region x 16 = {}" and okx: "node_ok x" using out x k by (auto simp: node_ok_def)
  have ap: "apart ?h 16 x 16"
  proof -
    have "x \<in> region x 16" "?h \<in> region ?h 16" using x h by (auto simp: region_def)
    then have "x \<notin> region ?h 16" "?h \<notin> region x 16" using hx by auto
    then show ?thesis using x h k by (auto simp: apart_def region_def)
  qed
  define m where "m = st32 (st32 (st32 (st32 (st32 (st32 m5 (?h + 8) x) (x + 12) ?h) x (fn2 s)) (x + 4) 1) (x + 8) ?h) (?h + 12) x"
  have run: "proto_cr_register_routine s = Some (s\<lparr>mem := m\<rparr>)"
    using h x km by (simp add: proto_cr_register_routine_def MAX_THREADS_def m4_def [symmetric] m_def unat_gt_0)
  have h5: "rq_node m5 ?h (fn1 s, 0, 0, 0)"
  proof -
    have "rq_node m4 ?h (fn1 s, 0, 0, 0)" using h(2) by (simp add: rq_node_def m4_def ld32_st32_apart apart_def)
    then show ?thesis using rq_node_frame [OF z h(2)] out by blast
  qed
  have "both_queued (s\<lparr>mem := m\<rparr>) x"
    using ok okx ap ap [THEN apart_sym [THEN iffD1]] h(2) x k h5
    by (simp add: both_queued_def rq_node_def tty_ok_def m_def node_flds)
  moreover have "heap_rep (s\<lparr>mem := m\<rparr>) (alloc_blks 16 bs)"
  proof -
    have "eq_out (region x 16 \<union> region ?h 16) m5 m" unfolding m_def using node_word [of x 0] node_word [of ?h 0] h x k
      by (intro eq_out_trans [OF eq_out_trans [OF eq_out_trans [OF eq_out_trans [OF eq_out_trans [OF eq_out_st32 eq_out_st32]
            eq_out_st32] eq_out_st32] eq_out_st32] eq_out_st32] node_word le_supI1 le_supI2) simp_all
    then obtain m' where m': "eq_out (region x 16) m5 m'" "eq_out (region ?h 16) m' m" using eq_out_split by blast
    have "heap_rep (s\<lparr>mem := m'\<rparr>) (alloc_blks 16 bs)"
      using heap_rep_payload [OF rep5, of m'] eq_out_mono [OF m'(1) x16] by simp
    then show ?thesis by (rule heap_outside [where A = "region ?h 16"]) (use m'(2) out in auto)
  qed
  ultimately show ?thesis using run l k by blast
qed


section \<open>Properties\<close>

text \<open>
  C21: the protothreads run to their end. After \<open>proto_cr_register_routine\<close>, with room for one node in
  the heap and the static node outside the heap and the screen, \<open>proto_cr_schedule\<close> returns: both
  coroutines are done, the first after its three rows, and the heap holds what it held before. The second
  one has been called once too often: its counter is 6, not 5, so a row follows its last message.
\<close>

theorem proto_cr_completes:
  assumes "tty_ok s" and "fn1 s \<noteq> fn2 s" and "node_ok (rq_head s)" and "heap_rep s bs" and "\<exists>b \<in> set bs. fits 16 b"
    and "zone (unat (store_global_head s)) (span bs) \<inter> (screen \<union> region (rq_head s) 16) = {}"
    and "\<not> state1 s" and "\<not> state2 s" and "\<not> done1 s" and "\<not> done2 s" and "j1 s = 0" and "j2 s = 0"
  shows "\<exists>s1 t bs'. proto_cr_register_routine s = Some s1 \<and> proto_cr_schedule s1 = Some t \<and> tty_ok t \<and>
     done1 t \<and> j1 t = 3 \<and> done2 t \<and> j2 t = 6 \<and>
     heap_rep t bs' \<and> live (unat (store_global_head s)) bs' = live (unat (store_global_head s)) bs"
proof -
  let ?b = "unat (store_global_head s)"
  obtain m x k rs1 rs2 where reg: "proto_cr_register_routine s = Some (s\<lparr>mem := m\<rparr>)"
    and q: "both_queued (s\<lparr>mem := m\<rparr>) x" and rep: "heap_rep (s\<lparr>mem := m\<rparr>) (alloc_blks 16 bs)"
    and l: "live ?b bs = rs1 @ rs2" "live ?b (alloc_blks 16 bs) = rs1 @ (unat x, k) # rs2" and k: "16 \<le> k"
    using register_queues [OF assms(1-6)] by blast
  let ?s = "s\<lparr>mem := m\<rparr>"
  have c: "co1 ?s = (False, 0, False)" "co2 ?s = (False, 0, False)" using assms by (simp_all add: co1_def co2_def)
  obtain t m1 where t: "schedule_loop (rq_head ?s) 2 ?s = schedule_loop x 2 (t\<lparr>mem := m1\<rparr>)" "co_frame ?s t"
    "eq_out (region x 16) (mem t) m1" "one_queued (t\<lparr>mem := m1\<rparr>) x" "co1 t = (True, 3, True)" "co2 t = (True, 2, False)"
    using first_finishes [OF q c, of 2] by auto
  have c1: "co1 (t\<lparr>mem := m1\<rparr>) = co1 t" "co2 (t\<lparr>mem := m1\<rparr>) = co2 t" by (simp_all add: co1_def co2_def)
  obtain u1 where u1: "schedule_loop x 2 (t\<lparr>mem := m1\<rparr>) = schedule_loop x 2 u1" "co_frame (t\<lparr>mem := m1\<rparr>) u1" "one_queued u1 x"
    "co2 u1 = (True, 3, False)" "co1 u1 = co1 t"
    using alone_turn [OF t(4), of 2] c1 t(6) by (auto simp: co_step_def)
  obtain u2 where u2: "schedule_loop x 2 u1 = schedule_loop x 2 u2" "co_frame u1 u2" "one_queued u2 x"
    "co2 u2 = (True, 4, False)" "co1 u2 = co1 t"
    using alone_turn [OF u1(3), of 2] u1(4,5) by (auto simp: co_step_def)
  have hd: "store_global_head t = store_global_head s" "store_global_head u2 = store_global_head s"
    using t(2) co_frame_trans [OF u1(2) u2(2)] by (simp_all add: co_frame_def)
  have out: "zone (unat (store_global_head ?s)) (span (alloc_blks 16 bs)) \<inter> screen = {}" using assms(6) by auto
  have rep1: "heap_rep t (alloc_blks 16 bs)"
    by (rule heap_outside [OF rep out]) (use t(2) in \<open>auto simp: co_frame_def\<close>)
  have x16: "region x 16 \<subseteq> payload (live ?b (alloc_blks 16 bs))" using l(2) k by (fastforce simp: payload_def region_def)
  have rep2: "heap_rep (t\<lparr>mem := m1\<rparr>) (alloc_blks 16 bs)"
    by (rule heap_rep_payload [OF rep1]) (use eq_out_mono [OF t(3) x16] hd in simp)
  have rep3: "heap_rep u2 (alloc_blks 16 bs)"
    by (rule heap_outside [OF rep2, of screen]) (use co_frame_trans [OF u1(2) u2(2)] out hd in \<open>auto simp: co_frame_def\<close>)
  obtain v bs' where "schedule_loop x 2 u2 = Some v" "co1 v = co1 u2" "co2 v = (True, 6, True)" "tty_ok v" "heap_rep v bs'"
    "live ?b bs' = rs1 @ rs2"
    using second_finishes [OF u2(3,4) rep3, of rs1 k rs2] l(2) k out hd by auto
  then show ?thesis using reg t(1,5) u1(1) u2(1,5) l(1)
    by (intro exI [of _ ?s] exI [of _ v] exI [of _ bs'])
      (auto simp: proto_cr_schedule_def MAX_THREADS_def co1_def co2_def)
qed

definition demo_proto :: proto where
  "demo_proto = \<lparr>mem = mem demo, ports = [], ATTRIBUTE = 7, xpos = 0, ypos = 0, video = VIDEO, store_global_head = 0x1000,
     mem_store_base = 0x1000, mem_store_end = 0x1060, mem_store_size = 96, rq_head = 0x200, fn1 = 0x100000, fn2 = 0x100100,
     done1 = False, done2 = False, state1 = False, state2 = False, j1 = 0, j2 = 0\<rparr>"

theorem proto_cr_completes_witness:
  "\<exists>s1 t. proto_cr_register_routine demo_proto = Some s1 \<and> proto_cr_schedule s1 = Some t \<and> done1 t \<and> done2 t \<and> j2 t = 6"
proof -
  have sel: "tty_ok demo_proto" "fn1 demo_proto \<noteq> fn2 demo_proto" "\<not> state1 demo_proto" "\<not> state2 demo_proto"
    "\<not> done1 demo_proto" "\<not> done2 demo_proto" "j1 demo_proto = 0" "j2 demo_proto = 0"
    by (simp_all add: demo_proto_def tty_ok_def)
  have n: "node_ok (rq_head demo_proto)" by (auto simp: demo_proto_def node_ok_def region_def screen_def zone_def)
  have r: "heap_rep demo_proto [(80, True)]" using demo_rep by (simp add: heap_rep_def demo_proto_def demo_def)
  have o: "zone (unat (store_global_head demo_proto)) (span [(80, True)]) \<inter> (screen \<union> region (rq_head demo_proto) 16) = {}"
    by (auto simp: demo_proto_def zone_def screen_def region_def)
  show ?thesis using proto_cr_completes [OF sel(1,2) n r _ o sel(3-8)] by (auto simp: fits_def)
qed

end
