(* ===== verification/Kbd.thy ===== *)
theory Kbd
  imports Stdlib
begin

text \<open>
  The keyboard modules of the primer, src/primer/kbd_busywait/kbd_bw_driver.c and
  src/primer/kbd_irq/kbd_irq_driver.c: two Linux modules that read the PS/2 keyboard and hand one
  character to the caller of an ioctl, one by polling, one from the interrupt handler.

  The keyboard is not the drivers': \<open>kbd\<close> gives what the \<open>n\<close>-th read of a port returns. The Linux
  services appear through what the drivers do with them: \<open>irq_depth\<close> counts the calls of
  \<open>disable_irq\<close> that no \<open>enable_irq\<close> has undone, \<open>user\<close> is the caller's memory, \<open>klog\<close> the formats
  passed to \<open>printk\<close> (without the newline they all end in) with their arguments, \<open>proc\<close> the registered entries. A request is decoded (\<open>ioctl_cmd\<close>).
\<close>

section \<open>State\<close>

type_synonym kbd = "nat \<Rightarrow> u16 \<Rightarrow> u8"

datatype ioctl_cmd = KBD_IOCTL_TEST | KBD_IOCTL_READKEY | Other_cmd u32

record kbd_drv =
  reads :: nat
  irq_depth :: nat
  user :: mem
  klog :: "(string \<times> int list) list"
  proc :: "string list"
  charbuf :: u8
  irq_handlers :: nat
  wakeups :: nat

definition EINVAL_ret :: int where "EINVAL_ret = - 22"

definition inb_kbd :: "kbd \<Rightarrow> u16 \<Rightarrow> kbd_drv \<Rightarrow> u8 \<times> kbd_drv" where
  "inb_kbd kbd port s = (kbd (reads s) port, s\<lparr>reads := reads s + 1\<rparr>)"

definition printk :: "string \<Rightarrow> int list \<Rightarrow> kbd_drv \<Rightarrow> kbd_drv" where
  "printk t args s = s\<lparr>klog := klog s @ [(t, args)]\<rparr>"

text \<open>The structure \<open>kbd_action\<close> of the caller: a character and, four bytes on, an integer.\<close>

definition copy_from_user :: "addr \<Rightarrow> kbd_drv \<Rightarrow> u8 \<times> u32" where
  "copy_from_user arg s = (user s arg, ld32 (user s) (arg + 4))"

definition copy_to_user :: "addr \<Rightarrow> u8 \<Rightarrow> kbd_drv \<Rightarrow> kbd_drv" where
  "copy_to_user arg c s = s\<lparr>user := (user s)(arg := c)\<rparr>"

text \<open>
  The scan code table: the string literal of the source with its octal escapes, padded with zero to
  128 bytes.
\<close>

definition scancode :: "u8 list" where
  "scancode = [0, 0x1B] @ chars ''1234567890-='' @ [0x7F, 0x09] @ chars ''qwertyuiop[]'' @ [0x0A, 0]
     @ chars ''asdfghjkl;'' @ [0x27] @ chars ''`'' @ [0] @ [0x5C] @ chars ''zxcvbnm,./'' @ [0]
     @ chars ''*'' @ [0] @ chars '' '' @ replicate 13 0 @ chars ''789-456+1230.'' @ replicate 44 0"

section \<open>The polling driver\<close>

text \<open>The data port is read only when the status port says that there is a byte.\<close>

partial_function (option) kbd_readkey :: "kbd \<Rightarrow> kbd_drv \<Rightarrow> (u8 \<times> kbd_drv) option" where
  "kbd_readkey kbd s =
     (let (st, s1) = inb_kbd kbd 0x64 s in
      if st AND 1 = 0 then kbd_readkey kbd s1
      else (let (c, s2) = inb_kbd kbd 0x60 s1 in
        if c AND 0x80 \<noteq> 0 then kbd_readkey kbd s2
        else Some (scancode ! unat c, s2)))"

definition kbd_bw_servicer :: "kbd \<Rightarrow> ioctl_cmd \<Rightarrow> addr \<Rightarrow> kbd_drv \<Rightarrow> (int \<times> kbd_drv) option" where
  "kbd_bw_servicer kbd cmd arg s =
     (let s1 = s\<lparr>irq_depth := irq_depth s + 1\<rparr> in
      case cmd of
        KBD_IOCTL_TEST \<Rightarrow>
          (let (key, status) = copy_from_user arg s1;
               s2 = printk ''<1> kbd_test_ioctl_servicer called with IOCTL_TEST.'' []
                      (printk ''<1> ioctl call to KBD_IOCTL_TEST (%c,%d)!'' [sint key, sint status] s1)
           in Some (0, s2\<lparr>irq_depth := irq_depth s2 - 1\<rparr>))
      | KBD_IOCTL_READKEY \<Rightarrow> do {
          (c, s2) \<leftarrow> kbd_readkey kbd s1;
          (let s3 = printk ''<1> Copied (%x) to userspace'' [sint c]
                      (printk ''<1> KBD Module : kbd_test_ioctl_servicer called with KBD_IOCTL_READKEY.'' []
                        (copy_to_user arg c s2))
           in Some (0, s3\<lparr>irq_depth := irq_depth s3 - 1\<rparr>)) }
      | Other_cmd n \<Rightarrow> Some (EINVAL_ret, s1))"

text \<open>\<open>create_proc_entry\<close> may fail; whether it does is an argument.\<close>

definition kbd_bw_init :: "bool \<Rightarrow> kbd_drv \<Rightarrow> int \<times> kbd_drv" where
  "kbd_bw_init proc_ok s =
     (let s1 = printk ''<1> Loading busywait based KBD.'' [] s in
      if \<not> proc_ok then (1, printk ''<1> Error creating /proc entry.'' [] s1)
      else (0, s1\<lparr>proc := ''kbd_bw'' # proc s1\<rparr>))"

definition kbd_bw_exit :: "kbd_drv \<Rightarrow> kbd_drv" where
  "kbd_bw_exit s = (let s1 = printk ''<1> Dumping kbd_bw Module'' [] s in s1\<lparr>proc := remove1 ''kbd_bw'' (proc s1)\<rparr>)"

section \<open>The interrupt driver\<close>

partial_function (option) kbd_irq_readkey :: "kbd \<Rightarrow> kbd_drv \<Rightarrow> (u8 \<times> kbd_drv) option" where
  "kbd_irq_readkey kbd s =
     (let (c, s1) = inb_kbd kbd 0x60 s in
      if c AND 0x80 \<noteq> 0 then kbd_irq_readkey kbd s1
      else Some (scancode ! unat c, s1))"

definition irq_handler :: "kbd \<Rightarrow> kbd_drv \<Rightarrow> kbd_drv option" where
  "irq_handler kbd s = do {
     (c, s1) \<leftarrow> kbd_irq_readkey kbd s;
     Some (s1\<lparr>charbuf := c, wakeups := wakeups s1 + 1\<rparr>) }"

text \<open>
  The wait of the servicer ends when the status port says that there is a byte, tested once before the caller is put on the
  queue and then in a loop, or when a signal is pending; the servicer does not look at which. What happens at the \<open>n\<close>-th read
  is an argument: \<open>slept n\<close> is \<open>None\<close> when a signal is pending and otherwise the number of interrupts handled while
  the caller sleeps.
\<close>

primrec irqs_handled :: "kbd \<Rightarrow> nat \<Rightarrow> kbd_drv \<Rightarrow> kbd_drv option" where
  "irqs_handled kbd 0 s = Some s"
| "irqs_handled kbd (Suc n) s = do { s1 \<leftarrow> irq_handler kbd s; irqs_handled kbd n s1 }"

partial_function (option) wait_loop :: "kbd \<Rightarrow> (nat \<Rightarrow> nat option) \<Rightarrow> kbd_drv \<Rightarrow> kbd_drv option" where
  "wait_loop kbd slept s =
     (let (st, s1) = inb_kbd kbd 0x64 s in
      if st AND 1 \<noteq> 0 then Some s1
      else (case slept (reads s1) of
          None \<Rightarrow> Some s1
        | Some n \<Rightarrow> do { s2 \<leftarrow> irqs_handled kbd n s1; wait_loop kbd slept s2 }))"

definition wait_event :: "kbd \<Rightarrow> (nat \<Rightarrow> nat option) \<Rightarrow> kbd_drv \<Rightarrow> kbd_drv option" where
  "wait_event kbd slept s =
     (let (st, s1) = inb_kbd kbd 0x64 s in if st AND 1 \<noteq> 0 then Some s1 else wait_loop kbd slept s1)"

definition kbd_irq_servicer ::
  "kbd \<Rightarrow> (nat \<Rightarrow> nat option) \<Rightarrow> ioctl_cmd \<Rightarrow> addr \<Rightarrow> kbd_drv \<Rightarrow> (int \<times> kbd_drv) option" where
  "kbd_irq_servicer kbd slept cmd arg s =
     (if cmd = KBD_IOCTL_READKEY then do {
        s1 \<leftarrow> wait_event kbd slept (printk ''KBD_IOCTL_READKEY called'' [] s);
        Some (0, printk ''<1> Copied (%x) to userspace'' [sint (charbuf s1)] (copy_to_user arg (charbuf s1) s1)) }
      else Some (EINVAL_ret, s))"

text \<open>\<open>irq_ret\<close> is what \<open>request_irq\<close> returns, 0 when the handler is registered; \<open>cookie\<close> is the address of \<open>irq_handler\<close>.\<close>

definition kbd_irq_init :: "bool \<Rightarrow> u32 \<Rightarrow> int \<Rightarrow> kbd_drv \<Rightarrow> int \<times> kbd_drv" where
  "kbd_irq_init proc_ok cookie irq_ret s =
     (let s1 = printk ''<1> Loading interrupt based KBD.'' [] s in
      if \<not> proc_ok then (1, printk ''<1> Error creating /proc entry.'' [] s1)
      else (let s2 = s1\<lparr>proc := ''kbd_irq'' # proc s1,
                        irq_handlers := (if irq_ret = 0 then irq_handlers s1 + 1 else irq_handlers s1)\<rparr>
            in (irq_ret, printk ''<1> Registered handler with %x cookie. %d.'' [uint cookie, irq_ret] s2)))"

definition kbd_irq_exit :: "kbd_drv \<Rightarrow> kbd_drv" where
  "kbd_irq_exit s =
     (let s1 = printk ''<1> Dumping kbd_irq Module'' [] s
      in s1\<lparr>proc := remove1 ''kbd_irq'' (proc s1), irq_handlers := irq_handlers s1 - 1\<rparr>)"

section \<open>Keys\<close>

lemma scancode_length: "length scancode = 128"
  by (simp add: scancode_def chars_def)

text \<open>
  A history of polls from read \<open>n\<close> on: nothing there, or the code of a key that was released. It
  takes \<open>poll_reads\<close> reads.
\<close>

datatype poll = Idle | Release u8

fun poll_reads :: "poll list \<Rightarrow> nat" where
  "poll_reads [] = 0"
| "poll_reads (Idle # ps) = 1 + poll_reads ps"
| "poll_reads (Release c # ps) = 2 + poll_reads ps"

fun polled :: "kbd \<Rightarrow> nat \<Rightarrow> poll list \<Rightarrow> bool" where
  "polled kbd n [] \<longleftrightarrow> True"
| "polled kbd n (Idle # ps) \<longleftrightarrow> kbd n 0x64 AND 1 = 0 \<and> polled kbd (n + 1) ps"
| "polled kbd n (Release c # ps) \<longleftrightarrow> kbd n 0x64 AND 1 \<noteq> 0 \<and> kbd (n + 1) 0x60 = c \<and>
     c AND 0x80 \<noteq> 0 \<and> polled kbd (n + 2) ps"

lemma kbd_readkey_polled:
  assumes "polled kbd (reads s) ps" and "n = reads s + poll_reads ps"
    and "kbd n 0x64 AND 1 \<noteq> 0" and "kbd (n + 1) 0x60 = c" and "c AND 0x80 = 0"
  shows "kbd_readkey kbd s = Some (scancode ! unat c, s\<lparr>reads := n + 2\<rparr>)"
  using assms
proof (induction ps arbitrary: s)
  case Nil
  then show ?case by (subst kbd_readkey.simps) (simp add: inb_kbd_def)
next
  case (Cons p ps)
  show ?case
  proof (cases p)
    case Idle
    then show ?thesis using Cons.prems Cons.IH [of "s\<lparr>reads := reads s + 1\<rparr>"]
      by (subst kbd_readkey.simps) (simp add: inb_kbd_def)
  next
    case (Release d)
    then show ?thesis using Cons.prems Cons.IH [of "s\<lparr>reads := reads s + 2\<rparr>"]
      by (subst kbd_readkey.simps) (simp add: inb_kbd_def)
  qed
qed

lemma press_code: "c AND 0x80 = 0 \<Longrightarrow> unat (c :: u8) < 128"
proof -
  assume c: "c AND 0x80 = 0"
  have "\<not> bit c 7"
  proof
    assume "bit c 7"
    then have "bit (c AND push_bit 7 1) 7" by (simp add: bit_simps)
    with c show False by simp
  qed
  then have "n < 7" if "bit c n" "n < 8" for n using that by (cases "n = 7") auto
  then have "c = take_bit 7 c" by (intro bit_word_eqI) (auto simp: bit_take_bit_iff)
  then have "unat c = take_bit 7 (unat c)" by (metis unsigned_take_bit_eq)
  then show "unat c < 128" using take_bit_nat_less_exp [of 7 "unat c"] by simp
qed

lemma kbd_readkey_depth:
  assumes "kbd_readkey kbd s = Some r"
  shows "irq_depth (snd r) = irq_depth s"
proof (rule kbd_readkey.raw_induct [where P = "\<lambda>kbd s r. irq_depth (snd r) = irq_depth s", OF _ assms])
  fix f :: "kbd \<Rightarrow> kbd_drv \<Rightarrow> (u8 \<times> kbd_drv) option" and kbd s r
  assume IH: "\<And>kbd s r. f kbd s = Some r \<Longrightarrow> irq_depth (snd r) = irq_depth s"
    and step: "(let (st, s1) = inb_kbd kbd 0x64 s in
      if st AND 1 = 0 then f kbd s1
      else (let (c, s2) = inb_kbd kbd 0x60 s1 in
        if c AND 0x80 \<noteq> 0 then f kbd s2 else Some (scancode ! unat c, s2))) = Some r"
  show "irq_depth (snd r) = irq_depth s"
    using step by (auto simp: inb_kbd_def Let_def split: if_splits dest!: IH)
qed

section \<open>The requests\<close>

text \<open>
  The read request of the polling driver returns as soon as a key is pressed: however many
  polls find nothing or a released key, the caller's byte becomes the table's character for the
  first pressed key, the data port is read no further, and the keyboard interrupt is enabled as
  often as it was disabled.
\<close>

lemma kbd_bw_delivers:
  assumes "polled kbd (reads s) ps" and "n = reads s + poll_reads ps"
    and "kbd n 0x64 AND 1 \<noteq> 0" and "kbd (n + 1) 0x60 = c" and "c AND 0x80 = 0"
  shows "\<exists>s'. kbd_bw_servicer kbd KBD_IOCTL_READKEY arg s = Some (0, s') \<and>
     user s' = (user s)(arg := scancode ! unat c) \<and> unat c < length scancode \<and>
     reads s' = n + 2 \<and> irq_depth s' = irq_depth s \<and> proc s' = proc s"
proof -
  have "unat c < 128" by (rule press_code [OF assms(5)])
  then show ?thesis
    using kbd_readkey_polled [of kbd "s\<lparr>irq_depth := irq_depth s + 1\<rparr>" ps n c] assms
    by (simp add: kbd_bw_servicer_def copy_to_user_def printk_def scancode_length)
qed

text \<open>
  A request the polling driver does not know is refused, and the keyboard interrupt stays
  disabled: each such request adds one call of \<open>disable_irq\<close> that nothing undoes, while the
  requests it knows keep the balance when they return.
\<close>

lemma kbd_bw_irq_balance:
  "kbd_bw_servicer kbd (Other_cmd k) arg s = Some (EINVAL_ret, s\<lparr>irq_depth := irq_depth s + 1\<rparr>) \<and>
   (\<forall>cmd r s'. (\<forall>k. cmd \<noteq> Other_cmd k) \<longrightarrow> kbd_bw_servicer kbd cmd arg s = Some (r, s') \<longrightarrow>
      r = 0 \<and> irq_depth s' = irq_depth s)"
  using kbd_readkey_depth
  by (fastforce simp: kbd_bw_servicer_def printk_def copy_to_user_def copy_from_user_def Let_def bind_Some_iff
      split: ioctl_cmd.splits)

end
