(* ===== verification/Primer.thy ===== *)
theory Primer
  imports Kbd
begin

text \<open>
  The user programs of the primer (src/primer/kbd_busywait/kbd_bw_getchar.c and kbd_bw_test.c, src/primer/kbd_irq/kbd_irq_getchar.c
  and kbd_irq_test.c) and the sample module src/primer/kbd_irq/example.c. The system calls \<open>open\<close>, \<open>ioctl\<close> and \<open>close\<close> are
  an argument of the programs; \<open>bw_dispatch\<close> is what they rely on, that a call on the /proc entry of a loaded module reaches
  the module's service routine. The last theorem composes program and driver: the line that is typed is the line
  printed.

  Addresses of local variables are arguments; memory from \<open>malloc\<close> and \<open>realloc\<close> is a list of bytes, unspecified (\<open>junk\<close>)
  where it is new, and \<open>grow n\<close> says whether a request of \<open>n\<close> bytes succeeds. \<open>None\<close> is a write or read outside it, the
  overflow of \<open>str_size\<close>, or a request that never returns.
\<close>

section \<open>The programs\<close>

record syscalls =
  sys_open :: "string \<Rightarrow> kbd_drv \<Rightarrow> int \<times> kbd_drv"
  sys_ioctl :: "int \<Rightarrow> ioctl_cmd \<Rightarrow> addr \<Rightarrow> kbd_drv \<Rightarrow> (int \<times> kbd_drv) option"
  sys_close :: "int \<Rightarrow> kbd_drv \<Rightarrow> int \<times> kbd_drv"

definition kbd_busywait_getchar :: "syscalls \<Rightarrow> addr \<Rightarrow> kbd_drv \<Rightarrow> (u8 \<times> kbd_drv) option" where
  "kbd_busywait_getchar os c s =
     (let (fd, s1) = sys_open os ''/proc/kbd_bw'' s in do {
        (r, s2) \<leftarrow> sys_ioctl os fd KBD_IOCTL_READKEY c s1;
        (let (r', s3) = sys_close os fd s2 in Some (user s3 c, s3)) })"

definition set_action :: "addr \<Rightarrow> u8 \<Rightarrow> u32 \<Rightarrow> kbd_drv \<Rightarrow> kbd_drv" where
  "set_action action key status s = s\<lparr>user := st32 ((user s)(action := key)) (action + 4) status\<rparr>"

definition test_kbd_driver :: "syscalls \<Rightarrow> addr \<Rightarrow> u8 \<Rightarrow> u32 \<Rightarrow> kbd_drv \<Rightarrow> kbd_drv option" where
  "test_kbd_driver os action out1 out2 s =
     (let (fd, s1) = sys_open os ''/proc/kbd_bw'' (set_action action out1 out2 s) in do {
        (r, s2) \<leftarrow> sys_ioctl os fd KBD_IOCTL_TEST action s1;
        Some (snd (sys_close os fd s2)) })"

definition kbd_irq_getchar :: "syscalls \<Rightarrow> addr \<Rightarrow> kbd_drv \<Rightarrow> (u8 \<times> kbd_drv) option" where
  "kbd_irq_getchar os c s =
     (let (fd, s1) = sys_open os ''/proc/kbd_irq'' s in do {
        (r, s2) \<leftarrow> sys_ioctl os fd KBD_IOCTL_READKEY c s1;
        (let (r', s3) = sys_close os fd s2 in Some (user s3 c, s3)) })"

text \<open>The loop of \<open>main\<close> in kbd_irq_test.c; the characters it prints are its result.\<close>

partial_function (option) irq_test_loop :: "syscalls \<Rightarrow> addr \<Rightarrow> u8 list \<Rightarrow> kbd_drv \<Rightarrow> (u8 list \<times> kbd_drv) option" where
  "irq_test_loop os ca out s = do {
     (c, s1) \<leftarrow> kbd_irq_getchar os ca s;
     if c = 10 then Some (out, s1) else irq_test_loop os ca (out @ [c]) s1 }"

text \<open>
  The loop of \<open>main\<close> in kbd_bw_test.c: the buffer has \<open>str_size\<close> bytes, \<open>i\<close> of them in use. It ends with the buffer, or with
  nothing when \<open>realloc\<close> fails.
\<close>

partial_function (option) read_line ::
  "syscalls \<Rightarrow> addr \<Rightarrow> (nat \<Rightarrow> bool) \<Rightarrow> (nat \<Rightarrow> u8) \<Rightarrow> u8 list \<Rightarrow> nat \<Rightarrow> kbd_drv \<Rightarrow> (u8 list option \<times> kbd_drv) option" where
  "read_line os ca grow junk str i s = do {
     (c, s1) \<leftarrow> kbd_busywait_getchar os ca s;
     if c = 10 then Some (Some str, s1)
     else if length str \<le> i then None
     else if length str \<le> i + 1 then
       (if 2 ^ 31 \<le> 2 * length str then None
        else if \<not> grow (2 * length str) then Some (None, s1)
        else read_line os ca grow junk (str[i := c] @ map junk [length str..<2 * length str]) (i + 1) s1)
     else read_line os ca grow junk (str[i := c]) (i + 1) s1 }"

datatype outcome = Printed "u8 list" | Exit_1

text \<open>\<open>printf("%s", str)\<close> prints up to the first zero byte.\<close>

definition print_str :: "u8 list \<Rightarrow> u8 list option" where
  "print_str str = (if 0 \<in> set str then Some (takeWhile (\<lambda>c. c \<noteq> 0) str) else None)"

definition kbd_bw_test :: "syscalls \<Rightarrow> addr \<Rightarrow> addr \<Rightarrow> (nat \<Rightarrow> bool) \<Rightarrow> (nat \<Rightarrow> u8) \<Rightarrow> kbd_drv \<Rightarrow> (outcome \<times> kbd_drv) option" where
  "kbd_bw_test os ioctl_test ca grow junk s =
     (let (fd, s1) = sys_open os ''/proc/kbd_bw'' (set_action ioctl_test (ch CHR ''a'') 10 s) in do {
        (r, s2) \<leftarrow> sys_ioctl os fd KBD_IOCTL_TEST ioctl_test s1;
        (str, s3) \<leftarrow> read_line os ca grow junk (if grow 4 then map junk [0..<4] else []) 0 (snd (sys_close os fd s2));
        (case str of None \<Rightarrow> Some (Exit_1, s3)
         | Some str \<Rightarrow> do { out \<leftarrow> print_str str; Some (Printed out, s3) }) })"

section \<open>The sample module\<close>

text \<open>
  The module's static variables, and its calls of Linux services in order. What the services do is not the module's: whether
  \<open>request_irq\<close> succeeds is an argument of \<open>init_module\<close>.
\<close>

datatype linux_call = Create_workqueue string | Free_irq nat | Request_irq nat string | Init_work | Prepare_work | Queue_work
  | Printk string u8 string

record sample =
  initialised :: bool
  last_code :: u8
  port_reads :: nat
  calls :: "linux_call list"

definition call :: "linux_call \<Rightarrow> sample \<Rightarrow> sample" where
  "call c s = s\<lparr>calls := calls s @ [c]\<rparr>"

definition got_char :: "sample \<Rightarrow> sample" where
  "got_char s = call (Printk ''<6>Scan Code %x %s.'' (last_code s AND 0x7F)
     (if last_code s AND 0x80 \<noteq> 0 then ''Released'' else ''Pressed'')) s"

definition sample_irq_handler :: "kbd \<Rightarrow> sample \<Rightarrow> sample" where
  "sample_irq_handler kbd s =
     (let s1 = s\<lparr>last_code := kbd (port_reads s + 1) 0x60, port_reads := port_reads s + 2\<rparr>;
          s2 = (if \<not> initialised s1 then (call Init_work s1)\<lparr>initialised := True\<rparr> else call Prepare_work s1)
      in call Queue_work s2)"

definition init_module :: "int \<Rightarrow> sample \<Rightarrow> int \<times> sample" where
  "init_module irq_ret s =
     (irq_ret, call (Request_irq 1 ''test_keyboard_irq_handler'') (call (Free_irq 1) (call (Create_workqueue ''WQsched.c'') s)))"

definition cleanup_module :: "sample \<Rightarrow> sample" where
  "cleanup_module s = call (Free_irq 1) s"

text \<open>
  The work item has one static byte for its argument: whatever codes the interrupts before it read, the deferred
  \<open>got_char\<close> prints the last one. The work item is initialised by the first interrupt and by no other.
\<close>

lemma handler_runs:
  "(sample_irq_handler kbd ^^ n) s =
     s\<lparr>initialised := initialised s \<or> 0 < n, port_reads := port_reads s + 2 * n,
       last_code := (if n = 0 then last_code s else kbd (port_reads s + 2 * n - 1) 0x60),
       calls := calls s @ concat (map (\<lambda>i. [if i = 0 \<and> \<not> initialised s then Init_work else Prepare_work, Queue_work]) [0..<n])\<rparr>"
proof (induction n)
  case (Suc n)
  show ?case unfolding funpow.simps comp_apply Suc.IH
    by (auto simp: sample_irq_handler_def call_def)
qed simp

lemma got_char_prints_last:
  assumes "0 < n"
  shows "\<exists>cs. calls (got_char ((sample_irq_handler kbd ^^ n) s)) = cs @
     [Printk ''<6>Scan Code %x %s.'' (kbd (port_reads s + 2 * n - 1) 0x60 AND 0x7F)
       (if kbd (port_reads s + 2 * n - 1) 0x60 AND 0x80 \<noteq> 0 then ''Released'' else ''Pressed'')]"
  using assms by (simp add: handler_runs got_char_def call_def)

section \<open>What the programs read\<close>

text \<open>A call on the entry of the loaded polling driver reaches its service routine; opening and closing it change nothing.\<close>

definition bw_dispatch :: "kbd \<Rightarrow> syscalls \<Rightarrow> bool" where
  "bw_dispatch kbd os \<longleftrightarrow> (\<forall>s. ''kbd_bw'' \<in> set (proc s) \<longrightarrow>
     (\<exists>fd \<ge> 0. sys_open os ''/proc/kbd_bw'' s = (fd, s) \<and>
        (\<forall>cmd arg t. sys_ioctl os fd cmd arg t = kbd_bw_servicer kbd cmd arg t) \<and> (\<forall>t. sys_close os fd t = (0, t))))"

text \<open>The keys pressed from read \<open>n\<close> on, each after some polls.\<close>

fun typed :: "kbd \<Rightarrow> nat \<Rightarrow> (poll list \<times> u8) list \<Rightarrow> bool" where
  "typed kbd n [] \<longleftrightarrow> True"
| "typed kbd n ((ps, c) # ks) \<longleftrightarrow> polled kbd n ps \<and> kbd (n + poll_reads ps) 0x64 AND 1 \<noteq> 0 \<and>
     kbd (n + poll_reads ps + 1) 0x60 = c \<and> c AND 0x80 = 0 \<and> typed kbd (n + poll_reads ps + 2) ks"

definition key_char :: "poll list \<times> u8 \<Rightarrow> u8" where
  "key_char k = scancode ! unat (snd k)"

lemma getchar_reads:
  assumes "bw_dispatch kbd os" and "''kbd_bw'' \<in> set (proc s)" and "typed kbd (reads s) (k # ks)"
  shows "\<exists>s'. kbd_busywait_getchar os ca s = Some (key_char k, s') \<and> typed kbd (reads s') ks \<and>
     proc s' = proc s \<and> irq_depth s' = irq_depth s"
proof -
  obtain ps c where k: "k = (ps, c)" by (cases k)
  let ?n = "reads s + poll_reads ps"
  obtain fd where fd: "sys_open os ''/proc/kbd_bw'' s = (fd, s)" "\<forall>cmd arg t. sys_ioctl os fd cmd arg t = kbd_bw_servicer kbd cmd arg t"
    "\<forall>t. sys_close os fd t = (0, t)" using assms(1,2) unfolding bw_dispatch_def by blast
  obtain s' where "kbd_bw_servicer kbd KBD_IOCTL_READKEY ca s = Some (0, s')" "user s' ca = scancode ! unat c"
    "reads s' = ?n + 2" "irq_depth s' = irq_depth s" "proc s' = proc s"
    using kbd_bw_delivers [of kbd s ps ?n c ca] assms(3) k by auto
  then show ?thesis using fd assms(3) k by (simp add: kbd_busywait_getchar_def key_char_def)
qed

text \<open>
  A buffer of \<open>l\<close> bytes doubles as often as \<open>n\<close> characters need it: \<open>grow_fails\<close> says that \<open>realloc\<close> fails at one of the
  doublings, \<open>size_overflows\<close> that \<open>str_size\<close> leaves the range of \<open>int\<close>.
\<close>

definition grow_fails :: "(nat \<Rightarrow> bool) \<Rightarrow> nat \<Rightarrow> nat \<Rightarrow> bool" where
  "grow_fails grow l n \<longleftrightarrow> (\<exists>j. l * 2 ^ j \<le> n \<and> l * 2 ^ j < 2 ^ 30 \<and> \<not> grow (2 * (l * 2 ^ j)))"

definition size_overflows :: "nat \<Rightarrow> nat \<Rightarrow> bool" where
  "size_overflows l n \<longleftrightarrow> (\<exists>j. l * 2 ^ j \<le> n \<and> 2 ^ 30 \<le> l * 2 ^ j)"

lemma ex_double: "(\<exists>j. P (l * 2 ^ j)) \<longleftrightarrow> P l \<or> (\<exists>j. P (2 * l * 2 ^ j))" for l :: nat
proof -
  have "(\<exists>j. P (l * 2 ^ j)) \<longleftrightarrow> P (l * 2 ^ 0) \<or> (\<exists>j. P (l * 2 ^ Suc j))" by (metis not0_implies_Suc)
  then show ?thesis by (simp add: mult.assoc mult.left_commute)
qed

lemma doubling_small [simp]:
  assumes "n < l"
  shows "\<not> grow_fails grow l n" and "\<not> size_overflows l n"
proof -
  have "n < l * 2 ^ j" for j using assms by (rule order.strict_trans2) simp
  then show "\<not> grow_fails grow l n" "\<not> size_overflows l n" by (auto simp: grow_fails_def size_overflows_def not_le)
qed

lemma grow_fails_double:
  "grow_fails grow l n \<longleftrightarrow> (l \<le> n \<and> l < 2 ^ 30 \<and> \<not> grow (2 * l)) \<or> grow_fails grow (2 * l) n"
  unfolding grow_fails_def by (rule ex_double)

lemma size_overflows_double: "size_overflows l n \<longleftrightarrow> (l \<le> n \<and> 2 ^ 30 \<le> l) \<or> size_overflows (2 * l) n"
  unfolding size_overflows_def by (rule ex_double)

lemma size_overflows_four: "size_overflows 4 n \<longleftrightarrow> 2 ^ 30 \<le> n"
proof
  assume "2 ^ 30 \<le> n"
  then show "size_overflows 4 n" unfolding size_overflows_def by (intro exI [of _ 28]) simp
qed (auto simp: size_overflows_def)

text \<open>The buffer holds what was typed, and at least one byte after it that was never written.\<close>

definition line_end :: "(nat \<Rightarrow> bool) \<Rightarrow> nat \<Rightarrow> nat \<Rightarrow> u8 list \<Rightarrow> kbd_drv \<Rightarrow> (u8 list option \<times> kbd_drv) option" where
  "line_end grow l n str s' = (if grow_fails grow l n then Some (None, s') else if size_overflows l n then None else Some (Some str, s'))"

lemma read_line_stores:
  assumes os: "bw_dispatch kbd os" and "''kbd_bw'' \<in> set (proc s)" and "typed kbd (reads s) (ks @ [nl])"
    and nl: "key_char nl = 10" and "\<forall>k \<in> set ks. key_char k \<noteq> 10" and "i < length str"
  shows "\<exists>s' rest. read_line os ca grow junk str i s =
       line_end grow (length str) (i + length ks) (take i str @ map key_char ks @ rest) s' \<and>
     rest \<noteq> [] \<and> set rest \<subseteq> set (drop i str) \<union> range junk \<and> irq_depth s' = irq_depth s"
  using assms(2,3,5,6)
proof (induction ks arbitrary: str i s)
  case Nil
  obtain s' where s': "kbd_busywait_getchar os ca s = Some (10, s')" "irq_depth s' = irq_depth s"
    using getchar_reads [OF os Nil(1), of nl "[]" ca] Nil(2) nl by auto
  have "drop i str \<noteq> []" using Nil(4) by simp
  then show ?case using s' Nil(4)
    by (intro exI [of _ s'] exI [of _ "drop i str"]) (subst read_line.simps, simp add: line_end_def)
next
  case (Cons k ks)
  obtain s1 where s1: "kbd_busywait_getchar os ca s = Some (key_char k, s1)" "typed kbd (reads s1) (ks @ [nl])" "proc s1 = proc s"
    "irq_depth s1 = irq_depth s" using getchar_reads [OF os Cons.prems(1), of k "ks @ [nl]" ca] Cons.prems(2) by auto
  have k: "key_char k \<noteq> 10" using Cons.prems(3) by simp
  define n where "n = i + length (k # ks)"
  define str1 where "str1 = (if length str \<le> i + 1 then str[i := key_char k] @ map junk [length str..<2 * length str] else str[i := key_char k])"
  have i: "length str \<le> i + 1 \<Longrightarrow> length str = i + 1" using Cons.prems(4) by simp
  show ?case
  proof (cases "length str \<le> i + 1 \<and> (2 ^ 30 \<le> length str \<or> \<not> grow (2 * length str))")
    case True
    have "read_line os ca grow junk str i s = (if 2 ^ 30 \<le> length str then None else Some (None, s1))"
      using s1(1) k True Cons.prems(4) by (subst read_line.simps) auto
    moreover have n: "length str \<le> n" using True by (simp add: n_def)
    moreover have "grow_fails grow (length str) n \<longleftrightarrow> length str < 2 ^ 30"
    proof (cases "length str < 2 ^ 30")
      case False
      then have "2 ^ 30 \<le> length str * 2 ^ j" for j using order.trans [of "2 ^ 30" "length str" "length str * 2 ^ j"] by simp
      then show ?thesis using False by (auto simp: grow_fails_def not_less)
    next
      case small: True
      have "\<not> grow (2 * length str)" using True small by (meson not_le)
      then show ?thesis using small n grow_fails_double [of grow "length str" n] by blast
    qed
    moreover have "2 ^ 30 \<le> length str \<Longrightarrow> size_overflows (length str) n"
      using n size_overflows_double [of "length str" n] by blast
    ultimately show ?thesis using s1(4)
      by (intro exI [of _ s1] exI [of _ "[junk 0]"]) (auto simp: line_end_def n_def)
  next
    case False
    then have run: "read_line os ca grow junk str i s = read_line os ca grow junk str1 (i + 1) s1"
      using s1(1) k Cons.prems(4) i by (subst read_line.simps) (auto simp: str1_def)
    have t: "take (i + 1) str1 = take i str @ [key_char k]"
      using Cons.prems(4) by (auto simp: str1_def take_Suc_conv_app_nth nth_append)
    have d: "set (drop (i + 1) str1) \<subseteq> set (drop i str) \<union> range junk"
      using Cons.prems(4) set_drop_subset_set_drop [of i "i + 1" str] by (auto simp: str1_def)
    have end1: "line_end grow (length str1) n cs s' = line_end grow (length str) n cs s'" for cs s'
    proof (cases "length str \<le> i + 1")
      case True
      then have "length str1 = 2 * length str" by (simp add: str1_def)
      then show ?thesis using False True i grow_fails_double [of grow "length str" n] size_overflows_double [of "length str" n]
        by (auto simp: line_end_def)
    qed (simp add: str1_def)
    have "i + 1 < length str1" using Cons.prems(4) by (auto simp: str1_def)
    then obtain s' rest where r: "read_line os ca grow junk str1 (i + 1) s1 =
        line_end grow (length str1) n (take (i + 1) str1 @ map key_char ks @ rest) s'"
      "rest \<noteq> []" "set rest \<subseteq> set (drop (i + 1) str1) \<union> range junk" "irq_depth s' = irq_depth s1"
      using Cons.IH [of s1 "i + 1" str1] Cons.prems s1 by (auto simp: n_def)
    then have "read_line os ca grow junk str i s = line_end grow (length str) n (take i str @ map key_char (k # ks) @ rest) s'"
      using run t end1 by simp
    moreover have "set rest \<subseteq> set (drop i str) \<union> range junk" using r(3) d by blast
    ultimately show ?thesis using r(2,4) s1(4) unfolding n_def by (intro exI [of _ s'] exI [of _ rest]) simp
  qed
qed

text \<open>Without a buffer the first key is stored through the null pointer, or the null pointer is printed.\<close>

lemma read_line_no_buffer:
  assumes "bw_dispatch kbd os" and "''kbd_bw'' \<in> set (proc s)" and "typed kbd (reads s) (k # ks)"
  shows "(do { (str, s') \<leftarrow> read_line os ca grow junk [] 0 s;
       (case str of None \<Rightarrow> Some (Exit_1, s') | Some str \<Rightarrow> do { out \<leftarrow> print_str str; Some (Printed out, s') }) }) = None"
  using getchar_reads [OF assms, of ca] by (subst read_line.simps) (auto simp: print_str_def)

section \<open>Properties\<close>

text \<open>
  C38: the test program of the polling driver, composed with the driver, on any typed line (any polls and released keys between
  its keys, then the return key) and for every outcome of its allocations: if \<open>malloc\<close> fails it goes through a null
  pointer (\<open>None\<close>); if a \<open>realloc\<close> that the line needs fails it exits with status 1; a line of 2^30 keys overflows \<open>str_size\<close>;
  otherwise its buffer never overflows and it prints, up to the first zero byte, the line (a key without a character is a
  zero byte) and then the bytes of its buffer that it never wrote, or runs past the buffer (\<open>None\<close>) when
  there is no zero byte. In each case with a result the keyboard interrupt is enabled as often as it was disabled.
\<close>

theorem kbd_bw_test_echoes:
  assumes "bw_dispatch kbd os" and "''kbd_bw'' \<in> set (proc s)" and "typed kbd (reads s) (ks @ [nl])" and "key_char nl = 10"
    and "\<forall>k \<in> set ks. key_char k \<noteq> 10"
  shows "\<exists>s' rest. kbd_bw_test os action ca grow junk s =
       (if \<not> grow 4 then None
        else if grow_fails grow 4 (length ks) then Some (Exit_1, s')
        else if 2 ^ 30 \<le> length ks then None
        else if 0 \<in> set (map key_char ks @ rest) then Some (Printed (takeWhile (\<lambda>c. c \<noteq> 0) (map key_char ks @ rest)), s')
        else None) \<and>
     rest \<noteq> [] \<and> set rest \<subseteq> range junk \<and> irq_depth s' = irq_depth s"
proof -
  let ?s0 = "set_action action (ch CHR ''a'') 10 s"
  have s0: "proc ?s0 = proc s" "reads ?s0 = reads s" "irq_depth ?s0 = irq_depth s" by (simp_all add: set_action_def)
  then obtain fd where fd: "sys_open os ''/proc/kbd_bw'' ?s0 = (fd, ?s0)" "\<forall>cmd arg t. sys_ioctl os fd cmd arg t = kbd_bw_servicer kbd cmd arg t"
    "\<forall>t. sys_close os fd t = (0, t)" using assms(1,2) unfolding bw_dispatch_def by metis
  obtain s2 where s2: "kbd_bw_servicer kbd KBD_IOCTL_TEST action ?s0 = Some (0, s2)" "proc s2 = proc s" "reads s2 = reads s"
    "irq_depth s2 = irq_depth s" using s0 by (simp add: kbd_bw_servicer_def printk_def copy_from_user_def)
  note pre = assms(2,3) [folded s2(2,3)]
  show ?thesis
  proof (cases "grow 4")
    case True
    obtain s' rest where r: "read_line os ca grow junk (map junk [0..<4]) 0 s2 = line_end grow 4 (length ks) (map key_char ks @ rest) s'"
      "rest \<noteq> []" "set rest \<subseteq> set (map junk [0..<4]) \<union> range junk" "irq_depth s' = irq_depth s2"
      using read_line_stores [OF assms(1) pre assms(4,5), of 0 "map junk [0..<4]" ca grow junk] by auto
    moreover have "set rest \<subseteq> range junk" using r(3) by auto
    ultimately show ?thesis using fd s2 True
      by (intro exI [of _ s'] exI [of _ rest])
        (simp add: kbd_bw_test_def line_end_def print_str_def size_overflows_four)
  next
    case False
    obtain k ks' where "ks @ [nl] = k # ks'" by (cases "ks @ [nl]") auto
    then have "kbd_bw_test os action ca grow junk s = None"
      using read_line_no_buffer [OF assms(1) pre(1), of k ks' ca grow junk] pre(2) fd s2(1) False by (simp add: kbd_bw_test_def)
    then show ?thesis using False by (intro exI [of _ s] exI [of _ "[junk 0]"]) simp
  qed
qed

text \<open>A keyboard on which S and then return are pressed, and the calls of a system with the driver loaded.\<close>

definition demo_keys :: kbd where
  "demo_keys n port = (if port = 0x64 then 1 else if n = 1 then 0x1F else 0x1C)"

definition demo_drv :: kbd_drv where
  "demo_drv = \<lparr>reads = 0, irq_depth = 0, user = (\<lambda>a. 0), klog = [], proc = [], charbuf = 0,
     irq_handlers = 0, wakeups = 0\<rparr>"

definition demo_os :: syscalls where
  "demo_os = \<lparr>sys_open = (\<lambda>p s. (3, s)), sys_ioctl = (\<lambda>fd. kbd_bw_servicer demo_keys), sys_close = (\<lambda>fd s. (0, s))\<rparr>"

theorem kbd_bw_test_echoes_witness:
  "\<exists>s'. kbd_bw_test demo_os 0x1000 0x2000 (\<lambda>n. n \<le> 4) (\<lambda>n. 0) (demo_drv\<lparr>proc := [''kbd_bw'']\<rparr>) = Some (Printed [ch CHR ''s''], s')"
proof -
  have d: "bw_dispatch demo_keys demo_os" by (simp add: bw_dispatch_def demo_os_def)
  obtain s' rest where "kbd_bw_test demo_os 0x1000 0x2000 (\<lambda>n. n \<le> 4) (\<lambda>n. 0) (demo_drv\<lparr>proc := [''kbd_bw'']\<rparr>) =
      (if 0 \<in> set rest then Some (Printed (takeWhile (\<lambda>c. c \<noteq> 0) (map key_char [([], 0x1F)] @ rest)), s') else None)"
    "rest \<noteq> []" "set rest \<subseteq> {0}"
    using kbd_bw_test_echoes [OF d, of "demo_drv\<lparr>proc := [''kbd_bw'']\<rparr>" "[([], 0x1F)]" "([], 0x1C)" "0x1000" "0x2000" "\<lambda>n. n \<le> 4" "\<lambda>n. 0"]
    by (auto simp: demo_drv_def demo_keys_def key_char_def scancode_def chars_def)
  then show ?thesis by (cases rest) (auto simp: key_char_def scancode_def chars_def)
qed

end
