(* ===== verification/Spec2Isabelle.thy ===== *)
theory Spec2Isabelle
  imports Layout Format Boot Ramdisk_Large Ramdisk_Tree Test_Rd Proto_Proofs Primer
begin

text \<open>
  Verification of MemeOS, the teaching kernel under src/MemeOS/, and of the keyboard modules and their
  programs under src/primer/.

  MemeOS is a kernel for one i386 processor without paging. The boot loader enters \<open>kmain\<close>
  (src/kernel.c), which prints the loader's report through the text console (kvideo.c, stdlib.c), fills the
  interrupt table and programs the interrupt controllers (interrupt.c) and the interval timer (timer.c), gives
  the largest memory region to the allocator (kmalloc.c), starts the scheduler (sched.c, kthread.c) and
  registers the first thread. Threads sleep (sysutils.c), exclude each other with a spin lock (mutex.c) and use
  files on a disk in memory (ramdisk.c, vfs.c). Two demonstrations, stateful_cr.c and proto_cr.c, run threads
  and coroutines on top.

  The model. All of memory is one function from 32-bit addresses to bytes (\<^bold>\<open>Memory\<close>), and every structure of
  the kernel is bytes of it, as in the source: a field is a load or store at an offset. A component's static
  variables are a record; the records extend each other in the order of the components (\<open>machine\<close>, \<open>tty\<close>,
  \<open>kheap\<close>, \<open>sched\<close>, then \<open>intr\<close> and \<open>kern\<close>, \<open>fs\<close> and \<open>tests\<close>, \<open>proto\<close>), so that an operation of a lower component runs on the
  state of a higher one. C functions are functions in the option monad on that state: \<open>None\<close> is a null
  dereference, an unbounded string or a loop that never ends. Integers are words of their width; comparisons
  are signed where the C types make them so. Loops are recursive functions where a bound is evident and partial
  functions of the option monad where it is not, so no fuel is chosen anywhere: that an operation returns is
  part of the theorems.

  Theories, in the order of their imports:

  \<^item> \<^bold>\<open>Prelude\<close>, \<^bold>\<open>Memory\<close>: words as natural numbers, loads after stores, agreement of memories outside a set.

  \<^item> \<^bold>\<open>Stdlib\<close> (stdlib.c): each routine computes the list function it stands for, on overlapping regions too;
    \<open>itoa\<close> reads back.

  \<^item> \<^bold>\<open>Kvideo\<close> (kvideo.c): printing returns on complete formats, keeps the cursor on the screen and writes nothing
    outside the video buffer. \<^bold>\<open>Format\<close>: \<open>printf\<close> and \<open>sprintf\<close> produce the same text, that of one function \<open>render\<close>.

  \<^item> \<^bold>\<open>Kmalloc\<close> (kmalloc.c) with its specification, the list of blocks (size, free); \<^bold>\<open>Kmalloc_Proofs\<close>: the header
    list in memory refines it. The locale \<open>allocator\<close> is the contract of the heap's clients.

  \<^item> \<^bold>\<open>Mutex\<close> (mutex.c): the exchange and the lock, and mutual exclusion over every interleaving of any number of
    threads.

  \<^item> \<^bold>\<open>Sched\<close> (sched.c, kthread.c, sysutils.c, timer.c): task queues, the context switch on a register record, thread
    creation and end, sleeping, waking, the tick. \<^bold>\<open>Sched_Queues\<close>: the queues are rings (locale \<open>task_queue\<close>) of live
    heap regions. \<^bold>\<open>Sched_Proofs\<close>: the invariant \<open>sched_inv\<close>, kept by every operation. \<^bold>\<open>Sched_System\<close>: the invariant
    \<open>sys_inv\<close> adds the stacks and the saved contexts; threads that compute, create threads, sleep, yield and are
    preempted are the step relation \<open>kstep\<close>, and every state it reaches keeps \<open>sys_inv\<close>: \<open>schedule\<close> and the tick return
    from there, and a thread is resumed with the registers it left. A step is one whole operation (a tick does not
    arrive inside one), and no thread returns from its function, since that damages the heap (\<open>thread_return_overruns\<close>); what
    the end of a thread does, this damage included, is \<open>finalize_retires\<close>.

  \<^item> \<^bold>\<open>Interrupt\<close> (interrupt.c, include/sys/interrupt.h): the gates written, the mask registers read back, the exception
    handlers. The controllers are an argument with the hypothesis \<open>pic_8259\<close>.

  \<^item> \<^bold>\<open>Stateful_Cr\<close> (stateful_cr.c): three threads, one step per character they print; what they print under their lock is never
    mixed, in any interleaving (\<open>msleep\<close> up to its wait is one step; it touches neither the lock nor the console). \<^bold>\<open>Proto_Cr\<close>, \<^bold>\<open>Proto_Proofs\<close> (proto_cr.c): the coroutines and their loop, which ends.

  \<^item> \<^bold>\<open>Kernel\<close> (kernel.c) and \<^bold>\<open>Boot\<close>: \<open>kmain\<close>, rejected boots, and the state a successful boot leaves, composed from
    the theorems of all components it starts.

  \<^item> \<^bold>\<open>Ramdisk\<close> (ramdisk.c, vfs.c, include/sys/ufs.h, include/sys/vfs.h): all file system operations. \<^bold>\<open>Ramdisk_Blocks\<close>: the
    bitmap and the block allocator (locale \<open>block_pool\<close>). \<^bold>\<open>Ramdisk_Files\<close>: what a write stores a read returns; seeking
    stays in bounds. \<^bold>\<open>Ramdisk_Large\<close>: the ninth block, whose contents are taken for pointers when it is read, and writing over a file,
    which stores zeros. \<^bold>\<open>Ramdisk_Paths\<close>: the root directory as the list of its slots; creation fills the first empty one and
    lookup finds what was created. \<^bold>\<open>Ramdisk_State\<close>: a fresh disk is an empty directory with one block used, and every sequence of
    file system calls leaves the module's variables and its lock as they were. \<^bold>\<open>Ramdisk_Open\<close>: opening a file, with the
    regions it takes from the allocator, and the round trip from a new disk through a created file. \<^bold>\<open>Ramdisk_Dirs\<close>: removing
    a file (creation undone exactly), making a directory, listing the root directory, closing a descriptor. \<^bold>\<open>Ramdisk_Tree\<close>: paths of
    any depth; lookup refines \<open>resolve\<close>, component by component, and below the root directory nothing is created or removed. \<^bold>\<open>Test_Rd\<close> (test_rd.c):
    the test program and its threads, run on a new disk; the first test fails, since a removed file hides those after it.

  \<^item> \<^bold>\<open>Layout\<close> (the structures of include/sys/): offsets and sizes as the compiler computes them from the declarations.

  \<^item> \<^bold>\<open>Kbd\<close> (src/primer/kbd_busywait/kbd_bw_driver.c, src/primer/kbd_irq/kbd_irq_driver.c): the polling driver delivers the
    key that is pressed; requests it does not know leave the interrupt disabled. \<^bold>\<open>Primer\<close> (the other programs there): the test
    program of the driver, with the system calls and the outcome of its allocations as arguments, prints the line that is typed
    or ends as the code does when an allocation fails.

  This theory has the properties that span components: the system starts and goes on running.

  Bounds in the theorems. The round trip of file contents is for the eight direct blocks, up to 2048 bytes; past them
  the code stores the ninth block's address in another field of the inode, so no larger file reads back (\<open>ninth_block_misread\<close>). Names have up
  to 13 characters, the room of a directory entry with its terminator. The boot theorem is for a loader that passes a
  memory map; a command line and modules that it announces are printed, so their strings must end outside the video buffer.

  Not modelled: the assembler files asm/loader.S and asm/interrupt.S, which appear as addresses of entry points, and
  the macro SETUP_NEW_THREAD, which is not compiled; include/elf.h, declarations no code of the kernel uses;
  src/endoh.c, a comment from its first line to its last; the test programs for other systems under src/MemeOS/test/; primer2,
  a boot sector in real-mode assembler. The branch of \<open>init\<close> under RUN_TEST, switched off in the source, is modelled beside the
  tests it runs (\<open>init_run_test\<close>), not in \<open>init_to_sleep\<close>.
\<close>

section \<open>The components together\<close>


text \<open>
  C5: the system starts. Given the loader's magic number, a multiboot structure with a memory map whose
  largest usable region leaves room after its first 8 MB, zeroed scheduler variables, and the command line and the modules, if the
  loader announces them, as strings and a table outside the video buffer and the descriptor table (\<open>boot_info\<close>), \<open>kmain\<close>
  returns to its idle loop with interrupts enabled and: the invariant of the scheduler and its stacks holds with one
  thread, new, current, whose function is \<open>init\<close>; the descriptor table is loaded and every gate of
  it is the one \<open>init_idt\<close> was to install, not disturbed by what came after; all interrupt lines
  but the timer's are masked; the cursor is on the screen.
\<close>

theorem kmain_starts:
  assumes "boot_info (mem s) mbi pos es (screen \<union> region (IDT s) 2048)"
    and "IDT s \<noteq> 0" and "unat (IDT s) + 2048 \<le> two32" and "region (IDT s) 2048 \<inter> screen = {}"
    and "pic_8259 dev" and "mmap_best es = (ad, len)" and "0x802400 \<le> unat len" and "unat ad + unat len < two32"
    and "zone (unat ad + 0x800000) (unat len - 0x800000) \<inter> (screen \<union> region (IDT s) 2048) = {}"
    and "runq_head s = 0" and "waitq_head s = 0" and "doneq_head s = 0" and "thread_count s = 0" and "current_task s = 0"
  shows "\<exists>s' t. kmain dev entry init_fn MULTIBOOT_BOOTLOADER_MAGIC mbi s = Some (Started, s') \<and> int_flag s' \<and>
     sys_inv s' [t] [] [] K \<and> current_task s' = t \<and> ld32 (mem s') (t + 8) = init_fn \<and> ld32 (mem s') (t + 36) = NEW \<and>
     loaded_idt s' = (0x7FF, IDT s) \<and> idt_ready entry (IDT s) (mem s') \<and> imr dev s' = 0xFFFE \<and> tty_ok s'"
  using kmain_boots [OF assms] .

text \<open>
  The loader's tables at 0x500 and 0x600: a reserved region and a usable one of 16 MB at 1 MB; a command line at 0x700 and
  one module, described at 0x720.
\<close>

definition demo_loader :: "(addr \<times> u32) list" where
  "demo_loader = [(0x500, 0x4C), (0x510, 0x700), (0x514, 1), (0x518, 0x720), (0x52C, 48), (0x530, 0x600), (0x600, 20), (0x60C, 0x90000),
     (0x614, 2), (0x618, 20), (0x61C, 0x100000), (0x624, 0x1000000), (0x62C, 1), (0x700, 0x61), (0x728, 0x700)]"

lemma demo_loader_words:
  "ld32 (words demo_loader) 0x500 = 0x4C" "ld32 (words demo_loader) 0x510 = 0x700" "ld32 (words demo_loader) 0x514 = 1"
  "ld32 (words demo_loader) 0x518 = 0x720" "ld32 (words demo_loader) 0x52C = 48" "ld32 (words demo_loader) 0x530 = 0x600"
  "ld32 (words demo_loader) 0x600 = 20" "ld32 (words demo_loader) 0x604 = 0" "ld32 (words demo_loader) 0x60C = 0x90000"
  "ld32 (words demo_loader) 0x614 = 2" "ld32 (words demo_loader) 0x618 = 20" "ld32 (words demo_loader) 0x61C = 0x100000"
  "ld32 (words demo_loader) 0x624 = 0x1000000" "ld32 (words demo_loader) 0x62C = 1" "ld32 (words demo_loader) 0x728 = 0x700"
  by (simp_all add: demo_loader_def words_def ld32_st32_apart apart_def)

lemma demo_loader_string: "cstr (words demo_loader) 0x700 [0x61]"
  by (simp add: demo_loader_def words_def st32_def)

lemma demo_loader_info:
  "boot_info (words demo_loader) 0x500 0x600 [(20, 0, 0x90000, 2), (20, 0x100000, 0x1000000, 1)]
     (screen \<union> region 0x110000 2048)"
proof -
  have z: "region 0x500 52 \<inter> (screen \<union> region 0x110000 2048) = {}" "zone 0x600 48 \<inter> (screen \<union> region 0x110000 2048) = {}"
    "region 0x700 2 \<inter> (screen \<union> region 0x110000 2048) = {}" "region 0x720 16 \<inter> (screen \<union> region 0x110000 2048) = {}"
    by (auto simp: region_def zone_def screen_def)
  then have "str_ok (words demo_loader) (screen \<union> region 0x110000 2048) 0x700"
    using read_cstrI [OF demo_loader_string] by (simp add: str_ok_def numeral_2_eq_2)
  then show ?thesis using z by (simp add: boot_info_def demo_loader_words mmap_span_def mods_ok_def)
qed

lemma demo_boot:
  fixes s defines "s \<equiv> demo_kern\<lparr>mem := words demo_loader\<rparr>"
  shows "boot_info (mem s) 0x500 0x600 [(20, 0, 0x90000, 2), (20, 0x100000, 0x1000000, 1)] (screen \<union> region (IDT s) 2048)"
    "IDT s \<noteq> 0" "unat (IDT s) + 2048 \<le> two32" "region (IDT s) 2048 \<inter> screen = {}" "pic_8259 demo_pic"
    "mmap_best [(20, 0, 0x90000, 2), (20, 0x100000, 0x1000000, 1)] = (0x100000, 0x1000000)"
    "0x802400 \<le> unat (0x1000000 :: u32)" "unat (0x100000 :: u32) + unat (0x1000000 :: u32) < two32"
    "zone (unat (0x100000 :: u32) + 0x800000) (unat (0x1000000 :: u32) - 0x800000) \<inter> (screen \<union> region (IDT s) 2048) = {}"
    "runq_head s = 0" "waitq_head s = 0" "doneq_head s = 0" "thread_count s = 0" "current_task s = 0"
proof -
  have s: "IDT s = 0x110000" "mem s = words demo_loader" by (simp_all add: s_def demo_kern_def demo_intr_def intr.defs)
  show "runq_head s = 0" "waitq_head s = 0" "doneq_head s = 0" "thread_count s = 0" "current_task s = 0"
    by (simp_all add: s_def demo_kern_def demo_intr_def intr.defs)
  show "boot_info (mem s) 0x500 0x600 [(20, 0, 0x90000, 2), (20, 0x100000, 0x1000000, 1)] (screen \<union> region (IDT s) 2048)"
    using demo_loader_info s by simp
  show "IDT s \<noteq> 0" "unat (IDT s) + 2048 \<le> two32" using s by simp_all
  show "region (IDT s) 2048 \<inter> screen = {}"
    "zone (unat (0x100000 :: u32) + 0x800000) (unat (0x1000000 :: u32) - 0x800000) \<inter> (screen \<union> region (IDT s) 2048) = {}"
    unfolding s by (auto simp: region_def zone_def screen_def)
  show "mmap_best [(20, 0, 0x90000, 2), (20, 0x100000, 0x1000000, 1)] = (0x100000, 0x1000000)"
    by (simp add: mmap_best_def mmap_better_def)
  show "0x802400 \<le> unat (0x1000000 :: u32)" "unat (0x100000 :: u32) + unat (0x1000000 :: u32) < two32" by simp_all
qed (rule demo_pic_ok)

theorem kmain_starts_witness:
  "\<forall>K. \<exists>s' t. kmain demo_pic (\<lambda>f. 0x100000) 0x100200 MULTIBOOT_BOOTLOADER_MAGIC 0x500
       (demo_kern\<lparr>mem := words demo_loader\<rparr>) = Some (Started, s') \<and>
     sys_inv s' [t] [] [] K \<and> ld32 (mem s') (t + 8) = 0x100200"
  using kmain_starts [OF demo_boot] by blast

text \<open>
  C4: once started, the kernel keeps running. After \<open>kmain\<close> with a loader as in \<open>boot_info\<close>, in whatever order threads compute, are
  created, sleep, yield and the timer interrupts them, each such operation being one step that no interrupt cuts in two, the invariant of the
  scheduler and its stacks holds. In every state so reached a call of \<open>schedule\<close> returns, and the thread it enters
  is one of the run queue, with the sleepers just woken appended, or the idle task. A timer interrupt returns too: to the same
  thread, or at the end of the time slice to one of the run queue chosen likewise. A thread that is entered continues with the registers
  it was suspended with, or starts at its function if it is new.
\<close>

theorem kernel_runs:
  assumes "boot_info (mem s) mbi pos es (screen \<union> region (IDT s) 2048)"
    and "IDT s \<noteq> 0" and "unat (IDT s) + 2048 \<le> two32" and "region (IDT s) 2048 \<inter> screen = {}"
    and "pic_8259 dev" and "mmap_best es = (ad, len)" and "0x802400 \<le> unat len" and "unat ad + unat len < two32"
    and "zone (unat ad + 0x800000) (unat len - 0x800000) \<inter> (screen \<union> region (IDT s) 2048) = {}"
    and "runq_head s = 0" and "waitq_head s = 0" and "doneq_head s = 0" and "thread_count s = 0" and "current_task s = 0"
    and "kmain dev entry init_fn MULTIBOOT_BOOTLOADER_MAGIC mbi s = Some (Started, s0)"
    and "kstep\<^sup>*\<^sup>* (s0, K0) (s1, K1)" and "on_stack s1 c"
  shows "\<exists>rq wq dq. sys_inv s1 rq wq dq K1 \<and>
     (\<exists>sw s2. schedule ret c s1 = Some (sw, s2) \<and>
        current_task s2 \<in> insert (idle_task s1) (set (rq @ wakes (mem s1) wq)) \<and>
        entered (mem s1) sw (mem s2) (current_task s2) (K1(current_task s1 := c))) \<and>
     (\<exists>r s2. do_timer ret c s1 = Some (r, s2) \<and>
        (case r of None \<Rightarrow> current_task s2 = current_task s1
         | Some sw \<Rightarrow> current_task s2 \<in> insert (idle_task s1) (set (rq @ wakes (slice_end s1 wq) wq)) \<and>
             entered (mem s1) sw (mem s2) (current_task s2) (K1(current_task s1 := c))))"
proof -
  obtain t where "sys_inv s0 [t] [] [] K0" using kmain_boots [OF assms(1-14), of entry init_fn K0] assms(15) by auto
  then obtain rq wq dq where sys: "sys_inv s1 rq wq dq K1" using kreach_inv [OF assms(16)] by fastforce
  obtain sw s2 where "schedule ret c s1 = Some (sw, s2)" "current_task s2 \<in> insert (idle_task s1) (set (rq @ wakes (mem s1) wq))"
    "entered (mem s1) sw (mem s2) (current_task s2) (K1(current_task s1 := c))"
    using schedule_sys [OF sys assms(17), of ret] by blast
  moreover have "\<exists>r s2. do_timer ret c s1 = Some (r, s2) \<and>
      (case r of None \<Rightarrow> current_task s2 = current_task s1
       | Some sw \<Rightarrow> current_task s2 \<in> insert (idle_task s1) (set (rq @ wakes (slice_end s1 wq) wq)) \<and>
           entered (mem s1) sw (mem s2) (current_task s2) (K1(current_task s1 := c)))"
    using tick_sys [OF sys assms(17), of ret] by (auto split: option.splits)
  ultimately show ?thesis using sys by blast
qed

theorem kernel_runs_witness:
  "\<exists>s0 sw s2. kmain demo_pic (\<lambda>f. 0x100000) 0x100200 MULTIBOOT_BOOTLOADER_MAGIC 0x500
       (demo_kern\<lparr>mem := words demo_loader\<rparr>) = Some (Started, s0) \<and>
     schedule 0 demo_cpu s0 = Some (sw, s2)"
proof -
  obtain s0 t where s0: "kmain demo_pic (\<lambda>f. 0x100000) 0x100200 MULTIBOOT_BOOTLOADER_MAGIC 0x500
       (demo_kern\<lparr>mem := words demo_loader\<rparr>) = Some (Started, s0)" "ld32 (mem s0) (t + 36) = NEW" "current_task s0 = t"
    using kmain_boots [OF demo_boot, of "\<lambda>f. 0x100000" "0x100200"] by blast
  then have "on_stack s0 demo_cpu" by (simp add: on_stack_def)
  then show ?thesis
    using kernel_runs [OF demo_boot s0(1) rtranclp.rtrancl_refl, where ret = 0 and c = demo_cpu] s0(1) by blast
qed

section \<open>The structures in memory\<close>

lemmas layout_eval = offsets_are_def offsetof_def struct_defs round_up_def next_pos_def

text \<open>The offsets the definitions of the components use are those of the source's declarations.\<close>

lemma structs_laid_out:
  "map sizeof kernel_structs = [16, unat sizeof_task, 20, 64, 16, unat UFS_BLOCK_SIZE, unat UFS_BLOCK_SIZE,
     unat UFS_BLOCK_SIZE, 8, 6, 48, 16, 16, 120, 3, 24, 16, 20] \<and>
   offsets_are block_header [([''prev''], h_prev), ([''next''], h_next), ([''size''], h_size), ([''is_free''], h_is_free)] \<and>
   offsets_are task_struct_t
     [([''esp''], t_esp), ([''stack''], t_stack), ([''callable''], t_callable), ([''arg''], t_arg),
      ([''retval''], t_retval), ([''tid''], t_tid), ([''utime''], t_utime), ([''sleep_time''], t_sleep_time),
      ([''priority''], t_priority), ([''status''], t_status), ([''fd_table''], t_fd_table), ([''prev''], t_prev),
      ([''next''], t_next)] \<and>
   offsets_are FILE
     [([''fd''], f_fd), ([''dir_pos''], f_dir_pos), ([''seek_head''], f_seek_head), ([''path''], f_path),
      ([''inode_ptr''], f_inode_ptr)] \<and>
   offsets_are inode_t
     [([''type''], i_type), ([''size''], i_size), ([''dirblock_ptr''], i_dirblock), ([''direct_block_ptrs''], i_direct),
      ([''indirect_block_ptr''], i_indirect), ([''double_indirect_block_ptr''], i_double)] \<and>
   offsets_are ufs_dirent_t [([''filename''], 0), ([''inode_num''], 14)] \<and>
   offsets_are ufs_superblock_t
     [([''magic''], 0), ([''num_blocks''], 4), ([''block_size''], 8), ([''num_inodes''], 12), ([''num_free_blocks''], 16),
      ([''num_free_inodes''], 20), ([''inode_array''], 32), ([''blk_bitmap''], 36), ([''root_blk''], 40)] \<and>
   offsets_are multiboot_info
     [([''flags''], mb_flags), ([''mem_lower''], mb_mem_lower), ([''mem_upper''], mb_mem_upper),
      ([''boot_device''], mb_boot_device), ([''cmdline''], mb_cmdline), ([''mods_count''], mb_mods_count),
      ([''mods_addr''], mb_mods_addr), ([''u'', ''aout_sym'', ''tabsize''], mb_u),
      ([''u'', ''aout_sym'', ''strsize''], mb_u + 4), ([''u'', ''aout_sym'', ''addr''], mb_u + 8),
      ([''u'', ''elf_sec'', ''num''], mb_u), ([''u'', ''elf_sec'', ''size''], mb_u + 4),
      ([''u'', ''elf_sec'', ''addr''], mb_u + 8), ([''u'', ''elf_sec'', ''shndx''], mb_u + 12),
      ([''mmap_length''], mb_mmap_length), ([''mmap_addr''], mb_mmap_addr)] \<and>
   offsets_are multiboot_mod_list [([''mod_start''], 0), ([''mod_end''], 4), ([''cmdline''], 8)] \<and>
   offsets_are multiboot_mmap_entry [([''size''], 0), ([''addr''], 4), ([''len''], 12), ([''type''], 20)]"
  by (intro conjI) (simp_all add: layout_eval kernel_structs_def sizeof_task_def UFS_BLOCK_SIZE_def)

end
